(* ===== verification/SK_Prelude.thy ===== *)
theory SK_Prelude
  imports Main "HOL-Library.Sublist" "HOL-Library.AList" "HOL-Library.Code_Target_Numeral"
begin

text \<open>
  Shared vocabulary of the SealKeeper development.

  \<^item> \<open>time\<close> and \<open>duration\<close>: Go's \<open>time.Time\<close> and \<open>time.Duration\<close> as integer nanoseconds.
    The zero \<open>time.Time\<close>, where the source uses it as "absent", is \<open>None\<close>.
  \<^item> \<open>'e + 'a\<close>: a Go result pair \<open>(value, error)\<close>, \<open>Inl\<close> for a non-nil error.
  \<^item> \<open>'q faults\<close>: which statements the database driver fails during one call. The driver
    is code outside the repository, so every operation takes the set of its failing
    statements as an argument and every theorem quantifies over it.
  \<^item> the SQL tables with an \<open>AUTOINCREMENT\<close> id: the interface \<open>sql_table\<close> states, once, what
    INSERT, UPDATE and DELETE keep of "ids are distinct and below the allocator" and of a
    UNIQUE column; the repositories interpret it on their own rows.
  \<^item> the interface \<open>machine\<close>: an initial state, a step and an invariant kept by the step.
\<close>

section \<open>Time, results, faults\<close>

type_synonym time = int
type_synonym duration = int

abbreviation millisecond :: duration where "millisecond \<equiv> 1000000"
abbreviation second :: duration where "second \<equiv> 1000000000"
abbreviation minute :: duration where "minute \<equiv> 60000000000"
abbreviation hour :: duration where "hour \<equiv> 3600000000000"

type_synonym 'q faults = "'q \<Rightarrow> bool"

abbreviation no_faults :: "'q faults" where "no_faults \<equiv> (\<lambda>_. False)"

text \<open>A call that can also panic at run time (an index out of range).\<close>

datatype ('e, 'a) go_result = Value 'a | Error 'e | Panic

named_theorems sk_defs "definitions unfolded by the branch lemmas"

section \<open>Lists\<close>

lemma dropWhile_sorted_filter:
  assumes "sorted xs"
  shows "dropWhile (\<lambda>x. x < (c::'a::linorder)) xs = filter (\<lambda>x. c \<le> x) xs"
  using assms
proof (induction xs)
  case (Cons a xs)
  show ?case
  proof (cases "a < c")
    case True
    with Cons show ?thesis by (simp add: not_le)
  next
    case False
    with Cons.prems have "\<forall>x\<in>set (a # xs). c \<le> x" by auto
    then have "filter (\<lambda>x. c \<le> x) (a # xs) = a # xs" by (rule filter_id_conv [THEN iffD2])
    with False show ?thesis by simp
  qed
qed simp

lemma sorted_dropWhile: "sorted xs \<Longrightarrow> sorted (dropWhile P xs)"
  by (induction xs) auto

lemma length_filter_mono:
  "(\<And>x. x \<in> set xs \<Longrightarrow> P x \<Longrightarrow> Q x) \<Longrightarrow> length (filter P xs) \<le> length (filter Q xs)"
  by (induction xs) auto

lemma find_Some_in: "find P xs = Some x \<Longrightarrow> x \<in> set xs \<and> P x"
  by (induction xs) (auto split: if_splits)

lemma find_None_all: "find P xs = None \<longleftrightarrow> (\<forall>x\<in>set xs. \<not> P x)"
  by (induction xs) auto

lemma find_map_cong:
  "(\<And>x. x \<in> set xs \<Longrightarrow> P (f x) = P x) \<Longrightarrow> find P (map f xs) = map_option f (find P xs)"
  by (induction xs) auto

lemma find_filter: "find P (filter Q xs) = find (\<lambda>x. Q x \<and> P x) xs"
  by (induction xs) auto

lemma find_append: "find P (xs @ ys) = (case find P xs of Some x \<Rightarrow> Some x | None \<Rightarrow> find P ys)"
  by (induction xs) auto

lemma distinct_map_find:
  assumes "distinct (map k xs)" "x \<in> set xs"
  shows "find (\<lambda>y. k y = k x) xs = Some x"
  using assms by (induction xs) auto

section \<open>Go maps\<close>

text \<open>
  A Go map is an association list with distinct keys: executable, finite, and iterated in
  the order of the list where the source ranges over it (Go leaves the order open; nothing
  below depends on it). \<open>map_of\<close> reads it as a partial function.
\<close>

type_synonym ('k, 'v) gomap = "('k \<times> 'v) list"

abbreviation gm_set :: "'k \<Rightarrow> 'v \<Rightarrow> ('k, 'v) gomap \<Rightarrow> ('k, 'v) gomap" where
  "gm_set \<equiv> AList.update"

abbreviation gm_del :: "'k \<Rightarrow> ('k, 'v) gomap \<Rightarrow> ('k, 'v) gomap" where
  "gm_del \<equiv> AList.delete"

definition gm_wf :: "('k, 'v) gomap \<Rightarrow> bool" where
  "gm_wf m \<longleftrightarrow> distinct (map fst m)"

lemma gm_wf_Nil [simp]: "gm_wf []"
  by (simp add: gm_wf_def)

lemma gm_wf_set [simp]: "gm_wf m \<Longrightarrow> gm_wf (gm_set k v m)"
  by (simp add: gm_wf_def distinct_update)

lemma gm_wf_del [simp]: "gm_wf m \<Longrightarrow> gm_wf (gm_del k m)"
  by (simp add: gm_wf_def distinct_delete)

lemma gm_get_set [simp]: "map_of (gm_set k v m) = (map_of m)(k \<mapsto> v)"
  by (simp add: update_conv')

lemma gm_get_del [simp]: "map_of (gm_del k m) = (map_of m)(k := None)"
  by (simp add: delete_conv')

lemma gm_in_iff: "gm_wf m \<Longrightarrow> (k, v) \<in> set m \<longleftrightarrow> map_of m k = Some v"
  by (simp add: gm_wf_def)

lemma length_gm_set:
  "length (gm_set k v m) = (if k \<in> fst ` set m then length m else Suc (length m))"
  by (induction m) auto

section \<open>Tables with a generated id\<close>

record 'r table =
  t_rows :: "'r list"
  t_next :: int

definition empty_table :: "'r table" where
  "empty_table = \<lparr>t_rows = [], t_next = 1\<rparr>"

definition tbl_insert :: "(int \<Rightarrow> 'r) \<Rightarrow> 'r table \<Rightarrow> int \<times> 'r table" where
  "tbl_insert mk t = (t_next t, \<lparr>t_rows = t_rows t @ [mk (t_next t)], t_next = t_next t + 1\<rparr>)"

definition tbl_update :: "('r \<Rightarrow> bool) \<Rightarrow> ('r \<Rightarrow> 'r) \<Rightarrow> 'r table \<Rightarrow> 'r table" where
  "tbl_update P f t = t\<lparr>t_rows := map (\<lambda>r. if P r then f r else r) (t_rows t)\<rparr>"

definition tbl_affected :: "('r \<Rightarrow> bool) \<Rightarrow> 'r table \<Rightarrow> nat" where
  "tbl_affected P t = length (filter P (t_rows t))"

definition tbl_delete :: "('r \<Rightarrow> bool) \<Rightarrow> 'r table \<Rightarrow> 'r table" where
  "tbl_delete P t = t\<lparr>t_rows := filter (\<lambda>r. \<not> P r) (t_rows t)\<rparr>"

definition tbl_wf :: "('r \<Rightarrow> int) \<Rightarrow> ('r \<Rightarrow> 'k) \<Rightarrow> 'r table \<Rightarrow> bool" where
  "tbl_wf rid key t \<longleftrightarrow> distinct (map rid (t_rows t)) \<and> (\<forall>r\<in>set (t_rows t). rid r < t_next t)
     \<and> distinct (map key (t_rows t))"

lemma tbl_update_keeps:
  assumes "r \<in> set (t_rows t)" "\<And>x. Q (f x) = Q x" "Q r"
  shows "\<exists>r'\<in>set (t_rows (tbl_update P f t)). Q r'"
  using assms by (cases "P r") (force simp: tbl_update_def)+

lemmas tbl_defs = tbl_insert_def tbl_update_def tbl_delete_def

text \<open>
  What a repository relies on in a table whose rows carry an id and a unique key. The
  parameters are the row's id, its key and the setter the INSERT uses.
\<close>

locale sql_table =
  fixes rid :: "'r \<Rightarrow> int" and key :: "'r \<Rightarrow> 'k" and mk :: "'a \<Rightarrow> int \<Rightarrow> 'r"
    and akey :: "'a \<Rightarrow> 'k"
  assumes rid_mk: "rid (mk a i) = i" and key_mk: "key (mk a i) = akey a"
begin

abbreviation wf :: "'r table \<Rightarrow> bool" where
  "wf \<equiv> tbl_wf rid key"

lemma wf_empty: "wf empty_table"
  by (simp add: tbl_wf_def empty_table_def)

lemma wf_insert:
  assumes "wf t" "akey a \<notin> key ` set (t_rows t)"
  shows "wf (snd (tbl_insert (mk a) t))"
  using assms by (force simp: tbl_wf_def tbl_insert_def rid_mk key_mk)

lemma wf_delete: "wf t \<Longrightarrow> wf (tbl_delete P t)"
  by (auto simp: tbl_wf_def tbl_delete_def intro: distinct_map_filter)

lemma wf_update:
  assumes "wf t" "\<And>r. rid (f r) = rid r" "\<And>r. r \<in> set (t_rows t) \<Longrightarrow> P r \<Longrightarrow> key (f r) = key r"
  shows "wf (tbl_update P f t)"
proof -
  have r: "map rid (t_rows (tbl_update P f t)) = map rid (t_rows t)"
    using assms(2) by (simp add: tbl_update_def)
  have k: "map key (t_rows (tbl_update P f t)) = map key (t_rows t)"
    using assms(3) by (simp add: tbl_update_def)
  have b: "\<forall>r\<in>set (t_rows (tbl_update P f t)). rid r < t_next t"
    using assms(1,2) by (auto simp: tbl_update_def tbl_wf_def)
  show ?thesis
    using assms(1) r k b by (simp add: tbl_wf_def) (simp add: tbl_update_def)
qed

lemma find_inserted:
  assumes "wf t"
  shows "find (\<lambda>r. rid r = t_next t) (t_rows (snd (tbl_insert (mk a) t))) = Some (mk a (t_next t))"
proof -
  have "find (\<lambda>r. rid r = t_next t) (t_rows t) = None"
    using assms by (auto simp: tbl_wf_def find_None_all)
  then show ?thesis
    by (simp add: tbl_insert_def find_append rid_mk)
qed

lemma find_key_inserted:
  assumes "akey a \<notin> key ` set (t_rows t)"
  shows "find (\<lambda>r. key r = k) (t_rows (snd (tbl_insert (mk a) t))) =
    (if k = akey a then Some (mk a (t_next t)) else find (\<lambda>r. key r = k) (t_rows t))"
proof -
  have "find (\<lambda>r. key r = akey a) (t_rows t) = None"
    using assms by (force simp: find_None_all)
  then show ?thesis
    by (auto simp: tbl_insert_def find_append key_mk split: option.split)
qed

lemma find_key_unique:
  assumes "wf t" "r \<in> set (t_rows t)" "key r = k"
  shows "find (\<lambda>r. key r = k) (t_rows t) = Some r"
  using assms distinct_map_find [of key "t_rows t" r] by (simp add: tbl_wf_def)

lemma find_id_unique:
  assumes "wf t" "r \<in> set (t_rows t)"
  shows "find (\<lambda>x. rid x = rid r) (t_rows t) = Some r"
  using assms distinct_map_find [of rid "t_rows t" r] by (simp add: tbl_wf_def)

lemma affected_id:
  assumes "wf t"
  shows "tbl_affected (\<lambda>x. rid x = i \<and> Q x) t =
    (case find (\<lambda>x. rid x = i) (t_rows t) of Some r \<Rightarrow> (if Q r then 1 else 0) | None \<Rightarrow> 0)"
proof -
  have "distinct (map rid xs) \<Longrightarrow> length (filter (\<lambda>x. rid x = i \<and> Q x) xs) =
    (case find (\<lambda>x. rid x = i) xs of Some r \<Rightarrow> (if Q r then 1 else 0) | None \<Rightarrow> 0)" for xs
  proof (induction xs)
    case (Cons x xs)
    show ?case
    proof (cases "rid x = i")
      case True
      then have "filter (\<lambda>x. rid x = i \<and> Q x) xs = []"
        using Cons.prems by (auto simp: filter_empty_conv image_iff)
      with True show ?thesis by auto
    next
      case False
      with Cons show ?thesis by simp
    qed
  qed simp
  with assms show ?thesis by (simp add: tbl_wf_def tbl_affected_def)
qed

end

section \<open>State machines\<close>

text \<open>
  A component driven by commands: a step function, an invariant that holds initially and
  is kept by each step. The client lemma is the one every component wants: the invariant
  holds after any run.
\<close>

fun run :: "('c \<Rightarrow> 's \<Rightarrow> 's) \<Rightarrow> 'c list \<Rightarrow> 's \<Rightarrow> 's" where
  "run f [] s = s"
| "run f (c # cs) s = run f cs (f c s)"

lemma run_append [simp]: "run f (xs @ ys) s = run f ys (run f xs s)"
  by (induction xs arbitrary: s) auto

locale machine =
  fixes stp :: "'c \<Rightarrow> 's \<Rightarrow> 's" and inv :: "'s \<Rightarrow> bool"
  assumes inv_step: "inv s \<Longrightarrow> inv (stp c s)"
begin

lemma inv_run: "inv s \<Longrightarrow> inv (run stp cs s)"
  by (induction cs arbitrary: s) (auto intro: inv_step)

end

section \<open>Single-use secrets\<close>

text \<open>
  A store of secrets that can be redeemed once: redeeming succeeds only on a live key, kills
  it, and no redemption brings another key to life. The client lemma: over any sequence of
  redemption attempts, each with its own arguments (clock, faults, caller), a key is redeemed at
  most once, and not at all when it was not live at the start.
\<close>

locale single_use =
  fixes redeem :: "'x \<Rightarrow> 'k \<Rightarrow> 's \<Rightarrow> bool \<times> 's" and live :: "'s \<Rightarrow> 'k \<Rightarrow> bool"
  assumes redeem_needs_live: "redeem x k s = (True, s') \<Longrightarrow> live s k \<and> \<not> live s' k"
    and redeem_keeps_dead: "redeem x k s = (ok, s') \<Longrightarrow> live s' k' \<Longrightarrow> live s k'"
begin

fun wins :: "'k \<Rightarrow> ('x \<times> 'k) list \<Rightarrow> 's \<Rightarrow> nat" where
  "wins k [] s = 0"
| "wins k ((x, k') # as) s =
     (case redeem x k' s of (ok, s') \<Rightarrow> (if ok \<and> k' = k then 1 else 0) + wins k as s')"

lemma wins_bound: "wins k as s \<le> (if live s k then 1 else 0)"
proof (induction as arbitrary: s)
  case (Cons a as)
  obtain x k' where a: "a = (x, k')" by (cases a)
  obtain ok s' where r: "redeem x k' s = (ok, s')" by (cases "redeem x k' s")
  have "live s' k \<Longrightarrow> live s k" using redeem_keeps_dead [OF r] .
  moreover have "ok \<Longrightarrow> live s k' \<and> \<not> live s' k'" using redeem_needs_live r by simp
  ultimately show ?case using a r Cons.IH [of s'] by (auto split: if_splits)
qed simp

end

end
