(* ===== verification/Rate_Limit.thy ===== *)
theory Rate_Limit
  imports SK_Prelude
begin

text \<open>
  \<open>internal/ratelimit/ratelimit.go\<close>: the sliding-window log limiter and the two-dimensional
  \<open>Composite\<close> in front of the public request endpoint.

  \<open>limiter\<close> is the struct (its clock is the \<open>now\<close> argument of every operation, its mutex the
  atomicity of each function). \<open>Allow\<close>, \<open>Inspect\<close> and \<open>Sweep\<close> are the methods. The
  specification is the unbounded log of admitted events: a call is admitted iff fewer than
  \<open>limit\<close> of them lie in the closed window that ends now. The refinement lemmas show that
  the pruned, swept buckets decide exactly as the unbounded log does; the bound on every
  window and the non-interference of the two dimensions follow.
\<close>

section \<open>The limiter\<close>

record limiter =
  l_limit :: int
  l_window :: duration
  l_buckets :: "(string, time list) gomap"

definition New :: "int \<Rightarrow> duration \<Rightarrow> limiter" where
  "New limit window =
     \<lparr>l_limit = limit, l_window = (if window \<le> 0 then hour else window), l_buckets = []\<rparr>"

text \<open>\<open>l.buckets[key]\<close>: a missing key reads as the nil slice.\<close>

definition bucket_of :: "limiter \<Rightarrow> string \<Rightarrow> time list" where
  "bucket_of l key = (case map_of (l_buckets l) key of Some b \<Rightarrow> b | None \<Rightarrow> [])"

text \<open>The loop \<open>for keep < len(bucket) && bucket[keep].Before(cutoff) { keep++ }\<close>.\<close>

fun keep_loop :: "time \<Rightarrow> time list \<Rightarrow> nat" where
  "keep_loop cutoff [] = 0"
| "keep_loop cutoff (t # ts) = (if t < cutoff then Suc (keep_loop cutoff ts) else 0)"

definition Allow :: "time \<Rightarrow> string \<Rightarrow> limiter \<Rightarrow> bool \<times> limiter" where
  "Allow now key l =
     (if l_limit l \<le> 0 then (True, l)
      else
        let cutoff = now - l_window l;
            bucket = bucket_of l key;
            keep = keep_loop cutoff bucket;
            bucket = (if keep > 0 then drop keep bucket else bucket)
        in if int (length bucket) \<ge> l_limit l
           then (False, l\<lparr>l_buckets := gm_set key bucket (l_buckets l)\<rparr>)
           else (True, l\<lparr>l_buckets := gm_set key (bucket @ [now]) (l_buckets l)\<rparr>))"

definition Inspect :: "time \<Rightarrow> string \<Rightarrow> limiter \<Rightarrow> (nat \<times> int \<times> time option) \<times> limiter" where
  "Inspect now key l =
     (let cutoff = now - l_window l;
          bucket = bucket_of l key;
          bucket = drop (keep_loop cutoff bucket) bucket;
          count = length bucket;
          remaining = l_limit l - int count;
          remaining = (if remaining < 0 then 0 else remaining);
          resetAt = (if count > 0 then Some (bucket ! 0 + l_window l) else None)
      in ((count, remaining, resetAt), l\<lparr>l_buckets := gm_set key bucket (l_buckets l)\<rparr>))"

text \<open>The body of \<open>Sweep\<close>'s \<open>range\<close> loop, one map entry at a time: what stays and how many
  entries were dropped.\<close>

fun sweep_loop :: "time \<Rightarrow> (string, time list) gomap \<Rightarrow> nat \<times> (string, time list) gomap" where
  "sweep_loop cutoff [] = (0, [])"
| "sweep_loop cutoff ((k, bucket) # m) =
     (let (dropped, m') = sweep_loop cutoff m;
          bucket' = drop (keep_loop cutoff bucket) bucket
      in if bucket' = [] then (Suc dropped, m') else (dropped, (k, bucket') # m'))"

definition Sweep :: "time \<Rightarrow> limiter \<Rightarrow> nat \<times> limiter" where
  "Sweep now l =
     (let (dropped, m) = sweep_loop (now - l_window l) (l_buckets l)
      in (dropped, l\<lparr>l_buckets := m\<rparr>))"

lemma drop_keep_loop: "drop (keep_loop c b) b = dropWhile (\<lambda>t. t < c) b"
  by (induction b) auto

lemma sweep_loop_snd:
  "snd (sweep_loop c m) =
     filter (\<lambda>(k, b). b \<noteq> []) (map (\<lambda>(k, b). (k, dropWhile (\<lambda>t. t < c) b)) m)"
  by (induction c m rule: sweep_loop.induct) (auto simp: drop_keep_loop Let_def split: prod.splits)

lemma sweep_loop_fst:
  "fst (sweep_loop c m) + length (snd (sweep_loop c m)) = length m"
  by (induction c m rule: sweep_loop.induct) (auto simp: Let_def split: prod.splits)

lemma sweep_loop_keys: "fst ` set (snd (sweep_loop c m)) \<subseteq> fst ` set m"
  by (induction c m rule: sweep_loop.induct) (auto simp: Let_def case_prod_beta)

lemma sweep_loop_wf: "gm_wf m \<Longrightarrow> gm_wf (snd (sweep_loop c m))"
proof (induction c m rule: sweep_loop.induct)
  case (2 c k b m)
  then have "k \<notin> fst ` set (snd (sweep_loop c m))"
    using sweep_loop_keys [of c m] by (auto simp: gm_wf_def)
  with 2 show ?case by (auto simp: gm_wf_def Let_def split: prod.splits)
qed simp

lemma sweep_loop_get:
  assumes "gm_wf m"
  shows "(case map_of (snd (sweep_loop c m)) k of Some b \<Rightarrow> b | None \<Rightarrow> []) =
    dropWhile (\<lambda>t. t < c) (case map_of m k of Some b \<Rightarrow> b | None \<Rightarrow> [])"
  using assms
proof (induction c m rule: sweep_loop.induct)
  case (2 c k' b m)
  obtain d m' where e: "sweep_loop c m = (d, m')" by fastforce
  have IH: "(case map_of m' k of Some b \<Rightarrow> b | None \<Rightarrow> []) =
    dropWhile (\<lambda>t. t < c) (case map_of m k of Some b \<Rightarrow> b | None \<Rightarrow> [])"
    using 2 e by (simp add: gm_wf_def)
  have "k' \<notin> fst ` set m" using 2 by (simp add: gm_wf_def)
  then have "map_of m k' = None" by (simp add: map_of_eq_None_iff)
  moreover have "map_of m' k' = None"
    using sweep_loop_keys [of c m] \<open>k' \<notin> fst ` set m\<close> e by (auto simp: map_of_eq_None_iff)
  ultimately show ?case
    using IH by (auto simp: e Let_def drop_keep_loop dropWhile_eq_Nil_conv [THEN iffD2])
qed simp

lemma bucket_of_Sweep:
  assumes "gm_wf (l_buckets l)"
  shows "bucket_of (snd (Sweep now l)) k = dropWhile (\<lambda>t. t < now - l_window l) (bucket_of l k)"
  using sweep_loop_get [OF assms, of "now - l_window l" k]
  by (simp add: Sweep_def bucket_of_def case_prod_beta)

lemma bucket_of_set [simp]:
  "bucket_of (l\<lparr>l_buckets := gm_set k b (l_buckets l)\<rparr>) k' = (if k' = k then b else bucket_of l k')"
  by (simp add: bucket_of_def)

lemma bucket_of_Inspect:
  "bucket_of (snd (Inspect now k l)) k' =
     (if k' = k then dropWhile (\<lambda>t. t < now - l_window l) (bucket_of l k) else bucket_of l k')"
  by (simp add: Inspect_def Let_def drop_keep_loop)

lemma fst_Inspect:
  "fst (Inspect now k l) =
    (let b = dropWhile (\<lambda>t. t < now - l_window l) (bucket_of l k)
     in (length b, max 0 (l_limit l - int (length b)),
         if b = [] then None else Some (hd b + l_window l)))"
  by (auto simp: Inspect_def Let_def drop_keep_loop hd_conv_nth max_def)

lemma Allow_pruned:
  assumes "0 < l_limit l"
  shows "Allow now k l =
    (let b = dropWhile (\<lambda>t. t < now - l_window l) (bucket_of l k);
         ok = (int (length b) < l_limit l)
     in (ok, l\<lparr>l_buckets := gm_set k (if ok then b @ [now] else b) (l_buckets l)\<rparr>))"
proof -
  have "(if 0 < keep_loop c b then drop (keep_loop c b) b else b) = dropWhile (\<lambda>t. t < c) b" for c b
    by (metis drop0 drop_keep_loop not_gr_zero)
  with assms show ?thesis by (simp add: Allow_def Let_def)
qed

lemma limiter_config [simp]:
  "l_limit (snd (Allow now k l)) = l_limit l" "l_window (snd (Allow now k l)) = l_window l"
  "l_limit (snd (Inspect now k l)) = l_limit l" "l_window (snd (Inspect now k l)) = l_window l"
  "l_limit (snd (Sweep now l)) = l_limit l" "l_window (snd (Sweep now l)) = l_window l"
  by (simp_all add: Allow_def Inspect_def Sweep_def Let_def split: prod.split)

lemma limiter_wf:
  assumes "gm_wf (l_buckets l)"
  shows "gm_wf (l_buckets (snd (Allow now k l)))" "gm_wf (l_buckets (snd (Inspect now k l)))"
    "gm_wf (l_buckets (snd (Sweep now l)))"
  using assms sweep_loop_wf [OF assms, of "now - l_window l"]
  by (simp_all add: Allow_def Inspect_def Sweep_def Let_def case_prod_beta)

section \<open>Specification: the unbounded log of admitted events\<close>

text \<open>
  A timed call sequence against one limiter: \<open>Allow\<close> from request handlers, \<open>Inspect\<close> from
  \<open>Composite.Check\<close> and \<open>allowTokenLookup\<close>, \<open>Sweep\<close> from the janitor. The result lists the
  answer of each \<open>Allow\<close>.
\<close>

datatype call = CAllow string | CInspect string | CSweep

fun calls :: "(time \<times> call) list \<Rightarrow> limiter \<Rightarrow> bool list \<times> limiter" where
  "calls [] l = ([], l)"
| "calls ((now, CAllow k) # cs) l =
     (let (ok, l) = Allow now k l; (oks, l) = calls cs l in (ok # oks, l))"
| "calls ((now, CInspect k) # cs) l = calls cs (snd (Inspect now k l))"
| "calls ((now, CSweep) # cs) l = calls cs (snd (Sweep now l))"

type_synonym event_log = "(time \<times> string) list"

definition in_window :: "string \<Rightarrow> time \<Rightarrow> time \<Rightarrow> event_log \<Rightarrow> nat" where
  "in_window k a b log = length (filter (\<lambda>(t, k'). k' = k \<and> a \<le> t \<and> t \<le> b) log)"

fun spec_calls :: "int \<Rightarrow> duration \<Rightarrow> (time \<times> call) list \<Rightarrow> event_log \<Rightarrow> bool list \<times> event_log" where
  "spec_calls limit w [] log = ([], log)"
| "spec_calls limit w ((now, CAllow k) # cs) log =
     (let ok = (limit \<le> 0 \<or> int (in_window k (now - w) now log) < limit);
          (oks, log') = spec_calls limit w cs (if ok then log @ [(now, k)] else log)
      in (ok # oks, log'))"
| "spec_calls limit w ((now, CInspect k) # cs) log = spec_calls limit w cs log"
| "spec_calls limit w ((now, CSweep) # cs) log = spec_calls limit w cs log"

text \<open>
  The simulation: at time \<open>T\<close> a bucket is what remains of the key's admitted events once a
  prefix that had left the window by \<open>T\<close> was cut off.
\<close>

definition key_log :: "event_log \<Rightarrow> string \<Rightarrow> time list" where
  "key_log log k = map fst (filter (\<lambda>(t, k'). k' = k) log)"

definition lim_sim :: "time \<Rightarrow> limiter \<Rightarrow> event_log \<Rightarrow> bool" where
  "lim_sim T l log \<longleftrightarrow> gm_wf (l_buckets l) \<and> sorted (map fst log) \<and> (\<forall>e\<in>set log. fst e \<le> T)
     \<and> (\<forall>k. \<exists>gone. key_log log k = gone @ bucket_of l k \<and> (\<forall>t\<in>set gone. t < T - l_window l))"

lemma lim_sim_New: "lim_sim T (New limit w) []"
  by (simp add: lim_sim_def New_def key_log_def bucket_of_def)

lemma key_log_sorted: "sorted (map fst log) \<Longrightarrow> sorted (key_log log k)"
  by (induction log) (auto simp: key_log_def)

lemma key_log_append: "key_log (log @ [(t, k')]) k = key_log log k @ (if k' = k then [t] else [])"
  by (simp add: key_log_def)

lemma in_window_key_log:
  "in_window k a b log = length (filter (\<lambda>t. a \<le> t \<and> t \<le> b) (key_log log k))"
  by (induction log) (auto simp: in_window_def key_log_def)

text \<open>Pruning at \<open>now \<ge> T\<close> keeps exactly the admitted events of the window that ends at \<open>now\<close>.\<close>

lemma pruned_bucket:
  assumes sim: "lim_sim T l log" and now: "T \<le> now"
  shows "dropWhile (\<lambda>t. t < now - l_window l) (bucket_of l k) =
    filter (\<lambda>t. now - l_window l \<le> t \<and> t \<le> now) (key_log log k)"
proof -
  obtain gone where g: "key_log log k = gone @ bucket_of l k" "\<forall>t\<in>set gone. t < T - l_window l"
    using sim unfolding lim_sim_def by blast
  have le: "\<forall>t\<in>set (key_log log k). t \<le> now"
    using sim now by (force simp: lim_sim_def key_log_def)
  have "sorted (key_log log k)" using sim by (simp add: lim_sim_def key_log_sorted)
  then have srt: "sorted (bucket_of l k)" using g(1) by (simp add: sorted_append)
  have "filter (\<lambda>t. now - l_window l \<le> t \<and> t \<le> now) gone = []"
    using g(2) now by (auto simp: filter_empty_conv)
  moreover have "filter (\<lambda>t. now - l_window l \<le> t \<and> t \<le> now) (bucket_of l k) =
      filter (\<lambda>t. now - l_window l \<le> t) (bucket_of l k)"
    using le g(1) by (intro filter_cong) auto
  ultimately show ?thesis
    using g(1) dropWhile_sorted_filter [OF srt, of "now - l_window l"] by simp
qed

lemma dropWhile_split: "\<exists>d. xs = d @ dropWhile P xs \<and> (\<forall>x\<in>set d. P x)"
  by (metis set_takeWhileD takeWhile_dropWhile_id)

text \<open>One pruned bucket in place of the old one keeps the simulation; so does appending an
  admitted event to both sides.\<close>

lemma lim_sim_prune:
  assumes sim: "lim_sim T l log" and now: "T \<le> now" and wf: "gm_wf (l_buckets l')"
    and w: "l_window l' = l_window l"
    and b: "\<And>k. bucket_of l' k = bucket_of l k
        \<or> bucket_of l' k = dropWhile (\<lambda>t. t < now - l_window l) (bucket_of l k)"
  shows "lim_sim now l' log"
  unfolding lim_sim_def
proof (intro conjI allI)
  show "gm_wf (l_buckets l')" by (rule wf)
  show "sorted (map fst log)" "\<forall>e\<in>set log. fst e \<le> now"
    using sim now by (auto simp: lim_sim_def)
  fix k
  obtain gone where g: "key_log log k = gone @ bucket_of l k" "\<forall>t\<in>set gone. t < T - l_window l"
    using sim unfolding lim_sim_def by blast
  obtain d where d: "bucket_of l k = d @ dropWhile (\<lambda>t. t < now - l_window l) (bucket_of l k)"
    "\<forall>t\<in>set d. t < now - l_window l"
    using dropWhile_split [of "bucket_of l k" "\<lambda>t. t < now - l_window l"] by blast
  show "\<exists>gone. key_log log k = gone @ bucket_of l' k \<and> (\<forall>t\<in>set gone. t < now - l_window l')"
  proof (cases "bucket_of l' k = bucket_of l k")
    case True
    then show ?thesis using g now w by (intro exI [of _ gone]) auto
  next
    case False
    then have "bucket_of l' k = dropWhile (\<lambda>t. t < now - l_window l) (bucket_of l k)" using b by blast
    then show ?thesis using g d now w by (intro exI [of _ "gone @ d"]) auto
  qed
qed

lemma lim_sim_admit:
  assumes sim: "lim_sim now l log" and wf: "gm_wf (l_buckets l')" and w: "l_window l' = l_window l"
    and b: "\<And>k'. bucket_of l' k' = bucket_of l k' @ (if k' = k then [now] else [])"
  shows "lim_sim now l' (log @ [(now, k)])"
proof -
  have "\<exists>gone. key_log (log @ [(now, k)]) k' = gone @ bucket_of l' k' \<and> (\<forall>t\<in>set gone. t < now - l_window l')"
    for k'
    using sim b [of k'] w unfolding lim_sim_def key_log_append by force
  with sim wf show ?thesis
    by (auto simp: lim_sim_def sorted_append)
qed

lemma Allow_sim:
  assumes sim: "lim_sim T l log" and now: "T \<le> now" and lim: "0 < l_limit l"
  shows "fst (Allow now k l) = (int (in_window k (now - l_window l) now log) < l_limit l)"
    and "lim_sim now (snd (Allow now k l)) (if fst (Allow now k l) then log @ [(now, k)] else log)"
proof -
  let ?b = "dropWhile (\<lambda>t. t < now - l_window l) (bucket_of l k)"
  let ?p = "l\<lparr>l_buckets := gm_set k ?b (l_buckets l)\<rparr>"
  have wf: "gm_wf (l_buckets l)" using sim by (simp add: lim_sim_def)
  show ok: "fst (Allow now k l) = (int (in_window k (now - l_window l) now log) < l_limit l)"
    by (simp add: Allow_pruned [OF lim] Let_def in_window_key_log pruned_bucket [OF sim now])
  have p: "lim_sim now ?p log"
    using wf by (intro lim_sim_prune [OF sim now]) auto
  show "lim_sim now (snd (Allow now k l)) (if fst (Allow now k l) then log @ [(now, k)] else log)"
  proof (cases "fst (Allow now k l)")
    case True
    have "lim_sim now (l\<lparr>l_buckets := gm_set k (?b @ [now]) (l_buckets l)\<rparr>) (log @ [(now, k)])"
      using wf by (intro lim_sim_admit [OF p]) auto
    with True show ?thesis by (simp add: Allow_pruned [OF lim] Let_def)
  next
    case False
    with p show ?thesis by (simp add: Allow_pruned [OF lim] Let_def)
  qed
qed

lemma Inspect_sim:
  assumes "lim_sim T l log" "T \<le> now"
  shows "lim_sim now (snd (Inspect now k l)) log"
  using assms(1) by (intro lim_sim_prune [OF assms]) (auto simp: bucket_of_Inspect limiter_wf lim_sim_def)

lemma Sweep_sim:
  assumes "lim_sim T l log" "T \<le> now"
  shows "lim_sim now (snd (Sweep now l)) log"
proof -
  have wf: "gm_wf (l_buckets l)" using assms(1) by (simp add: lim_sim_def)
  show ?thesis
    by (intro lim_sim_prune [OF assms]) (simp_all add: limiter_wf [OF wf] bucket_of_Sweep [OF wf])
qed

lemma calls_sim:
  assumes "lim_sim T l log" "sorted (T # map fst cs)" "0 < l_limit l"
  shows "fst (calls cs l) = fst (spec_calls (l_limit l) (l_window l) cs log)"
  using assms
proof (induction cs arbitrary: T l log)
  case (Cons c cs)
  obtain now a where c: "c = (now, a)" by fastforce
  have T: "T \<le> now" and srt: "sorted (now # map fst cs)" using Cons.prems(2) c by auto
  show ?case
  proof (cases a)
    case (CAllow k)
    note A = Allow_sim [OF Cons.prems(1) T Cons.prems(3), of k]
    have "fst (calls cs (snd (Allow now k l))) =
      fst (spec_calls (l_limit l) (l_window l) cs (if fst (Allow now k l) then log @ [(now, k)] else log))"
      using Cons.IH [OF A(2) srt] Cons.prems(3) by simp
    then show ?thesis
      using A(1) Cons.prems(3) by (simp add: c CAllow Let_def case_prod_beta)
  next
    case (CInspect k)
    then show ?thesis
      using Cons.IH [OF Inspect_sim [OF Cons.prems(1) T, of k] srt] Cons.prems(3) by (simp add: c)
  next
    case CSweep
    then show ?thesis
      using Cons.IH [OF Sweep_sim [OF Cons.prems(1) T] srt] Cons.prems(3) by (simp add: c)
  qed
qed simp

section \<open>Every window of the specification is within the cap\<close>

fun admitted :: "(time \<times> call) list \<Rightarrow> bool list \<Rightarrow> event_log" where
  "admitted ((now, CAllow k) # cs) (ok # oks) = (if ok then [(now, k)] else []) @ admitted cs oks"
| "admitted ((now, CInspect k) # cs) oks = admitted cs oks"
| "admitted ((now, CSweep) # cs) oks = admitted cs oks"
| "admitted _ _ = []"

lemma spec_calls_log:
  "snd (spec_calls limit w cs log) = log @ admitted cs (fst (spec_calls limit w cs log))"
  by (induction limit w cs log rule: spec_calls.induct) (auto simp: Let_def case_prod_beta)

definition log_bounded :: "int \<Rightarrow> duration \<Rightarrow> event_log \<Rightarrow> bool" where
  "log_bounded limit w log \<longleftrightarrow> (\<forall>k a. int (in_window k a (a + w) log) \<le> limit)"

lemma in_window_snoc:
  "in_window k a b (log @ [(t, k')]) = in_window k a b log + (if k' = k \<and> a \<le> t \<and> t \<le> b then 1 else 0)"
  by (simp add: in_window_def)

lemma in_window_mono: "a' \<le> a \<Longrightarrow> b \<le> b' \<Longrightarrow> in_window k a b log \<le> in_window k a' b' log"
  unfolding in_window_def by (rule length_filter_mono) auto

text \<open>An admitted event can only fill windows that reach back no further than the one that
  was tested.\<close>

lemma log_bounded_admit:
  assumes b: "log_bounded limit w log" and le: "\<forall>e\<in>set log. fst e \<le> now"
    and ok: "int (in_window k (now - w) now log) < limit"
  shows "log_bounded limit w (log @ [(now, k)])"
  unfolding log_bounded_def
proof (intro allI)
  fix k' a
  show "int (in_window k' a (a + w) (log @ [(now, k)])) \<le> limit"
  proof (cases "k = k' \<and> a \<le> now \<and> now \<le> a + w")
    case True
    have "in_window k a (a + w) log = in_window k a now log"
      using le True unfolding in_window_def by (intro arg_cong [where f = length] filter_cong) auto
    also have "\<dots> \<le> in_window k (now - w) now log"
      using True by (intro in_window_mono) auto
    finally show ?thesis using ok True by (simp add: in_window_snoc)
  next
    case False
    then have "in_window k' a (a + w) (log @ [(now, k)]) = in_window k' a (a + w) log"
      by (auto simp: in_window_snoc)
    then show ?thesis using b by (simp add: log_bounded_def)
  qed
qed

lemma spec_calls_bounded:
  assumes "log_bounded limit w log" "\<forall>e\<in>set log. fst e \<le> T" "sorted (T # map fst cs)" "0 < limit"
  shows "log_bounded limit w (snd (spec_calls limit w cs log))"
  using assms
proof (induction cs arbitrary: T log)
  case (Cons c cs)
  obtain now a where c: "c = (now, a)" by fastforce
  have T: "T \<le> now" and srt: "sorted (now # map fst cs)" using Cons.prems(3) c by auto
  have le: "\<forall>e\<in>set log. fst e \<le> now" using Cons.prems(2) T by auto
  show ?case
  proof (cases a)
    case (CAllow k)
    let ?log = "if int (in_window k (now - w) now log) < limit then log @ [(now, k)] else log"
    have "log_bounded limit w ?log" "\<forall>e\<in>set ?log. fst e \<le> now"
      using log_bounded_admit [OF Cons.prems(1) le] Cons.prems(1) le by auto
    with Cons.IH [of ?log now] srt Cons.prems(4) show ?thesis
      by (simp add: c CAllow Let_def case_prod_beta)
  next
    case (CInspect k)
    with Cons.IH [OF Cons.prems(1) le srt Cons.prems(4)] show ?thesis by (simp add: c)
  next
    case CSweep
    with Cons.IH [OF Cons.prems(1) le srt Cons.prems(4)] show ?thesis by (simp add: c)
  qed
qed simp

lemma calls_spec_New:
  assumes "0 < limit" "sorted (map fst cs)"
  shows "fst (calls cs (New limit w)) = fst (spec_calls limit (l_window (New limit w)) cs [])"
proof (cases cs)
  case (Cons c cs')
  have "lim_sim (fst c) (New limit w) []" by (rule lim_sim_New)
  then show ?thesis using calls_sim [of "fst c" "New limit w" "[]" cs] assms Cons by (simp add: New_def)
qed simp

section \<open>The interface of a limiter and the composite check\<close>

text \<open>
  \<open>usage t k l\<close>: the events of \<open>k\<close> that count against the cap at time \<open>t\<close>.
\<close>

definition usage :: "time \<Rightarrow> string \<Rightarrow> limiter \<Rightarrow> nat" where
  "usage t k l = length (dropWhile (\<lambda>x. x < t - l_window l) (bucket_of l k))"

record decision =
  Allowed :: bool
  Reason :: string

record 'l composite =
  c_email :: "'l option"
  c_ip :: "'l option"

text \<open>
  \<open>Composite.Check\<close> over any implementation of the limiter's three methods: the package
  comment announces that the in-memory limiter will be replaced behind this surface. A nil
  limiter is \<open>None\<close>. Every method call takes the limiter's own lock, so other requests can
  run between two of them: \<open>i1\<close>, \<open>i2\<close>, \<open>i3\<close> are what they do to the shared limiters before
  the second, third and fourth critical section, and \<open>n1..n4\<close> are the clock readings.
\<close>

definition dim_on :: "('l \<Rightarrow> int) \<Rightarrow> 'l option \<Rightarrow> string \<Rightarrow> bool" where
  "dim_on cap lo key = (case lo of None \<Rightarrow> False | Some l \<Rightarrow> key \<noteq> [] \<and> cap l > 0)"

definition peek :: "(time \<Rightarrow> string \<Rightarrow> 'l \<Rightarrow> (nat \<times> int \<times> time option) \<times> 'l)
    \<Rightarrow> time \<Rightarrow> string \<Rightarrow> 'l option \<Rightarrow> bool \<times> 'l option" where
  "peek inspect now key lo =
     (case lo of None \<Rightarrow> (False, None)
      | Some l \<Rightarrow> let ((_, remaining, _), l') = inspect now key l in (remaining = 0, Some l'))"

definition charge :: "(time \<Rightarrow> string \<Rightarrow> 'l \<Rightarrow> bool \<times> 'l) \<Rightarrow> time \<Rightarrow> string \<Rightarrow> 'l option
    \<Rightarrow> bool \<times> 'l option" where
  "charge allow now key lo =
     (case lo of None \<Rightarrow> (True, None) | Some l \<Rightarrow> let (ok, l') = allow now key l in (ok, Some l'))"

definition Check_with where
  "Check_with inspect allow cap n1 n2 n3 n4 i1 i2 i3 email ip c =
     (let ipOn = dim_on cap (c_ip c) ip;
          emailOn = dim_on cap (c_email c) email;
          (full, lo) = (if ipOn then peek inspect n1 ip (c_ip c) else (False, c_ip c));
          c = c\<lparr>c_ip := lo\<rparr>
      in if full then (\<lparr>Allowed = False, Reason = ''ip''\<rparr>, c)
      else
      let c = i1 c;
          (full, lo) = (if emailOn then peek inspect n2 email (c_email c) else (False, c_email c));
          c = c\<lparr>c_email := lo\<rparr>
      in if full then (\<lparr>Allowed = False, Reason = ''email''\<rparr>, c)
      else
      let c = i2 c;
          (ok, lo) = (if ipOn then charge allow n3 ip (c_ip c) else (True, c_ip c));
          c = c\<lparr>c_ip := lo\<rparr>
      in if \<not> ok then (\<lparr>Allowed = False, Reason = ''ip''\<rparr>, c)
      else
      let c = i3 c;
          (ok, lo) = (if emailOn then charge allow n4 email (c_email c) else (True, c_email c));
          c = c\<lparr>c_email := lo\<rparr>
      in if \<not> ok then (\<lparr>Allowed = False, Reason = ''email''\<rparr>, c)
      else (\<lparr>Allowed = True, Reason = []\<rparr>, c))"

definition Check ::
  "time \<Rightarrow> time \<Rightarrow> time \<Rightarrow> time \<Rightarrow> (limiter composite \<Rightarrow> limiter composite) \<Rightarrow>
   (limiter composite \<Rightarrow> limiter composite) \<Rightarrow> (limiter composite \<Rightarrow> limiter composite) \<Rightarrow>
   string \<Rightarrow> string \<Rightarrow> limiter composite \<Rightarrow> decision \<times> limiter composite" where
  "Check = Check_with Inspect Allow l_limit"

text \<open>No other request runs during the check.\<close>

definition Check_alone :: "time \<Rightarrow> string \<Rightarrow> string \<Rightarrow> limiter composite \<Rightarrow> decision \<times> limiter composite" where
  "Check_alone now = Check now now now now (\<lambda>c. c) (\<lambda>c. c) (\<lambda>c. c)"

locale limiter_iface =
  fixes inspect :: "time \<Rightarrow> string \<Rightarrow> 'l \<Rightarrow> (nat \<times> int \<times> time option) \<times> 'l"
    and allow :: "time \<Rightarrow> string \<Rightarrow> 'l \<Rightarrow> bool \<times> 'l"
    and cap :: "'l \<Rightarrow> int"
    and used :: "time \<Rightarrow> string \<Rightarrow> 'l \<Rightarrow> nat"
    and ok :: "'l \<Rightarrow> bool"
  assumes inspect_remaining: "0 < cap l \<Longrightarrow>
      (fst (snd (fst (inspect now k l))) = 0) = (cap l \<le> int (used now k l))"
    and inspect_used: "now \<le> t \<Longrightarrow> used t k' (snd (inspect now k l)) = used t k' l"
    and inspect_cap: "cap (snd (inspect now k l)) = cap l"
    and inspect_ok: "ok l \<Longrightarrow> ok (snd (inspect now k l))"
    and allow_answer: "0 < cap l \<Longrightarrow> fst (allow now k l) = (int (used now k l) < cap l)"
    and allow_admits: "0 < cap l \<Longrightarrow> ok l \<Longrightarrow> fst (allow now k l) \<Longrightarrow>
      used now k' (snd (allow now k l)) = used now k' l + (if k' = k then 1 else 0)"
    and allow_refuses: "0 < cap l \<Longrightarrow> \<not> fst (allow now k l) \<Longrightarrow> now \<le> t \<Longrightarrow>
      used t k' (snd (allow now k l)) = used t k' l"
    and used_antimono: "now \<le> t \<Longrightarrow> used t k l \<le> used now k l"
begin

text \<open>What a peek announces, the charge that follows it keeps, as long as nothing ran in between.\<close>

lemma peek_then_allow:
  assumes "0 < cap l" "now \<le> t" "fst (snd (fst (inspect now k l))) \<noteq> 0"
  shows "fst (allow t k (snd (inspect now k l)))"
proof -
  have "int (used now k l) < cap l" using assms inspect_remaining [of l now k] by auto
  moreover have "used t k l \<le> used now k l" by (rule used_antimono [OF assms(2)])
  ultimately show ?thesis
    using assms by (simp add: allow_answer inspect_cap inspect_used)
qed

text \<open>With no interference the outcome is decided by the two peeks; a refusal leaves both
  usages as they were.\<close>

lemma check_alone_refused:
  assumes mono: "n1 \<le> n2" "n2 \<le> n3" "n3 \<le> n4" "n4 \<le> t"
    and ref: "\<not> Allowed (fst (Check_with inspect allow cap n1 n2 n3 n4 (\<lambda>c. c) (\<lambda>c. c) (\<lambda>c. c) email ip c))"
  defines "c' \<equiv> snd (Check_with inspect allow cap n1 n2 n3 n4 (\<lambda>c. c) (\<lambda>c. c) (\<lambda>c. c) email ip c)"
  shows "map_option (used t k) (c_ip c') = map_option (used t k) (c_ip c)"
    and "map_option (used t k) (c_email c') = map_option (used t k) (c_email c)"
proof -
  have ip: "fst (charge allow n3 ip (snd (peek inspect n1 ip (c_ip c))))"
    if "dim_on cap (c_ip c) ip" "\<not> fst (peek inspect n1 ip (c_ip c))"
    using that peek_then_allow [of _ n1 n3 ip] mono
    by (auto simp: dim_on_def peek_def charge_def case_prod_beta split: option.splits)
  have email: "fst (charge allow n4 email (snd (peek inspect n2 email (c_email c))))"
    if "dim_on cap (c_email c) email" "\<not> fst (peek inspect n2 email (c_email c))"
    using that peek_then_allow [of _ n2 n4 email] mono
    by (auto simp: dim_on_def peek_def charge_def case_prod_beta split: option.splits)
  have p1: "map_option (used t k) (snd (peek inspect n1 ip lo)) = map_option (used t k) lo" for lo
    using mono by (auto simp: peek_def case_prod_beta inspect_used split: option.splits)
  have p2: "map_option (used t k) (snd (peek inspect n2 email lo)) = map_option (used t k) lo" for lo
    using mono by (auto simp: peek_def case_prod_beta inspect_used split: option.splits)
  show "map_option (used t k) (c_ip c') = map_option (used t k) (c_ip c)"
    using ref p1 ip email unfolding c'_def Check_with_def
    by (auto simp: Let_def case_prod_beta split: if_splits)
  show "map_option (used t k) (c_email c') = map_option (used t k) (c_email c)"
    using ref p2 ip email unfolding c'_def Check_with_def
    by (auto simp: Let_def case_prod_beta split: if_splits)
qed

text \<open>An admitted request used one slot of each dimension that is on.\<close>

lemma check_alone_allowed:
  assumes all: "Allowed (fst (Check_with inspect allow cap now now now now (\<lambda>c. c) (\<lambda>c. c) (\<lambda>c. c) email ip c))"
    and okc: "pred_option ok (c_ip c)" "pred_option ok (c_email c)"
  defines "c' \<equiv> snd (Check_with inspect allow cap now now now now (\<lambda>c. c) (\<lambda>c. c) (\<lambda>c. c) email ip c)"
  shows "map_option (used now k) (c_ip c') =
      map_option (\<lambda>l. used now k l + (if dim_on cap (c_ip c) ip \<and> k = ip then 1 else 0)) (c_ip c)"
    and "map_option (used now k) (c_email c') =
      map_option (\<lambda>l. used now k l + (if dim_on cap (c_email c) email \<and> k = email then 1 else 0)) (c_email c)"
proof -
  have step: "map_option (used now k) (snd (charge allow now key (snd (peek inspect now key lo)))) =
      map_option (\<lambda>l. used now k l + (if k = key then 1 else 0)) lo"
    if on: "dim_on cap lo key" "pred_option ok lo" "fst (charge allow now key (snd (peek inspect now key lo)))"
    for lo key
  proof -
    obtain l where l: "lo = Some l" using on(1) by (cases lo) (auto simp: dim_on_def)
    have c: "0 < cap (snd (inspect now key l))" and o: "ok (snd (inspect now key l))"
      and a: "fst (allow now key (snd (inspect now key l)))"
      using on l by (auto simp: dim_on_def inspect_cap charge_def peek_def case_prod_beta inspect_ok)
    show ?thesis
      using allow_admits [OF c o a, of k] by (simp add: l charge_def peek_def case_prod_beta inspect_used)
  qed
  show "map_option (used now k) (c_ip c') =
      map_option (\<lambda>l. used now k l + (if dim_on cap (c_ip c) ip \<and> k = ip then 1 else 0)) (c_ip c)"
    using all okc step [of "c_ip c" ip] unfolding c'_def Check_with_def
    by (auto simp: Let_def case_prod_beta split: if_splits)
  show "map_option (used now k) (c_email c') =
      map_option (\<lambda>l. used now k l + (if dim_on cap (c_email c) email \<and> k = email then 1 else 0)) (c_email c)"
    using all okc step [of "c_email c" email] unfolding c'_def Check_with_def
    by (auto simp: Let_def case_prod_beta split: if_splits)
qed

end

text \<open>The in-memory limiter keeps the contract.\<close>

lemma dropWhile_dropWhile_le:
  "(c::int) \<le> d \<Longrightarrow> dropWhile (\<lambda>x. x < d) (dropWhile (\<lambda>x. x < c) xs) = dropWhile (\<lambda>x. x < d) xs"
  by (induction xs) auto

lemma dropWhile_snoc_stop: "\<not> P y \<Longrightarrow> dropWhile P (dropWhile P xs @ [y]) = dropWhile P xs @ [y]"
  by (induction xs) auto

lemma usage_antimono: "now \<le> t \<Longrightarrow> usage t k l \<le> usage now k l"
  unfolding usage_def
  by (subst dropWhile_dropWhile_le [of "now - l_window l" "t - l_window l", symmetric])
     (auto intro: length_dropWhile_le)

interpretation mem: limiter_iface Inspect Allow l_limit usage "\<lambda>l. 0 < l_window l"
proof unfold_locales
  fix l :: limiter and now t :: time and k k' :: string
  show "0 < l_limit l \<Longrightarrow>
      (fst (snd (fst (Inspect now k l))) = 0) = (l_limit l \<le> int (usage now k l))"
    by (auto simp: fst_Inspect Let_def usage_def)
  show "now \<le> t \<Longrightarrow> usage t k' (snd (Inspect now k l)) = usage t k' l"
    by (simp add: usage_def bucket_of_Inspect dropWhile_dropWhile_le)
  show "0 < l_limit l \<Longrightarrow> fst (Allow now k l) = (int (usage now k l) < l_limit l)"
    by (simp add: Allow_pruned Let_def usage_def)
  show "0 < l_limit l \<Longrightarrow> 0 < l_window l \<Longrightarrow> fst (Allow now k l) \<Longrightarrow>
      usage now k' (snd (Allow now k l)) = usage now k' l + (if k' = k then 1 else 0)"
    by (simp add: Allow_pruned Let_def usage_def dropWhile_snoc_stop)
  show "0 < l_limit l \<Longrightarrow> \<not> fst (Allow now k l) \<Longrightarrow> now \<le> t \<Longrightarrow>
      usage t k' (snd (Allow now k l)) = usage t k' l"
    by (simp add: Allow_pruned Let_def usage_def dropWhile_dropWhile_le)
qed (simp_all add: usage_antimono)

section \<open>Properties\<close>

text \<open>
  C36. Whatever sequence of \<open>Allow\<close>, \<open>Inspect\<close> and \<open>Sweep\<close> calls a limiter receives in
  chronological order, each \<open>Allow\<close> answers exactly as the unbounded sliding-window log
  does: admitted iff fewer than \<open>limit\<close> admitted events of the key lie in the closed window
  of length \<open>window\<close> ending now. Pruning and sweeping the buckets is unobservable.
\<close>

theorem allow_refines_sliding_window_log:
  assumes "0 < limit" "sorted (map fst cs)"
  shows "fst (calls cs (New limit w)) =
    fst (spec_calls limit (if w \<le> 0 then hour else w) cs [])"
  using calls_spec_New [OF assms, of w] by (simp add: New_def)

theorem allow_refines_sliding_window_log_witness:
  "fst (calls [(0, CAllow ''a''), (1, CAllow ''a''), (2, CSweep), (3, CInspect ''a''),
       (4, CAllow ''a''), (12, CAllow ''a'')] (New 2 10)) = [True, True, False, True]"
proof -
  have "fst (calls [(0, CAllow ''a''), (1, CAllow ''a''), (2, CSweep), (3, CInspect ''a''),
       (4, CAllow ''a''), (12, CAllow ''a'')] (New 2 10)) =
    fst (spec_calls 2 10 [(0, CAllow ''a''), (1, CAllow ''a''), (2, CSweep), (3, CInspect ''a''),
       (4, CAllow ''a''), (12, CAllow ''a'')] [])"
    by (subst allow_refines_sliding_window_log) simp_all
  also have "\<dots> = [True, True, False, True]"
    by (simp add: in_window_def)
  finally show ?thesis .
qed

text \<open>
  C11. Every time window of the configured length contains at most \<open>limit\<close> admitted events of
  a key, whatever the calls and however they interleave with sweeps.
\<close>

theorem window_never_exceeds_limit:
  assumes "0 < limit" "sorted (map fst cs)"
  shows "int (in_window k a (a + l_window (New limit w))
    (admitted cs (fst (calls cs (New limit w))))) \<le> limit"
proof (cases cs)
  case Nil
  with assms show ?thesis by (simp add: in_window_def)
next
  case (Cons c cs')
  let ?w = "l_window (New limit w)"
  have "log_bounded limit ?w []" using assms(1) by (simp add: log_bounded_def in_window_def)
  then have "log_bounded limit ?w (snd (spec_calls limit ?w cs []))"
    by (rule spec_calls_bounded [where T = "fst c"]) (use assms Cons in auto)
  then show ?thesis
    by (simp add: spec_calls_log calls_spec_New [OF assms] log_bounded_def)
qed

theorem window_never_exceeds_limit_witness:
  "int (in_window ''a'' 0 10 (admitted [(0, CAllow ''a''), (1, CAllow ''a''), (2, CAllow ''a'')]
     (fst (calls [(0, CAllow ''a''), (1, CAllow ''a''), (2, CAllow ''a'')] (New 2 10))))) \<le> 2"
  using window_never_exceeds_limit
    [of 2 "[(0, CAllow ''a''), (1, CAllow ''a''), (2, CAllow ''a'')]" "''a''" 0 10]
  by (simp add: New_def)

text \<open>
  \<open>Composite.Check\<close> undisturbed by other requests: a refused request takes no slot, in
  either dimension and for any key, at any later time. A caller over its own IP cap cannot
  burn another user's per-email quota.
\<close>

theorem check_refused_takes_no_slot:
  assumes "\<not> Allowed (fst (Check_alone now email ip c))" "now \<le> t"
  shows "map_option (usage t k) (c_ip (snd (Check_alone now email ip c))) = map_option (usage t k) (c_ip c)
    \<and> map_option (usage t k) (c_email (snd (Check_alone now email ip c))) = map_option (usage t k) (c_email c)"
  using mem.check_alone_refused [of now now now now t email ip c] assms
  by (simp add: Check_alone_def Check_def)

theorem check_refused_takes_no_slot_witness:
  "map_option (usage 5 ''v'') (c_email (snd (Check_alone 5 ''v'' ''x''
      \<lparr>c_email = Some (New 3 10), c_ip = Some ((New 1 10)\<lparr>l_buckets := [(''x'', [1])]\<rparr>)\<rparr>)))
   = Some 0"
proof -
  let ?c = "\<lparr>c_email = Some (New 3 10), c_ip = Some ((New 1 10)\<lparr>l_buckets := [(''x'', [1])]\<rparr>)\<rparr>"
  have "\<not> Allowed (fst (Check_alone 5 ''v'' ''x'' ?c))"
    by (simp add: Check_alone_def Check_def Check_with_def dim_on_def peek_def Inspect_def New_def
        bucket_of_def Let_def)
  from check_refused_takes_no_slot [OF this, of 5 "''v''"]
  show ?thesis by (simp add: usage_def bucket_of_def New_def)
qed

text \<open>
  An admitted request takes exactly one slot of its own key in each dimension that is
  switched on (limiter wired, key non-empty, positive cap), and none of any other key.
\<close>

theorem check_allowed_takes_one_slot:
  assumes "Allowed (fst (Check_alone now email ip c))"
    and "pred_option (\<lambda>l. 0 < l_window l) (c_ip c)" "pred_option (\<lambda>l. 0 < l_window l) (c_email c)"
  shows "map_option (usage now k) (c_ip (snd (Check_alone now email ip c))) =
      map_option (\<lambda>l. usage now k l + (if dim_on l_limit (c_ip c) ip \<and> k = ip then 1 else 0)) (c_ip c)
    \<and> map_option (usage now k) (c_email (snd (Check_alone now email ip c))) =
      map_option (\<lambda>l. usage now k l + (if dim_on l_limit (c_email c) email \<and> k = email then 1 else 0)) (c_email c)"
  using mem.check_alone_allowed [of now email ip c k] assms
  by (simp add: Check_alone_def Check_def)

theorem check_allowed_takes_one_slot_witness:
  "map_option (usage 5 ''x'') (c_ip (snd (Check_alone 5 ''v'' ''x''
      \<lparr>c_email = None, c_ip = Some (New 2 10)\<rparr>))) = Some 1"
proof -
  let ?c = "\<lparr>c_email = None, c_ip = Some (New 2 10)\<rparr>"
  have "Allowed (fst (Check_alone 5 ''v'' ''x'' ?c))"
    by (simp add: Check_alone_def Check_def Check_with_def dim_on_def peek_def charge_def Inspect_def
        Allow_def New_def bucket_of_def Let_def)
  from check_allowed_takes_one_slot [OF this, of "''x''"]
  show ?thesis by (simp add: usage_def bucket_of_def New_def dim_on_def)
qed

text \<open>
  The comment on \<open>Composite\<close> says that a request rejected on either dimension consumes no
  slot on the other. Between the peeks and the charges another request can take the last
  email slot; the request is then refused for its email after its IP slot was recorded.
\<close>

lemma check_race_charges_ip:
  "let c = \<lparr>c_email = Some (New 1 10), c_ip = Some (New 5 10)\<rparr>;
       other = (\<lambda>c. c\<lparr>c_email := Some (snd (Allow 5 ''v'' (the (c_email c))))\<rparr>);
       r = Check 5 5 5 5 (\<lambda>c. c) other (\<lambda>c. c) ''v'' ''x'' c
   in fst r = \<lparr>Allowed = False, Reason = ''email''\<rparr> \<and> usage 5 ''x'' (the (c_ip (snd r))) = 1"
  by (simp add: Check_def Check_with_def dim_on_def peek_def charge_def Inspect_def Allow_def New_def
      bucket_of_def usage_def Let_def)

end
