(* ===== verification/Go_Strings.thy ===== *)
theory Go_Strings
  imports SK_Prelude
begin

text \<open>
  Go strings and the functions of \<open>strings\<close>, \<open>unicode\<close> and \<open>unicode/utf8\<close> the program calls.

  A Go string is a byte sequence: \<open>string\<close>, with \<open>byte c\<close> the value of a byte. UTF-8 is
  decoded and encoded as \<open>utf8.DecodeRuneInString\<close>, \<open>utf8.DecodeLastRuneInString\<close> and
  \<open>utf8.AppendRune\<close> do, the replacement of invalid input by U+FFFD included.
  \<open>unicode.IsSpace\<close> is written out. The Unicode case and category tables are data of the Go
  distribution; they are the argument \<open>U :: unicode\<close>, consulted for non-ASCII runes only, and
  every statement holds for all tables that satisfy the hypotheses it names.
\<close>

section \<open>Bytes and runes\<close>

type_synonym rune = nat

abbreviation byte :: "char \<Rightarrow> nat" where "byte c \<equiv> of_char c"

abbreviation to_byte :: "nat \<Rightarrow> char" where "to_byte n \<equiv> char_of n"

abbreviation RuneError :: rune where "RuneError \<equiv> 0xFFFD"

definition is_cont :: "char \<Rightarrow> bool" where
  "is_cont c \<longleftrightarrow> 0x80 \<le> byte c \<and> byte c \<le> 0xBF"

definition in_range :: "nat \<Rightarrow> nat \<Rightarrow> char \<Rightarrow> bool" where
  "in_range lo hi c \<longleftrightarrow> lo \<le> byte c \<and> byte c \<le> hi"

text \<open>\<open>utf8.DecodeRuneInString\<close>: the first rune and its width; invalid input is
  \<open>(RuneError, 1)\<close>, the empty string \<open>(RuneError, 0)\<close>.\<close>

fun decode_rune :: "string \<Rightarrow> rune \<times> nat" where
  "decode_rune [] = (RuneError, 0)"
| "decode_rune (a # s) =
    (let x = byte a in
     if x < 0x80 then (x, 1)
     else if 0xC2 \<le> x \<and> x \<le> 0xDF then
       (case s of b # _ \<Rightarrow>
          if is_cont b then ((x mod 32) * 64 + byte b mod 64, 2) else (RuneError, 1)
        | _ \<Rightarrow> (RuneError, 1))
     else if 0xE0 \<le> x \<and> x \<le> 0xEF then
       (case s of b # c # _ \<Rightarrow>
          if in_range (if x = 0xE0 then 0xA0 else 0x80) (if x = 0xED then 0x9F else 0xBF) b \<and> is_cont c
          then ((x mod 16) * 4096 + (byte b mod 64) * 64 + byte c mod 64, 3) else (RuneError, 1)
        | _ \<Rightarrow> (RuneError, 1))
     else if 0xF0 \<le> x \<and> x \<le> 0xF4 then
       (case s of b # c # d # _ \<Rightarrow>
          if in_range (if x = 0xF0 then 0x90 else 0x80) (if x = 0xF4 then 0x8F else 0xBF) b
             \<and> is_cont c \<and> is_cont d
          then ((x mod 8) * 262144 + (byte b mod 64) * 4096 + (byte c mod 64) * 64 + byte d mod 64, 4)
          else (RuneError, 1)
        | _ \<Rightarrow> (RuneError, 1))
     else (RuneError, 1))"

text \<open>\<open>utf8.AppendRune\<close>: surrogates and values past U+10FFFF are written as U+FFFD.\<close>

definition encode_rune :: "rune \<Rightarrow> string" where
  "encode_rune r =
    (if r < 0x80 then [to_byte r]
     else if r < 0x800 then [to_byte (0xC0 + r div 64), to_byte (0x80 + r mod 64)]
     else if (0xD800 \<le> r \<and> r \<le> 0xDFFF) \<or> 0x10FFFF < r then
       [to_byte 0xEF, to_byte 0xBF, to_byte 0xBD]
     else if r < 0x10000 then
       [to_byte (0xE0 + r div 4096), to_byte (0x80 + r div 64 mod 64), to_byte (0x80 + r mod 64)]
     else [to_byte (0xF0 + r div 262144), to_byte (0x80 + r div 4096 mod 64),
           to_byte (0x80 + r div 64 mod 64), to_byte (0x80 + r mod 64)])"

lemma decode_width_pos: "s \<noteq> [] \<Longrightarrow> 1 \<le> snd (decode_rune s)"
  by (cases s) (auto simp: Let_def split: list.splits)

lemma decode_width_le: "snd (decode_rune s) \<le> length s"
  by (cases s) (auto simp: Let_def split: list.splits)

text \<open>\<open>[]rune(s)\<close>, and what \<open>for _, r := range s\<close> visits.\<close>

function runes :: "string \<Rightarrow> rune list" where
  "runes s = (if s = [] then [] else fst (decode_rune s) # runes (drop (snd (decode_rune s)) s))"
  by pat_completeness auto
termination
proof (relation "measure length", goal_cases)
  case (2 s)
  then show ?case using decode_width_pos [of s] by (cases s) auto
qed simp

declare runes.simps [simp del]

lemma runes_Nil [simp]: "runes [] = []"
  by (simp add: runes.simps)

lemma runes_Cons: "runes (a # s) = fst (decode_rune (a # s)) # runes (drop (snd (decode_rune (a # s))) (a # s))"
  by (subst runes.simps) simp

definition RuneCountInString :: "string \<Rightarrow> nat" where
  "RuneCountInString s = length (runes s)"

text \<open>\<open>string(rs)\<close>.\<close>

definition of_runes :: "rune list \<Rightarrow> string" where
  "of_runes rs = concat (map encode_rune rs)"

text \<open>\<open>utf8.ValidString\<close>: no invalid sequence is met; a correctly encoded U+FFFD has width 3.\<close>

function ValidString :: "string \<Rightarrow> bool" where
  "ValidString s = (if s = [] then True
     else \<not> (decode_rune s = (RuneError, 1)) \<and> ValidString (drop (snd (decode_rune s)) s))"
  by pat_completeness auto
termination
proof (relation "measure length", goal_cases)
  case (2 s)
  then show ?case using decode_width_pos [of s] by (cases s) auto
qed simp

declare ValidString.simps [simp del]

definition ascii :: "string \<Rightarrow> bool" where
  "ascii s \<longleftrightarrow> (\<forall>c\<in>set s. byte c < 0x80)"

lemma ascii_Nil [simp]: "ascii []"
  by (simp add: ascii_def)

lemma ascii_Cons [simp]: "ascii (a # s) \<longleftrightarrow> byte a < 0x80 \<and> ascii s"
  by (auto simp: ascii_def)

lemma ascii_append [simp]: "ascii (s @ t) \<longleftrightarrow> ascii s \<and> ascii t"
  by (auto simp: ascii_def)

lemma runes_ascii: "ascii s \<Longrightarrow> runes s = map byte s"
  by (induction s) (simp_all add: runes_Cons)

lemma ValidString_ascii: "ascii s \<Longrightarrow> ValidString s"
  by (induction s) (simp_all add: ValidString.simps)

lemma runes_ascii_Cons: "byte a < 0x80 \<Longrightarrow> runes (a # s) = byte a # runes s"
  by (simp add: runes_Cons)

section \<open>Case mapping and white space\<close>

record unicode =
  u_lower :: "rune \<Rightarrow> rune"
  u_upper :: "rune \<Rightarrow> rune"
  u_isLower :: "rune \<Rightarrow> bool"
  u_isUpper :: "rune \<Rightarrow> bool"
  u_isLetter :: "rune \<Rightarrow> bool"
  u_isMn :: "rune \<Rightarrow> bool"

text \<open>\<open>unicode.ToLower\<close> and \<open>unicode.ToUpper\<close>: ASCII by rule, the tables beyond it.\<close>

definition lower_rune :: "unicode \<Rightarrow> rune \<Rightarrow> rune" where
  "lower_rune U r = (if r < 0x80 then (if 65 \<le> r \<and> r \<le> 90 then r + 32 else r) else u_lower U r)"

definition upper_rune :: "unicode \<Rightarrow> rune \<Rightarrow> rune" where
  "upper_rune U r = (if r < 0x80 then (if 97 \<le> r \<and> r \<le> 122 then r - 32 else r) else u_upper U r)"

definition ToLower :: "unicode \<Rightarrow> string \<Rightarrow> string" where
  "ToLower U s = of_runes (map (lower_rune U) (runes s))"

definition ToUpper :: "unicode \<Rightarrow> string \<Rightarrow> string" where
  "ToUpper U s = of_runes (map (upper_rune U) (runes s))"

text \<open>The laws of the tables that statements below name: no rune above ASCII has an ASCII
  capital as its lower case.\<close>

definition lower_table_ok :: "unicode \<Rightarrow> bool" where
  "lower_table_ok U \<longleftrightarrow> (\<forall>r\<ge>0x80. \<not> (65 \<le> u_lower U r \<and> u_lower U r \<le> 90))"

text \<open>Tables for evaluation: no non-ASCII rune has a case or a category.\<close>

definition ascii_tables :: unicode where
  "ascii_tables = \<lparr>u_lower = (\<lambda>r. r), u_upper = (\<lambda>r. r), u_isLower = (\<lambda>_. False),
     u_isUpper = (\<lambda>_. False), u_isLetter = (\<lambda>_. False), u_isMn = (\<lambda>_. False)\<rparr>"

definition latin_tables :: unicode where
  "latin_tables = \<lparr>u_lower = (\<lambda>r. if 0xC0 \<le> r \<and> r \<le> 0xDE \<and> r \<noteq> 0xD7 then r + 32 else r),
     u_upper = (\<lambda>r. if 0xE0 \<le> r \<and> r \<le> 0xFE \<and> r \<noteq> 0xF7 then r - 32 else r),
     u_isLower = (\<lambda>r. 0xE0 \<le> r \<and> r \<le> 0xFE \<and> r \<noteq> 0xF7),
     u_isUpper = (\<lambda>r. 0xC0 \<le> r \<and> r \<le> 0xDE \<and> r \<noteq> 0xD7),
     u_isLetter = (\<lambda>r. 0xC0 \<le> r \<and> r \<le> 0xFE \<and> r \<noteq> 0xD7 \<and> r \<noteq> 0xF7), u_isMn = (\<lambda>_. False)\<rparr>"

definition IsSpace :: "rune \<Rightarrow> bool" where
  "IsSpace r \<longleftrightarrow> r \<in> {9, 10, 11, 12, 13, 32, 0x85, 0xA0, 0x1680, 0x2028, 0x2029, 0x202F, 0x205F, 0x3000}
     \<or> (0x2000 \<le> r \<and> r \<le> 0x200A)"

function trim_left :: "string \<Rightarrow> string" where
  "trim_left s = (if s \<noteq> [] \<and> IsSpace (fst (decode_rune s))
     then trim_left (drop (snd (decode_rune s)) s) else s)"
  by pat_completeness auto
termination
proof (relation "measure length", goal_cases)
  case (2 s)
  then show ?case using decode_width_pos [of s] by (cases s) auto
qed simp

declare trim_left.simps [simp del, code del]

lemma trim_left_code [code]:
  "trim_left [] = []"
  "trim_left (a # s) = (if IsSpace (fst (decode_rune (a # s)))
     then trim_left (drop (snd (decode_rune (a # s))) (a # s)) else a # s)"
  by (subst trim_left.simps, simp)+

text \<open>\<open>utf8.DecodeLastRuneInString\<close>: back to the nearest byte that can start a rune.\<close>

definition decode_last_rune :: "string \<Rightarrow> rune \<times> nat" where
  "decode_last_rune s =
    (if s = [] then (RuneError, 0)
     else case filter (\<lambda>k. k \<le> length s \<and> \<not> is_cont (s ! (length s - k))) [1, 2, 3, 4] of
       [] \<Rightarrow> (RuneError, 1)
     | k # _ \<Rightarrow> (let (r, w) = decode_rune (drop (length s - k) s)
                  in if w = k then (r, w) else (RuneError, 1)))"

lemma decode_last_width_pos:
  assumes "s \<noteq> []" shows "1 \<le> snd (decode_last_rune s)"
proof (cases "filter (\<lambda>k. k \<le> length s \<and> \<not> is_cont (s ! (length s - k))) [1, 2, 3, 4]")
  case Nil
  with assms show ?thesis by (simp add: decode_last_rune_def del: filter.simps)
next
  case (Cons k ks)
  then have "k \<in> set (filter (\<lambda>k. k \<le> length s \<and> \<not> is_cont (s ! (length s - k))) [1, 2, 3, 4])"
    by (simp del: filter.simps)
  then have "k \<in> {1, 2, 3, 4}" unfolding set_filter by auto
  with assms Cons show ?thesis
    by (auto simp: decode_last_rune_def case_prod_beta simp del: filter.simps)
qed

function trim_right :: "string \<Rightarrow> string" where
  "trim_right s = (if s \<noteq> [] \<and> IsSpace (fst (decode_last_rune s))
     then trim_right (take (length s - snd (decode_last_rune s)) s) else s)"
  by pat_completeness auto
termination
proof (relation "measure length", goal_cases)
  case (2 s)
  then show ?case using decode_last_width_pos [of s] by (cases s) auto
qed simp

declare trim_right.simps [simp del, code del]

lemma trim_right_code [code]:
  "trim_right [] = []"
  "trim_right (a # s) = (if IsSpace (fst (decode_last_rune (a # s)))
     then trim_right (take (length (a # s) - snd (decode_last_rune (a # s))) (a # s)) else a # s)"
  by (subst trim_right.simps, simp)+

definition TrimSpace :: "string \<Rightarrow> string" where
  "TrimSpace s = trim_right (trim_left s)"

section \<open>Facts on ASCII strings\<close>

definition alower :: "char \<Rightarrow> char" where
  "alower c = (if 65 \<le> byte c \<and> byte c \<le> 90 then to_byte (byte c + 32) else c)"

lemma byte_alower: "byte (alower c) = (if 65 \<le> byte c \<and> byte c \<le> 90 then byte c + 32 else byte c)"
  by (simp add: alower_def)

lemma ToLower_ascii: "ascii s \<Longrightarrow> ToLower U s = map alower s"
proof (induction s)
  case Nil
  show ?case by (simp add: ToLower_def of_runes_def)
next
  case (Cons a s)
  have "encode_rune (lower_rune U (byte a)) = [alower a]"
    using Cons.prems by (auto simp: lower_rune_def encode_rune_def alower_def)
  with Cons show ?case
    by (simp add: ToLower_def of_runes_def runes_ascii_Cons)
qed

lemma ToLower_Nil [simp]: "ToLower U [] = []"
  by (simp add: ToLower_def of_runes_def)

lemma ascii_map_alower: "ascii s \<Longrightarrow> ascii (map alower s)"
  by (auto simp: ascii_def byte_alower)

definition no_upper :: "string \<Rightarrow> bool" where
  "no_upper s \<longleftrightarrow> (\<forall>c\<in>set s. \<not> (65 \<le> byte c \<and> byte c \<le> 90))"

lemma map_alower_id: "no_upper s \<Longrightarrow> map alower s = s"
  by (induction s) (auto simp: no_upper_def alower_def)

lemma no_upper_map_alower: "no_upper (map alower s)"
  by (auto simp: no_upper_def byte_alower)

lemma ToLower_id: "ascii s \<Longrightarrow> no_upper s \<Longrightarrow> ToLower U s = s"
  by (simp add: ToLower_ascii map_alower_id)

text \<open>Encoded runes past ASCII have no byte below 0x80, so a lowered string has a capital only
  where a table yields one.\<close>

lemma encode_rune_bytes:
  "c \<in> set (encode_rune r) \<Longrightarrow> byte c < 0x80 \<Longrightarrow> r < 0x80 \<and> byte c = r"
proof (cases "r < 0x80")
  case False
  assume "c \<in> set (encode_rune r)" "byte c < 0x80"
  moreover have "r div 64 < 32 \<and> r mod 64 < 64" if "r < 0x800" using that by auto
  moreover have "r div 4096 < 16 \<and> r div 64 mod 64 < 64 \<and> r mod 64 < 64" if "r < 0x10000" using that by auto
  moreover have "r div 262144 < 8 \<and> r div 4096 mod 64 < 64 \<and> r div 64 mod 64 < 64 \<and> r mod 64 < 64"
    if "r \<le> 0x10FFFF" using that by auto
  ultimately show ?thesis using False
    by (auto simp: encode_rune_def split: if_splits)
qed (auto simp: encode_rune_def)

lemma no_upper_ToLower:
  assumes "lower_table_ok U"
  shows "no_upper (ToLower U s)"
  unfolding no_upper_def
proof (intro ballI notI)
  fix c assume c: "c \<in> set (ToLower U s)" and u: "65 \<le> byte c \<and> byte c \<le> 90"
  then obtain r where r: "c \<in> set (encode_rune (lower_rune U r))"
    by (auto simp: ToLower_def of_runes_def)
  then have "byte c = lower_rune U r" using u encode_rune_bytes [OF r] by simp
  with u assms show False
    by (auto simp: lower_rune_def lower_table_ok_def split: if_splits)
qed

text \<open>A string that starts and ends with an ASCII byte that is no space is left alone.\<close>

definition plain_char :: "char \<Rightarrow> bool" where
  "plain_char c \<longleftrightarrow> byte c < 0x80 \<and> \<not> IsSpace (byte c)"

lemma trim_left_plain: "plain_char a \<Longrightarrow> trim_left (a # s) = a # s"
  by (subst trim_left.simps) (simp add: plain_char_def)

lemma trim_left_Nil [simp]: "trim_left [] = []"
  by (subst trim_left.simps) simp

lemma decode_last_ascii: "byte a < 0x80 \<Longrightarrow> decode_last_rune (s @ [a]) = (byte a, 1)"
  by (simp add: decode_last_rune_def is_cont_def)

lemma trim_right_plain: "plain_char a \<Longrightarrow> trim_right (s @ [a]) = s @ [a]"
  by (subst trim_right.simps) (simp add: decode_last_ascii plain_char_def)

lemma trim_right_Nil [simp]: "trim_right [] = []"
  by (subst trim_right.simps) simp

lemma TrimSpace_Nil [simp]: "TrimSpace [] = []"
  by (simp add: TrimSpace_def)

lemma TrimSpace_plain:
  assumes "s \<noteq> []" "plain_char (hd s)" "plain_char (last s)"
  shows "TrimSpace s = s"
proof -
  have "trim_left s = s" using assms(1,2) by (cases s) (auto simp: trim_left_plain)
  moreover have "trim_right s = s"
    using trim_right_plain [OF assms(3), of "butlast s"] assms(1) by simp
  ultimately show ?thesis by (simp add: TrimSpace_def)
qed

lemma trim_left_suffix: "suffix (trim_left s) s"
proof (induction s rule: trim_left.induct)
  case (1 s)
  then show ?case
    by (subst trim_left.simps) (auto intro: suffix_order.trans suffix_drop)
qed

lemma trim_right_prefix: "prefix (trim_right s) s"
proof (induction s rule: trim_right.induct)
  case (1 s)
  then show ?case
    by (subst trim_right.simps) (auto intro: prefix_order.trans take_is_prefix)
qed

lemma set_TrimSpace: "set (TrimSpace s) \<subseteq> set s"
  unfolding TrimSpace_def
  using set_mono_prefix [OF trim_right_prefix [of "trim_left s"]]
    set_mono_suffix [OF trim_left_suffix [of s]] by blast

lemma length_TrimSpace: "length (TrimSpace s) \<le> length s"
  unfolding TrimSpace_def
  by (meson le_trans prefix_length_le suffix_length_le trim_left_suffix trim_right_prefix)

lemma trim_left_stops: "trim_left s = [] \<or> \<not> IsSpace (fst (decode_rune (trim_left s)))"
proof (induction s rule: trim_left.induct)
  case (1 s)
  then show ?case by (subst (1 2) trim_left.simps) auto
qed

lemma trim_right_stops: "trim_right s = [] \<or> \<not> IsSpace (fst (decode_last_rune (trim_right s)))"
proof (induction s rule: trim_right.induct)
  case (1 s)
  then show ?case by (subst (1 2) trim_right.simps) auto
qed

lemma ascii_TrimSpace: "ascii s \<Longrightarrow> ascii (TrimSpace s)"
  using set_TrimSpace [of s] by (auto simp: ascii_def)

lemma ascii_trim_left: "ascii s \<Longrightarrow> ascii (trim_left s)"
  using set_mono_suffix [OF trim_left_suffix [of s]] by (auto simp: ascii_def)

lemma TrimSpace_ends:
  assumes "ascii s" "TrimSpace s \<noteq> []"
  shows "plain_char (hd (TrimSpace s))" "plain_char (last (TrimSpace s))"
proof -
  let ?l = "trim_left s" and ?t = "TrimSpace s"
  have a: "ascii ?t" "ascii ?l" using assms ascii_TrimSpace ascii_trim_left by auto
  have p: "prefix ?t ?l" by (simp add: TrimSpace_def trim_right_prefix)
  have l: "?l \<noteq> []" using assms(2) p by auto
  have "hd ?t = hd ?l" using p assms(2) by (auto simp: prefix_def)
  moreover have "plain_char (hd ?l)"
    using trim_left_stops [of s] a(2) l by (cases ?l) (auto simp: plain_char_def)
  ultimately show "plain_char (hd ?t)" by simp
  obtain b x where "?t = b @ [x]" using assms(2) by (cases ?t rule: rev_cases) auto
  moreover have "\<not> IsSpace (fst (decode_last_rune ?t))"
    using trim_right_stops [of ?l] assms(2) by (simp add: TrimSpace_def)
  ultimately show "plain_char (last ?t)"
    using a(1) by (auto simp: plain_char_def decode_last_ascii)
qed

section \<open>Searching, splitting, joining\<close>

text \<open>\<open>strings.IndexByte\<close> and \<open>strings.LastIndexByte\<close>; \<open>-1\<close> when the byte does not occur.\<close>

fun IndexByte :: "char \<Rightarrow> string \<Rightarrow> int" where
  "IndexByte c [] = -1"
| "IndexByte c (x # s) = (if x = c then 0 else let i = IndexByte c s in if i < 0 then -1 else i + 1)"

fun LastIndexByte :: "char \<Rightarrow> string \<Rightarrow> int" where
  "LastIndexByte c [] = -1"
| "LastIndexByte c (x # s) =
     (let i = LastIndexByte c s in if 0 \<le> i then i + 1 else if x = c then 0 else -1)"

text \<open>\<open>s[i:]\<close> and \<open>s[:i]\<close> with the in-range index the source computed.\<close>

abbreviation slice_from :: "string \<Rightarrow> int \<Rightarrow> string" where "slice_from s i \<equiv> drop (nat i) s"

abbreviation slice_to :: "string \<Rightarrow> int \<Rightarrow> string" where "slice_to s i \<equiv> take (nat i) s"

fun split_on :: "char \<Rightarrow> string \<Rightarrow> string list" where
  "split_on c [] = [[]]"
| "split_on c (x # s) =
     (if x = c then [] # split_on c s
      else case split_on c s of [] \<Rightarrow> [[x]] | p # ps \<Rightarrow> (x # p) # ps)"

fun Join :: "string list \<Rightarrow> string \<Rightarrow> string" where
  "Join [] sep = []"
| "Join [p] sep = p"
| "Join (p # q # ps) sep = p @ sep @ Join (q # ps) sep"

abbreviation HasPrefix :: "string \<Rightarrow> string \<Rightarrow> bool" where "HasPrefix s p \<equiv> prefix p s"

abbreviation HasSuffix :: "string \<Rightarrow> string \<Rightarrow> bool" where "HasSuffix s p \<equiv> suffix p s"

definition TrimPrefix :: "string \<Rightarrow> string \<Rightarrow> string" where
  "TrimPrefix s p = (if prefix p s then drop (length p) s else s)"

abbreviation Contains_byte :: "string \<Rightarrow> char \<Rightarrow> bool" where "Contains_byte s c \<equiv> c \<in> set s"

lemma split_on_nonempty [simp]: "split_on c s \<noteq> []"
  by (induction s) (auto split: list.splits)

lemma Join_split_on [simp]: "Join (split_on c s) [c] = s"
proof (induction s)
  case (Cons x s)
  obtain p ps where "split_on c s = p # ps" by (cases "split_on c s") auto
  with Cons show ?case by (cases ps) auto
qed simp

lemma split_on_append: "split_on c (s @ c # t) = split_on c s @ split_on c t"
proof (induction s)
  case (Cons x s)
  obtain p ps where "split_on c s = p # ps" by (cases "split_on c s") auto
  with Cons show ?case by auto
qed simp

lemma split_on_no: "c \<notin> set s \<Longrightarrow> split_on c s = [s]"
  by (induction s) auto

lemma split_on_parts: "p \<in> set (split_on c s) \<Longrightarrow> c \<notin> set p"
proof (induction s arbitrary: p)
  case (Cons x s)
  obtain q qs where "split_on c s = q # qs" by (cases "split_on c s") auto
  with Cons show ?case by (auto split: if_splits)
qed simp

lemma Join_append:
  "xs \<noteq> [] \<Longrightarrow> ys \<noteq> [] \<Longrightarrow> Join (xs @ ys) sep = Join xs sep @ sep @ Join ys sep"
proof (induction xs)
  case (Cons x xs)
  show ?case
  proof (cases xs)
    case Nil
    obtain y ys' where "ys = y # ys'" using Cons.prems by (cases ys) auto
    with Nil show ?thesis by simp
  next
    case (Cons z zs)
    with Cons.IH Cons.prems show ?thesis by simp
  qed
qed simp

lemma IndexByte_bounds: "IndexByte c s = -1 \<or> 0 \<le> IndexByte c s \<and> IndexByte c s < int (length s)"
  by (induction s) (auto simp: Let_def)

lemma LastIndexByte_bounds: "LastIndexByte c s = -1 \<or> 0 \<le> LastIndexByte c s \<and> LastIndexByte c s < int (length s)"
  by (induction s) (auto simp: Let_def)

lemma LastIndexByte_neg: "LastIndexByte c s < 0 \<longleftrightarrow> c \<notin> set s"
  by (induction s) (auto simp: Let_def)

lemma IndexByte_neg: "IndexByte c s < 0 \<longleftrightarrow> c \<notin> set s"
  by (induction s) (auto simp: Let_def)

lemma LastIndexByte_split: "c \<notin> set b \<Longrightarrow> LastIndexByte c (a @ c # b) = int (length a)"
proof (induction a)
  case Nil
  then have "LastIndexByte c b < 0" by (simp add: LastIndexByte_neg)
  then show ?case by (simp add: Let_def)
next
  case (Cons x a)
  then show ?case by (simp add: Let_def)
qed

lemma IndexByte_split: "c \<notin> set a \<Longrightarrow> IndexByte c (a @ c # b) = int (length a)"
  by (induction a) (auto simp: Let_def)

section \<open>Hexadecimal text\<close>

definition hex_digit :: "nat \<Rightarrow> char" where
  "hex_digit n = ''0123456789abcdef'' ! n"

definition hex :: "string \<Rightarrow> string" where
  "hex bs = concat (map (\<lambda>b. [hex_digit (byte b div 16), hex_digit (byte b mod 16)]) bs)"

section \<open>ASCII bytes inside UTF-8\<close>

text \<open>A rune of several bytes has no ASCII byte in it, so a byte below 0x80 is always a rune of its own.\<close>

lemma decode_rune_bytes:
  "(snd (decode_rune (a # s)) = 1 \<and> byte a < 0x80 \<and> fst (decode_rune (a # s)) = byte a)
    \<or> (\<forall>c\<in>set (take (snd (decode_rune (a # s))) (a # s)). 0x80 \<le> byte c)"
proof (cases "byte a < 0x80")
  case False
  note hi = False
  have ct: "is_cont b \<Longrightarrow> 0x80 \<le> byte b" for b by (simp add: is_cont_def)
  consider (two) "0xC2 \<le> byte a" "byte a \<le> 0xDF" | (three) "0xE0 \<le> byte a" "byte a \<le> 0xEF"
    | (four) "0xF0 \<le> byte a" "byte a \<le> 0xF4" | (bad) "\<not> (0xC2 \<le> byte a \<and> byte a \<le> 0xDF)"
      "\<not> (0xE0 \<le> byte a \<and> byte a \<le> 0xEF)" "\<not> (0xF0 \<le> byte a \<and> byte a \<le> 0xF4)"
    by blast
  then have "\<forall>c\<in>set (take (snd (decode_rune (a # s))) (a # s)). 0x80 \<le> byte c"
  proof cases
    case two
    then show ?thesis using hi ct by (cases s) (auto simp: Let_def)
  next
    case three
    then have d: "decode_rune (a # s) = (case s of b # c # _ \<Rightarrow>
          if in_range (if byte a = 0xE0 then 0xA0 else 0x80) (if byte a = 0xED then 0x9F else 0xBF) b \<and> is_cont c
          then ((byte a mod 16) * 4096 + (byte b mod 64) * 64 + byte c mod 64, 3) else (RuneError, 1)
        | _ \<Rightarrow> (RuneError, 1))"
      using hi by (simp add: Let_def)
    show ?thesis unfolding d using hi ct
      by (cases s; cases "tl s") (auto simp: in_range_def split del: if_split split: if_split_asm)
  next
    case four
    then have d: "decode_rune (a # s) = (case s of b # c # d # _ \<Rightarrow>
          if in_range (if byte a = 0xF0 then 0x90 else 0x80) (if byte a = 0xF4 then 0x8F else 0xBF) b
             \<and> is_cont c \<and> is_cont d
          then ((byte a mod 8) * 262144 + (byte b mod 64) * 4096 + (byte c mod 64) * 64 + byte d mod 64, 4)
          else (RuneError, 1)
        | _ \<Rightarrow> (RuneError, 1))"
      using hi by (simp add: Let_def)
    show ?thesis unfolding d using hi ct
      by (cases s; cases "tl s"; cases "tl (tl s)") (auto simp: in_range_def split del: if_split split: if_split_asm)
  next
    case bad
    then have "snd (decode_rune (a # s)) = 1" using hi by (auto simp: Let_def)
    then show ?thesis using hi by simp
  qed
  then show ?thesis by blast
qed simp

lemma ascii_in_runes: "byte c < 0x80 \<Longrightarrow> c \<in> set s \<Longrightarrow> byte c \<in> set (runes s)"
proof (induction s rule: runes.induct)
  case (1 s)
  then obtain a t where s: "s = a # t" by (cases s) auto
  let ?w = "snd (decode_rune (a # t))"
  have "c \<in> set (take ?w (a # t)) \<or> c \<in> set (drop ?w (a # t))"
    using 1 s by (metis Un_iff append_take_drop_id set_append)
  then show ?case
  proof
    assume c: "c \<in> set (take ?w (a # t))"
    have "\<not> (\<forall>c\<in>set (take ?w (a # t)). 0x80 \<le> byte c)"
      using c 1(2) by (meson not_le)
    then have d: "?w = 1" "fst (decode_rune (a # t)) = byte a" using decode_rune_bytes by blast+
    have "c = a" using c unfolding d(1) by simp
    then show ?thesis using s d(2) runes_Cons [of a t] by simp
  next
    assume "c \<in> set (drop ?w (a # t))"
    then show ?thesis using 1 s runes_Cons [of a t] by simp
  qed
qed

end
