(* ===== verification/Domains.thy ===== *)
theory Domains
  imports Go_Strings
begin

text \<open>
  \<open>internal/domains/domains.go\<close>: the email-domain allowlist that gates the public request
  endpoint.

  The table \<open>domains\<close> is a \<open>domain table\<close>; every method of \<open>Repo\<close> is a function of the table,
  of the statements the driver fails and, where it reads the clock, of \<open>now\<close>. \<open>Canonicalize\<close>
  and \<open>isFQDN\<close> decide which names are stored, \<open>mostSpecific\<close> which stored row governs an
  address, \<open>FindMatching\<close>, \<open>FindMatchingIssued\<close> and \<open>Allows\<close> what is admitted. \<open>Import\<close> runs
  over the records of the CSV reader.
\<close>

section \<open>Names\<close>

datatype dom_err = ErrNotFound | ErrInvalidName | ErrAlreadyExists | ErrEmptyAllowlist | ErrDriver

definition alnum :: "char \<Rightarrow> bool" where
  "alnum c \<longleftrightarrow> (let x = byte c in (65 \<le> x \<and> x \<le> 90) \<or> (97 \<le> x \<and> x \<le> 122) \<or> (48 \<le> x \<and> x \<le> 57))"

text \<open>\<open>fqdnLabelRe\<close>: one letter or digit, or up to 63 letters, digits and hyphens that start and
  end with a letter or digit.\<close>

definition fqdnLabelRe :: "string \<Rightarrow> bool" where
  "fqdnLabelRe l \<longleftrightarrow> l \<noteq> [] \<and> length l \<le> 63 \<and> alnum (hd l) \<and> alnum (last l)
     \<and> (\<forall>c\<in>set l. alnum c \<or> c = CHR ''-'')"

definition isFQDN :: "string \<Rightarrow> bool" where
  "isFQDN name =
     (if name = [] \<or> length name > 253 then False
      else let labels = split_on CHR ''.'' name
           in if length labels < 2 then False else (\<forall>l\<in>set labels. fqdnLabelRe l))"

text \<open>The slice \<open>name[1:]\<close> panics when nothing is left after the leading dot.\<close>

definition Canonicalize :: "unicode \<Rightarrow> string \<Rightarrow> (dom_err, string) go_result" where
  "Canonicalize U raw =
     (let name = ToLower U (TrimSpace raw)
      in if name = [] then Error ErrInvalidName
      else let name = TrimPrefix name ''.''
      in if name = [] then Panic
      else if Contains_byte (drop 1 name) CHR ''*'' then Error ErrInvalidName
      else let check = (if HasPrefix name ''*.'' then drop 2 name else name)
      in if \<not> isFQDN check then Error ErrInvalidName
      else Value name)"

definition canonical :: "string \<Rightarrow> bool" where
  "canonical n \<longleftrightarrow> no_upper n \<and> (isFQDN n \<or> (HasPrefix n ''*.'' \<and> isFQDN (drop 2 n)))"

lemma alnum_plain: "alnum c \<Longrightarrow> plain_char c"
  by (auto simp: alnum_def plain_char_def IsSpace_def Let_def)

lemma alnum_not_special: "alnum c \<Longrightarrow> c \<noteq> CHR ''.'' \<and> c \<noteq> CHR ''*''"
  by (auto simp: alnum_def Let_def)

lemma label_chars:
  assumes "fqdnLabelRe l" "c \<in> set l"
  shows "byte c < 0x80 \<and> c \<noteq> CHR ''*''"
proof -
  have "alnum c \<or> c = CHR ''-''" using assms by (auto simp: fqdnLabelRe_def)
  then show ?thesis
    using alnum_plain [of c] alnum_not_special [of c] by (auto simp: plain_char_def)
qed

text \<open>The bytes of a name are those of its labels and the separator.\<close>

lemma set_Join: "c \<in> set (Join ps sep) \<Longrightarrow> c \<in> set sep \<or> (\<exists>p\<in>set ps. c \<in> set p)"
  by (induction ps sep rule: Join.induct) auto

lemma isFQDN_chars:
  assumes "isFQDN n" "c \<in> set n"
  shows "byte c < 0x80 \<and> c \<noteq> CHR ''*''"
proof -
  have "c \<in> set (Join (split_on CHR ''.'' n) ''.'')" using assms(2) by simp
  then have "c = CHR ''.'' \<or> (\<exists>p\<in>set (split_on CHR ''.'' n). c \<in> set p)"
    using set_Join by fastforce
  then show ?thesis
    using assms(1) label_chars by (auto simp: isFQDN_def Let_def split: if_splits)
qed

lemma hd_split_on: "n \<noteq> [] \<Longrightarrow> hd (split_on c n) \<noteq> [] \<Longrightarrow> hd n = hd (hd (split_on c n))"
  by (cases n) (auto split: list.splits if_splits)

lemma last_split_on: "n \<noteq> [] \<Longrightarrow> last (split_on c n) \<noteq> [] \<Longrightarrow> last n = last (last (split_on c n))"
proof (induction n)
  case (Cons x n)
  obtain p ps where s: "split_on c n = p # ps" by (cases "split_on c n") auto
  show ?case
  proof (cases "n = []")
    case True
    with Cons.prems show ?thesis by (auto split: if_splits)
  next
    case False
    then have "split_on c n \<noteq> [[]]" using Join_split_on [of c n] by (auto simp del: Join_split_on)
    with Cons s False show ?thesis by (cases ps) (auto split: if_splits)
  qed
qed simp

lemma isFQDN_ends:
  assumes "isFQDN n"
  shows "n \<noteq> []" "alnum (hd n)" "alnum (last n)"
proof -
  let ?ls = "split_on CHR ''.'' n"
  show ne: "n \<noteq> []" using assms by (auto simp: isFQDN_def)
  have lab: "\<forall>l\<in>set ?ls. fqdnLabelRe l"
    using assms by (auto simp: isFQDN_def Let_def split: if_splits)
  have "fqdnLabelRe (hd ?ls)" "fqdnLabelRe (last ?ls)" using lab by auto
  then show "alnum (hd n)" "alnum (last n)"
    using hd_split_on [OF ne, of "CHR ''.''"] last_split_on [OF ne, of "CHR ''.''"]
    by (auto simp: fqdnLabelRe_def)
qed

lemma prefix_star: "HasPrefix n ''*.'' \<longleftrightarrow> (\<exists>m. n = CHR ''*'' # CHR ''.'' # m)"
  by (auto simp: prefix_def)

lemma canonical_cases:
  assumes "canonical n"
  obtains (exact) "isFQDN n" | (wild) m where "n = CHR ''*'' # CHR ''.'' # m" "isFQDN m"
  using assms by (auto simp: canonical_def prefix_star)

lemma canonical_ascii: "canonical n \<Longrightarrow> ascii n"
  by (erule canonical_cases) (auto simp: ascii_def dest: isFQDN_chars)

lemma canonical_ends: "canonical n \<Longrightarrow> n \<noteq> [] \<and> plain_char (hd n) \<and> plain_char (last n) \<and> hd n \<noteq> CHR ''.''"
proof (erule canonical_cases)
  assume "isFQDN n"
  then show ?thesis using isFQDN_ends [of n] alnum_plain alnum_not_special by blast
next
  fix m assume n: "n = CHR ''*'' # CHR ''.'' # m" "isFQDN m"
  have "plain_char CHR ''*''" by (simp add: plain_char_def IsSpace_def)
  with n show ?thesis using isFQDN_ends [of m] alnum_plain by auto
qed

lemma canonical_tail: "canonical n \<Longrightarrow> CHR ''*'' \<notin> set (drop 1 n)"
proof (erule canonical_cases)
  assume "isFQDN n"
  then have "CHR ''*'' \<notin> set n" using isFQDN_chars by blast
  then show ?thesis by (meson in_set_dropD)
next
  fix m assume "n = CHR ''*'' # CHR ''.'' # m" "isFQDN m"
  then show ?thesis using isFQDN_chars by auto
qed

lemma canonical_check: "canonical n \<Longrightarrow> isFQDN (if HasPrefix n ''*.'' then drop 2 n else n)"
proof (erule canonical_cases)
  assume f: "isFQDN n"
  have "\<not> HasPrefix n ''*.''"
    using isFQDN_chars [OF f, of "CHR ''*''"] by (auto simp: prefix_star)
  then show ?thesis using f by simp
qed (simp add: prefix_star)

lemma Canonicalize_fixpoint: "canonical n \<Longrightarrow> Canonicalize U n = Value n"
proof -
  assume n: "canonical n"
  have t: "ToLower U (TrimSpace n) = n"
    using canonical_ends [OF n] canonical_ascii [OF n] n
    by (simp add: TrimSpace_plain ToLower_id canonical_def)
  have p: "TrimPrefix n ''.'' = n"
    using canonical_ends [OF n] by (cases n) (auto simp: TrimPrefix_def)
  show ?thesis
    using canonical_ends [OF n] canonical_tail [OF n] canonical_check [OF n]
    unfolding Canonicalize_def t Let_def p by simp
qed

lemma no_upper_drop: "no_upper n \<Longrightarrow> no_upper (drop k n)"
  by (auto simp: no_upper_def dest: in_set_dropD)

lemma Canonicalize_canonical:
  assumes "lower_table_ok U" "Canonicalize U raw = Value n"
  shows "canonical n"
proof -
  have "no_upper n \<and> isFQDN (if HasPrefix n ''*.'' then drop 2 n else n)"
    using assms(2) no_upper_ToLower [OF assms(1), of "TrimSpace raw"]
    by (auto simp: Canonicalize_def Let_def TrimPrefix_def no_upper_drop split: if_splits)
  then show ?thesis by (auto simp: canonical_def split: if_splits)
qed

section \<open>Rows and the repository\<close>

record domain =
  d_ID :: int
  d_Name :: string
  d_Description :: string
  d_Active :: bool
  d_CreatedByAdminID :: "int option"
  d_CreatedAt :: time
  d_UpdatedAt :: time

type_synonym domains = "domain table"

definition d_row :: "domain \<Rightarrow> int \<Rightarrow> domain" where
  "d_row d i = d\<lparr>d_ID := i\<rparr>"

interpretation dt: sql_table d_ID d_Name d_row d_Name
  by unfold_locales (simp_all add: d_row_def)

text \<open>
  \<open>Create\<close>: the UNIQUE constraint on \<open>name\<close> is what turns a collision into \<open>ErrAlreadyExists\<close>;
  any other failure of the INSERT (the \<open>fault\<close>, a dangling \<open>created_by_admin_id\<close> included) is the
  wrapped driver error. The row stores the trimmed description, the value returned to the
  caller carries the description as given.
\<close>

definition Create ::
  "unicode \<Rightarrow> bool \<Rightarrow> time \<Rightarrow> string \<Rightarrow> string \<Rightarrow> bool \<Rightarrow> int option \<Rightarrow> domains
     \<Rightarrow> (dom_err, domain) go_result \<times> domains" where
  "Create U fault now name description active adminID t =
     (case Canonicalize U name of
        Error e \<Rightarrow> (Error e, t)
      | Panic \<Rightarrow> (Panic, t)
      | Value canon \<Rightarrow>
          if fault then (Error ErrDriver, t)
          else if canon \<in> d_Name ` set (t_rows t) then (Error ErrAlreadyExists, t)
          else
            let row = \<lparr>d_ID = 0, d_Name = canon, d_Description = TrimSpace description,
                       d_Active = active, d_CreatedByAdminID = adminID,
                       d_CreatedAt = now, d_UpdatedAt = now\<rparr>;
                (i, t') = tbl_insert (d_row row) t
            in (Value (row\<lparr>d_ID := i, d_Description := description\<rparr>), t'))"

definition row_result :: "'e \<Rightarrow> 'a option \<Rightarrow> 'e + 'a" where
  "row_result e r = (case r of Some x \<Rightarrow> Inr x | None \<Rightarrow> Inl e)"

definition Get :: "bool \<Rightarrow> int \<Rightarrow> domains \<Rightarrow> dom_err + domain" where
  "Get fault i t = (if fault then Inl ErrDriver
     else row_result ErrNotFound (find (\<lambda>d. d_ID d = i) (t_rows t)))"

text \<open>\<open>GetByName\<close>: the driver's faults are keyed by the bound parameter, so that a caller that
  looks up several names can see some lookups fail and others succeed.\<close>

definition GetByName :: "unicode \<Rightarrow> string faults \<Rightarrow> string \<Rightarrow> domains \<Rightarrow> dom_err + domain" where
  "GetByName U faults name t =
     (let n = ToLower U (TrimSpace name)
      in if faults n then Inl ErrDriver
         else row_result ErrNotFound (find (\<lambda>d. d_Name d = n) (t_rows t)))"

definition SetActive :: "bool \<Rightarrow> time \<Rightarrow> int \<Rightarrow> bool \<Rightarrow> domains \<Rightarrow> dom_err option \<times> domains" where
  "SetActive fault now i active t =
     (if fault then (Some ErrDriver, t)
      else (None, tbl_update (\<lambda>d. d_ID d = i) (\<lambda>d. d\<lparr>d_Active := active, d_UpdatedAt := now\<rparr>) t))"

definition UpdateDescription :: "bool \<Rightarrow> time \<Rightarrow> int \<Rightarrow> string \<Rightarrow> domains \<Rightarrow> dom_err option \<times> domains" where
  "UpdateDescription fault now i description t =
     (if fault then (Some ErrDriver, t)
      else (None, tbl_update (\<lambda>d. d_ID d = i)
              (\<lambda>d. d\<lparr>d_Description := TrimSpace description, d_UpdatedAt := now\<rparr>) t))"

definition Delete :: "bool \<Rightarrow> int \<Rightarrow> domains \<Rightarrow> dom_err option \<times> domains" where
  "Delete fault i t =
     (if fault then (Some ErrDriver, t) else (None, tbl_delete (\<lambda>d. d_ID d = i) t))"

definition Count :: "bool \<Rightarrow> domains \<Rightarrow> dom_err + nat" where
  "Count fault t = (if fault then Inl ErrDriver else Inr (length (t_rows t)))"

section \<open>Matching\<close>

text \<open>The candidate names of \<open>mostSpecific\<close>, in order: the exact name, then \<open>*.\<close> over the labels
  that remain after dropping the first, the first two, and so on.\<close>

fun wildcards :: "string list \<Rightarrow> string list" where
  "wildcards (p # q # ps) = (''*.'' @ Join (q # ps) ''.'') # wildcards (q # ps)"
| "wildcards _ = []"

definition candidates :: "string \<Rightarrow> string list" where
  "candidates d = d # wildcards (split_on CHR ''.'' d)"

fun first_row :: "unicode \<Rightarrow> string faults \<Rightarrow> string list \<Rightarrow> domains \<Rightarrow> dom_err + domain" where
  "first_row U faults [] t = Inl ErrNotFound"
| "first_row U faults (c # cs) t =
     (case GetByName U faults c t of
        Inl ErrNotFound \<Rightarrow> first_row U faults cs t
      | r \<Rightarrow> r)"

definition mostSpecific :: "unicode \<Rightarrow> string faults \<Rightarrow> string \<Rightarrow> domains \<Rightarrow> dom_err + domain" where
  "mostSpecific U faults emailDomain t =
     (let d = ToLower U (TrimSpace emailDomain)
      in if d = [] then Inl ErrNotFound else first_row U faults (candidates d) t)"

definition FindMatching :: "unicode \<Rightarrow> string faults \<Rightarrow> string \<Rightarrow> domains \<Rightarrow> dom_err + domain" where
  "FindMatching U faults emailDomain t =
     (case mostSpecific U faults emailDomain t of
        Inl e \<Rightarrow> Inl e
      | Inr row \<Rightarrow> if \<not> d_Active row then Inl ErrNotFound else Inr row)"

definition FindMatchingIssued :: "unicode \<Rightarrow> string faults \<Rightarrow> string \<Rightarrow> domains \<Rightarrow> dom_err + domain" where
  "FindMatchingIssued U faults emailDomain t = mostSpecific U faults emailDomain t"

text \<open>\<open>Allows\<close>: the count query fails when \<open>cfault\<close>, the lookups where \<open>faults\<close> says so.\<close>

definition Allows ::
  "unicode \<Rightarrow> bool \<Rightarrow> bool \<Rightarrow> string faults \<Rightarrow> string \<Rightarrow> domains \<Rightarrow> dom_err + bool" where
  "Allows U openWhenEmpty cfault faults emailDomain t =
     (if TrimSpace emailDomain = [] then Inr False
      else case Count cfault t of
        Inl e \<Rightarrow> Inl e
      | Inr n \<Rightarrow>
          if n = 0 then (if openWhenEmpty then Inr True else Inl ErrEmptyAllowlist)
          else case FindMatching U faults emailDomain t of
                 Inl ErrNotFound \<Rightarrow> Inr False
               | Inl e \<Rightarrow> Inl e
               | Inr _ \<Rightarrow> Inr True)"

section \<open>CSV import\<close>

text \<open>What \<open>reader.Read\<close> of \<open>encoding/csv\<close> delivers: a record, or a parse error that stops the
  import. The list of deliveries ends at \<open>io.EOF\<close>.\<close>

datatype csv_read = Record "string list" | ParseError

record import_error =
  ie_Line :: nat
  ie_Domain :: string
  ie_Reason :: dom_err

record import_summary =
  is_Created :: nat
  is_Skipped :: nat
  is_Errors :: "import_error list"

definition parseBoolish :: "unicode \<Rightarrow> string \<Rightarrow> bool" where
  "parseBoolish U s \<longleftrightarrow> ToLower U (TrimSpace s)
     \<notin> {''false'', ''no'', ''0'', ''off'', ''disabled'', ''inactive''}"

definition is_header :: "unicode \<Rightarrow> string \<Rightarrow> bool" where
  "is_header U name \<longleftrightarrow> ToLower U name \<in> {''name'', ''domain'', ''domain name''}"

text \<open>One record: \<open>None\<close> when the loop goes to the next record without an insert, otherwise the
  name, the description and the flag handed to \<open>Create\<close>.\<close>

definition import_args :: "unicode \<Rightarrow> nat \<Rightarrow> string list \<Rightarrow> (string \<times> string \<times> bool) option" where
  "import_args U line row =
     (if row = [] \<or> TrimSpace (row ! 0) = [] then None
      else let name = TrimSpace (row ! 0)
      in if line = 1 \<and> is_header U name then None
      else Some (name,
                 if length row \<ge> 2 then TrimSpace (row ! 1) else [],
                 if length row \<ge> 3 then parseBoolish U (row ! 2) else True))"

text \<open>The body of the loop for one record: whether \<open>Create\<close> panicked, the summary and the table.\<close>

definition import_record ::
  "unicode \<Rightarrow> bool \<Rightarrow> time \<Rightarrow> int option \<Rightarrow> nat \<Rightarrow> string list \<Rightarrow> import_summary \<Rightarrow> domains
     \<Rightarrow> bool \<times> import_summary \<times> domains" where
  "import_record U fault now adminID line row out t =
     (case import_args U line row of
        None \<Rightarrow> (False, out, t)
      | Some (name, description, active) \<Rightarrow>
          (let (r, t') = Create U fault now name description active adminID t
           in case r of
                Panic \<Rightarrow> (True, out, t')
              | Error e \<Rightarrow>
                  if e = ErrAlreadyExists then (False, out\<lparr>is_Skipped := is_Skipped out + 1\<rparr>, t')
                  else (False, out\<lparr>is_Errors := is_Errors out @
                          [\<lparr>ie_Line = line, ie_Domain = name, ie_Reason = e\<rparr>]\<rparr>, t')
              | Value _ \<Rightarrow> (False, out\<lparr>is_Created := is_Created out + 1\<rparr>, t')))"

text \<open>The loop: \<open>Error n\<close> is the wrapped parse error at line \<open>n\<close>; the summary so far is returned
  with it.\<close>

fun import_loop ::
  "unicode \<Rightarrow> nat faults \<Rightarrow> time \<Rightarrow> int option \<Rightarrow> nat \<Rightarrow> csv_read list \<Rightarrow> import_summary \<Rightarrow> domains
     \<Rightarrow> (nat, unit) go_result \<times> import_summary \<times> domains" where
  "import_loop U faults now adminID line [] out t = (Value (), out, t)"
| "import_loop U faults now adminID line (ParseError # rs) out t = (Error (line + 1), out, t)"
| "import_loop U faults now adminID line (Record row # rs) out t =
     (case import_record U (faults (line + 1)) now adminID (line + 1) row out t of
        (panicked, out', t') \<Rightarrow>
          if panicked then (Panic, out', t')
          else import_loop U faults now adminID (line + 1) rs out' t')"

definition Import ::
  "unicode \<Rightarrow> nat faults \<Rightarrow> time \<Rightarrow> int option \<Rightarrow> csv_read list \<Rightarrow> domains
     \<Rightarrow> (nat, unit) go_result \<times> import_summary \<times> domains" where
  "Import U faults now adminID reads t =
     import_loop U faults now adminID 0 reads \<lparr>is_Created = 0, is_Skipped = 0, is_Errors = []\<rparr> t"

section \<open>Which row governs an address\<close>

text \<open>The specification of matching, with no loop over candidates: a stored name covers a
  domain when it is that domain, or a wildcard over a dot-separated suffix of it.\<close>

definition covers :: "string \<Rightarrow> string \<Rightarrow> bool" where
  "covers n d \<longleftrightarrow> n = d \<or> (HasPrefix n ''*.'' \<and> HasSuffix d (CHR ''.'' # drop 2 n))"

text \<open>The exact name beats every wildcard, a longer wildcard beats a shorter one.\<close>

definition beats :: "string \<Rightarrow> string \<Rightarrow> string \<Rightarrow> bool" where
  "beats d a b \<longleftrightarrow> a = d \<or> (b \<noteq> d \<and> length b < length a)"

text \<open>The row that governs \<open>d\<close>: it covers it and beats every other row that does.\<close>

definition governs :: "domains \<Rightarrow> string \<Rightarrow> domain \<Rightarrow> bool" where
  "governs t d r \<longleftrightarrow> r \<in> set (t_rows t) \<and> covers (d_Name r) d
     \<and> (\<forall>r'\<in>set (t_rows t). covers (d_Name r') d \<longrightarrow> r' = r \<or> beats d (d_Name r) (d_Name r'))"

lemma wildcards_iff:
  "n \<in> set (wildcards (split_on CHR ''.'' d)) \<longleftrightarrow> (\<exists>p s. d = p @ CHR ''.'' # s \<and> n = ''*.'' @ s)"
proof (induction d)
  case (Cons x d)
  obtain q qs where s: "split_on CHR ''.'' d = q # qs" by (cases "split_on CHR ''.'' d") auto
  have J: "Join (q # qs) ''.'' = d" using Join_split_on [of "CHR ''.''" d] s by simp
  show ?case
  proof (cases "x = CHR ''.''")
    case True
    have "n \<in> set (wildcards (split_on CHR ''.'' (x # d))) \<longleftrightarrow>
        n = ''*.'' @ d \<or> n \<in> set (wildcards (split_on CHR ''.'' d))"
      using True s J by simp
    also have "\<dots> \<longleftrightarrow> (\<exists>p s. x # d = p @ CHR ''.'' # s \<and> n = ''*.'' @ s)"
      using Cons True by (auto simp: Cons_eq_append_conv)
    finally show ?thesis .
  next
    case False
    have w: "wildcards ((x # q) # qs) = wildcards (q # qs)" by (cases qs) auto
    show ?thesis using Cons False s w by (auto simp: Cons_eq_append_conv)
  qed
qed simp

lemma candidates_iff_covers: "n \<in> set (candidates d) \<longleftrightarrow> covers n d"
  by (auto simp: candidates_def covers_def wildcards_iff suffix_def prefix_def)

lemma wildcards_decreasing:
  "sorted_wrt (\<lambda>a b. length b < length a) (wildcards (split_on CHR ''.'' d))"
proof (induction d)
  case (Cons x d)
  obtain q qs where s: "split_on CHR ''.'' d = q # qs" by (cases "split_on CHR ''.'' d") auto
  have J: "Join (q # qs) ''.'' = d" using Join_split_on [of "CHR ''.''" d] s by simp
  show ?case
  proof (cases "x = CHR ''.''")
    case True
    have "n \<in> set (wildcards (split_on CHR ''.'' d)) \<Longrightarrow> length n < length d + 2" for n
      by (auto simp: wildcards_iff)
    then show ?thesis using Cons True s J by simp
  next
    case False
    have w: "wildcards ((x # q) # qs) = wildcards (q # qs)" by (cases qs) auto
    show ?thesis using Cons False s w by simp
  qed
qed simp

definition names_ok :: "domains \<Rightarrow> bool" where
  "names_ok t \<longleftrightarrow> tbl_wf d_ID d_Name t \<and> (\<forall>r\<in>set (t_rows t). canonical (d_Name r))"

definition lookup_name :: "domains \<Rightarrow> string \<Rightarrow> domain option" where
  "lookup_name t n = find (\<lambda>d. d_Name d = n) (t_rows t)"

lemma lookup_name_iff: "names_ok t \<Longrightarrow> lookup_name t n = Some r \<longleftrightarrow> r \<in> set (t_rows t) \<and> d_Name r = n"
  using dt.find_key_unique [of t r n] by (auto simp: names_ok_def lookup_name_def dest: find_Some_in)

lemma lookup_name_None: "lookup_name t n = None \<longleftrightarrow> n \<notin> d_Name ` set (t_rows t)"
  by (auto simp: lookup_name_def find_None_all)

text \<open>A domain in the form the candidates are built from is its own second normal form.\<close>

definition folded :: "string \<Rightarrow> bool" where
  "folded d \<longleftrightarrow> ascii d \<and> no_upper d \<and> d \<noteq> [] \<and> \<not> IsSpace (byte (last d)) \<and> \<not> IsSpace (byte (hd d))"

lemma TrimSpace_folded: "folded d \<Longrightarrow> ToLower U (TrimSpace d) = d"
  by (subst TrimSpace_plain) (auto simp: folded_def plain_char_def ascii_def intro!: ToLower_id)

lemma folded_candidates:
  assumes "folded d" "c \<in> set (candidates d)"
  shows "folded c"
proof -
  consider "c = d" | p s where "d = p @ CHR ''.'' # s" "c = ''*.'' @ s"
    using assms(2) by (auto simp: candidates_def wildcards_iff)
  then show ?thesis
  proof cases
    case 2
    with assms(1) show ?thesis
      by (cases s) (auto simp: folded_def no_upper_def IsSpace_def)
  qed (use assms in simp)
qed

lemma GetByName_folded:
  "folded c \<Longrightarrow> GetByName U faults c t =
    (if faults c then Inl ErrDriver else row_result ErrNotFound (lookup_name t c))"
  by (simp add: GetByName_def TrimSpace_folded lookup_name_def)

lemma first_row_found:
  "\<forall>c\<in>set cs. folded c \<Longrightarrow> first_row U faults cs t = Inr r \<Longrightarrow>
    \<exists>as c bs. cs = as @ c # bs \<and> lookup_name t c = Some r \<and> (\<forall>a\<in>set as. lookup_name t a = None)"
proof (induction cs)
  case (Cons c cs)
  then consider "lookup_name t c = Some r" | "lookup_name t c = None" "first_row U faults cs t = Inr r"
    by (auto simp: GetByName_folded row_result_def split: if_splits option.splits)
  then show ?case
  proof cases
    case 1
    then show ?thesis by (intro exI [of _ "[]"] exI [of _ c] exI [of _ cs]) simp
  next
    case 2
    then obtain as c' bs where "cs = as @ c' # bs" "lookup_name t c' = Some r"
        "\<forall>a\<in>set as. lookup_name t a = None"
      using Cons by auto
    with 2(1) show ?thesis by (intro exI [of _ "c # as"]) auto
  qed
qed simp

lemma first_row_missing:
  "\<forall>c\<in>set cs. folded c \<and> \<not> faults c \<Longrightarrow> first_row U faults cs t = Inl e \<Longrightarrow>
    e = ErrNotFound \<and> (\<forall>c\<in>set cs. lookup_name t c = None)"
  by (induction cs) (auto simp: GetByName_folded row_result_def split: if_splits option.splits)

lemma first_row_governs:
  assumes "names_ok t" "folded d" "first_row U faults (candidates d) t = Inr r"
  shows "governs t d r"
proof -
  have f: "\<forall>c\<in>set (candidates d). folded c" using folded_candidates assms(2) by blast
  obtain as c bs where s: "candidates d = as @ c # bs" "lookup_name t c = Some r"
      "\<forall>a\<in>set as. lookup_name t a = None"
    using first_row_found [OF f assms(3)] by blast
  have r: "r \<in> set (t_rows t)" "d_Name r = c" using s(2) lookup_name_iff [OF assms(1)] by auto
  have cov: "covers c d" using s(1) candidates_iff_covers [of c d] by simp
  have "r' = r \<or> beats d c (d_Name r')" if r': "r' \<in> set (t_rows t)" "covers (d_Name r') d" for r'
  proof -
    have "d_Name r' \<in> set (candidates d)" using r'(2) candidates_iff_covers by blast
    moreover have "d_Name r' \<notin> set as" using s(3) r'(1) by (auto simp: lookup_name_None)
    ultimately have "d_Name r' = c \<or> d_Name r' \<in> set bs" using s(1) by auto
    then show ?thesis
    proof
      assume "d_Name r' = c"
      then have "lookup_name t c = Some r'" using r'(1) lookup_name_iff [OF assms(1)] by blast
      with s(2) show ?thesis by simp
    next
      assume b: "d_Name r' \<in> set bs"
      show ?thesis
      proof (cases "as = []")
        case True
        then show ?thesis using s(1) by (simp add: candidates_def beats_def)
      next
        case False
        then obtain as' where "as = d # as'" "wildcards (split_on CHR ''.'' d) = as' @ c # bs"
          using s(1) by (cases as) (auto simp: candidates_def)
        then show ?thesis using b s(3) r'(1) wildcards_decreasing [of d]
          by (auto simp: beats_def sorted_wrt_append lookup_name_None)
      qed
    qed
  qed
  then show ?thesis using r cov by (auto simp: governs_def)
qed

lemma governs_unique: "names_ok t \<Longrightarrow> governs t d r \<Longrightarrow> governs t d r' \<Longrightarrow> r' = r"
  using lookup_name_iff [of t d r] lookup_name_iff [of t d r']
  unfolding governs_def beats_def by (metis not_less_iff_gr_or_eq option.inject)

lemma first_row_complete:
  assumes "names_ok t" "folded d" "governs t d r" "\<forall>c. \<not> faults c"
  shows "first_row U faults (candidates d) t = Inr r"
proof -
  have f: "\<forall>c\<in>set (candidates d). folded c" using folded_candidates assms(2) by blast
  show ?thesis
  proof (cases "first_row U faults (candidates d) t")
    case (Inl e)
    then have "\<forall>c\<in>set (candidates d). lookup_name t c = None"
      using first_row_missing [of "candidates d"] f assms(4) by blast
    then show ?thesis
      using assms(3) candidates_iff_covers by (auto simp: governs_def lookup_name_None)
  next
    case (Inr r')
    then show ?thesis
      using first_row_governs [OF assms(1,2)] governs_unique [OF assms(1,3)] by blast
  qed
qed

lemma folded_ToLower:
  assumes "ascii e" "TrimSpace e \<noteq> []"
  shows "folded (ToLower U (TrimSpace e))"
proof -
  let ?t = "TrimSpace e"
  have a: "ToLower U ?t = map alower ?t" "ascii ?t"
    using assms ascii_TrimSpace by (auto intro: ToLower_ascii)
  have p: "plain_char (hd ?t)" "plain_char (last ?t)" using TrimSpace_ends [OF assms] by auto
  have sp: "plain_char c \<Longrightarrow> \<not> IsSpace (byte (alower c))" for c
    by (auto simp: plain_char_def byte_alower IsSpace_def)
  show ?thesis
    unfolding folded_def a(1)
    using a(2) p assms(2) by (simp add: ascii_map_alower no_upper_map_alower last_map hd_map sp)
qed

lemma mostSpecific_ascii:
  assumes "ascii e"
  shows "mostSpecific U faults e t =
    (if TrimSpace e = [] then Inl ErrNotFound
     else first_row U faults (candidates (ToLower U (TrimSpace e))) t)"
  using folded_ToLower [OF assms, of U] by (auto simp: mostSpecific_def Let_def folded_def)

text \<open>
  \<open>mostSpecific\<close> finds exactly the governing row: on a table of canonical, distinct
  names and with no driver fault, the lookup loop over the candidate names returns row \<open>r\<close>
  if and only if \<open>r\<close> covers the (trimmed, lower-cased) email domain and beats every other
  row that covers it: the exact name first, then the deepest wildcard.
\<close>

lemma mostSpecific_governs:
  assumes "names_ok t" "ascii e" "TrimSpace e \<noteq> []"
  shows "mostSpecific U no_faults e t = Inr r \<longleftrightarrow> governs t (ToLower U (TrimSpace e)) r"
  using assms folded_ToLower [OF assms(2,3), of U]
  by (auto simp: mostSpecific_ascii intro: first_row_governs first_row_complete)

section \<open>The table invariant\<close>

lemma Create_cases:
  assumes "Create U fault now name description active adminID t = (r, t')"
  obtains (kept) "t' = t" "\<not> (\<exists>d. r = Value d)"
  | (added) canon row where "Canonicalize U name = Value canon" "canon \<notin> d_Name ` set (t_rows t)"
      "row = \<lparr>d_ID = 0, d_Name = canon, d_Description = TrimSpace description, d_Active = active,
              d_CreatedByAdminID = adminID, d_CreatedAt = now, d_UpdatedAt = now\<rparr>"
      "r = Value (row\<lparr>d_ID := t_next t, d_Description := description\<rparr>)"
      "t' = snd (tbl_insert (d_row row) t)"
proof (cases "\<exists>canon. Canonicalize U name = Value canon \<and> \<not> fault \<and> canon \<notin> d_Name ` set (t_rows t)")
  case True
  then obtain canon where "Canonicalize U name = Value canon" "\<not> fault" "canon \<notin> d_Name ` set (t_rows t)"
    by blast
  then show ?thesis
    using assms by (intro added [OF _ _ refl]) (auto simp: Create_def Let_def tbl_insert_def)
next
  case False
  have "t' = t \<and> \<not> (\<exists>d. r = Value d)"
  proof (cases "Canonicalize U name")
    case (Value canon)
    then have "fault \<or> canon \<in> d_Name ` set (t_rows t)" using False by blast
    with Value assms show ?thesis by (cases fault) (simp_all add: Create_def, auto)
  qed (use assms in \<open>auto simp: Create_def\<close>)
  then show ?thesis using kept by blast
qed

lemma names_ok_empty: "names_ok empty_table"
  using dt.wf_empty by (simp add: names_ok_def empty_table_def)

lemma names_ok_Create:
  assumes "lower_table_ok U" "names_ok t"
  shows "names_ok (snd (Create U fault now name description active adminID t))"
proof -
  obtain r t' where c: "Create U fault now name description active adminID t = (r, t')"
    by (cases "Create U fault now name description active adminID t")
  show ?thesis
  proof (cases rule: Create_cases [OF c])
    case 1
    then show ?thesis using assms(2) c by simp
  next
    case (2 canon row)
    have "canonical canon" using Canonicalize_canonical [OF assms(1) 2(1)] .
    moreover have "tbl_wf d_ID d_Name t'"
      using 2 assms(2) dt.wf_insert [of t row] by (simp add: names_ok_def)
    ultimately show ?thesis
      using c 2 assms(2) by (auto simp: names_ok_def tbl_insert_def d_row_def)
  qed
qed

lemma names_ok_update:
  assumes "names_ok t" "\<And>d. d_ID (f d) = d_ID d" "\<And>d. d_Name (f d) = d_Name d"
  shows "names_ok (tbl_update P f t)"
proof -
  have "tbl_wf d_ID d_Name (tbl_update P f t)"
    using assms dt.wf_update [of t f P] by (simp add: names_ok_def)
  then show ?thesis using assms by (auto simp: names_ok_def tbl_update_def)
qed

lemma names_ok_Delete: "names_ok t \<Longrightarrow> names_ok (snd (Delete fault i t))"
  using dt.wf_delete [of t] by (auto simp: names_ok_def Delete_def) (auto simp: tbl_delete_def)

lemma names_ok_import_record:
  assumes "lower_table_ok U" "names_ok t"
  shows "names_ok (snd (snd (import_record U fault now adminID line row out t)))"
  using names_ok_Create [OF assms] assms(2)
  by (auto simp: import_record_def split: option.splits prod.splits go_result.splits)
    (metis snd_conv)+

lemma names_ok_import_loop:
  assumes "lower_table_ok U" "names_ok t"
  shows "names_ok (snd (snd (import_loop U faults now adminID line rs out t)))"
  using assms(2)
proof (induction rs arbitrary: line out t)
  case (Cons x rs)
  show ?case
  proof (cases x)
    case (Record row)
    then show ?thesis
      using Cons.IH names_ok_import_record [OF assms(1) Cons.prems,
          of "faults (line + 1)" now adminID "line + 1" row out]
      by (auto split: prod.splits)
  qed (use Cons.prems in simp)
qed simp

text \<open>The operations an administrator can drive, each with its own driver faults.\<close>

datatype dom_cmd =
    DCreate bool time string string bool "int option"
  | DSetActive bool time int bool
  | DUpdateDescription bool time int string
  | DDelete bool int
  | DImport "nat faults" time "int option" "csv_read list"

fun dom_step :: "unicode \<Rightarrow> dom_cmd \<Rightarrow> domains \<Rightarrow> domains" where
  "dom_step U (DCreate f now n d a adm) t = snd (Create U f now n d a adm t)"
| "dom_step U (DSetActive f now i a) t = snd (SetActive f now i a t)"
| "dom_step U (DUpdateDescription f now i d) t = snd (UpdateDescription f now i d t)"
| "dom_step U (DDelete f i) t = snd (Delete f i t)"
| "dom_step U (DImport fs now adm rs) t = snd (snd (Import U fs now adm rs t))"

lemma names_ok_step: "lower_table_ok U \<Longrightarrow> names_ok t \<Longrightarrow> names_ok (dom_step U c t)"
  by (cases c) (auto simp: names_ok_Create names_ok_Delete names_ok_import_loop Import_def
      SetActive_def UpdateDescription_def intro!: names_ok_update)

lemma ascii_tables_lower: "lower_table_ok ascii_tables"
  by (simp add: lower_table_ok_def ascii_tables_def)

interpretation dom: machine "dom_step U" "\<lambda>t. lower_table_ok U \<longrightarrow> names_ok t" for U
  by unfold_locales (auto intro: names_ok_step)

text \<open>No operation but DELETE removes a row or changes its id and name.\<close>

lemma Create_prefix: "prefix (t_rows t) (t_rows (snd (Create U fault now name description active adminID t)))"
proof -
  obtain r t' where c: "Create U fault now name description active adminID t = (r, t')"
    by (cases "Create U fault now name description active adminID t")
  then show ?thesis by (cases rule: Create_cases [OF c]) (auto simp: tbl_insert_def)
qed

lemma import_record_prefix:
  "prefix (t_rows t) (t_rows (snd (snd (import_record U fault now adminID line row out t))))"
proof (cases "import_args U line row")
  case (Some a)
  obtain n d act where a: "a = (n, d, act)" by (cases a)
  have "snd (snd (import_record U fault now adminID line row out t)) =
      snd (Create U fault now n d act adminID t)"
    using Some a by (auto simp: import_record_def Let_def case_prod_beta split: go_result.splits)
  then show ?thesis using Create_prefix by simp
qed (simp add: import_record_def)

lemma import_loop_prefix:
  "prefix (t_rows t) (t_rows (snd (snd (import_loop U faults now adminID line rs out t))))"
proof (induction rs arbitrary: line out t)
  case (Cons x rs)
  show ?case
  proof (cases x)
    case (Record row)
    then show ?thesis
      using Cons.IH import_record_prefix [of t U "faults (line + 1)" now adminID "line + 1" row out]
      by (auto split: prod.splits intro: prefix_order.trans)
  qed simp
qed simp

lemma dom_step_keeps:
  assumes "\<And>f i. c \<noteq> DDelete f i" "d \<in> set (t_rows t)"
  shows "\<exists>d'\<in>set (t_rows (dom_step U c t)). d_ID d' = d_ID d \<and> d_Name d' = d_Name d"
proof (cases c)
  case (DCreate f now n ds a adm)
  then show ?thesis using assms(2) set_mono_prefix [OF Create_prefix [of t U f now n ds a adm]] by auto
next
  case (DImport fs now adm rs)
  then show ?thesis
    using assms(2) set_mono_prefix [OF import_loop_prefix [of t U fs now adm 0 rs]] by (auto simp: Import_def)
qed (use assms in \<open>auto simp: SetActive_def UpdateDescription_def intro!: tbl_update_keeps [of d]\<close>)

text \<open>Rows of a CSV file: those that reach \<open>Create\<close>.\<close>

fun data_records :: "unicode \<Rightarrow> nat \<Rightarrow> csv_read list \<Rightarrow> nat" where
  "data_records U line [] = 0"
| "data_records U line (ParseError # rs) = 0"
| "data_records U line (Record row # rs) =
     (if import_args U (line + 1) row = None then 0 else 1) + data_records U (line + 1) rs"

definition out_total :: "import_summary \<Rightarrow> nat" where
  "out_total out = is_Created out + is_Skipped out + length (is_Errors out)"

lemma import_record_counts:
  assumes "import_record U fault now adminID line row out t = (False, out', t')"
  shows "out_total out' = out_total out + (if import_args U line row = None then 0 else 1)"
    and "\<exists>new. t_rows t' = t_rows t @ new \<and> is_Created out' = is_Created out + length new"
proof -
  consider (skip) "import_args U line row = None"
    | (call) name description active r t'' where
        "import_args U line row = Some (name, description, active)"
        "Create U fault now name description active adminID t = (r, t'')"
    by (metis not_None_eq prod.exhaust)
  then have "out_total out' = out_total out + (if import_args U line row = None then 0 else 1)
    \<and> (\<exists>new. t_rows t' = t_rows t @ new \<and> is_Created out' = is_Created out + length new)"
  proof cases
    case skip
    then show ?thesis using assms by (simp add: import_record_def)
  next
    case call
    show ?thesis
    proof (cases rule: Create_cases [OF call(2)])
      case 1
      then show ?thesis using assms call
        by (auto simp: import_record_def out_total_def split: go_result.splits if_splits)
    next
      case 2
      then show ?thesis using assms call
        by (auto simp: import_record_def out_total_def tbl_insert_def)
    qed
  qed
  then show "out_total out' = out_total out + (if import_args U line row = None then 0 else 1)"
    and "\<exists>new. t_rows t' = t_rows t @ new \<and> is_Created out' = is_Created out + length new"
    by blast+
qed

lemma import_loop_counts:
  "import_loop U faults now adminID line rs out t = (Value (), out', t') \<Longrightarrow>
    out_total out' = out_total out + data_records U line rs
    \<and> (\<exists>new. t_rows t' = t_rows t @ new \<and> is_Created out' = is_Created out + length new)"
proof (induction rs arbitrary: line out t)
  case (Cons x rs)
  then obtain row where x: "x = Record row" by (cases x) auto
  obtain p o1 t1 where r: "import_record U (faults (line + 1)) now adminID (line + 1) row out t = (p, o1, t1)"
    by (cases "import_record U (faults (line + 1)) now adminID (line + 1) row out t")
  have p: "\<not> p" and l: "import_loop U faults now adminID (line + 1) rs o1 t1 = (Value (), out', t')"
    using Cons.prems x r by (auto split: if_splits)
  note import_record_counts [of U "faults (line + 1)" now adminID "line + 1" row out t o1 t1]
  with r p Cons.IH [OF l] x show ?case by auto
qed simp

section \<open>Properties\<close>

definition sample_domains :: domains where
  "sample_domains = run (dom_step ascii_tables)
     [DCreate False 0 ''*.corp.com'' [] True None, DCreate False 0 ''*.Paris.corp.com'' [] False None,
      DCreate False 0 ''corp.com'' [] True None] empty_table"

lemma sample_domains_rows:
  "map (\<lambda>d. (d_ID d, d_Name d, d_Active d)) (t_rows sample_domains) =
     [(1, ''*.corp.com'', True), (2, ''*.paris.corp.com'', False), (3, ''corp.com'', True)]"
  by code_simp

lemma sample_domains_ok: "names_ok sample_domains"
  using dom.inv_run [of ascii_tables empty_table] ascii_tables_lower names_ok_empty
  unfolding sample_domains_def by blast

text \<open>
  C14. The allowlist gate, for an ASCII domain and a table as the operations build it. While no statement fails, the answer is exact: a blank
  domain is refused; an empty table admits everything in an open-when-empty mode and is an error otherwise; with rows, the domain
  is admitted if and only if the row that governs it exists and is active, so a disabled governing row is terminal and no
  broader active wildcard re-admits what it refuses. Whatever statements fail, the gate never admits more.
\<close>

theorem allows_exactly_active_governing_row:
  assumes "names_ok t" "ascii e"
  shows "Allows U openWhenEmpty False no_faults e t =
      (if TrimSpace e = [] then Inr False
       else if t_rows t = [] then (if openWhenEmpty then Inr True else Inl ErrEmptyAllowlist)
       else Inr (\<exists>r. governs t (ToLower U (TrimSpace e)) r \<and> d_Active r))
    \<and> (Allows U openWhenEmpty cfault faults e t = Inr True \<longrightarrow> Allows U openWhenEmpty False no_faults e t = Inr True)"
proof (cases "TrimSpace e = [] \<or> t_rows t = []")
  case True
  then show ?thesis by (auto simp: Allows_def Count_def)
next
  case False
  then have e: "TrimSpace e \<noteq> []" and t: "length (t_rows t) \<noteq> 0" by auto
  let ?admitted = "\<exists>r. governs t (ToLower U (TrimSpace e)) r \<and> d_Active r"
  note f = folded_ToLower [OF assms(2) e, of U]
  have gov: "mostSpecific U faults e t = Inr r \<Longrightarrow> governs t (ToLower U (TrimSpace e)) r" for faults r
    using first_row_governs [OF assms(1) f] e by (simp add: mostSpecific_ascii [OF assms(2)])
  have exact: "mostSpecific U no_faults e t = Inr r \<longleftrightarrow> governs t (ToLower U (TrimSpace e)) r" for r
    using mostSpecific_governs [OF assms e] .
  have miss: "x = ErrNotFound" if "mostSpecific U no_faults e t = Inl x" for x
  proof -
    have "\<forall>c\<in>set (candidates (ToLower U (TrimSpace e))). folded c \<and> \<not> no_faults c" using folded_candidates [OF f] by simp
    from first_row_missing [OF this, of U t x] that e show ?thesis by (simp add: mostSpecific_ascii [OF assms(2)])
  qed
  have "Allows U openWhenEmpty False no_faults e t = Inr ?admitted"
    using e t miss exact unfolding Allows_def Count_def FindMatching_def
    by (cases "mostSpecific U no_faults e t") (auto split: if_splits, metis)
  moreover have ?admitted if "Allows U openWhenEmpty cfault faults e t = Inr True"
    using that e t gov [of faults]
    by (auto simp: Allows_def Count_def FindMatching_def split: if_splits sum.splits dom_err.splits)
  ultimately show ?thesis using False by auto
qed

theorem allows_exactly_active_governing_row_witness:
  "(\<exists>r. governs sample_domains (ToLower ascii_tables (TrimSpace ''lyon.corp.com'')) r \<and> d_Active r)
   \<and> \<not> (\<exists>r. governs sample_domains (ToLower ascii_tables (TrimSpace ''b.paris.corp.com'')) r \<and> d_Active r)"
proof -
  have "Allows ascii_tables False False no_faults ''lyon.corp.com'' sample_domains = Inr True"
      "Allows ascii_tables False False no_faults ''b.paris.corp.com'' sample_domains = Inr False"
      "ascii ''lyon.corp.com''" "ascii ''b.paris.corp.com''" "TrimSpace ''lyon.corp.com'' \<noteq> []" "TrimSpace ''b.paris.corp.com'' \<noteq> []"
      "t_rows sample_domains \<noteq> []"
    by code_simp+
  then show ?thesis
    using allows_exactly_active_governing_row [OF sample_domains_ok, of "''lyon.corp.com''" ascii_tables False]
      allows_exactly_active_governing_row [OF sample_domains_ok, of "''b.paris.corp.com''" ascii_tables False] by simp
qed

text \<open>
  Whatever sequence of operations administrators run, imports and driver failures
  included, the stored names stay pairwise distinct and canonical: lower case, an FQDN of at
  most 253 bytes in 63-byte letter-digit-hyphen labels, with at most one leading wildcard label.
\<close>

theorem stored_names_canonical_and_unique:
  assumes "lower_table_ok U"
  shows "let t = run (dom_step U) cmds empty_table
         in distinct (map d_Name (t_rows t)) \<and> (\<forall>r\<in>set (t_rows t). canonical (d_Name r))"
  using dom.inv_run [of U empty_table cmds] assms names_ok_empty
  by (simp add: names_ok_def tbl_wf_def Let_def)

theorem stored_names_canonical_and_unique_witness:
  "let t = run (dom_step ascii_tables) [DImport no_faults 0 None [Record [''name''], Record ['' A.fr '', ''x'', ''off'']]] empty_table
   in distinct (map d_Name (t_rows t)) \<and> (\<forall>r\<in>set (t_rows t). canonical (d_Name r)) \<and> map d_Name (t_rows t) = [''a.fr'']"
proof -
  let ?c = "[DImport no_faults 0 None [Record [''name''], Record ['' A.fr '', ''x'', ''off'']]]"
  have "map d_Name (t_rows (run (dom_step ascii_tables) ?c empty_table)) = [''a.fr'']"
    by code_simp
  then show ?thesis
    using stored_names_canonical_and_unique [OF ascii_tables_lower, of ?c] unfolding Let_def by blast
qed

text \<open>
  \<open>Canonicalize\<close> either answers or panics, and it panics exactly on a lone dot (up to case and
  surrounding space): \<open>name[1:]\<close> is taken after the leading dot was stripped. When it answers,
  the name is canonical and canonicalizing it again returns it unchanged.
\<close>

theorem canonicalize_total_except_dot:
  assumes "lower_table_ok U"
  shows "(Canonicalize U raw = Panic \<longleftrightarrow> ToLower U (TrimSpace raw) = ''.'')
    \<and> (\<forall>n. Canonicalize U raw = Value n \<longrightarrow> canonical n \<and> Canonicalize U n = Value n)"
proof
  have e: "drop (Suc 0) n = [] \<and> prefix ''.'' n \<longleftrightarrow> n = ''.''" for n :: string
    by (cases n) auto
  show "Canonicalize U raw = Panic \<longleftrightarrow> ToLower U (TrimSpace raw) = ''.''"
    using e [of "ToLower U (TrimSpace raw)"]
    by (auto simp: Canonicalize_def Let_def TrimPrefix_def)
  show "\<forall>n. Canonicalize U raw = Value n \<longrightarrow> canonical n \<and> Canonicalize U n = Value n"
    using Canonicalize_canonical [OF assms] Canonicalize_fixpoint by blast
qed

theorem canonicalize_total_except_dot_witness:
  "Canonicalize ascii_tables '' . '' = Panic \<and> Canonicalize ascii_tables '' .Corp.com'' = Value ''corp.com''
   \<and> canonical ''corp.com''"
proof -
  have "ToLower ascii_tables (TrimSpace '' . '') = ''.''"
      "Canonicalize ascii_tables '' .Corp.com'' = Value ''corp.com''"
    by code_simp+
  then show ?thesis using canonicalize_total_except_dot [OF ascii_tables_lower] by blast
qed

text \<open>
  An import accounts for every data row exactly once: when it reaches the end of the file,
  created, skipped and failed rows add up to the records that are neither blank nor the header,
  and the table is the old one followed by exactly the created rows (nothing existing is touched).
\<close>

theorem import_accounts_for_every_row:
  assumes "Import U faults now adminID reads t = (Value (), out, t')"
  shows "is_Created out + is_Skipped out + length (is_Errors out) = data_records U 0 reads
    \<and> (\<exists>new. t_rows t' = t_rows t @ new \<and> length new = is_Created out)"
  using import_loop_counts [OF assms [unfolded Import_def]] by (auto simp: out_total_def)

definition sample_reads :: "csv_read list" where
  "sample_reads = [Record [''Domain name'', ''note''], Record [''corp.com''], Record [''-bad-''], Record [''x.org'', ''d'']]"

theorem import_accounts_for_every_row_witness:
  "(let (r, out, t') = Import ascii_tables no_faults 5 None sample_reads sample_domains
   in r = Value () \<and> (is_Created out, is_Skipped out, length (is_Errors out)) = (1, 1, 1)
   \<and> is_Created out + is_Skipped out + length (is_Errors out) = data_records ascii_tables 0 sample_reads)"
proof -
  obtain r out t' where i: "Import ascii_tables no_faults 5 None sample_reads sample_domains = (r, out, t')"
    by (rule prod_cases3)
  have "map_prod id (\<lambda>(out, t). (is_Created out, is_Skipped out, length (is_Errors out)))
      (Import ascii_tables no_faults 5 None sample_reads sample_domains) = (Value (), 1, 1, 1)"
    by code_simp
  then have v: "r = Value ()" "(is_Created out, is_Skipped out, length (is_Errors out)) = (1, 1, 1)"
    unfolding i by simp_all
  show ?thesis
    using import_accounts_for_every_row [OF i [unfolded v(1)]] v unfolding i by simp
qed

end
