(* ===== verification/Mail.thy ===== *)
theory Mail
  imports Go_Strings "HOL-Library.List_Lexorder" "HOL-Library.Char_ord" "HOL-Library.Multiset"
begin

text \<open>
  \<open>internal/mail/mail.go\<close>: the addresses and headers of outbound mail.

  \<open>NormalizeAddress\<close> accepts a bare addr-spec only. It calls \<open>net/mail.ParseAddress\<close> and then
  requires an empty display name and an address equal to its input; on that condition the
  parser's other forms (angle brackets, groups, comments, quoted local parts) are excluded,
  because each of them returns an address shorter than the text it consumed, and what is left is
  the addr-spec grammar modelled by \<open>addr_spec\<close>. A domain literal \<open>[...]\<close> is checked by
  \<open>net.ParseIP\<close>, here the argument \<open>isIP\<close>.
  \<open>checkHeaders\<close>, \<open>sortedKeys\<close> and \<open>Message.String\<close> write the headers; \<open>mime.QEncoding\<close> is the
  argument \<open>qenc\<close>.
\<close>

section \<open>Addresses\<close>

definition isVchar :: "rune \<Rightarrow> bool" where
  "isVchar r \<longleftrightarrow> (33 \<le> r \<and> r \<le> 126) \<or> 0x80 \<le> r"

text \<open>\<open>isAtext(r, dot)\<close> with \<open>dot\<close> set: everything visible but the RFC 5322 specials.\<close>

definition isAtext :: "rune \<Rightarrow> bool" where
  "isAtext r \<longleftrightarrow> r \<notin> set (map byte [CHR ''('', CHR '')'', CHR ''<'', CHR ''>'', CHR ''['', CHR '']'',
      CHR '':'', CHR '';'', CHR ''@'', CHR 0x5C, CHR '','', CHR 0x22]) \<and> isVchar r"

definition isDtext :: "rune \<Rightarrow> bool" where
  "isDtext r \<longleftrightarrow> r \<notin> set (map byte [CHR ''['', CHR '']'', CHR 0x5C]) \<and> isVchar r"

text \<open>A maximal run of \<open>isAtext\<close> runes with \<open>permissive\<close> off: valid UTF-8, not empty, no dot at an
  end, no two dots in a row.\<close>

definition dot_atom :: "string \<Rightarrow> bool" where
  "dot_atom a \<longleftrightarrow> ValidString a \<and> (\<forall>r\<in>set (runes a). isAtext r)
     \<and> (\<forall>l\<in>set (split_on CHR ''.'' a). l \<noteq> [])"

definition domain_literal :: "(string \<Rightarrow> bool) \<Rightarrow> string \<Rightarrow> bool" where
  "domain_literal isIP d \<longleftrightarrow> length d \<ge> 2 \<and> hd d = CHR ''['' \<and> last d = CHR '']''
     \<and> (let t = butlast (tl d) in ValidString t \<and> (\<forall>r\<in>set (runes t). isDtext r) \<and> isIP t)"

definition addr_spec :: "(string \<Rightarrow> bool) \<Rightarrow> string \<Rightarrow> bool" where
  "addr_spec isIP s \<longleftrightarrow>
     (let at = IndexByte CHR ''@'' s
      in at \<ge> 0 \<and> dot_atom (slice_to s at)
         \<and> (let d = slice_from s (at + 1) in dot_atom d \<or> domain_literal isIP d))"

datatype addr_err = ErrLength | ErrControl | ErrNotBare

definition maxAddressLen :: nat where "maxAddressLen = 254"

definition NormalizeAddress :: "unicode \<Rightarrow> (string \<Rightarrow> bool) \<Rightarrow> string \<Rightarrow> addr_err + string" where
  "NormalizeAddress U isIP raw =
     (let s = ToLower U (TrimSpace raw)
      in if s = [] \<or> length s > maxAddressLen then Inl ErrLength
      else if \<exists>r\<in>set (runes s). r < 0x20 \<or> r = 0x7F then Inl ErrControl
      else if \<not> addr_spec isIP s then Inl ErrNotBare
      else Inr s)"

definition email_domain :: "string \<Rightarrow> string" where
  "email_domain email = slice_from email (LastIndexByte CHR ''@'' email + 1)"

text \<open>What \<open>net.ParseIP\<close> promises: a textual IP address is written with hexadecimal digits, dots and
  colons only.\<close>

definition ip_text :: "(string \<Rightarrow> bool) \<Rightarrow> bool" where
  "ip_text isIP \<longleftrightarrow> (\<forall>t. isIP t \<longrightarrow> set t \<subseteq> set ''0123456789abcdefABCDEF.:'')"

text \<open>A byte that cannot end the address, open a comment or a quoted string, or start a new header.\<close>

definition addr_byte :: "char \<Rightarrow> bool" where
  "addr_byte c \<longleftrightarrow> 0x20 < byte c \<and> byte c \<noteq> 0x7F
     \<and> c \<notin> set [CHR ''('', CHR '')'', CHR ''<'', CHR ''>'', CHR '':'', CHR '';'', CHR ''@'', CHR 0x5C, CHR '','', CHR 0x22]"

lemma dot_atom_bytes: "dot_atom a \<Longrightarrow> c \<in> set a \<Longrightarrow> addr_byte c"
proof -
  assume a: "dot_atom a" and c: "c \<in> set a"
  show ?thesis
  proof (cases "byte c < 0x80")
    case True
    then have "isAtext (byte c)" using a ascii_in_runes [OF True c] by (auto simp: dot_atom_def)
    then show ?thesis by (auto simp: isAtext_def isVchar_def addr_byte_def)
  next
    case False
    then show ?thesis by (auto simp: addr_byte_def)
  qed
qed

lemma literal_bytes:
  assumes "ip_text isIP" "domain_literal isIP d" "c \<in> set d"
  shows "addr_byte c \<or> c = CHR '':''"
proof -
  obtain t where d: "d = CHR ''['' # t @ [CHR '']'']" "isIP t"
  proof
    have "d = hd d # butlast (tl d) @ [last d]"
      using assms(2) by (cases d; cases "tl d" rule: rev_cases) (auto simp: domain_literal_def)
    then show "d = CHR ''['' # butlast (tl d) @ [CHR '']'']" "isIP (butlast (tl d))"
      using assms(2) by (auto simp: domain_literal_def Let_def)
  qed
  have "c = CHR ''['' \<or> c = CHR '']'' \<or> c \<in> set ''0123456789abcdefABCDEF.:''"
    using d assms(1,3) unfolding ip_text_def by fastforce
  moreover have "\<forall>c\<in>set ''0123456789abcdefABCDEF.:''. addr_byte c \<or> c = CHR '':''"
    "addr_byte CHR ''[''" "addr_byte CHR '']''" by code_simp+
  ultimately show ?thesis by blast
qed

lemma dot_atom_nonempty: "dot_atom a \<Longrightarrow> a \<noteq> []"
  by (auto simp: dot_atom_def)

lemma NormalizeAddress_split:
  assumes "ip_text isIP" "NormalizeAddress U isIP raw = Inr s"
  obtains l d where "s = l @ CHR ''@'' # d" "dot_atom l" "dot_atom d \<or> domain_literal isIP d"
    "CHR ''@'' \<notin> set l" "CHR ''@'' \<notin> set d" "email_domain s = d"
proof -
  have a: "addr_spec isIP s"
    using assms(2) by (auto simp: NormalizeAddress_def Let_def split: if_splits)
  then have i: "0 \<le> IndexByte CHR ''@'' s" by (simp add: addr_spec_def Let_def)
  then have "CHR ''@'' \<in> set s" using IndexByte_neg [of "CHR ''@''" s] by linarith
  then obtain l d where s: "s = l @ CHR ''@'' # d" "CHR ''@'' \<notin> set l"
    by (meson split_list_first)
  then have at: "IndexByte CHR ''@'' s = int (length l)" by (simp add: IndexByte_split)
  have n: "nat (int (length l) + 1) = Suc (length l)" by simp
  have ld: "dot_atom l" "dot_atom d \<or> domain_literal isIP d"
    using a unfolding addr_spec_def Let_def at n by (simp_all add: s)
  have d: "CHR ''@'' \<notin> set d"
    using ld(2) dot_atom_bytes [of d "CHR ''@''"] literal_bytes [OF assms(1), of d "CHR ''@''"]
    by (auto simp: addr_byte_def)
  have "email_domain s = d"
    unfolding email_domain_def s(1) LastIndexByte_split [OF d] n by simp
  with s ld d that show ?thesis by blast
qed

section \<open>Messages\<close>

abbreviation CR :: char where "CR \<equiv> CHR 0x0D"
abbreviation LF :: char where "LF \<equiv> CHR 0x0A"
abbreviation crlf :: string where "crlf \<equiv> [CR, LF]"

record message =
  m_From :: string
  m_To :: string
  m_ReplyTo :: string
  m_Subject :: string
  m_Headers :: "(string, string) gomap"
  m_Body :: string

text \<open>\<open>sortedKeys\<close>: the inner loop moves the key at \<open>j\<close> down by swaps, the outer loop takes the
  positions from 1 up.\<close>

fun sift :: "string list \<Rightarrow> nat \<Rightarrow> string list" where
  "sift out 0 = out"
| "sift out (Suc j) =
     (if out ! j > out ! Suc j then sift (out[j := out ! Suc j, Suc j := out ! j]) j else out)"

lemma length_sift [simp]: "length (sift out j) = length out"
  by (induction out j rule: sift.induct) auto

function sort_from :: "nat \<Rightarrow> string list \<Rightarrow> string list" where
  "sort_from i out = (if i < length out then sort_from (i + 1) (sift out i) else out)"
  by pat_completeness auto
termination by (relation "measure (\<lambda>(i, out). length out - i)") auto

declare sort_from.simps [simp del]

definition sortedKeys :: "(string, string) gomap \<Rightarrow> string list" where
  "sortedKeys m = sort_from 1 (map fst m)"

definition header_line :: "string \<Rightarrow> string \<Rightarrow> string" where
  "header_line k v = k @ '': '' @ v @ crlf"

text \<open>\<open>Message.String\<close>; \<open>m.Headers[k]\<close> of a key that is present.\<close>

definition String_of :: "(string \<Rightarrow> string) \<Rightarrow> message \<Rightarrow> string" where
  "String_of qenc m =
     header_line ''From'' (m_From m) @ header_line ''To'' (m_To m)
     @ (if m_ReplyTo m \<noteq> [] then header_line ''Reply-To'' (m_ReplyTo m) else [])
     @ header_line ''Subject'' (qenc (m_Subject m))
     @ concat (map (\<lambda>k. header_line k (the (map_of (m_Headers m) k))) (sortedKeys (m_Headers m)))
     @ crlf @ m_Body m"

definition has_crlf :: "string \<Rightarrow> bool" where
  "has_crlf v \<longleftrightarrow> CR \<in> set v \<or> LF \<in> set v"

datatype mail_err = ErrRecipient | ErrDomainEmpty | ErrSubjectEmpty | ErrBodyEmpty | ErrRandom | ErrHeaderCRLF

definition checkHeaders :: "message \<Rightarrow> mail_err option" where
  "checkHeaders m =
     (let vals = [m_From m, m_To m, m_ReplyTo m, m_Subject m] @ concat (map (\<lambda>(k, v). [k, v]) (m_Headers m))
      in if \<exists>v\<in>set vals. has_crlf v then Some ErrHeaderCRLF else None)"

definition validateRecipient :: "unicode \<Rightarrow> (string \<Rightarrow> bool) \<Rightarrow> string \<Rightarrow> mail_err option" where
  "validateRecipient U isIP addr =
     (if addr = [] then Some ErrRecipient
      else case NormalizeAddress U isIP addr of Inl _ \<Rightarrow> Some ErrRecipient | Inr _ \<Rightarrow> None)"

fun crlf_lines :: "string \<Rightarrow> string" where
  "crlf_lines [] = []"
| "crlf_lines (c # s) = (if c = LF then crlf else [c]) @ crlf_lines s"

definition assembleMultipart :: "string \<Rightarrow> string \<Rightarrow> string \<Rightarrow> string" where
  "assembleMultipart boundary txt html =
     ''This is a multi-part message in MIME format.'' @ crlf @ crlf
     @ ''--'' @ boundary @ crlf
     @ ''Content-Type: text/plain; charset=utf-8'' @ crlf
     @ ''Content-Transfer-Encoding: 8bit'' @ crlf @ crlf
     @ crlf_lines txt @ crlf
     @ ''--'' @ boundary @ crlf
     @ ''Content-Type: text/html; charset=utf-8'' @ crlf
     @ ''Content-Transfer-Encoding: 8bit'' @ crlf @ crlf
     @ crlf_lines html @ crlf
     @ ''--'' @ boundary @ ''--'' @ crlf"

record assemble_inputs =
  ai_To :: string
  ai_From :: string
  ai_ReplyTo :: string
  ai_InstanceDomain :: string
  ai_Subject :: string
  ai_Text :: string
  ai_HTML :: string
  ai_Now :: "time option"

text \<open>\<open>newBoundary\<close> and \<open>newMessageID\<close> take what \<open>rand.Read\<close> delivered, \<open>None\<close> when it failed.\<close>

definition newBoundary :: "string option \<Rightarrow> string option" where
  "newBoundary rnd = map_option (\<lambda>b. ''----=_SK_'' @ hex b) rnd"

definition newMessageID :: "string option \<Rightarrow> string \<Rightarrow> string option" where
  "newMessageID rnd domain = map_option (\<lambda>b. ''<'' @ hex b @ ''@'' @ domain @ ''>'') rnd"

text \<open>\<open>Assemble\<close>: \<open>fmt_date\<close> is \<open>Time.Format(time.RFC1123Z)\<close>, \<open>clock\<close> the time used when none is given,
  \<open>r1\<close> and \<open>r2\<close> the two draws of random bytes.\<close>

definition Assemble ::
  "unicode \<Rightarrow> (string \<Rightarrow> bool) \<Rightarrow> (time \<Rightarrow> string) \<Rightarrow> time \<Rightarrow> string option \<Rightarrow> string option \<Rightarrow> assemble_inputs
     \<Rightarrow> mail_err + message" where
  "Assemble U isIP fmt_date clock r1 r2 inp =
     (case validateRecipient U isIP (ai_To inp) of Some e \<Rightarrow> Inl e | None \<Rightarrow>
      if ai_InstanceDomain inp = [] then Inl ErrDomainEmpty
      else if ai_Subject inp = [] then Inl ErrSubjectEmpty
      else if ai_Text inp = [] \<and> ai_HTML inp = [] then Inl ErrBodyEmpty
      else
        let now = (case ai_Now inp of Some t \<Rightarrow> t | None \<Rightarrow> clock);
            sender = (if ai_From inp = [] then ''SealKeeper <noreply@'' @ ai_InstanceDomain inp @ ''>'' else ai_From inp)
        in case newBoundary r1 of None \<Rightarrow> Inl ErrRandom | Some boundary \<Rightarrow>
           (case newMessageID r2 (ai_InstanceDomain inp) of None \<Rightarrow> Inl ErrRandom | Some msgID \<Rightarrow>
            let m = \<lparr>m_From = sender, m_To = ai_To inp, m_ReplyTo = ai_ReplyTo inp, m_Subject = ai_Subject inp,
                     m_Headers = [(''Date'', fmt_date now), (''Message-ID'', msgID), (''MIME-Version'', ''1.0''),
                       (''Content-Type'', ''multipart/alternative; boundary='' @ [CHR 0x22] @ boundary @ [CHR 0x22]),
                       (''X-Mailer'', ''SealKeeper'')],
                     m_Body = assembleMultipart boundary (ai_Text inp) (ai_HTML inp)\<rparr>
            in case checkHeaders m of Some e \<Rightarrow> Inl e | None \<Rightarrow> Inr m))"

section \<open>The header writer sorts\<close>

lemma sift_mset: "j < length out \<Longrightarrow> mset (sift out j) = mset out"
  by (induction out j rule: sift.induct) (auto simp: mset_swap)

lemma insort_snoc: "x < y \<Longrightarrow> insort x (xs @ [y]) = insort x xs @ [y]" for x :: "'a::linorder"
  by (induction xs) auto

text \<open>The inner loop inserts the key at \<open>j\<close> into the sorted keys before it.\<close>

lemma sift_take_insort:
  assumes "j < length out" "sorted (take j out)"
  shows "take (Suc j) (sift out j) = insort (out ! j) (take j out) \<and> drop (Suc j) (sift out j) = drop (Suc j) out"
  using assms
proof (induction out j rule: sift.induct)
  case (1 out)
  then show ?case by (cases out) auto
next
  case (2 out j)
  have t: "take (Suc j) out = take j out @ [out ! j]" using 2(2) by (simp add: take_Suc_conv_app_nth)
  have srt: "sorted (take j out)" "\<forall>x\<in>set (take j out). x \<le> out ! j"
    using 2(3) unfolding t by (auto simp: sorted_append)
  show ?case
  proof (cases "out ! j > out ! Suc j")
    case True
    let ?o = "out[j := out ! Suc j, Suc j := out ! j]"
    have IH: "take (Suc j) (sift ?o j) = insort (?o ! j) (take j ?o)" "drop (Suc j) (sift ?o j) = drop (Suc j) ?o"
      using 2(1) [OF True] 2(2) srt by auto
    have o: "?o ! j = out ! Suc j" "take j ?o = take j out" "?o ! Suc j = out ! j"
        "drop (Suc (Suc j)) ?o = drop (Suc (Suc j)) out"
      using 2(2) by auto
    have nth: "sift ?o j ! Suc j = out ! j"
      using IH(2) o(3) 2(2) by (metis Cons_nth_drop_Suc length_list_update length_sift list.inject)
    have "take (Suc (Suc j)) (sift ?o j) = insort (out ! Suc j) (take j out) @ [out ! j]"
      using IH(1) o nth 2(2) by (simp add: take_Suc_conv_app_nth)
    also have "\<dots> = insort (out ! Suc j) (take j out @ [out ! j])"
      using True by (simp add: insort_snoc)
    finally have "take (Suc (Suc j)) (sift ?o j) = insort (out ! Suc j) (take (Suc j) out)" unfolding t .
    moreover have "drop (Suc (Suc j)) (sift ?o j) = drop (Suc (Suc j)) out"
      using IH(2) o(4) by (metis drop_Suc tl_drop)
    ultimately show ?thesis using True by simp
  next
    case False
    have "\<forall>x\<in>set (take (Suc j) out). x \<le> out ! Suc j"
      using srt False unfolding t by force
    then have "insort (out ! Suc j) (take (Suc j) out) = take (Suc j) out @ [out ! Suc j]"
      using 2(3) by (intro sorted_insort_is_snoc) auto
    then show ?thesis using False 2(2) by (simp add: take_Suc_conv_app_nth)
  qed
qed

lemma sort_from_correct:
  "1 \<le> i \<Longrightarrow> sorted (take i out) \<Longrightarrow> sorted (sort_from i out) \<and> mset (sort_from i out) = mset out"
proof (induction i out rule: sort_from.induct)
  case (1 i out)
  show ?case
  proof (cases "i < length out")
    case True
    have "sorted (take (i + 1) (sift out i))"
      using sift_take_insort [OF True 1(3)] 1(3) by (simp add: sorted_insort)
    then show ?thesis
      using 1(1) [OF True] True by (subst (1 2) sort_from.simps) (simp add: sift_mset)
  next
    case False
    then show ?thesis using 1(3) by (subst (1 2) sort_from.simps) simp
  qed
qed

lemma sortedKeys_sort: "sortedKeys m = sort (map fst m)"
proof -
  have "sorted (take 1 (map fst m))" by (cases m) auto
  then show ?thesis
    using sort_from_correct [of 1 "map fst m"] unfolding sortedKeys_def
    by (metis le_refl properties_for_sort)
qed

section \<open>Properties\<close>

text \<open>
  An accepted address is a bare \<open>local@domain\<close>: at most 254 bytes, exactly one \<open>@\<close> with
  text on both sides, the part after the last \<open>@\<close> (which the allowlist is asked about) is that
  domain, and no byte of it is a control character, a space, or one of the characters that start a
  comment, a quoted string, a route or a second recipient.
\<close>

theorem normalized_address_is_bare:
  assumes "ip_text isIP" "NormalizeAddress U isIP raw = Inr s"
  shows "length s \<le> 254 \<and> (\<exists>l d. s = l @ CHR ''@'' # d \<and> l \<noteq> [] \<and> d \<noteq> [] \<and> email_domain s = d
    \<and> (\<forall>c\<in>set l. addr_byte c) \<and> (\<forall>c\<in>set d. addr_byte c \<or> c = CHR '':''))"
proof
  show "length s \<le> 254"
    using assms(2) by (auto simp: NormalizeAddress_def Let_def maxAddressLen_def split: if_splits)
  obtain l d where s: "s = l @ CHR ''@'' # d" "dot_atom l" "dot_atom d \<or> domain_literal isIP d"
      "email_domain s = d"
    using NormalizeAddress_split [OF assms] by metis
  have "d \<noteq> []" using s(3) dot_atom_nonempty by (auto simp: domain_literal_def)
  moreover have "\<forall>c\<in>set d. addr_byte c \<or> c = CHR '':''"
    using s(3) dot_atom_bytes literal_bytes [OF assms(1)] by blast
  ultimately show "\<exists>l d. s = l @ CHR ''@'' # d \<and> l \<noteq> [] \<and> d \<noteq> [] \<and> email_domain s = d
    \<and> (\<forall>c\<in>set l. addr_byte c) \<and> (\<forall>c\<in>set d. addr_byte c \<or> c = CHR '':'')"
    using s dot_atom_nonempty [OF s(2)] dot_atom_bytes [OF s(2)] by blast
qed

definition loopback_only :: "string \<Rightarrow> bool" where
  "loopback_only t \<longleftrightarrow> t = ''127.0.0.1''"

lemma ip_text_loopback: "ip_text loopback_only"
  by (simp add: ip_text_def loopback_only_def)

theorem normalized_address_is_bare_witness:
  "NormalizeAddress ascii_tables loopback_only '' Bob@Corp.com '' = Inr ''bob@corp.com''
   \<and> NormalizeAddress ascii_tables loopback_only ''<bob@corp.com>'' = Inl ErrNotBare
   \<and> length ''bob@corp.com'' \<le> 254"
proof -
  have "NormalizeAddress ascii_tables loopback_only '' Bob@Corp.com '' = Inr ''bob@corp.com''"
    "NormalizeAddress ascii_tables loopback_only ''<bob@corp.com>'' = Inl ErrNotBare"
    by code_simp+
  then show ?thesis using normalized_address_is_bare [OF ip_text_loopback] by blast
qed

definition header_lines :: "(string \<Rightarrow> string) \<Rightarrow> message \<Rightarrow> string list" where
  "header_lines qenc m =
     [''From: '' @ m_From m, ''To: '' @ m_To m]
     @ (if m_ReplyTo m \<noteq> [] then [''Reply-To: '' @ m_ReplyTo m] else [])
     @ [''Subject: '' @ qenc (m_Subject m)]
     @ map (\<lambda>k. k @ '': '' @ the (map_of (m_Headers m) k)) (sort (map fst (m_Headers m)))"

text \<open>
  The serialised headers cannot be injected into: for a message that passed \<open>checkHeaders\<close>,
  the text before the body is exactly one line per header (From, To, Reply-To when set,
  Subject, then the extra headers), none of which contains a CR or LF, followed by the one empty
  line. The order does not depend on the iteration order of the header map: it is the sorted one.
\<close>

theorem message_headers_not_injectable:
  assumes "checkHeaders m = None" "\<And>s. \<not> has_crlf s \<Longrightarrow> \<not> has_crlf (qenc s)"
  shows "String_of qenc m = concat (map (\<lambda>l. l @ crlf) (header_lines qenc m)) @ crlf @ m_Body m
    \<and> (\<forall>l\<in>set (header_lines qenc m). \<not> has_crlf l)"
proof
  show "String_of qenc m = concat (map (\<lambda>l. l @ crlf) (header_lines qenc m)) @ crlf @ m_Body m"
    by (simp add: String_of_def header_lines_def header_line_def sortedKeys_sort comp_def)
  have c: "\<forall>v\<in>set [m_From m, m_To m, m_ReplyTo m, m_Subject m]. \<not> has_crlf v"
    "\<And>k v. (k, v) \<in> set (m_Headers m) \<Longrightarrow> \<not> has_crlf k \<and> \<not> has_crlf v"
    using assms(1) unfolding checkHeaders_def Let_def by (auto split: if_split_asm)
  have h: "\<not> has_crlf (k @ '': '' @ the (map_of (m_Headers m) k))" if kin: "k \<in> fst ` set (m_Headers m)" for k
  proof -
    obtain v where v: "map_of (m_Headers m) k = Some v" using kin by (cases "map_of (m_Headers m) k") (auto simp: map_of_eq_None_iff)
    then have "(k, v) \<in> set (m_Headers m)" by (rule map_of_SomeD)
    then show ?thesis using c(2) [of k v] v by (simp add: has_crlf_def)
  qed
  have h': "(k, v) \<in> set (m_Headers m) \<Longrightarrow> \<not> has_crlf (k @ '': '' @ the (map_of (m_Headers m) k))" for k v
    using h [of k] by force
  have q: "\<not> has_crlf (qenc (m_Subject m))" using assms(2) c(1) by simp
  show "\<forall>l\<in>set (header_lines qenc m). \<not> has_crlf l"
    unfolding header_lines_def set_append set_map set_sort Un_iff ball_Un
    using c(1) q h' by (auto simp: has_crlf_def)
qed

theorem message_headers_not_injectable_witness:
  "(let m = \<lparr>m_From = ''a@b.c'', m_To = ''d@e.f'', m_ReplyTo = [], m_Subject = ''hi'',
     m_Headers = [(''X'', ''1''), (''Date'', ''now'')], m_Body = ''body''\<rparr>
   in checkHeaders m = None \<and> (\<forall>l\<in>set (header_lines id m). \<not> has_crlf l)
      \<and> String_of id m = concat (map (\<lambda>l. l @ crlf) [''From: a@b.c'', ''To: d@e.f'', ''Subject: hi'', ''Date: now'', ''X: 1'']) @ crlf @ ''body'')"
proof -
  let ?m = "\<lparr>m_From = ''a@b.c'', m_To = ''d@e.f'', m_ReplyTo = [], m_Subject = ''hi'',
     m_Headers = [(''X'', ''1''), (''Date'', ''now'')], m_Body = ''body''\<rparr>"
  have c: "checkHeaders ?m = None"
    and l: "header_lines id ?m = [''From: a@b.c'', ''To: d@e.f'', ''Subject: hi'', ''Date: now'', ''X: 1'']"
    by code_simp+
  have b: "m_Body ?m = ''body''" by simp
  show ?thesis
    using message_headers_not_injectable [OF c, of id] c unfolding Let_def l b by simp
qed

end
