(* ===== verification/Elevations.thy ===== *)
theory Elevations
  imports Domains Mail
begin

text \<open>
  \<open>internal/elevations/elevations.go\<close>: the addresses raised to level B2 or B3.

  The state is the pair of tables the package reads and writes, \<open>domains\<close> and \<open>elevations\<close>, as an
  extensible record, so that the policy catalogue adds its own table. Operations take the set of
  failing statements; \<open>Create\<close> also takes what other writers do to the database between its probe
  and its INSERT, which are not in one transaction. The foreign key \<open>ON DELETE CASCADE\<close> of the
  schema is \<open>delete_domain_rows\<close>.
\<close>

section \<open>Rows\<close>

type_synonym level = string

abbreviation LevelB1 :: level where "LevelB1 \<equiv> ''B1''"
abbreviation LevelB2 :: level where "LevelB2 \<equiv> ''B2''"
abbreviation LevelB3 :: level where "LevelB3 \<equiv> ''B3''"

record elevation =
  e_ID :: int
  e_DomainID :: int
  e_Email :: string
  e_Level :: level
  e_Reason :: string
  e_CreatedByAdminID :: "int option"
  e_CreatedAt :: time
  e_LastUsedAt :: "time option"

record elev_db =
  db_domains :: domains
  db_elevations :: "elevation table"

definition e_row :: "elevation \<Rightarrow> int \<Rightarrow> elevation" where
  "e_row e i = e\<lparr>e_ID := i\<rparr>"

definition e_key :: "elevation \<Rightarrow> int \<times> string" where
  "e_key e = (e_DomainID e, e_Email e)"

interpretation et: sql_table e_ID e_key e_row e_key
  by unfold_locales (simp_all add: e_row_def e_key_def)

datatype elev_err = ErrNotFound | ErrAlreadyExists | ErrInvalidLevel | ErrInvalidEmail
  | ErrDomainMismatch | ErrDriver

datatype elev_stmt = SelectDomainName | CountEmail | InsertElevation

section \<open>Operations\<close>

definition domainCovers :: "string \<Rightarrow> string \<Rightarrow> bool" where
  "domainCovers name emailDomain =
     (if HasPrefix name ''*.'' then HasSuffix emailDomain (drop 1 name) else emailDomain = name)"

definition checkPlacement ::
  "elev_stmt faults \<Rightarrow> int \<Rightarrow> string \<Rightarrow> 'a elev_db_scheme \<Rightarrow> elev_err option" where
  "checkPlacement faults domainID email db =
     (if faults SelectDomainName then Some ErrDriver
      else case find (\<lambda>d. d_ID d = domainID) (t_rows (db_domains db)) of
        None \<Rightarrow> Some ErrDomainMismatch
      | Some d \<Rightarrow>
          if \<not> domainCovers (d_Name d) (email_domain email) then Some ErrDomainMismatch
          else if faults CountEmail then Some ErrDriver
          else if tbl_affected (\<lambda>e. e_Email e = email) (db_elevations db) > 0 then Some ErrAlreadyExists
          else None)"

text \<open>The INSERT: a dangling \<open>domain_id\<close> breaks the foreign key (a driver error), a repeated
  \<open>(domain_id, email)\<close> the UNIQUE constraint.\<close>

definition insert_elevation ::
  "bool \<Rightarrow> elevation \<Rightarrow> 'a elev_db_scheme \<Rightarrow> (elev_err + int) \<times> 'a elev_db_scheme" where
  "insert_elevation fault e db =
     (if fault \<or> e_DomainID e \<notin> d_ID ` set (t_rows (db_domains db)) then (Inl ErrDriver, db)
      else if e_key e \<in> e_key ` set (t_rows (db_elevations db)) then (Inl ErrAlreadyExists, db)
      else let (i, t') = tbl_insert (e_row e) (db_elevations db)
           in (Inr i, db\<lparr>db_elevations := t'\<rparr>))"

definition Create ::
  "unicode \<Rightarrow> (string \<Rightarrow> bool) \<Rightarrow> elev_stmt faults \<Rightarrow> ('a elev_db_scheme \<Rightarrow> 'a elev_db_scheme) \<Rightarrow> time
     \<Rightarrow> int \<Rightarrow> string \<Rightarrow> level \<Rightarrow> string \<Rightarrow> int option \<Rightarrow> 'a elev_db_scheme
     \<Rightarrow> (elev_err + elevation) \<times> 'a elev_db_scheme" where
  "Create U isIP faults others now domainID email level reason adminID db =
     (if level \<noteq> LevelB2 \<and> level \<noteq> LevelB3 then (Inl ErrInvalidLevel, db)
      else case NormalizeAddress U isIP email of
        Inl _ \<Rightarrow> (Inl ErrInvalidEmail, db)
      | Inr email \<Rightarrow>
          (case checkPlacement faults domainID email db of
             Some e \<Rightarrow> (Inl e, db)
           | None \<Rightarrow>
               let row = \<lparr>e_ID = 0, e_DomainID = domainID, e_Email = email, e_Level = level,
                          e_Reason = TrimSpace reason, e_CreatedByAdminID = adminID,
                          e_CreatedAt = now, e_LastUsedAt = None\<rparr>;
                   (r, db') = insert_elevation (faults InsertElevation) row (others db)
               in (case r of Inl e \<Rightarrow> (Inl e, db')
                   | Inr i \<Rightarrow> (Inr (row\<lparr>e_ID := i, e_Reason := reason\<rparr>), db'))))"

text \<open>\<open>Lookup\<close> returns the level with the error: \<open>LevelB1\<close> beside \<open>ErrNotFound\<close>.\<close>

definition Lookup ::
  "unicode \<Rightarrow> bool \<Rightarrow> int \<Rightarrow> string \<Rightarrow> 'a elev_db_scheme \<Rightarrow> level \<times> elev_err option" where
  "Lookup U fault domainID email db =
     (let email = ToLower U (TrimSpace email)
      in if fault then (LevelB1, Some ErrDriver)
         else case find (\<lambda>e. e_DomainID e = domainID \<and> e_Email e = email) (t_rows (db_elevations db)) of
                None \<Rightarrow> (LevelB1, Some ErrNotFound)
              | Some e \<Rightarrow> (e_Level e, None))"

text \<open>The base of a sub-address: the tag from the first \<open>+\<close> of the local part is dropped, when
  something stands before it.\<close>

definition base_address :: "string \<Rightarrow> string" where
  "base_address email =
     (let at = LastIndexByte CHR ''@'' email
      in if at > 0 then
           let plus = IndexByte CHR ''+'' (slice_to email at)
           in if plus > 0 then slice_to email plus @ slice_from email at else email
         else email)"

definition max_level :: "level list \<Rightarrow> level option" where
  "max_level ls = (if ls = [] then None else Some (fold max ls (hd ls)))"

definition LookupEmail :: "unicode \<Rightarrow> bool \<Rightarrow> string \<Rightarrow> 'a elev_db_scheme \<Rightarrow> level \<times> elev_err option" where
  "LookupEmail U fault email db =
     (let email = ToLower U (TrimSpace email);
          base = base_address email
      in if fault then (LevelB1, Some ErrDriver)
         else case max_level (map e_Level (filter (\<lambda>e. e_Email e = email \<or> e_Email e = base)
                     (t_rows (db_elevations db)))) of
                None \<Rightarrow> (LevelB1, Some ErrNotFound)
              | Some lvl \<Rightarrow> (lvl, None))"

definition Delete :: "bool \<Rightarrow> int \<Rightarrow> 'a elev_db_scheme \<Rightarrow> elev_err option \<times> 'a elev_db_scheme" where
  "Delete fault i db = (if fault then (Some ErrDriver, db)
     else (None, db\<lparr>db_elevations := tbl_delete (\<lambda>e. e_ID e = i) (db_elevations db)\<rparr>))"

definition Get :: "bool \<Rightarrow> int \<Rightarrow> 'a elev_db_scheme \<Rightarrow> elev_err + elevation" where
  "Get fault i db = (if fault then Inl ErrDriver
     else row_result ErrNotFound (find (\<lambda>e. e_ID e = i) (t_rows (db_elevations db))))"

definition TouchLastUsed :: "bool \<Rightarrow> time \<Rightarrow> int \<Rightarrow> 'a elev_db_scheme \<Rightarrow> elev_err option \<times> 'a elev_db_scheme" where
  "TouchLastUsed fault now i db = (if fault then (Some ErrDriver, db)
     else (None, db\<lparr>db_elevations := tbl_update (\<lambda>e. e_ID e = i) (\<lambda>e. e\<lparr>e_LastUsedAt := Some now\<rparr>) (db_elevations db)\<rparr>))"

text \<open>\<open>ListAll\<close> and \<open>List\<close> without their ORDER BY: the rows in insertion order.\<close>

definition rows_of_domain :: "int \<Rightarrow> 'a elev_db_scheme \<Rightarrow> elevation list" where
  "rows_of_domain domainID db = filter (\<lambda>e. e_DomainID e = domainID) (t_rows (db_elevations db))"

section \<open>CSV import\<close>

datatype import_reason = TooFewColumns | EmptyField | NotInAllowlist | BadLevel | CreateFailed elev_err

record import_error =
  ee_Line :: nat
  ee_Email :: string
  ee_Reason :: import_reason

record import_summary =
  es_Created :: nat
  es_Skipped :: nat
  es_Errors :: "import_error list"

definition add_error :: "nat \<Rightarrow> string \<Rightarrow> import_reason \<Rightarrow> import_summary \<Rightarrow> import_summary" where
  "add_error line email r out =
     out\<lparr>es_Errors := es_Errors out @ [\<lparr>ee_Line = line, ee_Email = email, ee_Reason = r\<rparr>]\<rparr>"

definition isHeaderColumn :: "unicode \<Rightarrow> string \<Rightarrow> bool" where
  "isHeaderColumn U domain \<longleftrightarrow> ToLower U domain \<in> {''domain'', ''domain name''}"

definition recordCreate :: "import_summary \<Rightarrow> nat \<Rightarrow> string \<Rightarrow> elev_err + 'b \<Rightarrow> import_summary" where
  "recordCreate out line email r =
     (case r of
        Inl ErrAlreadyExists \<Rightarrow> out\<lparr>es_Skipped := es_Skipped out + 1\<rparr>
      | Inl ErrInvalidLevel \<Rightarrow> add_error line email BadLevel out
      | Inl e \<Rightarrow> add_error line email (CreateFailed e) out
      | Inr _ \<Rightarrow> out\<lparr>es_Created := es_Created out + 1\<rparr>)"

text \<open>\<open>importRow\<close>; \<open>resolve\<close> is the caller's callback from a domain name to its row id.\<close>

definition importRow ::
  "unicode \<Rightarrow> (string \<Rightarrow> bool) \<Rightarrow> ('a elev_db_scheme \<Rightarrow> string \<Rightarrow> int option) \<Rightarrow> elev_stmt faults \<Rightarrow> time
     \<Rightarrow> int option \<Rightarrow> nat \<Rightarrow> string list \<Rightarrow> import_summary \<times> 'a elev_db_scheme
     \<Rightarrow> import_summary \<times> 'a elev_db_scheme" where
  "importRow U isIP resolve faults now adminID line row s =
     (let (out, db) = s in
      if row = [] then (out, db)
      else if length row < 3 then (add_error line [] TooFewColumns out, db)
      else
        let domain = TrimSpace (row ! 0); email = TrimSpace (row ! 1); level = ToUpper U (TrimSpace (row ! 2))
        in if line = 1 \<and> isHeaderColumn U domain then (out, db)
        else if domain = [] \<or> email = [] then (add_error line email EmptyField out, db)
        else
          let reason = (if length row \<ge> 4 then TrimSpace (row ! 3) else [])
          in case resolve db domain of
               None \<Rightarrow> (add_error line email NotInAllowlist out, db)
             | Some domainID \<Rightarrow>
                 (let (r, db') = Create U isIP faults id now domainID email level reason adminID db
                  in (recordCreate out line email r, db')))"

fun import_loop ::
  "unicode \<Rightarrow> (string \<Rightarrow> bool) \<Rightarrow> ('a elev_db_scheme \<Rightarrow> string \<Rightarrow> int option) \<Rightarrow> (nat \<Rightarrow> elev_stmt faults) \<Rightarrow> time
     \<Rightarrow> int option \<Rightarrow> nat \<Rightarrow> csv_read list \<Rightarrow> import_summary \<times> 'a elev_db_scheme
     \<Rightarrow> nat option \<times> import_summary \<times> 'a elev_db_scheme" where
  "import_loop U isIP resolve faults now adminID line [] s = (None, s)"
| "import_loop U isIP resolve faults now adminID line (ParseError # rs) s = (Some (line + 1), s)"
| "import_loop U isIP resolve faults now adminID line (Record row # rs) s =
     import_loop U isIP resolve faults now adminID (line + 1) rs
       (importRow U isIP resolve (faults (line + 1)) now adminID (line + 1) row s)"

definition Import ::
  "unicode \<Rightarrow> (string \<Rightarrow> bool) \<Rightarrow> ('a elev_db_scheme \<Rightarrow> string \<Rightarrow> int option) \<Rightarrow> (nat \<Rightarrow> elev_stmt faults) \<Rightarrow> time
     \<Rightarrow> int option \<Rightarrow> csv_read list \<Rightarrow> 'a elev_db_scheme \<Rightarrow> nat option \<times> import_summary \<times> 'a elev_db_scheme" where
  "Import U isIP resolve faults now adminID reads db =
     import_loop U isIP resolve faults now adminID 0 reads (\<lparr>es_Created = 0, es_Skipped = 0, es_Errors = []\<rparr>, db)"

text \<open>\<open>DELETE FROM domains\<close> with the schema's cascade.\<close>

definition delete_domain_rows :: "int \<Rightarrow> 'a elev_db_scheme \<Rightarrow> 'a elev_db_scheme" where
  "delete_domain_rows i db = db\<lparr>db_domains := tbl_delete (\<lambda>d. d_ID d = i) (db_domains db),
     db_elevations := tbl_delete (\<lambda>e. e_DomainID e = i) (db_elevations db)\<rparr>"

section \<open>The invariant\<close>

lemma domainCovers_covers: "domainCovers n d \<longleftrightarrow> covers n d"
  by (auto simp: domainCovers_def covers_def prefix_star suffix_def)

definition placed :: "domains \<Rightarrow> elevation \<Rightarrow> bool" where
  "placed ds e \<longleftrightarrow> (\<exists>d\<in>set (t_rows ds). d_ID d = e_DomainID e \<and> covers (d_Name d) (email_domain (e_Email e)))"

definition elev_ok :: "'a elev_db_scheme \<Rightarrow> bool" where
  "elev_ok db \<longleftrightarrow> names_ok (db_domains db) \<and> tbl_wf e_ID e_key (db_elevations db)
     \<and> distinct (map e_Email (t_rows (db_elevations db)))
     \<and> (\<forall>e\<in>set (t_rows (db_elevations db)). e_Level e \<in> {LevelB2, LevelB3} \<and> placed (db_domains db) e)"

lemma Create_alone_cases:
  assumes "Create U isIP faults id now domainID email level reason adminID db = (r, db')"
  obtains (kept) "db' = db" "\<not> isl r \<longrightarrow> False"
  | (added) addr row d where "NormalizeAddress U isIP email = Inr addr" "level \<in> {LevelB2, LevelB3}"
      "d \<in> set (t_rows (db_domains db))" "d_ID d = domainID" "covers (d_Name d) (email_domain addr)"
      "addr \<notin> e_Email ` set (t_rows (db_elevations db))"
      "row = \<lparr>e_ID = 0, e_DomainID = domainID, e_Email = addr, e_Level = level, e_Reason = TrimSpace reason,
              e_CreatedByAdminID = adminID, e_CreatedAt = now, e_LastUsedAt = None\<rparr>"
      "r = Inr (row\<lparr>e_ID := t_next (db_elevations db), e_Reason := reason\<rparr>)"
      "db' = db\<lparr>db_elevations := snd (tbl_insert (e_row row) (db_elevations db))\<rparr>"
proof (cases "isl r")
  case True
  then have "db' = db"
    using assms by (auto simp: Create_def insert_elevation_def Let_def tbl_insert_def
        split: if_splits sum.splits option.splits)
  with True kept show ?thesis by blast
next
  case False
  then obtain e where r: "r = Inr e" by (cases r) auto
  have l: "level \<in> {LevelB2, LevelB3}"
    using assms r by (auto simp: Create_def split: if_splits)
  obtain addr where a: "NormalizeAddress U isIP email = Inr addr"
    using assms r by (cases "NormalizeAddress U isIP email") (auto simp: Create_def split: if_splits)
  have c: "checkPlacement faults domainID addr db = None"
    using assms r a by (cases "checkPlacement faults domainID addr db") (auto simp: Create_def split: if_splits)
  then obtain d where d: "find (\<lambda>d. d_ID d = domainID) (t_rows (db_domains db)) = Some d"
      "covers (d_Name d) (email_domain addr)" "tbl_affected (\<lambda>e. e_Email e = addr) (db_elevations db) = 0"
    by (auto simp: checkPlacement_def domainCovers_covers split: if_splits option.splits)
  show ?thesis
  proof (rule added [OF a l _ _ d(2) _ refl])
    show "d \<in> set (t_rows (db_domains db))" "d_ID d = domainID" using find_Some_in [OF d(1)] by auto
    show "addr \<notin> e_Email ` set (t_rows (db_elevations db))"
      using d(3) by (auto simp: tbl_affected_def filter_empty_conv)
  qed (use assms r a l c in \<open>auto simp: Create_def insert_elevation_def Let_def tbl_insert_def
        split: if_splits\<close>)
qed

lemma elev_ok_Create:
  assumes "elev_ok db"
  shows "elev_ok (snd (Create U isIP faults id now domainID email level reason adminID db))"
proof -
  obtain r db' where c: "Create U isIP faults id now domainID email level reason adminID db = (r, db')"
    by (cases "Create U isIP faults id now domainID email level reason adminID db")
  show ?thesis
  proof (cases rule: Create_alone_cases [OF c])
    case 1
    then show ?thesis using assms c by simp
  next
    case (2 addr row d)
    have k: "e_key row \<notin> e_key ` set (t_rows (db_elevations db))"
      using 2 by (auto simp: e_key_def)
    have "tbl_wf e_ID e_key (db_elevations db')"
      using et.wf_insert [of "db_elevations db" row] assms k 2 by (simp add: elev_ok_def)
    then show ?thesis
      using 2 assms c by (auto simp: elev_ok_def tbl_insert_def e_row_def placed_def)
  qed
qed

lemma elev_ok_importRow:
  "elev_ok (snd s) \<Longrightarrow> elev_ok (snd (importRow U isIP resolve faults now adminID line row s))"
  by (cases s) (auto simp: importRow_def Let_def case_prod_beta elev_ok_Create split: option.splits)

lemma elev_ok_import_loop:
  "elev_ok (snd s) \<Longrightarrow> elev_ok (snd (snd (import_loop U isIP resolve faults now adminID line rs s)))"
proof (induction rs arbitrary: line s)
  case (Cons x rs)
  then show ?case by (cases x) (simp_all add: elev_ok_importRow)
qed simp

lemma elev_ok_shrink:
  assumes "elev_ok db" "\<And>e. e \<in> set (t_rows (db_elevations db)) \<Longrightarrow> \<not> P e \<Longrightarrow> placed ds e" "names_ok ds"
  shows "elev_ok (db\<lparr>db_domains := ds, db_elevations := tbl_delete P (db_elevations db)\<rparr>)"
proof -
  have "tbl_wf e_ID e_key (tbl_delete P (db_elevations db))"
    using assms(1) et.wf_delete by (simp add: elev_ok_def)
  then show ?thesis
    using assms by (auto simp: elev_ok_def tbl_delete_def intro: distinct_map_filter)
qed

text \<open>The commands of the admin surface that reach these two tables, one at a time.\<close>

datatype elev_cmd =
    EDomain dom_cmd
  | ECreate "elev_stmt faults" time int string level string "int option"
  | EDelete bool int
  | ETouch bool time int
  | EImport "nat \<Rightarrow> elev_stmt faults" time "int option" "csv_read list"

text \<open>The resolver the admin handler passes to \<open>Import\<close> is \<open>domains.Repo.GetByName\<close>.\<close>

definition resolver :: "unicode \<Rightarrow> 'a elev_db_scheme \<Rightarrow> string \<Rightarrow> int option" where
  "resolver U db name = (case GetByName U no_faults name (db_domains db) of Inl _ \<Rightarrow> None | Inr d \<Rightarrow> Some (d_ID d))"

fun elev_step :: "unicode \<Rightarrow> (string \<Rightarrow> bool) \<Rightarrow> elev_cmd \<Rightarrow> 'a elev_db_scheme \<Rightarrow> 'a elev_db_scheme" where
  "elev_step U isIP (EDomain (DDelete f i)) db = (if f then db else delete_domain_rows i db)"
| "elev_step U isIP (EDomain c) db = db\<lparr>db_domains := dom_step U c (db_domains db)\<rparr>"
| "elev_step U isIP (ECreate fs now i m l r adm) db = snd (Create U isIP fs id now i m l r adm db)"
| "elev_step U isIP (EDelete f i) db = snd (Delete f i db)"
| "elev_step U isIP (ETouch f now i) db = snd (TouchLastUsed f now i db)"
| "elev_step U isIP (EImport fs now adm rs) db = snd (snd (Import U isIP (resolver U) fs now adm rs db))"

lemma elev_ok_domains:
  assumes "elev_ok db" "names_ok ds"
    "\<And>d. d \<in> set (t_rows (db_domains db)) \<Longrightarrow> \<exists>d'\<in>set (t_rows ds). d_ID d' = d_ID d \<and> d_Name d' = d_Name d"
  shows "elev_ok (db\<lparr>db_domains := ds\<rparr>)"
  using assms by (fastforce simp: elev_ok_def placed_def)

lemma elev_ok_touch:
  assumes "elev_ok db"
  shows "elev_ok (snd (TouchLastUsed fault now i db))"
proof -
  have t: "tbl_wf e_ID e_key (tbl_update (\<lambda>e. e_ID e = i) (\<lambda>e. e\<lparr>e_LastUsedAt := Some now\<rparr>) (db_elevations db))"
    using assms et.wf_update [of "db_elevations db"] by (simp add: elev_ok_def e_key_def)
  have e: "map e_Email (t_rows (tbl_update (\<lambda>e. e_ID e = i) (\<lambda>e. e\<lparr>e_LastUsedAt := Some now\<rparr>) (db_elevations db)))
      = map e_Email (t_rows (db_elevations db))"
    by (simp add: tbl_update_def)
  show ?thesis
    using assms t e by (auto simp: elev_ok_def TouchLastUsed_def placed_def) (auto simp: tbl_update_def)
qed

lemma elev_ok_delete_domain: "elev_ok db \<Longrightarrow> elev_ok (delete_domain_rows i db)"
proof -
  assume db: "elev_ok db"
  have "names_ok (tbl_delete (\<lambda>d. d_ID d = i) (db_domains db))"
    using db names_ok_Delete [of "db_domains db" False i] by (simp add: elev_ok_def Domains.Delete_def)
  moreover have "placed (tbl_delete (\<lambda>d. d_ID d = i) (db_domains db)) e"
    if "e \<in> set (t_rows (db_elevations db))" "\<not> e_DomainID e = i" for e
    using that db by (fastforce simp: elev_ok_def placed_def tbl_delete_def)
  ultimately show ?thesis
    using db elev_ok_shrink [of db "\<lambda>e. e_DomainID e = i"] by (simp add: delete_domain_rows_def)
qed

lemma elev_ok_domain_step:
  assumes "lower_table_ok U" "elev_ok db" "\<And>f i. c \<noteq> DDelete f i"
  shows "elev_ok (db\<lparr>db_domains := dom_step U c (db_domains db)\<rparr>)"
  using assms dom_step_keeps [OF assms(3)] names_ok_step [OF assms(1)]
  by (intro elev_ok_domains) (auto simp: elev_ok_def)

lemma elev_ok_Delete: "elev_ok db \<Longrightarrow> elev_ok (snd (Delete fault i db))"
  using elev_ok_shrink [of db "\<lambda>e. e_ID e = i" "db_domains db"] by (auto simp: Delete_def elev_ok_def)

lemma elev_ok_step:
  assumes "lower_table_ok U" "elev_ok db"
  shows "elev_ok (elev_step U isIP c db)"
proof (cases c)
  case (EDomain dc)
  show ?thesis
  proof (cases "\<exists>f i. dc = DDelete f i")
    case True
    then show ?thesis using EDomain assms(2) elev_ok_delete_domain by auto
  next
    case False
    then have "elev_step U isIP c db = db\<lparr>db_domains := dom_step U dc (db_domains db)\<rparr>"
      using EDomain by (cases dc) auto
    then show ?thesis using elev_ok_domain_step [OF assms] False by auto
  qed
qed (use assms in \<open>simp_all add: elev_ok_Create elev_ok_touch elev_ok_import_loop Import_def elev_ok_Delete\<close>)

interpretation elev: machine "elev_step U isIP" "\<lambda>db. lower_table_ok U \<longrightarrow> elev_ok db" for U isIP
  by unfold_locales (auto intro: elev_ok_step)

section \<open>Levels of an address\<close>

lemma fold_max_upper: "x \<in> set ls \<or> x \<le> a \<Longrightarrow> x \<le> fold max ls (a::'a::linorder)"
proof (induction ls arbitrary: a)
  case (Cons l ls)
  have "x \<in> set ls \<or> x \<le> max l a" using Cons.prems by (auto simp: le_max_iff_disj)
  then show ?case using Cons.IH by simp
qed simp

lemma max_level_ge: "x \<in> set ls \<Longrightarrow> \<exists>m\<ge>x. max_level ls = Some m"
  by (auto simp: max_level_def fold_max_upper)

lemma max_level_in: "max_level ls = Some m \<Longrightarrow> m \<in> set ls"
proof -
  have "fold max xs a \<in> set xs \<union> {a}" for xs and a :: level
    by (induction xs arbitrary: a) (auto simp: max_def split: if_splits)
  then show "max_level ls = Some m \<Longrightarrow> m \<in> set ls"
    by (auto simp: max_level_def split: if_splits) (metis (no_types) UnE hd_in_set singletonD)
qed

lemma LookupEmail_folded:
  "folded email \<Longrightarrow> LookupEmail U False email db =
    (case max_level (map e_Level (filter (\<lambda>e. e_Email e = email \<or> e_Email e = base_address email)
        (t_rows (db_elevations db)))) of
       None \<Rightarrow> (LevelB1, Some ErrNotFound) | Some lvl \<Rightarrow> (lvl, None))"
  by (simp add: LookupEmail_def Let_def TrimSpace_folded)

lemma base_address_tag:
  assumes "l \<noteq> []" "CHR ''+'' \<notin> set l" "CHR ''@'' \<notin> set d"
  shows "base_address (l @ CHR ''+'' # t @ CHR ''@'' # d) = l @ CHR ''@'' # d"
proof -
  have at: "LastIndexByte CHR ''@'' (l @ CHR ''+'' # t @ CHR ''@'' # d) = int (length l + 1 + length t)"
    using LastIndexByte_split [OF assms(3), of "l @ CHR ''+'' # t"] by simp
  have s: "slice_to (l @ CHR ''+'' # t @ CHR ''@'' # d) (int (length l + 1 + length t)) = l @ CHR ''+'' # t"
    by (simp only: nat_int) simp
  have p: "IndexByte CHR ''+'' (l @ CHR ''+'' # t) = int (length l)"
    using assms(2) by (rule IndexByte_split)
  have f: "slice_from (l @ CHR ''+'' # t @ CHR ''@'' # d) (int (length l + 1 + length t)) = CHR ''@'' # d"
    by (simp only: nat_int) simp
  show ?thesis
    unfolding base_address_def Let_def at s p f using assms(1) by simp
qed

lemma base_address_plain:
  assumes "CHR ''+'' \<notin> set l" "CHR ''@'' \<notin> set d"
  shows "base_address (l @ CHR ''@'' # d) = l @ CHR ''@'' # d"
proof -
  have at: "LastIndexByte CHR ''@'' (l @ CHR ''@'' # d) = int (length l)"
    using assms(2) by (rule LastIndexByte_split)
  have "IndexByte CHR ''+'' l < 0" using assms(1) by (simp add: IndexByte_neg)
  then show ?thesis unfolding base_address_def Let_def at by simp
qed

section \<open>Properties\<close>

text \<open>
  The placement rule of elevations agrees with the allowlist: an address domain is covered
  by a row for \<open>checkPlacement\<close> exactly when the row's name is one of the names \<open>mostSpecific\<close> tries
  for that domain.
\<close>

theorem placement_agrees_with_allowlist: "domainCovers name d \<longleftrightarrow> name \<in> set (candidates d)"
  by (simp add: candidates_iff_covers domainCovers_covers)

definition empty_elev_db :: elev_db where
  "empty_elev_db = \<lparr>db_domains = empty_table, db_elevations = empty_table\<rparr>"

lemma elev_ok_empty: "elev_ok empty_elev_db"
  using names_ok_empty et.wf_empty by (simp add: elev_ok_def empty_elev_db_def) (simp add: empty_table_def)

text \<open>
  Whatever the administrators do (creations, imports, deletions of elevations and of domains,
  driver failures), every address has at most one elevation, its level is B2 or B3, and it lies
  under the domain row it is attached to, which exists: deleting a domain leaves no elevation
  behind.
\<close>

theorem elevations_unique_and_placed:
  assumes "lower_table_ok U"
  shows "let db = run (elev_step U isIP) cmds empty_elev_db
    in distinct (map e_Email (t_rows (db_elevations db)))
      \<and> (\<forall>e\<in>set (t_rows (db_elevations db)). e_Level e \<in> {LevelB2, LevelB3}
          \<and> (\<exists>d\<in>set (t_rows (db_domains db)). d_ID d = e_DomainID e
               \<and> d_Name d \<in> set (candidates (email_domain (e_Email e)))))"
  using elev.inv_run [of U empty_elev_db isIP cmds] assms elev_ok_empty
  by (simp add: elev_ok_def placed_def candidates_iff_covers Let_def)

definition sample_elev_cmds :: "elev_cmd list" where
  "sample_elev_cmds =
     [EDomain (DCreate False 0 ''*.corp.com'' [] True None), EDomain (DCreate False 0 ''corp.com'' [] True None),
      ECreate no_faults 1 2 ''ciso@corp.com'' ''B3'' [] None,
      EImport (\<lambda>_. no_faults) 2 None [Record [''*.corp.com'', ''ops@paris.corp.com'', ''b2''], Record [''corp.com'', ''x@other.org'', ''b2'']]]"

definition sample_elev_db :: elev_db where
  "sample_elev_db = run (elev_step ascii_tables loopback_only) sample_elev_cmds empty_elev_db"

theorem elevations_unique_and_placed_witness:
  "lower_table_ok ascii_tables
   \<and> map e_Email (t_rows (db_elevations sample_elev_db)) = [''ciso@corp.com'', ''ops@paris.corp.com'']
   \<and> e_Level ` set (t_rows (db_elevations sample_elev_db)) \<subseteq> {LevelB2, LevelB3}"
proof -
  have "map e_Email (t_rows (db_elevations sample_elev_db)) = [''ciso@corp.com'', ''ops@paris.corp.com'']"
    by code_simp
  then show ?thesis
    using elevations_unique_and_placed [OF ascii_tables_lower, of loopback_only sample_elev_cmds] ascii_tables_lower
    unfolding Let_def sample_elev_db_def [symmetric] by blast
qed

text \<open>
  A different spelling cannot select a weaker level: whatever level an address has, each of
  its sub-addresses (\<open>local+tag@domain\<close>) has at least that level.
\<close>

theorem subaddress_level_not_weaker:
  assumes "folded (l @ CHR ''+'' # t @ CHR ''@'' # d)" "l \<noteq> []" "CHR ''+'' \<notin> set l" "CHR ''@'' \<notin> set d"
    and "LookupEmail U False (l @ CHR ''@'' # d) db = (lvl, None)"
  shows "\<exists>lvl'\<ge>lvl. LookupEmail U False (l @ CHR ''+'' # t @ CHR ''@'' # d) db = (lvl', None)"
proof -
  let ?b = "l @ CHR ''@'' # d" and ?e = "l @ CHR ''+'' # t @ CHR ''@'' # d"
  have fb: "folded ?b" using assms(1,2) by (cases l) (auto simp: folded_def no_upper_def)
  have "lvl \<in> set (map e_Level (filter (\<lambda>e. e_Email e = ?b) (t_rows (db_elevations db))))"
    using assms(5) unfolding LookupEmail_folded [OF fb] base_address_plain [OF assms(3,4)]
    by (auto split: option.splits dest!: max_level_in)
  then have "lvl \<in> set (map e_Level (filter (\<lambda>e. e_Email e = ?e \<or> e_Email e = ?b) (t_rows (db_elevations db))))"
    by auto
  then show ?thesis
    unfolding LookupEmail_folded [OF assms(1)] base_address_tag [OF assms(2-4)]
    using max_level_ge by fastforce
qed

theorem subaddress_level_not_weaker_witness:
  "\<exists>lvl'\<ge>''B3''. LookupEmail ascii_tables False ''ciso+news@corp.com'' sample_elev_db = (lvl', None)"
proof -
  have f: "folded (''ciso'' @ CHR ''+'' # ''news'' @ CHR ''@'' # ''corp.com'')"
    and b: "LookupEmail ascii_tables False (''ciso'' @ CHR ''@'' # ''corp.com'') sample_elev_db = (''B3'', None)"
    by code_simp+
  show ?thesis using subaddress_level_not_weaker [OF f _ _ _ b] by simp
qed

text \<open>
  A successful \<open>Create\<close> takes effect: the address it returns is looked up at exactly the
  requested level under the requested domain row (unless that query fails), and at no weaker level
  by address alone.
\<close>

theorem created_elevation_is_effective:
  assumes "elev_ok db" "ip_text isIP" "ascii email"
    "Create U isIP faults id now domainID email level reason adminID db = (Inr e, db')"
  shows "Lookup U fault' domainID (e_Email e) db' = (if fault' then (LevelB1, Some ErrDriver) else (level, None))
    \<and> (\<exists>lvl\<ge>level. LookupEmail U False (e_Email e) db' = (lvl, None))"
proof (cases rule: Create_alone_cases [OF assms(4)])
  case (2 addr row d)
  have n: "addr = ToLower U (TrimSpace email)" "TrimSpace email \<noteq> []"
    using 2(1) by (auto simp: NormalizeAddress_def Let_def split: if_splits)
  have f: "folded addr" using folded_ToLower [OF assms(3) n(2)] n(1) by simp
  have em: "e_Email e = addr" using 2 by simp
  have "find (\<lambda>e. e_DomainID e = domainID \<and> e_Email e = addr) (t_rows (db_elevations db')) =
      Some (e_row row (t_next (db_elevations db)))"
    using 2 by (auto simp: tbl_insert_def find_append find_None_all e_row_def split: option.splits dest!: find_Some_in)
  moreover have "e_Level (e_row row i) = level" for i using 2 by (simp add: e_row_def)
  moreover have "level \<in> set (map e_Level (filter (\<lambda>e. e_Email e = addr \<or> e_Email e = base_address addr)
      (t_rows (db_elevations db'))))"
    using 2 by (simp add: tbl_insert_def e_row_def)
  ultimately show ?thesis
    unfolding em LookupEmail_folded [OF f] using max_level_ge [of level] f
    by (fastforce simp: Lookup_def Let_def TrimSpace_folded)
qed simp

theorem created_elevation_is_effective_witness:
  "let (r, db') = Create ascii_tables loopback_only no_faults id 9 2 ''Bob@corp.com'' ''B2'' [] None sample_elev_db
   in isl r = False \<and> Lookup ascii_tables False 2 (e_Email (projr r)) db' = (''B2'', None)"
proof -
  obtain r db' where c: "Create ascii_tables loopback_only no_faults id 9 2 ''Bob@corp.com'' ''B2'' [] None sample_elev_db = (r, db')"
    by (rule prod.exhaust)
  have "\<not> isl (fst (Create ascii_tables loopback_only no_faults id 9 2 ''Bob@corp.com'' ''B2'' [] None sample_elev_db))"
    by code_simp
  then obtain e where r: "r = Inr e" unfolding c by (cases r) auto
  have ok: "elev_ok sample_elev_db"
    using elev.inv_run [of ascii_tables empty_elev_db] ascii_tables_lower elev_ok_empty
    unfolding sample_elev_db_def by blast
  have "ascii ''Bob@corp.com''" by code_simp
  then show ?thesis
    using created_elevation_is_effective [OF ok ip_text_loopback _ c [unfolded r], of False] unfolding c r by simp
qed

end
