(* ===== verification/Policies.thy ===== *)
theory Policies
  imports Elevations
begin

text \<open>
  \<open>internal/policies/policies.go\<close>: the policy of an address.

  The catalogue is the database of \<open>Elevations\<close> with the table \<open>policies\<close> added. \<open>resolve\<close> composes
  the three packages the way the source does: the governing domain row, then the elevation level
  of the address, then the active policy of that (domain, level) pair. \<open>Resolve\<close> passes
  \<open>FindMatching\<close>, \<open>ResolveIssued\<close> passes \<open>FindMatchingIssued\<close>.
\<close>

section \<open>Rows\<close>

record policy =
  p_ID :: int
  p_DomainID :: int
  p_DomainName :: string
  p_ANSSILevel :: level
  p_Name :: string
  p_Generator :: string
  p_Params :: string
  p_ProposalCount :: int
  p_RegenerateLimit :: int
  p_SessionTTLSeconds :: int
  p_NotifyOnConsult :: bool
  p_Active :: bool
  p_CreatedByAdminID :: "int option"
  p_CreatedAt :: time
  p_UpdatedAt :: time

record catalog = elev_db +
  db_policies :: "policy table"

definition p_key :: "policy \<Rightarrow> int \<times> level" where
  "p_key p = (p_DomainID p, p_ANSSILevel p)"

definition p_row :: "policy \<Rightarrow> int \<Rightarrow> policy" where
  "p_row p i = p\<lparr>p_ID := i\<rparr>"

interpretation pt: sql_table p_ID p_key p_row p_key
  by unfold_locales (simp_all add: p_row_def p_key_def)

datatype pol_err = ErrNotFound | ErrAlreadyExists | ErrInvalidShape | ErrNoPolicy | ErrBelowFloor | ErrDriver

section \<open>Reading and switching\<close>

text \<open>The row as \<open>selectQ\<close> returns it, with the joined domain name (empty when there is none).\<close>

definition joined_row :: "'a catalog_scheme \<Rightarrow> policy \<Rightarrow> policy" where
  "joined_row db p = p\<lparr>p_DomainName :=
     (case find (\<lambda>d. d_ID d = p_DomainID p) (t_rows (db_domains db)) of Some d \<Rightarrow> d_Name d | None \<Rightarrow> [])\<rparr>"

definition Get :: "bool \<Rightarrow> int \<Rightarrow> 'a catalog_scheme \<Rightarrow> pol_err + policy" where
  "Get fault i db = (if fault then Inl ErrDriver
     else row_result ErrNotFound (map_option (joined_row db) (find (\<lambda>p. p_ID p = i) (t_rows (db_policies db)))))"

definition FindByDomainLevel :: "bool \<Rightarrow> int \<Rightarrow> level \<Rightarrow> 'a catalog_scheme \<Rightarrow> pol_err + policy" where
  "FindByDomainLevel fault domainID level db = (if fault then Inl ErrDriver
     else row_result ErrNotFound (map_option (joined_row db)
       (find (\<lambda>p. p_DomainID p = domainID \<and> p_ANSSILevel p = level) (t_rows (db_policies db)))))"

definition SetActive :: "bool \<Rightarrow> time \<Rightarrow> int \<Rightarrow> bool \<Rightarrow> 'a catalog_scheme \<Rightarrow> pol_err option \<times> 'a catalog_scheme" where
  "SetActive fault now i active db = (if fault then (Some ErrDriver, db)
     else (None, db\<lparr>db_policies := tbl_update (\<lambda>p. p_ID p = i)
             (\<lambda>p. p\<lparr>p_Active := active, p_UpdatedAt := now\<rparr>) (db_policies db)\<rparr>))"

definition Delete :: "bool \<Rightarrow> int \<Rightarrow> 'a catalog_scheme \<Rightarrow> pol_err option \<times> 'a catalog_scheme" where
  "Delete fault i db = (if fault then (Some ErrDriver, db)
     else (None, db\<lparr>db_policies := tbl_delete (\<lambda>p. p_ID p = i) (db_policies db)\<rparr>))"

definition Count :: "bool \<Rightarrow> 'a catalog_scheme \<Rightarrow> pol_err + nat" where
  "Count fault db = (if fault then Inl ErrDriver else Inr (length (t_rows (db_policies db))))"

text \<open>Deleting a domain cascades to its elevations and to its policies.\<close>

definition delete_domain_cascade :: "int \<Rightarrow> 'a catalog_scheme \<Rightarrow> 'a catalog_scheme" where
  "delete_domain_cascade i db =
     (delete_domain_rows i db)\<lparr>db_policies := tbl_delete (\<lambda>p. p_DomainID p = i) (db_policies db)\<rparr>"

section \<open>Resolution\<close>

text \<open>Which statements of one resolution the driver fails: the lookups of domain names, the
  elevation query, the policy query.\<close>

record res_faults =
  rf_domains :: "string faults"
  rf_level :: bool
  rf_policy :: bool

definition no_res_faults :: res_faults where
  "no_res_faults = \<lparr>rf_domains = no_faults, rf_level = False, rf_policy = False\<rparr>"

text \<open>\<open>has_elev\<close> is \<open>r.elevations != nil\<close>.\<close>

definition resolve ::
  "unicode \<Rightarrow> bool \<Rightarrow> res_faults \<Rightarrow> (string faults \<Rightarrow> string \<Rightarrow> domains \<Rightarrow> dom_err + domain)
     \<Rightarrow> string \<Rightarrow> 'a catalog_scheme \<Rightarrow> pol_err + policy" where
  "resolve U has_elev fl findDomain email db =
     (let emailLower = ToLower U (TrimSpace email);
          at = LastIndexByte CHR ''@'' emailLower
      in if at \<le> 0 \<or> at + 1 \<ge> int (length emailLower) then Inl ErrNoPolicy
      else case findDomain (rf_domains fl) (slice_from emailLower (at + 1)) (db_domains db) of
        Inl e \<Rightarrow> Inl (if e = dom_err.ErrNotFound then ErrNoPolicy else ErrDriver)
      | Inr row \<Rightarrow>
          (let level = (if has_elev then
                 (case LookupEmail U (rf_level fl) emailLower db of
                    (lvl, None) \<Rightarrow> Inr lvl
                  | (_, Some e) \<Rightarrow> if e = elev_err.ErrNotFound then Inr LevelB1 else Inl ErrDriver)
                 else Inr LevelB1)
           in case level of
                Inl e \<Rightarrow> Inl e
              | Inr level \<Rightarrow>
                  (case FindByDomainLevel (rf_policy fl) (d_ID row) level db of
                     Inl e \<Rightarrow> Inl (if e = ErrNotFound then ErrNoPolicy else e)
                   | Inr p \<Rightarrow> if \<not> p_Active p then Inl ErrNoPolicy else Inr p)))"

text \<open>\<open>has_dom\<close> is \<open>r.domains != nil\<close>.\<close>

definition Resolve :: "unicode \<Rightarrow> bool \<Rightarrow> bool \<Rightarrow> res_faults \<Rightarrow> string \<Rightarrow> 'a catalog_scheme \<Rightarrow> pol_err + policy" where
  "Resolve U has_dom has_elev fl email db =
     (if \<not> has_dom then Inl ErrNoPolicy else resolve U has_elev fl (FindMatching U) email db)"

definition ResolveIssued :: "unicode \<Rightarrow> bool \<Rightarrow> bool \<Rightarrow> res_faults \<Rightarrow> string \<Rightarrow> 'a catalog_scheme \<Rightarrow> pol_err + policy" where
  "ResolveIssued U has_dom has_elev fl email db =
     (if \<not> has_dom then Inl ErrNoPolicy else resolve U has_elev fl (FindMatchingIssued U) email db)"

section \<open>What resolution returns\<close>

text \<open>The level that governs an address: its elevation, or B1.\<close>

definition level_of :: "unicode \<Rightarrow> string \<Rightarrow> 'a elev_db_scheme \<Rightarrow> level" where
  "level_of U email db = fst (LookupEmail U False email db)"

lemma LookupEmail_fault: "LookupEmail U True email db = (LevelB1, Some elev_err.ErrDriver)"
  by (simp add: LookupEmail_def Let_def)

lemma LookupEmail_nofault:
  "LookupEmail U False email db = (level_of U email db, None)
    \<or> LookupEmail U False email db = (LevelB1, Some elev_err.ErrNotFound) \<and> level_of U email db = LevelB1"
  by (auto simp: LookupEmail_def level_of_def Let_def split: option.splits)

text \<open>Everything after the domain row: the policy, or the error, that a domain row yields.\<close>

definition policy_for :: "unicode \<Rightarrow> bool \<Rightarrow> string \<Rightarrow> 'a catalog_scheme \<Rightarrow> domain \<Rightarrow> pol_err + policy" where
  "policy_for U has_elev email db row =
     (case find (\<lambda>p. p_DomainID p = d_ID row
            \<and> p_ANSSILevel p = (if has_elev then level_of U email db else LevelB1)) (t_rows (db_policies db)) of
        Some p \<Rightarrow> if p_Active p then Inr (joined_row db p) else Inl ErrNoPolicy
      | None \<Rightarrow> Inl ErrNoPolicy)"

lemma p_Active_joined [simp]: "p_Active (joined_row db p) = p_Active p"
  by (simp add: joined_row_def)

lemma resolve_spec:
  "resolve U has_elev fl findDomain email db =
     (let emailLower = ToLower U (TrimSpace email);
          at = LastIndexByte CHR ''@'' emailLower
      in if at \<le> 0 \<or> at + 1 \<ge> int (length emailLower) then Inl ErrNoPolicy
      else case findDomain (rf_domains fl) (slice_from emailLower (at + 1)) (db_domains db) of
        Inl e \<Rightarrow> Inl (if e = dom_err.ErrNotFound then ErrNoPolicy else ErrDriver)
      | Inr row \<Rightarrow> if (has_elev \<and> rf_level fl) \<or> rf_policy fl then Inl ErrDriver
                   else policy_for U has_elev emailLower db row)"
proof -
  define emailLower where "emailLower = ToLower U (TrimSpace email)"
  have lv: "(if has_elev then
                 (case LookupEmail U (rf_level fl) emailLower db of
                    (lvl, None) \<Rightarrow> Inr lvl
                  | (_, Some e) \<Rightarrow> if e = elev_err.ErrNotFound then Inr LevelB1 else Inl ErrDriver)
                 else Inr LevelB1)
    = (if has_elev \<and> rf_level fl then Inl ErrDriver
       else Inr (if has_elev then level_of U emailLower db else LevelB1))"
    using LookupEmail_fault [of U emailLower db] LookupEmail_nofault [of U emailLower db]
    by (cases "rf_level fl") auto
  show ?thesis
    unfolding resolve_def Let_def emailLower_def [symmetric] lv
    by (auto simp: FindByDomainLevel_def policy_for_def row_result_def split: sum.splits option.splits)
qed

lemma first_row_faults:
  "first_row U faults cs t = Inl dom_err.ErrDriver \<or> first_row U faults cs t = first_row U no_faults cs t"
proof (induction cs)
  case (Cons c cs)
  have "GetByName U faults c t = Inl dom_err.ErrDriver \<or> GetByName U faults c t = GetByName U no_faults c t"
    by (auto simp: GetByName_def Let_def)
  then show ?case using Cons by (auto split: sum.splits dom_err.splits)
qed simp

lemma mostSpecific_faults:
  "mostSpecific U faults d t = Inl dom_err.ErrDriver \<or> mostSpecific U faults d t = mostSpecific U no_faults d t"
  using first_row_faults [of U faults] by (auto simp: mostSpecific_def Let_def)

lemma FindMatching_faults:
  "FindMatching U faults d t = Inl dom_err.ErrDriver \<or> FindMatching U faults d t = FindMatching U no_faults d t"
  using mostSpecific_faults [of U faults d t] by (auto simp: FindMatching_def)

lemma resolve_faults_raise:
  assumes "\<And>d. findDomain (rf_domains fl) d (db_domains db) = Inl dom_err.ErrDriver
    \<or> findDomain (rf_domains fl) d (db_domains db) = findDomain no_faults d (db_domains db)"
  shows "resolve U has_elev fl findDomain email db = Inl ErrDriver
    \<or> resolve U has_elev fl findDomain email db = resolve U has_elev no_res_faults findDomain email db"
proof -
  define dm where "dm = slice_from (ToLower U (TrimSpace email)) (LastIndexByte CHR ''@'' (ToLower U (TrimSpace email)) + 1)"
  show ?thesis
    using assms [of dm] unfolding resolve_spec Let_def dm_def [symmetric]
    by (auto simp: no_res_faults_def split: sum.splits)
qed

text \<open>Rows whose id and name an update keeps are found as before.\<close>

lemma lookup_name_update:
  assumes "\<And>d. d_Name (f d) = d_Name d"
  shows "find (\<lambda>d. d_Name d = n) (t_rows (tbl_update P f t)) =
    map_option (\<lambda>d. if P d then f d else d) (find (\<lambda>d. d_Name d = n) (t_rows t))"
  unfolding tbl_update_def by (simp add: find_map_cong assms)

lemma first_row_update:
  assumes "\<And>d. d_Name (f d) = d_Name d"
  shows "first_row U faults cs (tbl_update P f t) = map_sum id (\<lambda>d. if P d then f d else d) (first_row U faults cs t)"
proof (induction cs)
  case (Cons c cs)
  have "GetByName U faults c (tbl_update P f t) =
      map_sum id (\<lambda>d. if P d then f d else d) (GetByName U faults c t)"
    by (auto simp: GetByName_def Let_def row_result_def lookup_name_update [OF assms] split: option.splits)
  then show ?case using Cons by (auto split: sum.splits dom_err.splits)
qed simp

lemma joined_row_update:
  assumes "\<And>d. d_Name (f d) = d_Name d" "\<And>d. d_ID (f d) = d_ID d"
  shows "joined_row (db\<lparr>db_domains := tbl_update P f (db_domains db)\<rparr>) = joined_row db"
proof
  fix p :: policy
  have "find (\<lambda>d. d_ID d = p_DomainID p) (t_rows (tbl_update P f (db_domains db))) =
      map_option (\<lambda>d. if P d then f d else d) (find (\<lambda>d. d_ID d = p_DomainID p) (t_rows (db_domains db)))"
    unfolding tbl_update_def by (simp add: find_map_cong assms)
  then show "joined_row (db\<lparr>db_domains := tbl_update P f (db_domains db)\<rparr>) p = joined_row db p"
    using assms by (auto simp: joined_row_def split: option.splits)
qed

lemma policy_for_switch:
  assumes "d_ID d' = d_ID d"
  shows "policy_for U he e (db\<lparr>db_domains := tbl_update (\<lambda>d. d_ID d = i)
      (\<lambda>d. d\<lparr>d_Active := a, d_UpdatedAt := now\<rparr>) (db_domains db)\<rparr>) d' = policy_for U he e db d"
proof -
  let ?db = "db\<lparr>db_domains := tbl_update (\<lambda>d. d_ID d = i) (\<lambda>d. d\<lparr>d_Active := a, d_UpdatedAt := now\<rparr>) (db_domains db)\<rparr>"
  have j: "joined_row ?db = joined_row db" by (rule joined_row_update) simp_all
  have l: "level_of U e ?db = level_of U e db" by (simp add: level_of_def LookupEmail_def Let_def)
  show ?thesis unfolding policy_for_def l j assms by simp
qed

lemma resolve_issued_switch:
  "resolve U has_elev fl (FindMatchingIssued U) email
      (db\<lparr>db_domains := snd (Domains.SetActive fault now i a (db_domains db))\<rparr>)
    = resolve U has_elev fl (FindMatchingIssued U) email db"
proof (cases fault)
  case False
  let ?f = "\<lambda>d. d\<lparr>d_Active := a, d_UpdatedAt := now\<rparr>" and ?P = "\<lambda>d. d_ID d = i"
  let ?t = "tbl_update ?P ?f (db_domains db)"
  let ?db = "db\<lparr>db_domains := ?t\<rparr>"
  have s: "db\<lparr>db_domains := snd (Domains.SetActive fault now i a (db_domains db))\<rparr> = ?db"
    using False by (simp add: Domains.SetActive_def)
  have m: "FindMatchingIssued U fs d ?t = map_sum id (\<lambda>d. if ?P d then ?f d else d) (FindMatchingIssued U fs d (db_domains db))" for fs d
    by (simp add: FindMatchingIssued_def mostSpecific_def Let_def first_row_update)
  show ?thesis
    unfolding s resolve_spec Let_def by (auto simp: m split: sum.splits intro!: policy_for_switch)
qed (simp add: Domains.SetActive_def)

section \<open>Properties\<close>

definition catalog_ok :: "'a catalog_scheme \<Rightarrow> bool" where
  "catalog_ok db \<longleftrightarrow> elev_ok db \<and> tbl_wf p_ID p_key (db_policies db)"

lemma find_policy_key:
  assumes "tbl_wf p_ID p_key t"
  shows "find (\<lambda>p. p_DomainID p = i \<and> p_ANSSILevel p = l) (t_rows t) = Some q
    \<longleftrightarrow> q \<in> set (t_rows t) \<and> p_DomainID q = i \<and> p_ANSSILevel q = l"
  using pt.find_key_unique [OF assms, of q "(i, l)"] find_Some_in [of _ "t_rows t" q]
  by (auto simp: p_key_def)

text \<open>
  C16. The policy of an address is the one its lists say: with no driver fault, \<open>Resolve\<close> returns
  \<open>p\<close> exactly when the allowlist row that governs the address's domain exists and is active and
  \<open>p\<close> is the (joined) row of that domain at the elevation level of the address (B1 when it has
  none), and active.
\<close>

theorem resolve_picks_policy_of_governing_domain:
  assumes "catalog_ok db" "folded (l @ CHR ''@'' # d)" "folded d" "l \<noteq> []" "CHR ''@'' \<notin> set d"
  shows "Resolve U True True no_res_faults (l @ CHR ''@'' # d) db = Inr p \<longleftrightarrow>
    (\<exists>row q. governs (db_domains db) d row \<and> d_Active row
       \<and> q \<in> set (t_rows (db_policies db)) \<and> p_DomainID q = d_ID row
       \<and> p_ANSSILevel q = level_of U (l @ CHR ''@'' # d) db \<and> p_Active q \<and> p = joined_row db q)"
proof -
  let ?e = "l @ CHR ''@'' # d"
  have names: "names_ok (db_domains db)" and pw: "tbl_wf p_ID p_key (db_policies db)"
    using assms(1) by (auto simp: catalog_ok_def elev_ok_def)
  have e: "ToLower U (TrimSpace ?e) = ?e" "ToLower U (TrimSpace d) = d"
    using TrimSpace_folded assms(2,3) by auto
  have at: "LastIndexByte CHR ''@'' ?e = int (length l)" by (rule LastIndexByte_split) (rule assms)
  have n: "slice_from ?e (int (length l) + 1) = d" by (simp add: nat_add_distrib)
  have ne: "d \<noteq> []" using assms(3) by (simp add: folded_def)
  have g: "mostSpecific U no_faults d (db_domains db) = Inr row \<longleftrightarrow> governs (db_domains db) d row" for row
    using ne by (auto simp: mostSpecific_def Let_def e(2) intro: first_row_governs [OF names assms(3)]
        first_row_complete [OF names assms(3)])
  have f: "FindMatching U no_faults d (db_domains db) = Inr row \<longleftrightarrow> governs (db_domains db) d row \<and> d_Active row" for row
    using g [of row] by (auto simp: FindMatching_def split: sum.splits if_splits)
  have r: "Resolve U True True no_res_faults ?e db =
    (case FindMatching U no_faults d (db_domains db) of
       Inl e \<Rightarrow> Inl (if e = dom_err.ErrNotFound then ErrNoPolicy else ErrDriver)
     | Inr row \<Rightarrow> policy_for U True ?e db row)"
    using assms(4) ne unfolding Resolve_def resolve_spec Let_def e(1) at n
    by (simp add: no_res_faults_def split: sum.splits)
  have "policy_for U True ?e db row = Inr p \<longleftrightarrow>
    (\<exists>q. q \<in> set (t_rows (db_policies db)) \<and> p_DomainID q = d_ID row \<and> p_ANSSILevel q = level_of U ?e db
      \<and> p_Active q \<and> p = joined_row db q)" for row
  proof -
    let ?F = "find (\<lambda>p. p_DomainID p = d_ID row \<and> p_ANSSILevel p = level_of U ?e db) (t_rows (db_policies db))"
    have "policy_for U True ?e db row = Inr p \<longleftrightarrow> (\<exists>q. ?F = Some q \<and> p_Active q \<and> p = joined_row db q)"
      by (auto simp: policy_for_def split: option.splits)
    then show ?thesis unfolding find_policy_key [OF pw] by blast
  qed
  then have "Resolve U True True no_res_faults ?e db = Inr p \<longleftrightarrow>
    (\<exists>row. FindMatching U no_faults d (db_domains db) = Inr row \<and> (\<exists>q. q \<in> set (t_rows (db_policies db))
      \<and> p_DomainID q = d_ID row \<and> p_ANSSILevel q = level_of U ?e db \<and> p_Active q \<and> p = joined_row db q))"
    unfolding r by (auto split: sum.splits)
  then show ?thesis unfolding f by blast
qed

definition sample_policy :: "int \<Rightarrow> int \<Rightarrow> level \<Rightarrow> bool \<Rightarrow> policy" where
  "sample_policy i dom_id lvl act = \<lparr>p_ID = i, p_DomainID = dom_id, p_DomainName = [], p_ANSSILevel = lvl,
     p_Name = ''policy'', p_Generator = ''G3'', p_Params = ''{}'', p_ProposalCount = 5, p_RegenerateLimit = 3,
     p_SessionTTLSeconds = 900, p_NotifyOnConsult = False, p_Active = act, p_CreatedByAdminID = None,
     p_CreatedAt = 0, p_UpdatedAt = 0\<rparr>"

definition sample_catalog :: catalog where
  "sample_catalog = elev_db.extend sample_elev_db
     \<lparr>db_policies = \<lparr>t_rows = [sample_policy 1 2 ''B1'' True, sample_policy 2 2 ''B3'' True], t_next = 3\<rparr>\<rparr>"

lemma sample_catalog_ok: "catalog_ok sample_catalog"
proof -
  have "elev_ok sample_elev_db"
    using elev.inv_run [of ascii_tables empty_elev_db] ascii_tables_lower elev_ok_empty
    unfolding sample_elev_db_def by blast
  then have "elev_ok sample_catalog"
    by (simp add: elev_ok_def sample_catalog_def elev_db.defs)
  moreover have "tbl_wf p_ID p_key (db_policies sample_catalog)" by code_simp
  ultimately show ?thesis by (simp add: catalog_ok_def)
qed

theorem resolve_picks_policy_of_governing_domain_witness:
  "\<exists>row q. governs (db_domains sample_catalog) ''corp.com'' row \<and> d_Active row
     \<and> q \<in> set (t_rows (db_policies sample_catalog)) \<and> p_DomainID q = d_ID row
     \<and> p_ANSSILevel q = level_of ascii_tables ''ciso@corp.com'' sample_catalog \<and> p_Active q \<and> p_ID q = 2"
proof -
  have f: "folded (''ciso'' @ CHR ''@'' # ''corp.com'')" "folded ''corp.com''"
      "CHR ''@'' \<notin> set ''corp.com''" "''ciso'' \<noteq> []"
    by code_simp+
  have r: "Resolve ascii_tables True True no_res_faults (''ciso'' @ CHR ''@'' # ''corp.com'') sample_catalog
      = Inr (joined_row sample_catalog (sample_policy 2 2 ''B3'' True))"
    by code_simp
  obtain row q where q: "governs (db_domains sample_catalog) ''corp.com'' row" "d_Active row"
      "q \<in> set (t_rows (db_policies sample_catalog))" "p_DomainID q = d_ID row"
      "p_ANSSILevel q = level_of ascii_tables (''ciso'' @ CHR ''@'' # ''corp.com'') sample_catalog" "p_Active q"
      "joined_row sample_catalog (sample_policy 2 2 ''B3'' True) = joined_row sample_catalog q"
    using resolve_picks_policy_of_governing_domain [OF sample_catalog_ok f(1,2,4,3), THEN iffD1, OF r] by blast
  have "p_ID q = 2" using arg_cong [OF q(7), of p_ID] by (simp add: joined_row_def sample_policy_def)
  then show ?thesis using q(1-6) by auto
qed

text \<open>
  A database failure during resolution is reported, never answered: whichever lookups fail,
  \<open>Resolve\<close> either returns the driver error or exactly what it returns with no failure. In
  particular it never falls back to a weaker level, to a broader domain row or to "no policy".
\<close>

theorem resolve_failure_never_downgrades:
  "Resolve U has_dom has_elev fl email db \<in>
    {Inl ErrDriver, Resolve U has_dom has_elev no_res_faults email db}"
  using resolve_faults_raise [of "FindMatching U" fl db U has_elev email] FindMatching_faults
  by (auto simp: Resolve_def)

text \<open>
  Links already issued outlive the switch of their domain: enabling or disabling any domain
  row changes no answer of \<open>ResolveIssued\<close>, which still returns active policies only, and every
  policy \<open>Resolve\<close> grants is granted by \<open>ResolveIssued\<close> as well.
\<close>

theorem issued_links_survive_domain_switch:
  shows "ResolveIssued U has_dom has_elev fl email
      (db\<lparr>db_domains := snd (Domains.SetActive fault now i a (db_domains db))\<rparr>)
      = ResolveIssued U has_dom has_elev fl email db
    \<and> (\<forall>p. ResolveIssued U has_dom has_elev fl email db = Inr p \<longrightarrow> p_Active p)
    \<and> (\<forall>p. Resolve U has_dom has_elev fl email db = Inr p
        \<longrightarrow> ResolveIssued U has_dom has_elev fl email db = Inr p)"
proof (intro conjI allI impI)
  show "ResolveIssued U has_dom has_elev fl email
      (db\<lparr>db_domains := snd (Domains.SetActive fault now i a (db_domains db))\<rparr>)
      = ResolveIssued U has_dom has_elev fl email db"
    by (simp add: ResolveIssued_def resolve_issued_switch)
  show "p_Active p" if "ResolveIssued U has_dom has_elev fl email db = Inr p" for p
    using that by (auto simp: ResolveIssued_def resolve_spec policy_for_def Let_def
        split: if_splits sum.splits option.splits)
  show "ResolveIssued U has_dom has_elev fl email db = Inr p"
    if "Resolve U has_dom has_elev fl email db = Inr p" for p
    using that by (auto simp: ResolveIssued_def Resolve_def resolve_spec Let_def FindMatching_def FindMatchingIssued_def
        split: if_splits sum.splits)
qed

theorem issued_links_survive_domain_switch_witness:
  "(let db' = sample_catalog\<lparr>db_domains := snd (Domains.SetActive False 7 2 False (db_domains sample_catalog))\<rparr>
    in ResolveIssued ascii_tables True True no_res_faults ''bob@corp.com'' db'
       = Inr (joined_row sample_catalog (sample_policy 1 2 ''B1'' True))
     \<and> Resolve ascii_tables True True no_res_faults ''bob@corp.com'' db' = Inl ErrNoPolicy)"
proof -
  let ?db = "sample_catalog\<lparr>db_domains := snd (Domains.SetActive False 7 2 False (db_domains sample_catalog))\<rparr>"
  have "Resolve ascii_tables True True no_res_faults ''bob@corp.com'' sample_catalog
      = Inr (joined_row sample_catalog (sample_policy 1 2 ''B1'' True))"
    "Resolve ascii_tables True True no_res_faults ''bob@corp.com'' ?db = Inl ErrNoPolicy"
    by code_simp+
  then show ?thesis
    using issued_links_survive_domain_switch [where db = sample_catalog and U = ascii_tables and has_dom = True
        and has_elev = True and fl = no_res_faults and email = "''bob@corp.com''" and fault = False and now = 7
        and i = 2 and a = False]
    unfolding Let_def by simp
qed

end
