(* ===== verification/Tokens.thy ===== *)
theory Tokens
  imports Go_Strings
begin

text \<open>
  \<open>internal/tokens/tokens.go\<close>: the single-use tokens behind reveal links.

  The table \<open>request_tokens\<close> is the list of its rows, with \<open>token_hash\<close> as primary key; a bearer
  token is never stored. SHA-256 is the argument \<open>sha\<close>; what it is relied on for (no two tokens
  with one digest) is the hypothesis \<open>inj sha\<close>. \<open>rand.Read\<close> is an argument, \<open>None\<close> when it fails.
  \<open>Consume\<close> is modelled twice: as one call (\<open>Consume\<close>) and as the two statements that other
  requests can interleave with (\<open>consume_select\<close>, \<open>consume_update\<close>, and the step relation \<open>tok_step\<close>).
\<close>

section \<open>Encodings\<close>

definition b64url_digit :: "nat \<Rightarrow> char" where
  "b64url_digit n = ''ABCDEFGHIJKLMNOPQRSTUVWXYZabcdefghijklmnopqrstuvwxyz0123456789-_'' ! n"

text \<open>\<open>base64.RawURLEncoding\<close>: no padding.\<close>

fun b64url :: "string \<Rightarrow> string" where
  "b64url (a # b # c # s) =
     [b64url_digit (byte a div 4), b64url_digit (byte a mod 4 * 16 + byte b div 16),
      b64url_digit (byte b mod 16 * 4 + byte c div 64), b64url_digit (byte c mod 64)] @ b64url s"
| "b64url [a, b] = [b64url_digit (byte a div 4), b64url_digit (byte a mod 4 * 16 + byte b div 16),
      b64url_digit (byte b mod 16 * 4)]"
| "b64url [a] = [b64url_digit (byte a div 4), b64url_digit (byte a mod 4 * 16)]"
| "b64url [] = []"

definition hashToken :: "(string \<Rightarrow> string) \<Rightarrow> string \<Rightarrow> string" where
  "hashToken sha token = hex (sha (''sealkeeper-reveal-token:'' @ token))"

section \<open>Rows\<close>

record tok_row =
  r_hash :: string
  r_email :: string
  r_domain :: string
  r_req_ip :: "string option"
  r_req_ua :: "string option"
  r_issued :: time
  r_expires :: time
  r_consumed :: "time option"
  r_cons_ip :: "string option"
  r_cons_ua :: "string option"

type_synonym tok_db = "tok_row list"

record token =
  tk_Token :: string
  tk_Email :: string
  tk_Domain :: string
  tk_IssuedAt :: time
  tk_ExpiresAt :: time
  tk_ConsumedAt :: "time option"

record issue_options =
  io_Email :: string
  io_Domain :: string
  io_IPHash :: string
  io_UAHash :: string
  io_TTL :: duration

datatype tok_err = ErrNotFound | ErrConsumed | ErrExpired | ErrNoEmail | ErrRandom | ErrDriver

definition DefaultTTL :: duration where "DefaultTTL = 15 * minute"

definition nullable :: "string \<Rightarrow> string option" where
  "nullable s = (if s = [] then None else Some s)"

definition row_of :: "tok_db \<Rightarrow> string \<Rightarrow> tok_row option" where
  "row_of db h = find (\<lambda>r. r_hash r = h) db"

text \<open>\<open>scanRow\<close>: the row as the caller sees it, with the caller's own bearer value.\<close>

definition scanRow :: "string \<Rightarrow> tok_row \<Rightarrow> token" where
  "scanRow tok r = \<lparr>tk_Token = tok, tk_Email = r_email r, tk_Domain = r_domain r,
     tk_IssuedAt = r_issued r, tk_ExpiresAt = r_expires r, tk_ConsumedAt = r_consumed r\<rparr>"

section \<open>Operations\<close>

text \<open>The INSERT fails on a driver fault or on the primary key.\<close>

definition Issue ::
  "unicode \<Rightarrow> (string \<Rightarrow> string) \<Rightarrow> bool \<Rightarrow> string option \<Rightarrow> time \<Rightarrow> issue_options \<Rightarrow> tok_db
     \<Rightarrow> (tok_err + token) \<times> tok_db" where
  "Issue U sha fault rnd now opts db =
     (if TrimSpace (io_Email opts) = [] then (Inl ErrNoEmail, db)
      else
        let domain =
              (if TrimSpace (io_Domain opts) = [] then
                 let idx = LastIndexByte CHR ''@'' (io_Email opts)
                 in if idx > 0 \<and> idx + 1 < int (length (io_Email opts))
                    then ToLower U (slice_from (io_Email opts) (idx + 1)) else ''unknown''
               else io_Domain opts);
            ttl = (if io_TTL opts \<le> 0 then DefaultTTL else io_TTL opts)
        in case rnd of
             None \<Rightarrow> (Inl ErrRandom, db)
           | Some raw \<Rightarrow>
               let tok = b64url raw; digest = hashToken sha tok; expires = now + ttl
               in if fault \<or> row_of db digest \<noteq> None then (Inl ErrDriver, db)
                  else
                    (Inr \<lparr>tk_Token = tok, tk_Email = ToLower U (io_Email opts), tk_Domain = ToLower U domain,
                          tk_IssuedAt = now, tk_ExpiresAt = expires, tk_ConsumedAt = None\<rparr>,
                     db @ [\<lparr>r_hash = digest, r_email = ToLower U (io_Email opts), r_domain = ToLower U domain,
                            r_req_ip = nullable (io_IPHash opts), r_req_ua = nullable (io_UAHash opts),
                            r_issued = now, r_expires = expires, r_consumed = None,
                            r_cons_ip = None, r_cons_ua = None\<rparr>]))"

definition Get :: "(string \<Rightarrow> string) \<Rightarrow> bool \<Rightarrow> string \<Rightarrow> tok_db \<Rightarrow> tok_err + token" where
  "Get sha fault tok db =
     (if fault then Inl ErrDriver
      else case row_of db (hashToken sha tok) of None \<Rightarrow> Inl ErrNotFound | Some r \<Rightarrow> Inr (scanRow tok r))"

text \<open>The conditional UPDATE of \<open>Consume\<close> and its row count.\<close>

definition update_consumed ::
  "time \<Rightarrow> string \<Rightarrow> string \<Rightarrow> string \<Rightarrow> tok_db \<Rightarrow> nat \<times> tok_db" where
  "update_consumed now ip ua digest db =
     (length (filter (\<lambda>r. r_hash r = digest \<and> r_consumed r = None) db),
      map (\<lambda>r. if r_hash r = digest \<and> r_consumed r = None
               then r\<lparr>r_consumed := Some now, r_cons_ip := nullable ip, r_cons_ua := nullable ua\<rparr> else r) db)"

datatype tok_stmt = BeginTx | SelectToken | UpdateToken | CommitTx

text \<open>The first half of \<open>Consume\<close>: \<open>Inl\<close> is an early return (the row, when there is one, with its
  error), \<open>Inr\<close> the row that goes on to the UPDATE.\<close>

definition consume_select ::
  "(string \<Rightarrow> string) \<Rightarrow> tok_stmt faults \<Rightarrow> time \<Rightarrow> string \<Rightarrow> tok_db \<Rightarrow> (token option \<times> tok_err) + token" where
  "consume_select sha faults now tok db =
     (if TrimSpace tok = [] then Inl (None, ErrNotFound)
      else if faults BeginTx \<or> faults SelectToken then Inl (None, ErrDriver)
      else case row_of db (hashToken sha tok) of
        None \<Rightarrow> Inl (None, ErrNotFound)
      | Some r \<Rightarrow>
          (let row = scanRow tok r
           in if tk_ConsumedAt row \<noteq> None then Inl (Some row, ErrConsumed)
              else if \<not> now < tk_ExpiresAt row then Inl (Some row, ErrExpired)
              else Inr row))"

text \<open>The second half: UPDATE, row count, COMMIT; a failed statement or commit leaves the table as
  it was (the deferred rollback).\<close>

definition consume_update ::
  "(string \<Rightarrow> string) \<Rightarrow> tok_stmt faults \<Rightarrow> time \<Rightarrow> token \<Rightarrow> string \<Rightarrow> string \<Rightarrow> tok_db
     \<Rightarrow> ((token option \<times> tok_err) + token) \<times> tok_db" where
  "consume_update sha faults now row ip ua db =
     (if faults UpdateToken then (Inl (None, ErrDriver), db)
      else let (affected, db') = update_consumed now ip ua (hashToken sha (tk_Token row)) db
           in if affected = 0 then (Inl (Some row, ErrConsumed), db)
              else if faults CommitTx then (Inl (None, ErrDriver), db)
              else (Inr (row\<lparr>tk_ConsumedAt := Some now\<rparr>), db'))"

definition Consume ::
  "(string \<Rightarrow> string) \<Rightarrow> tok_stmt faults \<Rightarrow> time \<Rightarrow> string \<Rightarrow> string \<Rightarrow> string \<Rightarrow> tok_db
     \<Rightarrow> ((token option \<times> tok_err) + token) \<times> tok_db" where
  "Consume sha faults now tok ip ua db =
     (case consume_select sha faults now tok db of
        Inl e \<Rightarrow> (Inl e, db)
      | Inr row \<Rightarrow> consume_update sha faults now row ip ua db)"

section \<open>One call at a time\<close>

definition tok_wf :: "tok_db \<Rightarrow> bool" where
  "tok_wf db \<longleftrightarrow> distinct (map r_hash db)"

definition spent :: "tok_db \<Rightarrow> string \<Rightarrow> bool" where
  "spent db h \<longleftrightarrow> (\<exists>r\<in>set db. r_hash r = h \<and> r_consumed r \<noteq> None)"

definition live :: "tok_db \<Rightarrow> string \<Rightarrow> bool" where
  "live db h \<longleftrightarrow> (\<exists>r\<in>set db. r_hash r = h \<and> r_consumed r = None)"

lemma row_of_Some: "row_of db h = Some r \<Longrightarrow> r \<in> set db \<and> r_hash r = h"
  by (auto simp: row_of_def dest: find_Some_in)

lemma row_of_None: "row_of db h = None \<longleftrightarrow> h \<notin> r_hash ` set db"
  by (auto simp: row_of_def find_None_all)

lemma row_of_wf: "tok_wf db \<Longrightarrow> r \<in> set db \<Longrightarrow> row_of db (r_hash r) = Some r"
  unfolding tok_wf_def row_of_def by (rule distinct_map_find)

definition mark :: "time \<Rightarrow> string \<Rightarrow> string \<Rightarrow> string \<Rightarrow> tok_row \<Rightarrow> tok_row" where
  "mark now ip ua h r = (if r_hash r = h \<and> r_consumed r = None
     then r\<lparr>r_consumed := Some now, r_cons_ip := nullable ip, r_cons_ua := nullable ua\<rparr> else r)"

lemma mark_simps [simp]:
  "r_hash (mark now ip ua h r) = r_hash r"
  "r_consumed (mark now ip ua h r) = (if r_hash r = h \<and> r_consumed r = None then Some now else r_consumed r)"
  by (auto simp: mark_def)

lemma update_consumed_mark:
  "update_consumed now ip ua h db = (length (filter (\<lambda>r. r_hash r = h \<and> r_consumed r = None) db), map (mark now ip ua h) db)"
  by (simp add: update_consumed_def mark_def [abs_def])

lemma update_consumed_set:
  assumes "update_consumed now ip ua h db = (n, db')"
  shows "map r_hash db' = map r_hash db" "n > 0 \<longleftrightarrow> live db h"
proof -
  show "map r_hash db' = map r_hash db" using assms by (auto simp: update_consumed_mark)
  have "n = length (filter (\<lambda>r. r_hash r = h \<and> r_consumed r = None) db)"
    using assms by (simp add: update_consumed_mark)
  then show "n > 0 \<longleftrightarrow> live db h"
    by (auto simp: live_def filter_empty_conv)
qed

lemma update_consumed_rows:
  assumes "update_consumed now ip ua h db = (n, db')"
  shows "live db' k \<longleftrightarrow> live db k \<and> k \<noteq> h" and "spent db' k \<longleftrightarrow> spent db k \<or> (k = h \<and> live db h)"
proof -
  have d: "db' = map (mark now ip ua h) db" using assms by (simp add: update_consumed_mark)
  show "live db' k \<longleftrightarrow> live db k \<and> k \<noteq> h" unfolding d live_def by auto
  show "spent db' k \<longleftrightarrow> spent db k \<or> (k = h \<and> live db h)" unfolding d live_def spent_def by auto
qed

lemma consume_select_row:
  assumes "consume_select sha faults now tok db = Inr row"
  shows "tk_Token row = tok" "now < tk_ExpiresAt row" "tk_ConsumedAt row = None"
    "\<exists>r. row_of db (hashToken sha tok) = Some r \<and> row = scanRow tok r"
  using assms by (auto simp: consume_select_def scanRow_def Let_def split: if_splits option.splits)

lemma consume_update_cases:
  assumes "consume_update sha faults now row ip ua db = (r, db')"
  obtains (lost) e where "r = Inl e" "db' = db"
  | (won) n where "r = Inr (row\<lparr>tk_ConsumedAt := Some now\<rparr>)" "live db (hashToken sha (tk_Token row))"
      "update_consumed now ip ua (hashToken sha (tk_Token row)) db = (n, db')"
proof -
  obtain n d where u: "update_consumed now ip ua (hashToken sha (tk_Token row)) db = (n, d)"
    by (cases "update_consumed now ip ua (hashToken sha (tk_Token row)) db")
  then show thesis
    using assms update_consumed_set(2) [OF u] lost won by (auto simp: consume_update_def split: if_splits)
qed

text \<open>The row a successful \<open>Issue\<close> appends.\<close>

definition issued_row :: "(string \<Rightarrow> string) \<Rightarrow> issue_options \<Rightarrow> token \<Rightarrow> tok_row" where
  "issued_row sha opts t = \<lparr>r_hash = hashToken sha (tk_Token t), r_email = tk_Email t, r_domain = tk_Domain t,
     r_req_ip = nullable (io_IPHash opts), r_req_ua = nullable (io_UAHash opts),
     r_issued = tk_IssuedAt t, r_expires = tk_ExpiresAt t, r_consumed = None, r_cons_ip = None, r_cons_ua = None\<rparr>"

lemma Issue_cases:
  assumes "Issue U sha fault rnd now opts db = (r, db')"
  obtains (kept) e where "r = Inl e" "db' = db"
  | (issued) t raw where "r = Inr t" "rnd = Some raw" "tk_Token t = b64url raw" "tk_ConsumedAt t = None"
      "tk_Email t = ToLower U (io_Email opts)" "tk_IssuedAt t = now"
      "tk_ExpiresAt t = now + (if io_TTL opts \<le> 0 then DefaultTTL else io_TTL opts)"
      "row_of db (hashToken sha (tk_Token t)) = None" "db' = db @ [issued_row sha opts t]"
proof (cases r)
  case (Inl e)
  then have "db' = db" using assms by (auto simp: Issue_def Let_def split: if_split_asm option.splits)
  with Inl kept show ?thesis by blast
next
  case (Inr t)
  have e: "TrimSpace (io_Email opts) \<noteq> []" using assms Inr by (auto simp: Issue_def)
  obtain raw where raw: "rnd = Some raw" using assms Inr e by (cases rnd) (auto simp: Issue_def Let_def)
  have f: "\<not> (fault \<or> row_of db (hashToken sha (b64url raw)) \<noteq> None)"
    using assms Inr raw e by (intro notI) (simp add: Issue_def Let_def)
  show ?thesis
    by (rule issued [OF Inr raw]) (use assms Inr raw e f in \<open>auto simp: Issue_def Let_def issued_row_def\<close>)
qed

lemma Issue_rows:
  assumes "Issue U sha fault rnd now opts db = (r, db')"
  shows "spent db' h \<longleftrightarrow> spent db h" and "live db' h \<Longrightarrow> live db h \<or> \<not> spent db h"
proof -
  have "(spent db' h \<longleftrightarrow> spent db h) \<and> (live db' h \<longrightarrow> live db h \<or> \<not> spent db h)"
  proof (cases rule: Issue_cases [OF assms])
    case (2 t raw)
    have "\<forall>x\<in>set db. r_hash x \<noteq> hashToken sha (tk_Token t)" using 2(8) row_of_None by force
    with 2(9) show ?thesis by (auto simp: spent_def live_def issued_row_def)
  qed auto
  then show "spent db' h \<longleftrightarrow> spent db h" and "live db' h \<Longrightarrow> live db h \<or> \<not> spent db h" by blast+
qed

definition redeem_token ::
  "(string \<Rightarrow> string) \<Rightarrow> tok_stmt faults \<times> time \<times> string \<times> string \<Rightarrow> string \<Rightarrow> tok_db \<Rightarrow> bool \<times> tok_db" where
  "redeem_token sha x tok db =
     (let (faults, now, ip, ua) = x; (r, db') = Consume sha faults now tok ip ua db in (\<not> isl r, db'))"

definition live_token :: "(string \<Rightarrow> string) \<Rightarrow> tok_db \<Rightarrow> string \<Rightarrow> bool" where
  "live_token sha db tok \<longleftrightarrow> live db (hashToken sha tok)"

lemma Consume_cases:
  assumes "Consume sha faults now tok ip ua db = (r, db')"
  obtains (kept) "isl r" "db' = db"
  | (won) row n where "r = Inr (row\<lparr>tk_ConsumedAt := Some now\<rparr>)" "tk_Token row = tok" "now < tk_ExpiresAt row"
      "\<exists>x. row_of db (hashToken sha tok) = Some x \<and> row = scanRow tok x"
      "live db (hashToken sha tok)" "update_consumed now ip ua (hashToken sha tok) db = (n, db')"
proof (cases "consume_select sha faults now tok db")
  case (Inl e)
  then have "r = Inl e \<and> db' = db" using assms by (simp add: Consume_def)
  then have "isl r" "db' = db" by simp_all
  then show ?thesis by (rule kept)
next
  case (Inr row)
  then have u: "consume_update sha faults now row ip ua db = (r, db')" using assms by (simp add: Consume_def)
  note row = consume_select_row [OF Inr]
  show ?thesis
  proof (cases rule: consume_update_cases [OF u])
    case 1
    then show ?thesis using kept by simp
  next
    case (2 n)
    then show ?thesis using won [of row n] row by simp
  qed
qed

interpretation tok: single_use "redeem_token sha" "live_token sha" for sha
proof
  fix x k s s' assume "redeem_token sha x k s = (True, s')"
  then obtain faults now ip ua r where c: "Consume sha faults now k ip ua s = (r, s')" "\<not> isl r"
    by (cases x) (auto simp: redeem_token_def split: prod.splits)
  show "live_token sha s k \<and> \<not> live_token sha s' k"
    by (cases rule: Consume_cases [OF c(1)]) (use c(2) in \<open>auto simp: live_token_def update_consumed_rows\<close>)
next
  fix x k s ok s' k' assume "redeem_token sha x k s = (ok, s')" and l: "live_token sha s' k'"
  then obtain faults now ip ua r where c: "Consume sha faults now k ip ua s = (r, s')"
    by (cases x) (auto simp: redeem_token_def split: prod.splits)
  show "live_token sha s k'"
    by (cases rule: Consume_cases [OF c]) (use l in \<open>auto simp: live_token_def update_consumed_rows\<close>)
qed

section \<open>Concurrent requests\<close>

text \<open>
  A request that consumes a token is at the start, between its SELECT and its UPDATE, or done.
  Steps of different requests interleave freely, with tokens being issued meanwhile; the clock
  and the driver faults are those of the step.
\<close>

datatype cons_pc =
    CStart string string string
  | CSelected time token string string
  | CDone "(token option \<times> tok_err) + token"

record tok_sys =
  ts_db :: tok_db
  ts_reqs :: "cons_pc list"

inductive tok_step :: "unicode \<Rightarrow> (string \<Rightarrow> string) \<Rightarrow> tok_sys \<Rightarrow> tok_sys \<Rightarrow> bool" for U sha where
  issue: "Issue U sha fault rnd now opts (ts_db s) = (r, db') \<Longrightarrow> tok_step U sha s (s\<lparr>ts_db := db'\<rparr>)"
| arrive: "tok_step U sha s (s\<lparr>ts_reqs := ts_reqs s @ [CStart tok ip ua]\<rparr>)"
| select: "i < length (ts_reqs s) \<Longrightarrow> ts_reqs s ! i = CStart tok ip ua \<Longrightarrow>
    consume_select sha faults now tok (ts_db s) = r \<Longrightarrow>
    tok_step U sha s (s\<lparr>ts_reqs := (ts_reqs s)[i := case r of Inl e \<Rightarrow> CDone (Inl e) | Inr row \<Rightarrow> CSelected now row ip ua]\<rparr>)"
| update: "i < length (ts_reqs s) \<Longrightarrow> ts_reqs s ! i = CSelected now row ip ua \<Longrightarrow>
    consume_update sha faults now row ip ua (ts_db s) = (r, db') \<Longrightarrow>
    tok_step U sha s (s\<lparr>ts_db := db', ts_reqs := (ts_reqs s)[i := CDone r]\<rparr>)"

definition won :: "(string \<Rightarrow> string) \<Rightarrow> string \<Rightarrow> cons_pc \<Rightarrow> bool" where
  "won sha h pc \<longleftrightarrow> (case pc of CDone (Inr row) \<Rightarrow> hashToken sha (tk_Token row) = h | _ \<Rightarrow> False)"

text \<open>The invariant: one successful request per spent token and none per unspent one; a request
  past its SELECT saw its token alive and unexpired.\<close>

definition tok_inv :: "(string \<Rightarrow> string) \<Rightarrow> tok_sys \<Rightarrow> bool" where
  "tok_inv sha s \<longleftrightarrow>
     (\<forall>h. length (filter (won sha h) (ts_reqs s)) \<le> (if spent (ts_db s) h then 1 else 0))
     \<and> (\<forall>h. spent (ts_db s) h \<longrightarrow> \<not> live (ts_db s) h)
     \<and> (\<forall>now row ip ua. CSelected now row ip ua \<in> set (ts_reqs s) \<longrightarrow> now < tk_ExpiresAt row)
     \<and> (\<forall>row. CDone (Inr row) \<in> set (ts_reqs s) \<longrightarrow> (\<exists>now. tk_ConsumedAt row = Some now \<and> now < tk_ExpiresAt row))"

lemma won_update:
  assumes "i < length xs"
  shows "length (filter P (xs[i := y])) + (if P (xs ! i) then 1 else 0)
    = length (filter P xs) + (if P y then 1 else 0)"
  using assms
proof (induction xs arbitrary: i)
  case (Cons x xs)
  then show ?case by (cases i) auto
qed simp

lemma tok_inv_step:
  assumes "tok_step U sha s s'" "tok_inv sha s"
  shows "tok_inv sha s'"
  using assms
proof (induction rule: tok_step.induct)
  case (issue fault rnd now opts s r db')
  have "live db' h \<Longrightarrow> \<not> live (ts_db s) h \<Longrightarrow> \<not> spent (ts_db s) h" "spent db' h \<longleftrightarrow> spent (ts_db s) h" for h
    using Issue_rows [OF issue(1)] by blast+
  then show ?case using issue by (auto simp: tok_inv_def)
next
  case (arrive s tok ip ua)
  then show ?case by (auto simp: tok_inv_def won_def)
next
  case (select i s tok ip ua faults now r)
  let ?pc = "case r of Inl e \<Rightarrow> CDone (Inl e) | Inr row \<Rightarrow> CSelected now row ip ua"
  have w: "\<not> won sha h ?pc" "\<not> won sha h (ts_reqs s ! i)" for h
    using select(2) by (auto simp: won_def split: sum.splits)
  have "now < tk_ExpiresAt row" if "r = Inr row" for row
    using consume_select_row(2) select(3) that by blast
  moreover have "x \<in> set ((ts_reqs s)[i := ?pc]) \<Longrightarrow> x = ?pc \<or> x \<in> set (ts_reqs s)" for x
    using set_update_subset_insert [of "ts_reqs s" i ?pc] by blast
  ultimately show ?case
    using select won_update [OF select(1), of "won sha _" ?pc] w
    by (fastforce simp: tok_inv_def split: sum.splits)
next
  case (update i s now row ip ua faults r db')
  let ?h = "hashToken sha (tk_Token row)"
  have "CSelected now row ip ua \<in> set (ts_reqs s)" using update(1,2) nth_mem by metis
  then have exp: "now < tk_ExpiresAt row" using update(4) unfolding tok_inv_def by blast
  have sub: "x \<in> set ((ts_reqs s)[i := CDone r]) \<Longrightarrow> x = CDone r \<or> x \<in> set (ts_reqs s)" for x
    using set_update_subset_insert [of "ts_reqs s" i "CDone r"] by blast
  have old: "\<not> won sha h (ts_reqs s ! i)" for h using update(2) by (simp add: won_def)
  note cnt = won_update [OF update(1), of "won sha _" "CDone r"]
  show ?case
  proof (cases rule: consume_update_cases [OF update(3)])
    case (1 e)
    then have "\<not> won sha h (CDone r)" for h by (simp add: won_def)
    then show ?thesis using update 1 sub old cnt by (fastforce simp: tok_inv_def)
  next
    case (2 n)
    have w: "won sha h (CDone r) \<longleftrightarrow> h = ?h" for h using 2 by (auto simp: won_def)
    have ns: "\<not> spent (ts_db s) ?h" using update(4) 2(2) by (auto simp: tok_inv_def)
    have c: "length (filter (won sha h) ((ts_reqs s)[i := CDone r])) \<le> (if spent db' h then 1 else 0)" for h
      using cnt [of h] old w [of h] update(4) ns 2(2) update_consumed_rows(2) [OF 2(3), of h]
      unfolding tok_inv_def by (cases "h = ?h") (force split: if_splits)+
    have l: "spent db' h \<Longrightarrow> \<not> live db' h" for h
      using update(4) update_consumed_rows [OF 2(3)] by (auto simp: tok_inv_def)
    show ?thesis
      using c l update(4) sub exp 2(1) unfolding tok_inv_def by fastforce
  qed
qed

lemma tok_inv_run: "(tok_step U sha)\<^sup>*\<^sup>* s s' \<Longrightarrow> tok_inv sha s \<Longrightarrow> tok_inv sha s'"
  by (induction rule: rtranclp_induct) (auto intro: tok_inv_step)

lemma tok_inv_init:
  "(\<forall>r\<in>set db. r_consumed r = None) \<Longrightarrow> tok_inv sha \<lparr>ts_db = db, ts_reqs = []\<rparr>"
  by (auto simp: tok_inv_def spent_def)

section \<open>Properties\<close>

text \<open>
  C1. A reveal link works once, even under concurrency: from any table with no spent token,
  whatever requests arrive and however their SELECT and UPDATE statements interleave with each
  other, with issuing and with driver failures, at most one request for a given token succeeds,
  and a request that succeeds consumed its token strictly before its expiry.
\<close>

theorem token_redeemed_at_most_once:
  assumes "\<forall>r\<in>set db. r_consumed r = None"
    and "(tok_step U sha)\<^sup>*\<^sup>* \<lparr>ts_db = db, ts_reqs = []\<rparr> s"
  shows "length (filter (\<lambda>pc. case pc of CDone (Inr row) \<Rightarrow> tk_Token row = tok | _ \<Rightarrow> False) (ts_reqs s)) \<le> 1
    \<and> (\<forall>row. CDone (Inr row) \<in> set (ts_reqs s) \<longrightarrow>
          (\<exists>now. tk_ConsumedAt row = Some now \<and> now < tk_ExpiresAt row))"
proof
  have inv: "tok_inv sha s" using tok_inv_run [OF assms(2)] tok_inv_init [OF assms(1)] by blast
  have "length (filter (\<lambda>pc. case pc of CDone (Inr row) \<Rightarrow> tk_Token row = tok | _ \<Rightarrow> False) (ts_reqs s))
      \<le> length (filter (won sha (hashToken sha tok)) (ts_reqs s))"
    by (rule length_filter_mono) (auto simp: won_def split: cons_pc.splits sum.splits)
  also have "\<dots> \<le> 1" using inv by (auto simp: tok_inv_def split: if_splits intro: le_trans)
  finally show "length (filter (\<lambda>pc. case pc of CDone (Inr row) \<Rightarrow> tk_Token row = tok | _ \<Rightarrow> False) (ts_reqs s)) \<le> 1" .
  show "\<forall>row. CDone (Inr row) \<in> set (ts_reqs s) \<longrightarrow>
      (\<exists>now. tk_ConsumedAt row = Some now \<and> now < tk_ExpiresAt row)"
    using inv by (auto simp: tok_inv_def)
qed

definition sample_opts :: issue_options where
  "sample_opts = \<lparr>io_Email = ''Bob@corp.com'', io_Domain = [], io_IPHash = [], io_UAHash = [], io_TTL = 0\<rparr>"

definition sample_tok_db :: tok_db where
  "sample_tok_db = snd (Issue ascii_tables id False (Some ''abcdef'') 0 sample_opts [])"

definition sample_pc :: "cons_pc list \<Rightarrow> tok_sys" where
  "sample_pc ps = \<lparr>ts_db = sample_tok_db, ts_reqs = ps\<rparr>"

lemma sample_select:
  "consume_select id no_faults 5 ''YWJjZGVm'' sample_tok_db = Inr (scanRow ''YWJjZGVm'' (hd sample_tok_db))"
  by code_simp

lemma sample_two_selected:
  "(tok_step ascii_tables id)\<^sup>*\<^sup>* (sample_pc [])
     (sample_pc [CSelected 5 (scanRow ''YWJjZGVm'' (hd sample_tok_db)) [] [],
                 CSelected 5 (scanRow ''YWJjZGVm'' (hd sample_tok_db)) [] []])"
proof -
  let ?c = "CStart ''YWJjZGVm'' [] []" and ?d = "CSelected 5 (scanRow ''YWJjZGVm'' (hd sample_tok_db)) [] []"
  have "tok_step ascii_tables id (sample_pc []) (sample_pc [?c])"
    "tok_step ascii_tables id (sample_pc [?c]) (sample_pc [?c, ?c])"
    using tok_step.arrive [of _ _ "sample_pc []" "''YWJjZGVm''" "[]" "[]"]
      tok_step.arrive [of _ _ "sample_pc [?c]" "''YWJjZGVm''" "[]" "[]"] by (simp_all add: sample_pc_def)
  moreover have "tok_step ascii_tables id (sample_pc [?c, ?c]) (sample_pc [?d, ?c])"
    using tok_step.select [of 0 "sample_pc [?c, ?c]" _ _ _ id no_faults 5 "Inr (scanRow ''YWJjZGVm'' (hd sample_tok_db))"]
      sample_select by (simp add: sample_pc_def)
  moreover have "tok_step ascii_tables id (sample_pc [?d, ?c]) (sample_pc [?d, ?d])"
    using tok_step.select [of 1 "sample_pc [?d, ?c]" _ _ _ id no_faults 5 "Inr (scanRow ''YWJjZGVm'' (hd sample_tok_db))"]
      sample_select by (simp add: sample_pc_def)
  ultimately show ?thesis by (meson converse_rtranclp_into_rtranclp rtranclp.rtrancl_refl)
qed

theorem token_redeemed_at_most_once_witness:
  "\<exists>s row. (tok_step ascii_tables id)\<^sup>*\<^sup>* \<lparr>ts_db = sample_tok_db, ts_reqs = []\<rparr> s
     \<and> ts_reqs s ! 0 = CDone (Inr row) \<and> tk_Token row = ''YWJjZGVm''
     \<and> length (filter (\<lambda>pc. case pc of CDone (Inr row) \<Rightarrow> tk_Token row = ''YWJjZGVm'' | _ \<Rightarrow> False) (ts_reqs s)) \<le> 1"
proof -
  let ?d = "CSelected 5 (scanRow ''YWJjZGVm'' (hd sample_tok_db)) [] []"
  obtain r db' where u: "consume_update id no_faults 5 (scanRow ''YWJjZGVm'' (hd sample_tok_db)) [] [] sample_tok_db = (r, db')"
    by (rule prod.exhaust)
  have "fst (consume_update id no_faults 5 (scanRow ''YWJjZGVm'' (hd sample_tok_db)) [] [] sample_tok_db)
      = Inr ((scanRow ''YWJjZGVm'' (hd sample_tok_db))\<lparr>tk_ConsumedAt := Some 5\<rparr>)"
    by code_simp
  then have r: "r = Inr ((scanRow ''YWJjZGVm'' (hd sample_tok_db))\<lparr>tk_ConsumedAt := Some 5\<rparr>)" unfolding u by simp
  let ?s = "\<lparr>ts_db = db', ts_reqs = [CDone r, ?d]\<rparr>"
  have "tok_step ascii_tables id (sample_pc [?d, ?d]) ?s"
    using tok_step.update [of 0 "sample_pc [?d, ?d]" 5 _ _ _ id no_faults r db'] u by (simp add: sample_pc_def)
  with sample_two_selected have run: "(tok_step ascii_tables id)\<^sup>*\<^sup>* \<lparr>ts_db = sample_tok_db, ts_reqs = []\<rparr> ?s"
    by (auto simp: sample_pc_def)
  have un: "\<forall>r\<in>set sample_tok_db. r_consumed r = None" by code_simp
  have "ts_reqs ?s ! 0 = CDone (Inr ((scanRow ''YWJjZGVm'' (hd sample_tok_db))\<lparr>tk_ConsumedAt := Some 5\<rparr>))"
    "tk_Token ((scanRow ''YWJjZGVm'' (hd sample_tok_db))\<lparr>tk_ConsumedAt := Some 5\<rparr>) = ''YWJjZGVm''"
    by (simp_all add: r scanRow_def)
  then show ?thesis using run token_redeemed_at_most_once [OF un run] by blast
qed

text \<open>
  Issue and redeem round trip: the token a successful \<open>Issue\<close> returns is read back by \<open>Get\<close>
  exactly as returned, consuming it before its expiry succeeds and returns it marked with the time,
  and every later attempt, at any time, is refused with \<open>ErrConsumed\<close>; at or after its expiry it is
  refused with \<open>ErrExpired\<close> and stays unconsumed.
\<close>

theorem issued_token_round_trip:
  assumes "Issue U sha fault rnd now opts db = (Inr t, db')" "TrimSpace (tk_Token t) \<noteq> []"
  shows "Get sha False (tk_Token t) db' = Inr t
    \<and> (at < tk_ExpiresAt t \<longrightarrow> (\<exists>db''. Consume sha no_faults at (tk_Token t) ip ua db' = (Inr (t\<lparr>tk_ConsumedAt := Some at\<rparr>), db'')
         \<and> (\<forall>later. fst (Consume sha no_faults later (tk_Token t) ip' ua' db'')
              = Inl (Some (t\<lparr>tk_ConsumedAt := Some at\<rparr>), ErrConsumed))))
    \<and> (tk_ExpiresAt t \<le> at \<longrightarrow> Consume sha no_faults at (tk_Token t) ip ua db' = (Inl (Some t, ErrExpired), db'))"
proof (cases rule: Issue_cases [OF assms(1)])
  case (2 t' raw)
  have t: "t' = t" using 2(1) by simp
  let ?h = "hashToken sha (tk_Token t)" and ?r = "issued_row sha opts t"
  have nodb: "find (\<lambda>r. r_hash r = ?h) db = None" using 2(8) t by (simp add: row_of_def)
  have row: "row_of db' ?h = Some ?r" using 2(9) nodb t by (simp add: row_of_def find_append issued_row_def)
  have scan: "scanRow (tk_Token t) ?r = t" using 2(4) t by (simp add: scanRow_def issued_row_def)
  obtain n db'' where u: "update_consumed at ip ua ?h db' = (n, db'')" by (cases "update_consumed at ip ua ?h db'")
  have "live db' ?h" using 2(9) t by (auto simp: live_def issued_row_def)
  then have n: "n > 0" using update_consumed_set(2) [OF u] by blast
  have "row_of db'' ?h = map_option (mark at ip ua ?h) (row_of db' ?h)"
    using u by (auto simp: update_consumed_mark row_of_def find_map_cong)
  then have row': "row_of db'' ?h = Some (mark at ip ua ?h ?r)" using row by simp
  have scan': "scanRow (tk_Token t) (mark at ip ua ?h ?r) = t\<lparr>tk_ConsumedAt := Some at\<rparr>"
    by (simp add: scanRow_def issued_row_def mark_def)
  have "Get sha False (tk_Token t) db' = Inr t" using row scan by (simp add: Get_def)
  moreover have "Consume sha no_faults at (tk_Token t) ip ua db' = (Inr (t\<lparr>tk_ConsumedAt := Some at\<rparr>), db'')"
    if "at < tk_ExpiresAt t"
    using that row scan u n 2(4) t assms(2) by (simp add: Consume_def consume_select_def consume_update_def Let_def)
  moreover have "fst (Consume sha no_faults later (tk_Token t) ip' ua' db'')
      = Inl (Some (t\<lparr>tk_ConsumedAt := Some at\<rparr>), ErrConsumed)" for later
    using row' scan' assms(2) by (simp add: Consume_def consume_select_def Let_def)
  moreover have "Consume sha no_faults at (tk_Token t) ip ua db' = (Inl (Some t, ErrExpired), db')" if "tk_ExpiresAt t \<le> at"
    using that row scan 2(4) t assms(2) by (simp add: Consume_def consume_select_def Let_def)
  ultimately show ?thesis by blast
qed simp

theorem issued_token_round_trip_witness:
  "\<exists>t db'. Issue ascii_tables id False (Some ''abcdef'') 0 sample_opts [] = (Inr t, db')
     \<and> tk_Email t = ''bob@corp.com'' \<and> tk_ExpiresAt t = 15 * minute \<and> Get id False (tk_Token t) db' = Inr t"
proof -
  obtain r db' where i: "Issue ascii_tables id False (Some ''abcdef'') 0 sample_opts [] = (r, db')" by (rule prod.exhaust)
  let ?t = "\<lparr>tk_Token = ''YWJjZGVm'', tk_Email = ''bob@corp.com'', tk_Domain = ''corp.com'', tk_IssuedAt = 0,
    tk_ExpiresAt = 15 * minute, tk_ConsumedAt = None\<rparr>"
  have "fst (Issue ascii_tables id False (Some ''abcdef'') 0 sample_opts []) = Inr ?t" by code_simp
  then have r: "r = Inr ?t" unfolding i by simp
  have "TrimSpace (tk_Token ?t) \<noteq> []" by code_simp
  then have "Get id False (tk_Token ?t) db' = Inr ?t" using issued_token_round_trip [OF i [unfolded r]] by blast
  then show ?thesis using i unfolding r by (intro exI [of _ ?t] exI [of _ db']) simp
qed

end
