(* ===== verification/Go_Json.thy ===== *)
theory Go_Json
  imports Go_Strings
begin

text \<open>
  What the audit chain uses of \<open>encoding/json\<close>: \<open>json.Marshal\<close> of an array of strings and 64-bit
  integers, with the default HTML escaping. The theory shows that the encoding is unambiguous:
  two arrays of valid UTF-8 strings and integers with the same text are the same array, element
  by element. Invalid UTF-8 is written as the escape of U+FFFD, so it is not covered, and
  \<open>json_string_invalid_collides\<close> shows why.
\<close>

section \<open>Strings\<close>

definition hex4 :: "nat \<Rightarrow> string" where
  "hex4 n = [hex_digit (n div 4096 mod 16), hex_digit (n div 256 mod 16), hex_digit (n div 16 mod 16), hex_digit (n mod 16)]"

text \<open>One ASCII byte of a JSON string.\<close>

definition json_ascii :: "char \<Rightarrow> string" where
  "json_ascii c =
     (if c = CHR 0x22 \<or> c = CHR 0x5C then [CHR 0x5C, c]
      else if byte c = 8 then [CHR 0x5C, CHR ''b'']
      else if byte c = 12 then [CHR 0x5C, CHR ''f'']
      else if byte c = 10 then [CHR 0x5C, CHR ''n'']
      else if byte c = 13 then [CHR 0x5C, CHR ''r'']
      else if byte c = 9 then [CHR 0x5C, CHR ''t'']
      else if byte c < 0x20 \<or> c = CHR ''<'' \<or> c = CHR ''>'' \<or> c = CHR ''&''
        then [CHR 0x5C, CHR ''u''] @ hex4 (byte c)
      else [c])"

text \<open>The escaped form of the first rune of a string: \<open>b\<close> are its bytes.\<close>

definition json_rune :: "rune \<Rightarrow> string \<Rightarrow> string" where
  "json_rune r b =
     (if length b = 1 \<and> byte (hd b) < 0x80 then json_ascii (hd b)
      else if length b = 1 then [CHR 0x5C, CHR ''u''] @ hex4 RuneError
      else if r = 0x2028 \<or> r = 0x2029 then [CHR 0x5C, CHR ''u''] @ hex4 r
      else b)"

function json_body :: "string \<Rightarrow> string" where
  "json_body s = (if s = [] then []
     else let (r, w) = decode_rune s in json_rune r (take w s) @ json_body (drop w s))"
  by pat_completeness auto
termination
proof (relation "measure length", goal_cases)
  case (2 s x r w)
  then have "1 \<le> w" "s \<noteq> []" using decode_width_pos [of s] by (metis snd_conv)+
  then show ?case by (cases s) auto
qed simp

declare json_body.simps [simp del, code del]

lemma json_body_code [code, simp]:
  "json_body [] = []"
  "json_body (a # s) = json_rune (fst (decode_rune (a # s))) (take (snd (decode_rune (a # s))) (a # s))
     @ json_body (drop (snd (decode_rune (a # s))) (a # s))"
  by (subst json_body.simps, simp add: case_prod_beta)+

definition json_string :: "string \<Rightarrow> string" where
  "json_string s = [CHR 0x22] @ json_body s @ [CHR 0x22]"

section \<open>Integers and arrays\<close>

fun dec_digits :: "nat \<Rightarrow> string" where
  "dec_digits n = (if n < 10 then [hex_digit n] else dec_digits (n div 10) @ [hex_digit (n mod 10)])"

declare dec_digits.simps [simp del]

definition json_int :: "int \<Rightarrow> string" where
  "json_int i = (if i < 0 then CHR ''-'' # dec_digits (nat (- i)) else dec_digits (nat i))"

datatype json_value = JStr string | JInt int

fun json_item :: "json_value \<Rightarrow> string" where
  "json_item (JStr s) = json_string s"
| "json_item (JInt i) = json_int i"

definition json_array :: "json_value list \<Rightarrow> string" where
  "json_array xs = ''['' @ Join (map json_item xs) '','' @ '']''"

section \<open>Unambiguity\<close>

lemma hex_digit_inj: "a < 16 \<Longrightarrow> b < 16 \<Longrightarrow> hex_digit a = hex_digit b \<Longrightarrow> a = b"
proof -
  have d: "distinct ''0123456789abcdef''" by code_simp
  show "a < 16 \<Longrightarrow> b < 16 \<Longrightarrow> hex_digit a = hex_digit b \<Longrightarrow> a = b"
    using nth_eq_iff_index_eq [OF d, of a b] by (simp add: hex_digit_def)
qed

lemma hex_digit_set: "n < 16 \<Longrightarrow> hex_digit n \<in> set ''0123456789abcdef''"
  unfolding hex_digit_def by (rule nth_mem) simp

lemma hex4_inj: "a < 65536 \<Longrightarrow> b < 65536 \<Longrightarrow> hex4 a = hex4 b \<Longrightarrow> a = b"
proof -
  assume ab: "a < 65536" "b < 65536" and h: "hex4 a = hex4 b"
  have d: "a div 4096 mod 16 = b div 4096 mod 16" "a div 256 mod 16 = b div 256 mod 16"
      "a div 16 mod 16 = b div 16 mod 16" "a mod 16 = b mod 16"
    using h by (auto simp: hex4_def intro: hex_digit_inj)
  have "n = 16 * (n div 16) + n mod 16" "n div 16 = 16 * (n div 256) + n div 16 mod 16"
      "n div 256 = 16 * (n div 4096) + n div 256 mod 16" for n :: nat
    using mult_div_mod_eq [of 16 n] mult_div_mod_eq [of 16 "n div 16"] mult_div_mod_eq [of 16 "n div 256"]
    by (simp_all add: div_mult2_eq [symmetric])
  moreover have "n < 65536 \<Longrightarrow> n div 4096 = n div 4096 mod 16" for n :: nat by simp
  ultimately show ?thesis using ab d by metis
qed

text \<open>A correctly decoded rune is the rune its bytes encode, and its width is that of its first byte.\<close>

lemma mod_split: "(x::nat) mod (a * b) = a * (x div a mod b) + x mod a"
  by (simp add: mod_mult2_eq)

lemma decode_block:
  assumes "decode_rune (a # s) = (r, w)" "(r, w) \<noteq> (RuneError, 1)"
  shows "take w (a # s) = encode_rune r"
    and "w = (if byte a < 0x80 then 1 else if byte a \<le> 0xDF then 2 else if byte a \<le> 0xEF then 3 else 4)"
    and "(r < 0x80 \<longleftrightarrow> byte a < 0x80) \<and> r \<le> 0x10FFFF"
proof -
  consider (one) "byte a < 0x80" | (two) "0xC2 \<le> byte a" "byte a \<le> 0xDF" | (three) "0xE0 \<le> byte a" "byte a \<le> 0xEF"
    | (four) "0xF0 \<le> byte a" "byte a \<le> 0xF4"
  proof -
    have "decode_rune (a # s) = (RuneError, 1)" if "\<not> byte a < 0x80" "\<not> (0xC2 \<le> byte a \<and> byte a \<le> 0xDF)"
        "\<not> (0xE0 \<le> byte a \<and> byte a \<le> 0xEF)" "\<not> (0xF0 \<le> byte a \<and> byte a \<le> 0xF4)"
      using that by (auto simp: Let_def)
    then show thesis using assms one two three four by metis
  qed
  then have "take w (a # s) = encode_rune r
    \<and> w = (if byte a < 0x80 then 1 else if byte a \<le> 0xDF then 2 else if byte a \<le> 0xEF then 3 else 4)
    \<and> (r < 0x80 \<longleftrightarrow> byte a < 0x80) \<and> r \<le> 0x10FFFF"
  proof cases
    case one
    then show ?thesis using assms by (auto simp: encode_rune_def)
  next
    case two
    then obtain b t where s: "s = b # t" "is_cont b" "r = (byte a mod 32) * 64 + byte b mod 64" "w = 2"
      using assms by (cases s) (auto simp: Let_def split: if_splits)
    obtain X B where v: "byte a = 192 + X" "byte b = 128 + B" "2 \<le> X" "X < 32" "B < 64"
      by (rule that [of "byte a - 192" "byte b - 128"]) (use two s(2) in \<open>auto simp: is_cont_def\<close>)
    have r: "r = X * 64 + B" using s(3) v by (simp add: mod_if)
    have q: "r div 64 = X" "r mod 64 = B" "0x80 \<le> r" "r < 0x800" using r v by (auto intro!: div_nat_eqI)
    have c: "to_byte (192 + X) = a" "to_byte (128 + B) = b" using v(1,2) by (metis char_of_char)+
    show ?thesis using s(1,4) two q c by (simp add: encode_rune_def)
  next
    case three
    have d: "decode_rune (a # s) = (case s of b # c # _ \<Rightarrow>
          if in_range (if byte a = 0xE0 then 0xA0 else 0x80) (if byte a = 0xED then 0x9F else 0xBF) b \<and> is_cont c
          then ((byte a mod 16) * 4096 + (byte b mod 64) * 64 + byte c mod 64, 3) else (RuneError, 1)
        | _ \<Rightarrow> (RuneError, 1))"
      using three by (simp add: Let_def)
    obtain b c t where s: "s = b # c # t" "is_cont c"
        "in_range (if byte a = 0xE0 then 0xA0 else 0x80) (if byte a = 0xED then 0x9F else 0xBF) b"
        "r = (byte a mod 16) * 4096 + (byte b mod 64) * 64 + byte c mod 64" "w = 3"
      using assms unfolding d by (cases s; cases "tl s") (auto split del: if_split split: if_split_asm)
    obtain X B C where v: "byte a = 224 + X" "byte b = 128 + B" "byte c = 128 + C" "X < 16" "B < 64" "C < 64"
        "X = 0 \<Longrightarrow> 32 \<le> B" "X = 13 \<Longrightarrow> B < 32"
      by (rule that [of "byte a - 224" "byte b - 128" "byte c - 128"])
        (use three s(2,3) in \<open>auto simp: is_cont_def in_range_def split: if_splits\<close>)
    have r: "r = X * 4096 + B * 64 + C" using s(4) v by (simp add: mod_if)
    have d1: "r div 4096 = X" "r div 64 = X * 64 + B" using r v(5,6) by (auto intro!: div_nat_eqI)
    have "r = C + (X * 64 + B) * 64" using r by simp
    then have m: "r mod 64 = C" using v(6) by (metis mod_less mod_mult_self1)
    have m2: "r div 64 mod 64 = B" using d1(2) v(5) by simp
    have lo: "0x800 \<le> r" using r v(7) by (cases "X = 0") auto
    have hi: "r < 0x10000" using r v(4-6) by simp
    have su: "\<not> (0xD800 \<le> r \<and> r \<le> 0xDFFF)"
    proof (cases "X = 13")
      case True
      then show ?thesis using r v(6,8) by simp
    next
      case False
      then have "X \<le> 12 \<or> 14 \<le> X" by auto
      then show ?thesis using r v(5,6) by auto
    qed
    note q = d1(1) m2 m lo hi su
    have c: "to_byte (224 + X) = a" "to_byte (128 + B) = b" "to_byte (128 + C) = c" using v(1-3) by (metis char_of_char)+
    show ?thesis using s(1,5) three q c by (auto simp: encode_rune_def)
  next
    case four
    have d: "decode_rune (a # s) = (case s of b # c # d # _ \<Rightarrow>
          if in_range (if byte a = 0xF0 then 0x90 else 0x80) (if byte a = 0xF4 then 0x8F else 0xBF) b
             \<and> is_cont c \<and> is_cont d
          then ((byte a mod 8) * 262144 + (byte b mod 64) * 4096 + (byte c mod 64) * 64 + byte d mod 64, 4)
          else (RuneError, 1)
        | _ \<Rightarrow> (RuneError, 1))"
      using four by (simp add: Let_def)
    obtain b c e t where s: "s = b # c # e # t" "is_cont c" "is_cont e"
        "in_range (if byte a = 0xF0 then 0x90 else 0x80) (if byte a = 0xF4 then 0x8F else 0xBF) b"
        "r = (byte a mod 8) * 262144 + (byte b mod 64) * 4096 + (byte c mod 64) * 64 + byte e mod 64" "w = 4"
      using assms unfolding d by (cases s; cases "tl s"; cases "tl (tl s)") (auto split del: if_split split: if_split_asm)
    obtain X B C E where v: "byte a = 240 + X" "byte b = 128 + B" "byte c = 128 + C" "byte e = 128 + E"
        "X < 5" "B < 64" "C < 64" "E < 64" "X = 0 \<Longrightarrow> 16 \<le> B" "X = 4 \<Longrightarrow> B < 16"
      by (rule that [of "byte a - 240" "byte b - 128" "byte c - 128" "byte e - 128"])
        (use four s(2-4) in \<open>auto simp: is_cont_def in_range_def split: if_splits\<close>)
    have r: "r = X * 262144 + B * 4096 + C * 64 + E" using s(5) v by (simp add: mod_if)
    have d1: "r div 262144 = X" "r div 4096 = X * 64 + B" "r div 64 = (X * 64 + B) * 64 + C"
      using r v(6-8) by (auto intro!: div_nat_eqI)
    have "r = E + ((X * 64 + B) * 64 + C) * 64" using r by simp
    then have m: "r mod 64 = E" using v(8) by (metis mod_less mod_mult_self1)
    have "r div 64 = C + (X * 64 + B) * 64" "r div 4096 = B + X * 64" using d1 by simp_all
    then have m2: "r div 4096 mod 64 = B" "r div 64 mod 64 = C" using v(6,7) by (metis mod_less mod_mult_self1)+
    have lo: "0x10000 \<le> r" using r v(9) by (cases "X = 0") auto
    have hi: "r \<le> 0x10FFFF" using r v(5-8,10) by (cases "X = 4") auto
    note q = d1(1) m2 m lo hi
    have c: "to_byte (240 + X) = a" "to_byte (128 + B) = b" "to_byte (128 + C) = c" "to_byte (128 + E) = e"
      using v(1-4) by (metis char_of_char)+
    show ?thesis using s(1,6) four q c by (simp add: encode_rune_def)
  qed
  then show "take w (a # s) = encode_rune r"
    and "w = (if byte a < 0x80 then 1 else if byte a \<le> 0xDF then 2 else if byte a \<le> 0xEF then 3 else 4)"
    and "(r < 0x80 \<longleftrightarrow> byte a < 0x80) \<and> r \<le> 0x10FFFF"
    by blast+
qed

definition short_escapes :: "(nat \<times> char) set" where
  "short_escapes = {(0x22, CHR 0x22), (0x5C, CHR 0x5C), (8, CHR ''b''), (12, CHR ''f''), (10, CHR ''n''),
     (13, CHR ''r''), (9, CHR ''t'')}"

lemma json_ascii_cases:
  obtains (raw) "json_ascii c = [c]" "c \<noteq> CHR 0x22" "c \<noteq> CHR 0x5C"
  | (short) e where "json_ascii c = [CHR 0x5C, e]" "e \<noteq> CHR ''u''"
      "(byte c, e) \<in> short_escapes"
  | (long) "json_ascii c = [CHR 0x5C, CHR ''u''] @ hex4 (byte c)" "byte c < 0x80"
proof -
  have "(json_ascii c = [c] \<and> c \<noteq> CHR 0x22 \<and> c \<noteq> CHR 0x5C)
    \<or> (\<exists>e. json_ascii c = [CHR 0x5C, e] \<and> e \<noteq> CHR ''u'' \<and> (byte c, e) \<in> short_escapes)
    \<or> (json_ascii c = [CHR 0x5C, CHR ''u''] @ hex4 (byte c) \<and> byte c < 0x80)"
    unfolding json_ascii_def short_escapes_def by auto
  then show thesis using raw short long by blast
qed

lemma json_ascii_prefix_free:
  assumes "json_ascii c @ x = json_ascii d @ y"
  shows "c = d \<and> x = y"
proof (cases rule: json_ascii_cases [of c])
  case raw
  then show ?thesis using assms by (cases rule: json_ascii_cases [of d]) auto
next
  case (short e)
  note c = this
  show ?thesis
  proof (cases rule: json_ascii_cases [of d])
    case (short e')
    then have e: "e = e'" "x = y" using assms c by simp_all
    have "(n, z) \<in> short_escapes \<Longrightarrow> (m, z) \<in> short_escapes \<Longrightarrow> n = m" for n m z
      by (auto simp: short_escapes_def)
    then have "byte c = byte d" using c(3) short(3) e(1) by blast
    then show ?thesis using e(2) by simp
  qed (use assms c in auto)
next
  case long
  note c = this
  show ?thesis
  proof (cases rule: json_ascii_cases [of d])
    case long
    then have "hex4 (byte c) = hex4 (byte d) \<and> x = y" using assms c by (simp add: hex4_def)
    then show ?thesis using hex4_inj [of "byte c" "byte d"] c long by (simp add: of_char_eq_iff)
  qed (use assms c in auto)
qed

lemma json_ascii_first: "byte c < 0x80 \<Longrightarrow> \<exists>e rest. json_ascii c = e # rest \<and> byte e < 0x80 \<and> e \<noteq> CHR 0x22"
  by (cases rule: json_ascii_cases [of c]) auto

lemma hex4_ascii_first: "byte c < 0x80 \<Longrightarrow> hd (hex4 (byte c)) = CHR ''0''"
  by (simp add: hex4_def hex_digit_def)

text \<open>The first rune of a valid string: its bytes \<open>b\<close>, and the text \<open>json_rune\<close> writes for them.\<close>

definition block :: "rune \<Rightarrow> string \<Rightarrow> bool" where
  "block r b \<longleftrightarrow> b = encode_rune r \<and> r \<le> 0x10FFFF \<and> b \<noteq> []
     \<and> length b = (if byte (hd b) < 0x80 then 1 else if byte (hd b) \<le> 0xDF then 2 else if byte (hd b) \<le> 0xEF then 3 else 4)"

lemma block_decode:
  assumes "decode_rune (a # s) = (r, w)" "(r, w) \<noteq> (RuneError, 1)"
  shows "block r (take w (a # s))"
proof -
  have "w \<le> length (a # s)" using decode_width_le [of "a # s"] assms(1) by simp
  moreover have "1 \<le> w" using decode_width_pos [of "a # s"] assms(1) by simp
  ultimately have "hd (take w (a # s)) = a" "length (take w (a # s)) = w" "take w (a # s) \<noteq> []"
    by (auto simp: take_Cons')
  then show ?thesis
    using decode_block [OF assms] unfolding block_def by metis
qed

lemma json_rune_block:
  assumes "block r b"
  obtains (ascii) c where "b = [c]" "byte c < 0x80" "json_rune r b = json_ascii c"
  | (sep) "b = encode_rune r" "r = 0x2028 \<or> r = 0x2029" "json_rune r b = [CHR 0x5C, CHR ''u''] @ hex4 r"
  | (raw) "0x80 \<le> byte (hd b)" "b \<noteq> []" "json_rune r b = b"
      "length b = (if byte (hd b) \<le> 0xDF then 2 else if byte (hd b) \<le> 0xEF then 3 else 4)"
proof (cases "byte (hd b) < 0x80")
  case True
  then obtain c where "b = [c]" using assms by (cases b) (auto simp: block_def split: if_splits)
  then show ?thesis using True ascii by (simp add: json_rune_def)
next
  case False
  then have "length b \<noteq> 1" using assms by (auto simp: block_def split: if_splits)
  then show ?thesis
    using False assms sep raw by (cases "r = 0x2028 \<or> r = 0x2029") (auto simp: json_rune_def block_def)
qed

lemma json_rune_first: "block r b \<Longrightarrow> \<exists>e rest. json_rune r b = e # rest \<and> e \<noteq> CHR 0x22"
proof (erule json_rune_block)
  fix c assume "byte c < 0x80" "json_rune r b = json_ascii c"
  then show ?thesis using json_ascii_first by fastforce
next
  assume "0x80 \<le> byte (hd b)" "b \<noteq> []" "json_rune r b = b"
  then show ?thesis by (cases b) auto
qed simp

lemma json_rune_prefix_free:
  assumes b: "block r b" and b': "block r' b'" and eq: "json_rune r b @ x = json_rune r' b' @ y"
  shows "b = b' \<and> x = y"
proof (cases rule: json_rune_block [OF b])
  case (1 c)
  note c = this
  show ?thesis
  proof (cases rule: json_rune_block [OF b'])
    case (1 d)
    then show ?thesis using eq c json_ascii_prefix_free [of c x d y] by simp
  next
    case 2
    note sep = this
    show ?thesis
    proof (cases rule: json_ascii_cases [of c])
      case long
      then have "hd (hex4 (byte c)) = hd (hex4 r')" using eq c sep by (simp add: hex4_def)
      then show ?thesis using hex4_ascii_first [OF c(2)] sep(2) by (auto simp: hex4_def hex_digit_def)
    qed (use eq c sep in auto)
  next
    case 3
    note raw = this
    obtain e rest where "json_ascii c = e # rest" "byte e < 0x80" using json_ascii_first [OF c(2)] by blast
    then show ?thesis using eq c raw by (cases b') auto
  qed
next
  case 2
  note c = this
  show ?thesis
  proof (cases rule: json_rune_block [OF b'])
    case (1 d)
    note ascii = this
    show ?thesis
    proof (cases rule: json_ascii_cases [of d])
      case long
      then have "hd (hex4 (byte d)) = hd (hex4 r)" using eq c ascii by (simp add: hex4_def)
      then show ?thesis using hex4_ascii_first [OF ascii(2)] c(2) by (auto simp: hex4_def hex_digit_def)
    qed (use eq c ascii in auto)
  next
    case 2
    note sep = this
    then have "hex4 r = hex4 r' \<and> x = y" using eq c by (simp add: hex4_def)
    then have "r = r' \<and> x = y" using hex4_inj [of r r'] c(2) sep(2) by auto
    then show ?thesis using c(1) sep(1) by simp
  next
    case 3
    then show ?thesis using eq c by (cases b') auto
  qed
next
  case 3
  note c = this
  show ?thesis
  proof (cases rule: json_rune_block [OF b'])
    case (1 d)
    note ascii = this
    obtain e rest where "json_ascii d = e # rest" "byte e < 0x80" using json_ascii_first [OF ascii(2)] by blast
    then show ?thesis using eq c ascii by (cases b) auto
  next
    case 2
    then show ?thesis using eq c by (cases b) auto
  next
    case 3
    note raw = this
    then have "hd b = hd b'" using eq c by (cases b; cases b') auto
    then have "length b = length b'" using c(4) raw(4) by simp
    then show ?thesis using eq c(3) raw(3) by simp
  qed
qed

lemma ValidString_Cons:
  "ValidString (a # s) \<longleftrightarrow> decode_rune (a # s) \<noteq> (RuneError, 1) \<and> ValidString (drop (snd (decode_rune (a # s))) (a # s))"
  by (subst ValidString.simps) simp

declare decode_rune.simps(2) [simp del]

text \<open>The body of a JSON string ends at its first unescaped quote, and determines the string.\<close>

lemma json_body_unambiguous:
  "ValidString s \<Longrightarrow> ValidString s' \<Longrightarrow> json_body s @ CHR 0x22 # x = json_body s' @ CHR 0x22 # y \<Longrightarrow> s = s' \<and> x = y"
proof (induction "length s" arbitrary: s s' rule: less_induct)
  case less
  have first: "\<exists>e rest. json_body t = e # rest \<and> e \<noteq> CHR 0x22" if ne: "t \<noteq> []" and val: "ValidString t" for t
  proof -
    obtain a u where t: "t = a # u" using ne by (cases t) auto
    obtain r w where d: "decode_rune (a # u) = (r, w)" by (cases "decode_rune (a # u)")
    then have "block r (take w (a # u))" using block_decode val t ValidString_Cons by auto
    then show ?thesis using json_rune_first t d by fastforce
  qed
  show ?case
  proof (cases s)
    case Nil
    have "s' = []"
    proof (rule ccontr)
      assume "s' \<noteq> []"
      then obtain e rest where "json_body s' = e # rest" "e \<noteq> CHR 0x22" using first less.prems(2) by blast
      then show False using less.prems(3) Nil by (simp del: json_body_code(2))
    qed
    then show ?thesis using less.prems(3) Nil by simp
  next
    case (Cons a t)
    note s = this
    have "s' \<noteq> []"
    proof
      assume n: "s' = []"
      obtain e rest where "json_body s = e # rest" "e \<noteq> CHR 0x22" using first [of s] less.prems(1) s by blast
      then show False using less.prems(3) n by (simp del: json_body_code(2))
    qed
    then obtain a' t' where s': "s' = a' # t'" by (cases s') auto
    obtain r w where d: "decode_rune (a # t) = (r, w)" by (cases "decode_rune (a # t)")
    obtain r' w' where d': "decode_rune (a' # t') = (r', w')" by (cases "decode_rune (a' # t')")
    have v: "block r (take w s)" "block r' (take w' s')" "ValidString (drop w s)" "ValidString (drop w' s')"
      using less.prems(1,2) s s' d d' block_decode [OF d] block_decode [OF d'] by (auto simp: ValidString_Cons)
    have e: "json_body s = json_rune r (take w s) @ json_body (drop w s)"
      "json_body s' = json_rune r' (take w' s') @ json_body (drop w' s')"
      using s s' d d' by simp_all
    have "json_rune r (take w s) @ (json_body (drop w s) @ CHR 0x22 # x)
        = json_rune r' (take w' s') @ (json_body (drop w' s') @ CHR 0x22 # y)"
      using less.prems(3) unfolding e by simp
    from json_rune_prefix_free [OF v(1,2) this]
    have b: "take w s = take w' s'" "json_body (drop w s) @ CHR 0x22 # x = json_body (drop w' s') @ CHR 0x22 # y"
      by auto
    have "1 \<le> w" using decode_width_pos [of "a # t"] d by simp
    then have "length (drop w s) < length s" using s by simp
    from less.hyps [OF this v(3,4) b(2)] b(1) show ?thesis by (metis append_take_drop_id)
  qed
qed

lemma json_string_unambiguous:
  "ValidString s \<Longrightarrow> ValidString s' \<Longrightarrow> json_string s @ x = json_string s' @ y \<Longrightarrow> s = s' \<and> x = y"
  using json_body_unambiguous [of s s' x y] by (simp add: json_string_def)

subsection \<open>Integers\<close>

fun undec :: "string \<Rightarrow> nat" where
  "undec s = fold (\<lambda>c n. n * 10 + (byte c - 48)) s 0"

lemma digit_value: "n < 10 \<Longrightarrow> byte (hex_digit n) - 48 = n \<and> 48 \<le> byte (hex_digit n) \<and> byte (hex_digit n) \<le> 57"
proof -
  have "\<forall>n\<in>set [0..<10]. byte (hex_digit n) - 48 = n \<and> 48 \<le> byte (hex_digit n) \<and> byte (hex_digit n) \<le> 57"
    by code_simp
  then show "n < 10 \<Longrightarrow> byte (hex_digit n) - 48 = n \<and> 48 \<le> byte (hex_digit n) \<and> byte (hex_digit n) \<le> 57" by simp
qed

lemma undec_dec: "undec (dec_digits n) = n"
proof (induction n rule: dec_digits.induct)
  case (1 n)
  then show ?case using digit_value by (subst dec_digits.simps) auto
qed

lemma dec_digits_chars: "c \<in> set (dec_digits n) \<Longrightarrow> 48 \<le> byte c \<and> byte c \<le> 57"
proof (induction n rule: dec_digits.induct)
  case (1 n)
  have "dec_digits n = (if n < 10 then [hex_digit n] else dec_digits (n div 10) @ [hex_digit (n mod 10)])"
    by (rule dec_digits.simps)
  with 1 show ?case using digit_value [of n] digit_value [of "n mod 10"] by (auto split: if_splits)
qed

lemma dec_digits_nonempty: "dec_digits n \<noteq> []"
  by (subst dec_digits.simps) simp

lemma json_int_chars: "c \<in> set (json_int i) \<Longrightarrow> c = CHR ''-'' \<or> (48 \<le> byte c \<and> byte c \<le> 57)"
  using dec_digits_chars by (auto simp: json_int_def split: if_splits)

lemma json_int_inj: "json_int i = json_int j \<Longrightarrow> i = j"
proof -
  assume e: "json_int i = json_int j"
  have n: "hd (dec_digits k) \<noteq> CHR ''-''" for k
    using dec_digits_chars [of "hd (dec_digits k)" k] dec_digits_nonempty [of k] by auto
  have "(i < 0) = (j < 0)" using e n by (auto simp: json_int_def split: if_splits) (metis list.sel(1))+
  moreover have "nat \<bar>i\<bar> = nat \<bar>j\<bar>"
    using e calculation undec_dec by (auto simp: json_int_def split: if_splits) (metis undec_dec)+
  ultimately show ?thesis by (auto split: if_splits)
qed

definition int_char :: "char \<Rightarrow> bool" where
  "int_char c \<longleftrightarrow> c = CHR ''-'' \<or> (48 \<le> byte c \<and> byte c \<le> 57)"

lemma json_int_unambiguous:
  assumes "json_int i @ c # x = json_int j @ d # y" "\<not> int_char c" "\<not> int_char d"
  shows "i = j \<and> c # x = d # y"
proof -
  have t: "takeWhile int_char (json_int k @ e # z) = json_int k" if "\<not> int_char e" for k e z
    using json_int_chars [of _ k] that by (simp add: int_char_def takeWhile_append2)
  have "json_int i = json_int j" using t [OF assms(2), of i x] t [OF assms(3), of j y] assms(1) by simp
  then show ?thesis using assms(1) json_int_inj by simp
qed

subsection \<open>Arrays\<close>

fun valid_item :: "json_value \<Rightarrow> bool" where
  "valid_item (JStr s) = ValidString s"
| "valid_item (JInt i) = True"

text \<open>An item followed by a separator or the closing bracket.\<close>

lemma json_item_unambiguous:
  assumes "valid_item v" "valid_item v'" "json_item v @ c # x = json_item v' @ d # y"
    and "c \<in> {CHR '','', CHR '']''}" "d \<in> {CHR '','', CHR '']''}"
  shows "v = v' \<and> c # x = d # y"
proof -
  have n: "\<not> int_char c" "\<not> int_char d" "\<not> int_char CHR 0x22" using assms(4,5) by (auto simp: int_char_def)
  have f: "int_char (hd (json_int i))" "json_int i \<noteq> []" for i
    using json_int_chars [of "hd (json_int i)" i] dec_digits_nonempty by (auto simp: json_int_def int_char_def)
  have hint: "json_string s @ u = json_int i @ w \<Longrightarrow> False" for s u i w
    using f [of i] n(3) by (cases "json_int i") (auto simp: json_string_def)
  show ?thesis
  proof (cases v)
    case (JStr s)
    note v = this
    show ?thesis
    proof (cases v')
      case (JStr s')
      then show ?thesis using assms(1-3) v json_string_unambiguous [of s s' "c # x" "d # y"] by simp
    next
      case (JInt j)
      then show ?thesis using hint [of s "c # x" j "d # y"] assms(3) v by simp
    qed
  next
    case (JInt i)
    note v = this
    show ?thesis
    proof (cases v')
      case (JStr s')
      then show ?thesis using hint [of s' "d # y" i "c # x"] assms(3) v by simp
    next
      case (JInt j)
      then show ?thesis using json_int_unambiguous [of i c x j d y] assms(3) v n by simp
    qed
  qed
qed

definition json_tail :: "json_value list \<Rightarrow> string" where
  "json_tail xs = concat (map (\<lambda>x. CHR '','' # json_item x) xs) @ '']''"

lemma json_array_Cons: "json_array (x # xs) = CHR ''['' # json_item x @ json_tail xs"
proof -
  have "Join (map json_item (x # xs)) '','' = json_item x @ concat (map (\<lambda>x. CHR '','' # json_item x) xs)"
    by (induction xs arbitrary: x) auto
  then show ?thesis by (simp add: json_array_def json_tail_def)
qed

lemma json_tail_first: "\<exists>c r. json_tail xs = c # r \<and> c \<in> {CHR '','', CHR '']''}"
  by (cases xs) (auto simp: json_tail_def)

lemma json_tail_unambiguous:
  "\<forall>v\<in>set xs. valid_item v \<Longrightarrow> \<forall>v\<in>set ys. valid_item v \<Longrightarrow> json_tail xs @ u = json_tail ys @ w \<Longrightarrow> xs = ys \<and> u = w"
proof (induction xs arbitrary: ys)
  case Nil
  then show ?case by (cases ys) (auto simp: json_tail_def)
next
  case (Cons x xs)
  then obtain y ys' where ys: "ys = y # ys'" by (cases ys) (auto simp: json_tail_def)
  have e: "json_item x @ json_tail xs @ u = json_item y @ json_tail ys' @ w"
    using Cons.prems(3) ys by (simp add: json_tail_def)
  obtain c r where c: "json_tail xs = c # r" "c \<in> {CHR '','', CHR '']''}" using json_tail_first by blast
  obtain d q where d: "json_tail ys' = d # q" "d \<in> {CHR '','', CHR '']''}" using json_tail_first by blast
  have "x = y \<and> c # r @ u = d # q @ w"
    using json_item_unambiguous [of x y c "r @ u" d "q @ w"] e c d Cons.prems(1,2) ys by simp
  moreover from this have "json_tail xs @ u = json_tail ys' @ w" using c d by simp
  ultimately show ?case using Cons.IH [of ys'] Cons.prems(1,2) ys by auto
qed

lemma json_array_inj:
  assumes "\<forall>v\<in>set xs. valid_item v" "\<forall>v\<in>set ys. valid_item v" "xs \<noteq> []" "ys \<noteq> []"
    "json_array xs = json_array ys"
  shows "xs = ys"
proof -
  have "json_tail xs = CHR '','' # tl (json_array xs)" if "xs \<noteq> []" for xs
    using that by (cases xs) (simp_all add: json_array_Cons json_tail_def)
  then have "json_tail xs = json_tail ys" using assms(3-5) by simp
  then show ?thesis using json_tail_unambiguous [of xs ys "[]" "[]"] assms(1,2) by simp
qed

text \<open>Invalid UTF-8 is not told apart: both bytes are written as the escape of U+FFFD.\<close>

lemma json_string_invalid_collides: "json_string [CHR 0xFF] = json_string [CHR 0xFE]"
  by code_simp

end
