(* ===== verification/Audit_Log.thy ===== *)
theory Audit_Log
  imports Go_Json
begin

text \<open>
  \<open>internal/audit/audit.go\<close>: the keyed, hash-chained audit log.

  The state is what the package reads and writes: the rows of \<open>audit_log\<close> in sequence order, the
  sequence allocator, the one row of \<open>audit_head\<close> and the process's high-water mark. HMAC-SHA256
  under the chain key, SHA-256 and the RFC 3339 formatting of an instant are fields of \<open>audit_env\<close>;
  what the theorems need of them (a MAC is never empty, no two messages share one) are named
  hypotheses. Every operation takes the statements the driver fails; a failed transaction leaves
  the tables unchanged. \<open>Append\<close> takes the gap the allocator leaves (Postgres burns values).
  The tables are arbitrary in the definitions, so they describe a tampered database as well.
\<close>

section \<open>Data\<close>

record audit_env =
  ae_key :: bool
  ae_hmac :: "string \<Rightarrow> string"
  ae_sha :: "string \<Rightarrow> string"
  ae_fmt :: "time \<Rightarrow> string"

record arow =
  a_seq :: int
  a_occurred :: "time option"
  a_event :: string
  a_actor :: string
  a_target :: string
  a_details :: string
  a_prev :: string
  a_hash :: string

record head =
  h_present :: bool
  h_legacyUntil :: int
  h_seq :: int
  h_hash :: string
  h_broken :: int
  h_mac :: string
  h_baseSeq :: int
  h_baseHash :: string

record audit =
  al_rows :: "arow list"
  al_next :: int
  al_head :: head
  al_floor :: int

type_synonym tail = "int \<times> string"

datatype audit_err = ErrEventType | ErrNoKey | ErrJson | ErrDriver | ErrChainBroken int

datatype audit_stmt = Begin | ReadHead | ReadTail | ReadRows | ReadBoundary | InsertRow | SetHash | WriteHead | DeleteRows | Commit

section \<open>Canonical forms and MACs\<close>

abbreviation entryTag :: string where "entryTag \<equiv> ''sealkeeper-audit-entry-v2''"
abbreviation headTag :: string where "headTag \<equiv> ''sealkeeper-audit-head-v1''"
abbreviation headTagV2 :: string where "headTagV2 \<equiv> ''sealkeeper-audit-head-v2''"

definition canonicalV2 :: "audit_env \<Rightarrow> int \<Rightarrow> time \<Rightarrow> string \<Rightarrow> string \<Rightarrow> string \<Rightarrow> string \<Rightarrow> string" where
  "canonicalV2 E seq occurred eventType actor target details =
     json_array [JStr entryTag, JInt seq, JStr (ae_fmt E occurred), JStr eventType, JStr actor, JStr target, JStr details]"

definition canonicalize :: "audit_env \<Rightarrow> string \<Rightarrow> string \<Rightarrow> string \<Rightarrow> string \<Rightarrow> time \<Rightarrow> string" where
  "canonicalize E eventType actor target details occurred =
     ae_fmt E occurred @ [CHR 0x0A] @ eventType @ [CHR 0x0A] @ actor @ [CHR 0x0A] @ target @ [CHR 0x0A] @ details"

definition chainHash :: "audit_env \<Rightarrow> string \<Rightarrow> string \<Rightarrow> string" where
  "chainHash E prev canonical = hex (ae_sha E (prev @ [CHR 0x0A] @ canonical))"

definition entryMAC :: "audit_env \<Rightarrow> string \<Rightarrow> string \<Rightarrow> string" where
  "entryMAC E prev canonical = hex (ae_hmac E (prev @ canonical))"

definition head_fields :: "head \<Rightarrow> json_value list" where
  "head_fields h =
     (if h_baseSeq h \<noteq> 0 \<or> h_baseHash h \<noteq> [] then
        [JStr headTagV2, JInt (h_legacyUntil h), JInt (h_seq h), JStr (h_hash h), JInt (h_broken h),
         JInt (h_baseSeq h), JStr (h_baseHash h)]
      else [JStr headTag, JInt (h_legacyUntil h), JInt (h_seq h), JStr (h_hash h), JInt (h_broken h)])"

definition headMAC :: "audit_env \<Rightarrow> head \<Rightarrow> string" where
  "headMAC E h = hex (ae_hmac E (json_array (head_fields h)))"

definition headValid :: "audit_env \<Rightarrow> head \<Rightarrow> bool" where
  "headValid E h \<longleftrightarrow> h_present h \<and> h_mac h \<noteq> [] \<and> h_mac h = headMAC E h"

section \<open>Reading and writing the anchor\<close>

definition empty_head :: head where
  "empty_head = \<lparr>h_present = False, h_legacyUntil = 0, h_seq = 0, h_hash = [], h_broken = 0, h_mac = [],
     h_baseSeq = 0, h_baseHash = []\<rparr>"

text \<open>\<open>readHeadCols\<close>: a missing row reads as the zero head; before migration 0017 there is no base.\<close>

definition readHeadCols :: "bool \<Rightarrow> audit \<Rightarrow> head" where
  "readHeadCols withBase s =
     (if \<not> h_present (al_head s) then empty_head
      else if withBase then al_head s else (al_head s)\<lparr>h_baseSeq := 0, h_baseHash := []\<rparr>)"

abbreviation readHead :: "audit \<Rightarrow> head" where "readHead \<equiv> readHeadCols True"

definition readTail :: "audit \<Rightarrow> tail" where
  "readTail s = (if al_rows s = [] then (0, []) else (a_seq (last (al_rows s)), a_hash (last (al_rows s))))"

text \<open>\<open>writeHead\<close>: stores the anchor with its MAC, re-creating the row when it is missing.\<close>

definition writeHead :: "audit_env \<Rightarrow> head \<Rightarrow> audit \<Rightarrow> audit" where
  "writeHead E h s = s\<lparr>al_head := h\<lparr>h_present := True, h_mac := headMAC E h\<rparr>\<rparr>"

definition raiseFloor :: "int \<Rightarrow> audit \<Rightarrow> audit" where
  "raiseFloor seq s = (if seq \<le> al_floor s then s else s\<lparr>al_floor := seq\<rparr>)"

definition observe :: "audit_env \<Rightarrow> head \<Rightarrow> audit \<Rightarrow> audit" where
  "observe E h s = (if headValid E h then raiseFloor (h_seq h) s else s)"

definition anchorBreak :: "audit_env \<Rightarrow> head \<Rightarrow> tail \<Rightarrow> int \<Rightarrow> bool \<Rightarrow> int" where
  "anchorBreak E h t floor allowUnsealedLegacy =
     (if \<not> h_present h then (if fst t = 0 then 0 else 1)
      else if h_mac h = [] then
        (if fst t = 0 then 0
         else if fst t > h_legacyUntil h then h_legacyUntil h + 1
         else if allowUnsealedLegacy then 0 else 1)
      else if \<not> headValid E h then max (h_seq h) 1
      else if h_seq h < floor then h_seq h + 1
      else if fst t < h_seq h then fst t + 1
      else if fst t > h_seq h then h_seq h + 1
      else if snd t \<noteq> h_hash h then max (fst t) 1
      else 0)"

section \<open>Appending and sealing\<close>

definition MaxFieldBytes :: nat where "MaxFieldBytes = 2048"

text \<open>\<open>strings.ToValidUTF8(s, "")\<close>: every byte that is not part of a valid rune is dropped.\<close>

function to_valid :: "string \<Rightarrow> string" where
  "to_valid s = (if s = [] then []
     else let (r, w) = decode_rune s
          in (if (r, w) = (RuneError, 1) then [] else take w s) @ to_valid (drop w s))"
  by pat_completeness auto
termination
proof (relation "measure length", goal_cases)
  case (2 s x r w)
  then have w: "w = snd (decode_rune s)" "s \<noteq> []" by (auto simp: prod_eq_iff)
  then have "1 \<le> w" using decode_width_pos [of s] by simp
  then show ?case using w(2) by (cases s) auto
qed simp

declare to_valid.simps [simp del, code del]

lemma to_valid_code [code]:
  "to_valid [] = []"
  "to_valid (a # s) = (if decode_rune (a # s) = (RuneError, 1) then [] else take (snd (decode_rune (a # s))) (a # s))
     @ to_valid (drop (snd (decode_rune (a # s))) (a # s))"
  by (subst to_valid.simps, simp add: case_prod_beta prod_eq_iff)+

definition clipField :: "string \<Rightarrow> string" where
  "clipField s = (if length s \<le> MaxFieldBytes then s else to_valid (take MaxFieldBytes s))"

text \<open>The row goes to its place in sequence order.\<close>

definition insert_row :: "arow \<Rightarrow> arow list \<Rightarrow> arow list" where
  "insert_row r rs = filter (\<lambda>x. a_seq x < a_seq r) rs @ [r] @ filter (\<lambda>x. a_seq x > a_seq r) rs"

text \<open>\<open>Append\<close>; \<open>details\<close> is what \<open>canonicalJSON\<close> made of the details, \<open>None\<close> when it failed. The INSERT
  also fails when the allocated number is taken.\<close>

definition Append ::
  "audit_env \<Rightarrow> audit_stmt faults \<Rightarrow> nat \<Rightarrow> time \<Rightarrow> string \<Rightarrow> string \<Rightarrow> string \<Rightarrow> string option \<Rightarrow> audit
     \<Rightarrow> (audit_err + arow) \<times> audit" where
  "Append E faults gap clock eventType actor target details s =
     (if TrimSpace eventType = [] then (Inl ErrEventType, s)
      else if \<not> ae_key E then (Inl ErrNoKey, s)
      else let actor = clipField actor; target = clipField target
      in case details of
        None \<Rightarrow> (Inl ErrJson, s)
      | Some detailsJSON \<Rightarrow>
          let now = clock - clock mod 1000
          in if faults Begin \<or> faults ReadHead \<or> faults ReadTail then (Inl ErrDriver, s)
          else
            let h = readHead s; t = readTail s;
                broken = (if headValid E h \<and> h_broken h \<noteq> 0 then h_broken h
                          else anchorBreak E h t (al_floor s) False);
                seq = al_next s + int gap;
                entryHash = entryMAC E (snd t) (canonicalV2 E seq now eventType actor target detailsJSON);
                row = \<lparr>a_seq = seq, a_occurred = Some now, a_event = eventType, a_actor = actor,
                       a_target = target, a_details = detailsJSON, a_prev = snd t, a_hash = entryHash\<rparr>;
                next = \<lparr>h_present = True, h_legacyUntil = h_legacyUntil h, h_seq = seq, h_hash = entryHash,
                        h_broken = broken, h_mac = [], h_baseSeq = h_baseSeq h, h_baseHash = h_baseHash h\<rparr>
            in if faults InsertRow \<or> seq \<in> a_seq ` set (al_rows s) \<or> faults SetHash \<or> faults WriteHead \<or> faults Commit
               then (Inl ErrDriver, s)
               else (Inr row, raiseFloor seq
                      (writeHead E next (s\<lparr>al_rows := insert_row row (al_rows s), al_next := seq + 1\<rparr>))))"

text \<open>\<open>sealTx\<close>: the sequence it sealed and the state, or a failure.\<close>

definition sealTx :: "audit_env \<Rightarrow> audit_stmt faults \<Rightarrow> bool \<Rightarrow> bool \<Rightarrow> audit \<Rightarrow> audit_err + (int \<times> audit)" where
  "sealTx E faults legacyMigrated withBase s =
     (if faults ReadHead then Inl ErrDriver
      else let h = readHeadCols withBase s
      in if h_present h \<and> h_mac h \<noteq> [] then Inr (0, observe E h s)
      else if faults ReadTail then Inl ErrDriver
      else let t = readTail s;
               next = \<lparr>h_present = True, h_legacyUntil = h_legacyUntil h, h_seq = fst t, h_hash = snd t,
                       h_broken = anchorBreak E h t 0 legacyMigrated, h_mac = [],
                       h_baseSeq = h_baseSeq h, h_baseHash = h_baseHash h\<rparr>
      in if faults WriteHead then Inl ErrDriver else Inr (fst t, writeHead E next s))"

definition SealAnchor :: "audit_env \<Rightarrow> audit_stmt faults \<Rightarrow> bool \<Rightarrow> audit \<Rightarrow> audit_err option \<times> audit" where
  "SealAnchor E faults legacyMigrated s =
     (if \<not> ae_key E then (Some ErrNoKey, s)
      else if faults Begin then (Some ErrDriver, s)
      else case sealTx E faults legacyMigrated True s of
        Inl e \<Rightarrow> (Some e, s)
      | Inr (sealed, s') \<Rightarrow>
          if faults Commit then (Some ErrDriver, s\<lparr>al_floor := al_floor s'\<rparr>)
          else (None, raiseFloor sealed s'))"

text \<open>\<open>SealCutover\<close>, inside the transaction of migration 0014; the caller commits.\<close>

definition SealCutover :: "audit_env \<Rightarrow> audit_stmt faults \<Rightarrow> audit \<Rightarrow> audit_err option \<times> audit" where
  "SealCutover E faults s =
     (if \<not> ae_key E then (Some ErrNoKey, s)
      else if faults Begin then (Some ErrDriver, s)
      else case sealTx E faults True False s of
        Inl e \<Rightarrow> (Some e, s)
      | Inr (sealed, s') \<Rightarrow> (None, raiseFloor sealed s'))"

section \<open>Verifying and pruning\<close>

definition rowValid :: "audit_env \<Rightarrow> arow \<Rightarrow> string \<Rightarrow> int \<Rightarrow> bool" where
  "rowValid E r previous legacyUntil =
     (if a_prev r \<noteq> previous then False
      else case a_occurred r of
        None \<Rightarrow> False
      | Some ts \<Rightarrow>
          a_hash r =
            (if a_seq r \<le> legacyUntil
             then chainHash E (a_prev r) (canonicalize E (a_event r) (a_actor r) (a_target r) (a_details r) ts)
             else entryMAC E (a_prev r) (canonicalV2 E (a_seq r) ts (a_event r) (a_actor r) (a_target r) (a_details r))))"

fun verify_loop :: "audit_env \<Rightarrow> int \<Rightarrow> int \<Rightarrow> tail \<Rightarrow> arow list \<Rightarrow> int \<times> tail" where
  "verify_loop E legacyUntil bad lst [] = (bad, lst)"
| "verify_loop E legacyUntil bad lst (r # rs) =
     verify_loop E legacyUntil
       (if bad = 0 \<and> \<not> rowValid E r (snd lst) legacyUntil then a_seq r else bad) (a_seq r, a_hash r) rs"

definition verifyRows :: "audit_env \<Rightarrow> head \<Rightarrow> audit \<Rightarrow> int \<times> tail" where
  "verifyRows E h s =
     verify_loop E (h_legacyUntil h) 0 (if headValid E h then (h_baseSeq h, h_baseHash h) else (0, [])) (al_rows s)"

definition verifyTx :: "audit_env \<Rightarrow> head \<Rightarrow> int \<Rightarrow> audit \<Rightarrow> int \<times> audit" where
  "verifyTx E h floor s =
     (let (rowBad, t) = verifyRows E h s;
          s' = observe E h s;
          a = anchorBreak E h t floor False;
          anchorBad = (if headValid E h \<and> h_broken h \<noteq> 0 \<and> (a = 0 \<or> h_broken h < a) then h_broken h else a)
      in (if rowBad = 0 then anchorBad
          else if anchorBad = 0 \<or> rowBad < anchorBad then rowBad
          else anchorBad, s'))"

definition VerifyChain :: "audit_env \<Rightarrow> audit_stmt faults \<Rightarrow> audit \<Rightarrow> (audit_err + int) \<times> audit" where
  "VerifyChain E faults s =
     (if \<not> ae_key E then (Inl ErrNoKey, s)
      else if faults Begin \<or> faults ReadHead \<or> faults ReadRows then (Inl ErrDriver, s)
      else let (bad, s') = verifyTx E (readHead s) (al_floor s) s in (Inr bad, s'))"

text \<open>\<open>pruneBoundary\<close>: the leading run of due rows before the head row, and its last row.\<close>

definition due :: "time \<Rightarrow> int \<Rightarrow> arow \<Rightarrow> bool" where
  "due cutoff headSeq r \<longleftrightarrow> (case a_occurred r of None \<Rightarrow> False | Some ts \<Rightarrow> a_seq r < headSeq \<and> ts < cutoff)"

definition pruneBoundary :: "time \<Rightarrow> int \<Rightarrow> audit \<Rightarrow> tail" where
  "pruneBoundary cutoff headSeq s =
     (let run = takeWhile (due cutoff headSeq) (al_rows s)
      in if run = [] then (0, []) else (a_seq (last run), a_hash (last run)))"

definition Prune :: "audit_env \<Rightarrow> audit_stmt faults \<Rightarrow> time \<Rightarrow> audit \<Rightarrow> (audit_err + nat) \<times> audit" where
  "Prune E faults cutoff s =
     (if \<not> ae_key E then (Inl ErrNoKey, s)
      else if faults Begin \<or> faults ReadHead \<or> faults ReadRows then (Inl ErrDriver, s)
      else
        let h = readHead s; (bad, s1) = verifyTx E h (al_floor s) s
        in if bad \<noteq> 0 then (Inl (ErrChainBroken bad), s1)
        else if faults ReadBoundary then (Inl ErrDriver, s1)
        else let base = pruneBoundary cutoff (h_seq h) s1
        in if fst base = 0 then (Inr 0, s1)
        else if faults DeleteRows \<or> faults WriteHead \<or> faults Commit then (Inl ErrDriver, s1)
        else
          let gone = filter (\<lambda>r. a_seq r \<le> fst base) (al_rows s1);
              kept = filter (\<lambda>r. \<not> a_seq r \<le> fst base) (al_rows s1)
          in (Inr (length gone),
              writeHead E (h\<lparr>h_baseSeq := fst base, h_baseHash := snd base\<rparr>) (s1\<lparr>al_rows := kept\<rparr>)))"

definition Count :: "bool \<Rightarrow> audit \<Rightarrow> audit_err + nat" where
  "Count fault s = (if fault then Inl ErrDriver else Inr (length (al_rows s)))"

section \<open>The chain\<close>

text \<open>The specification of \<open>verifyRows\<close>: each row is valid after the one before it.\<close>

fun chain :: "audit_env \<Rightarrow> int \<Rightarrow> string \<Rightarrow> arow list \<Rightarrow> bool" where
  "chain E legacyUntil prev [] = True"
| "chain E legacyUntil prev (r # rs) = (rowValid E r prev legacyUntil \<and> chain E legacyUntil (a_hash r) rs)"

definition end_hash :: "string \<Rightarrow> arow list \<Rightarrow> string" where
  "end_hash prev rs = (if rs = [] then prev else a_hash (last rs))"

lemma end_hash_simps [simp]:
  "end_hash p [] = p" "end_hash p (r # rs) = end_hash (a_hash r) rs" "end_hash p (rs @ [r]) = a_hash r"
  by (auto simp: end_hash_def)

lemma chain_append: "chain E L p (xs @ ys) \<longleftrightarrow> chain E L p xs \<and> chain E L (end_hash p xs) ys"
  by (induction xs arbitrary: p) auto

lemma verify_loop_bad: "bad \<noteq> 0 \<Longrightarrow> fst (verify_loop E L bad lst rs) = bad"
  by (induction rs arbitrary: lst) auto

lemma verify_loop_tail:
  "snd (verify_loop E L bad lst rs) = (if rs = [] then lst else (a_seq (last rs), a_hash (last rs)))"
  by (induction rs arbitrary: bad lst) auto

lemma verify_loop_chain:
  "\<forall>r\<in>set rs. a_seq r \<noteq> 0 \<Longrightarrow> fst (verify_loop E L 0 lst rs) = 0 \<longleftrightarrow> chain E L (snd lst) rs"
  by (induction rs arbitrary: lst) (auto simp: verify_loop_bad)

lemma hex_Nil [simp]: "hex s = [] \<longleftrightarrow> s = []"
  by (auto simp: hex_def)

lemma hex_chars: "c \<in> set (hex s) \<Longrightarrow> c \<in> set ''0123456789abcdef''"
proof -
  have b: "byte x < 256" for x using of_char_mod_256 [of x] by (metis mod_less_divisor zero_less_numeral)
  have "hex_digit (byte x div 16) \<in> set ''0123456789abcdef''" "hex_digit (byte x mod 16) \<in> set ''0123456789abcdef''" for x
    using b [of x] by (auto intro!: hex_digit_set simp del: set_simps simp add: div_less_iff_less_mult)
  then show "c \<in> set (hex s) \<Longrightarrow> c \<in> set ''0123456789abcdef''" unfolding hex_def by auto
qed

lemma hex_inj: "hex s = hex t \<Longrightarrow> s = t"
proof (induction s arbitrary: t)
  case Nil
  then show ?case by (metis hex_Nil)
next
  case (Cons a s)
  then obtain b u where t: "t = b # u" by (cases t) (auto simp: hex_def)
  have lt: "byte x < 256" for x using of_char_mod_256 [of x] by (metis mod_less_divisor zero_less_numeral)
  have "hex_digit (byte a div 16) = hex_digit (byte b div 16)" "hex_digit (byte a mod 16) = hex_digit (byte b mod 16)"
      "hex s = hex u"
    using Cons.prems t by (auto simp: hex_def)
  moreover have "byte x div 16 < 16" "byte x mod 16 < 16" for x using lt [of x] by (auto simp: div_less_iff_less_mult)
  ultimately have "byte a div 16 = byte b div 16" "byte a mod 16 = byte b mod 16" "s = u"
    using hex_digit_inj Cons.IH by blast+
  then have "byte a = byte b" by (metis mult_div_mod_eq)
  with \<open>s = u\<close> show ?case using t by simp
qed

section \<open>What the anchor binds\<close>

text \<open>The hypotheses on the primitives: MACs are not empty and do not collide (HMAC-SHA256,
  idealised), instants have distinct and valid texts.\<close>

definition crypto_ok :: "audit_env \<Rightarrow> bool" where
  "crypto_ok E \<longleftrightarrow> (\<forall>m. ae_hmac E m \<noteq> [])"

definition crypto_binding :: "audit_env \<Rightarrow> bool" where
  "crypto_binding E \<longleftrightarrow> crypto_ok E \<and> inj (ae_hmac E) \<and> inj (ae_fmt E) \<and> (\<forall>t. ValidString (ae_fmt E t))"

definition utf8_row :: "arow \<Rightarrow> bool" where
  "utf8_row r \<longleftrightarrow> ValidString (a_event r) \<and> ValidString (a_actor r) \<and> ValidString (a_target r) \<and> ValidString (a_details r)"

lemma canonicalV2_inj:
  assumes "crypto_binding E" "ValidString e" "ValidString a" "ValidString g" "ValidString d"
    "ValidString e'" "ValidString a'" "ValidString g'" "ValidString d'"
    "canonicalV2 E n t e a g d = canonicalV2 E n' t' e' a' g' d'"
  shows "n = n' \<and> t = t' \<and> e = e' \<and> a = a' \<and> g = g' \<and> d = d'"
proof -
  have tag: "ValidString entryTag" by code_simp
  have f: "\<And>t. ValidString (ae_fmt E t)" "inj (ae_fmt E)" using assms(1) by (auto simp: crypto_binding_def)
  have "[JStr entryTag, JInt n, JStr (ae_fmt E t), JStr e, JStr a, JStr g, JStr d]
      = [JStr entryTag, JInt n', JStr (ae_fmt E t'), JStr e', JStr a', JStr g', JStr d']"
    by (rule json_array_inj) (use assms(2-) tag f(1) in \<open>auto simp: canonicalV2_def\<close>)
  then show ?thesis using f(2) by (auto dest: injD)
qed

lemma prefix_before_bracket:
  assumes "CHR ''['' \<notin> set p" "CHR ''['' \<notin> set q" "p @ CHR ''['' # x = q @ CHR ''['' # y"
  shows "p = q \<and> x = y"
proof -
  have t: "takeWhile (\<lambda>c. c \<noteq> CHR ''['') (r @ CHR ''['' # z) = r" if "CHR ''['' \<notin> set r" for r z :: string
    using that by (induction r) auto
  have "p = q" using t [OF assms(1), of x] t [OF assms(2), of y] assms(3) by simp
  then show ?thesis using assms(3) by simp
qed

lemma canonicalV2_bracket: "\<exists>x. canonicalV2 E n t e a g d = CHR ''['' # x"
  by (simp add: canonicalV2_def json_array_def)

lemma keyed_row_bound:
  assumes "crypto_binding E" "rowValid E r p L" "rowValid E r' p' L" "L < a_seq r" "L < a_seq r'"
    "utf8_row r" "utf8_row r'" "CHR ''['' \<notin> set p" "CHR ''['' \<notin> set p'" "a_hash r = a_hash r'"
  shows "r = r' \<and> p = p'"
proof -
  obtain t where t: "a_occurred r = Some t" "a_prev r = p"
      "a_hash r = entryMAC E p (canonicalV2 E (a_seq r) t (a_event r) (a_actor r) (a_target r) (a_details r))"
    using assms(2,4) by (auto simp: rowValid_def split: if_splits option.splits)
  obtain t' where t': "a_occurred r' = Some t'" "a_prev r' = p'"
      "a_hash r' = entryMAC E p' (canonicalV2 E (a_seq r') t' (a_event r') (a_actor r') (a_target r') (a_details r'))"
    using assms(3,5) by (auto simp: rowValid_def split: if_splits option.splits)
  let ?c = "canonicalV2 E (a_seq r) t (a_event r) (a_actor r) (a_target r) (a_details r)"
  let ?c' = "canonicalV2 E (a_seq r') t' (a_event r') (a_actor r') (a_target r') (a_details r')"
  have "hex (ae_hmac E (p @ ?c)) = hex (ae_hmac E (p' @ ?c'))" using t(3) t'(3) assms(10) by (simp add: entryMAC_def)
  then have "p @ ?c = p' @ ?c'" using hex_inj assms(1) unfolding crypto_binding_def by (metis injD)
  moreover obtain x x' where "?c = CHR ''['' # x" "?c' = CHR ''['' # x'" using canonicalV2_bracket by metis
  ultimately have pc: "p = p'" "?c = ?c'" using prefix_before_bracket [OF assms(8,9)] by auto
  have "a_seq r = a_seq r' \<and> t = t' \<and> a_event r = a_event r' \<and> a_actor r = a_actor r' \<and> a_target r = a_target r' \<and> a_details r = a_details r'"
    by (rule canonicalV2_inj [OF assms(1) _ _ _ _ _ _ _ _ pc(2)]) (use assms(6,7) in \<open>auto simp: utf8_row_def\<close>)
  then show ?thesis using t t' pc(1) assms(10) by (cases r; cases r') auto
qed

lemma keyed_hash_hex:
  assumes "rowValid E r p L" "L < a_seq r"
  shows "CHR ''['' \<notin> set (a_hash r)" and "crypto_ok E \<Longrightarrow> a_hash r \<noteq> []"
proof -
  obtain m where "a_hash r = hex (ae_hmac E m)" using assms by (auto simp: rowValid_def entryMAC_def split: if_splits option.splits)
  then show "CHR ''['' \<notin> set (a_hash r)" and "crypto_ok E \<Longrightarrow> a_hash r \<noteq> []"
    using hex_chars [of "CHR ''[''"] by (auto simp: crypto_ok_def)
qed

text \<open>Where the retained rows start: at the beginning of the log, or after a keyed row, the last one pruned.\<close>

definition base_row :: "audit_env \<Rightarrow> int \<Rightarrow> int \<Rightarrow> string \<Rightarrow> bool" where
  "base_row E L n p \<longleftrightarrow> n = 0 \<and> p = []
     \<or> (\<exists>b q. rowValid E b q L \<and> L < a_seq b \<and> utf8_row b \<and> CHR ''['' \<notin> set q \<and> a_seq b = n \<and> a_hash b = p)"

lemma base_row_hex: "base_row E L n p \<Longrightarrow> CHR ''['' \<notin> set p"
  using keyed_hash_hex(1) by (fastforce simp: base_row_def)

lemma end_hash_hex:
  assumes "base_row E L n p" "chain E L p rs" "\<forall>r\<in>set rs. L < a_seq r"
  shows "CHR ''['' \<notin> set (end_hash p rs)"
  using assms base_row_hex keyed_hash_hex(1) by (cases rs rule: rev_cases) (auto simp: chain_append)

text \<open>No row above the base has the base's hash.\<close>

lemma not_base_hash:
  assumes "crypto_binding E" "base_row E L n p" "rowValid E y q L" "L < a_seq y" "n < a_seq y" "utf8_row y" "CHR ''['' \<notin> set q"
  shows "a_hash y \<noteq> p"
proof (cases "p = []")
  case True
  have "crypto_ok E" using assms(1) by (simp add: crypto_binding_def)
  then show ?thesis using True keyed_hash_hex(2) [OF assms(3,4)] by simp
next
  case False
  then obtain b q' where b: "rowValid E b q' L" "L < a_seq b" "utf8_row b" "CHR ''['' \<notin> set q'" "a_seq b = n" "a_hash b = p"
    using assms(2) by (auto simp: base_row_def)
  have "b = y" if "a_hash y = p"
    using keyed_row_bound [OF assms(1) b(1) assms(3) b(2) assms(4) b(3) assms(6) b(4) assms(7)] b(6) that by simp
  then show ?thesis using b(5) assms(5) by blast
qed

lemma chain_determined_by_end:
  assumes "crypto_binding E" "base_row E L n p"
  shows "chain E L p xs \<Longrightarrow> chain E L p ys \<Longrightarrow> end_hash p xs = end_hash p ys \<Longrightarrow>
    \<forall>r\<in>set xs \<union> set ys. L < a_seq r \<and> n < a_seq r \<and> utf8_row r \<Longrightarrow> xs = ys"
proof (induction xs arbitrary: ys rule: rev_induct)
  case Nil
  show ?case
  proof (cases ys rule: rev_cases)
    case (snoc ys' y)
    then have "rowValid E y (end_hash p ys') L" "a_hash y = p" "CHR ''['' \<notin> set (end_hash p ys')"
      using Nil.prems end_hash_hex [OF assms(2)] by (auto simp: chain_append)
    then show ?thesis using not_base_hash [OF assms, of y] Nil.prems(4) snoc by auto
  qed simp
next
  case (snoc x xs)
  have x: "rowValid E x (end_hash p xs) L" "chain E L p xs" using snoc.prems(1) by (auto simp: chain_append)
  have bx: "CHR ''['' \<notin> set (end_hash p xs)" using end_hash_hex [OF assms(2) x(2)] snoc.prems(4) by auto
  have "ys \<noteq> []" using snoc.prems not_base_hash [OF assms x(1)] bx by auto
  then obtain ys' y where ys: "ys = ys' @ [y]" by (cases ys rule: rev_cases) auto
  have y: "rowValid E y (end_hash p ys') L" "chain E L p ys'" using snoc.prems(2) ys by (auto simp: chain_append)
  have by': "CHR ''['' \<notin> set (end_hash p ys')" using end_hash_hex [OF assms(2) y(2)] snoc.prems(4) ys by auto
  have "x = y \<and> end_hash p xs = end_hash p ys'"
    by (rule keyed_row_bound [OF assms(1) x(1) y(1)]) (use snoc.prems ys bx by' in auto)
  then show ?case using snoc.IH [of ys'] x y snoc.prems(4) ys by auto
qed

section \<open>The honest log\<close>

definition sealed :: "head \<Rightarrow> bool" where
  "sealed h \<longleftrightarrow> h_present h \<and> h_mac h \<noteq> []"

text \<open>The anchor agrees with the rows: sealed over exactly the newest row, unbroken, not below the
  high-water mark, and the rows chain from the retention base.\<close>

definition anchored :: "audit_env \<Rightarrow> audit \<Rightarrow> bool" where
  "anchored E s \<longleftrightarrow> (let h = al_head s in
     headValid E h \<and> h_broken h = 0 \<and> readTail s = (h_seq h, h_hash h) \<and> al_floor s \<le> h_seq h
     \<and> (al_rows s = [] \<longrightarrow> h_baseSeq h = 0 \<and> h_baseHash h = []) \<and> chain E (h_legacyUntil h) (h_baseHash h) (al_rows s))"

definition unsealed_empty :: "audit \<Rightarrow> bool" where
  "unsealed_empty s \<longleftrightarrow> \<not> sealed (al_head s) \<and> al_rows s = [] \<and> al_floor s = 0
     \<and> h_baseSeq (al_head s) = 0 \<and> h_baseHash (al_head s) = []"

definition numbered :: "audit \<Rightarrow> bool" where
  "numbered s \<longleftrightarrow> sorted_wrt (<) (map a_seq (al_rows s)) \<and> (\<forall>r\<in>set (al_rows s). 1 \<le> a_seq r \<and> a_seq r < al_next s)
     \<and> 1 \<le> al_next s \<and> 0 \<le> h_legacyUntil (al_head s) \<and> h_legacyUntil (al_head s) < al_next s"

definition audit_ok :: "audit_env \<Rightarrow> audit \<Rightarrow> bool" where
  "audit_ok E s \<longleftrightarrow> numbered s \<and> (unsealed_empty s \<or> anchored E s)"

lemma raiseFloor_simps [simp]:
  "al_rows (raiseFloor n s) = al_rows s" "al_next (raiseFloor n s) = al_next s" "al_head (raiseFloor n s) = al_head s"
  "al_floor (raiseFloor n s) = max n (al_floor s)"
  by (auto simp: raiseFloor_def)

lemma writeHead_simps [simp]:
  "al_rows (writeHead E h s) = al_rows s" "al_next (writeHead E h s) = al_next s" "al_floor (writeHead E h s) = al_floor s"
  "al_head (writeHead E h s) = h\<lparr>h_present := True, h_mac := headMAC E h\<rparr>"
  by (auto simp: writeHead_def)

lemma readTail_rows: "al_rows s = al_rows s' \<Longrightarrow> readTail s = readTail s'"
  by (simp add: readTail_def)

lemma readTail_simps [simp]:
  "readTail (raiseFloor n s) = readTail s" "readTail (writeHead E h s) = readTail s" "readTail (s\<lparr>al_head := h\<rparr>) = readTail s"
  by (auto intro: readTail_rows)

lemma headMAC_ignores [simp]: "headMAC E (h\<lparr>h_present := a, h_mac := m\<rparr>) = headMAC E h"
  by (simp add: headMAC_def head_fields_def)

lemma headValid_seal: "crypto_ok E \<Longrightarrow> headValid E (h\<lparr>h_present := True, h_mac := headMAC E h\<rparr>)"
  unfolding headValid_def headMAC_ignores by (simp add: headMAC_def crypto_ok_def)

lemma readHead_present: "h_present (al_head s) \<Longrightarrow> readHead s = al_head s"
  by (simp add: readHeadCols_def)

lemma headValid_present: "headValid E h \<Longrightarrow> h_present h \<and> h_mac h \<noteq> []"
  unfolding headValid_def by blast

lemma observe_simps [simp]:
  "al_rows (observe E h s) = al_rows s" "al_next (observe E h s) = al_next s" "al_head (observe E h s) = al_head s"
  "al_floor (observe E h s) = (if headValid E h then max (h_seq h) (al_floor s) else al_floor s)"
  by (auto simp: observe_def)

lemma audit_ok_floor:
  assumes "audit_ok E s" "al_rows s' = al_rows s" "al_next s' = al_next s" "al_head s' = al_head s"
    "al_floor s' = al_floor s \<or> (anchored E s \<and> al_floor s' \<le> h_seq (al_head s)) \<or> (al_floor s' = 0 \<and> unsealed_empty s)"
  shows "audit_ok E s'"
  using assms readTail_rows [of s' s]
  by (auto simp: audit_ok_def numbered_def unsealed_empty_def anchored_def Let_def)

lemma audit_ok_observe: "audit_ok E s \<Longrightarrow> audit_ok E (observe E (readHead s) s)"
proof (rule audit_ok_floor [of E s])
  assume ok: "audit_ok E s"
  show "al_floor (observe E (readHead s) s) = al_floor s \<or> (anchored E s \<and> al_floor (observe E (readHead s) s) \<le> h_seq (al_head s))
      \<or> (al_floor (observe E (readHead s) s) = 0 \<and> unsealed_empty s)"
  proof (cases "anchored E s")
    case True
    then show ?thesis
      using headValid_present [of E "al_head s"] by (auto simp: anchored_def Let_def readHead_present)
  next
    case False
    then have "\<not> headValid E (readHead s)" using ok
      by (auto simp: audit_ok_def unsealed_empty_def sealed_def headValid_def readHeadCols_def empty_head_def)
    then show ?thesis by simp
  qed
qed simp_all

text \<open>An honest log verifies, whatever high-water mark up to its head is compared with.\<close>

lemma verifyTx_honest:
  assumes "audit_ok E s" "floor \<le> al_floor s"
  shows "fst (verifyTx E (readHead s) floor s) = 0"
proof (cases "anchored E s")
  case True
  let ?h = "al_head s"
  have v: "headValid E ?h" "h_broken ?h = 0" "readTail s = (h_seq ?h, h_hash ?h)" "al_floor s \<le> h_seq ?h"
      "al_rows s = [] \<longrightarrow> h_baseSeq ?h = 0 \<and> h_baseHash ?h = []" "chain E (h_legacyUntil ?h) (h_baseHash ?h) (al_rows s)"
    using True by (auto simp: anchored_def Let_def)
  have p: "h_present ?h" "h_mac ?h \<noteq> []" using headValid_present [OF v(1)] by auto
  have rh: "readHead s = ?h" using p(1) by (rule readHead_present)
  have nz: "\<forall>r\<in>set (al_rows s). a_seq r \<noteq> 0" using assms(1) by (force simp: audit_ok_def numbered_def)
  have vr: "verifyRows E ?h s = (0, readTail s)"
  proof (rule prod_eqI)
    show "fst (verifyRows E ?h s) = fst (0, readTail s)"
      using verify_loop_chain [OF nz] v(1,6) by (simp add: verifyRows_def)
    show "snd (verifyRows E ?h s) = snd (0, readTail s)"
      using v(1,5) by (auto simp: verifyRows_def verify_loop_tail readTail_def)
  qed
  have "anchorBreak E ?h (readTail s) floor False = 0"
    using v p assms(2) by (simp add: anchorBreak_def)
  then show ?thesis using v(2) by (simp add: verifyTx_def rh vr)
next
  case False
  then have u: "unsealed_empty s" using assms(1) by (simp add: audit_ok_def)
  then have "\<not> headValid E (readHead s)"
    by (auto simp: unsealed_empty_def sealed_def headValid_def readHeadCols_def empty_head_def)
  then show ?thesis
    using u by (auto simp: verifyTx_def verifyRows_def anchorBreak_def unsealed_empty_def sealed_def readHeadCols_def empty_head_def)
qed

lemma anchorBreak_honest:
  assumes "audit_ok E s"
  shows "anchorBreak E (readHead s) (readTail s) (al_floor s) b = 0"
proof (cases "anchored E s")
  case True
  then have "headValid E (al_head s)" by (simp add: anchored_def Let_def)
  then show ?thesis
    using True headValid_present [of E "al_head s"] by (auto simp: anchored_def Let_def anchorBreak_def readHead_present)
next
  case False
  then have "unsealed_empty s" using assms by (simp add: audit_ok_def)
  then show ?thesis
    by (auto simp: anchorBreak_def unsealed_empty_def sealed_def readHeadCols_def empty_head_def readTail_def)
qed

lemma broken_honest:
  assumes "audit_ok E s"
  shows "(if headValid E (readHead s) \<and> h_broken (readHead s) \<noteq> 0 then h_broken (readHead s)
    else anchorBreak E (readHead s) (readTail s) (al_floor s) False) = 0"
proof (cases "anchored E s")
  case True
  then have "h_present (al_head s)" "h_broken (al_head s) = 0"
    using headValid_present [of E "al_head s"] by (auto simp: anchored_def Let_def)
  then show ?thesis using anchorBreak_honest [OF assms] by (simp add: readHead_present)
next
  case False
  then have "\<not> headValid E (readHead s)" using assms
    by (auto simp: audit_ok_def unsealed_empty_def sealed_def headValid_def readHeadCols_def empty_head_def)
  then show ?thesis using anchorBreak_honest [OF assms] by simp
qed

lemma honest_base:
  assumes "audit_ok E s"
  shows "snd (readTail s) = end_hash (h_baseHash (readHead s)) (al_rows s)"
    and "chain E (h_legacyUntil (readHead s)) (h_baseHash (readHead s)) (al_rows s)"
    and "0 \<le> h_legacyUntil (readHead s) \<and> h_legacyUntil (readHead s) < al_next s"
proof -
  have n: "0 \<le> h_legacyUntil (readHead s) \<and> h_legacyUntil (readHead s) < al_next s"
    using assms by (auto simp: audit_ok_def numbered_def readHeadCols_def empty_head_def)
  have "snd (readTail s) = end_hash (h_baseHash (readHead s)) (al_rows s)
    \<and> chain E (h_legacyUntil (readHead s)) (h_baseHash (readHead s)) (al_rows s)"
  proof (cases "anchored E s")
    case True
    then have "h_present (al_head s)" using headValid_present [of E "al_head s"] by (auto simp: anchored_def Let_def)
    with True show ?thesis by (auto simp: anchored_def Let_def readHead_present readTail_def end_hash_def)
  next
    case False
    then have "unsealed_empty s" using assms by (simp add: audit_ok_def)
    then show ?thesis by (auto simp: unsealed_empty_def readTail_def readHeadCols_def empty_head_def)
  qed
  with n show "snd (readTail s) = end_hash (h_baseHash (readHead s)) (al_rows s)"
    and "chain E (h_legacyUntil (readHead s)) (h_baseHash (readHead s)) (al_rows s)"
    and "0 \<le> h_legacyUntil (readHead s) \<and> h_legacyUntil (readHead s) < al_next s" by blast+
qed

lemma honest_floor: "audit_ok E s \<Longrightarrow> al_floor s < al_next s"
proof -
  assume ok: "audit_ok E s"
  have n: "1 \<le> al_next s" "\<forall>r\<in>set (al_rows s). a_seq r < al_next s" using ok by (auto simp: audit_ok_def numbered_def)
  have t: "fst (readTail s) < al_next s" using n by (auto simp: readTail_def)
  show ?thesis
  proof (cases "anchored E s")
    case True
    then have "readTail s = (h_seq (al_head s), h_hash (al_head s))" "al_floor s \<le> h_seq (al_head s)"
      by (auto simp: anchored_def Let_def)
    then show ?thesis using t by simp
  next
    case False
    then show ?thesis using ok n(1) by (auto simp: audit_ok_def unsealed_empty_def)
  qed
qed

text \<open>What a successful \<open>Append\<close> does, on any database.\<close>

definition append_row :: "audit_env \<Rightarrow> nat \<Rightarrow> time \<Rightarrow> string \<Rightarrow> string \<Rightarrow> string \<Rightarrow> string \<Rightarrow> audit \<Rightarrow> arow" where
  "append_row E gap clock eventType actor target dj s =
     (let now = clock - clock mod 1000; seq = al_next s + int gap; a = clipField actor; g = clipField target
      in \<lparr>a_seq = seq, a_occurred = Some now, a_event = eventType, a_actor = a, a_target = g, a_details = dj,
          a_prev = snd (readTail s),
          a_hash = entryMAC E (snd (readTail s)) (canonicalV2 E seq now eventType a g dj)\<rparr>)"

definition next_head :: "audit_env \<Rightarrow> arow \<Rightarrow> audit \<Rightarrow> head" where
  "next_head E row s = (let h = readHead s in
     \<lparr>h_present = True, h_legacyUntil = h_legacyUntil h, h_seq = a_seq row, h_hash = a_hash row,
      h_broken = (if headValid E h \<and> h_broken h \<noteq> 0 then h_broken h else anchorBreak E h (readTail s) (al_floor s) False),
      h_mac = [], h_baseSeq = h_baseSeq h, h_baseHash = h_baseHash h\<rparr>)"

lemma Append_cases:
  assumes "Append E faults gap clock eventType actor target details s = (r, s')"
  obtains (kept) e where "r = Inl e" "s' = s"
  | (added) dj row where "details = Some dj" "row = append_row E gap clock eventType actor target dj s" "r = Inr row"
      "a_seq row \<notin> a_seq ` set (al_rows s)" "TrimSpace eventType \<noteq> []" "ae_key E"
      "s' = raiseFloor (a_seq row) (writeHead E (next_head E row s)
              (s\<lparr>al_rows := insert_row row (al_rows s), al_next := a_seq row + 1\<rparr>))"
proof (cases r)
  case (Inl e)
  then have "s' = s" using assms by (auto simp: Append_def Let_def split: if_split_asm option.splits)
  with Inl kept show ?thesis by blast
next
  case (Inr row)
  have k: "TrimSpace eventType \<noteq> []" "ae_key E" using assms Inr by (auto simp: Append_def Let_def split: if_split_asm)
  obtain dj where d: "details = Some dj" using assms Inr k by (cases details) (auto simp: Append_def Let_def)
  let ?row = "append_row E gap clock eventType actor target dj s"
  have s: "a_seq ?row = al_next s + int gap" by (simp add: append_row_def Let_def)
  have f: "\<not> (faults Begin \<or> faults ReadHead \<or> faults ReadTail)"
    using assms Inr k d by (auto simp: Append_def Let_def split: if_split_asm)
  have n: "\<not> (faults InsertRow \<or> a_seq ?row \<in> a_seq ` set (al_rows s) \<or> faults SetHash \<or> faults WriteHead \<or> faults Commit)"
    using assms Inr k d f unfolding s by (intro notI) (simp add: Append_def Let_def)
  have "Append E faults gap clock eventType actor target details s = (Inr ?row, raiseFloor (a_seq ?row) (writeHead E (next_head E ?row s)
              (s\<lparr>al_rows := insert_row ?row (al_rows s), al_next := a_seq ?row + 1\<rparr>)))"
    using k d f n unfolding Append_def next_head_def append_row_def Let_def by simp
  then show ?thesis using assms Inr added [OF d refl] n k by auto
qed

lemma insert_row_last: "\<forall>x\<in>set rs. a_seq x < a_seq r \<Longrightarrow> insert_row r rs = rs @ [r]"
proof -
  assume a: "\<forall>x\<in>set rs. a_seq x < a_seq r"
  then have "filter (\<lambda>x. a_seq x < a_seq r) rs = rs" "filter (\<lambda>x. a_seq x > a_seq r) rs = []"
    by (auto simp: filter_id_conv filter_empty_conv)
  then show ?thesis by (simp add: insert_row_def)
qed

lemma Append_succeeds:
  assumes "ae_key E" "TrimSpace eventType \<noteq> []" "audit_ok E s"
  shows "Append E no_faults gap clock eventType actor target (Some dj) s =
    (let row = append_row E gap clock eventType actor target dj s
     in (Inr row, raiseFloor (a_seq row) (writeHead E (next_head E row s)
              (s\<lparr>al_rows := al_rows s @ [row], al_next := a_seq row + 1\<rparr>))))"
proof -
  let ?row = "append_row E gap clock eventType actor target dj s"
  have sq: "a_seq ?row = al_next s + int gap" by (simp add: append_row_def Let_def)
  have lt: "\<forall>x\<in>set (al_rows s). a_seq x < a_seq ?row"
    using assms(3) sq by (fastforce simp: audit_ok_def numbered_def)
  then have n: "al_next s + int gap \<notin> a_seq ` set (al_rows s)" using sq by auto
  show ?thesis
    unfolding insert_row_last [OF lt, symmetric] Let_def
    using assms(1,2) n unfolding Append_def next_head_def append_row_def Let_def by simp
qed

lemma audit_ok_Append:
  assumes "crypto_ok E" "audit_ok E s"
  shows "audit_ok E (snd (Append E faults gap clock eventType actor target details s))"
proof -
  obtain r s' where a: "Append E faults gap clock eventType actor target details s = (r, s')"
    by (cases "Append E faults gap clock eventType actor target details s")
  show ?thesis
  proof (cases rule: Append_cases [OF a])
    case (1 e)
    then show ?thesis using a assms(2) by simp
  next
    case (2 dj row)
    note base = honest_base [OF assms(2)]
    have seq: "a_seq row = al_next s + int gap" using 2(2) by (simp add: append_row_def Let_def)
    have lt: "\<forall>x\<in>set (al_rows s). a_seq x < a_seq row"
      using assms(2) seq by (fastforce simp: audit_ok_def numbered_def)
    have rows: "al_rows s' = al_rows s @ [row]" using 2(7) insert_row_last [OF lt] by simp
    have head: "al_head s' = (next_head E row s)\<lparr>h_present := True, h_mac := headMAC E (next_head E row s)\<rparr>"
      using 2(7) by simp
    have nh: "h_legacyUntil (al_head s') = h_legacyUntil (readHead s)" "h_baseHash (al_head s') = h_baseHash (readHead s)"
        "h_seq (al_head s') = a_seq row" "h_hash (al_head s') = a_hash row" "h_broken (al_head s') = 0"
      using broken_honest [OF assms(2)] unfolding head by (simp_all add: next_head_def Let_def)
    have hv: "headValid E (al_head s')" unfolding head by (rule headValid_seal [OF assms(1)])
    have "rowValid E row (snd (readTail s)) (h_legacyUntil (readHead s))"
      using 2(2) base(3) by (simp add: rowValid_def append_row_def Let_def)
    then have ch: "chain E (h_legacyUntil (readHead s)) (h_baseHash (readHead s)) (al_rows s @ [row])"
      using base(1,2) by (simp add: chain_append)
    have "al_floor s \<le> a_seq row" using honest_floor [OF assms(2)] seq by simp
    then have "anchored E s'"
      using hv nh ch rows 2(7) by (simp add: anchored_def Let_def readTail_def)
    moreover have "numbered s'"
      using assms(2) lt seq base(3) nh(1) rows 2(7) by (fastforce simp: audit_ok_def numbered_def sorted_wrt_append)
    ultimately show ?thesis using a by (simp add: audit_ok_def)
  qed
qed

lemma sealTx_honest:
  assumes "crypto_ok E" "audit_ok E s" "sealTx E faults b True s = Inr (n, s')"
  shows "audit_ok E s' \<and> al_floor s' \<le> h_seq (al_head s') \<and> n = 0"
proof (cases "sealed (al_head s)")
  case True
  then have an: "anchored E s" using assms(2) by (auto simp: audit_ok_def unsealed_empty_def)
  have rh: "readHead s = al_head s" using True by (simp add: sealed_def readHead_present)
  have s': "s' = observe E (readHead s) s" "n = 0"
    using assms(3) True unfolding sealTx_def rh Let_def sealed_def by (auto split: if_splits)
  show ?thesis
    using audit_ok_observe [OF assms(2)] an s' by (auto simp: rh anchored_def Let_def)
next
  case False
  then have u: "unsealed_empty s" using assms(2) headValid_present [of E "al_head s"]
    by (auto simp: audit_ok_def anchored_def Let_def sealed_def)
  have ns: "\<not> (h_present (readHead s) \<and> h_mac (readHead s) \<noteq> [])"
    using False by (auto simp: readHeadCols_def empty_head_def sealed_def)
  have t: "readTail s = (0, [])" using u by (simp add: readTail_def unsealed_empty_def)
  have br: "anchorBreak E (readHead s) (0, []) 0 b = 0"
    using ns by (auto simp: anchorBreak_def)
  let ?next = "\<lparr>h_present = True, h_legacyUntil = h_legacyUntil (readHead s), h_seq = 0, h_hash = [], h_broken = 0, h_mac = [],
     h_baseSeq = h_baseSeq (readHead s), h_baseHash = h_baseHash (readHead s)\<rparr>"
  have s': "s' = writeHead E ?next s" "n = 0"
    using assms(3) ns unfolding sealTx_def Let_def t br by (auto simp: br split: if_splits)
  have hv: "headValid E (al_head s')" using headValid_seal [OF assms(1), of ?next] s' by simp
  have base: "h_baseSeq (readHead s) = 0" "h_baseHash (readHead s) = []"
    using u by (auto simp: unsealed_empty_def readHeadCols_def empty_head_def)
  have "anchored E s'"
    using hv u t base s' unfolding anchored_def Let_def by (auto simp: unsealed_empty_def)
  moreover have "numbered s'"
    using assms(2) honest_base(3) [OF assms(2)] s' by (auto simp: audit_ok_def numbered_def)
  ultimately show ?thesis using s' u by (auto simp: audit_ok_def unsealed_empty_def)
qed

lemma anchored_seq_nonneg: "numbered s \<Longrightarrow> anchored E s \<Longrightarrow> 0 \<le> h_seq (al_head s)"
proof -
  assume n: "numbered s" and a: "anchored E s"
  have "h_seq (al_head s) = fst (readTail s)" using a by (simp add: anchored_def Let_def)
  also have "0 \<le> fst (readTail s)"
  proof (cases "al_rows s = []")
    case False
    then have "1 \<le> a_seq (last (al_rows s))" using n by (auto simp: numbered_def)
    then show ?thesis by (simp add: readTail_def)
  qed (simp add: readTail_def)
  finally show ?thesis .
qed

lemma unsealed_readHead: "unsealed_empty s \<Longrightarrow> h_present (readHead s) \<Longrightarrow> h_mac (readHead s) = []"
  by (auto simp: unsealed_empty_def sealed_def readHeadCols_def empty_head_def)

lemma audit_ok_SealAnchor:
  assumes "crypto_ok E" "audit_ok E s"
  shows "audit_ok E (snd (SealAnchor E faults b s))"
proof (cases "sealTx E faults b True s")
  case (Inl e)
  then show ?thesis using assms by (auto simp: SealAnchor_def)
next
  case (Inr p)
  obtain n s' where p: "p = (n, s')" by (cases p)
  note h = sealTx_honest [OF assms Inr [unfolded p]]
  have "audit_ok E (s\<lparr>al_floor := al_floor s'\<rparr>)"
  proof (rule audit_ok_floor [OF assms(2)])
    show "al_floor (s\<lparr>al_floor := al_floor s'\<rparr>) = al_floor s
        \<or> (anchored E s \<and> al_floor (s\<lparr>al_floor := al_floor s'\<rparr>) \<le> h_seq (al_head s))
        \<or> (al_floor (s\<lparr>al_floor := al_floor s'\<rparr>) = 0 \<and> unsealed_empty s)"
      using h Inr p assms(2) unsealed_readHead [of s] unfolding sealTx_def Let_def
      by (auto simp: audit_ok_def observe_def split: if_splits)
  qed simp_all
  moreover have "audit_ok E (raiseFloor n s')"
    by (rule audit_ok_floor [of E s']) (use h anchored_seq_nonneg [of s' E] in \<open>auto simp: audit_ok_def unsealed_empty_def\<close>)
  ultimately show ?thesis using Inr p assms(2) by (auto simp: SealAnchor_def)
qed

lemma verifyTx_snd: "snd (verifyTx E h floor s) = observe E h s"
  by (simp add: verifyTx_def Let_def case_prod_beta)

lemma audit_ok_VerifyChain: "audit_ok E s \<Longrightarrow> audit_ok E (snd (VerifyChain E faults s))"
  using audit_ok_observe by (auto simp: VerifyChain_def case_prod_beta verifyTx_snd)

text \<open>Sorted rows: deleting up to the last row of a leading run deletes exactly that run.\<close>

lemma filter_leading_run:
  assumes "sorted_wrt (<) (map a_seq (xs @ ys))" "xs \<noteq> []"
  shows "filter (\<lambda>r. a_seq r \<le> a_seq (last xs)) (xs @ ys) = xs \<and> filter (\<lambda>r. \<not> a_seq r \<le> a_seq (last xs)) (xs @ ys) = ys"
proof -
  obtain zs z where xs: "xs = zs @ [z]" using assms(2) by (cases xs rule: rev_cases) auto
  have "\<forall>x\<in>set xs. a_seq x \<le> a_seq z" "\<forall>y\<in>set ys. a_seq z < a_seq y"
    using assms(1) unfolding xs by (auto simp: sorted_wrt_append)
  moreover from this have "filter (\<lambda>r. a_seq r \<le> a_seq z) xs = xs" "filter (\<lambda>r. a_seq r \<le> a_seq z) ys = []"
      "filter (\<lambda>r. \<not> a_seq r \<le> a_seq z) xs = []" "filter (\<lambda>r. \<not> a_seq r \<le> a_seq z) ys = ys"
    by (auto simp: filter_id_conv filter_empty_conv not_le)
  ultimately show ?thesis using xs by (simp del: append_assoc)
qed

lemma Prune_cases:
  assumes "Prune E faults cutoff s = (r, s')" "numbered s"
  obtains (kept) "al_rows s' = al_rows s" "s' = s \<or> s' = observe E (readHead s) s" "\<not> isl r \<longrightarrow> r = Inr 0"
  | (pruned) run rest where "al_rows s = run @ rest" "run \<noteq> []" "\<forall>x\<in>set run. due cutoff (h_seq (readHead s)) x"
      "rest = [] \<or> \<not> due cutoff (h_seq (readHead s)) (hd rest)" "r = Inr (length run)"
      "fst (verifyTx E (readHead s) (al_floor s) s) = 0"
      "s' = writeHead E ((readHead s)\<lparr>h_baseSeq := a_seq (last run), h_baseHash := a_hash (last run)\<rparr>)
              ((observe E (readHead s) s)\<lparr>al_rows := rest\<rparr>)"
proof -
  let ?h = "readHead s"
  let ?run = "takeWhile (due cutoff (h_seq ?h)) (al_rows s)" and ?rest = "dropWhile (due cutoff (h_seq ?h)) (al_rows s)"
  have split: "al_rows s = ?run @ ?rest" by simp
  have bnd: "pruneBoundary cutoff (h_seq ?h) (observe E ?h s) =
      (if ?run = [] then (0, []) else (a_seq (last ?run), a_hash (last ?run)))"
    by (simp add: pruneBoundary_def Let_def)
  show thesis
  proof (cases "?run = [] \<or> \<not> (\<exists>n. r = Inr n) \<or> r = Inr 0")
    case True
    have "?run \<noteq> [] \<Longrightarrow> a_seq (last ?run) \<noteq> 0"
      using assms(2) last_in_set [of ?run] set_takeWhileD by (fastforce simp: numbered_def)
    moreover have "?run \<noteq> [] \<Longrightarrow> filter (\<lambda>r. a_seq r \<le> a_seq (last ?run)) (al_rows s) \<noteq> []"
      using last_in_set [of ?run] set_takeWhileD by (fastforce simp: filter_empty_conv)
    ultimately have "al_rows s' = al_rows s \<and> (s' = s \<or> s' = observe E ?h s) \<and> (\<not> isl r \<longrightarrow> r = Inr 0)"
      using assms(1) True unfolding Prune_def Let_def case_prod_beta verifyTx_snd bnd
      by (auto split: if_split_asm)
    then show thesis using kept by blast
  next
    case False
    then obtain n where n: "r = Inr n" "n \<noteq> 0" "?run \<noteq> []" by auto
    have z: "a_seq (last ?run) \<noteq> 0"
      using assms(2) last_in_set [OF n(3)] set_takeWhileD by (fastforce simp: numbered_def)
    have f: "filter (\<lambda>r. a_seq r \<le> a_seq (last ?run)) (al_rows s) = ?run"
        "filter (\<lambda>r. \<not> a_seq r \<le> a_seq (last ?run)) (al_rows s) = ?rest"
      using filter_leading_run [of ?run ?rest] n(3) assms(2) by (simp_all add: numbered_def)
    have e: "r = Inr (length ?run) \<and> fst (verifyTx E ?h (al_floor s) s) = 0 \<and>
       s' = writeHead E (?h\<lparr>h_baseSeq := a_seq (last ?run), h_baseHash := a_hash (last ?run)\<rparr>)
              ((observe E ?h s)\<lparr>al_rows := ?rest\<rparr>)"
      using assms(1) n z unfolding Prune_def Let_def case_prod_beta verifyTx_snd bnd
      by (auto simp: f split: if_split_asm)
    have "?rest = [] \<or> \<not> due cutoff (h_seq ?h) (hd ?rest)" using hd_dropWhile by blast
    then show thesis
      using pruned [OF split n(3)] e by (blast dest: set_takeWhileD)
  qed
qed

lemma audit_ok_Prune:
  assumes "crypto_ok E" "audit_ok E s"
  shows "audit_ok E (snd (Prune E faults cutoff s))"
proof -
  obtain r s' where p: "Prune E faults cutoff s = (r, s')" by (cases "Prune E faults cutoff s")
  have nm: "numbered s" using assms(2) by (simp add: audit_ok_def)
  show ?thesis
  proof (cases rule: Prune_cases [OF p nm])
    case 1
    then show ?thesis using p assms(2) audit_ok_observe by auto
  next
    case (2 run rest)
    have an: "anchored E s" using 2(1,2) assms(2) by (auto simp: audit_ok_def unsealed_empty_def)
    then have hv: "headValid E (al_head s)" by (simp add: anchored_def Let_def)
    have rh: "readHead s = al_head s" using headValid_present [OF hv] by (simp add: readHead_present)
    have tl: "readTail s = (h_seq (al_head s), h_hash (al_head s))" using an by (simp add: anchored_def Let_def)
    have rest: "rest \<noteq> []"
    proof
      assume "rest = []"
      then have "last (al_rows s) = last run" "last run \<in> set run" using 2(1,2) by auto
      then have "due cutoff (h_seq (al_head s)) (last (al_rows s))" using 2(3) rh by auto
      moreover have "a_seq (last (al_rows s)) = h_seq (al_head s)" using tl 2(1,2) by (auto simp: readTail_def)
      ultimately show False by (auto simp: due_def split: option.splits)
    qed
    have s': "al_rows s' = rest" "al_next s' = al_next s"
        "al_head s' = (al_head s)\<lparr>h_baseSeq := a_seq (last run), h_baseHash := a_hash (last run), h_present := True,
           h_mac := headMAC E ((al_head s)\<lparr>h_baseSeq := a_seq (last run), h_baseHash := a_hash (last run)\<rparr>)\<rparr>"
        "al_floor s' = al_floor (observe E (al_head s) s)"
      using 2(7) rh by simp_all
    have "chain E (h_legacyUntil (al_head s)) (h_baseHash (al_head s)) (run @ rest)" using an 2(1) by (simp add: anchored_def Let_def)
    then have ch: "chain E (h_legacyUntil (al_head s)) (a_hash (last run)) rest" using 2(2) by (simp add: chain_append end_hash_def)
    have hv': "headValid E (al_head s')"
      using headValid_seal [OF assms(1), of "(al_head s)\<lparr>h_baseSeq := a_seq (last run), h_baseHash := a_hash (last run)\<rparr>"] s'(3) by simp
    have "readTail s' = readTail s" using s'(1) rest 2(1) by (simp add: readTail_def)
    then have "anchored E s'"
      using hv' ch an tl rest s' hv unfolding anchored_def Let_def by simp
    moreover have "numbered s'"
      using nm s' 2(1) by (auto simp: numbered_def sorted_wrt_append)
    ultimately show ?thesis using p by (simp add: audit_ok_def)
  qed
qed

section \<open>Runs of the server\<close>

datatype audit_cmd =
    CAppend "audit_stmt faults" nat time string string string "string option"
  | CSeal "audit_stmt faults" bool
  | CPrune "audit_stmt faults" time
  | CVerify "audit_stmt faults"
  | CRestart

fun audit_step :: "audit_env \<Rightarrow> audit_cmd \<Rightarrow> audit \<Rightarrow> audit" where
  "audit_step E (CAppend fs gap now e a g d) s = snd (Append E fs gap now e a g d s)"
| "audit_step E (CSeal fs b) s = snd (SealAnchor E fs b s)"
| "audit_step E (CPrune fs cutoff) s = snd (Prune E fs cutoff s)"
| "audit_step E (CVerify fs) s = snd (VerifyChain E fs s)"
| "audit_step E CRestart s = s\<lparr>al_floor := 0\<rparr>"

lemma audit_ok_step:
  assumes "crypto_ok E" "audit_ok E s"
  shows "audit_ok E (audit_step E c s)"
proof (cases c)
  case CRestart
  have "audit_ok E (s\<lparr>al_floor := 0\<rparr>)"
    by (rule audit_ok_floor [OF assms(2)])
      (use assms(2) anchored_seq_nonneg [of s E] in \<open>auto simp: audit_ok_def unsealed_empty_def\<close>)
  then show ?thesis using CRestart by simp
qed (use assms in \<open>simp_all add: audit_ok_Append audit_ok_SealAnchor audit_ok_Prune audit_ok_VerifyChain\<close>)

interpretation aud: machine "audit_step E" "\<lambda>s. crypto_ok E \<longrightarrow> audit_ok E s" for E
  by unfold_locales (auto intro: audit_ok_step)

text \<open>The state migration 0014 leaves: the legacy rows, an unsealed anchor that records the highest
  legacy number, and an allocator above it.\<close>

definition migrated :: "arow list \<Rightarrow> int \<Rightarrow> audit" where
  "migrated rows n = \<lparr>al_rows = rows, al_next = n,
     al_head = \<lparr>h_present = True, h_legacyUntil = (if rows = [] then 0 else a_seq (last rows)), h_seq = 0, h_hash = [],
        h_broken = 0, h_mac = [], h_baseSeq = 0, h_baseHash = []\<rparr>, al_floor = 0\<rparr>"

definition legacy_log :: "audit_env \<Rightarrow> arow list \<Rightarrow> int \<Rightarrow> bool" where
  "legacy_log E rows n \<longleftrightarrow> chain E (if rows = [] then 0 else a_seq (last rows)) [] rows
     \<and> sorted_wrt (<) (map a_seq rows) \<and> (\<forall>r\<in>set rows. 1 \<le> a_seq r \<and> a_seq r < n) \<and> 1 \<le> n"

definition cut_over :: "audit_env \<Rightarrow> arow list \<Rightarrow> int \<Rightarrow> audit" where
  "cut_over E rows n = snd (SealCutover E no_faults (migrated rows n))"

lemma audit_ok_cut_over:
  assumes "crypto_ok E" "ae_key E" "legacy_log E rows n"
  shows "audit_ok E (cut_over E rows n)"
proof -
  let ?m = "migrated rows n" and ?L = "if rows = [] then 0 else a_seq (last rows)"
  let ?next = "\<lparr>h_present = True, h_legacyUntil = ?L, h_seq = fst (readTail ?m), h_hash = snd (readTail ?m),
     h_broken = 0, h_mac = [], h_baseSeq = 0, h_baseHash = []\<rparr>"
  have L: "0 \<le> ?L" "?L < n" using assms(3) last_in_set [of rows] by (fastforce simp: legacy_log_def)+
  have rt: "readTail ?m = (?L, if rows = [] then [] else a_hash (last rows))" by (simp add: readTail_def migrated_def)
  have rh: "readHeadCols False ?m = (al_head ?m)\<lparr>h_baseSeq := 0, h_baseHash := []\<rparr>"
    by (simp add: readHeadCols_def migrated_def)
  have "anchorBreak E (readHeadCols False ?m) (readTail ?m) 0 True = 0"
    unfolding rh rt by (simp add: anchorBreak_def migrated_def)
  then have c: "cut_over E rows n = raiseFloor (fst (readTail ?m)) (writeHead E ?next ?m)"
    using assms(2) unfolding cut_over_def SealCutover_def sealTx_def Let_def rh
    by (simp add: migrated_def)
  have "headValid E (?next\<lparr>h_present := True, h_mac := headMAC E ?next\<rparr>)" by (rule headValid_seal [OF assms(1)])
  then have "anchored E (cut_over E rows n)"
    using assms(3) rt L unfolding c anchored_def Let_def by (auto simp: migrated_def legacy_log_def)
  moreover have "numbered (cut_over E rows n)"
    using assms(3) L unfolding c by (auto simp: numbered_def legacy_log_def migrated_def)
  ultimately show ?thesis by (simp add: audit_ok_def)
qed

section \<open>Properties\<close>

text \<open>
  C32. No false alarm: from the cut-over of any legacy log (an empty one on a fresh install),
  after any sequence of appends, seals, prunings, verifications and restarts, with any driver
  failures and any gaps in the numbering, \<open>VerifyChain\<close> reports an intact chain.
\<close>

theorem honest_log_always_verifies:
  assumes "crypto_ok E" "ae_key E" "legacy_log E rows n"
  shows "fst (VerifyChain E no_faults (run (audit_step E) cmds (cut_over E rows n))) = Inr 0"
proof -
  have "audit_ok E (run (audit_step E) cmds (cut_over E rows n))"
    using aud.inv_run [of E "cut_over E rows n" cmds] audit_ok_cut_over [OF assms] assms(1) by blast
  then show ?thesis
    using verifyTx_honest [of E "run (audit_step E) cmds (cut_over E rows n)"] assms(2)
    by (simp add: VerifyChain_def case_prod_beta)
qed

text \<open>An environment for evaluation: the identity as MAC and hash (longer by a tag byte), decimal text as time.\<close>

definition toy_env :: audit_env where
  "toy_env = \<lparr>ae_key = True, ae_hmac = (\<lambda>m. CHR ''m'' # m), ae_sha = (\<lambda>m. CHR ''s'' # m), ae_fmt = json_int\<rparr>"

lemma toy_env_binding: "crypto_binding toy_env"
proof -
  have "ascii (json_int t)" for t
    using json_int_chars [of _ t] by (fastforce simp: ascii_def)
  then have "ValidString (json_int t)" for t by (rule ValidString_ascii)
  then show ?thesis
    by (auto simp: crypto_binding_def crypto_ok_def toy_env_def inj_def json_int_inj)
qed

lemma toy_env_ok: "crypto_ok toy_env" "ae_key toy_env"
  by (auto simp: crypto_ok_def toy_env_def)

text \<open>A second one whose MAC and hash are short constants, for runs that only need MACs not to be empty.\<close>

definition flat_env :: audit_env where
  "flat_env = \<lparr>ae_key = True, ae_hmac = (\<lambda>m. ''m''), ae_sha = (\<lambda>m. ''s''), ae_fmt = json_int\<rparr>"

lemma flat_env_ok: "crypto_ok flat_env" "ae_key flat_env"
  by (auto simp: crypto_ok_def flat_env_def)

definition toy_cmds :: "audit_cmd list" where
  "toy_cmds = [CAppend no_faults 0 5000 ''token.issued'' ''a'' ''b'' (Some ''{}''),
     CAppend no_faults 2 9000 ''token.consumed'' ''a'' ''b'' (Some ''{}''), CPrune no_faults 6000, CRestart]"

lemma legacy_log_empty: "legacy_log E [] 1"
  by (simp add: legacy_log_def)

theorem honest_log_always_verifies_witness:
  "legacy_log flat_env [] 1 \<and> map a_seq (al_rows (run (audit_step flat_env) toy_cmds (cut_over flat_env [] 1))) = [4]
   \<and> fst (VerifyChain flat_env no_faults (run (audit_step flat_env) toy_cmds (cut_over flat_env [] 1))) = Inr 0"
proof -
  have "map a_seq (al_rows (run (audit_step flat_env) toy_cmds (cut_over flat_env [] 1))) = [4]" by code_simp
  then show ?thesis using honest_log_always_verifies [OF flat_env_ok legacy_log_empty] legacy_log_empty by blast
qed

text \<open>
  C5. The anchor binds the keyed rows. Take the HMAC to be injective. If two sets of rows, however they came into the table, both
  verify under the same valid anchor of a log that was pruned up to a keyed row or not at all, then they are the same rows in every column. So no
  edit, insertion, deletion or reordering of such rows survives verification without the key. The rows are keyed ones (numbered above the
  cut-over and the pruning base, hence not 0) in valid UTF-8: legacy rows, a row numbered 0 and invalid bytes are not covered.
\<close>

theorem rows_determined_by_anchor:
  assumes "crypto_binding E" "headValid E h" "base_row E (h_legacyUntil h) (h_baseSeq h) (h_baseHash h)" "0 \<le> h_legacyUntil h" "0 \<le> h_seq h"
    and "\<forall>r\<in>set rows \<union> set rows'. h_legacyUntil h < a_seq r \<and> h_baseSeq h < a_seq r \<and> utf8_row r"
    and "fst (verifyTx E h floor (s\<lparr>al_head := h, al_rows := rows\<rparr>)) = 0"
    and "fst (verifyTx E h floor' (s'\<lparr>al_head := h, al_rows := rows'\<rparr>)) = 0"
  shows "rows' = rows"
proof -
  let ?p = "h_baseHash h"
  have base: "0 \<le> h_baseSeq h" using assms(3,4) by (auto simp: base_row_def)
  have key: "chain E (h_legacyUntil h) ?p xs \<and> end_hash ?p xs = h_hash h"
    if v: "fst (verifyTx E h f (z\<lparr>al_head := h, al_rows := xs\<rparr>)) = 0" and n: "\<forall>r\<in>set xs. h_legacyUntil h < a_seq r" for xs f z
  proof -
    have nz: "\<forall>r\<in>set xs. a_seq r \<noteq> 0" using n assms(4) by force
    have pos: "xs \<noteq> [] \<Longrightarrow> 0 < a_seq (last xs)" using n assms(4) last_in_set [of xs] by (meson le_less_trans)
    let ?v = "verify_loop E (h_legacyUntil h) 0 (h_baseSeq h, ?p) xs"
    have vr: "verifyRows E h (z\<lparr>al_head := h, al_rows := xs\<rparr>) = ?v" using assms(2) by (simp add: verifyRows_def)
    have "fst ?v = 0" "anchorBreak E h (snd ?v) f False = 0"
      using v assms(2) unfolding verifyTx_def vr Let_def case_prod_beta by (auto split: if_splits)
    then show ?thesis
      using verify_loop_chain [OF nz, of E "h_legacyUntil h" "(h_baseSeq h, ?p)"] headValid_present [OF assms(2)] assms(2)
        verify_loop_tail [of E "h_legacyUntil h" 0 "(h_baseSeq h, ?p)" xs] assms(5) pos base
      by (auto simp: anchorBreak_def end_hash_def split: if_splits)
  qed
  show ?thesis
    using chain_determined_by_end [OF assms(1,3), of rows' rows] key [OF assms(7)] key [OF assms(8)] assms(6) by auto
qed

theorem rows_determined_by_anchor_witness:
  "\<exists>s. al_rows s \<noteq> [] \<and> headValid toy_env (al_head s)
    \<and> (\<forall>rows'. (\<forall>r\<in>set (al_rows s) \<union> set rows'. h_legacyUntil (al_head s) < a_seq r \<and> h_baseSeq (al_head s) < a_seq r \<and> utf8_row r) \<longrightarrow>
        fst (verifyTx toy_env (al_head s) 0 (s\<lparr>al_head := al_head s, al_rows := rows'\<rparr>)) = 0 \<longrightarrow> rows' = al_rows s)
    \<and> (\<forall>r\<in>set (al_rows s). h_legacyUntil (al_head s) < a_seq r \<and> h_baseSeq (al_head s) < a_seq r \<and> utf8_row r)"
proof -
  let ?c = "cut_over toy_env [] 1"
  define row where "row = append_row toy_env 0 5000 ''token.issued'' ''a'' ''b'' ''{}'' ?c"
  define s where "s = snd (Append toy_env no_faults 0 5000 ''token.issued'' ''a'' ''b'' (Some ''{}'') ?c)"
  have ok: "audit_ok toy_env ?c" by (rule audit_ok_cut_over [OF toy_env_ok legacy_log_empty])
  have ev: "TrimSpace ''token.issued'' \<noteq> []" by code_simp
  have c: "al_rows ?c = []" "h_baseSeq (readHead ?c) = 0" "h_baseHash (readHead ?c) = []" "h_legacyUntil (readHead ?c) = 0" "al_next ?c = 1"
    by code_simp+
  have ap: "s = raiseFloor (a_seq row) (writeHead toy_env (next_head toy_env row ?c) (?c\<lparr>al_rows := [row], al_next := a_seq row + 1\<rparr>))"
    using Append_succeeds [OF toy_env_ok(2) ev ok, of 0 5000 "''a''" "''b''" "''{}''"] c(1)
    unfolding s_def row_def Let_def by simp
  have sok: "audit_ok toy_env s" using audit_ok_Append [OF toy_env_ok(1) ok] unfolding s_def by blast
  then have an: "anchored toy_env s" using ap by (auto simp: audit_ok_def unsealed_empty_def)
  then have hv: "headValid toy_env (al_head s)" by (simp add: anchored_def Let_def)
  have "h_baseSeq (al_head s) = 0" "h_baseHash (al_head s) = []" using ap c by (auto simp: next_head_def Let_def)
  then have b0: "h_baseSeq (al_head s) = 0" and base: "base_row toy_env (h_legacyUntil (al_head s)) (h_baseSeq (al_head s)) (h_baseHash (al_head s))"
    by (simp_all add: base_row_def)
  have h: "0 \<le> h_legacyUntil (al_head s)" "0 \<le> h_seq (al_head s)"
    using ap c anchored_seq_nonneg [of s toy_env] sok an by (auto simp: next_head_def Let_def audit_ok_def)
  have sq: "a_seq row = 1" unfolding row_def using c(5) by (simp add: append_row_def Let_def)
  have "readHead s = al_head s" using headValid_present [OF hv] by (simp add: readHead_present)
  moreover have "0 \<le> al_floor s" using ap sq by simp
  ultimately have v: "fst (verifyTx toy_env (al_head s) 0 (s\<lparr>al_head := al_head s, al_rows := al_rows s\<rparr>)) = 0"
    using verifyTx_honest [OF sok, of 0] by simp
  have "utf8_row row" unfolding row_def by code_simp
  with sq have u: "\<forall>r\<in>set (al_rows s). h_legacyUntil (al_head s) < a_seq r \<and> h_baseSeq (al_head s) < a_seq r \<and> utf8_row r"
    using ap c(4) b0 by (simp add: next_head_def Let_def)
  show ?thesis
    using rows_determined_by_anchor [OF toy_env_binding hv base h _ v] hv u ap by (intro exI [of _ s]) auto
qed

lemma verifyTx_anchor_bad:
  assumes "anchorBreak E h (snd (verifyRows E h s)) floor False \<noteq> 0 \<or> headValid E h \<and> h_broken h \<noteq> 0"
  shows "fst (verifyTx E h floor s) \<noteq> 0"
  using assms unfolding verifyTx_def Let_def case_prod_beta by auto

definition broken_mark :: "audit_env \<Rightarrow> int \<Rightarrow> audit \<Rightarrow> bool" where
  "broken_mark E b s \<longleftrightarrow> headValid E (al_head s) \<and> h_broken (al_head s) = b \<and> b \<noteq> 0"

lemma broken_mark_readHead: "broken_mark E b s \<Longrightarrow> readHead s = al_head s"
  using headValid_present by (auto simp: broken_mark_def readHead_present)

lemma broken_mark_bad: "broken_mark E b s \<Longrightarrow> fst (verifyTx E (readHead s) floor s) \<noteq> 0"
  using broken_mark_readHead [of E b s] by (intro verifyTx_anchor_bad) (simp add: broken_mark_def)

text \<open>A step on a log marked broken keeps the mark and every row.\<close>

lemma broken_mark_step:
  assumes "crypto_ok E" "broken_mark E b s"
  shows "broken_mark E b (audit_step E c s) \<and> set (al_rows s) \<subseteq> set (al_rows (audit_step E c s))"
proof (cases c)
  case (CAppend fs gap now e a g d)
  obtain r s' where ap: "Append E fs gap now e a g d s = (r, s')" by (cases "Append E fs gap now e a g d s")
  show ?thesis
  proof (cases rule: Append_cases [OF ap])
    case (1 e)
    then show ?thesis using ap assms CAppend by simp
  next
    case (2 dj row)
    have "headValid E ((next_head E row s)\<lparr>h_present := True, h_mac := headMAC E (next_head E row s)\<rparr>)"
      by (rule headValid_seal [OF assms(1)])
    moreover have "h_broken (next_head E row s) = b"
      using assms(2) broken_mark_readHead [OF assms(2)] by (auto simp: next_head_def Let_def broken_mark_def)
    moreover have "set (al_rows s) \<subseteq> set (insert_row row (al_rows s))"
      using 2(4) by (force simp: insert_row_def)
    ultimately show ?thesis using 2 ap assms(2) CAppend by (simp add: broken_mark_def)
  qed
next
  case (CSeal fs lm)
  have "sealTx E fs lm True s \<in> {Inl ErrDriver, Inr (0, observe E (al_head s) s)}"
    using assms(2) broken_mark_readHead [OF assms(2)] headValid_present [of E "al_head s"]
    by (auto simp: sealTx_def Let_def broken_mark_def)
  then show ?thesis using CSeal assms(2) by (auto simp: SealAnchor_def broken_mark_def split: if_splits)
next
  case (CPrune fs cutoff)
  have "al_head (snd (Prune E fs cutoff s)) = al_head s \<and> al_rows (snd (Prune E fs cutoff s)) = al_rows s"
    using broken_mark_bad [OF assms(2), of "al_floor s"]
    unfolding Prune_def Let_def case_prod_beta verifyTx_snd by auto
  then show ?thesis using CPrune assms(2) by (simp add: broken_mark_def)
next
  case (CVerify fs)
  then show ?thesis using assms(2) by (auto simp: VerifyChain_def case_prod_beta verifyTx_snd broken_mark_def)
qed (use assms(2) in \<open>simp add: broken_mark_def\<close>)

interpretation brk: machine "audit_step E" "\<lambda>s. crypto_ok E \<longrightarrow> broken_mark E b s \<and> set R \<subseteq> set (al_rows s)" for E b R
  by unfold_locales (use broken_mark_step in blast)

text \<open>
  Evidence outlives the process: once a break is recorded in a sealed anchor, then after any
  further appends, seals, prunings, verifications and restarts, \<open>VerifyChain\<close> still reports a
  break, and no row that was there has been deleted.
\<close>

theorem recorded_break_is_permanent:
  assumes "crypto_ok E" "ae_key E" "headValid E (al_head s)" "h_broken (al_head s) \<noteq> 0"
  shows "let s' = run (audit_step E) cmds s
    in (\<exists>bad. bad \<noteq> 0 \<and> fst (VerifyChain E no_faults s') = Inr bad) \<and> set (al_rows s) \<subseteq> set (al_rows s')"
proof -
  let ?s = "run (audit_step E) cmds s"
  have "broken_mark E (h_broken (al_head s)) ?s \<and> set (al_rows s) \<subseteq> set (al_rows ?s)"
    using brk.inv_run [where E = E and b = "h_broken (al_head s)" and R = "al_rows s" and s = s and cs = cmds] assms by (simp add: broken_mark_def)
  then show ?thesis
    using broken_mark_bad [of E _ ?s "al_floor ?s"] assms(2)
    by (auto simp: VerifyChain_def case_prod_beta Let_def)
qed

definition marked_log :: audit where
  "marked_log = writeHead flat_env \<lparr>h_present = True, h_legacyUntil = 0, h_seq = 0, h_hash = [], h_broken = 3, h_mac = [],
     h_baseSeq = 0, h_baseHash = []\<rparr> (migrated [] 1)"

theorem recorded_break_is_permanent_witness:
  "headValid flat_env (al_head marked_log)
   \<and> (\<exists>bad. bad \<noteq> 0 \<and> fst (VerifyChain flat_env no_faults (run (audit_step flat_env) toy_cmds marked_log)) = Inr bad)"
proof -
  have h: "headValid flat_env (al_head marked_log)" "h_broken (al_head marked_log) \<noteq> 0" by code_simp+
  show ?thesis using recorded_break_is_permanent [OF flat_env_ok h, of toy_cmds] h(1) unfolding Let_def by blast
qed

text \<open>
  A replayed anchor is caught while the process lives: if the table holds any rows and any
  MAC-valid anchor whose head is below the highest head this process has seen, \<open>VerifyChain\<close>
  reports a break, and the next successful \<open>Append\<close> writes the break into the new anchor.
\<close>

theorem rolled_back_anchor_is_reported:
  assumes "crypto_ok E" "ae_key E" "headValid E (al_head s)" "0 \<le> h_seq (al_head s)" "h_seq (al_head s) < al_floor s"
  shows "(\<exists>bad. bad \<noteq> 0 \<and> fst (VerifyChain E no_faults s) = Inr bad)
    \<and> (\<forall>row s'. Append E faults gap clock eventType actor target details s = (Inr row, s') \<longrightarrow>
         headValid E (al_head s') \<and> h_broken (al_head s') \<noteq> 0)"
proof
  have p: "h_present (al_head s)" "h_mac (al_head s) \<noteq> []" using headValid_present [OF assms(3)] by auto
  have rh: "readHead s = al_head s" using p(1) by (rule readHead_present)
  have br: "anchorBreak E (al_head s) t (al_floor s) False \<noteq> 0" for t
    using assms(3-5) p by (simp add: anchorBreak_def)
  then show "\<exists>bad. bad \<noteq> 0 \<and> fst (VerifyChain E no_faults s) = Inr bad"
    using verifyTx_anchor_bad [of E "al_head s" s "al_floor s"] assms(2)
    by (simp add: VerifyChain_def case_prod_beta rh)
  show "\<forall>row s'. Append E faults gap clock eventType actor target details s = (Inr row, s') \<longrightarrow>
         headValid E (al_head s') \<and> h_broken (al_head s') \<noteq> 0"
  proof (intro allI impI)
    fix row s' assume ap: "Append E faults gap clock eventType actor target details s = (Inr row, s')"
    show "headValid E (al_head s') \<and> h_broken (al_head s') \<noteq> 0"
    proof (cases rule: Append_cases [OF ap])
      case (2 dj row')
      have "al_head s' = (next_head E row' s)\<lparr>h_present := True, h_mac := headMAC E (next_head E row' s)\<rparr>"
        using 2 by simp
      moreover have "h_broken (next_head E row' s) \<noteq> 0" using br by (simp add: next_head_def Let_def rh)
      ultimately show ?thesis using headValid_seal [OF assms(1)] by simp
    qed simp
  qed
qed

definition replayed_log :: audit where
  "replayed_log = (let s = run (audit_step flat_env) (take 1 toy_cmds) (cut_over flat_env [] 1);
     s' = audit_step flat_env (toy_cmds ! 1) s in s'\<lparr>al_rows := al_rows s, al_head := al_head s\<rparr>)"

theorem rolled_back_anchor_is_reported_witness:
  "headValid flat_env (al_head replayed_log) \<and> h_seq (al_head replayed_log) = 1 \<and> al_floor replayed_log = 4
   \<and> (\<exists>bad. bad \<noteq> 0 \<and> fst (VerifyChain flat_env no_faults replayed_log) = Inr bad)"
proof -
  have h: "headValid flat_env (al_head replayed_log)" "h_seq (al_head replayed_log) = 1" "al_floor replayed_log = 4"
    by code_simp+
  show ?thesis using rolled_back_anchor_is_reported [OF flat_env_ok h(1)] h by simp
qed

text \<open>
  Retention deletes old rows only and keeps the log verifiable: on an honest log a successful
  \<open>Prune\<close> removes exactly a leading run of rows that occurred before the cutoff, reports how many,
  changes no surviving row, never empties the log, and the shortened log verifies; on a log that
  does not verify it refuses and deletes nothing.
\<close>

theorem prune_removes_only_old_rows:
  assumes "crypto_ok E" "ae_key E"
  shows "(audit_ok E s \<and> Prune E faults cutoff s = (Inr n, s') \<longrightarrow>
      (\<exists>old. al_rows s = old @ al_rows s' \<and> length old = n \<and> (\<forall>r\<in>set old. \<exists>t. a_occurred r = Some t \<and> t < cutoff))
      \<and> (al_rows s \<noteq> [] \<longrightarrow> al_rows s' \<noteq> []) \<and> fst (VerifyChain E no_faults s') = Inr 0)
    \<and> (fst (VerifyChain E no_faults s) = Inr bad \<and> bad \<noteq> 0 \<longrightarrow>
      (case Prune E faults cutoff s of (r, s'') \<Rightarrow> isl r \<and> al_rows s'' = al_rows s \<and> al_head s'' = al_head s))"
proof (intro conjI impI)
  assume a: "audit_ok E s \<and> Prune E faults cutoff s = (Inr n, s')"
  then have ok: "audit_ok E s" and p: "Prune E faults cutoff s = (Inr n, s')" by auto
  have nm: "numbered s" using ok by (simp add: audit_ok_def)
  have ok': "audit_ok E s'" using audit_ok_Prune [OF assms(1) ok, of faults cutoff] p by simp
  show "fst (VerifyChain E no_faults s') = Inr 0"
    using verifyTx_honest [OF ok'] assms(2) by (simp add: VerifyChain_def case_prod_beta)
  show "\<exists>old. al_rows s = old @ al_rows s' \<and> length old = n \<and> (\<forall>r\<in>set old. \<exists>t. a_occurred r = Some t \<and> t < cutoff)"
  proof (cases rule: Prune_cases [OF p nm])
    case 1
    then show ?thesis by (intro exI [of _ "[]"]) auto
  next
    case (2 run rest)
    then show ?thesis by (intro exI [of _ run]) (auto simp: due_def split: option.splits)
  qed
  show "al_rows s \<noteq> [] \<Longrightarrow> al_rows s' \<noteq> []"
  proof (cases rule: Prune_cases [OF p nm])
    case (2 run rest)
    have an: "anchored E s" using 2(1,2) ok by (auto simp: audit_ok_def unsealed_empty_def)
    then have h: "readHead s = al_head s" "readTail s = (h_seq (al_head s), h_hash (al_head s))"
      using headValid_present [of E "al_head s"] by (auto simp: anchored_def Let_def readHead_present)
    have "rest \<noteq> []"
    proof
      assume "rest = []"
      then have "due cutoff (h_seq (al_head s)) (last (al_rows s))" "a_seq (last (al_rows s)) = h_seq (al_head s)"
        using 2(1-3) h by (auto simp: readTail_def)
      then show False by (auto simp: due_def split: option.splits)
    qed
    then show ?thesis using 2(7) by simp
  qed auto
next
  assume v: "fst (VerifyChain E no_faults s) = Inr bad \<and> bad \<noteq> 0"
  then have "fst (verifyTx E (readHead s) (al_floor s) s) \<noteq> 0"
    using assms(2) by (simp add: VerifyChain_def case_prod_beta)
  then show "case Prune E faults cutoff s of (r, s'') \<Rightarrow> isl r \<and> al_rows s'' = al_rows s \<and> al_head s'' = al_head s"
    using assms(2) unfolding Prune_def Let_def case_prod_beta verifyTx_snd by auto
qed

definition two_rows :: audit where
  "two_rows = run (audit_step flat_env) (take 2 toy_cmds) (cut_over flat_env [] 1)"

theorem prune_removes_only_old_rows_witness:
  "\<exists>s'. audit_ok flat_env two_rows \<and> length (al_rows two_rows) = 2 \<and> Prune flat_env no_faults 6000 two_rows = (Inr 1, s')
     \<and> (\<exists>old. al_rows two_rows = old @ al_rows s' \<and> length old = 1) \<and> fst (VerifyChain flat_env no_faults s') = Inr 0"
proof -
  have ok: "audit_ok flat_env two_rows"
    using aud.inv_run [of flat_env "cut_over flat_env [] 1"] audit_ok_cut_over [OF flat_env_ok legacy_log_empty] flat_env_ok(1)
    unfolding two_rows_def by blast
  obtain r s' where p: "Prune flat_env no_faults 6000 two_rows = (r, s')" by (rule prod.exhaust)
  have "fst (Prune flat_env no_faults 6000 two_rows) = Inr 1" "length (al_rows two_rows) = 2" by code_simp+
  then have r: "r = Inr 1" and l: "length (al_rows two_rows) = 2" unfolding p by simp_all
  show ?thesis
    using prune_removes_only_old_rows [OF flat_env_ok, of two_rows no_faults 6000 1 s' 0] ok p l unfolding r by blast
qed

text \<open>
  Zero is both "no break" and a possible sequence number: a row forged without the key, numbered
  0 and with an empty hash, is checked, found invalid and not reported.
\<close>

definition forged_row :: arow where
  "forged_row = \<lparr>a_seq = 0, a_occurred = Some 1, a_event = ''admin.login'', a_actor = ''mallory'', a_target = [],
     a_details = ''{}'', a_prev = ''forged'', a_hash = []\<rparr>"

lemma forged_row_zero_not_reported:
  assumes "audit_ok E s" "anchored E s" "h_baseSeq (al_head s) = 0" "h_baseHash (al_head s) = []" "al_rows s \<noteq> []" "ae_key E"
  shows "\<not> rowValid E forged_row [] (h_legacyUntil (al_head s))
    \<and> fst (VerifyChain E no_faults (s\<lparr>al_rows := forged_row # al_rows s\<rparr>)) = Inr 0"
proof
  show "\<not> rowValid E forged_row [] (h_legacyUntil (al_head s))" by (simp add: rowValid_def forged_row_def)
  let ?s = "s\<lparr>al_rows := forged_row # al_rows s\<rparr>"
  have hv: "headValid E (al_head s)" using assms(2) by (simp add: anchored_def Let_def)
  have rh: "readHead ?s = al_head s" "readHead s = al_head s"
    using headValid_present [OF hv] by (auto simp: readHeadCols_def)
  have "verifyRows E (al_head s) ?s = verifyRows E (al_head s) s"
    using assms(3-5) hv by (cases "al_rows s") (auto simp: verifyRows_def forged_row_def)
  then have "fst (verifyTx E (al_head s) (al_floor s) ?s) = fst (verifyTx E (al_head s) (al_floor s) s)"
    by (simp add: verifyTx_def Let_def case_prod_beta)
  then show "fst (VerifyChain E no_faults ?s) = Inr 0"
    using verifyTx_honest [OF assms(1), of "al_floor s"] assms(6) rh by (simp add: VerifyChain_def case_prod_beta)
qed

end
