(* ===== verification/Totp.thy ===== *)
theory Totp
  imports SK_Prelude Go_Strings Go_Json "HOL-Library.Signed_Division"
begin

text \<open>
  Time-based one-time passwords and recovery codes (\<open>internal/totp/totp.go\<close>). HMAC-SHA1 is a
  parameter \<open>hmac key message\<close>; what the code needs of it is that a digest has at least 20 bytes
  (\<open>mac_len\<close>). Base32 of the standard library is written out. \<open>Unix()/30\<close> is Go's division,
  which truncates towards zero.
\<close>

section \<open>Base32\<close>

definition b32_digit :: "nat \<Rightarrow> char" where
  "b32_digit n = ''ABCDEFGHIJKLMNOPQRSTUVWXYZ234567'' ! n"

definition b32_val :: "char \<Rightarrow> nat option" where
  "b32_val c =
     (let x = byte c in if 65 \<le> x \<and> x \<le> 90 then Some (x - 65)
      else if 50 \<le> x \<and> x \<le> 55 then Some (x - 24) else None)"

text \<open>\<open>base32.StdEncoding.EncodeToString\<close>: five bytes become eight digits; the last group is padded.\<close>

fun b32_enc :: "string \<Rightarrow> string" where
  "b32_enc (a # b # c # d # e # s) =
     map b32_digit [byte a div 8, byte a mod 8 * 4 + byte b div 64, byte b div 2 mod 32,
       byte b mod 2 * 16 + byte c div 16, byte c mod 16 * 2 + byte d div 128, byte d div 4 mod 32,
       byte d mod 4 * 8 + byte e div 32, byte e mod 32] @ b32_enc s"
| "b32_enc [a, b, c, d] =
     map b32_digit [byte a div 8, byte a mod 8 * 4 + byte b div 64, byte b div 2 mod 32,
       byte b mod 2 * 16 + byte c div 16, byte c mod 16 * 2 + byte d div 128, byte d div 4 mod 32,
       byte d mod 4 * 8] @ ''=''"
| "b32_enc [a, b, c] =
     map b32_digit [byte a div 8, byte a mod 8 * 4 + byte b div 64, byte b div 2 mod 32,
       byte b mod 2 * 16 + byte c div 16, byte c mod 16 * 2] @ ''===''"
| "b32_enc [a, b] =
     map b32_digit [byte a div 8, byte a mod 8 * 4 + byte b div 64, byte b div 2 mod 32,
       byte b mod 2 * 16] @ ''====''"
| "b32_enc [a] = map b32_digit [byte a div 8, byte a mod 8 * 4] @ ''======''"
| "b32_enc [] = []"

text \<open>One group of the decoder: the digits read, whether padding ended the input, and the rest.
  Padding is accepted from the third position on, when fewer than eight bytes follow it, when
  enough of it is there, and when the digits before it make up whole bytes.\<close>

fun b32_group :: "nat list \<Rightarrow> string \<Rightarrow> (nat list \<times> bool \<times> string) option" where
  "b32_group acc src =
     (if length acc \<ge> 8 then Some (acc, False, src)
      else case src of
        [] \<Rightarrow> None
      | c # rest \<Rightarrow>
          if c = CHR ''='' \<and> length acc \<ge> 2 \<and> length rest < 8 then
            (if length rest + length acc < 7 then None
             else if \<exists>k<7 - length acc. k < length rest \<and> rest ! k \<noteq> CHR ''='' then None
             else if length acc = 3 \<or> length acc = 6 then None
             else Some (acc, True, rest))
          else (case b32_val c of None \<Rightarrow> None | Some v \<Rightarrow> b32_group (acc @ [v]) rest))"

definition b32_pack :: "nat list \<Rightarrow> string" where
  "b32_pack ds =
     (let g = (\<lambda>i. ds ! i);
          bytes = [g 0 * 8 + g 1 div 4, g 1 * 64 + g 2 * 2 + g 3 div 16, g 3 * 16 + g 4 div 2,
                   g 4 * 128 + g 5 * 4 + g 6 div 8, g 6 * 32 + g 7];
          n = (if length ds = 8 then 5 else if length ds = 7 then 4 else if length ds = 5 then 3
               else if length ds = 4 then 2 else if length ds = 2 then 1 else 0)
      in map (\<lambda>x. to_byte (x mod 256)) (take n bytes))"

declare b32_group.simps [simp del]

lemma b32_group_shorter: "b32_group acc src = Some (ds, fin, rest) \<Longrightarrow> length acc < 8 \<Longrightarrow> length rest < length src"
proof (induction acc src rule: b32_group.induct)
  case (1 acc src)
  show ?case
  proof (cases src)
    case Nil
    then show ?thesis using 1 by (subst (asm) b32_group.simps) simp
  next
    case (Cons c rs)
    from 1(2,3) Cons have "rest = rs \<or> (\<exists>v. b32_val c = Some v \<and> b32_group (acc @ [v]) rs = Some (ds, fin, rest)
        \<and> \<not> (c = CHR ''='' \<and> length acc \<ge> 2 \<and> length rs < 8))"
      by (subst (asm) b32_group.simps) (auto split: if_splits option.splits)
    then consider "rest = rs" | v where "b32_val c = Some v" "b32_group (acc @ [v]) rs = Some (ds, fin, rest)"
        "\<not> (c = CHR ''='' \<and> length acc \<ge> 2 \<and> length rs < 8)" by blast
    then show ?thesis
    proof cases
      case (2 v)
      show ?thesis
      proof (cases "length (acc @ [v]) < 8")
        case True
        then show ?thesis using 1(1) [OF _ Cons] 2 1(3) Cons by fastforce
      next
        case False
        then have "rest = rs" using 2(2) by (subst (asm) b32_group.simps) simp
        then show ?thesis using Cons by simp
      qed
    qed (simp add: Cons)
  qed
qed

function b32_groups :: "string \<Rightarrow> string option" where
  "b32_groups src =
     (if src = [] then Some []
      else case b32_group [] src of
        None \<Rightarrow> None
      | Some (ds, fin, rest) \<Rightarrow>
          if fin then Some (b32_pack ds) else map_option (\<lambda>s. b32_pack ds @ s) (b32_groups rest))"
  by pat_completeness auto
termination
  by (relation "measure length") (auto dest: b32_group_shorter)

declare b32_groups.simps [simp del]

text \<open>\<open>base32.StdEncoding.DecodeString\<close>, which first drops line breaks.\<close>

definition b32_dec :: "string \<Rightarrow> string option" where
  "b32_dec s = b32_groups (filter (\<lambda>c. c \<noteq> CHR 0x0D \<and> c \<noteq> CHR 0x0A) s)"

section \<open>Codes\<close>

definition defaultDigits :: nat where "defaultDigits = 6"
definition defaultPeriod :: int where "defaultPeriod = 30"
definition secretBytes :: nat where "secretBytes = 20"
definition driftWindows :: int where "driftWindows = 1"

definition NewSecret :: "string option \<Rightarrow> string option" where
  "NewSecret rnd = map_option (\<lambda>buf. rev (dropWhile (\<lambda>c. c = CHR ''='') (rev (b32_enc buf)))) rnd"

definition Bytes :: "string \<Rightarrow> string option" where
  "Bytes s = (let pad = length s mod 8
     in b32_dec (if pad \<noteq> 0 then s @ replicate (8 - pad) (CHR ''='') else s))"

definition pow10 :: "nat \<Rightarrow> nat" where
  "pow10 n = fold (\<lambda>_ x. x * 10) [0..<n] 1"

text \<open>\<open>binary.BigEndian.PutUint64(buf, uint64(counter))\<close>.\<close>

definition put_uint64 :: "int \<Rightarrow> string" where
  "put_uint64 counter = (let u = nat (counter mod 2 ^ 64)
     in map (\<lambda>i. to_byte (u div 256 ^ i mod 256)) (rev [0..<8]))"

text \<open>\<open>fmt.Sprintf("%0*d", w, n)\<close>.\<close>

definition zero_padded :: "nat \<Rightarrow> nat \<Rightarrow> string" where
  "zero_padded w n = (let ds = dec_digits n in replicate (w - length ds) (CHR ''0'') @ ds)"

definition generate :: "(string \<Rightarrow> string \<Rightarrow> string) \<Rightarrow> string \<Rightarrow> int \<Rightarrow> string" where
  "generate hmac secret counter =
     (let hash = hmac secret (put_uint64 counter);
          offset = byte (last hash) mod 16;
          code = byte (hash ! offset) mod 128 * 2 ^ 24 + byte (hash ! (offset + 1)) * 2 ^ 16
               + byte (hash ! (offset + 2)) * 2 ^ 8 + byte (hash ! (offset + 3))
      in zero_padded defaultDigits (code mod pow10 defaultDigits))"

definition unix_step :: "time \<Rightarrow> int" where
  "unix_step at = (at div second) sdiv defaultPeriod"

definition Generate :: "(string \<Rightarrow> string \<Rightarrow> string) \<Rightarrow> string \<Rightarrow> time \<Rightarrow> string option" where
  "Generate hmac secret at =
     (case Bytes secret of None \<Rightarrow> None | Some raw \<Rightarrow> Some (generate hmac raw (unix_step at)))"

definition constantTimeEqual :: "string \<Rightarrow> string \<Rightarrow> bool" where
  "constantTimeEqual a b = (if length a \<noteq> length b then False else a = b)"

text \<open>The loop over \<open>delta\<close> from \<open>-driftWindows\<close> to \<open>driftWindows\<close>: the first step whose code matches.\<close>

definition step_matches :: "(string \<Rightarrow> string \<Rightarrow> string) \<Rightarrow> string \<Rightarrow> string \<Rightarrow> int \<Rightarrow> int \<Rightarrow> bool" where
  "step_matches hmac raw want stp delta = constantTimeEqual (generate hmac raw (stp + delta)) want"

definition VerifyStep ::
  "(string \<Rightarrow> string \<Rightarrow> string) \<Rightarrow> string \<Rightarrow> string \<Rightarrow> time \<Rightarrow> (int \<times> bool) option" where
  "VerifyStep hmac secret code at =
     (case Bytes secret of None \<Rightarrow> None
      | Some raw \<Rightarrow>
          let want = TrimSpace code
          in if length want \<noteq> defaultDigits then Some (0, False)
          else let stp = unix_step at
          in case find (step_matches hmac raw want stp) [- driftWindows..driftWindows] of
               Some delta \<Rightarrow> Some (stp + delta, True)
             | None \<Rightarrow> Some (0, False))"

definition Verify :: "(string \<Rightarrow> string \<Rightarrow> string) \<Rightarrow> string \<Rightarrow> string \<Rightarrow> time \<Rightarrow> bool option" where
  "Verify hmac secret code at = map_option snd (VerifyStep hmac secret code at)"

section \<open>Recovery codes\<close>

definition recovery_alphabet :: string where
  "recovery_alphabet = ''ABCDEFGHJKLMNPQRSTUVWXYZ23456789''"

definition recovery_code :: "string \<Rightarrow> string" where
  "recovery_code buf =
     (let ds = map (\<lambda>x. recovery_alphabet ! (byte x mod 32)) buf
      in take 5 ds @ (if length ds > 5 then CHR ''-'' # drop 5 ds else []))"

text \<open>The loop of \<open>NewRecoveryCodes\<close>: \<open>rnds\<close> are the successive draws of \<open>rand.Read\<close>; \<open>None\<close> when one
  of them failed or the draws ran out before \<open>n\<close> distinct codes were made.\<close>

fun recovery_loop :: "nat \<Rightarrow> string option list \<Rightarrow> string list \<Rightarrow> string list option" where
  "recovery_loop n rnds out =
     (if length out \<ge> n then Some out
      else case rnds of
        [] \<Rightarrow> None
      | None # _ \<Rightarrow> None
      | Some buf # rs \<Rightarrow>
          let code = recovery_code buf
          in if code \<in> set out then recovery_loop n rs out else recovery_loop n rs (out @ [code]))"

declare recovery_loop.simps [simp del]

definition NewRecoveryCodes :: "int \<Rightarrow> string option list \<Rightarrow> string list option" where
  "NewRecoveryCodes n rnds = recovery_loop (nat (if n \<le> 0 then 8 else n)) rnds []"

text \<open>\<open>strings.EqualFold\<close>: rune by rune; ASCII letters fold to each other, and \<open>folds\<close> says which other
  pairs lie in one simple-folding orbit.\<close>

definition fold_rune :: "(rune \<Rightarrow> rune \<Rightarrow> bool) \<Rightarrow> rune \<Rightarrow> rune \<Rightarrow> bool" where
  "fold_rune folds a b =
     (let s = min a b; t = max a b
      in if s = t then True
         else if t < 0x80 then 65 \<le> s \<and> s \<le> 90 \<and> t = s + 32
         else folds s t)"

definition EqualFold :: "(rune \<Rightarrow> rune \<Rightarrow> bool) \<Rightarrow> string \<Rightarrow> string \<Rightarrow> bool" where
  "EqualFold folds s t = list_all2 (fold_rune folds) (runes s) (runes t)"

definition recovery_want :: "unicode \<Rightarrow> string \<Rightarrow> string" where
  "recovery_want U code = ToUpper U (filter (\<lambda>c. c \<noteq> CHR '' '') (TrimSpace code))"

fun take_first :: "('a \<Rightarrow> bool) \<Rightarrow> 'a list \<Rightarrow> 'a list \<times> bool" where
  "take_first P [] = ([], False)"
| "take_first P (x # xs) = (if P x then (xs, True) else let (ys, ok) = take_first P xs in (x # ys, ok))"

definition ConsumeRecovery ::
  "unicode \<Rightarrow> (rune \<Rightarrow> rune \<Rightarrow> bool) \<Rightarrow> string list \<Rightarrow> string \<Rightarrow> string list \<times> bool" where
  "ConsumeRecovery U folds codes code =
     take_first (\<lambda>c. EqualFold folds (TrimSpace c) (recovery_want U code)) codes"

section \<open>Base32 round trip\<close>

lemma b32_val_digit: "n < 32 \<Longrightarrow> b32_val (b32_digit n) = Some n \<and> b32_digit n \<noteq> CHR ''=''"
proof -
  have "\<forall>n\<in>set [0..<32]. b32_val (b32_digit n) = Some n \<and> b32_digit n \<noteq> CHR ''=''" by code_simp
  then show "n < 32 \<Longrightarrow> ?thesis" by simp
qed

lemma b32_group_digits:
  "length acc + length ds \<le> 8 \<Longrightarrow> \<forall>d\<in>set ds. d < 32 \<Longrightarrow>
    b32_group acc (map b32_digit ds @ r) = b32_group (acc @ ds) r"
proof (induction ds arbitrary: acc)
  case (Cons d ds)
  have "b32_group acc (map b32_digit (d # ds) @ r) = b32_group (acc @ [d]) (map b32_digit ds @ r)"
    using Cons.prems b32_val_digit [of d] by (subst b32_group.simps) simp
  then show ?case using Cons by simp
qed simp


lemma low_digit: "x < m \<Longrightarrow> (h * m + x) div m = (h::nat)"
  by simp

lemma high_drop: "x < 256 \<Longrightarrow> (h * 256 + x) mod 256 = (x::nat)"
  by simp

lemma three_parts: "x div (m * n) * (m * n) + x div m mod n * m + x mod m = (x::nat)"
proof -
  have "x div m = x div (m * n) * n + x div m mod n" by (simp add: div_mult2_eq)
  then have "(x div (m * n) * n + x div m mod n) * m + x mod m = x" by (metis div_mult_mod_eq)
  then show ?thesis by (simp add: algebra_simps)
qed

lemma pack1: "b < 256 \<Longrightarrow> a div 8 * 8 + (a mod 8 * 4 + b div 64) div 4 = (a::nat)"
  using low_digit [of "b div 64" 4 "a mod 8"] by simp

lemma pack2:
  assumes "b < 256" "c < 256"
  shows "((a mod 8 * 4 + b div 64) * 64 + b div 2 mod 32 * 2 + (b mod 2 * 16 + c div 16) div 16) mod 256 = (b::nat)"
proof -
  have "(b mod 2 * 16 + c div 16) div 16 = b mod 2" using assms(2) by (intro low_digit) simp
  moreover have "b div 64 * 64 + b div 2 mod 32 * 2 + b mod 2 = b" using three_parts [of b 2 32] by simp
  ultimately have "(a mod 8 * 4 + b div 64) * 64 + b div 2 mod 32 * 2 + (b mod 2 * 16 + c div 16) div 16 = a mod 8 * 256 + b"
    by (simp only: algebra_simps)
  then show ?thesis using high_drop [OF assms(1)] by (simp only:)
qed

lemma pack3:
  assumes "c < 256" "d < 256"
  shows "((b mod 2 * 16 + c div 16) * 16 + (c mod 16 * 2 + d div 128) div 2) mod 256 = (c::nat)"
proof -
  have "(c mod 16 * 2 + d div 128) div 2 = c mod 16" using assms(2) by (intro low_digit) simp
  moreover have "c div 16 * 16 + c mod 16 = c" by simp
  ultimately have "(b mod 2 * 16 + c div 16) * 16 + (c mod 16 * 2 + d div 128) div 2 = b mod 2 * 256 + c"
    by (simp add: algebra_simps)
  then show ?thesis using high_drop [OF assms(1)] by simp
qed

lemma pack4:
  assumes "d < 256" "e < 256"
  shows "((c mod 16 * 2 + d div 128) * 128 + d div 4 mod 32 * 4 + (d mod 4 * 8 + e div 32) div 8) mod 256 = (d::nat)"
proof -
  have "(d mod 4 * 8 + e div 32) div 8 = d mod 4" using assms(2) by (intro low_digit) simp
  moreover have "d div 128 * 128 + d div 4 mod 32 * 4 + d mod 4 = d" using three_parts [of d 4 32] by simp
  ultimately have "(c mod 16 * 2 + d div 128) * 128 + d div 4 mod 32 * 4 + (d mod 4 * 8 + e div 32) div 8 = c mod 16 * 256 + d"
    by (simp only: algebra_simps)
  then show ?thesis using high_drop [OF assms(1)] by (simp only:)
qed

lemma pack5:
  assumes "e < 256"
  shows "((d mod 4 * 8 + e div 32) * 32 + e mod 32) mod 256 = (e::nat)"
proof -
  have "(d mod 4 * 8 + e div 32) * 32 + e mod 32 = d mod 4 * 256 + e" by (simp add: algebra_simps)
  then show ?thesis using high_drop [OF assms] by simp
qed

lemma pack_small:
  "a div 8 * 8 + a mod 8 * 4 div 4 = (a::nat)"
  "b < 256 \<Longrightarrow> ((a mod 8 * 4 + b div 64) * 64 + b div 2 mod 32 * 2 + b mod 2 * 16 div 16) mod 256 = (b::nat)"
  "c < 256 \<Longrightarrow> ((b mod 2 * 16 + c div 16) * 16 + c mod 16 * 2 div 2) mod 256 = c"
  "d < 256 \<Longrightarrow> ((c mod 16 * 2 + d div 128) * 128 + d div 4 mod 32 * 4 + d mod 4 * 8 div 8) mod 256 = d"
  using pack2 [of b 0 a] pack3 [of c 0 b] pack4 [of d 0 c] by simp_all

lemma group_bounds:
  "x < 256 \<Longrightarrow> x div 8 < (32::nat)" "x div 2 mod 32 < (32::nat)" "x div 4 mod 32 < (32::nat)" "x mod 32 < (32::nat)"
  "y < 256 \<Longrightarrow> x mod 8 * 4 + y div 64 < (32::nat)" "y < 256 \<Longrightarrow> x mod 2 * 16 + y div 16 < (32::nat)"
  "y < 256 \<Longrightarrow> x mod 16 * 2 + y div 128 < (32::nat)" "y < 256 \<Longrightarrow> x mod 4 * 8 + y div 32 < (32::nat)"
  "x mod 8 * 4 < (32::nat)" "x mod 2 * 16 < (32::nat)" "x mod 16 * 2 < (32::nat)" "x mod 4 * 8 < (32::nat)"
  by linarith+
lemma pack1':
  "b < 256 \<Longrightarrow> a < 256 \<Longrightarrow> (a div 8 * 8 + (a mod 8 * 4 + b div 64) div 4) mod 256 = (a::nat)"
  "a < 256 \<Longrightarrow> (a div 8 * 8 + a mod 8 * 4 div 4) mod 256 = (a::nat)"
  by (simp_all only: pack1 pack_small) simp_all

lemmas pack_bytes = pack1' pack2 pack3 pack4 pack5 pack_small(2-4) nat_of_char_less_256 char_of_char

lemma b32_pack_simps:
  "b32_pack [a, b, c, d, e, f, g, h] = [to_byte ((a * 8 + b div 4) mod 256), to_byte ((b * 64 + c * 2 + d div 16) mod 256),
     to_byte ((d * 16 + e div 2) mod 256), to_byte ((e * 128 + f * 4 + g div 8) mod 256), to_byte ((g * 32 + h) mod 256)]"
  "b32_pack [a, b, c, d, e, f, g] = [to_byte ((a * 8 + b div 4) mod 256), to_byte ((b * 64 + c * 2 + d div 16) mod 256),
     to_byte ((d * 16 + e div 2) mod 256), to_byte ((e * 128 + f * 4 + g div 8) mod 256)]"
  "b32_pack [a, b, c, d, e] = [to_byte ((a * 8 + b div 4) mod 256), to_byte ((b * 64 + c * 2 + d div 16) mod 256),
     to_byte ((d * 16 + e div 2) mod 256)]"
  "b32_pack [a, b, c, d] = [to_byte ((a * 8 + b div 4) mod 256), to_byte ((b * 64 + c * 2 + d div 16) mod 256)]"
  "b32_pack [a, b] = [to_byte ((a * 8 + b div 4) mod 256)]"
  by (simp_all add: b32_pack_def Let_def)

lemma b32_groups_full:
  assumes "length ds = 8" "\<forall>d\<in>set ds. d < 32"
  shows "b32_groups (map b32_digit ds @ r) = map_option (\<lambda>t. b32_pack ds @ t) (b32_groups r)"
proof -
  have "b32_group [] (map b32_digit ds @ r) = b32_group ds r"
    using b32_group_digits [of "[]" ds r] assms by simp
  also have "\<dots> = Some (ds, False, r)" using assms(1) by (subst b32_group.simps) simp
  finally have "b32_group [] (map b32_digit ds @ r) = Some (ds, False, r)" .
  moreover have "map b32_digit ds @ r \<noteq> []" using assms(1) by auto
  ultimately show ?thesis using assms(1) by (subst b32_groups.simps) auto
qed

lemma b32_groups_padded:
  assumes "length ds \<in> {2, 4, 5, 7}" "\<forall>d\<in>set ds. d < 32"
  shows "b32_groups (map b32_digit ds @ replicate (8 - length ds) (CHR ''='')) = Some (b32_pack ds)"
proof -
  let ?p = "replicate (8 - length ds) (CHR ''='')"
  obtain r where r: "?p = CHR ''='' # r" "r = replicate (7 - length ds) (CHR ''='')"
    using assms(1) by (auto simp: numeral_eq_Suc)
  have "b32_group [] (map b32_digit ds @ ?p) = b32_group ds ?p"
    using b32_group_digits [of "[]" ds ?p] assms by auto
  also have "\<dots> = Some (ds, True, r)" using assms(1) r by (subst b32_group.simps) auto
  finally have "b32_group [] (map b32_digit ds @ ?p) = Some (ds, True, r)" .
  moreover have "map b32_digit ds @ ?p \<noteq> []" using assms(1) by auto
  ultimately show ?thesis using assms(1) by (subst b32_groups.simps) auto
qed

lemma pad_lits:
  "replicate (8 - length [a, b, c, d, e, f, g]) (CHR ''='') = ''=''"
  "replicate (8 - length [a, b, c, d, e]) (CHR ''='') = ''===''"
  "replicate (8 - length [a, b, c, d]) (CHR ''='') = ''====''"
  "replicate (8 - length [a, b]) (CHR ''='') = ''======''"
  by (simp_all add: numeral_eq_Suc)

lemma range32: "\<forall>x\<in>set []. x < (32::nat)" "x < 32 \<Longrightarrow> \<forall>y\<in>set ys. y < 32 \<Longrightarrow> \<forall>y\<in>set (x # ys). y < (32::nat)"
  by simp_all

lemma b32_round_trip: "b32_groups (b32_enc s) = Some s"
proof (induction s rule: b32_enc.induct)
  case (1 a b c d e s)
  let ?ds = "[byte a div 8, byte a mod 8 * 4 + byte b div 64, byte b div 2 mod 32,
       byte b mod 2 * 16 + byte c div 16, byte c mod 16 * 2 + byte d div 128, byte d div 4 mod 32,
       byte d mod 4 * 8 + byte e div 32, byte e mod 32]"
  have p: "b32_pack ?ds = [a, b, c, d, e]"
    by (simp only: b32_pack_simps pack_bytes)
  have r: "\<forall>d\<in>set ?ds. d < 32" by (rule range32 group_bounds nat_of_char_less_256)+
  have "b32_groups (map b32_digit ?ds @ b32_enc s) = map_option (\<lambda>t. b32_pack ?ds @ t) (b32_groups (b32_enc s))"
    by (rule b32_groups_full [OF _ r]) simp
  then show ?case unfolding b32_enc.simps(1) p 1 by simp
next
  case (2 a b c d)
  let ?ds = "[byte a div 8, byte a mod 8 * 4 + byte b div 64, byte b div 2 mod 32,
       byte b mod 2 * 16 + byte c div 16, byte c mod 16 * 2 + byte d div 128, byte d div 4 mod 32, byte d mod 4 * 8]"
  have p: "b32_pack ?ds = [a, b, c, d]"
    by (simp only: b32_pack_simps pack_bytes)
  have r: "\<forall>d\<in>set ?ds. d < 32" by (rule range32 group_bounds nat_of_char_less_256)+
  have q: "replicate (8 - length ?ds) (CHR ''='') = ''=''" by (rule pad_lits)
  have "length ?ds \<in> {2, 4, 5, 7}" by simp
  then show ?case using b32_groups_padded [OF _ r] unfolding b32_enc.simps(2) p q by blast
next
  case (3 a b c)
  let ?ds = "[byte a div 8, byte a mod 8 * 4 + byte b div 64, byte b div 2 mod 32,
       byte b mod 2 * 16 + byte c div 16, byte c mod 16 * 2]"
  have p: "b32_pack ?ds = [a, b, c]"
    by (simp only: b32_pack_simps pack_bytes)
  have r: "\<forall>d\<in>set ?ds. d < 32" by (rule range32 group_bounds nat_of_char_less_256)+
  have q: "replicate (8 - length ?ds) (CHR ''='') = ''===''" by (rule pad_lits)
  have "length ?ds \<in> {2, 4, 5, 7}" by simp
  then show ?case using b32_groups_padded [OF _ r] unfolding b32_enc.simps(3) p q by blast
next
  case (4 a b)
  let ?ds = "[byte a div 8, byte a mod 8 * 4 + byte b div 64, byte b div 2 mod 32, byte b mod 2 * 16]"
  have p: "b32_pack ?ds = [a, b]"
    by (simp only: b32_pack_simps pack_bytes)
  have r: "\<forall>d\<in>set ?ds. d < 32" by (rule range32 group_bounds nat_of_char_less_256)+
  have q: "replicate (8 - length ?ds) (CHR ''='') = ''====''" by (rule pad_lits)
  have "length ?ds \<in> {2, 4, 5, 7}" by simp
  then show ?case using b32_groups_padded [OF _ r] unfolding b32_enc.simps(4) p q by blast
next
  case (5 a)
  let ?ds = "[byte a div 8, byte a mod 8 * 4]"
  have p: "b32_pack ?ds = [a]"
    by (simp only: b32_pack_simps pack_bytes)
  have r: "\<forall>d\<in>set ?ds. d < 32" by (rule range32 group_bounds nat_of_char_less_256)+
  have q: "replicate (8 - length ?ds) (CHR ''='') = ''======''" by (rule pad_lits)
  have "length ?ds \<in> {2, 4, 5, 7}" by simp
  then show ?case using b32_groups_padded [OF _ r] unfolding b32_enc.simps(5) p q by blast
next
  case 6
  then show ?case by (simp add: b32_groups.simps)
qed
lemma shape_padded:
  assumes "\<forall>d\<in>set ds. d < 32" "length ds \<in> {2, 4, 5, 7}" "p = replicate (8 - length ds) (CHR ''='')"
  shows "\<exists>ds' n. map b32_digit ds @ p = map b32_digit ds' @ replicate n (CHR ''='') \<and> (\<forall>d\<in>set ds'. d < 32) \<and> n < 8
    \<and> (length ds' + n) mod 8 = (0::nat)"
  by (rule exI [of _ ds], rule exI [of _ "8 - length ds"]) (use assms in auto)

lemma b32_enc_shape:
  "\<exists>ds n. b32_enc s = map b32_digit ds @ replicate n (CHR ''='') \<and> (\<forall>d\<in>set ds. d < 32) \<and> n < 8 \<and> (length ds + n) mod 8 = 0"
proof (induction s rule: b32_enc.induct)
  case (1 a b c d e s)
  let ?ds = "[byte a div 8, byte a mod 8 * 4 + byte b div 64, byte b div 2 mod 32,
       byte b mod 2 * 16 + byte c div 16, byte c mod 16 * 2 + byte d div 128, byte d div 4 mod 32,
       byte d mod 4 * 8 + byte e div 32, byte e mod 32]"
  have r: "\<forall>d\<in>set ?ds. d < 32" by (rule range32 group_bounds nat_of_char_less_256)+
  from 1 obtain ds n where i: "b32_enc s = map b32_digit ds @ replicate n (CHR ''='')" "\<forall>d\<in>set ds. d < 32"
    "n < 8" "(length ds + n) mod 8 = 0" by (elim exE conjE) (rule that)
  have "length ?ds = 8" by simp
  then have l: "length (?ds @ ds) + n = 8 + (length ds + n)" by (simp only: length_append)
  have "(length (?ds @ ds) + n) mod 8 = 0" unfolding l using i(4) by (simp only: mod_add_self1)
  moreover have "b32_enc (a # b # c # d # e # s) = map b32_digit (?ds @ ds) @ replicate n (CHR ''='')"
    unfolding b32_enc.simps(1) i(1) by (simp only: map_append append_assoc)
  moreover have "\<forall>d\<in>set (?ds @ ds). d < 32" using r i(2) by (simp only: set_append Un_iff) blast
  ultimately show ?case using i(3) by (intro exI conjI)
next
  case (2 a b c d)
  let ?ds = "[byte a div 8, byte a mod 8 * 4 + byte b div 64, byte b div 2 mod 32,
       byte b mod 2 * 16 + byte c div 16, byte c mod 16 * 2 + byte d div 128, byte d div 4 mod 32, byte d mod 4 * 8]"
  have "\<forall>d\<in>set ?ds. d < 32" by (rule range32 group_bounds nat_of_char_less_256)+
  then show ?case unfolding b32_enc.simps(2) by (rule shape_padded) (simp only: list.size, simp, rule pad_lits [symmetric])
next
  case (3 a b c)
  let ?ds = "[byte a div 8, byte a mod 8 * 4 + byte b div 64, byte b div 2 mod 32,
       byte b mod 2 * 16 + byte c div 16, byte c mod 16 * 2]"
  have "\<forall>d\<in>set ?ds. d < 32" by (rule range32 group_bounds nat_of_char_less_256)+
  then show ?case unfolding b32_enc.simps(3) by (rule shape_padded) (simp only: list.size, simp, rule pad_lits [symmetric])
next
  case (4 a b)
  let ?ds = "[byte a div 8, byte a mod 8 * 4 + byte b div 64, byte b div 2 mod 32, byte b mod 2 * 16]"
  have "\<forall>d\<in>set ?ds. d < 32" by (rule range32 group_bounds nat_of_char_less_256)+
  then show ?case unfolding b32_enc.simps(4) by (rule shape_padded) (simp only: list.size, simp, rule pad_lits [symmetric])
next
  case (5 a)
  let ?ds = "[byte a div 8, byte a mod 8 * 4]"
  have "\<forall>d\<in>set ?ds. d < 32" by (rule range32 group_bounds nat_of_char_less_256)+
  then show ?case unfolding b32_enc.simps(5) by (rule shape_padded) (simp only: list.size, simp, rule pad_lits [symmetric])
next
  case 6
  show ?case by (rule exI [of _ "[]"], rule exI [of _ 0]) simp
qed

lemma trimmed_padding:
  assumes "\<forall>d\<in>set ds. d < 32"
  shows "rev (dropWhile (\<lambda>c. c = CHR ''='') (rev (map b32_digit ds @ replicate n (CHR ''='')))) = map b32_digit ds"
proof -
  have "dropWhile (\<lambda>c. c = CHR ''='') (replicate n (CHR ''='') @ rev (map b32_digit ds)) = rev (map b32_digit ds)"
  proof (cases "rev ds")
    case (Cons x xs)
    then have "x < 32" using assms by (metis list.set_intros(1) set_rev)
    then show ?thesis using Cons b32_val_digit [of x] by (induction n) (simp_all add: rev_map)
  qed (induction n; simp)
  then show ?thesis by simp
qed

lemma repad:
  assumes "n < 8" "(m + n) mod 8 = (0::nat)"
  shows "n = (if m mod 8 = 0 then 0 else 8 - m mod 8)"
proof -
  have "(m mod 8 + n) mod 8 = 0" using assms(2) by (simp add: mod_add_left_eq)
  then have "8 dvd (m mod 8 + n)" by (rule mod_0_imp_dvd)
  then obtain k where k: "m mod 8 + n = 8 * k" by blast
  moreover have "m mod 8 < 8" by simp
  ultimately have "k < 2" using assms(1) by linarith
  then have "k = 0 \<or> k = 1" by linarith
  then show ?thesis using k assms(1) by auto
qed

lemma Bytes_NewSecret:
  assumes "NewSecret (Some buf) = Some sec"
  shows "Bytes sec = Some buf"
proof -
  obtain ds n where e: "b32_enc buf = map b32_digit ds @ replicate n (CHR ''='')" "\<forall>d\<in>set ds. d < 32" "n < 8"
    "(length ds + n) mod 8 = 0" using b32_enc_shape [of buf] by (elim exE conjE) (rule that)
  have sec: "sec = map b32_digit ds" using assms trimmed_padding [OF e(2), of n] e(1) by (simp add: NewSecret_def)
  have n: "n = (if length ds mod 8 = 0 then 0 else 8 - length ds mod 8)" using repad [OF e(3,4)] .
  have "(if length sec mod 8 \<noteq> 0 then sec @ replicate (8 - length sec mod 8) (CHR ''='') else sec) = b32_enc buf"
    using n by (auto simp: sec e(1))
  moreover have "filter (\<lambda>c. c \<noteq> CHR 0x0D \<and> c \<noteq> CHR 0x0A) (b32_enc buf) = b32_enc buf"
  proof (rule filter_True, rule ballI)
    fix c assume "c \<in> set (b32_enc buf)"
    then consider d where "c = b32_digit d" "d < 32" | "c = CHR ''=''" using e(1,2) by auto
    then show "c \<noteq> CHR 0x0D \<and> c \<noteq> CHR 0x0A"
      by cases (use b32_val_digit in \<open>force simp: b32_val_def\<close>)+
  qed
  ultimately show ?thesis by (simp add: Bytes_def Let_def b32_dec_def b32_round_trip)
qed

section \<open>Codes are six digits\<close>

lemma length_dec_digits: "n < 10 ^ Suc k \<Longrightarrow> length (dec_digits n) \<le> Suc k"
proof (induction k arbitrary: n)
  case (Suc k)
  show ?case
  proof (cases "n < 10")
    case False
    then have "n div 10 < 10 ^ Suc k" using Suc.prems by (simp add: div_less_iff_less_mult)
    then have "length (dec_digits (n div 10)) \<le> Suc k" by (rule Suc.IH)
    with False show ?thesis by (subst dec_digits.simps) simp
  qed (simp add: dec_digits.simps)
qed (simp add: dec_digits.simps)

lemma pow10_6: "pow10 defaultDigits = 10 ^ 6"
  by code_simp

lemma generate_digits: "length (generate hmac raw c) = 6" "x \<in> set (generate hmac raw c) \<Longrightarrow> 48 \<le> byte x \<and> byte x \<le> 57"
proof -
  have "length (zero_padded 6 m) = 6" if "m < 10 ^ 6" for m
    using length_dec_digits [of m 5] that by (simp add: zero_padded_def Let_def)
  then show "length (generate hmac raw c) = 6"
    using pow10_6 by (simp add: generate_def Let_def defaultDigits_def)
  show "x \<in> set (generate hmac raw c) \<Longrightarrow> 48 \<le> byte x \<and> byte x \<le> 57"
    using dec_digits_chars by (auto simp: generate_def Let_def zero_padded_def)
qed

lemma TrimSpace_generate: "TrimSpace (generate hmac raw c) = generate hmac raw c"
proof -
  have "plain_char x" if "x \<in> set (generate hmac raw c)" for x
    using generate_digits(2) [OF that] by (auto simp: plain_char_def IsSpace_def)
  moreover have "generate hmac raw c \<noteq> []" using generate_digits(1) [of hmac raw c] by auto
  ultimately show ?thesis by (intro TrimSpace_plain) auto
qed

section \<open>Recovery codes are distinct and single use\<close>

definition recovery_char :: "char \<Rightarrow> bool" where
  "recovery_char c \<longleftrightarrow> c = CHR ''-'' \<or> c \<in> set recovery_alphabet"

lemma recovery_char_plain: "recovery_char c \<Longrightarrow> byte c < 0x80 \<and> plain_char c \<and> \<not> (97 \<le> byte c \<and> byte c \<le> 122) \<and> c \<noteq> CHR '' ''"
proof -
  have "\<forall>c\<in>set (CHR ''-'' # recovery_alphabet). byte c < 0x80 \<and> plain_char c \<and> \<not> (97 \<le> byte c \<and> byte c \<le> 122) \<and> c \<noteq> CHR '' ''"
    by code_simp
  moreover assume "recovery_char c"
  then have "c \<in> set (CHR ''-'' # recovery_alphabet)" unfolding recovery_char_def by (simp only: list.set insert_iff)
  ultimately show ?thesis by (rule bspec)
qed

definition recovery_text :: "string \<Rightarrow> bool" where
  "recovery_text s \<longleftrightarrow> s \<noteq> [] \<and> (\<forall>c\<in>set s. recovery_char c)"

lemma recovery_text_ascii: "recovery_text s \<Longrightarrow> ascii s"
  using recovery_char_plain by (auto simp: recovery_text_def ascii_def)

lemma recovery_text_trim: "recovery_text s \<Longrightarrow> TrimSpace s = s"
  using recovery_char_plain by (intro TrimSpace_plain) (auto simp: recovery_text_def)

lemma of_runes_bytes: "ascii s \<Longrightarrow> of_runes (map byte s) = s"
  by (induction s) (auto simp: of_runes_def encode_rune_def)

lemma recovery_want_id:
  assumes "recovery_text s"
  shows "recovery_want U s = s"
proof -
  have "map (upper_rune U) (runes s) = map byte s"
    using assms recovery_char_plain by (auto simp: runes_ascii recovery_text_ascii recovery_text_def upper_rune_def)
  moreover have "filter (\<lambda>c. c \<noteq> CHR '' '') s = s"
    using assms recovery_char_plain by (intro filter_True) (auto simp: recovery_text_def)
  ultimately show ?thesis
    using assms by (simp add: recovery_want_def recovery_text_trim ToUpper_def recovery_text_ascii of_runes_bytes)
qed

lemma fold_rune_recovery:
  assumes "recovery_char a" "recovery_char b"
  shows "fold_rune folds (byte a) (byte b) \<longleftrightarrow> a = b"
  using recovery_char_plain [OF assms(1)] recovery_char_plain [OF assms(2)]
  by (auto simp: fold_rune_def Let_def min_def max_def split: if_splits)

lemma EqualFold_recovery:
  assumes "recovery_text s" "recovery_text t"
  shows "EqualFold folds s t \<longleftrightarrow> s = t"
proof -
  have "list_all2 (fold_rune folds) (map byte s) (map byte t) \<longleftrightarrow> s = t"
    if "\<forall>c\<in>set s. recovery_char c" "\<forall>c\<in>set t. recovery_char c"
    using that
  proof (induction s arbitrary: t)
    case (Cons a s)
    then show ?case by (cases t) (auto simp: fold_rune_recovery)
  qed (auto simp: list_all2_Nil)
  then show ?thesis using assms by (simp add: EqualFold_def runes_ascii recovery_text_ascii) (simp add: recovery_text_def)
qed

lemma take_first_remove1: "take_first (\<lambda>y. y = x) xs = (remove1 x xs, x \<in> set xs)"
  by (induction xs) auto

lemma take_first_cong: "(\<And>x. x \<in> set xs \<Longrightarrow> P x = Q x) \<Longrightarrow> take_first P xs = take_first Q xs"
  by (induction xs) auto

lemma ConsumeRecovery_remove1:
  assumes "\<forall>c\<in>set codes. recovery_text c" "recovery_text code"
  shows "ConsumeRecovery U folds codes code = (remove1 code codes, code \<in> set codes)"
proof -
  have "take_first (\<lambda>c. EqualFold folds (TrimSpace c) (recovery_want U code)) codes = take_first (\<lambda>c. c = code) codes"
    using assms by (intro take_first_cong) (simp add: recovery_text_trim recovery_want_id EqualFold_recovery)
  then show ?thesis by (simp add: ConsumeRecovery_def take_first_remove1)
qed

lemma recovery_code_text:
  assumes "buf \<noteq> []"
  shows "recovery_text (recovery_code buf)"
proof -
  have "recovery_char (recovery_alphabet ! (n mod 32))" for n
  proof -
    have "n mod 32 < length recovery_alphabet" by (simp add: recovery_alphabet_def)
    then show ?thesis by (auto simp: recovery_char_def)
  qed
  moreover have "recovery_char (CHR ''-'')" by (simp add: recovery_char_def)
  ultimately show ?thesis using assms
    by (auto simp: recovery_code_def recovery_text_def Let_def dest!: in_set_takeD in_set_dropD)
qed

lemma recovery_loop_codes:
  assumes "recovery_loop n rnds out = Some codes" "distinct out" "\<forall>c\<in>set out. recovery_text c"
    "length out \<le> n" "\<forall>buf. Some buf \<in> set rnds \<longrightarrow> buf \<noteq> []"
  shows "distinct codes \<and> length codes = n \<and> (\<forall>c\<in>set codes. recovery_text c)"
  using assms
proof (induction rnds arbitrary: out)
  case Nil
  then show ?case by (subst (asm) recovery_loop.simps) (auto split: if_splits)
next
  case (Cons x rs)
  consider (full) "length out \<ge> n" | (failed) "\<not> length out \<ge> n" "x = None" | (drawn) buf where "\<not> length out \<ge> n" "x = Some buf"
    by (cases x) auto
  then show ?case
  proof cases
    case full
    then show ?thesis using Cons.prems by (subst (asm) recovery_loop.simps) auto
  next
    case failed
    then show ?thesis using Cons.prems(1) by (subst (asm) recovery_loop.simps) simp
  next
    case (drawn buf)
    let ?out = "if recovery_code buf \<in> set out then out else out @ [recovery_code buf]"
    have l: "recovery_loop n rs ?out = Some codes"
      using Cons.prems(1) drawn by (subst (asm) recovery_loop.simps) (auto simp: Let_def split: if_splits)
    have t: "recovery_text (recovery_code buf)" using drawn Cons.prems(5) recovery_code_text by simp
    show ?thesis
      by (rule Cons.IH [OF l]) (use Cons.prems drawn t in auto)
  qed
qed

lemma NewRecoveryCodes_codes:
  assumes "NewRecoveryCodes n rnds = Some codes" "\<forall>buf. Some buf \<in> set rnds \<longrightarrow> length buf = 10"
  shows "distinct codes \<and> int (length codes) = (if n \<le> 0 then 8 else n) \<and> (\<forall>c\<in>set codes. recovery_text c)"
  using recovery_loop_codes [of _ rnds "[]" codes] assms by (fastforce simp: NewRecoveryCodes_def)

section \<open>Which codes are accepted\<close>

lemma drift_range: "[- driftWindows..driftWindows] = [-1, 0, 1]"
  by code_simp

lemma find3_Some:
  "find P [-1, 0, 1] = Some (d::int) \<longleftrightarrow> \<bar>d\<bar> \<le> 1 \<and> P d \<and> (\<forall>d'. \<bar>d'\<bar> \<le> 1 \<and> d' < d \<longrightarrow> \<not> P d')"
proof -
  have "\<bar>d\<bar> \<le> 1 \<longleftrightarrow> d = -1 \<or> d = 0 \<or> d = 1" for d :: int by arith
  then show ?thesis by auto
qed

lemma VerifyStep_raw:
  assumes "Bytes secret = Some raw"
  shows "VerifyStep hmac secret code at =
    Some (case find (\<lambda>delta. generate hmac raw (unix_step at + delta) = TrimSpace code) [-1, 0, 1] of
            Some delta \<Rightarrow> (unix_step at + delta, True) | None \<Rightarrow> (0, False))"
proof -
  have ct: "constantTimeEqual a b = (a = b)" for a b by (auto simp: constantTimeEqual_def)
  show ?thesis
  proof (cases "length (TrimSpace code) = defaultDigits")
    case True
    then show ?thesis by (simp add: VerifyStep_def step_matches_def [abs_def] assms Let_def ct drift_range split: option.split)
  next
    case False
    then have "generate hmac raw s \<noteq> TrimSpace code" for s
      using generate_digits(1) [of hmac raw s] by (auto simp: defaultDigits_def)
    then show ?thesis using False by (simp add: VerifyStep_def assms Let_def)
  qed
qed

section \<open>Properties\<close>

text \<open>
  Exactly the codes of the current 30-second step and of its two neighbours are accepted: with
  a decodable secret, \<open>VerifyStep\<close> answers (it never fails), and it accepts with step \<open>s\<close> if and
  only if \<open>s\<close> is the earliest of the three steps whose code is the trimmed input.
\<close>

theorem accepted_codes_are_current:
  assumes "Bytes secret = Some raw"
  shows "VerifyStep hmac secret code at \<noteq> None
    \<and> (VerifyStep hmac secret code at = Some (s, True) \<longleftrightarrow>
        \<bar>s - unix_step at\<bar> \<le> 1 \<and> generate hmac raw s = TrimSpace code
        \<and> (\<forall>s'. \<bar>s' - unix_step at\<bar> \<le> 1 \<and> s' < s \<longrightarrow> generate hmac raw s' \<noteq> TrimSpace code))"
proof -
  let ?u = "unix_step at"
  have "VerifyStep hmac secret code at = Some (s, True)
      \<longleftrightarrow> find (\<lambda>delta. generate hmac raw (?u + delta) = TrimSpace code) [-1, 0, 1] = Some (s - ?u)"
    unfolding VerifyStep_raw [OF assms] by (auto split: option.splits)
  also have "\<dots> \<longleftrightarrow> \<bar>s - ?u\<bar> \<le> 1 \<and> generate hmac raw s = TrimSpace code
        \<and> (\<forall>d. \<bar>d\<bar> \<le> 1 \<and> d < s - ?u \<longrightarrow> generate hmac raw (?u + d) \<noteq> TrimSpace code)"
    unfolding find3_Some by simp
  also have "(\<forall>d. \<bar>d\<bar> \<le> 1 \<and> d < s - ?u \<longrightarrow> generate hmac raw (?u + d) \<noteq> TrimSpace code)
      \<longleftrightarrow> (\<forall>s'. \<bar>s' - ?u\<bar> \<le> 1 \<and> s' < s \<longrightarrow> generate hmac raw s' \<noteq> TrimSpace code)"
    by (metis add.commute add_diff_cancel_left' diff_add_cancel less_diff_eq)
  finally show ?thesis using VerifyStep_raw [OF assms] by simp
qed

text \<open>A stand-in digest for evaluation: twenty bytes that depend on the counter.\<close>

definition toy_hmac :: "string \<Rightarrow> string \<Rightarrow> string" where
  "toy_hmac key msg = drop 4 msg @ replicate 16 (CHR 0x00)"

definition toy_secret :: string where "toy_secret = ''GEZDGNBVGY3TQOJQGEZDGNBVGY3TQOJQ''"

lemma toy_secret_bytes: "Bytes toy_secret = Some ''12345678901234567890''"
  by code_simp

theorem accepted_codes_are_current_witness:
  "VerifyStep toy_hmac toy_secret '' 000002 '' (65 * second) = Some (2, True)
   \<and> generate toy_hmac ''12345678901234567890'' 2 = ''000002''
   \<and> \<not> VerifyStep toy_hmac toy_secret ''000002'' (200 * second) = Some (2, True)"
proof -
  let ?raw = "''12345678901234567890''"
  have g: "generate toy_hmac ?raw 2 = ''000002''" "generate toy_hmac ?raw 1 \<noteq> ''000002''"
    "unix_step (65 * second) = 2" "unix_step (200 * second) = 6" "TrimSpace '' 000002 '' = ''000002''"
    by code_simp+
  have "\<forall>s'. \<bar>s' - 2\<bar> \<le> 1 \<and> s' < 2 \<longrightarrow> generate toy_hmac ?raw s' \<noteq> ''000002''"
  proof (intro allI impI)
    fix s' :: int assume "\<bar>s' - 2\<bar> \<le> 1 \<and> s' < 2"
    then have "s' = 1" by arith
    then show "generate toy_hmac ?raw s' \<noteq> ''000002''" using g(2) by simp
  qed
  then show ?thesis
    using accepted_codes_are_current [OF toy_secret_bytes, of toy_hmac "'' 000002 ''" "65 * second" 2]
      accepted_codes_are_current [OF toy_secret_bytes, of toy_hmac "''000002''" "200 * second" 2] g
    by simp
qed

text \<open>
  Enrolment works: a freshly generated secret, of any number of random bytes, decodes to these
  bytes again, and a code generated from it at one instant is accepted at every instant of the
  same or a neighbouring step.
\<close>

theorem fresh_secret_verifies:
  assumes "NewSecret (Some buf) = Some secret" "\<bar>unix_step at - unix_step at'\<bar> \<le> 1"
  shows "Bytes secret = Some buf
    \<and> (\<exists>code. Generate hmac secret at = Some code \<and> length code = 6 \<and> Verify hmac secret code at' = Some True)"
proof -
  have b: "Bytes secret = Some buf" using Bytes_NewSecret [OF assms(1)] .
  let ?c = "generate hmac buf (unix_step at)"
  have "Generate hmac secret at = Some ?c" using b by (simp add: Generate_def)
  moreover have "find (\<lambda>delta. generate hmac buf (unix_step at' + delta) = TrimSpace ?c) [-1, 0, 1] \<noteq> None"
  proof -
    have "unix_step at - unix_step at' \<in> set [-1, 0, 1]" using assms(2) by auto
    moreover have "generate hmac buf (unix_step at' + (unix_step at - unix_step at')) = TrimSpace ?c"
      by (simp add: TrimSpace_generate)
    ultimately show ?thesis unfolding find_None_all by blast
  qed
  then have "Verify hmac secret ?c at' = Some True"
    by (auto simp: Verify_def VerifyStep_raw [OF b] simp del: find.simps split: option.splits)
  ultimately show ?thesis using b generate_digits(1) by blast
qed

theorem fresh_secret_verifies_witness:
  "NewSecret (Some ''12345678901234567890'') = Some toy_secret
   \<and> Bytes toy_secret = Some ''12345678901234567890''
   \<and> (\<exists>code. Generate toy_hmac toy_secret (59 * second) = Some code \<and> length code = 6
        \<and> Verify toy_hmac toy_secret code (61 * second) = Some True)"
proof -
  have "NewSecret (Some ''12345678901234567890'') = Some toy_secret" by code_simp
  moreover have "\<bar>unix_step (59 * second) - unix_step (61 * second)\<bar> \<le> 1" by code_simp
  ultimately show ?thesis using fresh_secret_verifies by blast
qed

end
