(* ===== verification/Login_Pending.thy ===== *)
theory Login_Pending
  imports SK_Prelude Tokens
begin

text \<open>
  The in-memory bridge between a verified password and the WebAuthn assertion
  (\<open>internal/httpserver/loginpending.go\<close>). The mutex makes each call one step. Random bytes are
  what \<open>rand.Read\<close> delivered, \<open>None\<close> when it failed. \<open>Consume\<close> is a redemption in the sense of
  \<open>single_use\<close>.
\<close>

section \<open>State and operations\<close>

record loginPendingEntry =
  lp_adminID :: int
  lp_expiresAt :: time

record loginPendingStore =
  lp_items :: "(string, loginPendingEntry) gomap"
  lp_ttl :: duration

definition newLoginPendingStore :: "duration \<Rightarrow> loginPendingStore" where
  "newLoginPendingStore ttl = \<lparr>lp_items = [], lp_ttl = ttl\<rparr>"

text \<open>The loop over the map deletes the entries that are past their expiry.\<close>

fun gc_loop :: "time \<Rightarrow> (string \<times> loginPendingEntry) list \<Rightarrow> (string, loginPendingEntry) gomap \<Rightarrow> (string, loginPendingEntry) gomap" where
  "gc_loop now [] items = items"
| "gc_loop now ((k, v) # kvs) items = gc_loop now kvs (if now > lp_expiresAt v then gm_del k items else items)"

definition gc :: "time \<Rightarrow> loginPendingStore \<Rightarrow> loginPendingStore" where
  "gc now s = s\<lparr>lp_items := gc_loop now (lp_items s) (lp_items s)\<rparr>"

definition Issue :: "string option \<Rightarrow> time \<Rightarrow> int \<Rightarrow> loginPendingStore \<Rightarrow> (string \<times> time) option \<times> loginPendingStore" where
  "Issue rnd now adminID s =
     (case rnd of
        None \<Rightarrow> (None, s)
      | Some buf \<Rightarrow>
          let tok = b64url buf; expires = now + lp_ttl s; s' = gc now s
          in (Some (tok, expires),
              s'\<lparr>lp_items := gm_set tok \<lparr>lp_adminID = adminID, lp_expiresAt = expires\<rparr> (lp_items s')\<rparr>))"

definition Lookup :: "time \<Rightarrow> string \<Rightarrow> loginPendingStore \<Rightarrow> (int \<times> bool) \<times> loginPendingStore" where
  "Lookup now tok s =
     (if tok = [] then ((0, False), s)
      else case map_of (lp_items s) tok of
        None \<Rightarrow> ((0, False), s)
      | Some e \<Rightarrow>
          if now > lp_expiresAt e then ((0, False), s\<lparr>lp_items := gm_del tok (lp_items s)\<rparr>)
          else ((lp_adminID e, True), s))"

definition Consume :: "time \<Rightarrow> string \<Rightarrow> loginPendingStore \<Rightarrow> (int \<times> bool) \<times> loginPendingStore" where
  "Consume now tok s =
     (if tok = [] then ((0, False), s)
      else let e = map_of (lp_items s) tok; s' = s\<lparr>lp_items := gm_del tok (lp_items s)\<rparr>
      in case e of
           None \<Rightarrow> ((0, False), s')
         | Some e \<Rightarrow> if now > lp_expiresAt e then ((0, False), s') else ((lp_adminID e, True), s'))"

section \<open>The store as a map\<close>

definition entry :: "loginPendingStore \<Rightarrow> string \<Rightarrow> loginPendingEntry option" where
  "entry s tok = map_of (lp_items s) tok"

lemma gc_loop_map:
  "distinct (map fst kvs) \<Longrightarrow> map_of (gc_loop now kvs items) k =
    (case map_of kvs k of Some v \<Rightarrow> if now > lp_expiresAt v then None else map_of items k | None \<Rightarrow> map_of items k)"
proof (induction kvs arbitrary: items)
  case (Cons kv kvs)
  obtain k' v where kv: "kv = (k', v)" by (cases kv)
  have "map_of kvs k' = None" using Cons.prems kv by (simp add: map_of_eq_None_iff)
  then show ?case using Cons kv by (auto split: option.split)
qed simp

lemma gm_wf_gc_loop: "gm_wf items \<Longrightarrow> gm_wf (gc_loop now kvs items)"
  by (induction kvs arbitrary: items) auto

lemma entry_gc:
  assumes "gm_wf (lp_items s)"
  shows "entry (gc now s) k = (case entry s k of Some v \<Rightarrow> if now > lp_expiresAt v then None else Some v | None \<Rightarrow> None)"
  using assms gc_loop_map [of "lp_items s" now "lp_items s" k] by (auto simp: entry_def gc_def gm_wf_def split: option.split)

lemma entry_Issue:
  assumes "Issue (Some buf) now adminID s = (Some (tok, expires), s')" "gm_wf (lp_items s)"
  shows "entry s' k = (if k = tok then Some \<lparr>lp_adminID = adminID, lp_expiresAt = expires\<rparr>
           else case entry s k of Some v \<Rightarrow> if now > lp_expiresAt v then None else Some v | None \<Rightarrow> None)"
    and "tok = b64url buf" "expires = now + lp_ttl s" "gm_wf (lp_items s')" "lp_ttl s' = lp_ttl s"
  using assms entry_gc [OF assms(2), of now k]
  by (auto simp: Issue_def entry_def gc_def Let_def gm_wf_gc_loop)

lemma entry_Lookup:
  assumes "Lookup now tok s = ((a, ok), s')"
  shows "entry s' k = (case entry s k of Some v \<Rightarrow> if k = tok \<and> tok \<noteq> [] \<and> now > lp_expiresAt v then None else Some v | None \<Rightarrow> None)"
    and "gm_wf (lp_items s) \<Longrightarrow> gm_wf (lp_items s')" "lp_ttl s' = lp_ttl s"
  using assms by (auto simp: Lookup_def entry_def split: if_splits option.splits)

lemma entry_Consume:
  assumes "Consume now tok s = ((a, ok), s')"
  shows "entry s' k = (if k = tok \<and> tok \<noteq> [] then None else entry s k)"
    and "gm_wf (lp_items s) \<Longrightarrow> gm_wf (lp_items s')" "lp_ttl s' = lp_ttl s"
  using assms by (auto simp: Consume_def entry_def Let_def split: if_splits option.splits)

lemma Consume_hit:
  "Consume now t s = ((a, True), s') \<Longrightarrow> t \<noteq> [] \<and> (\<exists>e. entry s t = Some e \<and> a = lp_adminID e \<and> now \<le> lp_expiresAt e)"
  by (auto simp: Consume_def entry_def Let_def split: if_splits option.splits)

definition redeem_pending :: "time \<Rightarrow> string \<Rightarrow> loginPendingStore \<Rightarrow> bool \<times> loginPendingStore" where
  "redeem_pending now tok s = (let ((_, ok), s') = Consume now tok s in (ok, s'))"

definition live_pending :: "loginPendingStore \<Rightarrow> string \<Rightarrow> bool" where
  "live_pending s tok \<longleftrightarrow> tok \<noteq> [] \<and> entry s tok \<noteq> None"

interpretation lp: single_use redeem_pending live_pending
proof
  fix now k s s' assume "redeem_pending now k s = (True, s')"
  then obtain a where "Consume now k s = ((a, True), s')" by (auto simp: redeem_pending_def split: prod.splits)
  note c = entry_Consume [OF this]
  show "live_pending s k \<and> \<not> live_pending s' k" using c(1) [of k] Consume_hit [of now k s] \<open>Consume now k s = ((a, True), s')\<close> by (auto simp: live_pending_def)
next
  fix now k s ok s' k' assume "redeem_pending now k s = (ok, s')" and l: "live_pending s' k'"
  then obtain a where "Consume now k s = ((a, ok), s')" by (auto simp: redeem_pending_def split: prod.splits)
  note c = entry_Consume [OF this]
  show "live_pending s k'" using c(1) [of k'] l by (auto simp: live_pending_def split: if_splits)
qed

section \<open>Histories\<close>

datatype pend_cmd = PIssue "string option" int | PLookup string | PConsume string

text \<open>The successful reads and redemptions of one token in a history of calls, each with its time:
  whether it was a redemption, and the administrator it named.\<close>

fun pend_hits :: "string \<Rightarrow> (time \<times> pend_cmd) list \<Rightarrow> loginPendingStore \<Rightarrow> (bool \<times> int \<times> time) list" where
  "pend_hits tok [] s = []"
| "pend_hits tok ((now, PIssue rnd adminID) # cs) s = pend_hits tok cs (snd (Issue rnd now adminID s))"
| "pend_hits tok ((now, PLookup t) # cs) s =
     (case Lookup now t s of ((a, ok), s') \<Rightarrow> (if ok \<and> t = tok then [(False, a, now)] else []) @ pend_hits tok cs s')"
| "pend_hits tok ((now, PConsume t) # cs) s =
     (case Consume now t s of ((a, ok), s') \<Rightarrow> (if ok \<and> t = tok then [(True, a, now)] else []) @ pend_hits tok cs s')"

definition reissues :: "string \<Rightarrow> pend_cmd \<Rightarrow> bool" where
  "reissues tok c \<longleftrightarrow> (\<exists>buf adminID. c = PIssue (Some buf) adminID \<and> b64url buf = tok)"

lemma Lookup_hit:
  assumes "Lookup now t s = ((a, True), s')"
  shows "s' = s \<and> (\<exists>e. entry s t = Some e \<and> a = lp_adminID e \<and> now \<le> lp_expiresAt e)"
  using assms by (auto simp: Lookup_def entry_def split: if_splits option.splits)

lemma Issue_keeps_others:
  assumes "gm_wf (lp_items s)" "\<not> reissues tok (PIssue rnd adminID)"
  shows "entry (snd (Issue rnd now adminID s)) tok = entry s tok \<or> entry (snd (Issue rnd now adminID s)) tok = None"
    and "gm_wf (lp_items (snd (Issue rnd now adminID s)))"
proof -
  have "(entry (snd (Issue rnd now adminID s)) tok = entry s tok \<or> entry (snd (Issue rnd now adminID s)) tok = None)
    \<and> gm_wf (lp_items (snd (Issue rnd now adminID s)))"
  proof (cases rnd)
    case (Some buf)
    obtain tk ex s' where i: "Issue (Some buf) now adminID s = (Some (tk, ex), s')"
      by (auto simp: Issue_def Let_def)
    note e = entry_Issue [OF i assms(1)]
    have "tk \<noteq> tok" using assms(2) Some e(2) by (auto simp: reissues_def)
    then show ?thesis using e(1) [of tok] e(4) i Some by (auto split: option.split)
  qed (simp add: Issue_def assms(1))
  then show "entry (snd (Issue rnd now adminID s)) tok = entry s tok \<or> entry (snd (Issue rnd now adminID s)) tok = None"
    and "gm_wf (lp_items (snd (Issue rnd now adminID s)))" by simp_all
qed

lemma pend_hits_dead:
  "gm_wf (lp_items s) \<Longrightarrow> entry s tok = None \<Longrightarrow> \<forall>c\<in>snd ` set cs. \<not> reissues tok c \<Longrightarrow> pend_hits tok cs s = []"
proof (induction cs arbitrary: s)
  case (Cons nc cs)
  obtain now c where nc: "nc = (now, c)" by (cases nc)
  have r: "\<not> reissues tok c" "\<forall>c\<in>snd ` set cs. \<not> reissues tok c" using Cons.prems(3) nc by auto
  show ?case
  proof (cases c)
    case (PIssue rnd adminID)
    then show ?thesis using Cons.IH nc r Cons.prems(2) Issue_keeps_others [OF Cons.prems(1), of tok rnd adminID now] by auto
  next
    case (PLookup t)
    obtain a ok s' where l: "Lookup now t s = ((a, ok), s')" by (metis prod.exhaust)
    have "\<not> (ok \<and> t = tok)" using l Cons.prems(2) by (cases ok) (auto dest: Lookup_hit)
    moreover have "entry s' tok = None" using entry_Lookup(1) [OF l, of tok] Cons.prems(2) by simp
    then have "pend_hits tok cs s' = []" using Cons.IH r(2) entry_Lookup(2) [OF l] Cons.prems(1) by blast
    ultimately show ?thesis using nc PLookup l by simp
  next
    case (PConsume t)
    obtain a ok s' where l: "Consume now t s = ((a, ok), s')" by (metis prod.exhaust)
    have "\<not> (ok \<and> t = tok)" using l Cons.prems(2) by (cases ok) (auto dest: Consume_hit)
    moreover have "entry s' tok = None" using entry_Consume(1) [OF l, of tok] Cons.prems(2) by simp
    then have "pend_hits tok cs s' = []" using Cons.IH r(2) entry_Consume(2) [OF l] Cons.prems(1) by blast
    ultimately show ?thesis using nc PConsume l by simp
  qed
qed simp

definition hits_ok :: "loginPendingEntry \<Rightarrow> (bool \<times> int \<times> time) list \<Rightarrow> bool" where
  "hits_ok e hs \<longleftrightarrow> (\<forall>(c, a, t)\<in>set hs. a = lp_adminID e \<and> t \<le> lp_expiresAt e) \<and> (\<forall>h\<in>set (butlast hs). \<not> fst h)"

lemma hits_ok_read:
  "hits_ok e hs \<Longrightarrow> a = lp_adminID e \<Longrightarrow> t \<le> lp_expiresAt e \<Longrightarrow> hits_ok e ((False, a, t) # hs)"
  by (auto simp: hits_ok_def)

lemma pend_hits_bound:
  "gm_wf (lp_items s) \<Longrightarrow> entry s tok = None \<or> entry s tok = Some e \<Longrightarrow> \<forall>c\<in>snd ` set cs. \<not> reissues tok c
    \<Longrightarrow> hits_ok e (pend_hits tok cs s)"
proof (induction cs arbitrary: s)
  case Nil
  then show ?case by (simp add: hits_ok_def)
next
  case (Cons nc cs)
  obtain now c where nc: "nc = (now, c)" by (cases nc)
  have r: "\<not> reissues tok c" "\<forall>c\<in>snd ` set cs. \<not> reissues tok c" using Cons.prems(3) nc by auto
  show ?case
  proof (cases c)
    case (PIssue rnd adminID)
    then show ?thesis using Cons.IH nc r Cons.prems(2) Issue_keeps_others [OF Cons.prems(1), of tok rnd adminID now] by auto
  next
    case (PLookup t)
    obtain a ok s' where l: "Lookup now t s = ((a, ok), s')" by (metis prod.exhaust)
    have h: "ok \<and> t = tok \<Longrightarrow> a = lp_adminID e \<and> now \<le> lp_expiresAt e"
      using l Cons.prems(2) by (cases ok) (auto dest: Lookup_hit)
    have "entry s' tok = None \<or> entry s' tok = Some e"
      using entry_Lookup(1) [OF l, of tok] Cons.prems(2) by (auto split: option.splits)
    then have "hits_ok e (pend_hits tok cs s')" using Cons.IH r entry_Lookup(2) [OF l] Cons.prems(1) by blast
    then show ?thesis using nc PLookup l h by (auto intro: hits_ok_read)
  next
    case (PConsume t)
    obtain a ok s' where l: "Consume now t s = ((a, ok), s')" by (metis prod.exhaust)
    note c = entry_Consume [OF l]
    show ?thesis
    proof (cases "ok \<and> t = tok")
      case True
      then have "pend_hits tok cs s' = []" using c(1) [of tok] c(2) Consume_hit [of now t s a s'] l Cons.prems(1) r(2) by (intro pend_hits_dead) auto
      then show ?thesis using True nc PConsume l Consume_hit [of now t s a s'] Cons.prems(2) by (auto simp: hits_ok_def)
    next
      case False
      have "entry s' tok = None \<or> entry s' tok = Some e" using c(1) [of tok] Cons.prems(2) by auto
      then have "hits_ok e (pend_hits tok cs s')" using Cons.IH r(2) c(2) Cons.prems(1) by blast
      then show ?thesis using nc PConsume l False by auto
    qed
  qed
qed

section \<open>Properties\<close>

text \<open>
  A pending login is bound, short-lived and single use: after \<open>Issue\<close> returned a token for an
  administrator, whatever calls follow (other logins, expiries, garbage collection; the token
  itself is not drawn again), every successful \<open>Lookup\<close> or \<open>Consume\<close> of the token names that
  administrator and happens within the lifetime, nothing succeeds after the first successful
  \<open>Consume\<close>, and a \<open>Consume\<close> within the lifetime right after the \<open>Issue\<close> does succeed.
\<close>

theorem pending_login_single_use:
  assumes "gm_wf (lp_items s)" "Issue (Some buf) now adminID s = (Some (tok, expires), s1)"
    and "\<forall>c\<in>snd ` set cs. \<not> reissues tok c"
  shows "(\<forall>(c, a, t)\<in>set (pend_hits tok cs s1). a = adminID \<and> t \<le> now + lp_ttl s)
    \<and> (\<forall>h\<in>set (butlast (pend_hits tok cs s1)). \<not> fst h)
    \<and> (buf \<noteq> [] \<and> t \<le> now + lp_ttl s \<longrightarrow> fst (Consume t tok s1) = (adminID, True))"
proof -
  note e = entry_Issue [OF assms(2,1)]
  have en: "entry s1 tok = Some \<lparr>lp_adminID = adminID, lp_expiresAt = expires\<rparr>" using e(1) [of tok] by simp
  have "tok \<noteq> []" if "buf \<noteq> []" using e(2) that by (cases buf rule: b64url.cases) auto
  then have "buf \<noteq> [] \<and> t \<le> now + lp_ttl s \<longrightarrow> fst (Consume t tok s1) = (adminID, True)"
    using en e(3) by (auto simp: Consume_def entry_def Let_def)
  then show ?thesis using pend_hits_bound [OF e(4) disjI2 [OF en] assms(3)] e(3) by (auto simp: hits_ok_def)
qed

definition sample_store :: loginPendingStore where
  "sample_store = newLoginPendingStore (5 * minute)"

definition sample_issued :: loginPendingStore where
  "sample_issued = snd (Issue (Some ''abc'') 0 7 sample_store)"

definition sample_calls :: "(time \<times> pend_cmd) list" where
  "sample_calls = [(1, PLookup ''YWJj''), (2, PIssue (Some ''xyz'') 8), (3, PConsume ''YWJj''), (4, PConsume ''YWJj'')]"

theorem pending_login_single_use_witness:
  "pend_hits ''YWJj'' sample_calls sample_issued = [(False, 7, 1), (True, 7, 3)]
   \<and> fst (Consume 9 ''YWJj'' sample_issued) = (7, True)
   \<and> (\<forall>(c, a, t)\<in>set (pend_hits ''YWJj'' sample_calls sample_issued). a = 7 \<and> t \<le> 5 * minute) = True"
proof -
  have i: "Issue (Some ''abc'') 0 7 sample_store = (Some (''YWJj'', 5 * minute), sample_issued)" by code_simp
  have g: "gm_wf (lp_items sample_store)" by (simp add: sample_store_def newLoginPendingStore_def)
  have h: "pend_hits ''YWJj'' sample_calls sample_issued = [(False, 7, 1), (True, 7, 3)]" by code_simp
  have n: "\<forall>c\<in>snd ` set sample_calls. \<not> reissues ''YWJj'' c"
  proof -
    have "b64url ''xyz'' \<noteq> ''YWJj''" by code_simp
    then show ?thesis by (auto simp: sample_calls_def reissues_def)
  qed
  show ?thesis using pending_login_single_use [OF g i n, of 9] h by (auto simp: sample_store_def newLoginPendingStore_def)
qed

end
