(* ===== verification/Crypto_Box.thy ===== *)
theory Crypto_Box
  imports SK_Prelude Go_Strings
begin

text \<open>
  Encryption at rest (\<open>internal/cryptobox/cryptobox.go\<close>): \<open>Seal\<close> prepends a fresh random nonce to
  the AEAD ciphertext, \<open>Open\<close> splits it off again. The AEAD itself (AES-256-GCM of the standard
  library, keyed by the derived key) is a parameter; \<open>aead_ok\<close> states what a correct AEAD of
  overhead 16 promises. A nil \<open>*Box\<close> is \<open>None\<close>.
\<close>

record aead =
  gcm_seal :: "string \<Rightarrow> string \<Rightarrow> string \<Rightarrow> string"
  gcm_open :: "string \<Rightarrow> string \<Rightarrow> string \<Rightarrow> string option"
  gcm_overhead :: nat

definition nonceLen :: nat where "nonceLen = 12"

definition Seal :: "aead option \<Rightarrow> string option \<Rightarrow> string \<Rightarrow> string \<Rightarrow> string option" where
  "Seal b rnd plaintext aad =
     (case b of None \<Rightarrow> None
      | Some A \<Rightarrow>
          (case rnd of None \<Rightarrow> None
           | Some nonce \<Rightarrow> Some (nonce @ gcm_seal A nonce plaintext aad)))"

definition Open :: "aead option \<Rightarrow> string \<Rightarrow> string \<Rightarrow> string option" where
  "Open b box aad =
     (case b of None \<Rightarrow> None
      | Some A \<Rightarrow>
          if length box < nonceLen + gcm_overhead A then None
          else gcm_open A (take nonceLen box) (drop nonceLen box) aad)"

definition aead_ok :: "aead \<Rightarrow> bool" where
  "aead_ok A \<longleftrightarrow>
     (\<forall>n p d. length n = nonceLen \<longrightarrow>
        gcm_open A n (gcm_seal A n p d) d = Some p
        \<and> length (gcm_seal A n p d) = length p + gcm_overhead A)"

text \<open>What was sealed opens again under the same additional data.\<close>

lemma Open_Seal:
  assumes "aead_ok A" "length n = nonceLen" "Seal (Some A) (Some n) p d = Some c"
  shows "Open (Some A) c d = Some p"
proof -
  have l: "length (gcm_seal A n p d) = length p + gcm_overhead A" using assms(1,2) by (simp add: aead_ok_def)
  have c: "c = n @ gcm_seal A n p d" using assms(3) by (simp add: Seal_def)
  have "take nonceLen c = n" "drop nonceLen c = gcm_seal A n p d" using c assms(2) by simp_all
  moreover have "\<not> length c < nonceLen + gcm_overhead A" using c l assms(2) by simp
  ultimately have "Open (Some A) c d = gcm_open A n (gcm_seal A n p d) d" by (simp add: Open_def)
  then show ?thesis using assms(1,2) by (simp add: aead_ok_def)
qed

text \<open>Two boxes sealed under different nonces differ, whatever they hold.\<close>

lemma Seal_nonce_inj:
  assumes "Seal b (Some n) p d = Some c" "Seal b (Some n') p' d' = Some c" "length n = length n'"
  shows "n = n'"
  using assms by (auto simp: Seal_def split: option.splits)

text \<open>A stand-in that meets the law, for evaluation: the plaintext followed by the additional data's
  length and the nonce's first bytes, without secrecy.\<close>

definition toy_aead :: aead where
  "toy_aead = \<lparr>gcm_seal = (\<lambda>n p d. p @ take 16 (d @ replicate 16 (CHR ''#''))),
     gcm_open = (\<lambda>n c d. if length c \<ge> 16 \<and> drop (length c - 16) c = take 16 (d @ replicate 16 (CHR ''#''))
                         then Some (take (length c - 16) c) else None),
     gcm_overhead = 16\<rparr>"

lemma toy_aead_ok: "aead_ok toy_aead"
  by (auto simp: aead_ok_def toy_aead_def min_def)

end
