(* ===== verification/Admin_Accounts.thy ===== *)
theory Admin_Accounts
  imports SK_Prelude Go_Strings Go_Json Tokens Crypto_Box Totp Complex_Main
begin

text \<open>
  Administrator accounts and console sessions (\<open>internal/admin/admin.go\<close>, \<open>password.go\<close>): the rows
  of the tables \<open>admins\<close> and \<open>admin_sessions\<close>, the password floor, the account life cycle with the
  last-active-admin guard, the single-statement updates of the login path and the sessions. The
  login path itself is in \<open>Admin_Auth\<close>.

  Parameters (\<open>adm_env\<close>): the Unicode tables, bcrypt (\<open>bc_hash\<close> with the salt it drew, \<open>bc_match\<close>),
  SHA-256, HMAC-SHA256, HMAC-SHA1, the AEAD of the cryptobox, the decoder of a JSON array of
  strings, and the strength estimator of \<open>internal/strength\<close> (\<open>pw_common\<close>, \<open>pw_estimate\<close>; the bits
  of a \<open>float64\<close> as a real). A NULL blob is the empty string, which \<open>Seal\<close> never produces.
\<close>

section \<open>Environment\<close>

record adm_env =
  ev_U :: unicode
  ev_folds :: "rune \<Rightarrow> rune \<Rightarrow> bool"
  bc_hash :: "string \<Rightarrow> string \<Rightarrow> string option"
  bc_match :: "string \<Rightarrow> string \<Rightarrow> bool"
  ev_sha :: "string \<Rightarrow> string"
  ev_hmac :: "string \<Rightarrow> string \<Rightarrow> string"
  ev_hmac1 :: "string \<Rightarrow> string \<Rightarrow> string"
  ev_box :: "aead option"
  ev_unjson :: "string \<Rightarrow> string list option"
  pw_lower :: "rune \<Rightarrow> bool"
  pw_upper :: "rune \<Rightarrow> bool"
  pw_digit :: "rune \<Rightarrow> bool"
  pw_symbol :: "rune \<Rightarrow> bool"
  pw_common :: "string \<Rightarrow> bool"
  pw_estimate :: "string \<Rightarrow> string list \<Rightarrow> real \<times> string list"
  pw_context :: "string list"

definition MaxFailedAttempts :: int where "MaxFailedAttempts = 5"
definition LockoutDuration :: duration where "LockoutDuration = 15 * minute"
definition SessionTTL :: duration where "SessionTTL = 8 * hour"
definition SessionIdleTTL :: duration where "SessionIdleTTL = 30 * minute"

datatype adm_err = ErrNotFound | ErrInvalidCreds | ErrAccountLocked | ErrAccountDisabled | ErrTOTPRequired
  | ErrSessionExpired | ErrSessionNotFound | ErrAlreadyExists | ErrInvalidEmail | ErrLastActiveAdmin
  | ErrTOTPUnrecoverable | ErrTOTPSecret | ErrPasswordRequired | ErrPasswordTooWeak "string list" real
  | ErrBcrypt | ErrSeal | ErrCodes | ErrRandom | ErrDriver

section \<open>The password floor\<close>

definition AdminPasswordMinLength :: nat where "AdminPasswordMinLength = 16"
definition AdminPasswordMinClasses :: nat where "AdminPasswordMinClasses = 3"
definition AdminPasswordMinEntropyBits :: real where "AdminPasswordMinEntropyBits = 100"
definition bcryptMaxBytes :: nat where "bcryptMaxBytes = 72"

text \<open>The switch of \<open>countClasses\<close> takes the first class that applies; \<open>pw_symbol\<close> is
  \<open>IsPunct\<close>, \<open>IsSymbol\<close> or \<open>IsSpace\<close>.\<close>

datatype char_class = CLower | CUpper | CDigit | CSymbol | COther

definition class_of :: "adm_env \<Rightarrow> rune \<Rightarrow> char_class" where
  "class_of E r =
     (if pw_lower E r then CLower else if pw_upper E r then CUpper
      else if pw_digit E r then CDigit else if pw_symbol E r then CSymbol else COther)"

definition countClasses :: "adm_env \<Rightarrow> string \<Rightarrow> nat" where
  "countClasses E s =
     (let seen = (\<lambda>c. c \<in> set (map (class_of E) (runes s)))
      in length (filter seen [CLower, CUpper, CDigit, CSymbol]))"

text \<open>\<open>truncateUTF8\<close>: the cut moves down while it stands on a continuation byte.\<close>

fun cut_at :: "string \<Rightarrow> nat \<Rightarrow> nat" where
  "cut_at s 0 = 0"
| "cut_at s (Suc n) = (if is_cont (s ! Suc n) then cut_at s n else Suc n)"

definition truncateUTF8 :: "string \<Rightarrow> nat \<Rightarrow> string" where
  "truncateUTF8 s maxlen = (if length s > maxlen then take (cut_at s maxlen) s else s)"

definition ValidateAdminPassword :: "adm_env \<Rightarrow> string \<Rightarrow> string list \<Rightarrow> adm_err option" where
  "ValidateAdminPassword E s userInputs =
     (if RuneCountInString s < AdminPasswordMinLength then Some (ErrPasswordTooWeak [''too_short''] 0)
      else if countClasses E s < AdminPasswordMinClasses then Some (ErrPasswordTooWeak [''few_classes''] 0)
      else if pw_common E s then Some (ErrPasswordTooWeak [''common''] 0)
      else let (bits, codes) = pw_estimate E (truncateUTF8 s bcryptMaxBytes) userInputs
      in if bits < AdminPasswordMinEntropyBits
         then Some (ErrPasswordTooWeak (if codes = [] then [''entropy''] else codes) bits)
         else None)"

section \<open>Rows\<close>

record adminRow =
  ad_ID :: int
  ad_Email :: string
  ad_PasswordHash :: string
  ad_TOTPSecretEnc :: string
  ad_TOTPRecoveryCodesEnc :: string
  ad_ForcePasswordChange :: bool
  ad_ForceTOTPEnroll :: bool
  ad_FailedAttempts :: int
  ad_LockedUntil :: "time option"
  ad_DisabledAt :: "time option"
  ad_LastLoginAt :: "time option"
  ad_TOTPLastStep :: int
  ad_CreatedAt :: time
  ad_UpdatedAt :: time

record sessionRow =
  ss_Token :: string
  ss_AdminID :: int
  ss_IssuedAt :: time
  ss_ExpiresAt :: time
  ss_IdleExpiresAt :: time
  ss_CSRFToken :: string
  ss_RevokedAt :: "time option"
  ss_IPHash :: "string option"
  ss_UAHash :: "string option"

record adm_db =
  adb_admins :: "adminRow table"
  adb_sessions :: "sessionRow list"

record admin =
  am_ID :: int
  am_Email :: string
  am_ForcePasswordChange :: bool
  am_ForceTOTPEnroll :: bool
  am_TOTPEnrolled :: bool
  am_Disabled :: bool
  am_LockedUntil :: "time option"
  am_LastLoginAt :: "time option"

record session =
  sn_Token :: string
  sn_AdminID :: int
  sn_CSRFToken :: string
  sn_IssuedAt :: time
  sn_ExpiresAt :: time
  sn_IdleExpiresAt :: time

definition toAdmin :: "adminRow \<Rightarrow> admin" where
  "toAdmin a = \<lparr>am_ID = ad_ID a, am_Email = ad_Email a, am_ForcePasswordChange = ad_ForcePasswordChange a,
     am_ForceTOTPEnroll = ad_ForceTOTPEnroll a, am_TOTPEnrolled = (ad_TOTPSecretEnc a \<noteq> []),
     am_Disabled = (ad_DisabledAt a \<noteq> None), am_LockedUntil = ad_LockedUntil a, am_LastLoginAt = ad_LastLoginAt a\<rparr>"

definition ad_row :: "adminRow \<Rightarrow> int \<Rightarrow> adminRow" where
  "ad_row a i = a\<lparr>ad_ID := i\<rparr>"

interpretation at: sql_table ad_ID ad_Email ad_row ad_Email
  by unfold_locales (simp_all add: ad_row_def)

text \<open>An UPDATE of \<open>admins\<close>: the number of rows it touched and the new state.\<close>

definition upd_admins :: "(adminRow \<Rightarrow> bool) \<Rightarrow> (adminRow \<Rightarrow> adminRow) \<Rightarrow> adm_db \<Rightarrow> nat \<times> adm_db" where
  "upd_admins P f db = (tbl_affected P (adb_admins db), db\<lparr>adb_admins := tbl_update P f (adb_admins db)\<rparr>)"

definition admin_by_id :: "adm_db \<Rightarrow> int \<Rightarrow> adminRow option" where
  "admin_by_id db i = find (\<lambda>a. ad_ID a = i) (t_rows (adb_admins db))"

definition loadByID :: "bool \<Rightarrow> int \<Rightarrow> adm_db \<Rightarrow> adm_err + adminRow" where
  "loadByID fault i db =
     (if fault then Inl ErrDriver
      else case admin_by_id db i of None \<Rightarrow> Inl ErrNotFound | Some a \<Rightarrow> Inr a)"

definition loadByEmail :: "adm_env \<Rightarrow> bool \<Rightarrow> string \<Rightarrow> adm_db \<Rightarrow> adm_err + adminRow" where
  "loadByEmail E fault email db =
     (if fault then Inl ErrDriver
      else let e = ToLower (ev_U E) (TrimSpace email)
      in case find (\<lambda>a. ad_Email a = e) (t_rows (adb_admins db)) of None \<Rightarrow> Inl ErrNotFound | Some a \<Rightarrow> Inr a)"

definition FindByEmail :: "adm_env \<Rightarrow> bool \<Rightarrow> string \<Rightarrow> adm_db \<Rightarrow> adm_err + admin" where
  "FindByEmail E fault email db = map_sum id toAdmin (loadByEmail E fault email db)"

definition FindByID :: "bool \<Rightarrow> int \<Rightarrow> adm_db \<Rightarrow> adm_err + admin" where
  "FindByID fault i db = map_sum id toAdmin (loadByID fault i db)"

definition Count :: "bool \<Rightarrow> adm_db \<Rightarrow> adm_err + nat" where
  "Count fault db = (if fault then Inl ErrDriver else Inr (length (t_rows (adb_admins db))))"

definition ActiveCount :: "bool \<Rightarrow> adm_db \<Rightarrow> adm_err + nat" where
  "ActiveCount fault db = (if fault then Inl ErrDriver else Inr (tbl_affected (\<lambda>a. ad_DisabledAt a = None) (adb_admins db)))"

section \<open>Account life cycle\<close>

definition MaxEmailBytes :: nat where "MaxEmailBytes = 254"

definition email_local_char :: "char \<Rightarrow> bool" where
  "email_local_char c \<longleftrightarrow> (let x = byte c in (65 \<le> x \<and> x \<le> 90) \<or> (97 \<le> x \<and> x \<le> 122) \<or> (48 \<le> x \<and> x \<le> 57))
     \<or> c \<in> set ''._%+-''"

definition email_host_char :: "char \<Rightarrow> bool" where
  "email_host_char c \<longleftrightarrow> (let x = byte c in (65 \<le> x \<and> x \<le> 90) \<or> (97 \<le> x \<and> x \<le> 122) \<or> (48 \<le> x \<and> x \<le> 57))
     \<or> c \<in> set ''.-''"

definition emailRe :: "string \<Rightarrow> bool" where
  "emailRe s \<longleftrightarrow> (let i = IndexByte CHR ''@'' s
     in i > 0 \<and> list_all email_local_char (slice_to s i)
        \<and> slice_from s (i + 1) \<noteq> [] \<and> list_all email_host_char (slice_from s (i + 1)))"

definition validEmail :: "string \<Rightarrow> bool" where
  "validEmail email \<longleftrightarrow> length email \<le> MaxEmailBytes \<and> emailRe email"

definition Create :: "adm_env \<Rightarrow> bool \<Rightarrow> string \<Rightarrow> time \<Rightarrow> string \<Rightarrow> string \<Rightarrow> adm_db \<Rightarrow> (adm_err + admin) \<times> adm_db" where
  "Create E fault salt now email plainPassword db =
     (let email = ToLower (ev_U E) (TrimSpace email)
      in if plainPassword = [] then (Inl ErrPasswordRequired, db)
      else if \<not> validEmail email then (Inl ErrInvalidEmail, db)
      else case bc_hash E salt plainPassword of
        None \<Rightarrow> (Inl ErrBcrypt, db)
      | Some hash \<Rightarrow>
          if fault then (Inl ErrDriver, db)
          else if email \<in> ad_Email ` set (t_rows (adb_admins db)) then (Inl ErrAlreadyExists, db)
          else let row = \<lparr>ad_ID = 0, ad_Email = email, ad_PasswordHash = hash, ad_TOTPSecretEnc = [],
                      ad_TOTPRecoveryCodesEnc = [], ad_ForcePasswordChange = True, ad_ForceTOTPEnroll = True,
                      ad_FailedAttempts = 0, ad_LockedUntil = None, ad_DisabledAt = None, ad_LastLoginAt = None,
                      ad_TOTPLastStep = 0, ad_CreatedAt = now, ad_UpdatedAt = now\<rparr>;
                   (i, t') = tbl_insert (ad_row row) (adb_admins db)
               in (Inr \<lparr>am_ID = i, am_Email = email, am_ForcePasswordChange = True, am_ForceTOTPEnroll = True,
                        am_TOTPEnrolled = False, am_Disabled = False, am_LockedUntil = None, am_LastLoginAt = None\<rparr>,
                   db\<lparr>adb_admins := t'\<rparr>))"

text \<open>The UPDATE of \<open>ChangeEmail\<close> breaks the UNIQUE constraint when another row has the address.\<close>

definition ChangeEmail :: "adm_env \<Rightarrow> bool \<Rightarrow> time \<Rightarrow> int \<Rightarrow> string \<Rightarrow> adm_db \<Rightarrow> adm_err option \<times> adm_db" where
  "ChangeEmail E fault now adminID newEmail db =
     (let newEmail = ToLower (ev_U E) (TrimSpace newEmail)
      in if \<not> validEmail newEmail then (Some ErrInvalidEmail, db)
      else if fault then (Some ErrDriver, db)
      else if admin_by_id db adminID \<noteq> None \<and>
              (\<exists>a\<in>set (t_rows (adb_admins db)). ad_Email a = newEmail \<and> ad_ID a \<noteq> adminID)
           then (Some ErrAlreadyExists, db)
      else let (n, db') = upd_admins (\<lambda>a. ad_ID a = adminID) (\<lambda>a. a\<lparr>ad_Email := newEmail, ad_UpdatedAt := now\<rparr>) db
           in if n = 0 then (Some ErrNotFound, db') else (None, db'))"

text \<open>\<open>lastActiveCond\<close>: the row is already disabled, or another active one remains.\<close>

definition lastActiveCond :: "adm_db \<Rightarrow> adminRow \<Rightarrow> bool" where
  "lastActiveCond db a \<longleftrightarrow> ad_DisabledAt a \<noteq> None
     \<or> tbl_affected (\<lambda>b. ad_DisabledAt b = None \<and> ad_ID b \<noteq> ad_ID a) (adb_admins db) > 0"

datatype guard_stmt = GBegin | GLock | GStmt | GExists | GCommit | GRevoke

text \<open>\<open>guardedLastActive\<close>: \<open>stmt\<close> is the effect of the guarded statement on the rows it selects. The
  transaction holds the write lock (SQLite) or the locks on every active row (Postgres) from
  before the count to the commit, so it is one step.\<close>

definition guardedLastActive ::
  "guard_stmt faults \<Rightarrow> int \<Rightarrow> ((adminRow \<Rightarrow> bool) \<Rightarrow> adm_db \<Rightarrow> adm_db) \<Rightarrow> adm_db \<Rightarrow> adm_err option \<times> adm_db" where
  "guardedLastActive faults adminID stmt db =
     (let P = (\<lambda>a. ad_ID a = adminID \<and> lastActiveCond db a); n = tbl_affected P (adb_admins db)
      in if faults GBegin \<or> faults GLock \<or> faults GStmt then (Some ErrDriver, db)
      else if n = 0 then
        (if faults GExists then (Some ErrDriver, db)
         else if admin_by_id db adminID = None then (Some ErrNotFound, db)
         else (Some ErrLastActiveAdmin, db))
      else if faults GCommit then (Some ErrDriver, db)
      else (None, stmt P db))"

section \<open>Sessions\<close>

definition hashToken :: "adm_env \<Rightarrow> string \<Rightarrow> string" where
  "hashToken E tok = hex (ev_sha E tok)"

definition sessionCSRF :: "adm_env \<Rightarrow> string \<Rightarrow> string" where
  "sessionCSRF E sessionToken = b64url (ev_hmac E sessionToken ''sealkeeper-admin-csrf'')"

definition opaqueToken :: "string option \<Rightarrow> string option" where
  "opaqueToken rnd = map_option b64url rnd"

definition CreateSession ::
  "adm_env \<Rightarrow> bool \<Rightarrow> string option \<Rightarrow> time \<Rightarrow> int \<Rightarrow> string \<Rightarrow> string \<Rightarrow> adm_db \<Rightarrow> (adm_err + session) \<times> adm_db" where
  "CreateSession E fault rnd now adminID ipHash uaHash db =
     (case opaqueToken rnd of
        None \<Rightarrow> (Inl ErrRandom, db)
      | Some tok \<Rightarrow>
          let csrf = sessionCSRF E tok; expires = now + SessionTTL; idle = now + SessionIdleTTL
          in if fault \<or> admin_by_id db adminID = None \<or> hashToken E tok \<in> ss_Token ` set (adb_sessions db)
             then (Inl ErrDriver, db)
             else (Inr \<lparr>sn_Token = tok, sn_AdminID = adminID, sn_CSRFToken = csrf, sn_IssuedAt = now,
                        sn_ExpiresAt = expires, sn_IdleExpiresAt = idle\<rparr>,
                   db\<lparr>adb_sessions := adb_sessions db @
                     [\<lparr>ss_Token = hashToken E tok, ss_AdminID = adminID, ss_IssuedAt = now, ss_ExpiresAt = expires,
                       ss_IdleExpiresAt = idle, ss_CSRFToken = hashToken E csrf, ss_RevokedAt = None,
                       ss_IPHash = nullable ipHash, ss_UAHash = nullable uaHash\<rparr>]\<rparr>))"

text \<open>\<open>sessionRow.validate\<close> on the joined rows.\<close>

definition validate :: "time \<Rightarrow> sessionRow \<Rightarrow> adminRow \<Rightarrow> adm_err option" where
  "validate now sr a =
     (if ss_RevokedAt sr \<noteq> None then Some ErrSessionExpired
      else if \<not> now < ss_ExpiresAt sr \<or> \<not> now < ss_IdleExpiresAt sr then Some ErrSessionExpired
      else if ad_DisabledAt a \<noteq> None then Some ErrAccountDisabled
      else None)"

text \<open>The touch of the idle deadline may fail without an error (\<open>tfault\<close>).\<close>

definition LookupSession ::
  "adm_env \<Rightarrow> bool \<Rightarrow> bool \<Rightarrow> time \<Rightarrow> string \<Rightarrow> adm_db \<Rightarrow> (adm_err + (session \<times> admin)) \<times> adm_db" where
  "LookupSession E fault tfault now token db =
     (if TrimSpace token = [] then (Inl ErrSessionNotFound, db)
      else if fault then (Inl ErrDriver, db)
      else case find (\<lambda>s. ss_Token s = hashToken E token) (adb_sessions db) of
        None \<Rightarrow> (Inl ErrSessionNotFound, db)
      | Some sr \<Rightarrow>
          (case admin_by_id db (ss_AdminID sr) of
             None \<Rightarrow> (Inl ErrSessionNotFound, db)
           | Some a \<Rightarrow>
               (case validate now sr a of
                  Some e \<Rightarrow> (Inl e, db)
                | None \<Rightarrow>
                    let newIdle = now + SessionIdleTTL;
                        db' = (if tfault then db
                               else db\<lparr>adb_sessions := map (\<lambda>s. if ss_Token s = ss_Token sr then s\<lparr>ss_IdleExpiresAt := newIdle\<rparr> else s)
                                          (adb_sessions db)\<rparr>)
                    in (Inr (\<lparr>sn_Token = token, sn_AdminID = ss_AdminID sr, sn_CSRFToken = sessionCSRF E token,
                              sn_IssuedAt = ss_IssuedAt sr, sn_ExpiresAt = ss_ExpiresAt sr, sn_IdleExpiresAt = newIdle\<rparr>,
                            toAdmin a), db'))))"

definition revoke_where :: "time \<Rightarrow> (sessionRow \<Rightarrow> bool) \<Rightarrow> adm_db \<Rightarrow> adm_db" where
  "revoke_where now P db = db\<lparr>adb_sessions :=
     map (\<lambda>s. if P s \<and> ss_RevokedAt s = None then s\<lparr>ss_RevokedAt := Some now\<rparr> else s) (adb_sessions db)\<rparr>"

definition RevokeSession :: "adm_env \<Rightarrow> bool \<Rightarrow> time \<Rightarrow> string \<Rightarrow> adm_db \<Rightarrow> adm_err option \<times> adm_db" where
  "RevokeSession E fault now token db =
     (if fault then (Some ErrDriver, db) else (None, revoke_where now (\<lambda>s. ss_Token s = hashToken E token) db))"

definition RevokeOtherSessions :: "adm_env \<Rightarrow> bool \<Rightarrow> time \<Rightarrow> int \<Rightarrow> string \<Rightarrow> adm_db \<Rightarrow> adm_err option \<times> adm_db" where
  "RevokeOtherSessions E fault now adminID keepToken db =
     (if fault then (Some ErrDriver, db)
      else (None, revoke_where now (\<lambda>s. ss_AdminID s = adminID \<and> ss_Token s \<noteq> hashToken E keepToken) db))"

definition SetDisabled :: "adm_env \<Rightarrow> guard_stmt faults \<Rightarrow> time \<Rightarrow> int \<Rightarrow> bool \<Rightarrow> adm_db \<Rightarrow> adm_err option \<times> adm_db" where
  "SetDisabled E faults now adminID disabled db =
     (if \<not> disabled then
        (if faults GStmt then (Some ErrDriver, db)
         else let (n, db') = upd_admins (\<lambda>a. ad_ID a = adminID) (\<lambda>a. a\<lparr>ad_DisabledAt := None, ad_UpdatedAt := now\<rparr>) db
              in if n = 0 then (Some ErrNotFound, db') else (None, db'))
      else case guardedLastActive faults adminID
                  (\<lambda>P db. snd (upd_admins P (\<lambda>a. a\<lparr>ad_DisabledAt := Some now, ad_UpdatedAt := now\<rparr>) db)) db of
        (Some e, db') \<Rightarrow> (Some e, db')
      | (None, db') \<Rightarrow> RevokeOtherSessions E (faults GRevoke) now adminID [] db')"

text \<open>The foreign key of \<open>admin_sessions\<close> cascades.\<close>

definition delete_admins :: "(adminRow \<Rightarrow> bool) \<Rightarrow> adm_db \<Rightarrow> adm_db" where
  "delete_admins P db = \<lparr>adb_admins = tbl_delete P (adb_admins db),
     adb_sessions = filter (\<lambda>s. \<not> (\<exists>a\<in>set (t_rows (adb_admins db)). P a \<and> ad_ID a = ss_AdminID s)) (adb_sessions db)\<rparr>"

definition Delete :: "guard_stmt faults \<Rightarrow> int \<Rightarrow> adm_db \<Rightarrow> adm_err option \<times> adm_db" where
  "Delete faults adminID db = guardedLastActive faults adminID delete_admins db"

section \<open>Credentials\<close>

definition validateNewPassword :: "adm_env \<Rightarrow> bool \<Rightarrow> int \<Rightarrow> string \<Rightarrow> adm_db \<Rightarrow> adm_err option" where
  "validateNewPassword E fault adminID newPassword db =
     (case loadByID fault adminID db of
        Inr row \<Rightarrow> ValidateAdminPassword E newPassword (pw_context E @ [ad_Email row])
      | Inl e \<Rightarrow> if e = ErrNotFound then ValidateAdminPassword E newPassword (pw_context E) else Some e)"

datatype cred_stmt = KLoad | KBegin | KUpdate | KRevoke | KCommit

definition ResetForBootstrap ::
  "adm_env \<Rightarrow> cred_stmt faults \<Rightarrow> string \<Rightarrow> time \<Rightarrow> int \<Rightarrow> string \<Rightarrow> adm_db \<Rightarrow> adm_err option \<times> adm_db" where
  "ResetForBootstrap E faults salt now adminID newPassword db =
     (case validateNewPassword E (faults KLoad) adminID newPassword db of
        Some e \<Rightarrow> (Some e, db)
      | None \<Rightarrow>
          (case bc_hash E salt newPassword of
             None \<Rightarrow> (Some ErrBcrypt, db)
           | Some hash \<Rightarrow>
               if faults KBegin \<or> faults KUpdate \<or> faults KRevoke \<or> faults KCommit then (Some ErrDriver, db)
               else (None, revoke_where now (\<lambda>s. ss_AdminID s = adminID)
                      (snd (upd_admins (\<lambda>a. ad_ID a = adminID)
                        (\<lambda>a. a\<lparr>ad_PasswordHash := hash, ad_ForcePasswordChange := True, ad_ForceTOTPEnroll := True,
                               ad_TOTPSecretEnc := [], ad_TOTPRecoveryCodesEnc := [], ad_FailedAttempts := 0,
                               ad_LockedUntil := None, ad_UpdatedAt := now\<rparr>) db)))))"

definition ChangePassword ::
  "adm_env \<Rightarrow> cred_stmt faults \<Rightarrow> string \<Rightarrow> time \<Rightarrow> int \<Rightarrow> string \<Rightarrow> adm_db \<Rightarrow> adm_err option \<times> adm_db" where
  "ChangePassword E faults salt now adminID newPassword db =
     (case validateNewPassword E (faults KLoad) adminID newPassword db of
        Some e \<Rightarrow> (Some e, db)
      | None \<Rightarrow>
          (case bc_hash E salt newPassword of
             None \<Rightarrow> (Some ErrBcrypt, db)
           | Some hash \<Rightarrow>
               if faults KUpdate then (Some ErrDriver, db)
               else (None, snd (upd_admins (\<lambda>a. ad_ID a = adminID)
                      (\<lambda>a. a\<lparr>ad_PasswordHash := hash, ad_ForcePasswordChange := False, ad_UpdatedAt := now\<rparr>) db))))"

definition adminAAD :: "adm_env \<Rightarrow> int \<Rightarrow> string" where
  "adminAAD E i = ev_sha E (''sealkeeper-admin:'' @ json_int i)"

text \<open>\<open>json.Marshal\<close> of a slice of strings; the empty slice here is the nil one that
  \<open>totp.ConsumeRecovery\<close> leaves after the last code, which encodes as \<open>null\<close>.\<close>

definition codes_json :: "string list \<Rightarrow> string" where
  "codes_json codes = (if codes = [] then ''null'' else json_array (map JStr codes))"

text \<open>\<open>r1\<close> and \<open>r2\<close> are the nonces of the two \<open>Seal\<close> calls.\<close>

definition EnrollTOTP ::
  "adm_env \<Rightarrow> bool \<Rightarrow> string option \<Rightarrow> string option \<Rightarrow> time \<Rightarrow> int \<Rightarrow> string \<Rightarrow> string list \<Rightarrow> adm_db \<Rightarrow> adm_err option \<times> adm_db" where
  "EnrollTOTP E fault r1 r2 now adminID secret recoveryCodes db =
     (let aad = adminAAD E adminID
      in case Seal (ev_box E) r1 secret aad of
        None \<Rightarrow> (Some ErrSeal, db)
      | Some secEnc \<Rightarrow>
          (case Seal (ev_box E) r2 (codes_json recoveryCodes) aad of
             None \<Rightarrow> (Some ErrSeal, db)
           | Some codesEnc \<Rightarrow>
               if fault then (Some ErrDriver, db)
               else (None, snd (upd_admins (\<lambda>a. ad_ID a = adminID)
                      (\<lambda>a. a\<lparr>ad_TOTPSecretEnc := secEnc, ad_TOTPRecoveryCodesEnc := codesEnc,
                             ad_ForceTOTPEnroll := False, ad_TOTPLastStep := 0, ad_UpdatedAt := now\<rparr>) db))))"

section \<open>Statements of the login path\<close>

definition UseTOTPStep :: "bool \<Rightarrow> time \<Rightarrow> int \<Rightarrow> int \<Rightarrow> adm_db \<Rightarrow> (adm_err + bool) \<times> adm_db" where
  "UseTOTPStep fault now adminID stp db =
     (if fault then (Inl ErrDriver, db)
      else let (n, db') = upd_admins (\<lambda>a. ad_ID a = adminID \<and> ad_TOTPLastStep a < stp)
                            (\<lambda>a. a\<lparr>ad_TOTPLastStep := stp, ad_UpdatedAt := now\<rparr>) db
           in (Inr (n = 1), db'))"

definition reserveAttempt :: "bool \<Rightarrow> time \<Rightarrow> int \<Rightarrow> adm_db \<Rightarrow> (adm_err + bool) \<times> adm_db" where
  "reserveAttempt fault now adminID db =
     (if fault then (Inl ErrDriver, db)
      else let (n, db') = upd_admins (\<lambda>a. ad_ID a = adminID \<and> ad_FailedAttempts a < MaxFailedAttempts)
                            (\<lambda>a. a\<lparr>ad_FailedAttempts := ad_FailedAttempts a + 1, ad_UpdatedAt := now\<rparr>) db
           in (Inr (n = 1), db'))"

definition lockIfExhausted :: "bool \<Rightarrow> time \<Rightarrow> int \<Rightarrow> adm_db \<Rightarrow> adm_db" where
  "lockIfExhausted fault now adminID db =
     (if fault then db
      else snd (upd_admins (\<lambda>a. ad_ID a = adminID \<and> ad_FailedAttempts a \<ge> MaxFailedAttempts \<and> ad_LockedUntil a = None)
                 (\<lambda>a. a\<lparr>ad_LockedUntil := Some (now + LockoutDuration), ad_UpdatedAt := now\<rparr>) db))"

definition clearExpiredLock :: "bool \<Rightarrow> time \<Rightarrow> int \<Rightarrow> adm_db \<Rightarrow> adm_db" where
  "clearExpiredLock fault now adminID db =
     (if fault then db
      else snd (upd_admins (\<lambda>a. ad_ID a = adminID \<and> (case ad_LockedUntil a of None \<Rightarrow> False | Some t \<Rightarrow> t \<le> now))
                 (\<lambda>a. a\<lparr>ad_FailedAttempts := 0, ad_LockedUntil := None, ad_UpdatedAt := now\<rparr>) db))"

definition RecordLoginSuccess :: "bool \<Rightarrow> time \<Rightarrow> int \<Rightarrow> adm_db \<Rightarrow> adm_db" where
  "RecordLoginSuccess fault now adminID db =
     (if fault then db
      else snd (upd_admins (\<lambda>a. ad_ID a = adminID)
                 (\<lambda>a. a\<lparr>ad_FailedAttempts := 0, ad_LockedUntil := None, ad_LastLoginAt := Some now, ad_UpdatedAt := now\<rparr>) db))"

text \<open>The last statement of \<open>VerifyPassword\<close>, which gives the reserved attempt back.\<close>

definition give_back :: "bool \<Rightarrow> int \<Rightarrow> adm_db \<Rightarrow> adm_db" where
  "give_back fault adminID db =
     (if fault then db
      else snd (upd_admins (\<lambda>a. ad_ID a = adminID \<and> ad_LockedUntil a = None) (\<lambda>a. a\<lparr>ad_FailedAttempts := 0\<rparr>) db))"

section \<open>Commands\<close>

datatype adm_cmd =
    ACreate bool string time string string
  | AChangeEmail bool time int string
  | ASetDisabled "guard_stmt faults" time int bool
  | ADelete "guard_stmt faults" int
  | AReset "cred_stmt faults" string time int string
  | AChangePassword "cred_stmt faults" string time int string
  | AEnroll bool "string option" "string option" time int string "string list"
  | ACreateSession bool "string option" time int string string
  | ALookupSession bool bool time string
  | ARevoke bool time string
  | ARevokeOther bool time int string
  | AUseStep bool time int int
  | AReserve bool time int
  | ALock bool time int
  | AClear bool time int
  | ASuccess bool time int
  | AGiveBack bool int

fun adm_step :: "adm_env \<Rightarrow> adm_cmd \<Rightarrow> adm_db \<Rightarrow> adm_db" where
  "adm_step E (ACreate f salt now email pw) db = snd (Create E f salt now email pw db)"
| "adm_step E (AChangeEmail f now i email) db = snd (ChangeEmail E f now i email db)"
| "adm_step E (ASetDisabled fs now i b) db = snd (SetDisabled E fs now i b db)"
| "adm_step E (ADelete fs i) db = snd (Delete fs i db)"
| "adm_step E (AReset fs salt now i pw) db = snd (ResetForBootstrap E fs salt now i pw db)"
| "adm_step E (AChangePassword fs salt now i pw) db = snd (ChangePassword E fs salt now i pw db)"
| "adm_step E (AEnroll f r1 r2 now i sec codes) db = snd (EnrollTOTP E f r1 r2 now i sec codes db)"
| "adm_step E (ACreateSession f rnd now i ip ua) db = snd (CreateSession E f rnd now i ip ua db)"
| "adm_step E (ALookupSession f tf now tok) db = snd (LookupSession E f tf now tok db)"
| "adm_step E (ARevoke f now tok) db = snd (RevokeSession E f now tok db)"
| "adm_step E (ARevokeOther f now i keep) db = snd (RevokeOtherSessions E f now i keep db)"
| "adm_step E (AUseStep f now i stp) db = snd (UseTOTPStep f now i stp db)"
| "adm_step E (AReserve f now i) db = snd (reserveAttempt f now i db)"
| "adm_step E (ALock f now i) db = lockIfExhausted f now i db"
| "adm_step E (AClear f now i) db = clearExpiredLock f now i db"
| "adm_step E (ASuccess f now i) db = RecordLoginSuccess f now i db"
| "adm_step E (AGiveBack f i) db = give_back f i db"

section \<open>What a step can do to the rows\<close>

text \<open>
  Every command changes the tables in one of a few ways: it inserts a fresh account, deletes or
  disables one under the guard, updates rows of one account leaving id, address and the disabled
  mark (or clearing the mark), appends a session, or touches sessions.
\<close>

definition adm_ok :: "adm_db \<Rightarrow> bool" where
  "adm_ok db \<longleftrightarrow> tbl_wf ad_ID ad_Email (adb_admins db) \<and> distinct (map ss_Token (adb_sessions db))
     \<and> (\<forall>s\<in>set (adb_sessions db). ss_ExpiresAt s = ss_IssuedAt s + SessionTTL)"

definition has_active :: "adm_db \<Rightarrow> bool" where
  "has_active db \<longleftrightarrow> (\<exists>a\<in>set (t_rows (adb_admins db)). ad_DisabledAt a = None)"

lemma upd_admins_simps [simp]:
  "fst (upd_admins P f db) = tbl_affected P (adb_admins db)"
  "adb_admins (snd (upd_admins P f db)) = tbl_update P f (adb_admins db)"
  "adb_sessions (snd (upd_admins P f db)) = adb_sessions db"
  by (simp_all add: upd_admins_def)

lemma revoke_where_simps [simp]:
  "adb_admins (revoke_where now P db) = adb_admins db"
  "map ss_Token (adb_sessions (revoke_where now P db)) = map ss_Token (adb_sessions db)"
  by (simp_all add: revoke_where_def)

lemma revoke_where_sessions:
  "s' \<in> set (adb_sessions (revoke_where now P db)) \<longleftrightarrow>
    (\<exists>s\<in>set (adb_sessions db). s' = (if P s \<and> ss_RevokedAt s = None then s\<lparr>ss_RevokedAt := Some now\<rparr> else s))"
proof -
  have "adb_sessions (revoke_where now P db)
      = map (\<lambda>s. if P s \<and> ss_RevokedAt s = None then s\<lparr>ss_RevokedAt := Some now\<rparr> else s) (adb_sessions db)"
    by (simp add: revoke_where_def)
  then show ?thesis by (simp only: set_map image_iff)
qed

lemma adm_ok_upd:
  assumes "adm_ok db" "\<And>a. ad_ID (f a) = ad_ID a" "\<And>a. ad_Email (f a) = ad_Email a"
  shows "adm_ok (snd (upd_admins P f db))"
  using assms at.wf_update [of "adb_admins db" f P] by (simp add: adm_ok_def)

lemma adm_ok_revoke: "adm_ok db \<Longrightarrow> adm_ok (revoke_where now P db)"
  by (auto simp: adm_ok_def revoke_where_sessions simp del: map_map)

lemma has_active_upd:
  assumes "has_active db" "\<And>a. ad_DisabledAt a = None \<Longrightarrow> ad_DisabledAt (f a) = None"
  shows "has_active (snd (upd_admins P f db))"
proof -
  obtain a where "a \<in> set (t_rows (adb_admins db))" "ad_DisabledAt a = None" using assms(1) by (auto simp: has_active_def)
  then have "(if P a then f a else a) \<in> set (t_rows (tbl_update P f (adb_admins db)))" "ad_DisabledAt (if P a then f a else a) = None"
    using assms(2) by (auto simp: tbl_update_def)
  then show ?thesis unfolding has_active_def by (simp only: upd_admins_simps) blast
qed

lemma has_active_revoke [simp]: "has_active (revoke_where now P db) = has_active db"
  by (simp add: has_active_def)

lemma guarded_cases:
  assumes "guardedLastActive faults i stmt db = (r, db')"
  obtains (kept) "db' = db" "r \<noteq> None"
  | (ran) "r = None" "db' = stmt (\<lambda>a. ad_ID a = i \<and> lastActiveCond db a) db"
  using assms unfolding guardedLastActive_def by (auto simp: Let_def split: if_splits)

text \<open>When the guarded statement hides one row, an active row remains.\<close>

lemma guard_leaves_active:
  assumes "adm_ok db" "has_active db"
  shows "\<exists>b\<in>set (t_rows (adb_admins db)). ad_DisabledAt b = None \<and> \<not> (ad_ID b = i \<and> lastActiveCond db b)"
proof (cases "\<exists>b\<in>set (t_rows (adb_admins db)). ad_DisabledAt b = None \<and> ad_ID b \<noteq> i")
  case False
  obtain b where b: "b \<in> set (t_rows (adb_admins db))" "ad_DisabledAt b = None" using assms(2) by (auto simp: has_active_def)
  then have "ad_ID b = i" using False by blast
  then have "\<not> lastActiveCond db b"
    using False b(2) by (auto simp: lastActiveCond_def tbl_affected_def filter_empty_conv)
  with b show ?thesis by blast
qed blast

lemma has_active_guarded:
  assumes "adm_ok db" "has_active db" "\<And>P a. a \<in> set (t_rows (adb_admins db)) \<Longrightarrow> \<not> P a \<Longrightarrow> a \<in> set (t_rows (adb_admins (stmt P db)))"
  shows "has_active (snd (guardedLastActive faults i stmt db))"
proof -
  obtain r db' where g: "guardedLastActive faults i stmt db = (r, db')" by (metis prod.exhaust)
  show ?thesis
  proof (cases rule: guarded_cases [OF g])
    case 2
    then show ?thesis using guard_leaves_active [OF assms(1,2), of i] assms(3) g by (auto simp: has_active_def)
  qed (use assms(2) g in simp_all)
qed

lemma set_upd_kept: "a \<in> set (t_rows t) \<Longrightarrow> \<not> P a \<Longrightarrow> a \<in> set (t_rows (tbl_update P f t))"
  by (force simp: tbl_update_def)

lemmas adm_op_defs = Create_def ChangeEmail_def ResetForBootstrap_def ChangePassword_def EnrollTOTP_def CreateSession_def
  LookupSession_def RevokeSession_def RevokeOtherSessions_def UseTOTPStep_def reserveAttempt_def lockIfExhausted_def
  clearExpiredLock_def RecordLoginSuccess_def give_back_def

lemma has_active_step:
  assumes "adm_ok db" "has_active db"
  shows "has_active (adm_step E c db)"
proof (cases c)
  case (ACreate f salt now email pw)
  have "has_active db \<Longrightarrow> has_active (db\<lparr>adb_admins := snd (tbl_insert mk (adb_admins db))\<rparr>)" for mk
    by (auto simp: has_active_def tbl_insert_def)
  then show ?thesis using assms(2) ACreate by (auto simp: Create_def Let_def case_prod_beta split: option.split)
next
  case (ASetDisabled fs now i b)
  show ?thesis
  proof (cases b)
    case True
    let ?st = "\<lambda>P db. snd (upd_admins P (\<lambda>a. a\<lparr>ad_DisabledAt := Some now, ad_UpdatedAt := now\<rparr>) db)"
    have "has_active (snd (guardedLastActive fs i ?st db))" by (rule has_active_guarded [OF assms]) (simp add: set_upd_kept)
    then show ?thesis using ASetDisabled True
      by (auto simp: SetDisabled_def RevokeOtherSessions_def split: prod.splits option.splits)
  qed (use ASetDisabled assms(2) in \<open>auto simp: SetDisabled_def case_prod_beta intro: has_active_upd\<close>)
next
  case (ADelete fs i)
  have "has_active (snd (guardedLastActive fs i delete_admins db))"
    by (rule has_active_guarded [OF assms]) (simp add: delete_admins_def tbl_delete_def)
  then show ?thesis using ADelete by (simp add: Delete_def)
qed (use assms(2) in \<open>auto simp: adm_op_defs Let_def case_prod_beta intro: has_active_upd split: option.split\<close>,
     auto simp: has_active_def)

lemma adm_ok_empty: "adm_ok \<lparr>adb_admins = empty_table, adb_sessions = []\<rparr>"
  using at.wf_empty by (simp add: adm_ok_def)

lemma adm_ok_delete: "adm_ok db \<Longrightarrow> adm_ok (delete_admins P db)"
  using at.wf_delete by (auto simp: adm_ok_def delete_admins_def intro: distinct_map_filter)

lemma adm_ok_guarded:
  assumes "adm_ok db" "\<And>P. adm_ok (stmt P db)"
  shows "adm_ok (snd (guardedLastActive faults i stmt db))"
proof -
  obtain r db' where g: "guardedLastActive faults i stmt db = (r, db')" by (metis prod.exhaust)
  show ?thesis by (cases rule: guarded_cases [OF g]) (use assms g in simp_all)
qed

lemma tbl_wf_rekey:
  assumes "tbl_wf ad_ID ad_Email t" "(\<exists>a\<in>set (t_rows t). ad_ID a = i) \<Longrightarrow> \<forall>a\<in>set (t_rows t). ad_Email a = e \<longrightarrow> ad_ID a = i"
  shows "tbl_wf ad_ID ad_Email (tbl_update (\<lambda>a. ad_ID a = i) (\<lambda>a. a\<lparr>ad_Email := e, ad_UpdatedAt := n\<rparr>) t)"
proof -
  let ?f = "\<lambda>a. if ad_ID a = i then a\<lparr>ad_Email := e, ad_UpdatedAt := n\<rparr> else a"
  have id: "map (\<lambda>a. ad_ID (?f a)) (t_rows t) = map ad_ID (t_rows t)" by simp
  have "inj_on (\<lambda>a. ad_Email (?f a)) (set (t_rows t))"
  proof (rule inj_onI)
    fix x y assume xy: "x \<in> set (t_rows t)" "y \<in> set (t_rows t)" "ad_Email (?f x) = ad_Email (?f y)"
    have "inj_on ad_ID (set (t_rows t))" "inj_on ad_Email (set (t_rows t))"
      using assms(1) by (auto simp: tbl_wf_def distinct_map)
    then show "x = y" using xy assms(2) by (auto simp: inj_on_def split: if_splits)
  qed
  moreover have "distinct (t_rows t)" using assms(1) by (auto simp: tbl_wf_def distinct_map)
  ultimately have "distinct (map (\<lambda>a. ad_Email (?f a)) (t_rows t))" by (simp add: distinct_map)
  moreover have "distinct (map ad_ID (t_rows t))" using assms(1) by (simp add: tbl_wf_def)
  ultimately show ?thesis using assms(1) by (simp only: id [symmetric]) (auto simp: tbl_wf_def tbl_update_def comp_def)
qed

lemma distinct_token_touch:
  "map ss_Token (map (\<lambda>s. if ss_Token s = x then s\<lparr>ss_IdleExpiresAt := n\<rparr> else s) ss) = map ss_Token ss"
  by simp

lemma adm_ok_step:
  assumes "adm_ok db"
  shows "adm_ok (adm_step E c db)"
proof (cases c)
  case (ACreate f salt now email pw)
  then show ?thesis using assms at.wf_insert
    by (auto simp: Create_def Let_def case_prod_beta adm_ok_def split: option.split)
next
  case (AChangeEmail f now i email)
  then show ?thesis using assms
    by (auto simp: ChangeEmail_def Let_def case_prod_beta adm_ok_def upd_admins_def admin_by_id_def find_None_all
        intro!: tbl_wf_rekey)
next
  case (ASetDisabled fs now i b)
  let ?st = "\<lambda>P db. snd (upd_admins P (\<lambda>a. a\<lparr>ad_DisabledAt := Some now, ad_UpdatedAt := now\<rparr>) db)"
  have "adm_ok (snd (guardedLastActive fs i ?st db))" by (rule adm_ok_guarded [OF assms]) (simp add: adm_ok_upd assms)
  then show ?thesis using ASetDisabled assms
    by (auto simp: SetDisabled_def RevokeOtherSessions_def case_prod_beta intro: adm_ok_upd adm_ok_revoke
        split: prod.splits option.splits)
next
  case (ADelete fs i)
  then show ?thesis using assms by (auto simp: Delete_def intro: adm_ok_guarded adm_ok_delete)
next
  case (AReset fs salt now i pw)
  then show ?thesis using assms by (auto simp: ResetForBootstrap_def intro!: adm_ok_revoke adm_ok_upd split: option.split)
next
  case (ACreateSession f rnd now i ip ua)
  then show ?thesis using assms by (auto simp: CreateSession_def Let_def adm_ok_def split: option.split)
next
  case (ALookupSession f tf now tok)
  then show ?thesis using assms
    by (auto simp: LookupSession_def Let_def adm_ok_def comp_def if_distrib [of ss_Token] cong: if_cong split: option.split)
qed (use assms in \<open>auto simp: adm_op_defs Let_def case_prod_beta intro: adm_ok_upd adm_ok_revoke split: option.split\<close>)

interpretation adm: machine "adm_step E" adm_ok for E
  by unfold_locales (rule adm_ok_step)

interpretation act: machine "adm_step E" "\<lambda>db. adm_ok db \<and> has_active db" for E
  by unfold_locales (auto intro: adm_ok_step has_active_step)

section \<open>Revoked sessions\<close>

text \<open>A session token is dead when no stored row for it is unrevoked. Only minting the same token
  again could revive it.\<close>

definition dead_token :: "adm_env \<Rightarrow> string \<Rightarrow> adm_db \<Rightarrow> bool" where
  "dead_token E tok db \<longleftrightarrow> (\<forall>s\<in>set (adb_sessions db). ss_Token s = hashToken E tok \<longrightarrow> ss_RevokedAt s \<noteq> None)"

definition mints :: "adm_env \<Rightarrow> string \<Rightarrow> adm_cmd \<Rightarrow> bool" where
  "mints E tok c = (case c of
     ACreateSession f rnd now i ip ua \<Rightarrow> (case opaqueToken rnd of None \<Rightarrow> False | Some t \<Rightarrow> hashToken E t = hashToken E tok)
   | _ \<Rightarrow> False)"

lemma dead_admins [simp]:
  "dead_token E tok (snd (upd_admins P f db)) = dead_token E tok db"
  "dead_token E tok (db\<lparr>adb_admins := t\<rparr>) = dead_token E tok db"
  by (simp_all add: dead_token_def)

lemma dead_revoke: "dead_token E tok db \<Longrightarrow> dead_token E tok (revoke_where now P db)"
  by (auto simp: dead_token_def revoke_where_sessions)

lemma dead_revoke_all:
  "(\<And>s. s \<in> set (adb_sessions db) \<Longrightarrow> ss_Token s = hashToken E tok \<Longrightarrow> P s) \<Longrightarrow> dead_token E tok (revoke_where now P db)"
  by (auto simp: dead_token_def revoke_where_sessions)

lemma dead_guarded:
  assumes "dead_token E tok db" "\<And>P. set (adb_sessions (stmt P db)) \<subseteq> set (adb_sessions db)"
  shows "dead_token E tok (snd (guardedLastActive faults i stmt db))"
proof -
  obtain r db' where g: "guardedLastActive faults i stmt db = (r, db')" by (metis prod.exhaust)
  show ?thesis by (cases rule: guarded_cases [OF g]) (use assms g in \<open>auto simp: dead_token_def\<close>)
qed

lemma dead_step:
  assumes "dead_token E tok db" "\<not> mints E tok c"
  shows "dead_token E tok (adm_step E c db)"
proof (cases c)
  case (ASetDisabled fs now i b)
  let ?st = "\<lambda>P db. snd (upd_admins P (\<lambda>a. a\<lparr>ad_DisabledAt := Some now, ad_UpdatedAt := now\<rparr>) db)"
  have "dead_token E tok (snd (guardedLastActive fs i ?st db))" by (rule dead_guarded [OF assms(1)]) simp
  then show ?thesis using ASetDisabled assms(1)
    by (auto simp: SetDisabled_def RevokeOtherSessions_def case_prod_beta intro: dead_revoke
        split: prod.splits option.splits)
next
  case (ADelete fs i)
  have "dead_token E tok (snd (guardedLastActive fs i delete_admins db))"
    by (rule dead_guarded [OF assms(1)]) (auto simp: delete_admins_def)
  then show ?thesis using ADelete by (simp add: Delete_def)
next
  case (ACreateSession f rnd now i ip ua)
  then show ?thesis using assms by (auto simp: CreateSession_def Let_def mints_def dead_token_def split: option.splits)
next
  case (ALookupSession f tf now t)
  then show ?thesis using assms(1) by (auto simp: LookupSession_def Let_def dead_token_def split: option.split)
next
  case (AReset fs salt now i pw)
  then show ?thesis using assms(1)
    by (auto simp: ResetForBootstrap_def intro!: dead_revoke split: option.split)
qed (use assms(1) in \<open>auto simp: adm_op_defs Let_def case_prod_beta intro: dead_revoke split: option.split\<close>)

lemma dead_run:
  "dead_token E tok db \<Longrightarrow> \<forall>c\<in>set cs. \<not> mints E tok c \<Longrightarrow> dead_token E tok (run (adm_step E) cs db)"
  by (induction cs arbitrary: db) (auto intro: dead_step)

lemma dead_lookup: "dead_token E tok db \<Longrightarrow> isl (fst (LookupSession E f tf t tok db))"
  by (auto simp: LookupSession_def dead_token_def validate_def Let_def split: option.split dest: find_Some_in)

section \<open>Lookup\<close>

lemma LookupSession_hit:
  assumes "LookupSession E f tf t tok db = (Inr (sess, adm), db')"
  obtains s a where "s \<in> set (adb_sessions db)" "ss_Token s = hashToken E tok" "a \<in> set (t_rows (adb_admins db))"
    "ad_ID a = ss_AdminID s" "validate t s a = None" "adm = toAdmin a"
    "sess = \<lparr>sn_Token = tok, sn_AdminID = ss_AdminID s, sn_CSRFToken = sessionCSRF E tok, sn_IssuedAt = ss_IssuedAt s,
       sn_ExpiresAt = ss_ExpiresAt s, sn_IdleExpiresAt = t + SessionIdleTTL\<rparr>"
  using assms
  by (auto simp: LookupSession_def admin_by_id_def Let_def split: if_splits option.splits dest!: find_Some_in)

lemma new_session_found:
  assumes "adm_ok db" "CreateSession E False (Some rnd) now i ip ua db = (Inr sess, db1)"
  shows "find (\<lambda>s. ss_Token s = hashToken E (sn_Token sess)) (adb_sessions db1) =
      Some \<lparr>ss_Token = hashToken E (sn_Token sess), ss_AdminID = i, ss_IssuedAt = now, ss_ExpiresAt = now + SessionTTL,
        ss_IdleExpiresAt = now + SessionIdleTTL, ss_CSRFToken = hashToken E (sn_CSRFToken sess), ss_RevokedAt = None,
        ss_IPHash = nullable ip, ss_UAHash = nullable ua\<rparr>
    \<and> adb_admins db1 = adb_admins db \<and> sn_Token sess = b64url rnd
    \<and> sess = \<lparr>sn_Token = b64url rnd, sn_AdminID = i, sn_CSRFToken = sessionCSRF E (b64url rnd), sn_IssuedAt = now,
        sn_ExpiresAt = now + SessionTTL, sn_IdleExpiresAt = now + SessionIdleTTL\<rparr>"
proof -
  have n: "hashToken E (b64url rnd) \<notin> ss_Token ` set (adb_sessions db)"
    using assms(2) by (auto simp: CreateSession_def opaqueToken_def Let_def split: if_splits)
  then have "find (\<lambda>s. ss_Token s = hashToken E (b64url rnd)) (adb_sessions db) = None" by (force simp: find_None_all)
  then show ?thesis using assms(2)
    by (auto simp: CreateSession_def opaqueToken_def Let_def find_append split: if_splits)
qed

section \<open>Evaluation environment\<close>

text \<open>Stand-ins for evaluation: a hash that shows the password, plain digests, the toy AEAD.\<close>

definition toy_adm_env :: adm_env where
  "toy_adm_env = \<lparr>ev_U = ascii_tables, ev_folds = (\<lambda>_ _. False),
     bc_hash = (\<lambda>salt p. if length p \<le> 72 then Some (CHR ''$'' # p) else None), bc_match = (\<lambda>h p. h = CHR ''$'' # p),
     ev_sha = (\<lambda>s. s), ev_hmac = (\<lambda>k m. k), ev_hmac1 = toy_hmac, ev_box = Some toy_aead,
     ev_unjson = (\<lambda>s. if s = ''null'' then Some [] else Some (map (\<lambda>q. filter (\<lambda>c. c \<noteq> CHR 0x22) q) (split_on CHR '','' (butlast (tl s))))),
     pw_lower = (\<lambda>r. 97 \<le> r \<and> r \<le> 122), pw_upper = (\<lambda>r. 65 \<le> r \<and> r \<le> 90), pw_digit = (\<lambda>r. 48 \<le> r \<and> r \<le> 57),
     pw_symbol = (\<lambda>r. 33 \<le> r \<and> r < 48), pw_common = (\<lambda>_. False),
     pw_estimate = (\<lambda>s _. (real (6 * length s), [])), pw_context = []\<rparr>"

definition empty_adm_db :: adm_db where
  "empty_adm_db = \<lparr>adb_admins = empty_table, adb_sessions = []\<rparr>"

definition two_admins :: adm_db where
  "two_admins = run (adm_step toy_adm_env)
     [ACreate False [] 0 ''a@x.org'' ''pw1'', ACreate False [] 0 ''b@x.org'' ''pw2'', ACreateSession False (Some ''abc'') 5 2 [] []] empty_adm_db"

lemma two_admins_ok: "adm_ok two_admins"
  unfolding two_admins_def empty_adm_db_def by (rule adm.inv_run [OF adm_ok_empty])

section \<open>Properties\<close>

text \<open>
  C18. The console never loses its last operator: starting with an active administrator, every
  sequence of operations (creations, disabling, deletions, logins, resets, driver failures) leaves
  an active administrator, and disabling or deleting the only active one is refused with
  \<open>ErrLastActiveAdmin\<close> and changes nothing.
\<close>

theorem last_active_admin_is_protected:
  assumes "adm_ok db" "has_active db"
  shows "has_active (run (adm_step E) cmds db)
    \<and> (a \<in> set (t_rows (adb_admins db)) \<and> ad_DisabledAt a = None
         \<and> (\<forall>b\<in>set (t_rows (adb_admins db)). ad_DisabledAt b = None \<longrightarrow> b = a) \<longrightarrow>
       SetDisabled E no_faults now (ad_ID a) True db = (Some ErrLastActiveAdmin, db)
         \<and> Delete no_faults (ad_ID a) db = (Some ErrLastActiveAdmin, db))"
proof
  show "has_active (run (adm_step E) cmds db)" using act.inv_run assms by blast
  show "a \<in> set (t_rows (adb_admins db)) \<and> ad_DisabledAt a = None
       \<and> (\<forall>b\<in>set (t_rows (adb_admins db)). ad_DisabledAt b = None \<longrightarrow> b = a) \<longrightarrow>
     SetDisabled E no_faults now (ad_ID a) True db = (Some ErrLastActiveAdmin, db)
       \<and> Delete no_faults (ad_ID a) db = (Some ErrLastActiveAdmin, db)"
  proof (intro impI, elim conjE)
    assume a: "a \<in> set (t_rows (adb_admins db))" "ad_DisabledAt a = None"
      and only: "\<forall>b\<in>set (t_rows (adb_admins db)). ad_DisabledAt b = None \<longrightarrow> b = a"
    have wf: "tbl_wf ad_ID ad_Email (adb_admins db)" using assms(1) by (simp add: adm_ok_def)
    have i: "admin_by_id db (ad_ID a) = Some a" unfolding admin_by_id_def by (rule at.find_id_unique [OF wf a(1)])
    have "b = a" if "b \<in> set (t_rows (adb_admins db))" "ad_ID b = ad_ID a" for b
      using at.find_id_unique [OF wf that(1)] i unfolding admin_by_id_def that(2) by simp
    moreover have "\<not> lastActiveCond db a"
      using a(2) only by (auto simp: lastActiveCond_def tbl_affected_def filter_empty_conv)
    ultimately have "tbl_affected (\<lambda>b. ad_ID b = ad_ID a \<and> lastActiveCond db b) (adb_admins db) = 0"
      by (auto simp: tbl_affected_def filter_empty_conv)
    then have "guardedLastActive no_faults (ad_ID a) st db = (Some ErrLastActiveAdmin, db)" for st
      using i by (simp add: guardedLastActive_def)
    then show "SetDisabled E no_faults now (ad_ID a) True db = (Some ErrLastActiveAdmin, db)
       \<and> Delete no_faults (ad_ID a) db = (Some ErrLastActiveAdmin, db)"
      by (simp add: SetDisabled_def Delete_def)
  qed
qed

theorem last_active_admin_is_protected_witness:
  "has_active two_admins
   \<and> map ad_Email (filter (\<lambda>a. ad_DisabledAt a = None) (t_rows (adb_admins
        (run (adm_step toy_adm_env) [ASetDisabled no_faults 1 1 True, ADelete no_faults 2] two_admins)))) = [''b@x.org'']
   \<and> has_active (run (adm_step toy_adm_env) [ASetDisabled no_faults 1 1 True, ADelete no_faults 2] two_admins)"
proof -
  have h: "has_active two_admins" by code_simp
  have "map ad_Email (filter (\<lambda>a. ad_DisabledAt a = None) (t_rows (adb_admins
        (run (adm_step toy_adm_env) [ASetDisabled no_faults 1 1 True, ADelete no_faults 2] two_admins)))) = [''b@x.org'']"
    by code_simp
  then show ?thesis using last_active_admin_is_protected [OF two_admins_ok h] h by blast
qed

lemma b64url_plain: "\<forall>c\<in>set (b64url s). plain_char c"
proof -
  have "\<forall>n\<in>set [0..<64]. plain_char (b64url_digit n)" by code_simp
  then have d: "plain_char (b64url_digit n)" if "n < 64" for n using that by simp
  have m: "x mod 4 * 16 + y div 16 < 64" "4 * (x mod 16) + y div 64 < 64" "y div 4 < 64" if "y < 256" for x y :: nat
    using that by linarith+
  show ?thesis
    by (induction s rule: b64url.induct) (auto intro!: d m simp: mult.commute [of _ 4])
qed

lemma TrimSpace_b64url: "s \<noteq> [] \<Longrightarrow> TrimSpace (b64url s) \<noteq> []"
proof -
  assume "s \<noteq> []"
  then have "b64url s \<noteq> []" by (cases s rule: b64url.cases) auto
  then show ?thesis using b64url_plain [of s] TrimSpace_plain [of "b64url s"] by auto
qed

text \<open>
  C29. A revoked session never works again: once \<open>SetDisabled\<close>, \<open>ResetForBootstrap\<close>, \<open>RevokeSession\<close>
  or \<open>RevokeOtherSessions\<close> (keeping another token) has succeeded on a session, then after any
  further operations, re-enabling the account included, the lookup of its token fails at every
  time, as long as the same token is not minted a second time.
\<close>

theorem revoked_session_stays_dead:
  assumes "s \<in> set (adb_sessions db)" "adm_ok db" "ss_Token s = hashToken E tok" "hashToken E tok \<noteq> hashToken E []"
    and "SetDisabled E fs now (ss_AdminID s) True db = (None, db1)
       \<or> ResetForBootstrap E ks salt now (ss_AdminID s) pw db = (None, db1)
       \<or> RevokeSession E f now tok db = (None, db1)
       \<or> RevokeOtherSessions E f now (ss_AdminID s) keep db = (None, db1) \<and> hashToken E keep \<noteq> hashToken E tok"
    and "\<forall>c\<in>set cmds. \<not> mints E tok c"
  shows "isl (fst (LookupSession E lf tf t tok (run (adm_step E) cmds db1)))"
proof -
  have uniq: "x = s" if "x \<in> set (adb_sessions db)" "ss_Token x = hashToken E tok" for x
    using assms(1-3) that by (auto simp: adm_ok_def distinct_map inj_on_def)
  have g: "adb_sessions db' = adb_sessions db"
    if "guardedLastActive fs i (\<lambda>P db. snd (upd_admins P h db)) db = (r, db')" for i h r db'
    by (cases rule: guarded_cases [OF that]) auto
  have "dead_token E tok db1"
    using assms(5)
  proof (elim disjE conjE)
    assume "SetDisabled E fs now (ss_AdminID s) True db = (None, db1)"
    then obtain db2 h where "guardedLastActive fs (ss_AdminID s) (\<lambda>P db. snd (upd_admins P h db)) db = (None, db2)"
      "db1 = revoke_where now (\<lambda>x. ss_AdminID x = ss_AdminID s \<and> ss_Token x \<noteq> hashToken E []) db2"
      by (auto simp: SetDisabled_def RevokeOtherSessions_def split: prod.splits option.splits if_splits)
    moreover from this(1) have "adb_sessions db2 = adb_sessions db" by (rule g)
    ultimately show ?thesis using uniq assms(3,4) by (simp only:) (rule dead_revoke_all, auto)
  next
    assume "ResetForBootstrap E ks salt now (ss_AdminID s) pw db = (None, db1)"
    then show ?thesis using uniq
      by (auto simp: ResetForBootstrap_def intro!: dead_revoke_all split: option.splits if_splits)
  next
    assume "RevokeSession E f now tok db = (None, db1)"
    then show ?thesis by (auto simp: RevokeSession_def intro!: dead_revoke_all split: if_splits)
  next
    assume "RevokeOtherSessions E f now (ss_AdminID s) keep db = (None, db1)" "hashToken E keep \<noteq> hashToken E tok"
    then show ?thesis using uniq assms(3) by (auto simp: RevokeOtherSessions_def intro!: dead_revoke_all split: if_splits)
  qed
  then show ?thesis using dead_run [OF _ assms(6)] dead_lookup by blast
qed

definition sample_row :: sessionRow where
  "sample_row = hd (adb_sessions two_admins)"

definition sample_disabled :: adm_db where
  "sample_disabled = snd (SetDisabled toy_adm_env no_faults 10 2 True two_admins)"

theorem revoked_session_stays_dead_witness:
  "\<not> isl (fst (LookupSession toy_adm_env False False 20 ''YWJj'' two_admins))
   \<and> SetDisabled toy_adm_env no_faults 10 2 True two_admins = (None, sample_disabled)
   \<and> isl (fst (LookupSession toy_adm_env False False 20 ''YWJj''
        (run (adm_step toy_adm_env) [ASetDisabled no_faults 11 2 False] sample_disabled)))"
proof -
  have r: "sample_row \<in> set (adb_sessions two_admins)" "ss_Token sample_row = hashToken toy_adm_env ''YWJj''"
    "hashToken toy_adm_env ''YWJj'' \<noteq> hashToken toy_adm_env []"
    "SetDisabled toy_adm_env no_faults 10 (ss_AdminID sample_row) True two_admins = (None, sample_disabled)"
    "ss_AdminID sample_row = 2" "\<not> isl (fst (LookupSession toy_adm_env False False 20 ''YWJj'' two_admins))"
    by code_simp+
  have "\<forall>c\<in>set [ASetDisabled no_faults 11 2 False]. \<not> mints toy_adm_env ''YWJj'' c" by (simp add: mints_def)
  then show ?thesis
    using revoked_session_stays_dead [OF r(1) two_admins_ok r(2,3) disjI1 [OF r(4)],
        where cmds = "[ASetDisabled no_faults 11 2 False]" and lf = False and tf = False and t = 20] r(4-6) by simp
qed

text \<open>
  A session is accepted only while it is alive: whatever operations ran before, a successful
  lookup at time \<open>t\<close> comes from a stored, unrevoked session of an enabled account that was issued
  less than eight hours before \<open>t\<close> and whose idle deadline had not passed; the absolute deadline
  is never extended, the idle one becomes 30 minutes from \<open>t\<close>, and the CSRF token is the one bound
  to the session token.
\<close>

theorem session_accepted_only_while_alive:
  assumes "LookupSession E f tf t tok (run (adm_step E) cmds empty_adm_db) = (Inr (sess, adm), db')"
  shows "t < sn_IssuedAt sess + SessionTTL \<and> sn_ExpiresAt sess = sn_IssuedAt sess + SessionTTL
    \<and> sn_IdleExpiresAt sess = t + SessionIdleTTL \<and> sn_CSRFToken sess = sessionCSRF E tok
    \<and> (\<exists>s\<in>set (adb_sessions (run (adm_step E) cmds empty_adm_db)).
         ss_Token s = hashToken E tok \<and> ss_AdminID s = sn_AdminID sess \<and> ss_RevokedAt s = None \<and> t < ss_IdleExpiresAt s)
    \<and> (\<exists>a\<in>set (t_rows (adb_admins (run (adm_step E) cmds empty_adm_db))).
         ad_ID a = sn_AdminID sess \<and> ad_DisabledAt a = None \<and> adm = toAdmin a)"
proof -
  let ?db = "run (adm_step E) cmds empty_adm_db"
  have ok: "adm_ok ?db" unfolding empty_adm_db_def by (rule adm.inv_run [OF adm_ok_empty])
  show ?thesis
  proof (rule LookupSession_hit [OF assms])
    fix s a
    assume s: "s \<in> set (adb_sessions ?db)" "ss_Token s = hashToken E tok" "a \<in> set (t_rows (adb_admins ?db))"
      "ad_ID a = ss_AdminID s" "validate t s a = None" "adm = toAdmin a"
      "sess = \<lparr>sn_Token = tok, sn_AdminID = ss_AdminID s, sn_CSRFToken = sessionCSRF E tok, sn_IssuedAt = ss_IssuedAt s,
         sn_ExpiresAt = ss_ExpiresAt s, sn_IdleExpiresAt = t + SessionIdleTTL\<rparr>"
    have "ss_ExpiresAt s = ss_IssuedAt s + SessionTTL" using ok s(1) by (simp add: adm_ok_def)
    moreover have "ss_RevokedAt s = None" "t < ss_ExpiresAt s" "t < ss_IdleExpiresAt s" "ad_DisabledAt a = None"
      using s(5) by (auto simp: validate_def split: if_splits)
    ultimately show ?thesis using s by auto
  qed
qed

definition sample_session_cmds :: "adm_cmd list" where
  "sample_session_cmds = [ACreate False [] 0 ''a@x.org'' ''pw1'', ACreateSession False (Some ''abc'') 5 1 [] []]"

theorem session_accepted_only_while_alive_witness:
  "\<exists>sess adm db'. LookupSession toy_adm_env False False 20 ''YWJj'' (run (adm_step toy_adm_env) sample_session_cmds empty_adm_db)
      = (Inr (sess, adm), db') \<and> sn_IssuedAt sess = 5 \<and> sn_ExpiresAt sess = 5 + SessionTTL"
proof -
  let ?db = "run (adm_step toy_adm_env) sample_session_cmds empty_adm_db"
  have "\<not> isl (fst (LookupSession toy_adm_env False False 20 ''YWJj'' ?db))
      \<and> sn_IssuedAt (fst (projr (fst (LookupSession toy_adm_env False False 20 ''YWJj'' ?db)))) = 5" by code_simp
  then obtain sess adm db' where h: "LookupSession toy_adm_env False False 20 ''YWJj'' ?db = (Inr (sess, adm), db')" "sn_IssuedAt sess = 5"
    by (cases "LookupSession toy_adm_env False False 20 ''YWJj'' ?db"; cases "fst (LookupSession toy_adm_env False False 20 ''YWJj'' ?db)") auto
  have "sn_ExpiresAt sess = sn_IssuedAt sess + SessionTTL" using session_accepted_only_while_alive [OF h(1)] by blast
  then show ?thesis using h by auto
qed

text \<open>
  A new session works: the token \<open>CreateSession\<close> returned for an enabled account is accepted
  at every time before the idle deadline, with the same account, CSRF token and absolute deadline.
\<close>

theorem new_session_is_accepted:
  assumes "adm_ok db" "CreateSession E False (Some rnd) now i ip ua db = (Inr sess, db1)" "rnd \<noteq> []"
    and "a \<in> set (t_rows (adb_admins db))" "ad_ID a = i" "ad_DisabledAt a = None" "t < now + SessionIdleTTL"
  shows "fst (LookupSession E False tf t (sn_Token sess) db1)
    = Inr (sess\<lparr>sn_IdleExpiresAt := t + SessionIdleTTL\<rparr>, toAdmin a)"
proof -
  note n = new_session_found [OF assms(1,2)]
  let ?s = "\<lparr>ss_Token = hashToken E (sn_Token sess), ss_AdminID = i, ss_IssuedAt = now, ss_ExpiresAt = now + SessionTTL,
    ss_IdleExpiresAt = now + SessionIdleTTL, ss_CSRFToken = hashToken E (sn_CSRFToken sess), ss_RevokedAt = None,
    ss_IPHash = nullable ip, ss_UAHash = nullable ua\<rparr>"
  have f: "find (\<lambda>s. ss_Token s = hashToken E (sn_Token sess)) (adb_sessions db1) = Some ?s" using n by blast
  have s: "sn_Token sess = b64url rnd" "sn_AdminID sess = i" "sn_CSRFToken sess = sessionCSRF E (sn_Token sess)"
    "sn_IssuedAt sess = now" "sn_ExpiresAt sess = now + SessionTTL" using n by auto
  have "admin_by_id db1 i = Some a"
    using at.find_id_unique [OF _ assms(4)] assms(1,5) n by (simp add: admin_by_id_def adm_ok_def)
  moreover have "TrimSpace (sn_Token sess) \<noteq> []" using n TrimSpace_b64url [OF assms(3)] by simp
  moreover have "t < now + SessionTTL" using assms(7) by (simp add: SessionTTL_def SessionIdleTTL_def)
  ultimately show ?thesis
    using f s(2-5) assms(6,7) by (cases sess) (simp add: LookupSession_def validate_def Let_def)
qed

theorem new_session_is_accepted_witness:
  "\<exists>sess db1. CreateSession toy_adm_env False (Some ''xyz'') 7 2 [] [] two_admins = (Inr sess, db1)
     \<and> isl (fst (LookupSession toy_adm_env False False 100 (sn_Token sess) db1)) = False"
proof -
  let ?c = "CreateSession toy_adm_env False (Some ''xyz'') 7 2 [] [] two_admins"
  have "\<not> isl (fst ?c)" by code_simp
  then obtain sess db1 where c: "?c = (Inr sess, db1)" by (cases ?c; cases "fst ?c") auto
  let ?a = "t_rows (adb_admins two_admins) ! 1"
  have a: "?a \<in> set (t_rows (adb_admins two_admins))" "ad_ID ?a = 2" "ad_DisabledAt ?a = None" by code_simp+
  show ?thesis using c new_session_is_accepted [OF two_admins_ok c _ a, of 100] by (auto simp: SessionIdleTTL_def)
qed

end
