(* ===== verification/Admin_Auth.thy ===== *)
theory Admin_Auth
  imports Admin_Accounts
begin

text \<open>
  Authentication of administrators (\<open>internal/admin/admin.go\<close>): password factor, attempt
  reservation and lockout, TOTP and recovery codes, step-up. First the calls as the source has
  them, each statement with its own driver fault and clock reading; then the same calls cut at
  their database statements, so that any number of requests can interleave.
\<close>

section \<open>Calls\<close>

datatype auth_stmt = LLoad | LCheck | LClear | LReserve | LLock | LLoadCodes | LCas | LTotp | LUseStep | LSuccess | LGiveBack

record authResult =
  ar_Admin :: admin
  ar_NeedsPasswordChange :: bool
  ar_NeedsTOTPEnrollment :: bool
  ar_UsedRecoveryCode :: bool

text \<open>The answer of a login or of a step-up; \<open>ErrTOTPRequired\<close> comes with the account.\<close>

datatype auth_out = Refused adm_err "admin option" | LoggedIn authResult | Verified

definition checkLock ::
  "auth_stmt faults \<Rightarrow> (auth_stmt \<Rightarrow> time) \<Rightarrow> adminRow \<Rightarrow> adm_db \<Rightarrow> adm_err option \<times> adm_db" where
  "checkLock faults clk row db =
     (case ad_LockedUntil row of
        None \<Rightarrow> (None, db)
      | Some lu \<Rightarrow>
          if clk LCheck < lu then (Some ErrAccountLocked, db)
          else (None, clearExpiredLock (faults LClear) (clk LClear) (ad_ID row) db))"

definition verifyPasswordFactor ::
  "adm_env \<Rightarrow> auth_stmt faults \<Rightarrow> (auth_stmt \<Rightarrow> time) \<Rightarrow> string \<Rightarrow> string \<Rightarrow> adm_db \<Rightarrow> (adm_err + adminRow) \<times> adm_db" where
  "verifyPasswordFactor E faults clk email password db =
     (case loadByEmail E (faults LLoad) email db of
        Inl e \<Rightarrow> (Inl (if e = ErrNotFound then ErrInvalidCreds else e), db)
      | Inr row \<Rightarrow>
          (case checkLock faults clk row db of
             (Some e, db1) \<Rightarrow> (Inl e, db1)
           | (None, db1) \<Rightarrow>
               (case reserveAttempt (faults LReserve) (clk LReserve) (ad_ID row) db1 of
                  (Inl e, db2) \<Rightarrow> (Inl e, db2)
                | (Inr reserved, db2) \<Rightarrow>
                    if \<not> reserved then (Inl ErrAccountLocked, lockIfExhausted (faults LLock) (clk LLock) (ad_ID row) db2)
                    else if \<not> bc_match E (ad_PasswordHash row) password
                      then (Inl ErrInvalidCreds, lockIfExhausted (faults LLock) (clk LLock) (ad_ID row) db2)
                    else if ad_DisabledAt row \<noteq> None then (Inl ErrAccountDisabled, db2)
                    else (Inr row, db2))))"

definition looksLikeRecoveryCode :: "string \<Rightarrow> bool" where
  "looksLikeRecoveryCode code \<longleftrightarrow> (let c = TrimSpace code in length c = 11 \<and> c ! 5 = CHR ''-'')"

text \<open>The two halves of \<open>ConsumeRecoveryCode\<close>: what the loaded row says of the code, and the
  compare-and-swap on the ciphertext that was read.\<close>

definition recovery_next :: "adm_env \<Rightarrow> adminRow \<Rightarrow> string \<Rightarrow> adm_err + string list" where
  "recovery_next E row code =
     (if ad_TOTPRecoveryCodesEnc row = [] then Inl ErrInvalidCreds
      else case Open (ev_box E) (ad_TOTPRecoveryCodesEnc row) (adminAAD E (ad_ID row)) of
        None \<Rightarrow> Inl ErrSeal
      | Some pt \<Rightarrow>
          (case ev_unjson E pt of
             None \<Rightarrow> Inl ErrCodes
           | Some codes \<Rightarrow>
               (case ConsumeRecovery (ev_U E) (ev_folds E) codes code of
                  (next, ok) \<Rightarrow> if \<not> ok then Inl ErrInvalidCreds else Inr next)))"

definition cas_codes ::
  "adm_env \<Rightarrow> bool \<Rightarrow> string option \<Rightarrow> time \<Rightarrow> int \<Rightarrow> string \<Rightarrow> string list \<Rightarrow> adm_db \<Rightarrow> adm_err option \<times> adm_db" where
  "cas_codes E fault rnd now adminID old nxt db =
     (case Seal (ev_box E) rnd (codes_json nxt) (adminAAD E adminID) of
        None \<Rightarrow> (Some ErrSeal, db)
      | Some nextEnc \<Rightarrow>
          if fault then (Some ErrDriver, db)
          else let (n, db') = upd_admins (\<lambda>a. ad_ID a = adminID \<and> ad_TOTPRecoveryCodesEnc a = old)
                                (\<lambda>a. a\<lparr>ad_TOTPRecoveryCodesEnc := nextEnc, ad_UpdatedAt := now\<rparr>) db
               in (if n \<noteq> 1 then Some ErrInvalidCreds else None, db'))"

definition ConsumeRecoveryCode ::
  "adm_env \<Rightarrow> auth_stmt faults \<Rightarrow> (auth_stmt \<Rightarrow> time) \<Rightarrow> string option \<Rightarrow> int \<Rightarrow> string \<Rightarrow> adm_db \<Rightarrow> adm_err option \<times> adm_db" where
  "ConsumeRecoveryCode E faults clk rnd adminID code db =
     (case loadByID (faults LLoadCodes) adminID db of
        Inl e \<Rightarrow> (Some e, db)
      | Inr row \<Rightarrow>
          (case recovery_next E row code of
             Inl e \<Rightarrow> (Some e, db)
           | Inr nxt \<Rightarrow> cas_codes E (faults LCas) rnd (clk LCas) adminID (ad_TOTPRecoveryCodesEnc row) nxt db))"

definition openTOTPSecret :: "adm_env \<Rightarrow> adminRow \<Rightarrow> adm_err + string" where
  "openTOTPSecret E row =
     (case Open (ev_box E) (ad_TOTPSecretEnc row) (adminAAD E (ad_ID row)) of
        None \<Rightarrow> Inl ErrTOTPUnrecoverable | Some pt \<Rightarrow> Inr pt)"

definition success_out :: "adminRow \<Rightarrow> bool \<Rightarrow> bool \<Rightarrow> auth_out" where
  "success_out row enrol usedRecovery = LoggedIn \<lparr>ar_Admin = toAdmin row,
     ar_NeedsPasswordChange = ad_ForcePasswordChange row, ar_NeedsTOTPEnrollment = enrol, ar_UsedRecoveryCode = usedRecovery\<rparr>"

definition authenticateRecoveryCode ::
  "adm_env \<Rightarrow> auth_stmt faults \<Rightarrow> (auth_stmt \<Rightarrow> time) \<Rightarrow> string option \<Rightarrow> adminRow \<Rightarrow> string \<Rightarrow> adm_db \<Rightarrow> auth_out \<times> adm_db" where
  "authenticateRecoveryCode E faults clk rnd row code db =
     (case ConsumeRecoveryCode E faults clk rnd (ad_ID row) code db of
        (Some e, db1) \<Rightarrow>
          if e \<noteq> ErrInvalidCreds then (Refused e None, db1)
          else (Refused ErrInvalidCreds None, lockIfExhausted (faults LLock) (clk LLock) (ad_ID row) db1)
      | (None, db1) \<Rightarrow>
          (success_out row False True, RecordLoginSuccess (faults LSuccess) (clk LSuccess) (ad_ID row) db1))"

definition authenticateTOTP ::
  "adm_env \<Rightarrow> auth_stmt faults \<Rightarrow> (auth_stmt \<Rightarrow> time) \<Rightarrow> adminRow \<Rightarrow> string \<Rightarrow> adm_db \<Rightarrow> auth_out \<times> adm_db" where
  "authenticateTOTP E faults clk row totpCode db =
     (if TrimSpace totpCode = [] then (Refused ErrTOTPRequired (Some (toAdmin row)), db)
      else case openTOTPSecret E row of
        Inl e \<Rightarrow> (Refused e None, db)
      | Inr secret \<Rightarrow>
          (case VerifyStep (ev_hmac1 E) secret totpCode (clk LTotp) of
             None \<Rightarrow> (Refused ErrTOTPSecret None, db)
           | Some (stp, ok) \<Rightarrow>
               if \<not> ok then (Refused ErrInvalidCreds None, lockIfExhausted (faults LLock) (clk LLock) (ad_ID row) db)
               else
                 (case UseTOTPStep (faults LUseStep) (clk LUseStep) (ad_ID row) stp db of
                    (Inl e, db1) \<Rightarrow> (Refused e None, db1)
                  | (Inr fresh, db1) \<Rightarrow>
                      if \<not> fresh then (Refused ErrInvalidCreds None, lockIfExhausted (faults LLock) (clk LLock) (ad_ID row) db1)
                      else (success_out row False False, RecordLoginSuccess (faults LSuccess) (clk LSuccess) (ad_ID row) db1))))"

definition Authenticate ::
  "adm_env \<Rightarrow> auth_stmt faults \<Rightarrow> (auth_stmt \<Rightarrow> time) \<Rightarrow> string option \<Rightarrow> string \<Rightarrow> string \<Rightarrow> string \<Rightarrow> adm_db \<Rightarrow> auth_out \<times> adm_db" where
  "Authenticate E faults clk rnd email password totpCode db =
     (case verifyPasswordFactor E faults clk email password db of
        (Inl e, db1) \<Rightarrow> (Refused e None, db1)
      | (Inr row, db1) \<Rightarrow>
          if ad_ForceTOTPEnroll row \<or> ad_TOTPSecretEnc row = [] then
            (success_out row True False, RecordLoginSuccess (faults LSuccess) (clk LSuccess) (ad_ID row) db1)
          else if looksLikeRecoveryCode totpCode then authenticateRecoveryCode E faults clk rnd row totpCode db1
          else authenticateTOTP E faults clk row totpCode db1)"

definition VerifyPassword ::
  "adm_env \<Rightarrow> auth_stmt faults \<Rightarrow> (auth_stmt \<Rightarrow> time) \<Rightarrow> int \<Rightarrow> string \<Rightarrow> adm_db \<Rightarrow> adm_err option \<times> adm_db" where
  "VerifyPassword E faults clk adminID password db =
     (case loadByID (faults LLoad) adminID db of
        Inl e \<Rightarrow> (Some e, db)
      | Inr row \<Rightarrow>
          (case checkLock faults clk row db of
             (Some e, db1) \<Rightarrow> (Some e, db1)
           | (None, db1) \<Rightarrow>
               (case reserveAttempt (faults LReserve) (clk LReserve) adminID db1 of
                  (Inl e, db2) \<Rightarrow> (Some e, db2)
                | (Inr reserved, db2) \<Rightarrow>
                    if \<not> reserved then (Some ErrAccountLocked, lockIfExhausted (faults LLock) (clk LLock) adminID db2)
                    else if \<not> bc_match E (ad_PasswordHash row) password
                      then (Some ErrInvalidCreds, lockIfExhausted (faults LLock) (clk LLock) adminID db2)
                    else (None, give_back (faults LGiveBack) adminID db2))))"

section \<open>Requests cut at their statements\<close>

text \<open>
  A request in flight stands before one of its statements (or before a clock reading that decides
  its way). \<open>AttemptLogin\<close> and \<open>AttemptVerify\<close> say which call it serves.
\<close>

datatype attempt = AttemptLogin string string | AttemptVerify string

datatype req =
    QLogin string string string
  | QVerify int string
  | QCheck attempt adminRow
  | QClear attempt adminRow
  | QReserve attempt adminRow
  | QLock int adm_err
  | QCodes adminRow string
  | QCas adminRow string string "string list"
  | QTotp adminRow string
  | QStep adminRow int
  | QSuccess int auth_out
  | QGiveBack int
  | QDone auth_out

datatype event = Guess int time | Passed int | TotpUsed int int | RecUsed int string | Ran adm_cmd

fun attempt_password :: "attempt \<Rightarrow> string" where
  "attempt_password (AttemptLogin pw _) = pw"
| "attempt_password (AttemptVerify pw) = pw"

definition after_guess :: "adm_env \<Rightarrow> attempt \<Rightarrow> adminRow \<Rightarrow> req" where
  "after_guess E k row =
     (if \<not> bc_match E (ad_PasswordHash row) (attempt_password k) then QLock (ad_ID row) ErrInvalidCreds
      else case k of
        AttemptVerify _ \<Rightarrow> QGiveBack (ad_ID row)
      | AttemptLogin _ code \<Rightarrow>
          if ad_DisabledAt row \<noteq> None then QDone (Refused ErrAccountDisabled None)
          else if ad_ForceTOTPEnroll row \<or> ad_TOTPSecretEnc row = [] then QSuccess (ad_ID row) (success_out row True False)
          else if looksLikeRecoveryCode code then QCodes row code
          else if TrimSpace code = [] then QDone (Refused ErrTOTPRequired (Some (toAdmin row)))
          else QTotp row code)"

fun req_step :: "adm_env \<Rightarrow> bool \<Rightarrow> time \<Rightarrow> string option \<Rightarrow> req \<Rightarrow> adm_db \<Rightarrow> req \<times> adm_db \<times> event list" where
  "req_step E fault now rnd (QLogin email pw code) db =
     (case loadByEmail E fault email db of
        Inl e \<Rightarrow> (QDone (Refused (if e = ErrNotFound then ErrInvalidCreds else e) None), db, [])
      | Inr row \<Rightarrow> (QCheck (AttemptLogin pw code) row, db, []))"
| "req_step E fault now rnd (QVerify i pw) db =
     (case loadByID fault i db of
        Inl e \<Rightarrow> (QDone (Refused e None), db, [])
      | Inr row \<Rightarrow> (QCheck (AttemptVerify pw) row, db, []))"
| "req_step E fault now rnd (QCheck k row) db =
     (case ad_LockedUntil row of
        None \<Rightarrow> (QReserve k row, db, [])
      | Some lu \<Rightarrow> if now < lu then (QDone (Refused ErrAccountLocked None), db, []) else (QClear k row, db, []))"
| "req_step E fault now rnd (QClear k row) db = (QReserve k row, clearExpiredLock fault now (ad_ID row) db, [])"
| "req_step E fault now rnd (QReserve k row) db =
     (case reserveAttempt fault now (ad_ID row) db of
        (Inl e, db') \<Rightarrow> (QDone (Refused e None), db', [])
      | (Inr reserved, db') \<Rightarrow>
          if \<not> reserved then (QLock (ad_ID row) ErrAccountLocked, db', [])
          else (after_guess E k row, db', [Guess (ad_ID row) now]))"
| "req_step E fault now rnd (QLock i e) db = (QDone (Refused e None), lockIfExhausted fault now i db, [])"
| "req_step E fault now rnd (QCodes row code) db =
     (case loadByID fault (ad_ID row) db of
        Inl e \<Rightarrow> (if e \<noteq> ErrInvalidCreds then QDone (Refused e None) else QLock (ad_ID row) ErrInvalidCreds, db, [])
      | Inr r \<Rightarrow>
          (case recovery_next E r code of
             Inl e \<Rightarrow> (if e \<noteq> ErrInvalidCreds then QDone (Refused e None) else QLock (ad_ID row) ErrInvalidCreds, db, [])
           | Inr nxt \<Rightarrow> (QCas row code (ad_TOTPRecoveryCodesEnc r) nxt, db, [])))"
| "req_step E fault now rnd (QCas row code old nxt) db =
     (case cas_codes E fault rnd now (ad_ID row) old nxt db of
        (Some e, db') \<Rightarrow> (if e \<noteq> ErrInvalidCreds then QDone (Refused e None) else QLock (ad_ID row) ErrInvalidCreds, db', [])
      | (None, db') \<Rightarrow> (QSuccess (ad_ID row) (success_out row False True), db', [RecUsed (ad_ID row) code]))"
| "req_step E fault now rnd (QTotp row code) db =
     (case openTOTPSecret E row of
        Inl e \<Rightarrow> (QDone (Refused e None), db, [])
      | Inr secret \<Rightarrow>
          (case VerifyStep (ev_hmac1 E) secret code now of
             None \<Rightarrow> (QDone (Refused ErrTOTPSecret None), db, [])
           | Some (stp, ok) \<Rightarrow> (if ok then QStep row stp else QLock (ad_ID row) ErrInvalidCreds, db, [])))"
| "req_step E fault now rnd (QStep row stp) db =
     (case UseTOTPStep fault now (ad_ID row) stp db of
        (Inl e, db') \<Rightarrow> (QDone (Refused e None), db', [])
      | (Inr fresh, db') \<Rightarrow>
          if fresh then (QSuccess (ad_ID row) (success_out row False False), db', [TotpUsed (ad_ID row) stp])
          else (QLock (ad_ID row) ErrInvalidCreds, db', []))"
| "req_step E fault now rnd (QSuccess i out) db = (QDone out, RecordLoginSuccess fault now i db, [Passed i])"
| "req_step E fault now rnd (QGiveBack i) db = (QDone Verified, give_back fault i db, [Passed i])"
| "req_step E fault now rnd (QDone out) db = (QDone out, db, [])"

section \<open>A request on its own\<close>

fun stmt_of :: "req \<Rightarrow> auth_stmt" where
  "stmt_of (QLogin _ _ _) = LLoad" | "stmt_of (QVerify _ _) = LLoad" | "stmt_of (QCheck _ _) = LCheck"
| "stmt_of (QClear _ _) = LClear" | "stmt_of (QReserve _ _) = LReserve" | "stmt_of (QLock _ _) = LLock"
| "stmt_of (QCodes _ _) = LLoadCodes" | "stmt_of (QCas _ _ _ _) = LCas" | "stmt_of (QTotp _ _) = LTotp"
| "stmt_of (QStep _ _) = LUseStep" | "stmt_of (QSuccess _ _) = LSuccess" | "stmt_of (QGiveBack _) = LGiveBack"
| "stmt_of (QDone _) = LLoad"

fun alone :: "adm_env \<Rightarrow> auth_stmt faults \<Rightarrow> (auth_stmt \<Rightarrow> time) \<Rightarrow> string option \<Rightarrow> nat \<Rightarrow> req \<Rightarrow> adm_db \<Rightarrow> req \<times> adm_db" where
  "alone E faults clk rnd 0 q db = (q, db)"
| "alone E faults clk rnd (Suc n) q db =
     (case req_step E (faults (stmt_of q)) (clk (stmt_of q)) rnd q db of (q', db', _) \<Rightarrow> alone E faults clk rnd n q' db')"

lemma alone_done [simp]: "alone E faults clk rnd n (QDone out) db = (QDone out, db)"
  by (induction n) auto

lemma alone_lock:
  "alone E faults clk rnd (Suc n) (QLock i e) db = (QDone (Refused e None), lockIfExhausted (faults LLock) (clk LLock) i db)"
  by simp

lemma alone_success:
  "alone E faults clk rnd (Suc n) (QSuccess i out) db = (QDone out, RecordLoginSuccess (faults LSuccess) (clk LSuccess) i db)"
  by simp

lemma loadByID_id: "loadByID f i db = Inr r \<Longrightarrow> ad_ID r = i"
  by (auto simp: loadByID_def admin_by_id_def split: if_splits option.splits dest: find_Some_in)

lemma alone_totp:
  assumes "TrimSpace code \<noteq> []"
  shows "alone E faults clk rnd (Suc (Suc (Suc n))) (QTotp row code) db = map_prod QDone id (authenticateTOTP E faults clk row code db)"
  using assms by (auto simp: authenticateTOTP_def split: sum.splits option.splits prod.splits)

lemma alone_codes:
  "alone E faults clk rnd (Suc (Suc (Suc n))) (QCodes row code) db = map_prod QDone id (authenticateRecoveryCode E faults clk rnd row code db)"
  by (auto simp: authenticateRecoveryCode_def ConsumeRecoveryCode_def loadByID_id split: sum.splits option.splits prod.splits)

lemma alone_guess:
  "alone E faults clk rnd (Suc (Suc (Suc (Suc n)))) (QReserve (AttemptLogin pw code) row) db =
     (case reserveAttempt (faults LReserve) (clk LReserve) (ad_ID row) db of
        (Inl e, db2) \<Rightarrow> (QDone (Refused e None), db2)
      | (Inr reserved, db2) \<Rightarrow>
          if \<not> reserved then (QDone (Refused ErrAccountLocked None), lockIfExhausted (faults LLock) (clk LLock) (ad_ID row) db2)
          else if \<not> bc_match E (ad_PasswordHash row) pw
            then (QDone (Refused ErrInvalidCreds None), lockIfExhausted (faults LLock) (clk LLock) (ad_ID row) db2)
          else if ad_DisabledAt row \<noteq> None then (QDone (Refused ErrAccountDisabled None), db2)
          else if ad_ForceTOTPEnroll row \<or> ad_TOTPSecretEnc row = [] then
            (QDone (success_out row True False), RecordLoginSuccess (faults LSuccess) (clk LSuccess) (ad_ID row) db2)
          else if looksLikeRecoveryCode code then map_prod QDone id (authenticateRecoveryCode E faults clk rnd row code db2)
          else map_prod QDone id (authenticateTOTP E faults clk row code db2))"
proof -
  obtain r db2 where r: "reserveAttempt (faults LReserve) (clk LReserve) (ad_ID row) db = (r, db2)" by (rule prod.exhaust)
  have "alone E faults clk rnd (Suc (Suc (Suc (Suc n)))) (QReserve (AttemptLogin pw code) row) db =
    (case r of Inl e \<Rightarrow> (QDone (Refused e None), db2)
     | Inr reserved \<Rightarrow> if \<not> reserved then alone E faults clk rnd (Suc (Suc (Suc n))) (QLock (ad_ID row) ErrAccountLocked) db2
         else alone E faults clk rnd (Suc (Suc (Suc n))) (after_guess E (AttemptLogin pw code) row) db2)"
    using r by (subst alone.simps) (auto simp del: alone.simps split: sum.splits)
  then show ?thesis
    using r by (auto simp: after_guess_def alone_lock alone_success alone_totp alone_codes authenticateTOTP_def
        simp del: alone.simps split: sum.splits)
qed

lemma alone_login:
  "alone E faults clk rnd 7 (QLogin email pw code) db = map_prod QDone id (Authenticate E faults clk rnd email pw code db)"
proof (cases "loadByEmail E (faults LLoad) email db")
  case (Inl e)
  then show ?thesis by (simp add: Authenticate_def verifyPasswordFactor_def numeral_eq_Suc)
next
  case (Inr row)
  then have l: "alone E faults clk rnd 7 (QLogin email pw code) db
      = alone E faults clk rnd (Suc (Suc (Suc (Suc (Suc (Suc 0)))))) (QCheck (AttemptLogin pw code) row) db"
    by (simp add: numeral_eq_Suc)
  consider (free) "ad_LockedUntil row = None" | (locked) lu where "ad_LockedUntil row = Some lu" "clk LCheck < lu"
    | (expired) lu where "ad_LockedUntil row = Some lu" "\<not> clk LCheck < lu" by (cases "ad_LockedUntil row") auto
  then show ?thesis
  proof cases
    case free
    then have "alone E faults clk rnd (Suc (Suc (Suc (Suc (Suc (Suc 0)))))) (QCheck (AttemptLogin pw code) row) db
        = alone E faults clk rnd (Suc (Suc (Suc (Suc (Suc 0))))) (QReserve (AttemptLogin pw code) row) db"
      by (subst alone.simps) (simp del: alone.simps)
    then show ?thesis unfolding l alone_guess
      using Inr free by (auto simp: Authenticate_def verifyPasswordFactor_def checkLock_def split: sum.splits prod.splits)
  next
    case (locked lu)
    then have "alone E faults clk rnd (Suc (Suc (Suc (Suc (Suc (Suc 0)))))) (QCheck (AttemptLogin pw code) row) db
        = (QDone (Refused ErrAccountLocked None), db)"
      by (subst alone.simps) (simp del: alone.simps)
    then show ?thesis unfolding l
      using Inr locked by (auto simp: Authenticate_def verifyPasswordFactor_def checkLock_def)
  next
    case (expired lu)
    then have "alone E faults clk rnd (Suc (Suc (Suc (Suc (Suc (Suc 0)))))) (QCheck (AttemptLogin pw code) row) db
        = alone E faults clk rnd (Suc (Suc (Suc (Suc 0)))) (QReserve (AttemptLogin pw code) row)
            (clearExpiredLock (faults LClear) (clk LClear) (ad_ID row) db)"
      by (subst alone.simps, simp del: alone.simps) (subst alone.simps, simp del: alone.simps)
    then show ?thesis unfolding l alone_guess
      using Inr expired by (auto simp: Authenticate_def verifyPasswordFactor_def checkLock_def split: sum.splits prod.splits)
  qed
qed

section \<open>Interleavings\<close>

record auth_sys =
  as_db :: adm_db
  as_now :: time
  as_reqs :: "req list"
  as_log :: "event list"

text \<open>The commands of the console and of the command line, as opposed to the statements of the
  login path, which only requests execute.\<close>

fun account_cmd :: "adm_cmd \<Rightarrow> bool" where
  "account_cmd (AUseStep _ _ _ _) = False" | "account_cmd (AReserve _ _ _) = False" | "account_cmd (ALock _ _ _) = False"
| "account_cmd (AClear _ _ _) = False" | "account_cmd (ASuccess _ _ _) = False" | "account_cmd (AGiveBack _ _) = False"
| "account_cmd _ = True"

text \<open>
  Time passes; requests arrive; any request executes its next statement, at the current time (a
  nonce drawn for \<open>Seal\<close> has its full length); the console runs a command. What happened is recorded, newest first.
\<close>

inductive auth_step :: "adm_env \<Rightarrow> auth_sys \<Rightarrow> auth_sys \<Rightarrow> bool" for E where
  tick: "0 \<le> d \<Longrightarrow> auth_step E s (s\<lparr>as_now := as_now s + d\<rparr>)"
| login: "auth_step E s (s\<lparr>as_reqs := as_reqs s @ [QLogin email pw code]\<rparr>)"
| verify: "auth_step E s (s\<lparr>as_reqs := as_reqs s @ [QVerify i pw]\<rparr>)"
| work: "k < length (as_reqs s) \<Longrightarrow> (\<forall>n. rnd = Some n \<longrightarrow> length n = nonceLen) \<Longrightarrow> req_step E fault (as_now s) rnd (as_reqs s ! k) (as_db s) = (q, db, evs) \<Longrightarrow>
    auth_step E s (s\<lparr>as_db := db, as_reqs := (as_reqs s)[k := q], as_log := evs @ as_log s\<rparr>)"
| admin: "account_cmd c \<Longrightarrow>
    auth_step E s (s\<lparr>as_db := adm_step E c (as_db s), as_log := Ran c # as_log s\<rparr>)"

inductive_cases auth_stepE: "auth_step E s s'"

lemma admin_by_id_upd:
  assumes "\<And>a. ad_ID (f a) = ad_ID a"
  shows "admin_by_id (snd (upd_admins P f db)) i = map_option (\<lambda>r. if P r then f r else r) (admin_by_id db i)"
  unfolding admin_by_id_def upd_admins_simps tbl_update_def using assms by (simp add: find_map_cong)

lemma admin_by_id_admins: "adb_admins db' = adb_admins db \<Longrightarrow> admin_by_id db' i = admin_by_id db i"
  by (simp add: admin_by_id_def)

lemma t_next_upd [simp]: "t_next (tbl_update P f t) = t_next t"
  by (simp add: tbl_update_def)

section \<open>What a change leaves of one account\<close>

text \<open>
  \<open>view g\<close> shows the part \<open>g\<close> of a row. A change is quiet for account \<open>i\<close> when it leaves that part,
  removes the account, or creates it with the fresh value \<open>z\<close>.
\<close>

definition view :: "(adminRow \<Rightarrow> 'v) \<Rightarrow> adm_db \<Rightarrow> int \<Rightarrow> 'v option" where
  "view g db i = map_option g (admin_by_id db i)"

definition quiet :: "(adminRow \<Rightarrow> 'v) \<Rightarrow> 'v \<Rightarrow> int \<Rightarrow> adm_db \<Rightarrow> adm_db \<Rightarrow> bool" where
  "quiet g z i db db' \<longleftrightarrow> t_next (adb_admins db) \<le> t_next (adb_admins db')
     \<and> (view g db' i = view g db i \<or> view g db' i = None
        \<or> (i = t_next (adb_admins db) \<and> i < t_next (adb_admins db') \<and> view g db' i = Some z))"

lemma quiet_refl [simp]: "quiet g z i db db"
  by (simp add: quiet_def)

lemma quiet_admins: "adb_admins db' = adb_admins db \<Longrightarrow> quiet g z i db db'"
  unfolding quiet_def view_def admin_by_id_def by simp

lemma quiet_revoke [simp]: "quiet g z i db (revoke_where now P db') = quiet g z i db db'"
  by (simp add: quiet_def view_def admin_by_id_def)

lemma view_upd:
  assumes "\<And>a. ad_ID (f a) = ad_ID a"
  shows "view g (snd (upd_admins P f db)) i = map_option (\<lambda>r. if P r then g (f r) else g r) (admin_by_id db i)"
  by (auto simp: view_def admin_by_id_upd [OF assms] option.map_comp comp_def intro: map_option_cong)

lemma view_Some: "view g db i = Some v \<Longrightarrow> \<exists>r. admin_by_id db i = Some r \<and> r \<in> set (t_rows (adb_admins db)) \<and> ad_ID r = i \<and> g r = v"
  by (auto simp: view_def admin_by_id_def dest: find_Some_in)

lemma quiet_upd:
  assumes "\<And>a. ad_ID (f a) = ad_ID a" and "\<And>a. P a \<Longrightarrow> ad_ID a = i \<Longrightarrow> g (f a) = g a"
  shows "quiet g z i db (snd (upd_admins P f db))"
proof -
  have "ad_ID r = i" if "admin_by_id db i = Some r" for r using that by (auto simp: admin_by_id_def dest: find_Some_in)
  then have "view g (snd (upd_admins P f db)) i = view g db i"
    using assms(2) by (cases "admin_by_id db i") (auto simp: view_def admin_by_id_upd [OF assms(1)])
  then show ?thesis by (simp add: quiet_def)
qed

lemma find_conj_distinct:
  "distinct (map k xs) \<Longrightarrow> find (\<lambda>a. Q a \<and> k a = i) xs =
    (case find (\<lambda>a. k a = i) xs of Some r \<Rightarrow> if Q r then Some r else None | None \<Rightarrow> None)"
proof (induction xs)
  case (Cons x xs)
  show ?case
  proof (cases "k x = i")
    case True
    then have "find (\<lambda>a. k a = i) xs = None" using Cons.prems by (auto simp: find_None_all image_iff)
    with True Cons show ?thesis by auto
  qed (use Cons in auto)
qed simp

lemma quiet_delete:
  assumes "adm_ok db"
  shows "quiet g z i db (delete_admins P db)"
proof -
  have "distinct (map ad_ID (t_rows (adb_admins db)))" using assms by (simp add: adm_ok_def tbl_wf_def)
  then have "admin_by_id (delete_admins P db) i = (case admin_by_id db i of Some r \<Rightarrow> if \<not> P r then Some r else None | None \<Rightarrow> None)"
    by (simp add: admin_by_id_def delete_admins_def tbl_delete_def find_filter find_conj_distinct)
  then have "view g (delete_admins P db) i = view g db i \<or> view g (delete_admins P db) i = None"
    by (auto simp: view_def split: option.split)
  then show ?thesis by (auto simp: quiet_def) (simp_all add: delete_admins_def tbl_delete_def)
qed

lemma quiet_guarded:
  assumes "\<And>P. quiet g z i db (stmt P db)"
  shows "quiet g z i db (snd (guardedLastActive faults j stmt db))"
proof -
  obtain r db' where g: "guardedLastActive faults j stmt db = (r, db')" by (metis prod.exhaust)
  show ?thesis by (cases rule: guarded_cases [OF g]) (use assms g in simp_all)
qed

text \<open>The part \<open>g\<close> concerns the login state only: it has the value \<open>z\<close> in a fresh row, and neither
  address, password, flags nor the disabled mark enter into it.\<close>

definition login_part :: "(adminRow \<Rightarrow> 'v) \<Rightarrow> 'v \<Rightarrow> bool" where
  "login_part g z \<longleftrightarrow>
     (\<forall>a. ad_FailedAttempts a = 0 \<and> ad_LockedUntil a = None \<and> ad_TOTPLastStep a = 0 \<and> ad_TOTPRecoveryCodesEnc a = [] \<longrightarrow> g a = z)
     \<and> (\<forall>a e h p d u. g (a\<lparr>ad_Email := e, ad_UpdatedAt := u\<rparr>) = g a \<and> g (a\<lparr>ad_DisabledAt := d, ad_UpdatedAt := u\<rparr>) = g a
          \<and> g (a\<lparr>ad_PasswordHash := h, ad_ForcePasswordChange := p, ad_UpdatedAt := u\<rparr>) = g a)"

lemma quiet_create:
  assumes "login_part g z"
  shows "quiet g z i db (snd (Create E f salt now email pw db))"
proof -
  have ins: "quiet g z i db (db\<lparr>adb_admins := snd (tbl_insert (ad_row row) (adb_admins db))\<rparr>)"
    if "\<And>j. g (ad_row row j) = z" for row
  proof -
    let ?t = "adb_admins db"
    have "find (\<lambda>a. ad_ID a = i) (t_rows ?t @ [ad_row row (t_next ?t)]) =
       (case find (\<lambda>a. ad_ID a = i) (t_rows ?t) of Some r \<Rightarrow> Some r | None \<Rightarrow> if i = t_next ?t then Some (ad_row row i) else None)"
      by (auto simp: find_append ad_row_def split: option.split)
    then show ?thesis using that
      by (auto simp: quiet_def view_def admin_by_id_def tbl_insert_def split: option.splits)
  qed
  show ?thesis
    using assms by (auto simp: Create_def Let_def case_prod_beta login_part_def ad_row_def split: option.split intro!: ins)
qed

fun resets :: "int \<Rightarrow> adm_cmd \<Rightarrow> bool" where
  "resets i (AReset _ _ _ j _) = (j = i)"
| "resets i _ = False"

fun enrols :: "int \<Rightarrow> adm_cmd \<Rightarrow> bool" where
  "enrols i (AEnroll _ _ _ _ j _ _) = (j = i)"
| "enrols i _ = False"

lemma quiet_cmd:
  assumes "adm_ok db" "account_cmd c" "\<not> resets i c" "login_part g z"
    and "enrols i c \<Longrightarrow> (\<And>a x y u. g (a\<lparr>ad_TOTPSecretEnc := x, ad_TOTPRecoveryCodesEnc := y, ad_ForceTOTPEnroll := False,
           ad_TOTPLastStep := 0, ad_UpdatedAt := u\<rparr>) = g a)"
  shows "quiet g z i db (adm_step E c db)"
proof (cases c)
  case (ACreate f salt now email pw)
  then show ?thesis using quiet_create [OF assms(4)] by simp
next
  case (AChangeEmail f now j email)
  then show ?thesis using assms(4) by (auto simp: ChangeEmail_def Let_def case_prod_beta login_part_def intro: quiet_upd)
next
  case (ASetDisabled fs now j b)
  have "quiet g z i db (snd (guardedLastActive fs j (\<lambda>P db. snd (upd_admins P (\<lambda>a. a\<lparr>ad_DisabledAt := Some now, ad_UpdatedAt := now\<rparr>) db)) db))"
    using assms(4) by (intro quiet_guarded quiet_upd) (simp_all add: login_part_def)
  then show ?thesis using ASetDisabled assms(4)
    by (auto simp: SetDisabled_def RevokeOtherSessions_def case_prod_beta login_part_def intro: quiet_upd split: prod.splits option.splits)
next
  case (ADelete fs j)
  have "quiet g z i db (snd (guardedLastActive fs j delete_admins db))"
    by (intro quiet_guarded quiet_delete assms(1))
  then show ?thesis using ADelete by (simp add: Delete_def)
next
  case (AReset fs salt now j pw)
  then show ?thesis using assms(3) by (auto simp: ResetForBootstrap_def intro!: quiet_upd split: option.split)
next
  case (AChangePassword fs salt now j pw)
  then show ?thesis using assms(4) by (auto simp: ChangePassword_def login_part_def intro!: quiet_upd split: option.split)
next
  case (AEnroll f r1 r2 now j sec codes)
  then show ?thesis using assms(5) by (auto simp: EnrollTOTP_def Let_def intro!: quiet_upd split: option.split)
next
  case (ACreateSession f rnd now j ip ua)
  then show ?thesis by (auto simp: CreateSession_def Let_def intro: quiet_admins split: option.split)
next
  case (ALookupSession f tf now tok)
  then show ?thesis by (auto simp: LookupSession_def Let_def intro: quiet_admins split: option.split)
qed (use assms(2) in \<open>auto simp: adm_op_defs Let_def case_prod_beta intro: quiet_upd quiet_admins split: option.split\<close>)

end
