(* ===== verification/Login_Safety.thy ===== *)
theory Login_Safety
  imports Admin_Auth
begin

text \<open>
  What holds of every interleaving of logins, step-ups and console commands: the attempt counter
  stays in range and bounds the password guesses per lockout, a TOTP step is used once, a recovery
  code is spent once; that requests run alone are the calls of the code; and what a successful
  login shows.
\<close>

section \<open>The attempt counter and the lock of an account\<close>

definition lock_of :: "adminRow \<Rightarrow> int \<times> time option" where
  "lock_of r = (ad_FailedAttempts r, ad_LockedUntil r)"

abbreviation lockview :: "adm_db \<Rightarrow> int \<Rightarrow> (int \<times> time option) option" where
  "lockview \<equiv> view lock_of"

abbreviation lock_quiet :: "int \<Rightarrow> adm_db \<Rightarrow> adm_db \<Rightarrow> bool" where
  "lock_quiet \<equiv> quiet lock_of (0, None)"

lemma login_part_lock: "login_part lock_of (0, None)"
  by (simp add: login_part_def lock_of_def)

lemma reserve_view:
  assumes "adm_ok db" "reserveAttempt fault now j db = (Inr b, db')"
  shows "b \<Longrightarrow> \<exists>f l. lockview db j = Some (f, l) \<and> f < MaxFailedAttempts \<and> lockview db' j = Some (f + 1, l)"
    and "\<not> b \<Longrightarrow> lock_quiet i db db'" and "i \<noteq> j \<Longrightarrow> lock_quiet i db db'" and "t_next (adb_admins db') = t_next (adb_admins db)"
proof -
  let ?P = "\<lambda>a. ad_ID a = j \<and> ad_FailedAttempts a < MaxFailedAttempts"
  let ?f = "\<lambda>a. a\<lparr>ad_FailedAttempts := ad_FailedAttempts a + 1, ad_UpdatedAt := now\<rparr>"
  have b: "b \<longleftrightarrow> tbl_affected ?P (adb_admins db) = 1" and db': "db' = snd (upd_admins ?P ?f db)"
    using assms(2) by (auto simp: reserveAttempt_def case_prod_beta split: if_splits)
  have wf: "tbl_wf ad_ID ad_Email (adb_admins db)" using assms(1) by (simp add: adm_ok_def)
  have a: "tbl_affected ?P (adb_admins db) = (case admin_by_id db j of Some r \<Rightarrow> if ad_FailedAttempts r < MaxFailedAttempts then 1 else 0 | None \<Rightarrow> 0)"
    using at.affected_id [OF wf, of j "\<lambda>a. ad_FailedAttempts a < MaxFailedAttempts"] by (simp add: admin_by_id_def)
  have v: "lockview db' j = map_option (\<lambda>r. if ?P r then (ad_FailedAttempts r + 1, ad_LockedUntil r) else (ad_FailedAttempts r, ad_LockedUntil r)) (admin_by_id db j)"
    unfolding db' by (subst view_upd) (simp_all add: lock_of_def cong: if_cong)
  have id: "ad_ID r = j" if "admin_by_id db j = Some r" for r using that by (auto simp: admin_by_id_def dest: find_Some_in)
  show "b \<Longrightarrow> \<exists>f l. lockview db j = Some (f, l) \<and> f < MaxFailedAttempts \<and> lockview db' j = Some (f + 1, l)"
    using a b v id by (auto simp: view_def lock_of_def split: option.splits if_splits)
  show "i \<noteq> j \<Longrightarrow> lock_quiet i db db'" unfolding db' by (rule quiet_upd) (auto simp: lock_of_def)
  moreover have "lock_quiet j db db'" if "\<not> b"
  proof -
    have "lockview db' j = lockview db j"
      using a b v that by (auto simp: view_def lock_of_def split: option.splits if_splits)
    then show ?thesis by (simp add: quiet_def db')
  qed
  ultimately show "\<not> b \<Longrightarrow> lock_quiet i db db'" by (cases "i = j") auto
  show "t_next (adb_admins db') = t_next (adb_admins db)" by (simp add: db')
qed

section \<open>No more guesses than the limit\<close>

definition guesses :: "int \<Rightarrow> event list \<Rightarrow> time list" where
  "guesses i evs = concat (map (\<lambda>e. case e of Guess j t \<Rightarrow> if j = i then [t] else [] | _ \<Rightarrow> []) evs)"

lemma guesses_simps [simp]: "guesses i [] = []" "guesses i (xs @ ys) = guesses i xs @ guesses i ys"
  "guesses i (Guess j t # xs) = (if j = i then t # guesses i xs else guesses i xs)"
  "guesses i (Passed j # xs) = guesses i xs" "guesses i (TotpUsed j n # xs) = guesses i xs"
  "guesses i (RecUsed j c # xs) = guesses i xs" "guesses i (Ran c' # xs) = guesses i xs"
  by (simp_all add: guesses_def)

definition window_ok :: "time list \<Rightarrow> bool" where
  "window_ok gs \<longleftrightarrow> (\<forall>t. int (length (filter (\<lambda>g. t \<le> g \<and> g < t + LockoutDuration) gs)) \<le> MaxFailedAttempts)"

text \<open>Neither a login nor a step-up of account \<open>i\<close> succeeded, and the account was not reset.\<close>

definition calm :: "int \<Rightarrow> event list \<Rightarrow> bool" where
  "calm i evs \<longleftrightarrow> (\<forall>e\<in>set evs. e \<noteq> Passed i \<and> (\<forall>c. e = Ran c \<longrightarrow> \<not> resets i c))"

text \<open>The guesses split into those of the running cycle, at most as many as the counter says, and
  older ones that lie a full lockout back. While locked, the counter stands at the limit and the
  lock outlasts every guess of the cycle by the lockout.\<close>

definition view_ok :: "time list \<Rightarrow> (int \<times> time option) option \<Rightarrow> bool" where
  "view_ok cur v \<longleftrightarrow> (\<forall>f l. v = Some (f, l) \<longrightarrow> int (length cur) \<le> f \<and> f \<le> MaxFailedAttempts
     \<and> (\<forall>lu. l = Some lu \<longrightarrow> MaxFailedAttempts \<le> f \<and> (\<forall>g\<in>set cur. g + LockoutDuration \<le> lu)))"

definition guess_inv :: "int \<Rightarrow> auth_sys \<Rightarrow> bool" where
  "guess_inv i s \<longleftrightarrow> adm_ok (as_db s) \<and>
     (\<exists>cur old. guesses i (as_log s) = cur @ old \<and> (\<forall>g\<in>set (cur @ old). g \<le> as_now s)
        \<and> (\<forall>g\<in>set old. g + LockoutDuration \<le> as_now s) \<and> window_ok (cur @ old)
        \<and> (cur @ old \<noteq> [] \<longrightarrow> i < t_next (adb_admins (as_db s)))
        \<and> view_ok cur (lockview (as_db s) i))"

lemma guess_invI:
  assumes "adm_ok (as_db s)" "guesses i (as_log s) = cur @ old" "\<forall>g\<in>set (cur @ old). g \<le> as_now s"
    "\<forall>g\<in>set old. g + LockoutDuration \<le> as_now s" "window_ok (cur @ old)"
    "cur @ old \<noteq> [] \<longrightarrow> i < t_next (adb_admins (as_db s))" "view_ok cur (lockview (as_db s) i)"
  shows "guess_inv i s"
  unfolding guess_inv_def using assms by blast

lemma window_new:
  assumes "window_ok (cur @ old)" "\<forall>g\<in>set old. g + LockoutDuration \<le> now" "int (length cur) < MaxFailedAttempts"
  shows "window_ok ((now # cur) @ old)"
  unfolding window_ok_def
proof
  fix t
  let ?w = "\<lambda>g. t \<le> g \<and> g < t + LockoutDuration"
  show "int (length (filter ?w ((now # cur) @ old))) \<le> MaxFailedAttempts"
  proof (cases "?w now")
    case True
    then have "filter ?w old = []" using assms(2) by (auto simp: filter_empty_conv)
    moreover have "length (filter ?w cur) \<le> length cur" by simp
    ultimately have "length (filter ?w ((now # cur) @ old)) \<le> Suc (length cur)" using True by simp
    then show ?thesis using assms(3) by linarith
  next
    case False
    then show ?thesis using assms(1) unfolding window_ok_def by auto
  qed
qed

text \<open>Steps that leave counter and lock alone and add no guess keep the invariant.\<close>

lemma guess_inv_quiet:
  assumes "guess_inv i s" "lock_quiet i (as_db s) db" "adm_ok db" "guesses i evs = []"
  shows "guess_inv i (s\<lparr>as_db := db, as_reqs := rs, as_log := evs @ as_log s\<rparr>)"
proof -
  obtain cur old where c: "guesses i (as_log s) = cur @ old" "\<forall>g\<in>set (cur @ old). g \<le> as_now s"
    "\<forall>g\<in>set old. g + LockoutDuration \<le> as_now s" "window_ok (cur @ old)"
    "cur @ old \<noteq> [] \<longrightarrow> i < t_next (adb_admins (as_db s))" "view_ok cur (lockview (as_db s) i)"
    using assms(1) unfolding guess_inv_def by blast
  have "view_ok cur (lockview db i)"
  proof (cases "lockview db i = lockview (as_db s) i \<or> lockview db i = None")
    case False
    then have "i = t_next (adb_admins (as_db s))" "lockview db i = Some (0, None)" using assms(2) by (auto simp: quiet_def)
    then show ?thesis using c(5) by (auto simp: view_ok_def MaxFailedAttempts_def)
  qed (use c(6) in \<open>auto simp: view_ok_def\<close>)
  moreover have "cur @ old \<noteq> [] \<longrightarrow> i < t_next (adb_admins db)" using c(5) assms(2) by (auto simp: quiet_def)
  ultimately show ?thesis using c assms(3,4) by (intro guess_invI [where cur = cur and old = old]) auto
qed

lemma cas_codes_cases:
  assumes "cas_codes E fault rnd now j old nxt db = (r, db')"
  obtains (kept) "db' = db" "r \<noteq> None"
  | (ran) enc where "Seal (ev_box E) rnd (codes_json nxt) (adminAAD E j) = Some enc"
      "db' = snd (upd_admins (\<lambda>a. ad_ID a = j \<and> ad_TOTPRecoveryCodesEnc a = old)
               (\<lambda>a. a\<lparr>ad_TOTPRecoveryCodesEnc := enc, ad_UpdatedAt := now\<rparr>) db)"
      "r = None \<longleftrightarrow> tbl_affected (\<lambda>a. ad_ID a = j \<and> ad_TOTPRecoveryCodesEnc a = old) (adb_admins db) = 1"
  using assms unfolding cas_codes_def by (auto simp: case_prod_beta split: option.splits if_splits)

lemma adm_ok_req:
  assumes "adm_ok db" "req_step E fault now rnd q db = (q', db', evs)"
  shows "adm_ok db'"
proof -
  have st: "adm_ok (clearExpiredLock f n j db)" "adm_ok (lockIfExhausted f n j db)" "adm_ok (RecordLoginSuccess f n j db)"
    "adm_ok (give_back f j db)" "adm_ok (snd (reserveAttempt f n j db))" "adm_ok (snd (UseTOTPStep f n j stp db))" for f n j stp
    using adm_ok_step [OF assms(1), of undefined "AClear f n j"] adm_ok_step [OF assms(1), of undefined "ALock f n j"]
      adm_ok_step [OF assms(1), of undefined "ASuccess f n j"] adm_ok_step [OF assms(1), of undefined "AGiveBack f j"]
      adm_ok_step [OF assms(1), of undefined "AReserve f n j"] adm_ok_step [OF assms(1), of undefined "AUseStep f n j stp"] by simp_all
  have cas: "adm_ok (snd (cas_codes E fault rnd now j old nxt db))" for j old nxt
  proof -
    obtain r d where c: "cas_codes E fault rnd now j old nxt db = (r, d)" by (rule prod.exhaust)
    show ?thesis by (cases rule: cas_codes_cases [OF c]) (use c assms(1) in \<open>auto intro: adm_ok_upd\<close>)
  qed
  show ?thesis
  proof (cases q)
    case (QReserve k row)
    then show ?thesis using assms st(5) [of fault now "ad_ID row"]
      by (auto split: prod.splits sum.splits if_splits)
  next
    case (QCas row code old nxt)
    then show ?thesis using assms cas [of "ad_ID row" old nxt] by (auto split: prod.splits option.splits if_splits)
  next
    case (QStep row stp)
    then show ?thesis using assms st(6) [of fault now "ad_ID row" stp] by (auto split: prod.splits sum.splits if_splits)
  qed (use assms st in \<open>auto split: sum.splits option.splits prod.splits if_splits\<close>)
qed

text \<open>The statements of a request on another account, and those that do not touch the counter.\<close>

definition touches :: "int \<Rightarrow> req \<Rightarrow> bool" where
  "touches i q \<longleftrightarrow> (case q of QClear k row \<Rightarrow> ad_ID row = i | QReserve k row \<Rightarrow> ad_ID row = i | QLock j e \<Rightarrow> j = i
     | QSuccess j out \<Rightarrow> j = i | QGiveBack j \<Rightarrow> j = i | _ \<Rightarrow> False)"

lemma quiet_req:
  assumes "adm_ok db" "req_step E fault now rnd q db = (q', db', evs)" "\<not> touches i q"
  shows "lock_quiet i db db' \<and> guesses i evs = []"
proof (cases q)
  case (QReserve k row)
  obtain r d where res: "reserveAttempt fault now (ad_ID row) db = (r, d)" by (rule prod.exhaust)
  have "ad_ID row \<noteq> i" using assms(3) QReserve by (simp add: touches_def)
  then show ?thesis using assms(2) QReserve res reserve_view(3) [OF assms(1), of fault now "ad_ID row" _ d i]
    by (cases r) (auto simp: reserveAttempt_def case_prod_beta split: if_splits)
next
  case (QCas row code old nxt)
  obtain r d where c: "cas_codes E fault rnd now (ad_ID row) old nxt db = (r, d)" by (rule prod.exhaust)
  have "lock_quiet i db d" by (cases rule: cas_codes_cases [OF c]) (auto simp: lock_of_def intro: quiet_upd)
  then show ?thesis using assms(2) QCas c by (auto split: option.splits if_splits)
next
  case (QStep row stp)
  obtain r d where c: "UseTOTPStep fault now (ad_ID row) stp db = (r, d)" by (rule prod.exhaust)
  have "lock_quiet i db d" using c by (auto simp: UseTOTPStep_def case_prod_beta lock_of_def intro: quiet_upd split: if_splits)
  then show ?thesis using assms(2) QStep c by (auto split: sum.splits if_splits)
qed (use assms(2,3) in \<open>auto simp: touches_def lockIfExhausted_def clearExpiredLock_def RecordLoginSuccess_def give_back_def lock_of_def
       intro: quiet_upd split: sum.splits option.splits prod.splits if_splits\<close>)

lemma clear_view:
  assumes "lockview (clearExpiredLock fault now i db) i = Some (f', l')"
  shows "lockview db i = Some (f', l') \<or> (\<exists>f lu. lockview db i = Some (f, Some lu) \<and> lu \<le> now \<and> f' = 0 \<and> l' = None)"
  using assms
  by (cases fault; cases "admin_by_id db i")
    (auto simp: clearExpiredLock_def view_def lock_of_def admin_by_id_upd split: if_splits option.splits)

lemma lock_view:
  assumes "lockview (lockIfExhausted fault now i db) i = Some (f', l')"
  shows "lockview db i = Some (f', l')
    \<or> (lockview db i = Some (f', None) \<and> MaxFailedAttempts \<le> f' \<and> l' = Some (now + LockoutDuration))"
  using assms
  by (cases fault; cases "admin_by_id db i")
    (auto simp: lockIfExhausted_def view_def lock_of_def admin_by_id_upd split: if_splits option.splits)

lemma t_next_stmts [simp]:
  "t_next (adb_admins (clearExpiredLock f n j db)) = t_next (adb_admins db)"
  "t_next (adb_admins (lockIfExhausted f n j db)) = t_next (adb_admins db)"
  by (simp_all add: clearExpiredLock_def lockIfExhausted_def)

lemma calm_append [simp]: "calm i (xs @ ys) \<longleftrightarrow> calm i xs \<and> calm i ys"
  by (auto simp: calm_def)

lemma guess_inv_clear:
  assumes "guess_inv i s" "adm_ok (clearExpiredLock fault (as_now s) i (as_db s))"
  shows "guess_inv i (s\<lparr>as_db := clearExpiredLock fault (as_now s) i (as_db s), as_reqs := rs\<rparr>)"
proof -
  let ?db = "clearExpiredLock fault (as_now s) i (as_db s)"
  obtain cur old where c: "guesses i (as_log s) = cur @ old" "\<forall>g\<in>set (cur @ old). g \<le> as_now s"
    "\<forall>g\<in>set old. g + LockoutDuration \<le> as_now s" "window_ok (cur @ old)"
    "cur @ old \<noteq> [] \<longrightarrow> i < t_next (adb_admins (as_db s))" "view_ok cur (lockview (as_db s) i)"
    using assms(1) unfolding guess_inv_def by blast
  show ?thesis
  proof (cases "view_ok cur (lockview ?db i)")
    case True
    then show ?thesis using c assms(2) by (intro guess_invI [where cur = cur and old = old]) auto
  next
    case False
    then obtain f' l' where v: "lockview ?db i = Some (f', l')" by (cases "lockview ?db i") (auto simp: view_ok_def)
    then obtain f lu where "lockview (as_db s) i = Some (f, Some lu)" "lu \<le> as_now s" "f' = 0" "l' = None"
      using clear_view [OF v] False c(6) by auto
    moreover from this have "\<forall>g\<in>set cur. g + LockoutDuration \<le> as_now s" using c(6) by (fastforce simp: view_ok_def)
    moreover have "view_ok [] (lockview ?db i)" using v calculation(3,4) by (simp add: view_ok_def MaxFailedAttempts_def)
    ultimately show ?thesis using c assms(2) by (intro guess_invI [where cur = "[]" and old = "cur @ old"]) auto
  qed
qed

lemma guess_inv_lock:
  assumes "guess_inv i s" "adm_ok (lockIfExhausted fault (as_now s) i (as_db s))"
  shows "guess_inv i (s\<lparr>as_db := lockIfExhausted fault (as_now s) i (as_db s), as_reqs := rs\<rparr>)"
proof -
  let ?db = "lockIfExhausted fault (as_now s) i (as_db s)"
  obtain cur old where c: "guesses i (as_log s) = cur @ old" "\<forall>g\<in>set (cur @ old). g \<le> as_now s"
    "\<forall>g\<in>set old. g + LockoutDuration \<le> as_now s" "window_ok (cur @ old)"
    "cur @ old \<noteq> [] \<longrightarrow> i < t_next (adb_admins (as_db s))" "view_ok cur (lockview (as_db s) i)"
    using assms(1) unfolding guess_inv_def by blast
  have "view_ok cur (lockview ?db i)"
  proof (cases "lockview ?db i")
    case (Some v)
    then obtain f' l' where v: "lockview ?db i = Some (f', l')" by (cases v) auto
    from lock_view [OF v] show ?thesis
    proof (elim disjE conjE)
      assume "lockview (as_db s) i = Some (f', None)" "MaxFailedAttempts \<le> f'" "l' = Some (as_now s + LockoutDuration)"
      then show ?thesis using c(2,6) v by (auto simp: view_ok_def)
    qed (use v c(6) in simp)
  qed (simp add: view_ok_def)
  then show ?thesis using c assms(2) by (intro guess_invI [where cur = cur and old = old]) auto
qed

lemma guess_inv_reserve:
  assumes "guess_inv i s" "reserveAttempt fault (as_now s) i (as_db s) = (Inr True, db)" "adm_ok db"
  shows "guess_inv i (s\<lparr>as_db := db, as_reqs := rs, as_log := Guess i (as_now s) # as_log s\<rparr>)"
proof -
  obtain cur old where c: "guesses i (as_log s) = cur @ old" "\<forall>g\<in>set (cur @ old). g \<le> as_now s"
    "\<forall>g\<in>set old. g + LockoutDuration \<le> as_now s" "window_ok (cur @ old)"
    "cur @ old \<noteq> [] \<longrightarrow> i < t_next (adb_admins (as_db s))" "view_ok cur (lockview (as_db s) i)" and ok: "adm_ok (as_db s)"
    using assms(1) unfolding guess_inv_def by blast
  obtain f l where v: "lockview (as_db s) i = Some (f, l)" "f < MaxFailedAttempts" "lockview db i = Some (f + 1, l)"
    using reserve_view(1) [OF ok assms(2)] by auto
  obtain r where r: "r \<in> set (t_rows (adb_admins (as_db s)))" "ad_ID r = i"
    using view_Some [OF v(1)] by (auto simp: admin_by_id_def dest: find_Some_in)
  then have "i < t_next (adb_admins db)"
    using ok reserve_view(4) [OF ok assms(2)] by (auto simp: adm_ok_def tbl_wf_def)
  moreover have "int (length cur) \<le> f" "l = None" using c(6) v(1,2) by (auto simp: view_ok_def)
  moreover from this have "window_ok ((as_now s # cur) @ old)" using c(3,4) v(2) by (intro window_new) auto
  moreover have "view_ok (as_now s # cur) (lockview db i)" using v calculation(2,3) by (auto simp: view_ok_def)
  ultimately show ?thesis using c assms(3) by (intro guess_invI [where cur = "as_now s # cur" and old = old]) auto
qed

lemma guess_inv_step:
  assumes "auth_step E s s'" "guess_inv i s" "calm i (as_log s')"
  shows "guess_inv i s'"
  using assms
proof (cases rule: auth_step.cases)
  case (tick d)
  obtain cur old where c: "guesses i (as_log s) = cur @ old" "\<forall>g\<in>set (cur @ old). g \<le> as_now s"
    "\<forall>g\<in>set old. g + LockoutDuration \<le> as_now s" "window_ok (cur @ old)"
    "cur @ old \<noteq> [] \<longrightarrow> i < t_next (adb_admins (as_db s))" "view_ok cur (lockview (as_db s) i)" and ok: "adm_ok (as_db s)"
    using assms(2) unfolding guess_inv_def by blast
  have "\<forall>g\<in>set (cur @ old). g \<le> as_now s + d" "\<forall>g\<in>set old. g + LockoutDuration \<le> as_now s + d"
    using c(2,3) tick(2) by (auto intro: order_trans add_increasing2)
  then show ?thesis using c ok tick(1) by (intro guess_invI [where cur = cur and old = old]) auto
next
  case (work k rnd fault q db evs)
  have ok: "adm_ok (as_db s)" using assms(2) by (simp add: guess_inv_def)
  note ok' = adm_ok_req [OF ok work(4)]
  show ?thesis
  proof (cases "touches i (as_reqs s ! k)")
    case False
    then show ?thesis using quiet_req [OF ok work(4) False] guess_inv_quiet [OF assms(2)] ok' work(1) by simp
  next
    case True
    then show ?thesis
    proof (cases "as_reqs s ! k")
      case (QClear a row)
      then show ?thesis using work True ok' guess_inv_clear [OF assms(2)] by (auto simp: touches_def)
    next
      case (QLock j e)
      then show ?thesis using work True ok' guess_inv_lock [OF assms(2)] by (auto simp: touches_def)
    next
      case (QReserve a row)
      then have row: "ad_ID row = i" using True by (simp add: touches_def)
      obtain r d where res: "reserveAttempt fault (as_now s) i (as_db s) = (r, d)" by (rule prod.exhaust)
      have w: "req_step E fault (as_now s) rnd (QReserve a row) (as_db s) = (q, db, evs)" using work(4) QReserve by simp
      consider "r = Inl ErrDriver" "d = as_db s" | b where "r = Inr b"
        using res by (auto simp: reserveAttempt_def case_prod_beta split: if_splits)
      then consider "r = Inr True" "evs = [Guess i (as_now s)]" "db = d" | "lock_quiet i (as_db s) d" "evs = []" "db = d"
      proof cases
        case 1
        then have "evs = []" "db = d" using w res row by auto
        then show ?thesis using that(2) 1 by simp
      next
        case (2 b)
        show ?thesis
        proof (cases b)
          case True
          then have "evs = [Guess i (as_now s)]" "db = d" using w res row 2 by auto
          then show ?thesis using that(1) 2 True by simp
        next
          case False
          then have "evs = []" "db = d" using w res row 2 by auto
          then show ?thesis using that(2) 2 False reserve_view(2) [OF ok] res by blast
        qed
      qed
      then show ?thesis
      proof cases
        case 1
        then show ?thesis using guess_inv_reserve [OF assms(2), of fault d] res ok' work(1) by simp
      next
        case 2
        then show ?thesis using guess_inv_quiet [OF assms(2), of d "[]"] ok' work(1) by simp
      qed
    next
      case (QSuccess j out)
      then have "Passed i \<in> set evs" using work(4) True by (auto simp: touches_def)
      then show ?thesis using assms(3) work(1) by (auto simp: calm_def)
    next
      case (QGiveBack j)
      then have "Passed i \<in> set evs" using work(4) True by (auto simp: touches_def)
      then show ?thesis using assms(3) work(1) by (auto simp: calm_def)
    qed (simp_all add: touches_def)
  qed
next
  case (admin c)
  have ok: "adm_ok (as_db s)" using assms(2) by (simp add: guess_inv_def)
  have "\<not> resets i c" using assms(3) admin(1) by (auto simp: calm_def)
  then have "lock_quiet i (as_db s) (adm_step E c (as_db s))" by (intro quiet_cmd [OF ok admin(2)] login_part_lock) (simp_all add: lock_of_def)
  then show ?thesis
    using guess_inv_quiet [OF assms(2), of _ "[Ran c]" "as_reqs s"] adm_ok_step [OF ok] admin(1) by simp
qed (auto simp: guess_inv_def)

section \<open>Time steps are used once\<close>

definition totp_used :: "int \<Rightarrow> event list \<Rightarrow> int list" where
  "totp_used i evs = concat (map (\<lambda>e. case e of TotpUsed j n \<Rightarrow> if j = i then [n] else [] | _ \<Rightarrow> []) evs)"

lemma totp_used_append [simp]: "totp_used i (xs @ ys) = totp_used i xs @ totp_used i ys"
  by (simp add: totp_used_def)

lemma totp_used_simps [simp]: "totp_used i [] = []"
  "totp_used i (TotpUsed j n # xs) = (if j = i then n # totp_used i xs else totp_used i xs)"
  "totp_used i (Guess j t # xs) = totp_used i xs" "totp_used i (Passed j # xs) = totp_used i xs"
  "totp_used i (RecUsed j c # xs) = totp_used i xs" "totp_used i (Ran c' # xs) = totp_used i xs"
  by (simp_all add: totp_used_def)

text \<open>The second factor of account \<open>i\<close> was neither reset nor enrolled again.\<close>

definition same_factor :: "int \<Rightarrow> event list \<Rightarrow> bool" where
  "same_factor i evs \<longleftrightarrow> (\<forall>c. Ran c \<in> set evs \<longrightarrow> \<not> resets i c \<and> \<not> enrols i c)"

lemma same_factor_append [simp]: "same_factor i (xs @ ys) \<longleftrightarrow> same_factor i xs \<and> same_factor i ys"
  by (auto simp: same_factor_def)

lemma auth_step_log: "auth_step E s s' \<Longrightarrow> \<exists>evs. as_log s' = evs @ as_log s"
  by (induction rule: auth_step.induct) auto

lemma login_part_step: "login_part ad_TOTPLastStep 0"
  by (simp add: login_part_def)

lemma login_part_codes: "login_part ad_TOTPRecoveryCodesEnc []"
  by (simp add: login_part_def)

definition totp_inv :: "int \<Rightarrow> auth_sys \<Rightarrow> bool" where
  "totp_inv i s \<longleftrightarrow> adm_ok (as_db s) \<and> sorted_wrt (>) (totp_used i (as_log s))
     \<and> (totp_used i (as_log s) \<noteq> [] \<longrightarrow> i < t_next (adb_admins (as_db s)))
     \<and> (\<forall>m. view ad_TOTPLastStep (as_db s) i = Some m \<longrightarrow> (\<forall>n\<in>set (totp_used i (as_log s)). n \<le> m))"

lemma totp_inv_quiet:
  assumes "totp_inv i s" "quiet ad_TOTPLastStep 0 i (as_db s) db" "adm_ok db" "totp_used i evs = []"
  shows "totp_inv i (s\<lparr>as_db := db, as_reqs := rs, as_log := evs @ as_log s\<rparr>)"
proof -
  let ?used = "totp_used i (as_log s)"
  note inv = assms(1) [unfolded totp_inv_def]
  have "\<forall>n\<in>set ?used. n \<le> m" if m: "view ad_TOTPLastStep db i = Some m" for m
  proof (cases "?used = []")
    case False
    then have "i < t_next (adb_admins (as_db s))" using inv by blast
    then have "view ad_TOTPLastStep (as_db s) i = Some m" using assms(2) m unfolding quiet_def by (metis less_irrefl option.distinct(1))
    then show ?thesis using inv by blast
  qed simp
  moreover have "?used \<noteq> [] \<longrightarrow> i < t_next (adb_admins db)" using inv assms(2) unfolding quiet_def by linarith
  ultimately show ?thesis using inv assms(3,4) by (simp add: totp_inv_def)
qed

lemma use_step_cases:
  assumes "UseTOTPStep fault now j stp db = (r, db')"
  obtains (failed) "r = Inl ErrDriver" "db' = db"
  | (ran) "r = Inr (tbl_affected (\<lambda>a. ad_ID a = j \<and> ad_TOTPLastStep a < stp) (adb_admins db) = 1)"
      "db' = snd (upd_admins (\<lambda>a. ad_ID a = j \<and> ad_TOTPLastStep a < stp) (\<lambda>a. a\<lparr>ad_TOTPLastStep := stp, ad_UpdatedAt := now\<rparr>) db)"
proof (cases fault)
  case True
  then show ?thesis using assms failed by (simp add: UseTOTPStep_def)
next
  case False
  then show ?thesis using assms ran by (simp add: UseTOTPStep_def case_prod_beta)
qed

lemma totp_req_quiet:
  assumes "adm_ok db" "req_step E fault now rnd q db = (q', db', evs)" "\<not> (\<exists>row stp. q = QStep row stp \<and> ad_ID row = i)"
  shows "quiet ad_TOTPLastStep 0 i db db' \<and> totp_used i evs = []"
proof (cases q)
  case (QReserve k row)
  have "quiet ad_TOTPLastStep 0 i db (snd (reserveAttempt fault now (ad_ID row) db))"
    by (auto simp: reserveAttempt_def case_prod_beta intro: quiet_upd)
  then show ?thesis using assms(2) QReserve by (auto split: prod.splits sum.splits if_splits)
next
  case (QCas row code old nxt)
  obtain r d where c: "cas_codes E fault rnd now (ad_ID row) old nxt db = (r, d)" by (rule prod.exhaust)
  have "quiet ad_TOTPLastStep 0 i db d" by (cases rule: cas_codes_cases [OF c]) (auto intro: quiet_upd)
  then show ?thesis using assms(2) QCas c by (auto split: option.splits if_splits)
next
  case (QStep row stp)
  obtain r d where c: "UseTOTPStep fault now (ad_ID row) stp db = (r, d)" by (rule prod.exhaust)
  have "quiet ad_TOTPLastStep 0 i db d"
    by (cases rule: use_step_cases [OF c]) (use assms(3) QStep in \<open>auto intro: quiet_upd\<close>)
  then show ?thesis using assms(2,3) QStep c by (auto split: sum.splits if_splits)
qed (use assms(2) in \<open>auto simp: lockIfExhausted_def clearExpiredLock_def RecordLoginSuccess_def give_back_def
       intro: quiet_upd split: sum.splits option.splits prod.splits if_splits\<close>)

lemma use_step_fresh:
  assumes "adm_ok db" "UseTOTPStep fault now i stp db = (Inr True, db')"
  shows "\<exists>m. view ad_TOTPLastStep db i = Some m \<and> m < stp \<and> view ad_TOTPLastStep db' i = Some stp"
proof (cases rule: use_step_cases [OF assms(2)])
  case 2
  have wf: "tbl_wf ad_ID ad_Email (adb_admins db)" using assms(1) by (simp add: adm_ok_def)
  have "tbl_affected (\<lambda>a. ad_ID a = i \<and> ad_TOTPLastStep a < stp) (adb_admins db) = 1" using 2(1) by simp
  then obtain r where r: "admin_by_id db i = Some r" "ad_TOTPLastStep r < stp"
    unfolding at.affected_id [OF wf, of i "\<lambda>a. ad_TOTPLastStep a < stp"] by (auto simp: admin_by_id_def split: option.splits if_splits)
  moreover have "ad_ID r = i" using r(1) by (auto simp: admin_by_id_def dest: find_Some_in)
  moreover have "view ad_TOTPLastStep db' i = map_option (\<lambda>r. if ad_ID r = i \<and> ad_TOTPLastStep r < stp then stp else ad_TOTPLastStep r) (admin_by_id db i)"
    unfolding 2(2) by (subst view_upd) (simp_all cong: if_cong)
  ultimately show ?thesis by (auto simp: view_def)
qed (use assms in simp)

lemma totp_inv_step:
  assumes "auth_step E s s'" "totp_inv i s" "same_factor i (as_log s')"
  shows "totp_inv i s'"
  using assms(1)
proof (cases rule: auth_step.cases)
  case (work k rnd fault q db evs)
  have ok: "adm_ok (as_db s)" using assms(2) by (simp add: totp_inv_def)
  note ok' = adm_ok_req [OF ok work(4)]
  show ?thesis
  proof (cases "\<exists>row stp. as_reqs s ! k = QStep row stp \<and> ad_ID row = i")
    case False
    then show ?thesis using totp_req_quiet [OF ok work(4)] totp_inv_quiet [OF assms(2)] ok' work(1) by simp
  next
    case True
    then obtain row stp where q: "as_reqs s ! k = QStep row stp" "ad_ID row = i" by blast
    obtain r d where u: "UseTOTPStep fault (as_now s) i stp (as_db s) = (r, d)" by (rule prod.exhaust)
    show ?thesis
    proof (cases "r = Inr True")
      case True
      then have e: "evs = [TotpUsed i stp]" "db = d" using work(4) q u by auto
      obtain m where m: "view ad_TOTPLastStep (as_db s) i = Some m" "m < stp" "view ad_TOTPLastStep d i = Some stp"
        using use_step_fresh [OF ok] u True by blast
      obtain a where "a \<in> set (t_rows (adb_admins (as_db s)))" "ad_ID a = i" using view_Some [OF m(1)] by blast
      then have "i < t_next (adb_admins d)"
        using ok u by (auto simp: adm_ok_def tbl_wf_def UseTOTPStep_def case_prod_beta split: if_splits)
      then show ?thesis using assms(2) m e ok' work(1) by (auto simp: totp_inv_def)
    next
      case False
      then have e: "evs = []" "db = d" using work(4) q u by (auto split: sum.splits if_splits)
      have "view ad_TOTPLastStep d i = view ad_TOTPLastStep (as_db s) i"
      proof (cases rule: use_step_cases [OF u])
        case 2
        have wf: "tbl_wf ad_ID ad_Email (adb_admins (as_db s))" using ok by (simp add: adm_ok_def)
        have "tbl_affected (\<lambda>a. ad_ID a = i \<and> ad_TOTPLastStep a < stp) (adb_admins (as_db s)) \<noteq> 1" using 2(1) False by simp
        then have "\<not> ad_TOTPLastStep r < stp" if "admin_by_id (as_db s) i = Some r" for r
          using at.affected_id [OF wf, of i "\<lambda>a. ad_TOTPLastStep a < stp"] that by (auto simp: admin_by_id_def)
        then show ?thesis unfolding 2(2)
          by (subst view_upd) (auto simp: view_def intro!: map_option_cong)
      qed simp
      moreover have "t_next (adb_admins d) = t_next (adb_admins (as_db s))"
        by (cases rule: use_step_cases [OF u]) auto
      ultimately show ?thesis using assms(2) e ok' work(1) by (simp add: totp_inv_def)
    qed
  qed
next
  case (admin c)
  have ok: "adm_ok (as_db s)" using assms(2) by (simp add: totp_inv_def)
  have "\<not> resets i c" "\<not> enrols i c" using assms(3) admin(1) by (auto simp: same_factor_def)
  then have "quiet ad_TOTPLastStep 0 i (as_db s) (adm_step E c (as_db s))"
    by (intro quiet_cmd [OF ok admin(2)] login_part_step) auto
  then show ?thesis
    using totp_inv_quiet [OF assms(2), of _ "[Ran c]" "as_reqs s"] adm_ok_step [OF ok] admin(1) by simp
qed (use assms(2) in \<open>auto simp: totp_inv_def\<close>)

section \<open>The counter stays in range\<close>

definition fresh_sys :: "time \<Rightarrow> auth_sys" where
  "fresh_sys t0 = \<lparr>as_db = empty_adm_db, as_now = t0, as_reqs = [], as_log = []\<rparr>"

definition sane :: "(int \<times> time option) option \<Rightarrow> bool" where
  "sane v = (case v of None \<Rightarrow> True
     | Some (f, l) \<Rightarrow> 0 \<le> f \<and> f \<le> MaxFailedAttempts \<and> (l \<noteq> None \<longrightarrow> f = MaxFailedAttempts))"

lemma sane_simps [simp]: "sane None"
  "sane (Some (f, l)) \<longleftrightarrow> 0 \<le> f \<and> f \<le> MaxFailedAttempts \<and> (l \<noteq> None \<longrightarrow> f = MaxFailedAttempts)"
  by (simp_all add: sane_def)

lemma sane_quiet: "sane (lockview db i) \<Longrightarrow> lock_quiet i db db' \<Longrightarrow> sane (lockview db' i)"
  unfolding quiet_def by (elim conjE disjE) (simp_all add: MaxFailedAttempts_def)

lemma sane_upd:
  assumes "sane (lockview db i)" "\<And>a. ad_ID (f a) = ad_ID a"
    and "\<And>a. P a \<Longrightarrow> ad_ID a = i \<Longrightarrow> sane (Some (lock_of a)) \<Longrightarrow> sane (Some (lock_of (f a)))"
  shows "sane (lockview (snd (upd_admins P f db)) i)"
proof (cases "admin_by_id db i")
  case (Some r)
  then have "ad_ID r = i" by (auto simp: admin_by_id_def dest: find_Some_in)
  moreover have "sane (Some (lock_of r))" using assms(1) Some by (simp add: view_def)
  moreover have "lockview (snd (upd_admins P f db)) i = Some (if P r then lock_of (f r) else lock_of r)"
    unfolding view_upd [OF assms(2)] Some by simp
  ultimately show ?thesis using assms(3) by simp
qed (simp add: view_upd [OF assms(2)] sane_def)

lemma sane_req:
  assumes "adm_ok db" "req_step E fault now rnd q db = (q', db', evs)" "sane (lockview db i)"
  shows "sane (lockview db' i)"
proof (cases "touches i q")
  case False
  then show ?thesis using sane_quiet [OF assms(3)] quiet_req [OF assms(1,2) False] by blast
next
  case True
  note s = sane_upd [OF assms(3)]
  show ?thesis
  proof (cases q)
    case (QReserve k row)
    have "sane (lockview (snd (reserveAttempt fault now (ad_ID row) db)) i)"
      using assms(3) by (auto simp: reserveAttempt_def case_prod_beta lock_of_def intro!: s)
    then show ?thesis using assms(2) QReserve by (auto split: prod.splits sum.splits if_splits)
  qed (use True assms(2,3) in \<open>auto simp: touches_def lockIfExhausted_def clearExpiredLock_def RecordLoginSuccess_def give_back_def
        lock_of_def MaxFailedAttempts_def intro!: sane_upd\<close>)
qed

lemma sane_cmd:
  assumes "adm_ok db" "account_cmd c" "sane (lockview db i)"
  shows "sane (lockview (adm_step E c db) i)"
proof (cases "resets i c")
  case False
  then have "lock_quiet i db (adm_step E c db)" by (intro quiet_cmd [OF assms(1,2)] login_part_lock) (simp_all add: lock_of_def)
  then show ?thesis by (rule sane_quiet [OF assms(3)])
next
  case True
  then obtain fs salt now pw where c: "c = AReset fs salt now i pw" by (cases c) auto
  have rv: "lockview (revoke_where now P d) i = lockview d i" for P d by (simp add: view_def admin_by_id_def)
  show ?thesis unfolding c using assms(3)
    by (auto simp: ResetForBootstrap_def rv lock_of_def MaxFailedAttempts_def split: option.split intro!: sane_upd [OF assms(3)])
qed

lemma sane_step:
  assumes "auth_step E s s'" "adm_ok (as_db s)" "sane (lockview (as_db s) i)"
  shows "adm_ok (as_db s') \<and> sane (lockview (as_db s') i)"
  using assms(1)
proof (cases rule: auth_step.cases)
  case (work k rnd fault q db evs)
  then show ?thesis using adm_ok_req [OF assms(2) work(4)] sane_req [OF assms(2) work(4) assms(3)] by simp
next
  case (admin c)
  then show ?thesis using adm_ok_step [OF assms(2)] sane_cmd [OF assms(2) admin(2) assms(3)] by simp
qed (use assms(2,3) in simp_all)

lemma fresh_sane:
  assumes "(auth_step E)\<^sup>*\<^sup>* (fresh_sys t0) s"
  shows "adm_ok (as_db s) \<and> sane (lockview (as_db s) i)"
  using assms
proof (induction rule: rtranclp_induct)
  case base
  show ?case using adm_ok_empty by (simp add: fresh_sys_def view_def empty_table_def admin_by_id_def empty_adm_db_def)
next
  case (step s s')
  then show ?case using sane_step by blast
qed

text \<open>The record of what happened does not influence what can happen.\<close>

lemma auth_step_relog:
  assumes "auth_step E s s'"
  shows "\<exists>evs. as_log s' = evs @ as_log s \<and> auth_step E (s\<lparr>as_log := l\<rparr>) (s'\<lparr>as_log := evs @ l\<rparr>)"
  using assms
proof (cases rule: auth_step.cases)
  case (tick d)
  then show ?thesis using auth_step.tick [of d E "s\<lparr>as_log := l\<rparr>"] by (intro exI [of _ "[]"]) (cases s, simp)
next
  case (login email pw code)
  then show ?thesis using auth_step.login [of E "s\<lparr>as_log := l\<rparr>"] by (intro exI [of _ "[]"]) (cases s, simp)
next
  case (verify i pw)
  then show ?thesis using auth_step.verify [of E "s\<lparr>as_log := l\<rparr>"] by (intro exI [of _ "[]"]) (cases s, simp)
next
  case (work k rnd fault q db evs)
  then show ?thesis using auth_step.work [of k "s\<lparr>as_log := l\<rparr>" rnd E fault q db evs] by (intro exI [of _ evs]) (cases s, simp)
next
  case (admin c)
  then show ?thesis using auth_step.admin [of c E "s\<lparr>as_log := l\<rparr>"] by (intro exI [of _ "[Ran c]"]) (cases s, simp)
qed

lemma auth_steps_relog:
  assumes "(auth_step E)\<^sup>*\<^sup>* s s'"
  shows "\<exists>evs. as_log s' = evs @ as_log s \<and> (auth_step E)\<^sup>*\<^sup>* (s\<lparr>as_log := []\<rparr>) (s'\<lparr>as_log := evs\<rparr>)"
  using assms
proof (induction rule: rtranclp_induct)
  case base
  show ?case by (intro exI [of _ "[]"]) simp
next
  case (step s1 s2)
  then obtain evs where e: "as_log s1 = evs @ as_log s" "(auth_step E)\<^sup>*\<^sup>* (s\<lparr>as_log := []\<rparr>) (s1\<lparr>as_log := evs\<rparr>)" by blast
  obtain new where "as_log s2 = new @ as_log s1" "auth_step E (s1\<lparr>as_log := evs\<rparr>) (s2\<lparr>as_log := new @ evs\<rparr>)"
    using auth_step_relog [OF step(2), of evs] by blast
  then show ?case using e by (intro exI [of _ "new @ evs"]) (auto intro: rtranclp.rtrancl_into_rtrancl)
qed

text \<open>An invariant that each step keeps as long as the history satisfies \<open>Q\<close> holds along a run whose
  history satisfies it.\<close>

lemma steps_log: "(auth_step E)\<^sup>*\<^sup>* s s' \<Longrightarrow> \<exists>evs. as_log s' = evs @ as_log s"
  by (induction rule: rtranclp_induct) (auto dest: auth_step_log)

lemma inv_steps:
  assumes "(auth_step E)\<^sup>*\<^sup>* s s'" "I s" "Q (as_log s')"
    and "\<And>xs ys. Q (xs @ ys) \<Longrightarrow> Q ys"
    and "\<And>s s'. auth_step E s s' \<Longrightarrow> I s \<Longrightarrow> Q (as_log s') \<Longrightarrow> I s'"
  shows "I s'"
  using assms(1,3)
proof (induction rule: rtranclp_induct)
  case (step s1 s2)
  obtain evs where "as_log s2 = evs @ as_log s1" using auth_step_log [OF step(2)] by blast
  then have "Q (as_log s1)" using step.prems assms(4) by simp
  then show ?case using step assms(5) by blast
qed (rule assms(2))

text \<open>
  C2. Guessing a password is bounded: at any point of any history of interleaved logins, step-ups
  and console commands, whatever requests are then under way or arrive later, and however they
  interleave, no window of the length of the lockout holds more than \<open>MaxFailedAttempts\<close> password
  comparisons for an account, as long as no login or step-up of that account succeeds and it is
  not reset from the command line.
\<close>

theorem guesses_bounded_per_lockout:
  assumes "(auth_step E)\<^sup>*\<^sup>* (fresh_sys t0) s" "(auth_step E)\<^sup>*\<^sup>* s s'" "as_log s' = evs @ as_log s" "calm i evs"
  shows "int (length (filter (\<lambda>g. t \<le> g \<and> g < t + LockoutDuration) (guesses i evs))) \<le> MaxFailedAttempts"
proof -
  have steps: "(auth_step E)\<^sup>*\<^sup>* (s\<lparr>as_log := []\<rparr>) (s'\<lparr>as_log := evs\<rparr>)"
    using auth_steps_relog [OF assms(2)] assms(3) by auto
  have "view_ok [] (lockview (as_db s) i)"
    using fresh_sane [OF assms(1), of i] by (auto simp: view_ok_def sane_def)
  then have "guess_inv i (s\<lparr>as_log := []\<rparr>)"
    using fresh_sane [OF assms(1)]
    by (intro guess_invI [where cur = "[]" and old = "[]"]) (simp_all add: window_ok_def MaxFailedAttempts_def)
  then have "guess_inv i (s'\<lparr>as_log := evs\<rparr>)"
    by (rule inv_steps [where I = "guess_inv i" and Q = "calm i", OF steps])
      (use assms(4) guess_inv_step in auto)
  then show ?thesis by (auto simp: guess_inv_def window_ok_def)
qed

text \<open>
  C17. A time step is used once: as long as the second factor of an account is neither reset nor
  enrolled again, the TOTP steps that its logins consumed are strictly increasing in the order of
  consumption, whatever requests interleave; so no one-time code opens two sessions.
\<close>

theorem totp_step_used_once:
  assumes "(auth_step E)\<^sup>*\<^sup>* (fresh_sys t0) s" "(auth_step E)\<^sup>*\<^sup>* s s'" "as_log s' = evs @ as_log s" "same_factor i evs"
  shows "sorted_wrt (>) (totp_used i evs)"
proof -
  have steps: "(auth_step E)\<^sup>*\<^sup>* (s\<lparr>as_log := []\<rparr>) (s'\<lparr>as_log := evs\<rparr>)"
    using auth_steps_relog [OF assms(2)] assms(3) by auto
  have "totp_inv i (s\<lparr>as_log := []\<rparr>)" using fresh_sane [OF assms(1)] by (simp add: totp_inv_def)
  then have "totp_inv i (s'\<lparr>as_log := evs\<rparr>)"
    by (rule inv_steps [where I = "totp_inv i" and Q = "same_factor i", OF steps])
      (use assms(4) totp_inv_step in auto)
  then show ?thesis by (simp add: totp_inv_def)
qed

section \<open>Recovery codes are spent once\<close>

definition rec_used :: "int \<Rightarrow> event list \<Rightarrow> string list" where
  "rec_used i evs = concat (map (\<lambda>e. case e of RecUsed j c \<Rightarrow> if j = i then [c] else [] | _ \<Rightarrow> []) evs)"

lemma rec_used_simps [simp]: "rec_used i [] = []" "rec_used i (xs @ ys) = rec_used i xs @ rec_used i ys"
  "rec_used i (RecUsed j c # xs) = (if j = i then c # rec_used i xs else rec_used i xs)"
  "rec_used i (Guess j t # xs) = rec_used i xs" "rec_used i (Passed j # xs) = rec_used i xs"
  "rec_used i (TotpUsed j n # xs) = rec_used i xs" "rec_used i (Ran c' # xs) = rec_used i xs"
  by (simp_all add: rec_used_def)

text \<open>The list of codes behind a stored ciphertext, and what holds of a compare-and-swap in flight:
  the new list is the one behind the old ciphertext less the code that matched.\<close>

definition stored_codes :: "adm_env \<Rightarrow> int \<Rightarrow> string \<Rightarrow> string list option" where
  "stored_codes E i enc = (case Open (ev_box E) enc (adminAAD E i) of None \<Rightarrow> None | Some pt \<Rightarrow> ev_unjson E pt)"

definition spends :: "adm_env \<Rightarrow> string list \<Rightarrow> string \<Rightarrow> string list \<Rightarrow> bool" where
  "spends E cs code nxt \<longleftrightarrow> ConsumeRecovery (ev_U E) (ev_folds E) cs code = (nxt, True)"

definition cas_ok :: "adm_env \<Rightarrow> req \<Rightarrow> bool" where
  "cas_ok E q \<longleftrightarrow> (\<forall>row code old nxt. q = QCas row code old nxt \<longrightarrow>
     old \<noteq> [] \<and> (\<exists>cs. stored_codes E (ad_ID row) old = Some cs \<and> spends E cs code nxt))"

lemma recovery_next_Inr:
  assumes "recovery_next E row code = Inr nxt"
  shows "ad_TOTPRecoveryCodesEnc row \<noteq> []
    \<and> (\<exists>cs. stored_codes E (ad_ID row) (ad_TOTPRecoveryCodesEnc row) = Some cs \<and> spends E cs code nxt)"
  using assms by (auto simp: recovery_next_def stored_codes_def spends_def split: if_splits option.splits prod.splits)

lemma cas_ok_req:
  assumes "req_step E fault now rnd q db = (q', db', evs)"
  shows "cas_ok E q'"
proof (cases "\<exists>row code. q = QCodes row code")
  case True
  then obtain row code where q: "q = QCodes row code" by blast
  show ?thesis
  proof (cases "\<exists>r nxt. loadByID fault (ad_ID row) db = Inr r \<and> recovery_next E r code = Inr nxt")
    case True
    then obtain r nxt where r: "loadByID fault (ad_ID row) db = Inr r" "recovery_next E r code = Inr nxt" by blast
    then have "q' = QCas row code (ad_TOTPRecoveryCodesEnc r) nxt" using assms q by simp
    then show ?thesis using recovery_next_Inr [OF r(2)] loadByID_id [OF r(1)] by (simp add: cas_ok_def)
  next
    case False
    then show ?thesis using assms q by (auto simp: cas_ok_def split: sum.splits if_splits)
  qed
next
  case False
  have g: "cas_ok E (after_guess E k row)" for k row by (cases k) (simp_all add: after_guess_def cas_ok_def)
  have o: "cas_ok E (QDone out)" "cas_ok E (QLock j e)" for out j e by (simp_all add: cas_ok_def)
  show ?thesis
  proof (cases q)
    case (QReserve k row)
    then show ?thesis using assms g o by (auto split: sum.splits prod.splits if_splits)
  qed (use assms False in \<open>auto simp: cas_ok_def split: sum.splits option.splits prod.splits if_splits\<close>)
qed

lemma cas_ok_step:
  assumes "auth_step E s s'" "\<forall>q\<in>set (as_reqs s). cas_ok E q"
  shows "\<forall>q\<in>set (as_reqs s'). cas_ok E q"
  using assms(1)
proof (cases rule: auth_step.cases)
  case (work k rnd fault q db evs)
  then show ?thesis using assms(2) cas_ok_req [OF work(4)] by (auto dest!: subsetD [OF set_update_subset_insert])
qed (use assms(2) in \<open>auto simp: cas_ok_def\<close>)

text \<open>A use removes one code of a duplicate-free list; when the typed text is a printed code, up to
  blanks and case, it removes that one.\<close>

lemma spends_once:
  assumes "spends E cs code nxt" "distinct cs" "\<forall>c\<in>set cs. recovery_text c"
  shows "distinct nxt" "set nxt \<subseteq> set cs" "length cs = Suc (length nxt)" "recovery_want (ev_U E) code \<notin> set nxt"
    and "recovery_text (recovery_want (ev_U E) code) \<Longrightarrow> recovery_want (ev_U E) code \<in> set cs"
proof -
  let ?w = "recovery_want (ev_U E) code"
  have t: "take_first P xs = (ys, True) \<Longrightarrow> \<exists>pre x post. xs = pre @ x # post \<and> ys = pre @ post \<and> P x" for P xs and ys :: "string list"
  proof (induction xs arbitrary: ys)
    case (Cons x xs)
    show ?case
    proof (cases "P x")
      case True
      then have "ys = xs" using Cons.prems by simp
      then show ?thesis using True by (intro exI [of _ "[]"] exI [of _ x] exI [of _ xs]) simp
    next
      case False
      then obtain zs where "take_first P xs = (zs, True)" "ys = x # zs" using Cons.prems by (cases "take_first P xs") auto
      then obtain pre y post where "xs = pre @ y # post" "zs = pre @ post" "P y" using Cons.IH by blast
      then show ?thesis using \<open>ys = x # zs\<close> by (intro exI [of _ "x # pre"] exI [of _ y] exI [of _ post]) simp
    qed
  qed simp
  obtain pre x post where x: "cs = pre @ x # post" "nxt = pre @ post" "EqualFold (ev_folds E) (TrimSpace x) ?w"
    using assms(1) t unfolding spends_def ConsumeRecovery_def by blast
  have "x = ?w" if "recovery_text ?w"
    using x assms(3) that by (simp add: recovery_text_trim EqualFold_recovery)
  then show "recovery_text ?w \<Longrightarrow> ?w \<in> set cs" "?w \<notin> set nxt" using x assms(2,3) by auto
  show "distinct nxt" "set nxt \<subseteq> set cs" "length cs = Suc (length nxt)" using x assms(2) by auto
qed

definition rec_inv :: "adm_env \<Rightarrow> int \<Rightarrow> nat \<Rightarrow> auth_sys \<Rightarrow> bool" where
  "rec_inv E i n s \<longleftrightarrow> adm_ok (as_db s) \<and> (\<forall>q\<in>set (as_reqs s). cas_ok E q)
     \<and> (let used = map (recovery_want (ev_U E)) (rec_used i (as_log s))
        in length used \<le> n \<and> distinct (filter recovery_text used)
           \<and> (\<forall>enc. view ad_TOTPRecoveryCodesEnc (as_db s) i = Some enc \<and> enc \<noteq> [] \<longrightarrow>
                (\<exists>cs. stored_codes E i enc = Some cs \<and> distinct cs \<and> (\<forall>c\<in>set cs. recovery_text c)
                   \<and> set used \<inter> set cs = {} \<and> length used + length cs \<le> n)))"

lemma rec_inv_quiet:
  assumes "rec_inv E i n s" "quiet ad_TOTPRecoveryCodesEnc [] i (as_db s) db" "adm_ok db" "rec_used i evs = []"
    "\<forall>q\<in>set rs. cas_ok E q"
  shows "rec_inv E i n (s\<lparr>as_db := db, as_reqs := rs, as_log := evs @ as_log s\<rparr>)"
proof -
  have "view ad_TOTPRecoveryCodesEnc (as_db s) i = Some enc" if "view ad_TOTPRecoveryCodesEnc db i = Some enc" "enc \<noteq> []" for enc
    using assms(2) that unfolding quiet_def by fastforce
  then show ?thesis using assms(1,3-5) unfolding rec_inv_def Let_def by simp
qed

lemma rec_req_quiet:
  assumes "adm_ok db" "req_step E fault now rnd q db = (q', db', evs)" "\<not> (\<exists>row code old nxt. q = QCas row code old nxt \<and> ad_ID row = i)"
  shows "quiet ad_TOTPRecoveryCodesEnc [] i db db' \<and> rec_used i evs = []"
proof (cases q)
  case (QReserve k row)
  have "quiet ad_TOTPRecoveryCodesEnc [] i db (snd (reserveAttempt fault now (ad_ID row) db))"
    by (auto simp: reserveAttempt_def case_prod_beta intro: quiet_upd)
  then show ?thesis using assms(2) QReserve by (auto split: prod.splits sum.splits if_splits)
next
  case (QCas row code old nxt)
  obtain r d where c: "cas_codes E fault rnd now (ad_ID row) old nxt db = (r, d)" by (rule prod.exhaust)
  have "ad_ID row \<noteq> i" using assms(3) QCas by blast
  then have "quiet ad_TOTPRecoveryCodesEnc [] i db d" by (cases rule: cas_codes_cases [OF c]) (auto intro!: quiet_upd)
  then show ?thesis using assms(2) QCas c \<open>ad_ID row \<noteq> i\<close> by (auto split: option.splits if_splits)
next
  case (QStep row stp)
  obtain r d where c: "UseTOTPStep fault now (ad_ID row) stp db = (r, d)" by (rule prod.exhaust)
  have "quiet ad_TOTPRecoveryCodesEnc [] i db d"
    by (cases rule: use_step_cases [OF c]) (auto intro: quiet_upd)
  then show ?thesis using assms(2,3) QStep c by (auto split: sum.splits if_splits)
qed (use assms(2) in \<open>auto simp: lockIfExhausted_def clearExpiredLock_def RecordLoginSuccess_def give_back_def
       intro: quiet_upd split: sum.splits option.splits prod.splits if_splits\<close>)

text \<open>The compare-and-swap of account \<open>i\<close>: it either changes nothing of the account's codes, or it finds
  the ciphertext it read and replaces it.\<close>

lemma cas_view:
  assumes "adm_ok db" "cas_codes E fault rnd now i old nxt db = (r, db')"
  obtains (lost) "r \<noteq> None" "view ad_TOTPRecoveryCodesEnc db' i = view ad_TOTPRecoveryCodesEnc db i"
  | (won) enc where "r = None" "Seal (ev_box E) rnd (codes_json nxt) (adminAAD E i) = Some enc"
      "view ad_TOTPRecoveryCodesEnc db i = Some old" "view ad_TOTPRecoveryCodesEnc db' i = Some enc"
proof (cases rule: cas_codes_cases [OF assms(2)])
  case 1
  then show ?thesis using lost by simp
next
  case (2 enc)
  have wf: "tbl_wf ad_ID ad_Email (adb_admins db)" using assms(1) by (simp add: adm_ok_def)
  have a: "tbl_affected (\<lambda>a. ad_ID a = i \<and> ad_TOTPRecoveryCodesEnc a = old) (adb_admins db)
      = (case admin_by_id db i of Some a \<Rightarrow> if ad_TOTPRecoveryCodesEnc a = old then 1 else 0 | None \<Rightarrow> 0)"
    unfolding at.affected_id [OF wf, of i "\<lambda>a. ad_TOTPRecoveryCodesEnc a = old"] by (simp add: admin_by_id_def)
  have v: "view ad_TOTPRecoveryCodesEnc db' i
      = map_option (\<lambda>a. if ad_ID a = i \<and> ad_TOTPRecoveryCodesEnc a = old then enc else ad_TOTPRecoveryCodesEnc a) (admin_by_id db i)"
    unfolding 2(2) by (subst view_upd) (simp_all cong: if_cong)
  have id: "ad_ID a = i" if "admin_by_id db i = Some a" for a using that by (auto simp: admin_by_id_def dest: find_Some_in)
  show ?thesis
  proof (cases "\<exists>a. admin_by_id db i = Some a \<and> ad_TOTPRecoveryCodesEnc a = old")
    case True
    then show ?thesis using won [of enc] 2(1,3) a v id by (auto simp: view_def)
  next
    case False
    then have "r \<noteq> None" using 2(3) a by (auto split: option.splits)
    then show ?thesis using lost False v by (cases "admin_by_id db i") (auto simp: view_def)
  qed
qed

definition json_ok :: "adm_env \<Rightarrow> bool" where
  "json_ok E \<longleftrightarrow> (\<forall>cs. (\<forall>c\<in>set cs. recovery_text c) \<longrightarrow> ev_unjson E (codes_json cs) = Some cs)"

definition box_ok :: "adm_env \<Rightarrow> bool" where
  "box_ok E \<longleftrightarrow> (\<exists>A. ev_box E = Some A \<and> aead_ok A)"

lemma stored_codes_sealed:
  assumes "json_ok E" "box_ok E" "Seal (ev_box E) (Some nonce) (codes_json cs) (adminAAD E i) = Some enc"
    "length nonce = nonceLen" "\<forall>c\<in>set cs. recovery_text c"
  shows "stored_codes E i enc = Some cs"
proof -
  obtain A where A: "ev_box E = Some A" "aead_ok A" using assms(2) by (auto simp: box_ok_def)
  then have "Open (ev_box E) enc (adminAAD E i) = Some (codes_json cs)" using Open_Seal [OF A(2) assms(4)] assms(3) by simp
  then show ?thesis using assms(1,5) by (simp add: stored_codes_def json_ok_def)
qed

lemma Seal_no_nonce [simp]: "Seal b None p d = None"
  by (cases b) (simp_all add: Seal_def)

lemma rec_inv_won:
  assumes "rec_inv E i n s" "json_ok E" "box_ok E" "cas_ok E (QCas row code old nxt)" "ad_ID row = i"
    and "Seal (ev_box E) rnd (codes_json nxt) (adminAAD E i) = Some enc" "\<forall>m. rnd = Some m \<longrightarrow> length m = nonceLen"
    and "view ad_TOTPRecoveryCodesEnc (as_db s) i = Some old" "view ad_TOTPRecoveryCodesEnc db i = Some enc" "adm_ok db"
    and "\<forall>q\<in>set rs. cas_ok E q"
  shows "rec_inv E i n (s\<lparr>as_db := db, as_reqs := rs, as_log := RecUsed i code # as_log s\<rparr>)"
proof -
  let ?used = "map (recovery_want (ev_U E)) (rec_used i (as_log s))" and ?w = "recovery_want (ev_U E) code"
  obtain cs where cs: "old \<noteq> []" "stored_codes E i old = Some cs" "spends E cs code nxt"
    using assms(4,5) by (auto simp: cas_ok_def)
  have inv: "distinct (filter recovery_text ?used)" "distinct cs" "\<forall>c\<in>set cs. recovery_text c"
    "set ?used \<inter> set cs = {}" "length ?used + length cs \<le> n"
    using assms(1,8) cs(1,2) unfolding rec_inv_def Let_def by auto
  note sp = spends_once [OF cs(3) inv(2,3)]
  obtain nonce where "rnd = Some nonce" "length nonce = nonceLen" using assms(6,7) by (cases rnd) auto
  then have st: "stored_codes E i enc = Some nxt"
    using stored_codes_sealed [OF assms(2,3), of nonce nxt i enc] assms(6) sp(2) inv(3) by blast
  have "set (?w # ?used) \<inter> set nxt = {}" using sp(2,4) inv(4) by auto
  moreover have "distinct (filter recovery_text (?w # ?used))" using sp(5) inv(1,4) by auto
  moreover have "length (?w # ?used) + length nxt \<le> n" using sp(3) inv(5) by simp
  ultimately show ?thesis
    using assms(5,9-11) st sp(1,2) inv(3) unfolding rec_inv_def Let_def by auto
qed

lemma rec_inv_step:
  assumes "auth_step E s s'" "rec_inv E i n s" "same_factor i (as_log s')" "json_ok E" "box_ok E"
  shows "rec_inv E i n s'"
  using assms(1)
proof (cases rule: auth_step.cases)
  case (work k rnd fault q db evs)
  have ok: "adm_ok (as_db s)" using assms(2) by (simp add: rec_inv_def)
  note ok' = adm_ok_req [OF ok work(4)]
  have rs: "\<forall>q\<in>set (as_reqs s). cas_ok E q" using assms(2) by (simp add: rec_inv_def)
  have rs': "\<forall>q'\<in>set ((as_reqs s)[k := q]). cas_ok E q'" using cas_ok_step [OF assms(1) rs] work(1) by simp
  show ?thesis
  proof (cases "\<exists>row code old nxt. as_reqs s ! k = QCas row code old nxt \<and> ad_ID row = i")
    case False
    then show ?thesis using rec_req_quiet [OF ok work(4)] rec_inv_quiet [OF assms(2)] ok' work(1) rs' by simp
  next
    case True
    then obtain row code old nxt where q: "as_reqs s ! k = QCas row code old nxt" "ad_ID row = i" by blast
    have cq: "cas_ok E (QCas row code old nxt)" using rs work(2) q(1) by (metis nth_mem)
    obtain r d where u: "cas_codes E fault rnd (as_now s) i old nxt (as_db s) = (r, d)" by (rule prod.exhaust)
    show ?thesis
    proof (cases rule: cas_view [OF ok u])
      case 1
      then have e: "evs = []" "db = d" using work(4) q u by (auto split: if_splits)
      have "t_next (adb_admins d) = t_next (adb_admins (as_db s))" by (cases rule: cas_codes_cases [OF u]) auto
      then have "quiet ad_TOTPRecoveryCodesEnc [] i (as_db s) db" using 1(2) e by (simp add: quiet_def)
      then show ?thesis using rec_inv_quiet [OF assms(2) _ ok', of "[]"] e work(1) rs' by simp
    next
      case (2 enc)
      then have e: "evs = [RecUsed i code]" "db = d" using work(4) q u by auto
      show ?thesis
        using rec_inv_won [OF assms(2,4,5) cq q(2) 2(2) work(3) 2(3), of db] 2(4) e ok' work(1) rs' by simp
    qed
  qed
next
  case (admin c)
  have ok: "adm_ok (as_db s)" using assms(2) by (simp add: rec_inv_def)
  have "\<not> resets i c" "\<not> enrols i c" using assms(3) admin(1) by (auto simp: same_factor_def)
  then have "quiet ad_TOTPRecoveryCodesEnc [] i (as_db s) (adm_step E c (as_db s))"
    by (intro quiet_cmd [OF ok admin(2)] login_part_codes) auto
  moreover have "\<forall>q\<in>set (as_reqs s). cas_ok E q" using assms(2) by (simp add: rec_inv_def)
  ultimately show ?thesis
    using rec_inv_quiet [OF assms(2), of _ "[Ran c]" "as_reqs s"] adm_ok_step [OF ok] admin(1) by simp
qed (use assms(2) in \<open>auto simp: rec_inv_def Let_def cas_ok_def\<close>)

lemma fresh_cas:
  assumes "(auth_step E)\<^sup>*\<^sup>* (fresh_sys t0) s"
  shows "\<forall>q\<in>set (as_reqs s). cas_ok E q"
  using assms by (induction rule: rtranclp_induct) (simp_all add: fresh_sys_def cas_ok_step)

section \<open>Playing a schedule\<close>

text \<open>A schedule as data; an action that is not possible changes nothing.\<close>

datatype act = Wait time | Log string string string | Ver int string | Do nat bool "string option" | Cmd adm_cmd

fun play1 :: "adm_env \<Rightarrow> act \<Rightarrow> auth_sys \<Rightarrow> auth_sys" where
  "play1 E (Wait d) s = (if 0 \<le> d then s\<lparr>as_now := as_now s + d\<rparr> else s)"
| "play1 E (Log email pw code) s = s\<lparr>as_reqs := as_reqs s @ [QLogin email pw code]\<rparr>"
| "play1 E (Ver i pw) s = s\<lparr>as_reqs := as_reqs s @ [QVerify i pw]\<rparr>"
| "play1 E (Do k fault rnd) s =
     (if k < length (as_reqs s) \<and> (case rnd of None \<Rightarrow> True | Some n \<Rightarrow> length n = nonceLen)
      then case req_step E fault (as_now s) rnd (as_reqs s ! k) (as_db s) of
        (q, db, evs) \<Rightarrow> s\<lparr>as_db := db, as_reqs := (as_reqs s)[k := q], as_log := evs @ as_log s\<rparr>
      else s)"
| "play1 E (Cmd c) s = (if account_cmd c then s\<lparr>as_db := adm_step E c (as_db s), as_log := Ran c # as_log s\<rparr> else s)"

fun play :: "adm_env \<Rightarrow> act list \<Rightarrow> auth_sys \<Rightarrow> auth_sys" where
  "play E [] s = s"
| "play E (a # as) s = play E as (play1 E a s)"

lemma play1_step: "play1 E a s = s \<or> auth_step E s (play1 E a s)"
  by (cases a) (auto split: prod.splits option.splits intro: auth_step.intros)

lemma play_steps: "(auth_step E)\<^sup>*\<^sup>* s (play E as s)"
proof (induction as arbitrary: s)
  case (Cons a as)
  then show ?case using play1_step [of E a s] by (auto intro: converse_rtranclp_into_rtranclp)
qed simp

definition one_account :: auth_sys where
  "one_account = play toy_adm_env [Cmd (ACreate False [] 0 ''a@x.org'' ''pw1'')] (fresh_sys 0)"

lemma one_account_reached: "(auth_step toy_adm_env)\<^sup>*\<^sup>* (fresh_sys 0) one_account"
  unfolding one_account_def by (rule play_steps)

definition bad_guess :: "nat \<Rightarrow> act list" where
  "bad_guess k = [Log ''a@x.org'' ''no'' [], Do k False None, Do k False None, Do k False None, Do k False None, Wait 1]"

text \<open>What was recorded since \<open>s\<close>.\<close>

definition since :: "auth_sys \<Rightarrow> auth_sys \<Rightarrow> event list" where
  "since s s' = take (length (as_log s') - length (as_log s)) (as_log s')"

lemma since_log: "(auth_step E)\<^sup>*\<^sup>* s s' \<Longrightarrow> as_log s' = since s s' @ as_log s"
  using steps_log [of E s s'] by (auto simp: since_def)

lemma calm_code: "calm i evs \<longleftrightarrow> list_all (\<lambda>e. case e of Passed j \<Rightarrow> j \<noteq> i | Ran c \<Rightarrow> \<not> resets i c | _ \<Rightarrow> True) evs"
  unfolding calm_def list_all_iff by (intro ball_cong refl) (auto split: event.split)

lemma same_factor_code:
  "same_factor i evs \<longleftrightarrow> list_all (\<lambda>e. case e of Ran c \<Rightarrow> \<not> resets i c \<and> \<not> enrols i c | _ \<Rightarrow> True) evs"
proof -
  have "same_factor i evs \<longleftrightarrow> (\<forall>e\<in>set evs. \<forall>c. e = Ran c \<longrightarrow> \<not> resets i c \<and> \<not> enrols i c)" by (auto simp: same_factor_def)
  also have "\<dots> \<longleftrightarrow> list_all (\<lambda>e. case e of Ran c \<Rightarrow> \<not> resets i c \<and> \<not> enrols i c | _ \<Rightarrow> True) evs"
    unfolding list_all_iff by (intro ball_cong refl) (auto split: event.split)
  finally show ?thesis .
qed

definition after_six :: auth_sys where
  "after_six = play toy_adm_env (concat (map bad_guess [0..<6])) one_account"

theorem guesses_bounded_per_lockout_witness:
  "guesses 1 (since one_account after_six) = [4, 3, 2, 1, 0]
   \<and> int (length (filter (\<lambda>g. 0 \<le> g \<and> g < 0 + LockoutDuration) (guesses 1 (since one_account after_six)))) \<le> MaxFailedAttempts"
proof -
  have r: "(auth_step toy_adm_env)\<^sup>*\<^sup>* one_account after_six" unfolding after_six_def by (rule play_steps)
  have "calm 1 (since one_account after_six)" unfolding calm_code by code_simp
  moreover have "guesses 1 (since one_account after_six) = [4, 3, 2, 1, 0]" by code_simp
  ultimately show ?thesis
    using guesses_bounded_per_lockout [OF one_account_reached r since_log [OF r], of 1 0] by simp
qed

text \<open>The account enrols with a secret and two codes; logins with the same one-time code, and with
  the same recovery code, run side by side.\<close>

definition toy_codes :: "string list" where
  "toy_codes = [''AAAAA-AAAAA'', ''BBBBB-BBBBB'']"

definition enrolled :: auth_sys where
  "enrolled = play toy_adm_env [Cmd (AEnroll False (Some ''123456789012'') (Some ''abcdefghijkl'') 0 1 toy_secret toy_codes)] one_account"

definition both :: "string \<Rightarrow> act list" where
  "both code = [Log ''a@x.org'' ''pw1'' code, Log ''a@x.org'' ''pw1'' code]
     @ concat (replicate 7 [Do 0 False (Some ''mnopqrstuvwx''), Do 1 False (Some ''yz1234567890'')])"

definition after_totp :: auth_sys where
  "after_totp = play toy_adm_env (Wait (65 * second) # both ''000002'') enrolled"

lemma recovery_char_json: "recovery_char c \<Longrightarrow> json_ascii c = [c] \<and> c \<noteq> CHR 0x22 \<and> c \<noteq> CHR '',''"
proof -
  have "\<forall>c\<in>set (CHR ''-'' # recovery_alphabet). json_ascii c = [c] \<and> c \<noteq> CHR 0x22 \<and> c \<noteq> CHR '',''" by code_simp
  moreover assume "recovery_char c"
  then have "c \<in> set (CHR ''-'' # recovery_alphabet)" unfolding recovery_char_def by (simp only: list.set insert_iff)
  ultimately show ?thesis by (rule bspec)
qed

lemma json_body_recovery: "\<forall>c\<in>set s. recovery_char c \<Longrightarrow> json_body s = s"
proof (induction s)
  case (Cons a s)
  then have a: "byte a < 0x80" "json_ascii a = [a]" using recovery_char_plain recovery_char_json by auto
  then have "decode_rune (a # s) = (byte a, 1)" by simp
  then show ?case using Cons a by (simp add: json_rune_def)
qed simp

lemma split_on_Join:
  "ps \<noteq> [] \<Longrightarrow> \<forall>p\<in>set ps. c \<notin> set p \<Longrightarrow> split_on c (Join ps [c]) = ps"
proof (induction ps rule: induct_list012)
  case (3 p q ps)
  then show ?case using split_on_append [of c p "Join (q # ps) [c]"] by (simp add: split_on_no)
qed (simp_all add: split_on_no)

lemma toy_json_ok: "json_ok toy_adm_env"
  unfolding json_ok_def
proof (intro allI impI)
  fix cs assume cs: "\<forall>c\<in>set cs. recovery_text c"
  show "ev_unjson toy_adm_env (codes_json cs) = Some cs"
  proof (cases "cs = []")
    case False
    let ?ps = "map (\<lambda>c. [CHR 0x22] @ c @ [CHR 0x22]) cs"
    have items: "map json_item (map JStr cs) = ?ps"
      using cs json_body_recovery by (auto simp: json_string_def recovery_text_def)
    have no: "CHR '','' \<notin> set c" "CHR 0x22 \<notin> set c" if "c \<in> set cs" for c
      using cs that recovery_char_json by (auto simp: recovery_text_def)
    have "split_on CHR '','' (Join ?ps '','') = ?ps" using no False by (intro split_on_Join) auto
    moreover have "map (filter (\<lambda>c. c \<noteq> CHR 0x22)) ?ps = cs"
      using no(2) by (auto simp: comp_def intro!: map_idI filter_True)
    moreover have "codes_json cs = CHR ''['' # Join ?ps '','' @ '']''"
      unfolding codes_json_def json_array_def items using False by simp
    ultimately show ?thesis by (simp add: toy_adm_env_def)
  qed (simp add: codes_json_def toy_adm_env_def)
qed

lemma toy_box_ok: "box_ok toy_adm_env"
  using toy_aead_ok by (simp add: box_ok_def toy_adm_env_def)

lemma enrolled_reached: "(auth_step toy_adm_env)\<^sup>*\<^sup>* (fresh_sys 0) enrolled"
  using one_account_reached play_steps [of toy_adm_env one_account] unfolding enrolled_def by (rule rtranclp_trans)

theorem totp_step_used_once_witness:
  "length (filter (\<lambda>q. case q of QDone (LoggedIn r) \<Rightarrow> True | _ \<Rightarrow> False) (as_reqs after_totp)) = 1
   \<and> totp_used 1 (since enrolled after_totp) = [2] \<and> sorted_wrt (>) (totp_used 1 (since enrolled after_totp))"
proof -
  have r: "(auth_step toy_adm_env)\<^sup>*\<^sup>* enrolled after_totp" unfolding after_totp_def by (rule play_steps)
  have "same_factor 1 (since enrolled after_totp)" unfolding same_factor_code by code_simp
  moreover have "totp_used 1 (since enrolled after_totp) = [2]"
    "length (filter (\<lambda>q. case q of QDone (LoggedIn r) \<Rightarrow> True | _ \<Rightarrow> False) (as_reqs after_totp)) = 1" by code_simp+
  ultimately show ?thesis
    using totp_step_used_once [OF enrolled_reached r since_log [OF r]] by simp
qed

lemma distinct_once: "distinct xs \<Longrightarrow> length (filter (\<lambda>x. x = c) xs) \<le> 1"
  by (induction xs) (auto simp: filter_empty_conv)

text \<open>
  C15. Recovery codes are spent once: after an account enrolled with freshly drawn codes, and until
  it is reset or enrols again, there are at most as many logins by recovery code as codes were
  issued, and no issued code is accepted twice, whatever case and blanks it is typed with and however
  the requests interleave, including those that were under way before the enrolment.
\<close>

theorem recovery_code_spent_once:
  assumes "json_ok E" "box_ok E" "(auth_step E)\<^sup>*\<^sup>* (fresh_sys t0) s"
    and "NewRecoveryCodes n rnds = Some codes" "\<forall>buf. Some buf \<in> set rnds \<longrightarrow> length buf = 10"
    and "EnrollTOTP E fault r1 (Some r2) now i secret codes (as_db s) = (None, db)" "length r2 = nonceLen"
    and "(auth_step E)\<^sup>*\<^sup>* (s\<lparr>as_db := db\<rparr>) s'" "as_log s' = evs @ as_log s" "same_factor i evs"
  shows "length (rec_used i evs) \<le> length codes
    \<and> (c \<in> set codes \<longrightarrow> length (filter (\<lambda>u. recovery_want (ev_U E) u = c) (rec_used i evs)) \<le> 1)"
proof -
  let ?s = "s\<lparr>as_db := db\<rparr>"
  note codes = NewRecoveryCodes_codes [OF assms(4,5)]
  have steps: "(auth_step E)\<^sup>*\<^sup>* (?s\<lparr>as_log := []\<rparr>) (s'\<lparr>as_log := evs\<rparr>)"
    using auth_steps_relog [OF assms(8)] assms(9) by auto
  have db: "db = adm_step E (AEnroll fault r1 (Some r2) now i secret codes) (as_db s)" using assms(6) by simp
  have ok: "adm_ok db" unfolding db using adm_ok_step fresh_sane [OF assms(3)] by blast
  obtain enc se where enc: "Seal (ev_box E) (Some r2) (codes_json codes) (adminAAD E i) = Some enc"
    "db = snd (upd_admins (\<lambda>a. ad_ID a = i) (\<lambda>a. a\<lparr>ad_TOTPSecretEnc := se, ad_TOTPRecoveryCodesEnc := enc,
                  ad_ForceTOTPEnroll := False, ad_TOTPLastStep := 0, ad_UpdatedAt := now\<rparr>) (as_db s))"
    using assms(6) by (auto simp: EnrollTOTP_def Let_def split: option.splits if_splits)
  have "view ad_TOTPRecoveryCodesEnc db i \<in> {None, Some enc}"
    unfolding enc(2) by (cases "admin_by_id (as_db s) i") (auto simp: view_upd admin_by_id_def dest: find_Some_in)
  moreover have "stored_codes E i enc = Some codes"
    using stored_codes_sealed [OF assms(1,2) enc(1) assms(7)] codes by blast
  ultimately have "rec_inv E i (length codes) (?s\<lparr>as_log := []\<rparr>)"
    using fresh_cas [OF assms(3)] ok codes by (auto simp: rec_inv_def)
  then have inv: "rec_inv E i (length codes) (s'\<lparr>as_log := evs\<rparr>)"
    by (rule inv_steps [where I = "rec_inv E i (length codes)" and Q = "same_factor i", OF steps])
      (use assms(1,2,10) rec_inv_step in auto)
  let ?used = "map (recovery_want (ev_U E)) (rec_used i evs)"
  have d: "distinct (filter recovery_text ?used)" using inv by (simp add: rec_inv_def Let_def)
  have "length (filter (\<lambda>u. recovery_want (ev_U E) u = c) (rec_used i evs)) \<le> 1" if "c \<in> set codes"
  proof -
    have "filter (\<lambda>w. w = c) ?used = filter (\<lambda>w. w = c) (filter recovery_text ?used)"
      using codes that by (auto simp: intro: filter_cong)
    also have "length \<dots> \<le> 1" using d by (rule distinct_once)
    finally have "length (filter (\<lambda>w. w = c) ?used) \<le> 1" .
    then show ?thesis by (simp add: filter_map comp_def)
  qed
  moreover have "length (rec_used i evs) \<le> length codes" using inv by (simp add: rec_inv_def Let_def)
  ultimately show ?thesis by blast
qed

theorem recovery_code_spent_once_witness:
  "\<exists>s s'. rec_used 1 (since s s') = [''aaaaa-aaaaa'']
   \<and> length (filter (\<lambda>u. recovery_want (ev_U toy_adm_env) u = ''AAAAA-AAAAA'') (rec_used 1 (since s s'))) \<le> 1"
proof -
  let ?cmd = "AEnroll False (Some ''123456789012'') (Some ''abcdefghijkl'') 0 1 toy_secret toy_codes"
  let ?db = "snd (EnrollTOTP toy_adm_env False (Some ''123456789012'') (Some ''abcdefghijkl'') 0 1 toy_secret toy_codes (as_db one_account))"
  have n: "NewRecoveryCodes 2 [Some (replicate 10 (CHR 0x00)), Some (replicate 10 (CHR 0x01))] = Some toy_codes" by code_simp
  have "fst (EnrollTOTP toy_adm_env False (Some ''123456789012'') (Some ''abcdefghijkl'') 0 1 toy_secret toy_codes (as_db one_account)) = None"
    by code_simp
  then have e: "EnrollTOTP toy_adm_env False (Some ''123456789012'') (Some ''abcdefghijkl'') 0 1 toy_secret toy_codes (as_db one_account)
    = (None, ?db)" by (metis prod.collapse)
  let ?s = "one_account\<lparr>as_db := ?db\<rparr>" and ?s' = "play toy_adm_env (both ''aaaaa-aaaaa'') (one_account\<lparr>as_db := ?db\<rparr>)"
  have r: "(auth_step toy_adm_env)\<^sup>*\<^sup>* ?s ?s'" by (rule play_steps)
  have l: "as_log ?s' = since ?s ?s' @ as_log one_account" using since_log [OF r] by simp
  have f: "same_factor 1 (since ?s ?s')" unfolding same_factor_code by code_simp
  have u: "rec_used 1 (since ?s ?s') = [''aaaaa-aaaaa'']" by code_simp
  have "''AAAAA-AAAAA'' \<in> set toy_codes" by code_simp
  moreover have "length ''abcdefghijkl'' = nonceLen" by code_simp
  ultimately have "length (filter (\<lambda>u. recovery_want (ev_U toy_adm_env) u = ''AAAAA-AAAAA'') (rec_used 1 (since ?s ?s'))) \<le> 1"
    using recovery_code_spent_once [OF toy_json_ok toy_box_ok one_account_reached n _ e _ r l f, of "''AAAAA-AAAAA''"] by simp
  then show ?thesis using u by blast
qed

lemma alone_verify:
  "alone E faults clk rnd 5 (QVerify i pw) db
     = map_prod (\<lambda>r. QDone (case r of None \<Rightarrow> Verified | Some e \<Rightarrow> Refused e None)) id (VerifyPassword E faults clk i pw db)"
proof -
  have n: "5 = Suc (Suc (Suc (Suc (Suc 0))))" by simp
  have g: "alone E faults clk rnd (Suc (Suc m)) (QReserve (AttemptVerify pw) row) d =
     (case reserveAttempt (faults LReserve) (clk LReserve) (ad_ID row) d of
        (Inl e, db2) \<Rightarrow> (QDone (Refused e None), db2)
      | (Inr reserved, db2) \<Rightarrow>
          if \<not> reserved then (QDone (Refused ErrAccountLocked None), lockIfExhausted (faults LLock) (clk LLock) (ad_ID row) db2)
          else if \<not> bc_match E (ad_PasswordHash row) pw
            then (QDone (Refused ErrInvalidCreds None), lockIfExhausted (faults LLock) (clk LLock) (ad_ID row) db2)
          else (QDone Verified, give_back (faults LGiveBack) (ad_ID row) db2))" for m row d
    by (auto simp: after_guess_def split: prod.split sum.split)
  have c: "alone E faults clk rnd (Suc (Suc (Suc (Suc 0)))) (QCheck (AttemptVerify pw) row) db =
     (case checkLock faults clk row db of (Some e, db1) \<Rightarrow> (QDone (Refused e None), db1)
      | (None, db1) \<Rightarrow> alone E faults clk rnd (Suc (Suc 0)) (QReserve (AttemptVerify pw) row) db1)" for row
  proof (cases "ad_LockedUntil row")
    case None
    then have "alone E faults clk rnd (Suc (Suc (Suc (Suc 0)))) (QCheck (AttemptVerify pw) row) db
        = alone E faults clk rnd (Suc (Suc (Suc 0))) (QReserve (AttemptVerify pw) row) db"
      by (subst alone.simps) (simp del: alone.simps)
    then show ?thesis unfolding g using None by (simp add: checkLock_def del: alone.simps)
  next
    case (Some lu)
    show ?thesis
      by (subst alone.simps, simp add: checkLock_def Some del: alone.simps) (subst alone.simps, simp del: alone.simps)
  qed
  show ?thesis
  proof (cases "loadByID (faults LLoad) i db")
    case (Inl e)
    then show ?thesis by (simp add: n VerifyPassword_def)
  next
    case (Inr row)
    then have "alone E faults clk rnd 5 (QVerify i pw) db = alone E faults clk rnd (Suc (Suc (Suc (Suc 0)))) (QCheck (AttemptVerify pw) row) db"
      unfolding n by (subst alone.simps) (simp del: alone.simps)
    then show ?thesis unfolding c g
      using Inr loadByID_id [OF Inr] by (auto simp: VerifyPassword_def split: prod.splits option.splits sum.splits)
  qed
qed

text \<open>
  The requests that interleave are the calls of the code: a login that runs with nothing in
  between answers and leaves the tables exactly as \<open>Authenticate\<close> does, after at most seven statements,
  and a step-up exactly as \<open>VerifyPassword\<close> does, after at most five; so both always answer.
\<close>

theorem requests_refine_calls:
  "alone E faults clk rnd 7 (QLogin email pw code) db = map_prod QDone id (Authenticate E faults clk rnd email pw code db)
   \<and> alone E faults clk rnd 5 (QVerify i pw') db
      = map_prod (\<lambda>r. QDone (case r of None \<Rightarrow> Verified | Some e \<Rightarrow> Refused e None)) id (VerifyPassword E faults clk i pw' db)"
  using alone_login alone_verify by blast

section \<open>What a successful login shows\<close>

lemma verifyPasswordFactor_Inr:
  assumes "adm_ok db" "verifyPasswordFactor E faults clk email password db = (Inr row, db1)"
  shows "loadByEmail E (faults LLoad) email db = Inr row" "bc_match E (ad_PasswordHash row) password" "ad_DisabledAt row = None"
    "\<And>lu. ad_LockedUntil row = Some lu \<Longrightarrow> lu \<le> clk LCheck"
    "ad_LockedUntil row = None \<Longrightarrow> ad_FailedAttempts row < MaxFailedAttempts" "adm_ok db1"
    "view ad_TOTPLastStep db1 (ad_ID row) = Some (ad_TOTPLastStep row)"
    "view ad_TOTPRecoveryCodesEnc db1 (ad_ID row) = Some (ad_TOTPRecoveryCodesEnc row)"
proof -
  obtain d where l: "loadByEmail E (faults LLoad) email db = Inr row" "checkLock faults clk row db = (None, d)"
    and r: "reserveAttempt (faults LReserve) (clk LReserve) (ad_ID row) d = (Inr True, db1)"
    and b: "bc_match E (ad_PasswordHash row) password" "ad_DisabledAt row = None"
    using assms(2) by (auto simp: verifyPasswordFactor_def split: sum.splits prod.splits option.splits if_splits)
  show "loadByEmail E (faults LLoad) email db = Inr row" "bc_match E (ad_PasswordHash row) password" "ad_DisabledAt row = None"
    by (rule l b)+
  show "\<And>lu. ad_LockedUntil row = Some lu \<Longrightarrow> lu \<le> clk LCheck"
    using l(2) by (auto simp: checkLock_def split: if_splits)
  have d: "d = (case ad_LockedUntil row of None \<Rightarrow> db | Some _ \<Rightarrow> clearExpiredLock (faults LClear) (clk LClear) (ad_ID row) db)"
    using l(2) by (auto simp: checkLock_def split: option.splits if_splits)
  have in_db: "row \<in> set (t_rows (adb_admins db))"
    using l(1) by (auto simp: loadByEmail_def split: if_splits option.splits dest: find_Some_in)
  have wf: "tbl_wf ad_ID ad_Email (adb_admins db)" using assms(1) by (simp add: adm_ok_def)
  have row: "admin_by_id db (ad_ID row) = Some row"
    unfolding admin_by_id_def using at.find_id_unique [OF wf in_db] by simp
  have okd: "adm_ok d"
    using adm_ok_step [OF assms(1), of E "AClear (faults LClear) (clk LClear) (ad_ID row)"] assms(1) by (auto simp: d split: option.split)
  show "ad_FailedAttempts row < MaxFailedAttempts" if "ad_LockedUntil row = None"
    using reserve_view(1) [OF okd r] row that by (auto simp: d view_def lock_of_def)
  show "adm_ok db1" using adm_ok_step [OF okd, of E "AReserve (faults LReserve) (clk LReserve) (ad_ID row)"] r by simp
  have keep: "view g db1 (ad_ID row) = Some (g row)"
    if "\<And>a f u. g (a\<lparr>ad_FailedAttempts := f, ad_UpdatedAt := u\<rparr>) = g a"
      "\<And>a f t u. g (a\<lparr>ad_FailedAttempts := f, ad_LockedUntil := t, ad_UpdatedAt := u\<rparr>) = g a" for g :: "adminRow \<Rightarrow> 'v"
  proof -
    have "view g d (ad_ID row) = Some (g row)"
      using row that(2) by (auto simp: d clearExpiredLock_def view_upd split: option.split) (auto simp: view_def)
    moreover have "db1 = snd (upd_admins (\<lambda>a. ad_ID a = ad_ID row \<and> ad_FailedAttempts a < MaxFailedAttempts)
        (\<lambda>a. a\<lparr>ad_FailedAttempts := ad_FailedAttempts a + 1, ad_UpdatedAt := clk LReserve\<rparr>) d)"
      using r by (auto simp: reserveAttempt_def case_prod_beta split: if_splits)
    ultimately show ?thesis using that(1) by (cases "admin_by_id d (ad_ID row)") (auto simp: view_upd, auto simp: view_def)
  qed
  show "view ad_TOTPLastStep db1 (ad_ID row) = Some (ad_TOTPLastStep row)"
    "view ad_TOTPRecoveryCodesEnc db1 (ad_ID row) = Some (ad_TOTPRecoveryCodesEnc row)" by (simp_all add: keep)
qed

lemma VerifyStep_True:
  assumes "VerifyStep hmac secret code t = Some (stp, True)"
  shows "\<exists>raw. Bytes secret = Some raw \<and> \<bar>stp - unix_step t\<bar> \<le> 1 \<and> generate hmac raw stp = TrimSpace code"
proof -
  obtain raw where raw: "Bytes secret = Some raw" using assms by (cases "Bytes secret") (simp_all add: VerifyStep_def)
  obtain d where "find (\<lambda>delta. generate hmac raw (unix_step t + delta) = TrimSpace code) [-1, 0, 1] = Some d" "stp = unix_step t + d"
    using assms unfolding VerifyStep_raw [OF raw] by (auto split: option.splits)
  then show ?thesis using raw by (auto split: if_splits)
qed

lemma take_first_mem: "take_first P xs = (ys, True) \<Longrightarrow> \<exists>x\<in>set xs. P x"
  by (induction xs arbitrary: ys) (auto simp: Let_def split: if_splits prod.splits)

lemma recovery_success:
  assumes "adm_ok db" "ConsumeRecoveryCode E faults clk rnd i code db = (None, db')"
    and "view ad_TOTPRecoveryCodesEnc db i = Some enc"
  shows "\<exists>cs c. stored_codes E i enc = Some cs \<and> c \<in> set cs \<and> EqualFold (ev_folds E) (TrimSpace c) (recovery_want (ev_U E) code)"
proof -
  obtain row nxt where r: "loadByID (faults LLoadCodes) i db = Inr row" "recovery_next E row code = Inr nxt"
    using assms(2) by (auto simp: ConsumeRecoveryCode_def split: sum.splits)
  have "admin_by_id db i = Some row" using r(1) by (auto simp: loadByID_def split: if_splits option.splits)
  then have "ad_TOTPRecoveryCodesEnc row = enc" "ad_ID row = i"
    using assms(3) loadByID_id [OF r(1)] by (simp_all add: view_def)
  then obtain cs where "stored_codes E i enc = Some cs" "spends E cs code nxt" using recovery_next_Inr [OF r(2)] by auto
  then show ?thesis unfolding spends_def ConsumeRecovery_def using take_first_mem by blast
qed

text \<open>
  C12. Nobody is let in without the factors: a login that succeeds names a stored account whose
  password hash matches, which is enabled, not locked at the time of the check, and had an attempt
  left; and either the account has no second factor yet and the answer demands enrolment, or one of
  the account's stored recovery codes was typed, or the typed code is the TOTP code of the stored
  secret for the current time step or a neighbour, for a step later than the last one used.
\<close>

theorem authentication_sound:
  assumes "adm_ok db" "Authenticate E faults clk rnd email password code db = (LoggedIn res, db')"
  shows "\<exists>row. loadByEmail E (faults LLoad) email db = Inr row \<and> ar_Admin res = toAdmin row
    \<and> bc_match E (ad_PasswordHash row) password \<and> ad_DisabledAt row = None
    \<and> (case ad_LockedUntil row of None \<Rightarrow> ad_FailedAttempts row < MaxFailedAttempts | Some lu \<Rightarrow> lu \<le> clk LCheck)
    \<and> (if ar_NeedsTOTPEnrollment res then ad_ForceTOTPEnroll row \<or> ad_TOTPSecretEnc row = []
       else if ar_UsedRecoveryCode res then
         \<exists>cs c. stored_codes E (ad_ID row) (ad_TOTPRecoveryCodesEnc row) = Some cs \<and> c \<in> set cs
            \<and> EqualFold (ev_folds E) (TrimSpace c) (recovery_want (ev_U E) code)
       else
         \<exists>secret raw stp. Open (ev_box E) (ad_TOTPSecretEnc row) (adminAAD E (ad_ID row)) = Some secret \<and> Bytes secret = Some raw
            \<and> \<bar>stp - unix_step (clk LTotp)\<bar> \<le> 1 \<and> TrimSpace code = generate (ev_hmac1 E) raw stp \<and> ad_TOTPLastStep row < stp)"
proof -
  obtain row db1 where v: "verifyPasswordFactor E faults clk email password db = (Inr row, db1)"
    using assms(2) by (auto simp: Authenticate_def split: prod.splits sum.splits)
  note f = verifyPasswordFactor_Inr [OF assms(1) v]
  have lock: "case ad_LockedUntil row of None \<Rightarrow> ad_FailedAttempts row < MaxFailedAttempts | Some lu \<Rightarrow> lu \<le> clk LCheck"
    using f(4,5) by (auto split: option.split)
  consider (enrol) "ad_ForceTOTPEnroll row \<or> ad_TOTPSecretEnc row = []" "LoggedIn res = success_out row True False"
    | (recovery) "authenticateRecoveryCode E faults clk rnd row code db1 = (LoggedIn res, db')"
    | (totp) "authenticateTOTP E faults clk row code db1 = (LoggedIn res, db')"
    using assms(2) v by (auto simp: Authenticate_def split: if_splits)
  then show ?thesis
  proof cases
    case enrol
    then have "ar_Admin res = toAdmin row" "ar_NeedsTOTPEnrollment res" by (simp_all add: success_out_def)
    then show ?thesis using enrol(1) f(1-3) lock by (intro exI [of _ row]) simp
  next
    case recovery
    then obtain db2 where c: "ConsumeRecoveryCode E faults clk rnd (ad_ID row) code db1 = (None, db2)" "LoggedIn res = success_out row False True"
      by (auto simp: authenticateRecoveryCode_def split: prod.splits option.splits if_splits)
    then have "ar_Admin res = toAdmin row" "\<not> ar_NeedsTOTPEnrollment res" "ar_UsedRecoveryCode res" by (simp_all add: success_out_def)
    then show ?thesis using recovery_success [OF f(6) c(1) f(8)] f(1-3) lock by (intro exI [of _ row]) simp
  next
    case totp
    then obtain secret stp db2 where c: "openTOTPSecret E row = Inr secret" "VerifyStep (ev_hmac1 E) secret code (clk LTotp) = Some (stp, True)"
      "UseTOTPStep (faults LUseStep) (clk LUseStep) (ad_ID row) stp db1 = (Inr True, db2)" "LoggedIn res = success_out row False False"
      by (auto simp: authenticateTOTP_def split: sum.splits option.splits prod.splits if_splits)
    have s: "Open (ev_box E) (ad_TOTPSecretEnc row) (adminAAD E (ad_ID row)) = Some secret"
      using c(1) by (auto simp: openTOTPSecret_def split: option.splits)
    have "ad_TOTPLastStep row < stp" using use_step_fresh [OF f(6) c(3)] f(7) by auto
    moreover have "ar_Admin res = toAdmin row" "\<not> ar_NeedsTOTPEnrollment res" "\<not> ar_UsedRecoveryCode res" using c(4) by (simp_all add: success_out_def)
    moreover obtain raw where "Bytes secret = Some raw" "\<bar>stp - unix_step (clk LTotp)\<bar> \<le> 1" "generate (ev_hmac1 E) raw stp = TrimSpace code"
      using VerifyStep_True [OF c(2)] by blast
    ultimately show ?thesis using f(1-3) lock s by (intro exI [of _ row]) (simp, metis)
  qed
qed

theorem authentication_sound_witness:
  "\<exists>res db' row. Authenticate toy_adm_env no_faults (\<lambda>_. 65 * second) None ''a@x.org'' ''pw1'' ''000002'' (as_db enrolled) = (LoggedIn res, db')
     \<and> loadByEmail toy_adm_env False ''a@x.org'' (as_db enrolled) = Inr row \<and> ad_ID row = 1 \<and> \<not> ar_NeedsTOTPEnrollment res
     \<and> bc_match toy_adm_env (ad_PasswordHash row) ''pw1'' \<and> ad_DisabledAt row = None"
proof -
  let ?a = "Authenticate toy_adm_env no_faults (\<lambda>_. 65 * second) None ''a@x.org'' ''pw1'' ''000002'' (as_db enrolled)"
  have "(case fst ?a of LoggedIn r \<Rightarrow> am_ID (ar_Admin r) = 1 \<and> \<not> ar_NeedsTOTPEnrollment r | _ \<Rightarrow> False)" by code_simp
  then obtain res db' where a: "?a = (LoggedIn res, db')" "am_ID (ar_Admin res) = 1" "\<not> ar_NeedsTOTPEnrollment res"
    by (cases ?a; cases "fst ?a") auto
  have "adm_ok (as_db enrolled)" using fresh_sane [OF enrolled_reached] by blast
  from authentication_sound [OF this a(1)] obtain row where
    "loadByEmail toy_adm_env (no_faults LLoad) ''a@x.org'' (as_db enrolled) = Inr row" "ar_Admin res = toAdmin row"
    "bc_match toy_adm_env (ad_PasswordHash row) ''pw1''" "ad_DisabledAt row = None" by blast
  then show ?thesis using a by (intro exI [of _ res] exI [of _ db'] exI [of _ row]) (simp add: toAdmin_def)
qed

end
