(* ===== verification/Net_Guard.thy ===== *)
theory Net_Guard
  imports SK_Prelude "HOL-Library.Word"
begin

text \<open>
  The outbound address policy of the audit sinks (\<open>internal/integrations/netguard.go\<close>): which
  resolved addresses a sink may dial. Addresses are those of \<open>net/netip\<close>: an IPv4 address, an
  IPv6 address with its zone, or the zero address; the predicates of \<open>netip.Addr\<close> and
  \<open>netip.Prefix.Contains\<close> are written out on machine words, zone handling included.
\<close>

unbundle bit_operations_syntax

section \<open>Addresses and prefixes\<close>

datatype addr = NoAddr | Addr4 "32 word" | Addr6 "128 word" string

datatype pfx = Pfx4 "32 word" nat | Pfx6 "128 word" nat

definition mask6 :: "nat \<Rightarrow> 128 word" where
  "mask6 n = NOT (mask (128 - n))"

text \<open>\<open>Contains\<close>: the families must agree, and an address with a zone is in no prefix.\<close>

fun Contains :: "pfx \<Rightarrow> addr \<Rightarrow> bool" where
  "Contains (Pfx4 b n) (Addr4 a) \<longleftrightarrow> drop_bit (32 - n) (a XOR b) = 0"
| "Contains (Pfx6 b n) (Addr6 a z) \<longleftrightarrow> z = [] \<and> (a XOR b) AND mask6 n = 0"
| "Contains _ _ \<longleftrightarrow> False"

fun Is6 :: "addr \<Rightarrow> bool" where
  "Is6 (Addr6 _ _) = True" | "Is6 _ = False"

fun Unmap :: "addr \<Rightarrow> addr" where
  "Unmap (Addr6 a z) = (if drop_bit 32 a = 0xFFFF then Addr4 (ucast a) else Addr6 a z)"
| "Unmap a = a"

fun IsLoopback :: "addr \<Rightarrow> bool" where
  "IsLoopback (Addr4 a) = (drop_bit 24 a = 127)" | "IsLoopback (Addr6 a z) = (a = 1)" | "IsLoopback NoAddr = False"

definition IsUnspecified :: "addr \<Rightarrow> bool" where
  "IsUnspecified ip \<longleftrightarrow> ip = Addr4 0 \<or> ip = Addr6 0 []"

fun IsMulticast :: "addr \<Rightarrow> bool" where
  "IsMulticast (Addr4 a) = (drop_bit 24 a AND 0xF0 = 0xE0)" | "IsMulticast (Addr6 a z) = (drop_bit 120 a = 0xFF)"
| "IsMulticast NoAddr = False"

fun IsLinkLocalUnicast :: "addr \<Rightarrow> bool" where
  "IsLinkLocalUnicast (Addr4 a) = (drop_bit 16 a = 0xA9FE)"
| "IsLinkLocalUnicast (Addr6 a z) = (drop_bit 112 a AND 0xFFC0 = 0xFE80)" | "IsLinkLocalUnicast NoAddr = False"

fun IsLinkLocalMulticast :: "addr \<Rightarrow> bool" where
  "IsLinkLocalMulticast (Addr4 a) = (drop_bit 8 a = 0xE00000)"
| "IsLinkLocalMulticast (Addr6 a z) = (drop_bit 112 a AND 0xFF0F = 0xFF02)" | "IsLinkLocalMulticast NoAddr = False"

fun IsInterfaceLocalMulticast :: "addr \<Rightarrow> bool" where
  "IsInterfaceLocalMulticast (Addr6 a z) = (drop_bit 112 a AND 0xFF0F = 0xFF01)" | "IsInterfaceLocalMulticast _ = False"

fun IsPrivate :: "addr \<Rightarrow> bool" where
  "IsPrivate (Addr4 a) \<longleftrightarrow> drop_bit 24 a = 10 \<or> drop_bit 16 a AND 0xFFF0 = 0xAC10 \<or> drop_bit 16 a = 0xC0A8"
| "IsPrivate (Addr6 a z) \<longleftrightarrow> drop_bit 120 a AND 0xFE = 0xFC" | "IsPrivate NoAddr \<longleftrightarrow> False"

section \<open>The policy\<close>

record netPolicy =
  AllowPrivate :: bool
  AllowPlainHTTP :: bool
  allowLoopback :: bool

datatype net_err = BadAddress | LocalAddress addr | ReservedAddress addr | PrivateAddress addr | EmbeddedIn net_err addr

definition nat64WellKnownPrefix :: pfx where "nat64WellKnownPrefix = Pfx6 0x0064FF9B000000000000000000000000 96"

definition nat64LocalPrefix :: pfx where "nat64LocalPrefix = Pfx6 0x0064FF9B000100000000000000000000 48"

definition sixToFourPrefix :: pfx where "sixToFourPrefix = Pfx6 0x20020000000000000000000000000000 16"

definition thisNetworkPrefix :: pfx where "thisNetworkPrefix = Pfx4 0 8"

definition alwaysBlockedPrefixes :: "pfx list" where
  "alwaysBlockedPrefixes = [Pfx4 0 8, Pfx4 0xFFFFFFFF 32, Pfx4 0x646464C8 32, Pfx6 0xFD000EC2000000000000000000000254 128]"

definition privatePrefixes :: "pfx list" where
  "privatePrefixes = [Pfx4 0x64400000 10, nat64LocalPrefix]"

text \<open>Byte \<open>i\<close> of \<open>As16\<close>, and \<open>AddrFrom4\<close> of four of them.\<close>

definition as16 :: "128 word \<Rightarrow> nat \<Rightarrow> 8 word" where
  "as16 a i = ucast (drop_bit (8 * (15 - i)) a)"

definition v4_at :: "128 word \<Rightarrow> nat \<Rightarrow> nat \<Rightarrow> nat \<Rightarrow> nat \<Rightarrow> addr" where
  "v4_at b i j k l = Addr4 (word_rcat [as16 b i, as16 b j, as16 b k, as16 b l])"

fun embeddedIPv4 :: "addr \<Rightarrow> addr list" where
  "embeddedIPv4 (Addr6 b z) =
     (if Contains nat64WellKnownPrefix (Addr6 b z) then [v4_at b 12 13 14 15]
      else if Contains nat64LocalPrefix (Addr6 b z) then
        filter (\<lambda>c. \<not> Contains thisNetworkPrefix c) [v4_at b 6 7 9 10, v4_at b 7 9 10 11, v4_at b 9 10 11 12, v4_at b 12 13 14 15]
      else if Contains sixToFourPrefix (Addr6 b z) then [v4_at b 2 3 4 5]
      else [])"
| "embeddedIPv4 _ = []"

fun first_error :: "('a \<Rightarrow> 'e option) \<Rightarrow> 'a list \<Rightarrow> 'e option" where
  "first_error f [] = None"
| "first_error f (x # xs) = (case f x of Some e \<Rightarrow> Some e | None \<Rightarrow> first_error f xs)"

lemma first_error_cong [fundef_cong]:
  "xs = ys \<Longrightarrow> (\<And>x. x \<in> set ys \<Longrightarrow> f x = g x) \<Longrightarrow> first_error f xs = first_error g ys"
  by (induction xs arbitrary: ys) (auto split: option.split)

lemma first_error_None: "first_error f xs = None \<longleftrightarrow> (\<forall>x\<in>set xs. f x = None)"
  by (induction xs) (auto split: option.split)

lemma v4_at_is4: "\<exists>a. v4_at b i j k l = Addr4 a"
  by (simp add: v4_at_def)

lemma embedded_is4: "a \<in> set (embeddedIPv4 ip) \<Longrightarrow> \<exists>x. a = Addr4 x"
  using v4_at_is4 by (cases ip) (auto split: if_splits)

function checkAddr :: "netPolicy \<Rightarrow> addr \<Rightarrow> net_err option" where
  "checkAddr p ip0 =
     (let ip = Unmap ip0
      in if ip = NoAddr then Some BadAddress
      else case first_error (checkAddr p) (embeddedIPv4 ip) of
        Some e \<Rightarrow> Some (EmbeddedIn e ip)
      | None \<Rightarrow>
          if IsLoopback ip \<and> allowLoopback p then None
          else if IsLoopback ip \<or> IsUnspecified ip \<or> IsMulticast ip \<or> IsLinkLocalUnicast ip \<or> IsLinkLocalMulticast ip
            \<or> IsInterfaceLocalMulticast ip then Some (LocalAddress ip)
          else if list_ex (\<lambda>pfx. Contains pfx ip) alwaysBlockedPrefixes then Some (ReservedAddress ip)
          else if (IsPrivate ip \<or> list_ex (\<lambda>pfx. Contains pfx ip) privatePrefixes) \<and> \<not> AllowPrivate p then Some (PrivateAddress ip)
          else None)"
  by pat_completeness auto
termination
proof (relation "measure (\<lambda>(p, ip). if Is6 ip then 1 else 0)", goal_cases)
  case (2 p ip0 ip v4)
  then obtain x where "v4 = Addr4 x" using embedded_is4 by blast
  moreover have "Is6 ip0" using 2 by (cases ip0) auto
  ultimately show ?case by simp
qed simp

declare checkAddr.simps [simp del]

section \<open>Tests on words as tests on numbers\<close>

lemma unat_drop: "unat (drop_bit n a) = unat a div 2 ^ n" for a :: "'a::len word"
  by (simp only: unat_drop_bit_eq) (simp add: drop_bit_eq_div)

lemma drop_bit_eq_iff: "drop_bit n a = c \<longleftrightarrow> unat a div 2 ^ n = unat c" for a c :: "'a::len word"
  by (simp only: word_unat_eq_iff unat_drop)

lemma drop_bit_xor_iff: "drop_bit n (a XOR b) = 0 \<longleftrightarrow> unat a div 2 ^ n = unat b div 2 ^ n" for a b :: "'a::len word"
proof -
  have "drop_bit n (a XOR b) = 0 \<longleftrightarrow> drop_bit n a = drop_bit n b"
    by (auto simp: drop_bit_xor bit_eq_iff bit_xor_iff)
  also have "\<dots> \<longleftrightarrow> unat a div 2 ^ n = unat b div 2 ^ n"
    by (simp only: drop_bit_eq_iff unat_drop)
  finally show ?thesis .
qed

lemma and_mask6_iff: "(a XOR b) AND mask6 n = 0 \<longleftrightarrow> unat a div 2 ^ (128 - n) = unat b div 2 ^ (128 - n)"
proof -
  have "x AND NOT (mask k) = 0 \<longleftrightarrow> drop_bit k x = 0" for x :: "128 word" and k
  proof
    assume z: "x AND NOT (mask k) = 0"
    show "drop_bit k x = 0"
    proof (rule bit_eqI)
      fix n
      have "bit x (k + n) \<Longrightarrow> bit (x AND NOT (mask k)) (k + n)"
        using bit_imp_le_length [of x "k + n"] by (simp add: bit_and_iff bit_not_iff bit_mask_iff)
      then show "bit (drop_bit k x) n = bit 0 n" using z by (auto simp: bit_drop_bit_eq)
    qed
  next
    assume z: "drop_bit k x = 0"
    show "x AND NOT (mask k) = 0"
    proof (rule bit_eqI)
      fix n
      have "bit x n \<Longrightarrow> k \<le> n \<Longrightarrow> bit (drop_bit k x) (n - k)" by (simp add: bit_drop_bit_eq)
      then show "bit (x AND NOT (mask k)) n = bit 0 n" using z
        by (cases "k \<le> n") (auto simp: bit_and_iff bit_not_iff bit_mask_iff dest: bit_imp_le_length)
    qed
  qed
  then show ?thesis by (simp only: mask6_def drop_bit_xor_iff)
qed

lemma and_high: "x < 2 ^ (j + m) \<Longrightarrow> x AND push_bit j (mask m) = push_bit j (drop_bit j x)" for x :: nat
proof (rule bit_eqI)
  fix n assume "x < 2 ^ (j + m)"
  then have "take_bit (j + m) x = x" by (simp add: take_bit_nat_eq_self)
  then have "bit x n \<Longrightarrow> n < j + m" by (metis bit_take_bit_iff)
  then show "bit (x AND push_bit j (mask m)) n = bit (push_bit j (drop_bit j x)) n"
    by (auto simp: bit_and_iff bit_push_bit_iff bit_mask_iff bit_drop_bit_eq)
qed

lemma unat_and_iff: "(a AND b) = c \<longleftrightarrow> unat a AND unat b = unat c" for a b c :: "'a::len word"
  by (simp add: word_unat_eq_iff unsigned_and_eq)

lemma and_high_iff:
  fixes a :: "'a::len word"
  assumes "LENGTH('a) = n + (j + m)" "unat b = push_bit j (mask m)" "unat c = push_bit j e"
  shows "drop_bit n a AND b = c \<longleftrightarrow> unat a div 2 ^ (n + j) = e"
proof -
  have "unat (drop_bit n a) < 2 ^ (j + m)"
    using unsigned_less [of a, where ?'a = nat] unfolding assms(1) unat_drop by (simp add: less_mult_imp_div_less power_add mult.commute)
  then have "drop_bit n a AND b = c \<longleftrightarrow> push_bit j (drop_bit j (unat (drop_bit n a))) = push_bit j e"
    by (simp add: unat_and_iff assms(2,3) and_high)
  also have "\<dots> \<longleftrightarrow> drop_bit j (unat (drop_bit n a)) = e" by (simp add: push_bit_eq_mult)
  also have "\<dots> \<longleftrightarrow> unat a div 2 ^ (n + j) = e"
    by (simp add: unat_drop drop_bit_eq_div [where ?'a = nat] div_mult2_eq power_add del: drop_bit_eq_iff)
  finally show ?thesis .
qed

lemma div_interval: "0 < (d::nat) \<Longrightarrow> x div d = q \<longleftrightarrow> q * d \<le> x \<and> x < (q + 1) * d"
  by (metis div_less_iff_less_mult less_Suc_eq_le less_eq_div_iff_mult_less_eq nat_less_le order_antisym_conv order_refl Suc_eq_plus1)

section \<open>Octets\<close>

definition octet :: "nat \<Rightarrow> nat \<Rightarrow> nat" where
  "octet x i = x div 256 ^ (15 - i) mod 256"

definition quad :: "nat \<Rightarrow> nat \<Rightarrow> nat \<Rightarrow> nat \<Rightarrow> nat \<Rightarrow> nat" where
  "quad x i j k l = ((octet x i * 256 + octet x j) * 256 + octet x k) * 256 + octet x l"

lemma unat_as16: "unat (as16 b i) = octet (unat b) i"
proof -
  have "(256::nat) ^ (15 - i) = 2 ^ (8 * (15 - i))" by (simp add: power_mult)
  then show ?thesis
    by (simp add: as16_def octet_def unsigned_ucast_eq unat_drop take_bit_eq_mod)
qed

lemma quad_less: "quad x i j k l < 2 ^ 32"
proof -
  have "octet x i < 256" "octet x j < 256" "octet x k < 256" "octet x l < 256" by (simp_all add: octet_def)
  then show ?thesis by (simp add: quad_def)
qed

lemma unat_v4_at: "v4_at b i j k l = Addr4 (of_nat (quad (unat b) i j k l))"
proof -
  have u: "uint (as16 b n) = int (octet (unat b) n)" for n by (simp add: uint_nat unat_as16)
  show ?thesis
  proof -
    have "word_rcat [as16 b i, as16 b j, as16 b k, as16 b l] = (word_of_int (int (quad (unat b) i j k l)) :: 32 word)"
      unfolding word_rcat_def comp_apply by (rule arg_cong [where f = word_of_int]) (simp add: u quad_def)
    then show ?thesis by (simp add: v4_at_def)
  qed
qed

section \<open>The documented ranges\<close>

text \<open>An IPv4 address as a number: \<open>0/8\<close>, loopback, link-local, multicast, broadcast and a metadata
  endpoint, and, unless private networks are allowed, the RFC 1918 and carrier-grade ranges.\<close>

definition refused4 :: "bool \<Rightarrow> nat \<Rightarrow> bool" where
  "refused4 priv x \<longleftrightarrow> x < 0x01000000 \<or> (0x7F000000 \<le> x \<and> x < 0x80000000) \<or> (0xA9FE0000 \<le> x \<and> x < 0xA9FF0000)
     \<or> (0xE0000000 \<le> x \<and> x < 0xF0000000) \<or> x = 0xFFFFFFFF \<or> x = 0x646464C8
     \<or> (\<not> priv \<and> ((0x0A000000 \<le> x \<and> x < 0x0B000000) \<or> (0xAC100000 \<le> x \<and> x < 0xAC200000)
           \<or> (0xC0A80000 \<le> x \<and> x < 0xC0A90000) \<or> (0x64400000 \<le> x \<and> x < 0x64800000)))"

text \<open>The IPv4 addresses an IPv6 address may stand for: mapped, NAT64 (the local-use prefix in the four
  layouts of RFC 6052, without those in \<open>0/8\<close>), 6to4.\<close>

definition translated :: "nat \<Rightarrow> nat list" where
  "translated x =
     (if x div 2 ^ 32 = 0xFFFF \<or> x div 2 ^ 32 = 0x0064FF9B0000000000000000 then [quad x 12 13 14 15]
      else if x div 2 ^ 80 = 0x0064FF9B0001 then
        filter (\<lambda>y. 0x01000000 \<le> y) [quad x 6 7 9 10, quad x 7 9 10 11, quad x 9 10 11 12, quad x 12 13 14 15]
      else if x div 2 ^ 112 = 0x2002 then [quad x 2 3 4 5] else [])"

definition refused6 :: "bool \<Rightarrow> nat \<Rightarrow> bool" where
  "refused6 priv x \<longleftrightarrow> list_ex (refused4 priv) (translated x) \<or> x = 0 \<or> x = 1
     \<or> (0xFE800000000000000000000000000000 \<le> x \<and> x < 0xFEC00000000000000000000000000000)
     \<or> 0xFF000000000000000000000000000000 \<le> x \<or> x = 0xFD000EC2000000000000000000000254
     \<or> (\<not> priv \<and> ((0xFC000000000000000000000000000000 \<le> x \<and> x < 0xFE000000000000000000000000000000) \<or> x div 2 ^ 80 = 0x0064FF9B0001))"

lemma contains4: "Contains (Pfx4 b n) (Addr4 a) \<longleftrightarrow> unat a div 2 ^ (32 - n) = unat b div 2 ^ (32 - n)"
  by (simp only: Contains.simps drop_bit_xor_iff)

lemma contains6: "Contains (Pfx6 b n) (Addr6 a []) \<longleftrightarrow> unat a div 2 ^ (128 - n) = unat b div 2 ^ (128 - n)"
  by (simp add: and_mask6_iff)

declare Contains.simps(1,2) [simp del]

lemma unat4: "unat (a :: 32 word) < 0x100000000"
  using unsigned_less [of a, where ?'a = nat] by simp

lemma unat6: "unat (a :: 128 word) < 0x100000000000000000000000000000000"
  using unsigned_less [of a, where ?'a = nat] by simp

lemma multicast4: "drop_bit 24 a AND 0xF0 = 0xE0 \<longleftrightarrow> unat a div 2 ^ 28 = 0xE" for a :: "32 word"
  by (subst and_high_iff [where j = 4 and m = 4 and e = 14]) (simp_all add: mask_eq_exp_minus_1 push_bit_eq_mult)

lemma private4: "drop_bit 16 a AND 0xFFF0 = 0xAC10 \<longleftrightarrow> unat a div 2 ^ 20 = 0xAC1" for a :: "32 word"
  by (subst and_high_iff [where j = 4 and m = 12 and e = "0xAC1"]) (simp_all add: mask_eq_exp_minus_1 push_bit_eq_mult)

lemma linklocal6: "drop_bit 112 a AND 0xFFC0 = 0xFE80 \<longleftrightarrow> unat a div 2 ^ 118 = 0x3FA" for a :: "128 word"
  by (subst and_high_iff [where j = 6 and m = 10 and e = "0x3FA"]) (simp_all add: mask_eq_exp_minus_1 push_bit_eq_mult)

lemma private6: "drop_bit 120 a AND 0xFE = 0xFC \<longleftrightarrow> unat a div 2 ^ 121 = 0x7E" for a :: "128 word"
  by (subst and_high_iff [where j = 1 and m = 7 and e = "0x7E"]) (simp_all add: mask_eq_exp_minus_1 push_bit_eq_mult)

text \<open>The scoped multicast tests add nothing to the general one.\<close>

lemma scoped_multicast6:
  fixes a c :: "128 word"
  assumes "drop_bit 112 a AND 0xFF0F = c" "c = 0xFF01 \<or> c = 0xFF02"
  shows "drop_bit 120 a = 0xFF"
proof -
  have "drop_bit 8 (drop_bit 112 a AND 0xFF0F) = drop_bit 8 c" using assms(1) by simp
  then have "drop_bit 120 a AND 0xFF = 0xFF" using assms(2) by (auto simp: drop_bit_and)
  then have "unat a div 2 ^ 120 = 0xFF"
    by (subst (asm) and_high_iff [where j = 0 and m = 8 and e = "0xFF"]) (simp_all add: mask_eq_exp_minus_1)
  then show ?thesis by (simp add: drop_bit_eq_iff)
qed

lemma check4:
  assumes "\<not> allowLoopback p"
  shows "checkAddr p (Addr4 a) = None \<longleftrightarrow> \<not> refused4 (AllowPrivate p) (unat a)"
proof -
  let ?x = "unat a"
  have "list_ex (\<lambda>pfx. Contains pfx (Addr4 a)) alwaysBlockedPrefixes \<longleftrightarrow> ?x div 2 ^ 24 = 0 \<or> ?x = 0xFFFFFFFF \<or> ?x = 0x646464C8"
    by (simp add: alwaysBlockedPrefixes_def contains4)
  moreover have "list_ex (\<lambda>pfx. Contains pfx (Addr4 a)) privatePrefixes \<longleftrightarrow> ?x div 2 ^ 22 = 0x191"
    by (simp add: privatePrefixes_def nat64LocalPrefix_def contains4)
  ultimately have "checkAddr p (Addr4 a) = None \<longleftrightarrow>
      \<not> (?x div 2 ^ 24 = 127 \<or> a = 0 \<or> ?x div 2 ^ 28 = 0xE \<or> ?x div 2 ^ 16 = 0xA9FE \<or> ?x div 2 ^ 8 = 0xE00000
         \<or> ?x div 2 ^ 24 = 0 \<or> ?x = 0xFFFFFFFF \<or> ?x = 0x646464C8
         \<or> ((?x div 2 ^ 24 = 10 \<or> ?x div 2 ^ 20 = 0xAC1 \<or> ?x div 2 ^ 16 = 0xC0A8 \<or> ?x div 2 ^ 22 = 0x191) \<and> \<not> AllowPrivate p))"
    using assms by (simp add: checkAddr.simps Let_def IsUnspecified_def multicast4 private4 drop_bit_eq_iff)
  also have "\<dots> \<longleftrightarrow> \<not> refused4 (AllowPrivate p) ?x"
  proof -
    have z: "a = 0 \<longleftrightarrow> ?x = 0" by (simp add: unat_eq_0)
    have d: "?x div 2 ^ 24 = 127 \<longleftrightarrow> 0x7F000000 \<le> ?x \<and> ?x < 0x80000000" "?x div 2 ^ 24 = 0 \<longleftrightarrow> ?x < 0x01000000"
      "?x div 2 ^ 24 = 10 \<longleftrightarrow> 0x0A000000 \<le> ?x \<and> ?x < 0x0B000000" "?x div 2 ^ 28 = 0xE \<longleftrightarrow> 0xE0000000 \<le> ?x \<and> ?x < 0xF0000000"
      "?x div 2 ^ 16 = 0xA9FE \<longleftrightarrow> 0xA9FE0000 \<le> ?x \<and> ?x < 0xA9FF0000" "?x div 2 ^ 8 = 0xE00000 \<longleftrightarrow> 0xE0000000 \<le> ?x \<and> ?x < 0xE0000100"
      "?x div 2 ^ 20 = 0xAC1 \<longleftrightarrow> 0xAC100000 \<le> ?x \<and> ?x < 0xAC200000" "?x div 2 ^ 16 = 0xC0A8 \<longleftrightarrow> 0xC0A80000 \<le> ?x \<and> ?x < 0xC0A90000"
      "?x div 2 ^ 22 = 0x191 \<longleftrightarrow> 0x64400000 \<le> ?x \<and> ?x < 0x64800000" by (simp_all add: div_interval)
    show ?thesis unfolding refused4_def z d by (cases "AllowPrivate p") (simp_all only: simp_thms, linarith+)
  qed
  finally show ?thesis .
qed

lemma unat_quad: "unat (of_nat (quad x i j k l) :: 32 word) = quad x i j k l"
  using quad_less [of x i j k l] by (simp add: unat_of_nat take_bit_eq_mod)

lemma quad_low: "quad x 12 13 14 15 = x mod 2 ^ 32"
proof -
  have m: "y mod (256 * n) = 256 * (y div 256 mod n) + y mod 256" for y n :: nat by (rule mod_mult2_eq)
  have d: "x div 256 div 256 = x div 256 ^ 2" "x div 256 ^ 2 div 256 = x div 256 ^ 3" by (simp_all add: div_mult2_eq)
  have "x mod 2 ^ 32 = x mod (256 * (256 * (256 * 256)))" by simp
  also have "\<dots> = 256 * (256 * (256 * (x div 256 ^ 3 mod 256) + x div 256 ^ 2 mod 256) + x div 256 mod 256) + x mod 256"
    unfolding m d by simp
  finally show ?thesis by (simp add: quad_def octet_def algebra_simps)
qed

lemma thisNetwork_v4: "Contains thisNetworkPrefix (v4_at b i j k l) \<longleftrightarrow> quad (unat b) i j k l < 0x01000000"
  by (simp add: thisNetworkPrefix_def unat_v4_at contains4 unat_quad div_interval)

lemma check_v4_at:
  "\<not> allowLoopback p \<Longrightarrow> checkAddr p (v4_at b i j k l) = None \<longleftrightarrow> \<not> refused4 (AllowPrivate p) (quad (unat b) i j k l)"
  by (simp add: unat_v4_at check4 unat_quad)

lemma embedded6:
  assumes "\<not> allowLoopback p" "unat a div 2 ^ 32 \<noteq> 0xFFFF"
  shows "first_error (checkAddr p) (embeddedIPv4 (Addr6 a [])) = None \<longleftrightarrow> \<not> list_ex (refused4 (AllowPrivate p)) (translated (unat a))"
proof -
  let ?x = "unat a"
  have c: "Contains nat64WellKnownPrefix (Addr6 a []) \<longleftrightarrow> ?x div 2 ^ 32 = 0x0064FF9B0000000000000000"
    "Contains nat64LocalPrefix (Addr6 a []) \<longleftrightarrow> ?x div 2 ^ 80 = 0x0064FF9B0001"
    "Contains sixToFourPrefix (Addr6 a []) \<longleftrightarrow> ?x div 2 ^ 112 = 0x2002"
    by (simp_all add: nat64WellKnownPrefix_def nat64LocalPrefix_def sixToFourPrefix_def contains6)
  show ?thesis
    unfolding first_error_None embeddedIPv4.simps translated_def c using assms
    by (auto simp: check_v4_at thisNetwork_v4 not_less)
qed

lemma check6:
  assumes "\<not> allowLoopback p"
  shows "checkAddr p (Addr6 a []) = None \<longleftrightarrow> \<not> refused6 (AllowPrivate p) (unat a)"
proof (cases "unat a div 2 ^ 32 = 0xFFFF")
  case True
  let ?x = "unat a"
  have "unat (ucast a :: 32 word) = quad ?x 12 13 14 15" by (simp add: unsigned_ucast_eq take_bit_eq_mod quad_low)
  moreover have "checkAddr p (Addr6 a []) = checkAddr p (Addr4 (ucast a))"
    using True by (simp add: checkAddr.simps [of _ "Addr6 _ _"] checkAddr.simps [of _ "Addr4 _"] drop_bit_eq_iff)
  moreover have "refused6 (AllowPrivate p) ?x \<longleftrightarrow> refused4 (AllowPrivate p) (quad ?x 12 13 14 15)"
    using True by (auto simp: refused6_def translated_def div_interval)
  ultimately show ?thesis using check4 [OF assms] by simp
next
  case False
  let ?x = "unat a"
  have "list_ex (\<lambda>pfx. Contains pfx (Addr6 a [])) alwaysBlockedPrefixes \<longleftrightarrow> ?x = 0xFD000EC2000000000000000000000254"
    by (simp add: alwaysBlockedPrefixes_def contains6)
  moreover have "list_ex (\<lambda>pfx. Contains pfx (Addr6 a [])) privatePrefixes \<longleftrightarrow> ?x div 2 ^ 80 = 0x0064FF9B0001"
    by (simp add: privatePrefixes_def nat64LocalPrefix_def contains6)
  moreover have t: "IsLoopback (Addr6 a []) \<longleftrightarrow> ?x = 1" "IsUnspecified (Addr6 a []) \<longleftrightarrow> ?x = 0" "IsMulticast (Addr6 a []) \<longleftrightarrow> ?x div 2 ^ 120 = 0xFF"
    "IsLinkLocalUnicast (Addr6 a []) \<longleftrightarrow> ?x div 2 ^ 118 = 0x3FA" "IsPrivate (Addr6 a []) \<longleftrightarrow> ?x div 2 ^ 121 = 0x7E"
    using word_unat_eq_iff [of a 0] word_unat_eq_iff [of a 1] by (simp_all add: IsUnspecified_def drop_bit_eq_iff linklocal6 private6)
  moreover have "IsLinkLocalMulticast (Addr6 a []) \<or> IsInterfaceLocalMulticast (Addr6 a []) \<Longrightarrow> IsMulticast (Addr6 a [])"
    using scoped_multicast6 [of a] by auto
  moreover have "checkAddr p (Addr6 a []) = None \<longleftrightarrow> first_error (checkAddr p) (embeddedIPv4 (Addr6 a [])) = None
      \<and> \<not> (IsLoopback (Addr6 a []) \<or> IsUnspecified (Addr6 a []) \<or> IsMulticast (Addr6 a []) \<or> IsLinkLocalUnicast (Addr6 a [])
            \<or> IsLinkLocalMulticast (Addr6 a []) \<or> IsInterfaceLocalMulticast (Addr6 a []))
      \<and> \<not> list_ex (\<lambda>pfx. Contains pfx (Addr6 a [])) alwaysBlockedPrefixes
      \<and> \<not> ((IsPrivate (Addr6 a []) \<or> list_ex (\<lambda>pfx. Contains pfx (Addr6 a [])) privatePrefixes) \<and> \<not> AllowPrivate p)"
    using False assms by (subst checkAddr.simps)
      (simp add: drop_bit_eq_iff Let_def del: embeddedIPv4.simps IsLoopback.simps IsMulticast.simps IsLinkLocalUnicast.simps
        IsLinkLocalMulticast.simps IsInterfaceLocalMulticast.simps IsPrivate.simps split: option.split)
  ultimately have "checkAddr p (Addr6 a []) = None \<longleftrightarrow> \<not> list_ex (refused4 (AllowPrivate p)) (translated ?x)
      \<and> \<not> (?x = 1 \<or> ?x = 0 \<or> ?x div 2 ^ 120 = 0xFF \<or> ?x div 2 ^ 118 = 0x3FA) \<and> ?x \<noteq> 0xFD000EC2000000000000000000000254
      \<and> \<not> ((?x div 2 ^ 121 = 0x7E \<or> ?x div 2 ^ 80 = 0x0064FF9B0001) \<and> \<not> AllowPrivate p)"
    unfolding embedded6 [OF assms False] t by blast
  also have "\<dots> \<longleftrightarrow> \<not> refused6 (AllowPrivate p) ?x"
  proof -
    have d: "?x div 2 ^ 120 = 0xFF \<longleftrightarrow> 0xFF000000000000000000000000000000 \<le> ?x"
      using unat6 [of a] by (simp add: div_interval)
    have e: "?x div 2 ^ 118 = 0x3FA \<longleftrightarrow> 0xFE800000000000000000000000000000 \<le> ?x \<and> ?x < 0xFEC00000000000000000000000000000"
      "?x div 2 ^ 121 = 0x7E \<longleftrightarrow> 0xFC000000000000000000000000000000 \<le> ?x \<and> ?x < 0xFE000000000000000000000000000000"
      by (simp_all add: div_interval)
    show ?thesis unfolding refused6_def d e by blast
  qed
  finally show ?thesis .
qed

section \<open>The dialer hook\<close>

datatype dial_err = BadEndpoint string | NotAnIP string | Blocked net_err

text \<open>\<open>control\<close> sees the resolved endpoint; \<open>split_host_port\<close> and \<open>parse_addr\<close> stand for
  \<open>net.SplitHostPort\<close> and \<open>netip.ParseAddr\<close>.\<close>

definition control ::
  "(string \<Rightarrow> (string \<times> string) option) \<Rightarrow> (string \<Rightarrow> addr option) \<Rightarrow> netPolicy \<Rightarrow> string \<Rightarrow> dial_err option" where
  "control split_host_port parse_addr p address =
     (case split_host_port address of None \<Rightarrow> Some (BadEndpoint address)
      | Some (host, _) \<Rightarrow>
          (case parse_addr host of None \<Rightarrow> Some (NotAnIP host)
           | Some ip \<Rightarrow> map_option Blocked (checkAddr p ip)))"

section \<open>Properties\<close>

text \<open>
  C30. Sinks dial exactly the documented addresses: whatever the endpoint text, a connection is let
  through to an address without a zone if and only if that address, read as a number, lies in
  none of the refused ranges (loopback, link-local, unspecified, multicast, reserved and metadata
  endpoints, private ranges unless allowed), and none of the IPv4 addresses it is translated to
  (mapped, NAT64 in every layout, 6to4) does.
\<close>

theorem sinks_dial_exactly_allowed_addresses:
  assumes "\<not> allowLoopback p" "split address = Some (host, port)" "parse host = Some ip" "\<forall>a z. ip = Addr6 a z \<longrightarrow> z = []"
  shows "control split parse p address = None \<longleftrightarrow>
    (case ip of NoAddr \<Rightarrow> False | Addr4 a \<Rightarrow> \<not> refused4 (AllowPrivate p) (unat a) | Addr6 a z \<Rightarrow> \<not> refused6 (AllowPrivate p) (unat a))"
proof (cases ip)
  case NoAddr
  then show ?thesis using assms by (simp add: control_def checkAddr.simps)
next
  case (Addr4 a)
  then show ?thesis using assms check4 by (simp add: control_def)
next
  case (Addr6 a z)
  then show ?thesis using assms check6 by (simp add: control_def)
qed

definition toy_parse :: "string \<Rightarrow> addr option" where
  "toy_parse s = (if s = ''meta'' then Some (Addr6 0x0064FF9B0000000000000000A9FEA9FE [])
     else if s = ''dns'' then Some (Addr4 0x08080808) else None)"

definition strict_policy :: netPolicy where
  "strict_policy = \<lparr>AllowPrivate = False, AllowPlainHTTP = False, allowLoopback = False\<rparr>"

theorem sinks_dial_exactly_allowed_addresses_witness:
  "control (\<lambda>s. Some (s, ''443'')) toy_parse strict_policy ''dns'' = None
   \<and> control (\<lambda>s. Some (s, ''443'')) toy_parse strict_policy ''meta'' \<noteq> None"
proof -
  note t = sinks_dial_exactly_allowed_addresses [of strict_policy "\<lambda>s. Some (s, ''443'')" _ _ _ toy_parse]
  have "\<not> refused4 False (unat (0x08080808 :: 32 word))" by (simp add: refused4_def)
  moreover have "refused6 False (unat (0x0064FF9B0000000000000000A9FEA9FE :: 128 word))"
    by (simp add: refused6_def translated_def quad_low refused4_def)
  ultimately show ?thesis using t [of "''dns''" "''dns''"] t [of "''meta''" "''meta''"]
    by (simp add: strict_policy_def toy_parse_def)
qed

text \<open>
  C38. A zone takes an address out of the guard's sight: \<open>Prefix.Contains\<close> answers no for an address
  with a zone, so every address of the NAT64 prefix passes, whatever IPv4 address it stands for;
  with private ranges allowed, so does the metadata endpoint \<open>fd00:ec2::254\<close>.
\<close>

theorem zoned_addresses_evade_the_guard:
  assumes "z \<noteq> []"
  shows "(unat a div 2 ^ 32 = 0x0064FF9B0000000000000000 \<longrightarrow> checkAddr p (Addr6 a z) = None)
    \<and> (AllowPrivate p \<longrightarrow> checkAddr p (Addr6 0xFD000EC2000000000000000000000254 z) = None)"
proof -
  have no: "\<not> Contains q (Addr6 b z)" for q b using assms by (cases q) (simp_all add: Contains.simps)
  have pass: "checkAddr p (Addr6 b z) = None"
    if "unat b div 2 ^ 32 \<noteq> 0xFFFF" "unat b \<noteq> 1" "unat b div 2 ^ 120 \<noteq> 0xFF" "unat b div 2 ^ 118 \<noteq> 0x3FA"
      "unat b div 2 ^ 121 \<noteq> 0x7E \<or> AllowPrivate p" for b
  proof -
    have "b \<noteq> 1" using that(2) by auto
    moreover have "\<not> IsMulticast (Addr6 b z)" "\<not> IsLinkLocalUnicast (Addr6 b z)" "IsPrivate (Addr6 b z) \<longrightarrow> AllowPrivate p"
      using that(3-5) by (simp_all add: drop_bit_eq_iff linklocal6 private6)
    moreover have "\<not> IsLinkLocalMulticast (Addr6 b z)" "\<not> IsInterfaceLocalMulticast (Addr6 b z)"
      using scoped_multicast6 [of b] calculation(2) by auto
    ultimately show ?thesis
      using that(1) assms no by (subst checkAddr.simps) (simp add: Let_def drop_bit_eq_iff IsUnspecified_def list_ex_iff)
  qed
  have "checkAddr p (Addr6 a z) = None" if "unat a div 2 ^ 32 = 0x0064FF9B0000000000000000"
    using that by (intro pass) (auto simp: div_interval)
  moreover have "checkAddr p (Addr6 0xFD000EC2000000000000000000000254 z) = None" if "AllowPrivate p"
    using that by (intro pass) simp_all
  ultimately show ?thesis by blast
qed

theorem zoned_addresses_evade_the_guard_witness:
  "checkAddr strict_policy (Addr6 0x0064FF9B0000000000000000A9FEA9FE ''eth0'') = None
   \<and> checkAddr strict_policy (Addr6 0x0064FF9B0000000000000000A9FEA9FE []) \<noteq> None"
proof -
  have "refused6 False (unat (0x0064FF9B0000000000000000A9FEA9FE :: 128 word))"
    by (simp add: refused6_def translated_def quad_low refused4_def)
  then show ?thesis
    using zoned_addresses_evade_the_guard [of "''eth0''" "0x0064FF9B0000000000000000A9FEA9FE" strict_policy]
      check6 [of strict_policy "0x0064FF9B0000000000000000A9FEA9FE"] by (simp add: strict_policy_def)
qed

end
