(* ===== verification/Integrations.thy ===== *)
theory Integrations
  imports Go_Json Crypto_Box Net_Guard
begin

text \<open>
  The audit sinks as stored (\<open>internal/integrations/integrations.go\<close>) and as built from a stored
  row (\<open>sink.go\<close>, and the validation of \<open>sink_http.go\<close>). The JSON decoder, \<open>url.Parse\<close>,
  \<open>net.SplitHostPort\<close> and SHA-256 are parameters, collected in \<open>int_env\<close>; the box is the AEAD of
  \<open>Crypto_Box\<close>.
\<close>

section \<open>Configurations\<close>

record webhookConfig =
  wh_URL :: string
  wh_Headers :: "(string \<times> string) list"
  wh_BearerToken :: string
  wh_BasicUser :: string
  wh_BasicPass :: string
  wh_TimeoutSec :: int

record splunkConfig =
  sp_URL :: string
  sp_Token :: string
  sp_Index :: string
  sp_Sourcetype :: string
  sp_Source :: string
  sp_TimeoutSec :: int
  sp_InsecureTLS :: bool

record sentinelConfig =
  se_WorkspaceID :: string
  se_SharedKey :: string
  se_LogType :: string
  se_TimeoutSec :: int

record elasticConfig =
  el_URL :: string
  el_Index :: string
  el_APIKey :: string
  el_BearerToken :: string
  el_TimeoutSec :: int

record syslogConfig =
  sy_Address :: string
  sy_Network :: string
  sy_Facility :: int
  sy_Hostname :: string
  sy_AppName :: string
  sy_TimeoutSec :: int

text \<open>What the validation reads of a parsed URL.\<close>

record url =
  u_Scheme :: string
  u_Hostname :: string
  u_User :: bool

record int_env =
  ie_box :: "aead option"
  ie_sha :: "string \<Rightarrow> string"
  ie_pol :: netPolicy
  dec_webhook :: "string \<Rightarrow> webhookConfig option"
  dec_splunk :: "string \<Rightarrow> splunkConfig option"
  dec_sentinel :: "string \<Rightarrow> sentinelConfig option"
  dec_elastic :: "string \<Rightarrow> elasticConfig option"
  dec_syslog :: "string \<Rightarrow> syslogConfig option"
  dec_filters :: "string \<Rightarrow> (string list \<times> bool) option"
  json_probe :: "string \<Rightarrow> bool option"
  url_parse :: "string \<Rightarrow> url option"
  split_host_port :: "string \<Rightarrow> (string \<times> string) option"

datatype int_err = ErrNotFound | ErrAlreadyExists | ErrInvalidKind | ErrInvalidConfig | ErrNoCryptobox | ErrSeal | ErrDriver

definition KindWebhook :: string where "KindWebhook = ''webhook''"
definition KindSplunk :: string where "KindSplunk = ''splunk''"
definition KindSentinel :: string where "KindSentinel = ''sentinel''"
definition KindElastic :: string where "KindElastic = ''elastic''"
definition KindSyslog :: string where "KindSyslog = ''syslog''"

lemmas kind_defs = KindWebhook_def KindSplunk_def KindSentinel_def KindElastic_def KindSyslog_def

definition validateKind :: "string \<Rightarrow> int_err option" where
  "validateKind k = (if k = KindWebhook \<or> k = KindSplunk \<or> k = KindSentinel \<or> k = KindElastic \<or> k = KindSyslog
     then None else Some ErrInvalidKind)"

definition canonJSON :: "string \<Rightarrow> string" where
  "canonJSON s = (if TrimSpace s = [] then ''{}'' else s)"

definition validateJSONObject :: "int_env \<Rightarrow> string \<Rightarrow> int_err option" where
  "validateJSONObject E raw =
     (if TrimSpace raw = [] then None
      else case json_probe E raw of None \<Rightarrow> Some ErrInvalidConfig
      | Some object \<Rightarrow> if \<not> object then Some ErrInvalidConfig else None)"

definition unmarshalConfig :: "(string \<Rightarrow> 'c option) \<Rightarrow> string \<Rightarrow> int_err + 'c" where
  "unmarshalConfig dec raw =
     (case dec (if raw = [] then ''{}'' else raw) of None \<Rightarrow> Inl ErrInvalidConfig | Some c \<Rightarrow> Inr c)"

definition validateHTTPURL :: "int_env \<Rightarrow> string \<Rightarrow> bool \<Rightarrow> int_err option" where
  "validateHTTPURL E raw allowPlain =
     (case url_parse E (TrimSpace raw) of
        None \<Rightarrow> Some ErrInvalidConfig
      | Some u \<Rightarrow>
          if u_Scheme u \<noteq> ''http'' \<and> u_Scheme u \<noteq> ''https'' then Some ErrInvalidConfig
          else if u_Scheme u = ''http'' \<and> \<not> allowPlain then Some ErrInvalidConfig
          else if u_Hostname u = [] then Some ErrInvalidConfig
          else if u_User u then Some ErrInvalidConfig
          else None)"

definition hex_char :: "char \<Rightarrow> bool" where
  "hex_char c \<longleftrightarrow> (48 \<le> byte c \<and> byte c \<le> 57) \<or> (97 \<le> byte c \<and> byte c \<le> 102) \<or> (65 \<le> byte c \<and> byte c \<le> 70)"

definition sentinelWorkspaceRe :: "string \<Rightarrow> bool" where
  "sentinelWorkspaceRe s \<longleftrightarrow>
     (let gs = split_on CHR ''-'' s in map length gs = [8, 4, 4, 4, 12] \<and> list_all (list_all hex_char) gs)"

definition validateSplunkConfig :: "int_env \<Rightarrow> string \<Rightarrow> netPolicy \<Rightarrow> int_err option" where
  "validateSplunkConfig E raw pol =
     (case unmarshalConfig (dec_splunk E) raw of Inl e \<Rightarrow> Some e
      | Inr cfg \<Rightarrow> if sp_InsecureTLS cfg then Some ErrInvalidConfig else validateHTTPURL E (sp_URL cfg) (AllowPlainHTTP pol))"

definition validateSentinelConfig :: "int_env \<Rightarrow> string \<Rightarrow> int_err option" where
  "validateSentinelConfig E raw =
     (case unmarshalConfig (dec_sentinel E) raw of Inl e \<Rightarrow> Some e
      | Inr cfg \<Rightarrow> if \<not> sentinelWorkspaceRe (se_WorkspaceID cfg) then Some ErrInvalidConfig else None)"

definition validateSyslogConfig :: "int_env \<Rightarrow> string \<Rightarrow> int_err option" where
  "validateSyslogConfig E raw =
     (case unmarshalConfig (dec_syslog E) raw of Inl e \<Rightarrow> Some e
      | Inr cfg \<Rightarrow>
          (case split_host_port E (TrimSpace (sy_Address cfg)) of
             None \<Rightarrow> Some ErrInvalidConfig
           | Some (host, port) \<Rightarrow>
               if host = [] \<or> port = [] then Some ErrInvalidConfig
               else if sy_Network cfg \<noteq> [] \<and> sy_Network cfg \<noteq> ''udp'' \<and> sy_Network cfg \<noteq> ''tcp'' then Some ErrInvalidConfig
               else None))"

definition validateKindConfig :: "int_env \<Rightarrow> string \<Rightarrow> string \<Rightarrow> netPolicy \<Rightarrow> int_err option" where
  "validateKindConfig E k raw pol =
     (if k = KindWebhook then
        (case unmarshalConfig (dec_webhook E) raw of Inl e \<Rightarrow> Some e | Inr cfg \<Rightarrow> validateHTTPURL E (wh_URL cfg) (AllowPlainHTTP pol))
      else if k = KindSplunk then validateSplunkConfig E raw pol
      else if k = KindSentinel then validateSentinelConfig E raw
      else if k = KindElastic then
        (case unmarshalConfig (dec_elastic E) raw of Inl e \<Rightarrow> Some e | Inr cfg \<Rightarrow> validateHTTPURL E (el_URL cfg) (AllowPlainHTTP pol))
      else if k = KindSyslog then validateSyslogConfig E raw
      else Some ErrInvalidKind)"

section \<open>Filters\<close>

definition ParseFilters :: "int_env \<Rightarrow> string \<Rightarrow> int_err + string list" where
  "ParseFilters E raw =
     (if TrimSpace raw = [] then Inr []
      else case dec_filters E raw of
        None \<Rightarrow> Inl ErrInvalidConfig
      | Some (types, trailing) \<Rightarrow>
          if trailing then Inl ErrInvalidConfig
          else if list_ex (\<lambda>p. TrimSpace p = []) types then Inl ErrInvalidConfig
          else Inr types)"

definition Matches :: "string list \<Rightarrow> string \<Rightarrow> bool" where
  "Matches types eventType \<longleftrightarrow> types = []
     \<or> list_ex (\<lambda>p. let p = TrimSpace p
                   in p \<noteq> [] \<and> (if HasSuffix p ''.'' then HasPrefix eventType p else eventType = p)) types"

section \<open>Stored rows\<close>

record introw =
  ir_ID :: int
  ir_Name :: string
  ir_Kind :: string
  ir_Enabled :: bool
  ir_ConfigJSON :: string
  ir_ConfigEnc :: "string option"
  ir_FiltersJSON :: string
  ir_CreatedBy :: "int option"
  ir_CreatedAt :: time
  ir_UpdatedAt :: time

record integration =
  ig_ID :: int
  ig_Name :: string
  ig_Kind :: string
  ig_Enabled :: bool
  ig_ConfigJSON :: string
  ig_FiltersJSON :: string
  ig_CreatedByAdminID :: "int option"
  ig_CreatedAt :: time
  ig_UpdatedAt :: time
  ig_ConfigErr :: "int_err option"

type_synonym int_db = "introw table"

definition integrationAAD :: "int_env \<Rightarrow> int \<Rightarrow> string" where
  "integrationAAD E i = ie_sha E (''sealkeeper-integration:'' @ json_int i)"

definition scan :: "int_env \<Rightarrow> introw \<Rightarrow> integration" where
  "scan E r =
     (let enc = (case ir_ConfigEnc r of None \<Rightarrow> [] | Some c \<Rightarrow> c);
          (cfg, err) =
            (if enc = [] then (ir_ConfigJSON r, None)
             else if ie_box E = None then ([], Some ErrNoCryptobox)
             else case Open (ie_box E) enc (integrationAAD E (ir_ID r)) of
               None \<Rightarrow> ([], Some ErrSeal) | Some pt \<Rightarrow> (pt, None))
      in \<lparr>ig_ID = ir_ID r, ig_Name = ir_Name r, ig_Kind = ir_Kind r, ig_Enabled = ir_Enabled r, ig_ConfigJSON = cfg,
          ig_FiltersJSON = ir_FiltersJSON r, ig_CreatedByAdminID = ir_CreatedBy r, ig_CreatedAt = ir_CreatedAt r,
          ig_UpdatedAt = ir_UpdatedAt r, ig_ConfigErr = err\<rparr>)"

definition Get :: "int_env \<Rightarrow> bool \<Rightarrow> int \<Rightarrow> int_db \<Rightarrow> int_err + integration" where
  "Get E fault i db =
     (if fault then Inl ErrDriver
      else case find (\<lambda>r. ir_ID r = i) (t_rows db) of None \<Rightarrow> Inl ErrNotFound | Some r \<Rightarrow> Inr (scan E r))"

definition ListEnabled :: "int_env \<Rightarrow> bool \<Rightarrow> int_db \<Rightarrow> int_err + integration list" where
  "ListEnabled E fault db =
     (if fault then Inl ErrDriver else Inr (map (scan E) (sort_key ir_ID (filter ir_Enabled (t_rows db)))))"

definition sealConfig :: "int_env \<Rightarrow> bool \<Rightarrow> string option \<Rightarrow> int \<Rightarrow> string \<Rightarrow> bool \<Rightarrow> int_db \<Rightarrow> int_err option \<times> int_db" where
  "sealConfig E fault rnd i config enabled db =
     (case Seal (ie_box E) rnd config (integrationAAD E i) of
        None \<Rightarrow> (Some ErrSeal, db)
      | Some enc \<Rightarrow>
          if fault then (Some ErrDriver, db)
          else (None, tbl_update (\<lambda>r. ir_ID r = i)
                  (\<lambda>r. r\<lparr>ir_ConfigEnc := Some enc, ir_ConfigJSON := ''{}'', ir_Enabled := enabled\<rparr>) db))"

record createInputs =
  ci_Name :: string
  ci_Kind :: string
  ci_Enabled :: bool
  ci_ConfigJSON :: string
  ci_FiltersJSON :: string

datatype int_stmt = IInsert | ISeal | IRollback | IGet

definition int_row :: "introw \<Rightarrow> int \<Rightarrow> introw" where
  "int_row r i = r\<lparr>ir_ID := i\<rparr>"

text \<open>The checks \<open>Create\<close> makes before it touches the table.\<close>

definition create_checks :: "int_env \<Rightarrow> createInputs \<Rightarrow> int_err option" where
  "create_checks E inp =
     (case validateKind (ci_Kind inp) of Some e \<Rightarrow> Some e | None \<Rightarrow>
     (case validateJSONObject E (ci_ConfigJSON inp) of Some e \<Rightarrow> Some e | None \<Rightarrow>
     (case validateKindConfig E (ci_Kind inp) (canonJSON (ci_ConfigJSON inp)) (ie_pol E) of Some e \<Rightarrow> Some e | None \<Rightarrow>
     (case validateJSONObject E (ci_FiltersJSON inp) of Some e \<Rightarrow> Some e | None \<Rightarrow>
     (case ParseFilters E (ci_FiltersJSON inp) of Inl e \<Rightarrow> Some e | Inr _ \<Rightarrow>
        if ie_box E = None then Some ErrNoCryptobox else None)))))"

definition Create ::
  "int_env \<Rightarrow> int_stmt faults \<Rightarrow> string option \<Rightarrow> time \<Rightarrow> createInputs \<Rightarrow> int option \<Rightarrow> int_db \<Rightarrow> (int_err + integration) \<times> int_db" where
  "Create E faults rnd now inp adminID db =
     (case create_checks E inp of
        Some e \<Rightarrow> (Inl e, db)
      | None \<Rightarrow>
          if faults IInsert then (Inl ErrDriver, db)
          else if TrimSpace (ci_Name inp) \<in> ir_Name ` set (t_rows db) then (Inl ErrAlreadyExists, db)
          else
            let (i, db1) = tbl_insert (int_row \<lparr>ir_ID = 0, ir_Name = TrimSpace (ci_Name inp), ir_Kind = ci_Kind inp, ir_Enabled = False,
                    ir_ConfigJSON = ''{}'', ir_ConfigEnc = None, ir_FiltersJSON = canonJSON (ci_FiltersJSON inp),
                    ir_CreatedBy = adminID, ir_CreatedAt = now, ir_UpdatedAt = now\<rparr>) db
            in case sealConfig E (faults ISeal) rnd i (canonJSON (ci_ConfigJSON inp)) (ci_Enabled inp) db1 of
                 (Some e, db2) \<Rightarrow> (Inl e, if faults IRollback then db2 else tbl_delete (\<lambda>r. ir_ID r = i) db2)
               | (None, db2) \<Rightarrow> (Get E (faults IGet) i db2, db2))"

definition SetEnabled :: "bool \<Rightarrow> time \<Rightarrow> int \<Rightarrow> bool \<Rightarrow> int_db \<Rightarrow> int_err option \<times> int_db" where
  "SetEnabled fault now i enabled db =
     (if fault then (Some ErrDriver, db)
      else (None, tbl_update (\<lambda>r. ir_ID r = i) (\<lambda>r. r\<lparr>ir_Enabled := enabled, ir_UpdatedAt := now\<rparr>) db))"

definition Delete :: "bool \<Rightarrow> int \<Rightarrow> int_db \<Rightarrow> int_err option \<times> int_db" where
  "Delete fault i db = (if fault then (Some ErrDriver, db) else (None, tbl_delete (\<lambda>r. ir_ID r = i) db))"

definition listLegacy :: "bool \<Rightarrow> int_db \<Rightarrow> int_err + (int \<times> string) list" where
  "listLegacy fault db =
     (if fault then Inl ErrDriver
      else Inr (map (\<lambda>r. (ir_ID r, ir_ConfigJSON r)) (filter (\<lambda>r. ir_ConfigEnc r = None) (t_rows db))))"

definition seal_row :: "int \<Rightarrow> string \<Rightarrow> int_db \<Rightarrow> int_db" where
  "seal_row i enc db =
     tbl_update (\<lambda>r. ir_ID r = i \<and> ir_ConfigEnc r = None) (\<lambda>r. r\<lparr>ir_ConfigEnc := Some enc, ir_ConfigJSON := ''{}''\<rparr>) db"

text \<open>The loop of \<open>SealLegacyConfigs\<close>: \<open>fails\<close> and \<open>nonces\<close> give the driver fault and the random bytes of
  the iteration on each row.\<close>

fun seal_loop ::
  "int_env \<Rightarrow> (int \<Rightarrow> bool) \<Rightarrow> (int \<Rightarrow> string option) \<Rightarrow> nat \<Rightarrow> (int \<times> string) list \<Rightarrow> int_db \<Rightarrow> (nat \<times> int_err option) \<times> int_db" where
  "seal_loop E fails nonces n [] db = ((n, None), db)"
| "seal_loop E fails nonces n ((i, cfg) # todo) db =
     (case Seal (ie_box E) (nonces i) (canonJSON cfg) (integrationAAD E i) of
        None \<Rightarrow> ((n, Some ErrSeal), db)
      | Some enc \<Rightarrow>
          if fails i then ((n, Some ErrDriver), db)
          else seal_loop E fails nonces (Suc n) todo (seal_row i enc db))"

definition SealLegacyConfigs ::
  "int_env \<Rightarrow> bool \<Rightarrow> (int \<Rightarrow> bool) \<Rightarrow> (int \<Rightarrow> string option) \<Rightarrow> int_db \<Rightarrow> (nat \<times> int_err option) \<times> int_db" where
  "SealLegacyConfigs E fault fails nonces db =
     (if ie_box E = None then ((0, Some ErrNoCryptobox), db)
      else case listLegacy fault db of Inl e \<Rightarrow> ((0, Some e), db)
      | Inr todo \<Rightarrow> seal_loop E fails nonces 0 todo db)"

section \<open>Sinks\<close>

datatype sink = WebhookSink string webhookConfig | SplunkSink string splunkConfig | SentinelSink string sentinelConfig
  | ElasticSink string elasticConfig | SyslogSink string syslogConfig

fun sink_name :: "sink \<Rightarrow> string" where
  "sink_name (WebhookSink n _) = n" | "sink_name (SplunkSink n _) = n" | "sink_name (SentinelSink n _) = n"
| "sink_name (ElasticSink n _) = n" | "sink_name (SyslogSink n _) = n"

fun sink_kind :: "sink \<Rightarrow> string" where
  "sink_kind (WebhookSink _ _) = KindWebhook" | "sink_kind (SplunkSink _ _) = KindSplunk" | "sink_kind (SentinelSink _ _) = KindSentinel"
| "sink_kind (ElasticSink _ _) = KindElastic" | "sink_kind (SyslogSink _ _) = KindSyslog"

definition BuildSink :: "int_env \<Rightarrow> integration \<Rightarrow> netPolicy \<Rightarrow> int_err + sink" where
  "BuildSink E row pol =
     (if ig_ConfigErr row \<noteq> None then Inl ErrInvalidConfig
      else case validateKindConfig E (ig_Kind row) (ig_ConfigJSON row) pol of
        Some e \<Rightarrow> Inl e
      | None \<Rightarrow>
          let raw = ig_ConfigJSON row; k = ig_Kind row; n = ig_Name row
          in if k = KindWebhook then map_sum id (WebhookSink n) (unmarshalConfig (dec_webhook E) raw)
             else if k = KindSplunk then map_sum id (SplunkSink n) (unmarshalConfig (dec_splunk E) raw)
             else if k = KindSentinel then map_sum id (SentinelSink n) (unmarshalConfig (dec_sentinel E) raw)
             else if k = KindElastic then map_sum id (ElasticSink n) (unmarshalConfig (dec_elastic E) raw)
             else if k = KindSyslog then map_sum id (SyslogSink n) (unmarshalConfig (dec_syslog E) raw)
             else Inl ErrInvalidKind)"

record event =
  ev_SequenceNo :: int
  ev_OccurredAt :: time
  ev_EventType :: string
  ev_Actor :: string
  ev_Target :: string
  ev_Details :: string
  ev_EntryHash :: string
  ev_InstanceDomain :: string
  ev_Source :: string

definition NewEvent :: "int \<Rightarrow> string \<Rightarrow> string \<Rightarrow> string \<Rightarrow> string \<Rightarrow> string \<Rightarrow> string \<Rightarrow> time \<Rightarrow> event" where
  "NewEvent sq eventType actor target details entryHash inst occurred =
     \<lparr>ev_SequenceNo = sq, ev_OccurredAt = occurred, ev_EventType = eventType, ev_Actor = actor, ev_Target = target,
      ev_Details = details, ev_EntryHash = entryHash, ev_InstanceDomain = inst, ev_Source = ''sealkeeper''\<rparr>"

section \<open>Credentials are not stored in the clear\<close>

datatype int_cmd =
    CCreate "int_stmt faults" "string option" time createInputs "int option"
  | CSetEnabled bool time int bool
  | CDelete bool int
  | CSealLegacy bool "int \<Rightarrow> bool" "int \<Rightarrow> string option"

fun int_step :: "int_env \<Rightarrow> int_cmd \<Rightarrow> int_db \<Rightarrow> int_db" where
  "int_step E (CCreate fs rnd now inp a) db = snd (Create E fs rnd now inp a db)"
| "int_step E (CSetEnabled f now i b) db = snd (SetEnabled f now i b db)"
| "int_step E (CDelete f i) db = snd (Delete f i db)"
| "int_step E (CSealLegacy f fails nonces) db = snd (SealLegacyConfigs E f fails nonces db)"

interpretation it: sql_table ir_ID ir_Name int_row ir_Name
  by unfold_locales (simp_all add: int_row_def)

definition int_ok :: "int_db \<Rightarrow> bool" where
  "int_ok db \<longleftrightarrow> tbl_wf ir_ID ir_Name db \<and> (\<forall>r\<in>set (t_rows db). ir_ConfigJSON r = ''{}'')"

lemma int_ok_update:
  assumes "int_ok db" "\<And>r. ir_ID (f r) = ir_ID r" "\<And>r. ir_Name (f r) = ir_Name r"
    "\<And>r. ir_ConfigJSON r = ''{}'' \<Longrightarrow> ir_ConfigJSON (f r) = ''{}''"
  shows "int_ok (tbl_update P f db)"
proof -
  have "tbl_wf ir_ID ir_Name (tbl_update P f db)" using assms by (intro it.wf_update) (simp_all add: int_ok_def)
  then show ?thesis using assms(1,4) by (auto simp: int_ok_def tbl_update_def)
qed

lemma int_ok_delete: "int_ok db \<Longrightarrow> int_ok (tbl_delete P db)"
  using it.wf_delete by (auto simp: int_ok_def tbl_delete_def)

lemma int_ok_seal_row: "int_ok db \<Longrightarrow> int_ok (seal_row i enc db)"
  unfolding seal_row_def by (rule int_ok_update) simp_all

lemma int_ok_seal_loop: "int_ok db \<Longrightarrow> int_ok (snd (seal_loop E fails nonces n todo db))"
  by (induction E fails nonces n todo db rule: seal_loop.induct) (auto simp: int_ok_seal_row split: option.split)

lemma sealConfig_db:
  "snd (sealConfig E f rnd i cfg en db) = db \<or> (\<exists>enc. snd (sealConfig E f rnd i cfg en db)
     = tbl_update (\<lambda>r. ir_ID r = i) (\<lambda>r. r\<lparr>ir_ConfigEnc := Some enc, ir_ConfigJSON := ''{}'', ir_Enabled := en\<rparr>) db)"
  by (auto simp: sealConfig_def split: option.split)

lemma int_ok_step: "int_ok db \<Longrightarrow> int_ok (int_step E c db)"
proof (cases c)
  case (CCreate fs rnd now inp a)
  assume ok: "int_ok db"
  let ?mk = "int_row \<lparr>ir_ID = 0, ir_Name = TrimSpace (ci_Name inp), ir_Kind = ci_Kind inp, ir_Enabled = False,
                    ir_ConfigJSON = ''{}'', ir_ConfigEnc = None, ir_FiltersJSON = canonJSON (ci_FiltersJSON inp),
                    ir_CreatedBy = a, ir_CreatedAt = now, ir_UpdatedAt = now\<rparr>"
  show ?thesis
  proof (cases "create_checks E inp = None \<and> \<not> fs IInsert \<and> TrimSpace (ci_Name inp) \<notin> ir_Name ` set (t_rows db)")
    case True
    let ?db1 = "snd (tbl_insert ?mk db)" and ?i = "fst (tbl_insert ?mk db)"
    have "int_ok ?db1"
    proof -
      have "tbl_wf ir_ID ir_Name ?db1" using ok True by (intro it.wf_insert) (simp_all add: int_ok_def)
      then show ?thesis using ok by (auto simp: int_ok_def tbl_insert_def int_row_def)
    qed
    then have "int_ok (snd (sealConfig E (fs ISeal) rnd ?i (canonJSON (ci_ConfigJSON inp)) (ci_Enabled inp) ?db1))"
      using sealConfig_db [of E "fs ISeal" rnd ?i "canonJSON (ci_ConfigJSON inp)" "ci_Enabled inp" ?db1]
      by (elim disjE exE) (simp_all add: int_ok_update)
    then show ?thesis using True CCreate int_ok_delete
      by (auto simp: Create_def Let_def case_prod_beta split: option.split)
  next
    case False
    then show ?thesis using ok CCreate by (auto simp: Create_def split: option.split)
  qed
next
  case (CSetEnabled f now i b)
  then show "int_ok db \<Longrightarrow> ?thesis" by (auto simp: SetEnabled_def intro: int_ok_update)
next
  case (CDelete f i)
  then show "int_ok db \<Longrightarrow> ?thesis" by (auto simp: Delete_def intro: int_ok_delete)
next
  case (CSealLegacy f fails nonces)
  then show "int_ok db \<Longrightarrow> ?thesis" by (auto simp: SealLegacyConfigs_def intro: int_ok_seal_loop split: sum.split)
qed

interpretation ig: machine "int_step E" int_ok for E
  by unfold_locales (rule int_ok_step)

lemma int_ok_empty: "int_ok empty_table"
  using it.wf_empty by (simp add: int_ok_def empty_table_def)

section \<open>A created integration works\<close>

lemma BuildSink_total:
  assumes "ig_ConfigErr row = None" "validateKindConfig E (ig_Kind row) (ig_ConfigJSON row) pol = None"
  shows "\<exists>s. BuildSink E row pol = Inr s \<and> sink_name s = ig_Name row \<and> sink_kind s = ig_Kind row"
proof -
  note v = assms(2) [unfolded validateKindConfig_def validateSplunkConfig_def validateSentinelConfig_def validateSyslogConfig_def]
  show ?thesis using assms v
    by (auto simp: BuildSink_def kind_defs Let_def split: if_splits sum.splits)
qed

lemma scan_sealed:
  assumes "ie_box E = Some A" "aead_ok A" "length nonce = nonceLen"
    "Seal (ie_box E) (Some nonce) cfg (integrationAAD E (ir_ID r)) = Some enc" "ir_ConfigEnc r = Some enc"
  shows "ig_ConfigJSON (scan E r) = cfg" "ig_ConfigErr (scan E r) = None"
proof -
  have "enc \<noteq> []" using assms(1,3,4) by (auto simp: Seal_def nonceLen_def)
  moreover have "Open (ie_box E) enc (integrationAAD E (ir_ID r)) = Some cfg"
    using Open_Seal [OF assms(2,3)] assms(1,4) by simp
  ultimately show "ig_ConfigJSON (scan E r) = cfg" "ig_ConfigErr (scan E r) = None"
    using assms(1,5) by (simp_all add: scan_def Let_def)
qed

lemma Create_stores:
  assumes "Create E faults (Some nonce) now inp a db = (Inr row, db')" "tbl_wf ir_ID ir_Name db"
  shows "\<exists>enc r. Seal (ie_box E) (Some nonce) (canonJSON (ci_ConfigJSON inp)) (integrationAAD E (t_next db)) = Some enc
    \<and> create_checks E inp = None \<and> find (\<lambda>r. ir_ID r = t_next db) (t_rows db') = Some r \<and> row = scan E r
    \<and> r = \<lparr>ir_ID = t_next db, ir_Name = TrimSpace (ci_Name inp), ir_Kind = ci_Kind inp, ir_Enabled = ci_Enabled inp,
            ir_ConfigJSON = ''{}'', ir_ConfigEnc = Some enc, ir_FiltersJSON = canonJSON (ci_FiltersJSON inp),
            ir_CreatedBy = a, ir_CreatedAt = now, ir_UpdatedAt = now\<rparr>"
proof -
  let ?new = "\<lparr>ir_ID = 0, ir_Name = TrimSpace (ci_Name inp), ir_Kind = ci_Kind inp, ir_Enabled = False,
                    ir_ConfigJSON = ''{}'', ir_ConfigEnc = None, ir_FiltersJSON = canonJSON (ci_FiltersJSON inp),
                    ir_CreatedBy = a, ir_CreatedAt = now, ir_UpdatedAt = now\<rparr>"
  let ?i = "t_next db" and ?db1 = "snd (tbl_insert (int_row ?new) db)"
  have chk: "create_checks E inp = None" and
    c: "(case sealConfig E (faults ISeal) (Some nonce) ?i (canonJSON (ci_ConfigJSON inp)) (ci_Enabled inp) ?db1 of
          (Some e, db2) \<Rightarrow> (Inl e, if faults IRollback then db2 else tbl_delete (\<lambda>r. ir_ID r = ?i) db2)
        | (None, db2) \<Rightarrow> (Get E (faults IGet) ?i db2, db2)) = (Inr row, db')"
    using assms(1) by (auto simp: Create_def tbl_insert_def split: option.splits if_splits)
  obtain enc where e: "Seal (ie_box E) (Some nonce) (canonJSON (ci_ConfigJSON inp)) (integrationAAD E ?i) = Some enc"
    "db' = tbl_update (\<lambda>r. ir_ID r = ?i) (\<lambda>r. r\<lparr>ir_ConfigEnc := Some enc, ir_ConfigJSON := ''{}'', ir_Enabled := ci_Enabled inp\<rparr>) ?db1"
    "Get E (faults IGet) ?i db' = Inr row"
    using c by (auto simp: sealConfig_def split: option.splits if_splits)
  have "find (\<lambda>r. ir_ID r = ?i) (t_rows db') = map_option (\<lambda>r. if ir_ID r = ?i then r\<lparr>ir_ConfigEnc := Some enc,
      ir_ConfigJSON := ''{}'', ir_Enabled := ci_Enabled inp\<rparr> else r) (find (\<lambda>r. ir_ID r = ?i) (t_rows ?db1))"
    unfolding e(2) tbl_update_def by (simp add: find_map_cong)
  then have f: "find (\<lambda>r. ir_ID r = ?i) (t_rows db') = Some (int_row ?new ?i \<lparr>ir_ConfigEnc := Some enc, ir_ConfigJSON := ''{}'', ir_Enabled := ci_Enabled inp\<rparr>)"
    using it.find_inserted [OF assms(2), of ?new] by (simp add: int_row_def)
  then have "row = scan E (int_row ?new ?i \<lparr>ir_ConfigEnc := Some enc, ir_ConfigJSON := ''{}'', ir_Enabled := ci_Enabled inp\<rparr>)"
    using e(3) by (simp add: Get_def split: if_splits)
  then show ?thesis using e(1) f chk by (simp add: int_row_def)
qed

section \<open>Properties\<close>

text \<open>
  Sink credentials are never stored in the clear: whatever integrations are created, switched,
  deleted or migrated, and wherever a statement, a nonce or the rollback of a failed creation
  fails, the clear configuration column of every stored row is the empty object.
\<close>

theorem configs_never_stored_in_clear:
  "ir_ConfigJSON ` set (t_rows (run (int_step E) cmds empty_table)) \<subseteq> {''{}''}"
  using ig.inv_run [OF int_ok_empty, of E cmds] by (auto simp: int_ok_def)

text \<open>
  C37. A created integration is stored as given and can be used: when \<open>Create\<close> succeeds, the row it
  returns, and the one \<open>Get\<close> returns, carries the configuration, the filters and the switch that
  were submitted, decrypted again, \<open>BuildSink\<close> builds a sink of its kind and name from it, and its
  filters parse.
\<close>

theorem created_integration_is_usable:
  assumes "ie_box E = Some A" "aead_ok A" "length nonce = nonceLen" "int_ok db"
    "Create E faults (Some nonce) now inp a db = (Inr row, db')"
  shows "Get E False (ig_ID row) db' = Inr row \<and> ig_ConfigJSON row = canonJSON (ci_ConfigJSON inp)
    \<and> ig_Enabled row = ci_Enabled inp \<and> ig_FiltersJSON row = canonJSON (ci_FiltersJSON inp)
    \<and> (\<exists>s. BuildSink E row (ie_pol E) = Inr s \<and> sink_kind s = ci_Kind inp \<and> sink_name s = TrimSpace (ci_Name inp))
    \<and> (\<exists>types. ParseFilters E (ci_FiltersJSON inp) = Inr types)"
proof -
  have wf: "tbl_wf ir_ID ir_Name db" using assms(4) by (simp add: int_ok_def)
  obtain enc r where r: "Seal (ie_box E) (Some nonce) (canonJSON (ci_ConfigJSON inp)) (integrationAAD E (t_next db)) = Some enc"
    "create_checks E inp = None" "find (\<lambda>r. ir_ID r = t_next db) (t_rows db') = Some r" "row = scan E r"
    "r = \<lparr>ir_ID = t_next db, ir_Name = TrimSpace (ci_Name inp), ir_Kind = ci_Kind inp, ir_Enabled = ci_Enabled inp,
            ir_ConfigJSON = ''{}'', ir_ConfigEnc = Some enc, ir_FiltersJSON = canonJSON (ci_FiltersJSON inp),
            ir_CreatedBy = a, ir_CreatedAt = now, ir_UpdatedAt = now\<rparr>"
    using Create_stores [OF assms(5) wf] by blast
  have cfg: "ig_ConfigJSON row = canonJSON (ci_ConfigJSON inp)" "ig_ConfigErr row = None"
    using scan_sealed [OF assms(1-3), of _ r enc] r(1,4,5) by simp_all
  have flds: "ig_ID row = t_next db" "ig_Name row = TrimSpace (ci_Name inp)" "ig_Kind row = ci_Kind inp"
    "ig_Enabled row = ci_Enabled inp" "ig_FiltersJSON row = canonJSON (ci_FiltersJSON inp)"
    unfolding r(4) using r(5) by (simp_all add: scan_def Let_def case_prod_beta)
  have chk: "validateKindConfig E (ci_Kind inp) (canonJSON (ci_ConfigJSON inp)) (ie_pol E) = None"
    "\<exists>types. ParseFilters E (ci_FiltersJSON inp) = Inr types"
    using r(2) by (auto simp: create_checks_def split: option.splits sum.splits)
  have "\<exists>s. BuildSink E row (ie_pol E) = Inr s \<and> sink_name s = ig_Name row \<and> sink_kind s = ig_Kind row"
    using BuildSink_total [OF cfg(2)] chk(1) cfg(1) flds(3) by simp
  then show ?thesis using chk(2) cfg(1) flds r(3,4) by (auto simp: Get_def)
qed

definition toy_int_env :: int_env where
  "toy_int_env = \<lparr>ie_box = Some toy_aead, ie_sha = (\<lambda>s. s), ie_pol = strict_policy,
     dec_webhook = (\<lambda>s. Some \<lparr>wh_URL = s, wh_Headers = [], wh_BearerToken = [], wh_BasicUser = [], wh_BasicPass = [], wh_TimeoutSec = 0\<rparr>),
     dec_splunk = (\<lambda>_. None), dec_sentinel = (\<lambda>_. None), dec_elastic = (\<lambda>_. None), dec_syslog = (\<lambda>_. None),
     dec_filters = (\<lambda>s. Some ([s], False)), json_probe = (\<lambda>_. Some True),
     url_parse = (\<lambda>s. Some \<lparr>u_Scheme = ''https'', u_Hostname = s, u_User = False\<rparr>), split_host_port = (\<lambda>_. None)\<rparr>"

definition sample_inputs :: createInputs where
  "sample_inputs = \<lparr>ci_Name = '' siem '', ci_Kind = ''webhook'', ci_Enabled = True, ci_ConfigJSON = ''hook'', ci_FiltersJSON = ''admin.''\<rparr>"

theorem created_integration_is_usable_witness:
  "\<exists>row db' s. Create toy_int_env no_faults (Some ''123456789012'') 5 sample_inputs (Some 1) empty_table = (Inr row, db')
     \<and> ig_ConfigJSON row = ''hook'' \<and> BuildSink toy_int_env row strict_policy = Inr s \<and> sink_name s = ''siem''"
proof -
  let ?c = "Create toy_int_env no_faults (Some ''123456789012'') 5 sample_inputs (Some 1) empty_table"
  have "\<not> isl (fst ?c)" by code_simp
  then obtain row db' where c: "?c = (Inr row, db')" by (cases ?c; cases "fst ?c") auto
  have p: "ie_box toy_int_env = Some toy_aead" "ie_pol toy_int_env = strict_policy" by (simp_all add: toy_int_env_def)
  have e: "length ''123456789012'' = nonceLen" "canonJSON (ci_ConfigJSON sample_inputs) = ''hook''" "TrimSpace (ci_Name sample_inputs) = ''siem''" by code_simp+
  show ?thesis
    using created_integration_is_usable [OF p(1) toy_aead_ok e(1) int_ok_empty c] c p(2) e(2,3) by auto
qed

end
