(* ===== verification/Dispatcher.thy ===== *)
theory Dispatcher
  imports Integrations "HOL-Library.Multiset"
begin

text \<open>
  The fan-out of audit events to the sinks (\<open>internal/integrations/dispatcher.go\<close>): three lanes,
  one router, one worker per sink, bounded queues everywhere. Channels are bounded lists; every
  channel operation, atomic addition and delivery attempt is a step of its own, so callers of
  \<open>Push\<close>, the router and the workers interleave freely. The reconciliation with the stored rows
  (\<open>refresh\<close>) touches only the router's own state and is one step.
\<close>

section \<open>Lanes\<close>

datatype lane = Security | Anonymous | Bulk

definition lanes :: "lane list" where "lanes = [Security, Anonymous, Bulk]"

definition IsBulkEvent :: "string \<Rightarrow> bool" where
  "IsBulkEvent eventType \<longleftrightarrow> list_ex (\<lambda>p. HasPrefix eventType p) [''request.'', ''token.'', ''mail.'', ''reveal.'', ''session.'']"

definition anonymousEvents :: "string \<Rightarrow> bool" where
  "anonymousEvents eventType \<longleftrightarrow> eventType = ''admin.login_failed''"

definition laneIndex :: "string \<Rightarrow> lane" where
  "laneIndex eventType = (if IsBulkEvent eventType then Bulk else if anonymousEvents eventType then Anonymous else Security)"

fun laneNames :: "lane \<Rightarrow> string" where
  "laneNames Security = ''security''" | "laneNames Anonymous = ''anonymous''" | "laneNames Bulk = ''bulk''"

definition LaneOf :: "string \<Rightarrow> string" where "LaneOf eventType = laneNames (laneIndex eventType)"

definition EventDropsNotice :: string where "EventDropsNotice = ''integration.events_dropped''"

text \<open>The capacities \<open>newLanes\<close> gives the channels.\<close>

fun newLanes :: "nat \<Rightarrow> lane \<Rightarrow> nat" where
  "newLanes bufSize Security = 4 * bufSize" | "newLanes bufSize Anonymous = 2 * bufSize" | "newLanes bufSize Bulk = bufSize"

type_synonym queues = "lane \<Rightarrow> event list"

section \<open>Workers\<close>

record sinkWorker =
  sw_fp :: string
  sw_sink :: sink
  sw_filters :: "string list"
  sw_filtersOK :: bool
  sw_queues :: queues
  sw_stop :: bool
  sw_pending :: "lane \<Rightarrow> nat"

definition matches :: "'x sinkWorker_scheme \<Rightarrow> string \<Rightarrow> bool" where
  "matches w eventType \<longleftrightarrow> sw_filtersOK w \<and> Matches (sw_filters w) eventType"

text \<open>Where a goroutine stands in \<open>recvByPriority\<close>: about to poll a lane, or in the blocking select.\<close>

datatype recv = Poll lane | Block

fun after_poll :: "lane \<Rightarrow> recv" where
  "after_poll Security = Poll Anonymous" | "after_poll Anonymous = Poll Bulk" | "after_poll Bulk = Block"

text \<open>
  A worker's loop: receiving; sending an event; swapping out the drop counts, lane by lane; sending
  the notice that carries them; putting them back after a failure; gone.
\<close>

datatype wphase = WRecv recv | WSend event | WSwap "lane list" "lane \<Rightarrow> nat" event | WNotice "lane \<Rightarrow> nat"
  | WBack "lane list" "lane \<Rightarrow> nat" | WExit

text \<open>The goroutine and, for the statements below, its history: what was accepted into and taken out
  of each lane (newest last), what was dropped, what delivered notices reported, and how many events
  of lower lanes were taken since the oldest waiting security event arrived.\<close>

record worker = sinkWorker +
  wk_phase :: wphase
  wk_accepted :: queues
  wk_taken :: queues
  wk_dropped :: "lane \<Rightarrow> nat"
  wk_reported :: "lane \<Rightarrow> nat"
  wk_overtaken :: nat

definition new_worker :: "string \<Rightarrow> sink \<Rightarrow> int_err + string list \<Rightarrow> worker" where
  "new_worker fp s f =
     \<lparr>sw_fp = fp, sw_sink = s, sw_filters = (case f of Inl _ \<Rightarrow> [] | Inr types \<Rightarrow> types), sw_filtersOK = \<not> isl f,
      sw_queues = (\<lambda>_. []), sw_stop = False, sw_pending = (\<lambda>_. 0),
      wk_phase = WRecv (Poll Security), wk_accepted = (\<lambda>_. []), wk_taken = (\<lambda>_. []), wk_dropped = (\<lambda>_. 0),
      wk_reported = (\<lambda>_. 0), wk_overtaken = 0\<rparr>"

definition retire :: "worker \<Rightarrow> worker" where
  "retire w = w\<lparr>sw_stop := True\<rparr>"

text \<open>\<open>enqueue\<close>, with whether the event was dropped.\<close>

definition enqueue :: "nat \<Rightarrow> event \<Rightarrow> lane \<Rightarrow> worker \<Rightarrow> bool \<times> worker" where
  "enqueue bufSize ev l w =
     (if length (sw_queues w l) < newLanes bufSize l
      then (False, w\<lparr>sw_queues := (sw_queues w)(l := sw_queues w l @ [ev]),
                     wk_accepted := (wk_accepted w)(l := wk_accepted w l @ [ev]),
                     wk_overtaken := if l = Security \<and> sw_queues w Security = [] then 0 else wk_overtaken w\<rparr>)
      else (True, w\<lparr>sw_pending := (sw_pending w)(l := sw_pending w l + 1),
                    wk_dropped := (wk_dropped w)(l := wk_dropped w l + 1)\<rparr>))"

definition take_event :: "lane \<Rightarrow> event \<Rightarrow> event list \<Rightarrow> worker \<Rightarrow> worker" where
  "take_event l ev rest w =
     w\<lparr>sw_queues := (sw_queues w)(l := rest), wk_taken := (wk_taken w)(l := wk_taken w l @ [ev]), wk_phase := WSend ev,
       wk_overtaken := if l = Security then 0 else if sw_queues w Security \<noteq> [] then wk_overtaken w + 1 else wk_overtaken w\<rparr>"

text \<open>The details of a notice and the notice itself.\<close>

definition notice_details :: "(lane \<Rightarrow> nat) \<Rightarrow> string" where
  "notice_details counts = ''{\"dropped_anonymous\":'' @ json_int (int (counts Anonymous)) @ '',\"dropped_bulk\":'' @ json_int (int (counts Bulk))
     @ '',\"dropped_security\":'' @ json_int (int (counts Security)) @ ''}''"

definition notice :: "time \<Rightarrow> sinkWorker \<Rightarrow> event \<Rightarrow> (lane \<Rightarrow> nat) \<Rightarrow> event" where
  "notice now w lst counts = NewEvent 0 EventDropsNotice ''system'' (sink_name (sw_sink w)) (notice_details counts) [] (ev_InstanceDomain lst) now"

text \<open>
  The steps of a worker, with what they add to the delivered and failed counters. A lane that is
  empty when polled is passed; in the blocking select any lane that has an event may win, and so
  may a stop. \<open>quit\<close> says that the context is done.
\<close>

inductive worker_step :: "bool \<Rightarrow> worker \<Rightarrow> worker \<Rightarrow> nat \<Rightarrow> nat \<Rightarrow> bool" for quit where
  poll_hit: "wk_phase w = WRecv (Poll l) \<Longrightarrow> sw_queues w l = ev # rest \<Longrightarrow> worker_step quit w (take_event l ev rest w) 0 0"
| poll_miss: "wk_phase w = WRecv (Poll l) \<Longrightarrow> sw_queues w l = [] \<Longrightarrow> worker_step quit w (w\<lparr>wk_phase := WRecv (after_poll l)\<rparr>) 0 0"
| select_hit: "wk_phase w = WRecv Block \<Longrightarrow> sw_queues w l = ev # rest \<Longrightarrow> worker_step quit w (take_event l ev rest w) 0 0"
| select_stop: "wk_phase w = WRecv Block \<Longrightarrow> quit \<or> sw_stop w \<Longrightarrow> worker_step quit w (w\<lparr>wk_phase := WExit\<rparr>) 0 0"
| loop_quit: "wk_phase w = WRecv (Poll Security) \<Longrightarrow> quit \<Longrightarrow> worker_step quit w (w\<lparr>wk_phase := WExit\<rparr>) 0 0"
| send_ok: "wk_phase w = WSend ev \<Longrightarrow> worker_step quit w (w\<lparr>wk_phase := WSwap lanes (\<lambda>_. 0) ev\<rparr>) 1 0"
| send_fail: "wk_phase w = WSend ev \<Longrightarrow> worker_step quit w (w\<lparr>wk_phase := WRecv (Poll Security)\<rparr>) 0 1"
| swap: "wk_phase w = WSwap (l # ls) c ev \<Longrightarrow>
    worker_step quit w (w\<lparr>sw_pending := (sw_pending w)(l := 0), wk_phase := WSwap ls (c(l := c l + sw_pending w l)) ev\<rparr>) 0 0"
| swapped_none: "wk_phase w = WSwap [] c ev \<Longrightarrow> c Security + c Anonymous + c Bulk = 0 \<Longrightarrow>
    worker_step quit w (w\<lparr>wk_phase := WRecv (Poll Security)\<rparr>) 0 0"
| swapped_some: "wk_phase w = WSwap [] c ev \<Longrightarrow> c Security + c Anonymous + c Bulk \<noteq> 0 \<Longrightarrow>
    worker_step quit w (w\<lparr>wk_phase := WNotice c\<rparr>) 0 0"
| notice_ok: "wk_phase w = WNotice c \<Longrightarrow>
    worker_step quit w (w\<lparr>wk_phase := WRecv (Poll Security), wk_reported := (\<lambda>l. wk_reported w l + c l)\<rparr>) 1 0"
| notice_fail: "wk_phase w = WNotice c \<Longrightarrow> worker_step quit w (w\<lparr>wk_phase := WBack lanes c\<rparr>) 0 1"
| put_back: "wk_phase w = WBack (l # ls) c \<Longrightarrow>
    worker_step quit w (w\<lparr>sw_pending := (sw_pending w)(l := sw_pending w l + c l), wk_phase := WBack ls (c(l := 0))\<rparr>) 0 0"
| put_back_done: "wk_phase w = WBack [] c \<Longrightarrow> worker_step quit w (w\<lparr>wk_phase := WRecv (Poll Security)\<rparr>) 0 0"

inductive_cases worker_stepE: "worker_step quit w w' d f"

section \<open>The dispatcher\<close>

text \<open>The router: receiving, or handing an event to the workers that remain to be served.\<close>

datatype rphase = RRecv recv | RRefresh event lane | RRoute event lane "int list" | RExit

record dispatcher =
  dp_bufSize :: nat
  dp_refreshEvery :: duration
  dp_intake :: queues
  dp_router :: rphase
  dp_workers :: "(int \<times> worker) list"
  dp_retired :: "worker list"
  dp_lastRefresh :: "time option"
  dp_drops :: "lane \<Rightarrow> nat"
  dp_delivered :: nat
  dp_failed :: nat
  dp_quit :: bool
  dp_now :: time

definition NewDispatcher :: "int \<Rightarrow> time \<Rightarrow> dispatcher" where
  "NewDispatcher bufSize now =
     \<lparr>dp_bufSize = (if bufSize \<le> 0 then 256 else nat bufSize), dp_refreshEvery = 2 * second, dp_intake = (\<lambda>_. []),
      dp_router = RRecv (Poll Security), dp_workers = [], dp_retired = [], dp_lastRefresh = None, dp_drops = (\<lambda>_. 0),
      dp_delivered = 0, dp_failed = 0, dp_quit = False, dp_now = now\<rparr>"

definition noteDrop :: "lane \<Rightarrow> dispatcher \<Rightarrow> dispatcher" where
  "noteDrop l d = d\<lparr>dp_drops := (dp_drops d)(l := dp_drops d l + 1)\<rparr>"

definition Push :: "event \<Rightarrow> dispatcher \<Rightarrow> dispatcher" where
  "Push ev d =
     (let l = laneIndex (ev_EventType ev)
      in if length (dp_intake d l) < newLanes (dp_bufSize d) l
         then d\<lparr>dp_intake := (dp_intake d)(l := dp_intake d l @ [ev])\<rparr>
         else noteDrop l d)"

definition fingerprint :: "integration \<Rightarrow> string" where
  "fingerprint row = ig_Kind row @ [CHR 0x00] @ ig_ConfigJSON row @ [CHR 0x00] @ ig_FiltersJSON row"

text \<open>One turn of the loop over the enabled rows, on the worker table, the retired workers and the
  failure counter.\<close>

definition reconcile_row ::
  "int_env \<Rightarrow> integration \<Rightarrow> (int \<times> worker) list \<times> worker list \<times> nat \<Rightarrow> (int \<times> worker) list \<times> worker list \<times> nat" where
  "reconcile_row E row st =
     (case st of (ws, ret, failed) \<Rightarrow>
        let fp = fingerprint row
        in case map_of ws (ig_ID row) of
             Some w \<Rightarrow>
               if sw_fp w = fp then st
               else
                 let ws' = filter (\<lambda>x. fst x \<noteq> ig_ID row) ws; ret' = ret @ [retire w]
                 in (case BuildSink E row (ie_pol E) of
                       Inl e \<Rightarrow> (ws', ret', Suc failed)
                     | Inr s \<Rightarrow> (ws' @ [(ig_ID row, new_worker fp s (ParseFilters E (ig_FiltersJSON row)))], ret', failed))
           | None \<Rightarrow>
               (case BuildSink E row (ie_pol E) of
                  Inl e \<Rightarrow> (ws, ret, Suc failed)
                | Inr s \<Rightarrow> (ws @ [(ig_ID row, new_worker fp s (ParseFilters E (ig_FiltersJSON row)))], ret, failed)))"

fun reconcile ::
  "int_env \<Rightarrow> integration list \<Rightarrow> (int \<times> worker) list \<times> worker list \<times> nat \<Rightarrow> (int \<times> worker) list \<times> worker list \<times> nat" where
  "reconcile E [] st = st"
| "reconcile E (row # rows) st = reconcile E rows (reconcile_row E row st)"

definition refresh :: "int_env \<Rightarrow> bool \<Rightarrow> int_db \<Rightarrow> dispatcher \<Rightarrow> dispatcher" where
  "refresh E fault db d =
     (if (case dp_lastRefresh d of None \<Rightarrow> False | Some t \<Rightarrow> dp_now d - t < dp_refreshEvery d) then d
      else case ListEnabled E fault db of
        Inl e \<Rightarrow> d
      | Inr rows \<Rightarrow>
          (case reconcile E rows (dp_workers d, dp_retired d, dp_failed d) of (ws, ret, failed) \<Rightarrow>
             let seen = set (map ig_ID rows)
             in d\<lparr>dp_lastRefresh := Some (dp_now d), dp_workers := filter (\<lambda>x. fst x \<in> seen) ws,
                  dp_retired := ret @ map (\<lambda>x. retire (snd x)) (filter (\<lambda>x. fst x \<notin> seen) ws), dp_failed := failed\<rparr>))"

text \<open>The router hands the event to worker \<open>i\<close>.\<close>

definition route_to :: "event \<Rightarrow> lane \<Rightarrow> int \<Rightarrow> dispatcher \<Rightarrow> dispatcher" where
  "route_to ev l i d =
     (case map_of (dp_workers d) i of
        None \<Rightarrow> d
      | Some w \<Rightarrow>
          if \<not> matches w (ev_EventType ev) then d
          else let (dropped, w') = enqueue (dp_bufSize d) ev l w;
                   d' = d\<lparr>dp_workers := map (\<lambda>x. if fst x = i then (i, w') else x) (dp_workers d)\<rparr>
               in if dropped then noteDrop l d' else d')"

inductive disp_step :: "int_env \<Rightarrow> dispatcher \<Rightarrow> dispatcher \<Rightarrow> bool" for E where
  wait: "0 \<le> t \<Longrightarrow> disp_step E d (d\<lparr>dp_now := dp_now d + t\<rparr>)"
| push: "disp_step E d (Push ev d)"
| stop: "disp_step E d (d\<lparr>dp_quit := True\<rparr>)"
| router_hit: "dp_router d = RRecv (Poll l) \<Longrightarrow> dp_intake d l = ev # rest \<Longrightarrow>
    disp_step E d (d\<lparr>dp_intake := (dp_intake d)(l := rest), dp_router := RRefresh ev l\<rparr>)"
| router_miss: "dp_router d = RRecv (Poll l) \<Longrightarrow> dp_intake d l = [] \<Longrightarrow> disp_step E d (d\<lparr>dp_router := RRecv (after_poll l)\<rparr>)"
| router_select: "dp_router d = RRecv Block \<Longrightarrow> dp_intake d l = ev # rest \<Longrightarrow>
    disp_step E d (d\<lparr>dp_intake := (dp_intake d)(l := rest), dp_router := RRefresh ev l\<rparr>)"
| router_exit: "dp_router d \<in> {RRecv Block, RRecv (Poll Security)} \<Longrightarrow> dp_quit d \<Longrightarrow> disp_step E d (d\<lparr>dp_router := RExit\<rparr>)"
| router_refresh: "dp_router d = RRefresh ev l \<Longrightarrow> d' = refresh E fault db d \<Longrightarrow> mset is = mset (map fst (dp_workers d')) \<Longrightarrow>
    disp_step E d (d'\<lparr>dp_router := RRoute ev l is\<rparr>)"
| router_route: "dp_router d = RRoute ev l (i # is) \<Longrightarrow> disp_step E d ((route_to ev l i d)\<lparr>dp_router := RRoute ev l is\<rparr>)"
| router_done: "dp_router d = RRoute ev l [] \<Longrightarrow> disp_step E d (d\<lparr>dp_router := RRecv (Poll Security)\<rparr>)"
| work: "k < length (dp_workers d) \<Longrightarrow> dp_workers d ! k = (i, w) \<Longrightarrow> worker_step (dp_quit d) w w' dl fl \<Longrightarrow>
    disp_step E d (d\<lparr>dp_workers := (dp_workers d)[k := (i, w')], dp_delivered := dp_delivered d + dl, dp_failed := dp_failed d + fl\<rparr>)"
| work_retired: "k < length (dp_retired d) \<Longrightarrow> worker_step (dp_quit d) (dp_retired d ! k) w' dl fl \<Longrightarrow>
    disp_step E d (d\<lparr>dp_retired := (dp_retired d)[k := w'], dp_delivered := dp_delivered d + dl, dp_failed := dp_failed d + fl\<rparr>)"

inductive_cases disp_stepE: "disp_step E d d'"

section \<open>What holds of every worker\<close>

fun in_flight :: "wphase \<Rightarrow> lane \<Rightarrow> nat" where
  "in_flight (WSwap ls c ev) l = c l" | "in_flight (WNotice c) l = c l" | "in_flight (WBack ls c) l = c l" | "in_flight _ l = 0"

text \<open>Nothing is lost, duplicated or reordered within a lane; every lane is bounded and holds only its
  own events, which match the filters; every drop is still owed, being reported, or reported.\<close>

definition lane_ok :: "nat \<Rightarrow> worker \<Rightarrow> lane \<Rightarrow> bool" where
  "lane_ok b w l \<longleftrightarrow> wk_accepted w l = wk_taken w l @ sw_queues w l \<and> length (sw_queues w l) \<le> newLanes b l
     \<and> (\<forall>ev\<in>set (wk_accepted w l). laneIndex (ev_EventType ev) = l \<and> matches w (ev_EventType ev))"

definition debt_ok :: "worker \<Rightarrow> lane \<Rightarrow> bool" where
  "debt_ok w l \<longleftrightarrow> wk_dropped w l = sw_pending w l + wk_reported w l + in_flight (wk_phase w) l"

fun back_ok :: "wphase \<Rightarrow> bool" where
  "back_ok (WBack ls c) \<longleftrightarrow> (\<forall>l. l \<notin> set ls \<longrightarrow> c l = 0)"
| "back_ok _ \<longleftrightarrow> True"

definition worker_ok :: "nat \<Rightarrow> worker \<Rightarrow> bool" where
  "worker_ok b w \<longleftrightarrow> (\<forall>l. lane_ok b w l \<and> debt_ok w l) \<and> back_ok (wk_phase w)"

lemma lane_ok_cong:
  assumes "lane_ok b w l" "wk_accepted w' l = wk_accepted w l" "wk_taken w' l = wk_taken w l" "sw_queues w' l = sw_queues w l"
    "sw_filters w' = sw_filters w" "sw_filtersOK w' = sw_filtersOK w"
  shows "lane_ok b w' l"
  using assms unfolding lane_ok_def matches_def by simp

text \<open>An event of a lower lane is taken past a waiting security event at most once.\<close>

definition order_ok :: "worker \<Rightarrow> bool" where
  "order_ok w \<longleftrightarrow> wk_overtaken w \<le> 1
     \<and> (wk_overtaken w = 1 \<and> sw_queues w Security \<noteq> [] \<longrightarrow> wk_phase w \<notin> {WRecv (Poll Anonymous), WRecv (Poll Bulk), WRecv Block})"

lemma worker_ok_new: "worker_ok b (new_worker fp s f)" "order_ok (new_worker fp s f)"
  by (simp_all add: worker_ok_def lane_ok_def debt_ok_def order_ok_def new_worker_def)

lemma worker_ok_retire: "worker_ok b w \<Longrightarrow> worker_ok b (retire w)" "order_ok w \<Longrightarrow> order_ok (retire w)"
  by (simp_all add: worker_ok_def lane_ok_def debt_ok_def order_ok_def retire_def matches_def)

lemma worker_ok_enqueue:
  assumes "worker_ok b w" "enqueue b ev l w = (dropped, w')" "laneIndex (ev_EventType ev) = l" "matches w (ev_EventType ev)"
  shows "worker_ok b w'"
proof (cases "length (sw_queues w l) < newLanes b l")
  case True
  have ok: "lane_ok b w l'" for l' using assms(1) by (simp add: worker_ok_def)
  have w': "w' = w\<lparr>sw_queues := (sw_queues w)(l := sw_queues w l @ [ev]), wk_accepted := (wk_accepted w)(l := wk_accepted w l @ [ev]),
      wk_overtaken := if l = Security \<and> sw_queues w Security = [] then 0 else wk_overtaken w\<rparr>"
    using assms(2) True by (simp add: enqueue_def)
  have "lane_ok b w' l'" for l'
  proof (cases "l' = l")
    case True
    have "lane_ok b w l" using assms(1) by (simp add: worker_ok_def)
    then show ?thesis using True assms(3,4) \<open>length (sw_queues w l) < newLanes b l\<close> by (simp add: w' lane_ok_def matches_def)
  next
    case False
    then show ?thesis using assms(1) by (intro lane_ok_cong [OF ok]) (simp_all add: w')
  qed
  moreover have "debt_ok w' l'" "back_ok (wk_phase w')" for l' using assms(1) by (simp_all add: worker_ok_def debt_ok_def w')
  ultimately show ?thesis by (simp add: worker_ok_def)
next
  case False
  have ok: "lane_ok b w l'" for l' using assms(1) by (simp add: worker_ok_def)
  have w': "w' = w\<lparr>sw_pending := (sw_pending w)(l := sw_pending w l + 1), wk_dropped := (wk_dropped w)(l := wk_dropped w l + 1)\<rparr>"
    using assms(2) False by (simp add: enqueue_def)
  have "lane_ok b w' l'" for l' using assms(1) by (intro lane_ok_cong [OF ok]) (simp_all add: w')
  moreover have "debt_ok w' l'" "back_ok (wk_phase w')" for l' using assms(1) by (simp_all add: worker_ok_def debt_ok_def w')
  ultimately show ?thesis by (simp add: worker_ok_def)
qed

lemma order_ok_enqueue: "order_ok w \<Longrightarrow> enqueue b ev l w = (dropped, w') \<Longrightarrow> order_ok w'"
  by (auto simp: order_ok_def enqueue_def split: if_splits)

lemma worker_ok_take:
  assumes "worker_ok b w" "wk_phase w = WRecv r" "sw_queues w l = ev # rest"
  shows "worker_ok b (take_event l ev rest w)"
proof -
  have ok: "lane_ok b w l'" for l' using assms(1) by (simp add: worker_ok_def)
  have "lane_ok b (take_event l ev rest w) l'" for l'
  proof (cases "l' = l")
    case True
    have "lane_ok b w l" using assms(1) by (simp add: worker_ok_def)
    then show ?thesis using True assms(3) by (simp add: take_event_def lane_ok_def matches_def)
  next
    case False
    then show ?thesis using assms(1) by (intro lane_ok_cong [OF ok]) (simp_all add: take_event_def)
  qed
  moreover have "debt_ok (take_event l ev rest w) l'" for l'
    using assms(1,2) by (simp add: worker_ok_def debt_ok_def take_event_def)
  ultimately show ?thesis by (simp add: worker_ok_def) (simp add: take_event_def)
qed

text \<open>A step that leaves the lanes alone.\<close>

lemma worker_ok_bookkeeping:
  assumes "worker_ok b w" "wk_accepted w' = wk_accepted w" "wk_taken w' = wk_taken w" "sw_queues w' = sw_queues w"
    "sw_filters w' = sw_filters w" "sw_filtersOK w' = sw_filtersOK w" "\<And>l. debt_ok w l \<Longrightarrow> debt_ok w' l" "back_ok (wk_phase w')"
  shows "worker_ok b w'"
  using assms lane_ok_cong [of b w _ w'] by (simp add: worker_ok_def)

lemma all_lanes: "l \<in> set lanes"
  by (cases l) (simp_all add: lanes_def)

lemma worker_ok_step:
  assumes "worker_step quit w w' dl fl" "worker_ok b w"
  shows "worker_ok b w'"
  using assms(1)
proof (cases rule: worker_step.cases)
  case (poll_hit l ev rest)
  then show ?thesis using worker_ok_take [OF assms(2)] by simp
next
  case (select_hit l ev rest)
  then show ?thesis using worker_ok_take [OF assms(2)] by simp
next
  case (swapped_none c ev)
  have "c l = 0" for l by (cases l) (use swapped_none(5) in simp_all)
  then show ?thesis using swapped_none by (intro worker_ok_bookkeeping [OF assms(2)]) (simp_all add: debt_ok_def)
next
  case (put_back l ls c)
  have "back_ok (WBack (l # ls) c)" using assms(2) put_back(4) by (simp add: worker_ok_def)
  then show ?thesis using put_back by (intro worker_ok_bookkeeping [OF assms(2)]) (simp_all add: debt_ok_def)
next
  case (put_back_done c)
  have "back_ok (WBack [] c)" using assms(2) put_back_done(4) by (simp add: worker_ok_def)
  then show ?thesis using put_back_done by (intro worker_ok_bookkeeping [OF assms(2)]) (simp_all add: debt_ok_def)
next
  case (notice_fail c)
  then show ?thesis using all_lanes by (intro worker_ok_bookkeeping [OF assms(2)]) (simp_all add: debt_ok_def)
qed (intro worker_ok_bookkeeping [OF assms(2)]; simp add: debt_ok_def)+

lemma order_ok_step:
  assumes "worker_step quit w w' dl fl" "order_ok w"
  shows "order_ok w'"
  using assms(1)
proof (cases rule: worker_step.cases)
  case (poll_hit l ev rest)
  then show ?thesis using assms(2) by (cases l) (auto simp: order_ok_def take_event_def)
next
  case (select_hit l ev rest)
  then show ?thesis using assms(2) by (cases l) (auto simp: order_ok_def take_event_def)
next
  case (poll_miss l)
  then show ?thesis using assms(2) by (cases l) (auto simp: order_ok_def)
qed (use assms(2) in \<open>auto simp: order_ok_def\<close>)

section \<open>What holds of the dispatcher\<close>

definition all_workers :: "dispatcher \<Rightarrow> worker list" where
  "all_workers d = map snd (dp_workers d) @ dp_retired d"

fun router_ok :: "rphase \<Rightarrow> bool" where
  "router_ok (RRefresh ev l) \<longleftrightarrow> laneIndex (ev_EventType ev) = l"
| "router_ok (RRoute ev l is) \<longleftrightarrow> laneIndex (ev_EventType ev) = l"
| "router_ok _ \<longleftrightarrow> True"

definition disp_ok :: "dispatcher \<Rightarrow> bool" where
  "disp_ok d \<longleftrightarrow> (\<forall>l. length (dp_intake d l) \<le> newLanes (dp_bufSize d) l \<and> (\<forall>ev\<in>set (dp_intake d l). laneIndex (ev_EventType ev) = l))
     \<and> router_ok (dp_router d) \<and> distinct (map fst (dp_workers d))
     \<and> (\<forall>w\<in>set (all_workers d). worker_ok (dp_bufSize d) w \<and> order_ok w)
     \<and> (\<forall>l. sum_list (map (\<lambda>w. wk_dropped w l) (all_workers d)) \<le> dp_drops d l)"

definition workers_ok :: "nat \<Rightarrow> worker list \<Rightarrow> bool" where
  "workers_ok b ws \<longleftrightarrow> (\<forall>w\<in>set ws. worker_ok b w \<and> order_ok w)"

definition drops_of :: "lane \<Rightarrow> worker list \<Rightarrow> nat" where
  "drops_of l ws = sum_list (map (\<lambda>w. wk_dropped w l) ws)"

lemma drops_of_simps [simp]: "drops_of l [] = 0" "drops_of l (w # ws) = wk_dropped w l + drops_of l ws"
  "drops_of l (xs @ ys) = drops_of l xs + drops_of l ys"
  by (simp_all add: drops_of_def)

lemma workers_ok_simps [simp]: "workers_ok b []" "workers_ok b (w # ws) \<longleftrightarrow> worker_ok b w \<and> order_ok w \<and> workers_ok b ws"
  "workers_ok b (xs @ ys) \<longleftrightarrow> workers_ok b xs \<and> workers_ok b ys"
  by (auto simp: workers_ok_def)

lemma drops_of_nth_update: "k < length ws \<Longrightarrow> wk_dropped w l = wk_dropped (ws ! k) l \<Longrightarrow> drops_of l (ws[k := w]) = drops_of l ws"
  by (simp add: drops_of_def map_update) (metis list_update_id map_update nth_map)

lemma worker_step_drops: "worker_step quit w w' dl fl \<Longrightarrow> wk_dropped w' = wk_dropped w"
  by (induction rule: worker_step.induct) (simp_all add: take_event_def)

lemma disp_ok_iff:
  "disp_ok d \<longleftrightarrow> (\<forall>l. length (dp_intake d l) \<le> newLanes (dp_bufSize d) l \<and> (\<forall>ev\<in>set (dp_intake d l). laneIndex (ev_EventType ev) = l))
     \<and> router_ok (dp_router d) \<and> distinct (map fst (dp_workers d)) \<and> workers_ok (dp_bufSize d) (all_workers d)
     \<and> (\<forall>l. drops_of l (all_workers d) \<le> dp_drops d l)"
  by (simp add: disp_ok_def workers_ok_def drops_of_def)

text \<open>Reconciliation: every worker after it was there before, retired or not, or is new.\<close>

definition recon_ok :: "nat \<Rightarrow> (lane \<Rightarrow> nat) \<Rightarrow> (int \<times> worker) list \<times> worker list \<times> nat \<Rightarrow> bool" where
  "recon_ok b drops st \<longleftrightarrow> (case st of (ws, ret, failed) \<Rightarrow> distinct (map fst ws) \<and> workers_ok b (map snd ws @ ret)
     \<and> (\<forall>l. drops_of l (map snd ws @ ret) \<le> drops l))"

lemma new_worker_drops [simp]: "wk_dropped (new_worker fp s f) l = 0"
  by (simp add: new_worker_def)

lemma retire_drops [simp]: "wk_dropped (retire w) l = wk_dropped w l"
  by (simp add: retire_def)

lemma drops_of_split:
  assumes "distinct (map fst ws)" "map_of ws i = Some w"
  shows "drops_of l (map snd (filter (\<lambda>x. fst x \<noteq> i) ws)) + wk_dropped w l = drops_of l (map snd ws)"
  using assms
proof (induction ws)
  case (Cons x ws)
  show ?case
  proof (cases "fst x = i")
    case True
    then have "filter (\<lambda>x. fst x \<noteq> i) ws = ws" using Cons.prems(1) by (auto simp: filter_id_conv image_iff)
    then show ?thesis using True Cons.prems(2) by (cases x) auto
  next
    case False
    then have "map_of ws i = Some w" using Cons.prems(2) by (cases x) auto
    then show ?thesis using False Cons.IH Cons.prems(1) by simp
  qed
qed simp

lemma workers_ok_filter: "workers_ok b (map snd ws) \<Longrightarrow> workers_ok b (map snd (filter P ws))"
  by (auto simp: workers_ok_def)

lemma workers_ok_lookup: "workers_ok b (map snd ws) \<Longrightarrow> map_of ws i = Some w \<Longrightarrow> worker_ok b w \<and> order_ok w"
  by (force simp: workers_ok_def dest: map_of_SomeD)

lemma recon_ok_row:
  assumes "recon_ok b drops st"
  shows "recon_ok b drops (reconcile_row E row st)"
proof -
  obtain ws ret failed where st: "st = (ws, ret, failed)" by (cases st)
  have ok: "distinct (map fst ws)" "workers_ok b (map snd ws)" "workers_ok b ret" "\<And>l. drops_of l (map snd ws) + drops_of l ret \<le> drops l"
    using assms by (simp_all add: recon_ok_def st)
  let ?new = "\<lambda>s. new_worker (fingerprint row) s (ParseFilters E (ig_FiltersJSON row))"
  show ?thesis
  proof (cases "map_of ws (ig_ID row)")
    case None
    then have "ig_ID row \<notin> fst ` set ws" by (simp add: map_of_eq_None_iff)
    then show ?thesis
      using ok None worker_ok_new by (auto simp: reconcile_row_def st recon_ok_def Let_def split: sum.split)
  next
    case (Some w)
    let ?ws = "filter (\<lambda>x. fst x \<noteq> ig_ID row) ws"
    have "distinct (map fst ?ws)" "ig_ID row \<notin> fst ` set ?ws" using ok(1) by (auto intro: distinct_map_filter)
    moreover have "workers_ok b (map snd ?ws)" "worker_ok b (retire w)" "order_ok (retire w)"
      using workers_ok_filter [OF ok(2)] workers_ok_lookup [OF ok(2) Some] worker_ok_retire by auto
    moreover have "drops_of l (map snd ?ws) + (drops_of l ret + wk_dropped w l) \<le> drops l" for l
      using drops_of_split [OF ok(1) Some, of l] ok(4) [of l] by simp
    ultimately show ?thesis
      using ok Some worker_ok_new assms by (auto simp: reconcile_row_def st recon_ok_def Let_def split: sum.split)
  qed
qed

lemma recon_ok_rows: "recon_ok b drops st \<Longrightarrow> recon_ok b drops (reconcile E rows st)"
proof (induction rows arbitrary: st)
  case (Cons row rows)
  then show ?case using recon_ok_row by simp
qed simp

lemma workers_ok_retire: "workers_ok b ws \<Longrightarrow> workers_ok b (map retire ws)"
  using worker_ok_retire by (auto simp: workers_ok_def)

lemma drops_of_retire [simp]: "drops_of l (map (\<lambda>x. retire (f x)) xs) = drops_of l (map f xs)"
  by (simp add: drops_of_def comp_def)

lemma drops_of_partition:
  "drops_of l (map snd (filter P ws)) + drops_of l (map snd (filter (\<lambda>x. \<not> P x) ws)) = drops_of l (map snd ws)"
  by (induction ws) auto

lemma disp_ok_refresh:
  assumes "disp_ok d"
  shows "disp_ok (refresh E fault db d) \<and> dp_router (refresh E fault db d) = dp_router d"
proof (cases "refresh E fault db d = d")
  case False
  then obtain rows ws ret failed where
    r: "reconcile E rows (dp_workers d, dp_retired d, dp_failed d) = (ws, ret, failed)"
    "refresh E fault db d = d\<lparr>dp_lastRefresh := Some (dp_now d), dp_workers := filter (\<lambda>x. fst x \<in> set (map ig_ID rows)) ws,
        dp_retired := ret @ map (\<lambda>x. retire (snd x)) (filter (\<lambda>x. fst x \<notin> set (map ig_ID rows)) ws), dp_failed := failed\<rparr>"
    by (auto simp: refresh_def Let_def split: if_splits sum.splits prod.splits)
  have "recon_ok (dp_bufSize d) (dp_drops d) (dp_workers d, dp_retired d, dp_failed d)"
    using assms by (simp add: disp_ok_iff recon_ok_def all_workers_def)
  from recon_ok_rows [OF this, of E rows] have k: "distinct (map fst ws)" "workers_ok (dp_bufSize d) (map snd ws)" "workers_ok (dp_bufSize d) ret"
    "\<And>l. drops_of l (map snd ws) + drops_of l ret \<le> dp_drops d l"
    by (simp_all add: r(1) recon_ok_def)
  let ?P = "\<lambda>x. fst x \<in> set (map ig_ID rows)"
  have "workers_ok (dp_bufSize d) (map (\<lambda>x. retire (snd x)) (filter (\<lambda>x. \<not> ?P x) ws))"
    using workers_ok_retire [OF workers_ok_filter [OF k(2)]] by (simp add: comp_def)
  moreover have "drops_of l (map snd (filter ?P ws)) + (drops_of l ret + drops_of l (map snd (filter (\<lambda>x. \<not> ?P x) ws))) \<le> dp_drops d l" for l
    using drops_of_partition [of l ?P ws] k(4) [of l] by simp
  moreover have "distinct (map fst (filter ?P ws))" using k(1) by (rule distinct_map_filter)
  ultimately show ?thesis
    using assms k(3) workers_ok_filter [OF k(2), of ?P] unfolding r(2) by (simp add: disp_ok_iff all_workers_def)
qed (use assms in simp)

lemma map_replace_fst: "map fst (map (\<lambda>x. if fst x = i then (i, w) else x) ws) = map fst ws"
  by (induction ws) auto

lemma drops_of_replace:
  assumes "distinct (map fst ws)" "map_of ws i = Some w"
  shows "drops_of l (map snd (map (\<lambda>x. if fst x = i then (i, w') else x) ws)) + wk_dropped w l = drops_of l (map snd ws) + wk_dropped w' l"
  using assms
proof (induction ws)
  case (Cons x ws)
  show ?case
  proof (cases "fst x = i")
    case True
    then have "map (\<lambda>x. if fst x = i then (i, w') else x) ws = ws" using Cons.prems(1) by (auto intro!: map_idI simp: image_iff)
    then show ?thesis using True Cons.prems(2) by (cases x) auto
  next
    case False
    then have "map_of ws i = Some w" using Cons.prems(2) by (cases x) auto
    then show ?thesis using False Cons.IH Cons.prems(1) by simp
  qed
qed simp

lemma disp_ok_route:
  assumes "disp_ok d" "laneIndex (ev_EventType ev) = l"
  shows "disp_ok (route_to ev l i d)"
proof (cases "\<exists>w. map_of (dp_workers d) i = Some w \<and> matches w (ev_EventType ev)")
  case True
  then obtain w where w: "map_of (dp_workers d) i = Some w" "matches w (ev_EventType ev)" by blast
  obtain dropped w' where e: "enqueue (dp_bufSize d) ev l w = (dropped, w')" by (cases "enqueue (dp_bufSize d) ev l w")
  let ?ws = "map (\<lambda>x. if fst x = i then (i, w') else x) (dp_workers d)"
  have ok: "workers_ok (dp_bufSize d) (map snd (dp_workers d))" "workers_ok (dp_bufSize d) (dp_retired d)" "distinct (map fst (dp_workers d))"
    using assms(1) by (simp_all add: disp_ok_iff all_workers_def)
  have "worker_ok (dp_bufSize d) w'" "order_ok w'"
    using worker_ok_enqueue [OF _ e assms(2) w(2)] order_ok_enqueue [OF _ e] workers_ok_lookup [OF ok(1) w(1)] by blast+
  then have new: "workers_ok (dp_bufSize d) (map snd ?ws)" "distinct (map fst ?ws)"
    using ok(1,3) unfolding map_replace_fst by (auto simp: workers_ok_def)
  have grow: "wk_dropped w' l' = wk_dropped w l' + (if dropped \<and> l' = l then 1 else 0)" for l'
    using e by (auto simp: enqueue_def split: if_splits)
  have bound: "drops_of l' (map snd ?ws) + drops_of l' (dp_retired d) \<le> dp_drops d l' + (if dropped \<and> l' = l then 1 else 0)" for l'
  proof -
    have "drops_of l' (map snd (dp_workers d)) + drops_of l' (dp_retired d) \<le> dp_drops d l'"
      using assms(1) by (simp add: disp_ok_iff all_workers_def)
    then show ?thesis using drops_of_replace [OF ok(3) w(1), of l' w'] grow [of l'] by linarith
  qed
  show ?thesis
  proof (cases dropped)
    case True
    then have "route_to ev l i d = noteDrop l (d\<lparr>dp_workers := ?ws\<rparr>)" using w e by (simp add: route_to_def)
    moreover have "drops_of l' (map snd ?ws) + drops_of l' (dp_retired d) \<le> ((dp_drops d)(l := dp_drops d l + 1)) l'" for l'
      using bound [of l'] True by (cases "l' = l") simp_all
    ultimately show ?thesis using assms(1) ok(2) new by (simp add: disp_ok_iff all_workers_def noteDrop_def del: map_map fun_upd_apply)
  next
    case False
    then have "route_to ev l i d = d\<lparr>dp_workers := ?ws\<rparr>" using w e by (simp add: route_to_def)
    then show ?thesis using assms(1) ok(2) new bound False by (simp add: disp_ok_iff all_workers_def del: map_map)
  qed
next
  case False
  then show ?thesis using assms(1) by (auto simp: route_to_def split: option.split)
qed

lemma disp_ok_push: "disp_ok d \<Longrightarrow> disp_ok (Push ev d)"
proof (cases "length (dp_intake d (laneIndex (ev_EventType ev))) < newLanes (dp_bufSize d) (laneIndex (ev_EventType ev))")
  case True
  assume "disp_ok d"
  then show ?thesis using True by (auto simp: Push_def Let_def disp_ok_iff all_workers_def)
next
  case False
  assume "disp_ok d"
  then show ?thesis using False by (auto simp: Push_def Let_def disp_ok_iff all_workers_def noteDrop_def intro: le_SucI)
qed

lemma workers_ok_nth_update:
  "workers_ok b ws \<Longrightarrow> worker_ok b w \<and> order_ok w \<Longrightarrow> workers_ok b (ws[k := w])"
  by (auto simp: workers_ok_def dest!: subsetD [OF set_update_subset_insert])

lemma disp_ok_receive:
  assumes "disp_ok d" "dp_intake d l = ev # rest"
  shows "disp_ok (d\<lparr>dp_intake := (dp_intake d)(l := rest), dp_router := RRefresh ev l\<rparr>)"
proof -
  have "length (ev # rest) \<le> newLanes (dp_bufSize d) l" "\<forall>e\<in>set (ev # rest). laneIndex (ev_EventType e) = l"
    using assms unfolding disp_ok_iff by metis+
  then show ?thesis using assms(1) by (simp add: disp_ok_iff all_workers_def)
qed

lemma disp_ok_step:
  assumes "disp_step E d d'" "disp_ok d"
  shows "disp_ok d'"
  using assms(1)
proof (cases rule: disp_step.cases)
  case (push ev)
  then show ?thesis using disp_ok_push [OF assms(2)] by simp
next
  case (router_hit l ev rest)
  then show ?thesis using disp_ok_receive [OF assms(2)] by simp
next
  case (router_select l ev rest)
  then show ?thesis using disp_ok_receive [OF assms(2)] by simp
next
  case (router_refresh ev l d1 fault db js)
  have "laneIndex (ev_EventType ev) = l" using assms(2) router_refresh(2) by (simp add: disp_ok_iff)
  then show ?thesis using disp_ok_refresh [OF assms(2), of E fault db] router_refresh by (simp add: disp_ok_iff all_workers_def)
next
  case (router_route ev l i js)
  have "laneIndex (ev_EventType ev) = l" using assms(2) router_route(2) by (simp add: disp_ok_iff)
  then have "disp_ok (route_to ev l i d)" by (rule disp_ok_route [OF assms(2)])
  then show ?thesis using \<open>laneIndex (ev_EventType ev) = l\<close> unfolding router_route(1) by (simp add: disp_ok_iff all_workers_def)
next
  case (work k i w w' dl fl)
  have w: "w = map snd (dp_workers d) ! k" "k < length (map snd (dp_workers d))" using work by simp_all
  have ok: "workers_ok (dp_bufSize d) (map snd (dp_workers d))" "workers_ok (dp_bufSize d) (dp_retired d)"
    using assms(2) by (simp_all add: disp_ok_iff all_workers_def)
  have "w \<in> set (map snd (dp_workers d))" unfolding w(1) by (rule nth_mem) (rule w(2))
  then have "worker_ok (dp_bufSize d) w" "order_ok w" using ok(1) unfolding workers_ok_def by blast+
  then have "workers_ok (dp_bufSize d) ((map snd (dp_workers d))[k := w'])"
    using worker_ok_step [OF work(4)] order_ok_step [OF work(4)] by (intro workers_ok_nth_update [OF ok(1)]) simp
  moreover have "drops_of l ((map snd (dp_workers d))[k := w']) = drops_of l (map snd (dp_workers d))" for l
    using w worker_step_drops [OF work(4)] by (intro drops_of_nth_update) simp_all
  moreover have "map fst ((dp_workers d)[k := (i, w')]) = map fst (dp_workers d)"
    using work(2,3) by (simp add: map_update) (metis fst_conv list_update_id nth_map)
  ultimately show ?thesis using assms(2) ok(2) work(1) by (simp add: disp_ok_iff all_workers_def map_update)
next
  case (work_retired k w' dl fl)
  have ok: "workers_ok (dp_bufSize d) (dp_retired d)" using assms(2) by (simp add: disp_ok_iff all_workers_def)
  then have "worker_ok (dp_bufSize d) (dp_retired d ! k)" "order_ok (dp_retired d ! k)" using work_retired(2) by (simp_all add: workers_ok_def)
  then have "workers_ok (dp_bufSize d) ((dp_retired d)[k := w'])"
    using worker_ok_step [OF work_retired(3)] order_ok_step [OF work_retired(3)] by (intro workers_ok_nth_update [OF ok]) simp
  moreover have "drops_of l ((dp_retired d)[k := w']) = drops_of l (dp_retired d)" for l
    using work_retired(2) worker_step_drops [OF work_retired(3)] by (intro drops_of_nth_update) simp_all
  ultimately show ?thesis using assms(2) work_retired(1) by (simp add: disp_ok_iff all_workers_def)
qed (use assms(2) in \<open>auto simp: disp_ok_iff all_workers_def\<close>)

lemma disp_ok_new: "disp_ok (NewDispatcher n t)"
  by (simp add: disp_ok_iff NewDispatcher_def all_workers_def)

lemma disp_ok_reachable: "(disp_step E)\<^sup>*\<^sup>* (NewDispatcher n t) d \<Longrightarrow> disp_ok d"
  by (induction rule: rtranclp_induct) (auto simp: disp_ok_new intro: disp_ok_step)

section \<open>A worker left alone empties its queues\<close>

fun rank :: "wphase \<Rightarrow> nat" where
  "rank (WSend ev) = 19" | "rank (WSwap ls c ev) = 15 + length ls" | "rank (WNotice c) = 14" | "rank (WBack ls c) = 10 + length ls"
| "rank (WRecv (Poll Security)) = 4" | "rank (WRecv (Poll Anonymous)) = 3" | "rank (WRecv (Poll Bulk)) = 2" | "rank (WRecv Block) = 1"
| "rank WExit = 0"

definition backlog :: "worker \<Rightarrow> nat" where
  "backlog w = length (sw_queues w Security) + length (sw_queues w Anonymous) + length (sw_queues w Bulk)"

definition wmeasure :: "worker \<Rightarrow> nat" where
  "wmeasure w = 20 * backlog w + rank (wk_phase w)"

lemma take_measure:
  assumes "sw_queues w l = ev # rest" "wk_phase w = WRecv r"
  shows "wmeasure (take_event l ev rest w) < wmeasure w"
proof -
  have "backlog w = Suc (backlog (take_event l ev rest w))"
    using assms(1) by (cases l) (simp_all add: backlog_def take_event_def)
  then show ?thesis by (simp add: wmeasure_def) (simp add: take_event_def)
qed

lemma worker_step_measure: "worker_step quit w w' dl fl \<Longrightarrow> wmeasure w' < wmeasure w"
proof (induction rule: worker_step.induct)
  case (poll_hit w l ev rest)
  then show ?case by (intro take_measure)
next
  case (select_hit w l ev rest)
  then show ?case by (intro take_measure)
next
  case (poll_miss w l)
  then show ?case by (cases l) (simp_all add: wmeasure_def backlog_def)
qed (simp_all add: wmeasure_def backlog_def lanes_def)

inductive worker_steps :: "bool \<Rightarrow> nat \<Rightarrow> worker \<Rightarrow> worker \<Rightarrow> bool" for quit where
  none: "worker_steps quit 0 w w"
| more: "worker_step quit w w' dl fl \<Longrightarrow> worker_steps quit n w' w'' \<Longrightarrow> worker_steps quit (Suc n) w w''"

lemma worker_steps_bound: "worker_steps quit n w w' \<Longrightarrow> n + wmeasure w' \<le> wmeasure w"
proof (induction rule: worker_steps.induct)
  case (more w w' dl fl n w'')
  then show ?case using worker_step_measure [OF more(1)] by linarith
qed simp

lemma worker_stuck:
  assumes "\<And>w' dl fl. \<not> worker_step quit w w' dl fl"
  shows "wk_phase w = WExit \<or> (wk_phase w = WRecv Block \<and> backlog w = 0 \<and> \<not> quit \<and> \<not> sw_stop w)"
proof (cases "wk_phase w")
  case (WRecv r)
  show ?thesis
  proof (cases r)
    case (Poll l)
    then show ?thesis using WRecv assms worker_step.poll_hit worker_step.poll_miss by (cases "sw_queues w l") blast+
  next
    case Block
    then have "sw_queues w l = []" for l using WRecv assms worker_step.select_hit by (cases "sw_queues w l") blast+
    moreover have "\<not> quit \<and> \<not> sw_stop w" using WRecv Block assms worker_step.select_stop by blast
    ultimately show ?thesis using WRecv Block by (simp add: backlog_def)
  qed
next
  case (WSend ev)
  then show ?thesis using assms worker_step.send_ok by blast
next
  case (WSwap ls c ev)
  then show ?thesis
    using assms worker_step.swap worker_step.swapped_none worker_step.swapped_some by (cases ls) blast+
next
  case (WNotice c)
  then show ?thesis using assms worker_step.notice_ok by blast
next
  case (WBack ls c)
  then show ?thesis using assms worker_step.put_back worker_step.put_back_done by (cases ls) blast+
qed simp

section \<open>Playing a schedule\<close>

definition router_next :: "int_env \<Rightarrow> bool \<Rightarrow> int_db \<Rightarrow> dispatcher \<Rightarrow> dispatcher" where
  "router_next E fault db d =
     (case dp_router d of
        RRecv (Poll l) \<Rightarrow>
          (case dp_intake d l of [] \<Rightarrow> d\<lparr>dp_router := RRecv (after_poll l)\<rparr>
           | ev # rest \<Rightarrow> d\<lparr>dp_intake := (dp_intake d)(l := rest), dp_router := RRefresh ev l\<rparr>)
      | RRecv Block \<Rightarrow> d
      | RRefresh ev l \<Rightarrow> (let d' = refresh E fault db d in d'\<lparr>dp_router := RRoute ev l (map fst (dp_workers d'))\<rparr>)
      | RRoute ev l [] \<Rightarrow> d\<lparr>dp_router := RRecv (Poll Security)\<rparr>
      | RRoute ev l (i # is) \<Rightarrow> (route_to ev l i d)\<lparr>dp_router := RRoute ev l is\<rparr>
      | RExit \<Rightarrow> d)"

lemma router_next_step: "router_next E fault db d = d \<or> disp_step E d (router_next E fault db d)"
proof (cases "dp_router d")
  case (RRecv r)
  show ?thesis
  proof (cases r)
    case (Poll l)
    then show ?thesis
      using RRecv disp_step.router_hit [of d l _ _ E] disp_step.router_miss [of d l E] by (cases "dp_intake d l") (simp_all add: router_next_def)
  qed (simp add: RRecv router_next_def)
next
  case (RRefresh ev l)
  then show ?thesis using disp_step.router_refresh [OF RRefresh refl refl, of E fault db] by (simp add: router_next_def Let_def)
next
  case (RRoute ev l js)
  then show ?thesis
    using disp_step.router_route [of d ev l _ _ E] disp_step.router_done [of d ev l E] by (cases js) (simp_all add: router_next_def)
qed (simp add: router_next_def)

definition worker_next :: "bool \<Rightarrow> worker \<Rightarrow> worker \<times> nat \<times> nat" where
  "worker_next ok w =
     (case wk_phase w of
        WRecv (Poll l) \<Rightarrow>
          (case sw_queues w l of [] \<Rightarrow> (w\<lparr>wk_phase := WRecv (after_poll l)\<rparr>, 0, 0) | ev # rest \<Rightarrow> (take_event l ev rest w, 0, 0))
      | WSend ev \<Rightarrow> if ok then (w\<lparr>wk_phase := WSwap lanes (\<lambda>_. 0) ev\<rparr>, 1, 0) else (w\<lparr>wk_phase := WRecv (Poll Security)\<rparr>, 0, 1)
      | WSwap (l # ls) c ev \<Rightarrow> (w\<lparr>sw_pending := (sw_pending w)(l := 0), wk_phase := WSwap ls (c(l := c l + sw_pending w l)) ev\<rparr>, 0, 0)
      | WSwap [] c ev \<Rightarrow> if c Security + c Anonymous + c Bulk = 0 then (w\<lparr>wk_phase := WRecv (Poll Security)\<rparr>, 0, 0)
          else (w\<lparr>wk_phase := WNotice c\<rparr>, 0, 0)
      | WNotice c \<Rightarrow> if ok then (w\<lparr>wk_phase := WRecv (Poll Security), wk_reported := (\<lambda>l. wk_reported w l + c l)\<rparr>, 1, 0)
          else (w\<lparr>wk_phase := WBack lanes c\<rparr>, 0, 1)
      | WBack (l # ls) c \<Rightarrow> (w\<lparr>sw_pending := (sw_pending w)(l := sw_pending w l + c l), wk_phase := WBack ls (c(l := 0))\<rparr>, 0, 0)
      | WBack [] c \<Rightarrow> (w\<lparr>wk_phase := WRecv (Poll Security)\<rparr>, 0, 0)
      | WRecv Block \<Rightarrow> if sw_stop w then (w\<lparr>wk_phase := WExit\<rparr>, 0, 0) else (w, 0, 0)
      | WExit \<Rightarrow> (w, 0, 0))"

lemma worker_next_step:
  assumes "worker_next ok w = (w', dl, fl)"
  shows "(w' = w \<and> dl = 0 \<and> fl = 0) \<or> worker_step quit w w' dl fl"
proof (cases "wk_phase w")
  case (WRecv r)
  show ?thesis
  proof (cases r)
    case (Poll l)
    then show ?thesis using WRecv assms by (cases "sw_queues w l") (auto simp: worker_next_def intro: worker_step.intros)
  next
    case Block
    then show ?thesis using WRecv assms by (auto simp: worker_next_def intro: worker_step.intros split: if_splits)
  qed
next
  case (WSwap ls c ev)
  then show ?thesis
  proof (cases ls)
    case Nil
    then show ?thesis using WSwap assms worker_step.swapped_none [of w c ev quit] worker_step.swapped_some [of w c ev quit]
      by (auto simp: worker_next_def split: if_splits)
  next
    case (Cons l ls')
    then show ?thesis using WSwap assms by (auto simp: worker_next_def intro: worker_step.intros)
  qed
next
  case (WBack ls c)
  then show ?thesis using assms by (cases ls) (auto simp: worker_next_def intro: worker_step.intros)
qed (use assms in \<open>auto simp: worker_next_def simp del: One_nat_def intro: worker_step.intros split: if_splits\<close>)

datatype dact = DPush event | DRouter int_db | DWork nat bool | DRetired nat bool | DWait time

fun dplay1 :: "int_env \<Rightarrow> dact \<Rightarrow> dispatcher \<Rightarrow> dispatcher" where
  "dplay1 E (DPush ev) d = Push ev d"
| "dplay1 E (DRouter db) d = router_next E False db d"
| "dplay1 E (DWork k ok) d =
     (if k < length (dp_workers d) then
        (case dp_workers d ! k of (i, w) \<Rightarrow> case worker_next ok w of (w', dl, fl) \<Rightarrow>
           d\<lparr>dp_workers := (dp_workers d)[k := (i, w')], dp_delivered := dp_delivered d + dl, dp_failed := dp_failed d + fl\<rparr>)
      else d)"
| "dplay1 E (DRetired k ok) d =
     (if k < length (dp_retired d) then
        (case worker_next ok (dp_retired d ! k) of (w', dl, fl) \<Rightarrow>
           d\<lparr>dp_retired := (dp_retired d)[k := w'], dp_delivered := dp_delivered d + dl, dp_failed := dp_failed d + fl\<rparr>)
      else d)"
| "dplay1 E (DWait t) d = (if 0 \<le> t then d\<lparr>dp_now := dp_now d + t\<rparr> else d)"

fun dplay :: "int_env \<Rightarrow> dact list \<Rightarrow> dispatcher \<Rightarrow> dispatcher" where
  "dplay E [] d = d"
| "dplay E (a # as) d = dplay E as (dplay1 E a d)"

lemma dplay1_step: "dplay1 E a d = d \<or> disp_step E d (dplay1 E a d)"
proof (cases a)
  case (DRouter db)
  then show ?thesis using router_next_step by simp
next
  case (DWork k ok)
  show ?thesis
  proof (cases "k < length (dp_workers d)")
    case True
    obtain i w where w: "dp_workers d ! k = (i, w)" by (cases "dp_workers d ! k")
    obtain w' dl fl where n: "worker_next ok w = (w', dl, fl)" by (cases "worker_next ok w")
    have same: "(dp_workers d)[k := (i, w)] = dp_workers d" using w by (metis list_update_id)
    show ?thesis using worker_next_step [OF n, of "dp_quit d"] disp_step.work [OF True w, of w' dl fl E] DWork True w n same by auto
  qed (simp add: DWork)
next
  case (DRetired k ok)
  show ?thesis
  proof (cases "k < length (dp_retired d)")
    case True
    obtain w' dl fl where n: "worker_next ok (dp_retired d ! k) = (w', dl, fl)" by (cases "worker_next ok (dp_retired d ! k)")
    show ?thesis using worker_next_step [OF n, of "dp_quit d"] disp_step.work_retired [OF True, of w' dl fl E] DRetired True n by auto
  qed (simp add: DRetired)
qed (auto intro: disp_step.intros)

lemma dplay_steps: "(disp_step E)\<^sup>*\<^sup>* d (dplay E as d)"
proof (induction as arbitrary: d)
  case (Cons a as)
  then show ?case using dplay1_step [of E a d] by (auto intro: converse_rtranclp_into_rtranclp)
qed simp

definition sample_row :: "string \<Rightarrow> introw" where
  "sample_row filters = \<lparr>ir_ID = 1, ir_Name = ''siem'', ir_Kind = ''webhook'', ir_Enabled = True, ir_ConfigJSON = ''hook'', ir_ConfigEnc = None,
     ir_FiltersJSON = filters, ir_CreatedBy = None, ir_CreatedAt = 0, ir_UpdatedAt = 0\<rparr>"

definition sample_db :: "string \<Rightarrow> int_db" where
  "sample_db filters = \<lparr>t_rows = [sample_row filters], t_next = 2\<rparr>"

definition sample_event :: "string \<Rightarrow> event" where
  "sample_event t = NewEvent 1 t ''bob'' [] [] [] ''corp'' 0"

definition routed :: "nat \<Rightarrow> string \<Rightarrow> string \<Rightarrow> dact list" where
  "routed n filters t = DPush (sample_event t) # replicate n (DRouter (sample_db filters))"

text \<open>Two bulk events for a bulk queue of one: the second is dropped, and reported after the first
  was delivered.\<close>

definition after_drop :: dispatcher where
  "after_drop = dplay toy_int_env (routed 6 [] ''request.a'' @ routed 6 [] ''request.b'' @ replicate 9 (DWork 0 True)) (NewDispatcher 1 0)"

lemma after_drop_reached: "(disp_step toy_int_env)\<^sup>*\<^sup>* (NewDispatcher 1 0) after_drop"
  unfolding after_drop_def by (rule dplay_steps)

section \<open>Properties\<close>

text \<open>
  C33. A flood stays in its lane: in every reachable state each queue, at the intake and at every
  sink, holds only events of its own lane, so an event can be refused at the intake only when a
  full queue's worth of events of the same lane is waiting; and a sink takes at most one event of
  a lower lane while a security event waits.
\<close>

theorem floods_stay_in_their_lane:
  assumes "(disp_step E)\<^sup>*\<^sup>* (NewDispatcher n t) d" "l = laneIndex (ev_EventType ev)"
  shows "(dp_drops (Push ev d) \<noteq> dp_drops d \<longrightarrow> length (filter (\<lambda>e. laneIndex (ev_EventType e) = l) (dp_intake d l)) = newLanes (dp_bufSize d) l)
    \<and> (l' \<noteq> l \<longrightarrow> dp_intake (Push ev d) l' = dp_intake d l' \<and> dp_drops (Push ev d) l' = dp_drops d l')
    \<and> (w \<in> set (all_workers d) \<longrightarrow> wk_overtaken w \<le> 1 \<and> (\<forall>e\<in>set (sw_queues w l'). laneIndex (ev_EventType e) = l'))"
proof -
  have ok: "disp_ok d" by (rule disp_ok_reachable [OF assms(1)])
  then have i: "length (dp_intake d l) \<le> newLanes (dp_bufSize d) l" "\<forall>e\<in>set (dp_intake d l). laneIndex (ev_EventType e) = l"
    by (simp_all add: disp_ok_iff)
  then have "filter (\<lambda>e. laneIndex (ev_EventType e) = l) (dp_intake d l) = dp_intake d l" by (intro filter_True)
  then have "dp_drops (Push ev d) \<noteq> dp_drops d \<Longrightarrow> length (filter (\<lambda>e. laneIndex (ev_EventType e) = l) (dp_intake d l)) = newLanes (dp_bufSize d) l"
    using i(1) assms(2) by (auto simp: Push_def Let_def split: if_splits)
  moreover have "l' \<noteq> l \<Longrightarrow> dp_intake (Push ev d) l' = dp_intake d l' \<and> dp_drops (Push ev d) l' = dp_drops d l'"
    using assms(2) by (auto simp: Push_def Let_def noteDrop_def)
  moreover have "wk_overtaken w \<le> 1 \<and> (\<forall>e\<in>set (sw_queues w l'). laneIndex (ev_EventType e) = l')" if "w \<in> set (all_workers d)"
  proof -
    have "lane_ok (dp_bufSize d) w l'" "order_ok w" using ok that by (simp_all add: disp_ok_def worker_ok_def)
    then show ?thesis by (auto simp: lane_ok_def order_ok_def)
  qed
  ultimately show ?thesis by blast
qed

definition bulk_full :: dispatcher where
  "bulk_full = dplay toy_int_env [DPush (sample_event ''request.a'')] (NewDispatcher 1 0)"

theorem floods_stay_in_their_lane_witness:
  "dp_drops (Push (sample_event ''request.b'') bulk_full) Bulk = 1
   \<and> length (filter (\<lambda>e. laneIndex (ev_EventType e) = Bulk) (dp_intake bulk_full Bulk)) = newLanes (dp_bufSize bulk_full) Bulk
   \<and> dp_drops (Push (sample_event ''request.b'') bulk_full) Security = dp_drops bulk_full Security"
proof -
  have r: "(disp_step toy_int_env)\<^sup>*\<^sup>* (NewDispatcher 1 0) bulk_full" unfolding bulk_full_def by (rule dplay_steps)
  have e: "Bulk = laneIndex (ev_EventType (sample_event ''request.b''))" "dp_drops (Push (sample_event ''request.b'') bulk_full) Bulk = 1"
    "dp_drops bulk_full Bulk = 0" by code_simp+
  have "dp_drops (Push (sample_event ''request.b'') bulk_full) \<noteq> dp_drops bulk_full" using e(2,3) by (metis zero_neq_one)
  then show ?thesis using floods_stay_in_their_lane [OF r e(1), of Security] e(2) by simp
qed

lemma worker_completes: "\<exists>n v. worker_steps quit n w v \<and> (\<forall>v' dl fl. \<not> worker_step quit v v' dl fl)"
proof (induction "wmeasure w" arbitrary: w rule: less_induct)
  case less
  show ?case
  proof (cases "\<exists>w' dl fl. worker_step quit w w' dl fl")
    case True
    then obtain w' dl fl where w': "worker_step quit w w' dl fl" by blast
    then show ?thesis using less [OF worker_step_measure [OF w']] worker_steps.more [OF w'] by blast
  next
    case False
    then show ?thesis using worker_steps.none by blast
  qed
qed

text \<open>
  C34. Every worker finishes its work: left without new events, a worker makes at most twenty steps
  per waiting event and four more, however its deliveries end; every run of it can be completed,
  and where it is complete the worker has exited, or it waits for more with empty queues, neither
  stopped nor cancelled.
\<close>

theorem worker_empties_its_queues:
  assumes "worker_steps quit n w w'" "wk_phase w = WRecv r"
  shows "n \<le> 20 * backlog w + 4
    \<and> (\<exists>m v. worker_steps quit m w' v \<and> (\<forall>v' dl fl. \<not> worker_step quit v v' dl fl)
         \<and> (wk_phase v = WExit \<or> (wk_phase v = WRecv Block \<and> backlog v = 0 \<and> \<not> quit \<and> \<not> sw_stop v)))"
proof
  have "rank (WRecv r) \<le> 4" by (cases "WRecv r" rule: rank.cases) auto
  then show "n \<le> 20 * backlog w + 4" using worker_steps_bound [OF assms(1)] assms(2) by (simp add: wmeasure_def)
  show "\<exists>m v. worker_steps quit m w' v \<and> (\<forall>v' dl fl. \<not> worker_step quit v v' dl fl)
         \<and> (wk_phase v = WExit \<or> (wk_phase v = WRecv Block \<and> backlog v = 0 \<and> \<not> quit \<and> \<not> sw_stop v))"
    using worker_completes [of quit w'] worker_stuck [of quit] by metis
qed

definition sample_worker :: worker where
  "sample_worker = (new_worker [] (WebhookSink ''siem'' \<lparr>wh_URL = [], wh_Headers = [], wh_BearerToken = [], wh_BasicUser = [], wh_BasicPass = [],
      wh_TimeoutSec = 0\<rparr>) (Inr []))\<lparr>sw_queues := (\<lambda>_. [])(Bulk := [sample_event ''request.a''])\<rparr>"

theorem worker_empties_its_queues_witness:
  "backlog sample_worker = 1
   \<and> (\<exists>m v. worker_steps False m sample_worker v \<and> (wk_phase v = WExit \<or> (wk_phase v = WRecv Block \<and> backlog v = 0 \<and> \<not> False \<and> \<not> sw_stop v)))"
proof -
  have "wk_phase sample_worker = WRecv (Poll Security)" by (simp add: sample_worker_def new_worker_def)
  moreover have "backlog sample_worker = 1" by code_simp
  ultimately show ?thesis using worker_empties_its_queues [OF worker_steps.none, of sample_worker _ False] by blast
qed

definition lost_state :: dispatcher where
  "lost_state = dplay toy_int_env (routed 4 [] ''admin.a'' @ replicate 7 (DWork 0 True) @ routed 4 [] ''admin.b''
     @ DWait (3 * second) # routed 6 ''admin.'' ''mail.c'' @ replicate 3 (DRetired 0 True)) (NewDispatcher 1 0)"

text \<open>
  C40. A replaced worker can lose an event without a trace: when a row changes while its worker is
  between its polls, an event that was accepted after the security lane was polled can still wait
  in the lane when the worker's blocking select picks the stop signal; the worker exits, the event
  is neither delivered nor counted as failed or dropped.
\<close>

theorem replaced_worker_can_lose_events:
  "(disp_step toy_int_env)\<^sup>*\<^sup>* (NewDispatcher 1 0) lost_state
   \<and> map (\<lambda>w. (map ev_EventType (sw_queues w Security), wk_dropped w Security)) (dp_retired lost_state) = [([''admin.b''], 0)]
   \<and> wk_phase (hd (dp_retired lost_state)) = WExit \<and> dp_drops lost_state Security = 0 \<and> dp_failed lost_state = 0"
proof -
  have "(disp_step toy_int_env)\<^sup>*\<^sup>* (NewDispatcher 1 0) lost_state" unfolding lost_state_def by (rule dplay_steps)
  moreover have "map (\<lambda>w. (map ev_EventType (sw_queues w Security), wk_dropped w Security)) (dp_retired lost_state) = [([''admin.b''], 0)]"
    "case wk_phase (hd (dp_retired lost_state)) of WExit \<Rightarrow> True | _ \<Rightarrow> False" "dp_drops lost_state Security = 0" "dp_failed lost_state = 0" by code_simp+
  ultimately show ?thesis by (simp split: wphase.splits)
qed

end
