(* ===== verification/Client_Keys.thy ===== *)
theory Client_Keys
  imports Audit_Log Net_Guard
begin

text \<open>
  Whom a request is charged to (\<open>internal/httpserver/server.go\<close>): the client address behind trusted
  proxies, the limiter keys made of an address and of an e-mail address, and the pseudonyms that
  stand for them in the audit log. \<open>netip.ParseAddr\<close>, \<open>Addr.String\<close>, HMAC-SHA256 and SHA-256 are fields
  of \<open>key_env\<close>, with the prefixes of \<open>SK_TRUSTED_PROXY_CIDRS\<close> and the pseudonymisation key.
\<close>

unbundle bit_operations_syntax

section \<open>Client addresses\<close>

record key_env =
  ke_parse :: "string \<Rightarrow> addr option"
  ke_show :: "addr \<Rightarrow> string"
  ke_trusted :: "pfx list"
  ke_hmac :: "string \<Rightarrow> string \<Rightarrow> string"
  ke_sha :: "string \<Rightarrow> string"
  ke_pseudonym :: string

text \<open>\<open>net.SplitHostPort\<close>, the host only.\<close>

definition SplitHostPort :: "string \<Rightarrow> string option" where
  "SplitHostPort hp =
     (let i = LastIndexByte CHR '':'' hp
      in if i < 0 then None
      else if hd hp = CHR ''['' then
        (let e = IndexByte CHR '']'' hp
         in if e < 0 \<or> e + 1 \<noteq> i then None
            else if IndexByte CHR ''['' (drop 1 hp) \<ge> 0 \<or> IndexByte CHR '']'' (drop (nat (e + 1)) hp) \<ge> 0 then None
            else Some (drop 1 (take (nat e) hp)))
      else if IndexByte CHR '':'' (take (nat i) hp) \<ge> 0 then None
      else if IndexByte CHR ''['' hp \<ge> 0 \<or> IndexByte CHR '']'' hp \<ge> 0 then None
      else Some (take (nat i) hp))"

definition remoteHost :: "string \<Rightarrow> string" where
  "remoteHost remoteAddr = (case SplitHostPort remoteAddr of Some host \<Rightarrow> host | None \<Rightarrow> remoteAddr)"

definition isTrustedProxy :: "'a key_env_scheme \<Rightarrow> addr \<Rightarrow> bool" where
  "isTrustedProxy E addr = list_ex (\<lambda>p. Contains p (Unmap addr)) (ke_trusted E)"

text \<open>The comma-separated entries of all the \<open>X-Forwarded-For\<close> values, left to right; \<open>xff_walk\<close> is the
  two nested loops, which read them from the right.\<close>

definition xff_parts :: "string list \<Rightarrow> string list" where
  "xff_parts hops = concat (map (split_on CHR '','') hops)"

fun xff_walk :: "'a key_env_scheme \<Rightarrow> addr \<Rightarrow> string list \<Rightarrow> string" where
  "xff_walk E client [] = ke_show E client"
| "xff_walk E client (p # ps) =
     (case ke_parse E (TrimSpace p) of
        None \<Rightarrow> ke_show E client
      | Some hop \<Rightarrow>
          let client = Unmap hop
          in if \<not> isTrustedProxy E client then ke_show E client else xff_walk E client ps)"

definition clientIP :: "'a key_env_scheme \<Rightarrow> string \<Rightarrow> string list \<Rightarrow> string" where
  "clientIP E remoteAddr hops =
     (let peer = remoteHost remoteAddr
      in case ke_parse E peer of
        None \<Rightarrow> peer
      | Some peerAddr \<Rightarrow>
          if \<not> isTrustedProxy E peerAddr then peer else xff_walk E peerAddr (rev (xff_parts hops)))"

section \<open>Limiter keys and pseudonyms\<close>

definition rateLimitIPv6Prefix :: nat where "rateLimitIPv6Prefix = 64"

text \<open>\<open>Is4\<close> of an unmapped address; the zero address is neither and \<open>PrefixFrom\<close> of it is the invalid prefix.\<close>

definition rateLimitIPKey :: "'a key_env_scheme \<Rightarrow> string \<Rightarrow> string" where
  "rateLimitIPKey E ip =
     (case ke_parse E ip of
        None \<Rightarrow> ip
      | Some addr \<Rightarrow>
          (case Unmap addr of
             Addr4 a \<Rightarrow> ke_show E (Addr4 a)
           | Addr6 a z \<Rightarrow> ke_show E (Addr6 (a AND mask6 rateLimitIPv6Prefix) []) @ ''/64''
           | NoAddr \<Rightarrow> ''invalid Prefix''))"

definition rateLimitKey :: "string \<Rightarrow> string" where
  "rateLimitKey email =
     (let p = LastIndexByte CHR ''@'' email
      in if p \<le> 0 then email
      else
        let loc = take (nat p) email; domain = drop (nat p) email;
            plus = IndexByte CHR ''+'' loc;
            loc = (if plus > 0 then take (nat plus) loc else loc)
        in loc @ domain)"

definition hashShort :: "'a key_env_scheme \<Rightarrow> string \<Rightarrow> string" where
  "hashShort E v = (if v = [] then [] else hex (take 8 (ke_hmac E (ke_pseudonym E) v)))"

definition tokenRef :: "'a key_env_scheme \<Rightarrow> string \<Rightarrow> string" where
  "tokenRef E token = (if token = [] then [] else ''tok:'' @ hex (take 8 (ke_sha E (''sealkeeper-token-ref:'' @ token))))"

definition pseudonymKey :: "(string \<Rightarrow> string) \<Rightarrow> string \<Rightarrow> string" where
  "pseudonymKey sha masterSecret = sha (''sealkeeper-pseudonym:'' @ masterSecret)"

section \<open>Lemmas\<close>

text \<open>An entry at which the walk stops.\<close>

definition xff_stop :: "'a key_env_scheme \<Rightarrow> string \<Rightarrow> bool" where
  "xff_stop E p = (case ke_parse E (TrimSpace p) of None \<Rightarrow> True | Some hop \<Rightarrow> \<not> isTrustedProxy E (Unmap hop))"

lemma xff_walk_append:
  "xff_walk E c (xs @ ys) =
     (if list_ex (xff_stop E) xs then xff_walk E c xs
      else xff_walk E (foldl (\<lambda>_ p. Unmap (the (ke_parse E (TrimSpace p)))) c xs) ys)"
  by (induction xs arbitrary: c) (auto simp: xff_stop_def Let_def split: option.splits)


lemma block64_iff:
  "a AND mask6 rateLimitIPv6Prefix = b AND mask6 rateLimitIPv6Prefix \<longleftrightarrow> drop_bit 64 a = drop_bit 64 (b::128 word)"
proof -
  have "a AND NOT (mask 64) = b AND NOT (mask 64) \<longleftrightarrow> drop_bit 64 a = drop_bit 64 b" (is "?l \<longleftrightarrow> ?r")
  proof
    assume ?l
    have "drop_bit 64 (a AND NOT (mask 64)) = drop_bit 64 (b AND NOT (mask 64))" using \<open>?l\<close> by simp
    moreover have "drop_bit 64 (w AND NOT (mask 64)) = drop_bit 64 w" for w :: "128 word"
      by (rule bit_word_eqI) (auto simp: bit_simps dest: bit_imp_le_length)
    ultimately show ?r by simp
  next
    assume ?r
    have "bit a n = bit b n" if "64 \<le> n" for n
      using arg_cong [OF \<open>?r\<close>, of "\<lambda>w. bit w (n - 64)"] that by (simp add: bit_simps)
    then show ?l by (auto simp: bit_eq_iff bit_simps)
  qed
  then show ?thesis by (simp add: mask6_def rateLimitIPv6Prefix_def)
qed

text \<open>What is relied on in \<open>Addr.String\<close>: it tells addresses apart and never holds a slash or a blank.\<close>

definition show_ok :: "'a key_env_scheme \<Rightarrow> bool" where
  "show_ok E \<longleftrightarrow> inj (ke_show E) \<and> (\<forall>a. CHR ''/'' \<notin> set (ke_show E a) \<and> CHR 0x20 \<notin> set (ke_show E a))"

text \<open>The block an address is charged to: itself, or its /64.\<close>

definition charged_block :: "addr \<Rightarrow> 32 word + 128 word option" where
  "charged_block a = (case Unmap a of Addr4 x \<Rightarrow> Inl x | Addr6 x z \<Rightarrow> Inr (Some (drop_bit 64 x)) | NoAddr \<Rightarrow> Inr None)"

lemma show_not_prefix: "show_ok E \<Longrightarrow> ke_show E a \<noteq> ke_show E b @ ''/64''"
  by (metis in_set_conv_decomp show_ok_def append.assoc append_Cons append_Nil)

lemma show_not_invalid: "show_ok E \<Longrightarrow> ke_show E a \<noteq> ''invalid Prefix''"
  unfolding show_ok_def by (metis list.set_intros(1) list.set_intros(2))

lemma prefix_not_invalid: "ke_show E a @ ''/64'' \<noteq> ''invalid Prefix''"
proof
  assume "ke_show E a @ ''/64'' = ''invalid Prefix''"
  then have "last (ke_show E a @ ''/64'') = last ''invalid Prefix''" by simp
  then show False by simp
qed

lemma addr_key_iff:
  assumes ok: "show_ok E" and a: "ke_parse E x = Some a" and b: "ke_parse E y = Some b"
  shows "rateLimitIPKey E x = rateLimitIPKey E y \<longleftrightarrow> charged_block a = charged_block b"
proof -
  have i: "ke_show E u = ke_show E v \<longleftrightarrow> u = v" for u v
    using ok by (auto simp: show_ok_def inj_def)
  note ne = show_not_prefix [OF ok] show_not_prefix [OF ok, symmetric] show_not_invalid [OF ok]
    show_not_invalid [OF ok, symmetric] prefix_not_invalid prefix_not_invalid [symmetric]
  show ?thesis
    using a b
    by (cases "Unmap a"; cases "Unmap b")
      (simp_all add: rateLimitIPKey_def charged_block_def i ne block64_iff)
qed

lemma IndexByte_absent: "c \<notin> set l \<Longrightarrow> IndexByte c l = -1"
  by (induction l) (auto simp: Let_def)

lemma tags_share_key:
  assumes "l \<noteq> []" "CHR ''+'' \<notin> set l" "CHR ''@'' \<notin> set d"
  shows "rateLimitKey (l @ CHR ''+'' # tag @ CHR ''@'' # d) = l @ CHR ''@'' # d"
    "rateLimitKey (l @ CHR ''@'' # d) = l @ CHR ''@'' # d"
proof -
  define u where "u = l @ CHR ''+'' # tag"
  have u: "IndexByte CHR ''+'' u = int (length l)" "take (length l) u = l" "u \<noteq> []"
    using assms(1) by (simp_all add: u_def IndexByte_split [OF assms(2)])
  have "rateLimitKey (u @ CHR ''@'' # d) = l @ CHR ''@'' # d"
    unfolding rateLimitKey_def LastIndexByte_split [OF assms(3)] Let_def
    using assms(1) u by simp
  then show "rateLimitKey (l @ CHR ''+'' # tag @ CHR ''@'' # d) = l @ CHR ''@'' # d"
    by (simp add: u_def)
  show "rateLimitKey (l @ CHR ''@'' # d) = l @ CHR ''@'' # d"
    unfolding rateLimitKey_def LastIndexByte_split [OF assms(3)] Let_def
    using assms(1) by (simp add: IndexByte_absent [OF assms(2)])
qed

section \<open>Properties\<close>

text \<open>
  Forged forwarding headers do not move a client. Entries that a caller puts to the left of an entry at
  which the walk from the right stops (an address that is not a trusted proxy, or one that does not
  parse), in the same header value or in earlier ones, never change the address the request is charged
  to; and a peer that is not a trusted proxy is charged itself, whatever headers it sends.
\<close>

theorem forged_hops_are_ignored:
  assumes "list_ex (xff_stop E) (xff_parts hops)
    \<or> (\<forall>a. ke_parse E (remoteHost remoteAddr) = Some a \<longrightarrow> \<not> isTrustedProxy E a)"
  shows "clientIP E remoteAddr (forged @ hops) = clientIP E remoteAddr hops
    \<and> clientIP E remoteAddr (forged @ (f @ CHR '','' # h) # hops) = clientIP E remoteAddr (h # hops)"
proof (rule conjI)
  have p: "xff_parts (forged @ hops) = xff_parts forged @ xff_parts hops"
    "xff_parts (forged @ (f @ CHR '','' # h) # hops) = (xff_parts forged @ split_on CHR '','' f) @ xff_parts (h # hops)"
    "xff_parts (h # hops) = split_on CHR '','' h @ xff_parts hops"
    by (simp_all add: xff_parts_def split_on_append)
  show "clientIP E remoteAddr (forged @ hops) = clientIP E remoteAddr hops"
    using assms by (auto simp: clientIP_def p xff_walk_append list_ex_iff Let_def split: option.split)
  have "list_ex (xff_stop E) (xff_parts (h # hops)) \<or> (\<forall>a. ke_parse E (remoteHost remoteAddr) = Some a \<longrightarrow> \<not> isTrustedProxy E a)"
    using assms by (auto simp: p(3))
  then show "clientIP E remoteAddr (forged @ (f @ CHR '','' # h) # hops) = clientIP E remoteAddr (h # hops)"
    unfolding clientIP_def p(2) Let_def
    by (auto simp: xff_walk_append list_ex_iff split: option.split)
qed


definition bits_text :: "'a::len word \<Rightarrow> string" where
  "bits_text w = map (\<lambda>i. if bit w i then CHR ''1'' else CHR ''0'') [0..<LENGTH('a)]"

fun toy_show :: "addr \<Rightarrow> string" where
  "toy_show (Addr4 a) = CHR ''4'' # bits_text a"
| "toy_show (Addr6 a z) = CHR ''6'' # bits_text a @ hex z"
| "toy_show NoAddr = ''n''"

definition toy_parse :: "string \<Rightarrow> addr option" where
  "toy_parse s = (if s = ''10.0.0.1'' then Some (Addr4 0x0A000001) else if s = ''192.0.2.7'' then Some (Addr4 0xC0000207)
     else if s = ''2001:db8::1'' then Some (Addr6 0x20010DB8000000000000000000000001 [])
     else if s = ''2001:db8::2'' then Some (Addr6 0x20010DB8000000000000000000000002 []) else None)"

definition toy_keys :: key_env where
  "toy_keys = \<lparr>ke_parse = toy_parse, ke_show = toy_show, ke_trusted = [Pfx4 0x0A000000 8], ke_hmac = (\<lambda>k m. m),
     ke_sha = (\<lambda>m. drop 21 m), ke_pseudonym = ''k''\<rparr>"

lemma bits_text_inj: "bits_text a = bits_text b \<longleftrightarrow> a = b"
proof
  assume e: "bits_text a = bits_text b"
  show "a = b"
  proof (rule bit_word_eqI)
    fix n assume n: "n < LENGTH('a)"
    have "bits_text a ! n = bits_text b ! n" using e by simp
    then show "bit a n = bit b n" using n by (simp add: bits_text_def split: if_splits)
  qed
qed simp

lemma length_bits_text [simp]: "length (bits_text (a::'a::len word)) = LENGTH('a)"
  by (simp add: bits_text_def)

lemma bits_text_chars: "set (bits_text a) \<subseteq> {CHR ''0'', CHR ''1''}"
  by (auto simp: bits_text_def)

lemma toy_show_inj: "inj toy_show"
proof (rule injI)
  fix a b assume "toy_show a = toy_show b"
  then show "a = b" by (cases a; cases b) (auto simp: bits_text_inj dest: hex_inj)
qed

lemma toy_show_ok: "show_ok toy_keys"
proof -
  have "CHR ''/'' \<notin> set (toy_show a) \<and> CHR 0x20 \<notin> set (toy_show a)" for a
    by (cases a) (use bits_text_chars in \<open>auto dest: hex_chars\<close>)
  with toy_show_inj show ?thesis by (simp add: show_ok_def toy_keys_def)
qed

theorem forged_hops_are_ignored_witness:
  "clientIP toy_keys ''10.0.0.1:443'' ([''8.8.8.8''] @ [''192.0.2.7'']) = clientIP toy_keys ''10.0.0.1:443'' [''192.0.2.7'']"
proof -
  have "list_ex (xff_stop toy_keys) (xff_parts [''192.0.2.7''])" by code_simp
  then have "list_ex (xff_stop toy_keys) (xff_parts [''192.0.2.7''])
    \<or> (\<forall>a. ke_parse toy_keys (remoteHost ''10.0.0.1:443'') = Some a \<longrightarrow> \<not> isTrustedProxy toy_keys a)" ..
  from forged_hops_are_ignored [OF this] show ?thesis by blast
qed

text \<open>
  Two client addresses are charged to one limiter key exactly when they are the same IPv4 address
  (written as such or mapped into IPv6) or lie in one IPv6 /64.
\<close>

theorem limiter_key_is_the_block:
  assumes "show_ok E" "ke_parse E x = Some a" "ke_parse E y = Some b"
  shows "rateLimitIPKey E x = rateLimitIPKey E y \<longleftrightarrow> charged_block a = charged_block b"
  using assms by (rule addr_key_iff)

theorem limiter_key_is_the_block_witness:
  "rateLimitIPKey toy_keys ''2001:db8::1'' = rateLimitIPKey toy_keys ''2001:db8::2''"
proof -
  have "ke_parse toy_keys ''2001:db8::1'' = Some (Addr6 0x20010DB8000000000000000000000001 [])"
    "ke_parse toy_keys ''2001:db8::2'' = Some (Addr6 0x20010DB8000000000000000000000002 [])"
    by (simp_all add: toy_keys_def toy_parse_def)
  moreover have "charged_block (Addr6 0x20010DB8000000000000000000000001 []) = charged_block (Addr6 0x20010DB8000000000000000000000002 [])"
    by code_simp
  ultimately show ?thesis using limiter_key_is_the_block [OF toy_show_ok] by blast
qed


end
