(* ===== verification/Throttle_Audit.thy ===== *)
theory Throttle_Audit
  imports Client_Keys
begin

text \<open>
  \<open>internal/httpserver/ratelimitaudit.go\<close>: throttled requests are audited in full once per key, then
  only counted, and the counts are flushed as one summary row per key and window.

  The table of keys is a Go map; \<open>observe\<close> and \<open>drain\<close> each run under the mutex, so a run of the
  aggregator is a sequence of the two. The zero \<open>time.Time\<close> of \<open>firstAt\<close> and \<open>lastAt\<close> is \<open>None\<close>. The
  rows handed to \<open>auditAppend\<close> are values of \<open>audit_call\<close>, with the details as key and value.
\<close>

section \<open>The aggregator\<close>

type_synonym rateAuditKey = "string \<times> string"

record rateAuditEntry =
  re_actor :: string
  re_ipHash :: string
  re_suppressed :: nat
  re_firstAt :: "time option"
  re_lastAt :: "time option"
  re_peers :: "string list"
  re_peersCapped :: bool

record rateAuditHit =
  rh_dimension :: string
  rh_subject :: string
  rh_actor :: string
  rh_ipHash :: string
  rh_peer :: string

record rateAuditSummary =
  rs_key :: rateAuditKey
  rs_actor :: string
  rs_ipHash :: string
  rs_suppressed :: nat
  rs_firstAt :: "time option"
  rs_lastAt :: "time option"
  rs_peers :: nat
  rs_peersCapped :: bool

record rateAuditAgg =
  ra_maxKeys :: nat
  ra_maxPeers :: nat
  ra_entries :: "(rateAuditKey, rateAuditEntry) gomap"

definition rateAuditMaxKeys :: nat where "rateAuditMaxKeys = 4096"
definition rateAuditMaxPeers :: nat where "rateAuditMaxPeers = 32"
definition rateAuditOverflow :: string where "rateAuditOverflow = ''*''"

definition newRateAuditAgg :: "nat \<Rightarrow> nat \<Rightarrow> rateAuditAgg" where
  "newRateAuditAgg maxKeys maxPeers = \<lparr>ra_maxKeys = maxKeys, ra_maxPeers = maxPeers, ra_entries = []\<rparr>"

text \<open>\<open>peers\<close> is a set of strings; the list holds each once.\<close>

definition addPeer :: "nat \<Rightarrow> string \<Rightarrow> rateAuditEntry \<Rightarrow> rateAuditEntry" where
  "addPeer maxPeers peer e =
     (if peer \<in> set (re_peers e) \<or> peer = [] then e
      else if length (re_peers e) \<ge> maxPeers then e\<lparr>re_peersCapped := True\<rparr>
      else e\<lparr>re_peers := re_peers e @ [peer]\<rparr>)"

definition observe :: "time \<Rightarrow> rateAuditHit \<Rightarrow> rateAuditAgg \<Rightarrow> bool \<times> rateAuditAgg" where
  "observe now h a =
     (let key = (rh_dimension h, rh_subject h);
          e = map_of (ra_entries a) key;
          over = (e = None \<and> length (ra_entries a) \<ge> ra_maxKeys a);
          key = (if over then (rh_dimension h, rateAuditOverflow) else key);
          actor = (if over then [] else rh_actor h);
          e = (if over then map_of (ra_entries a) key else e)
      in case e of
           None \<Rightarrow>
             (True, a\<lparr>ra_entries := gm_set key
                \<lparr>re_actor = actor, re_ipHash = rh_ipHash h, re_suppressed = 0, re_firstAt = None, re_lastAt = None,
                 re_peers = [], re_peersCapped = False\<rparr> (ra_entries a)\<rparr>)
         | Some e \<Rightarrow>
             let e = e\<lparr>re_suppressed := re_suppressed e + 1\<rparr>;
                 e = (if re_firstAt e = None then e\<lparr>re_firstAt := Some now\<rparr> else e);
                 e = e\<lparr>re_lastAt := Some now\<rparr>
             in (False, a\<lparr>ra_entries := gm_set key (addPeer (ra_maxPeers a) (rh_peer h) e) (ra_entries a)\<rparr>))"

definition summary_of :: "rateAuditKey \<times> rateAuditEntry \<Rightarrow> rateAuditSummary" where
  "summary_of ke = (case ke of (key, e) \<Rightarrow>
     \<lparr>rs_key = key, rs_actor = re_actor e, rs_ipHash = re_ipHash e, rs_suppressed = re_suppressed e,
      rs_firstAt = re_firstAt e, rs_lastAt = re_lastAt e, rs_peers = length (re_peers e), rs_peersCapped = re_peersCapped e\<rparr>)"

definition reset_entry :: "rateAuditEntry \<Rightarrow> rateAuditEntry" where
  "reset_entry e = e\<lparr>re_suppressed := 0, re_firstAt := None, re_lastAt := None, re_peers := [], re_peersCapped := False\<rparr>"

fun drain_loop :: "(rateAuditKey, rateAuditEntry) gomap \<Rightarrow> rateAuditSummary list \<times> (rateAuditKey, rateAuditEntry) gomap" where
  "drain_loop [] = ([], [])"
| "drain_loop ((key, e) # m) =
     (let (out, m') = drain_loop m
      in if re_suppressed e = 0 then (out, m')
         else (summary_of (key, e) # out, (key, reset_entry e) # m'))"

definition drain :: "rateAuditAgg \<Rightarrow> rateAuditSummary list \<times> rateAuditAgg" where
  "drain a = (let (out, m) = drain_loop (ra_entries a) in (out, a\<lparr>ra_entries := m\<rparr>))"

section \<open>The rows\<close>

datatype detail = DStr string | DInt int | DBool bool | DTime "time option"

record audit_call =
  ac_event :: string
  ac_actor :: string
  ac_target :: string
  ac_details :: "(string \<times> detail) list"

record publicRequest =
  pr_email :: string
  pr_domain :: string
  pr_ip :: string
  pr_ipHash :: string
  pr_uaHash :: string

record limits =
  lm_email :: int
  lm_ip :: int

definition EventRateLimited :: string where "EventRateLimited = ''request.rate_limited''"
definition EventRateLimitedSummary :: string where "EventRateLimitedSummary = ''request.rate_limited.summary''"

definition throttle_hit :: "'a key_env_scheme \<Rightarrow> publicRequest \<Rightarrow> string \<Rightarrow> rateAuditHit" where
  "throttle_hit E pr dimension =
     (if dimension = ''ip'' then
        \<lparr>rh_dimension = dimension, rh_subject = rateLimitIPKey E (pr_ip pr), rh_actor = [], rh_ipHash = pr_ipHash pr,
         rh_peer = hashShort E (rateLimitKey (pr_email pr))\<rparr>
      else
        \<lparr>rh_dimension = dimension, rh_subject = rateLimitKey (pr_email pr), rh_actor = rateLimitKey (pr_email pr),
         rh_ipHash = pr_ipHash pr, rh_peer = pr_ipHash pr\<rparr>)"

text \<open>\<open>auditRateLimited\<close>: the row it hands to \<open>auditAppend\<close>, if any.\<close>

definition auditRateLimited ::
  "'a key_env_scheme \<Rightarrow> limits \<Rightarrow> time \<Rightarrow> publicRequest \<Rightarrow> string \<Rightarrow> rateAuditAgg \<Rightarrow> audit_call list \<times> rateAuditAgg" where
  "auditRateLimited E lm now pr dimension a =
     (let (opens, a') = observe now (throttle_hit E pr dimension) a
      in (if opens then
            [\<lparr>ac_event = EventRateLimited, ac_actor = pr_email pr, ac_target = dimension,
              ac_details = [(''ip_hash'', DStr (pr_ipHash pr)), (''ua_hash'', DStr (pr_uaHash pr)),
                (''limit_email_per_hour'', DInt (lm_email lm)), (''limit_ip_per_hour'', DInt (lm_ip lm))]\<rparr>]
          else [], a'))"

definition summary_row :: "limits \<Rightarrow> rateAuditSummary \<Rightarrow> audit_call" where
  "summary_row lm s =
     (let dimension = fst (rs_key s);
          overflow = (snd (rs_key s) = rateAuditOverflow);
          peersField = (if dimension = ''ip'' then ''distinct_emails'' else ''distinct_ip_hashes'')
      in \<lparr>ac_event = EventRateLimitedSummary, ac_actor = rs_actor s, ac_target = dimension,
          ac_details = [(''suppressed'', DInt (int (rs_suppressed s))), (''first_at'', DTime (rs_firstAt s)),
            (''last_at'', DTime (rs_lastAt s)), (peersField, DInt (int (rs_peers s))),
            (peersField @ ''_capped'', DBool (rs_peersCapped s)), (''overflow'', DBool overflow),
            (''limit_email_per_hour'', DInt (lm_email lm)), (''limit_ip_per_hour'', DInt (lm_ip lm))]
            @ (if dimension = ''ip'' \<and> \<not> overflow then [(''ip_hash'', DStr (rs_ipHash s))] else [])\<rparr>)"

definition flushRateAudit :: "limits \<Rightarrow> rateAuditAgg \<Rightarrow> audit_call list \<times> rateAuditAgg" where
  "flushRateAudit lm a = (let (sums, a') = drain a in (map (summary_row lm) sums, a'))"

section \<open>Runs\<close>

datatype ra_op = RHit time publicRequest string | RFlush

fun ra_run :: "'a key_env_scheme \<Rightarrow> limits \<Rightarrow> ra_op list \<Rightarrow> rateAuditAgg \<Rightarrow> audit_call list \<times> rateAuditAgg" where
  "ra_run E lm [] a = ([], a)"
| "ra_run E lm (RHit now pr d # ops) a =
     (let (rows, a) = auditRateLimited E lm now pr d a; (rows', a) = ra_run E lm ops a in (rows @ rows', a))"
| "ra_run E lm (RFlush # ops) a =
     (let (rows, a) = flushRateAudit lm a; (rows', a) = ra_run E lm ops a in (rows @ rows', a))"

fun hits :: "string \<Rightarrow> ra_op list \<Rightarrow> nat" where
  "hits d [] = 0"
| "hits d (RHit now pr d' # ops) = (if d' = d then 1 else 0) + hits d ops"
| "hits d (RFlush # ops) = hits d ops"

fun flushes :: "ra_op list \<Rightarrow> nat" where
  "flushes [] = 0" | "flushes (RFlush # ops) = Suc (flushes ops)" | "flushes (RHit _ _ _ # ops) = flushes ops"

fun dimensions :: "ra_op list \<Rightarrow> string set" where
  "dimensions [] = {}" | "dimensions (RFlush # ops) = dimensions ops"
| "dimensions (RHit _ _ d # ops) = insert d (dimensions ops)"

text \<open>How many hits a row stands for: one in full, or its \<open>suppressed\<close> field.\<close>

definition row_hits :: "audit_call \<Rightarrow> nat" where
  "row_hits r = (if ac_event r = EventRateLimited then 1
     else case map_of (ac_details r) ''suppressed'' of Some (DInt n) \<Rightarrow> nat n | _ \<Rightarrow> 0)"

definition audited_hits :: "string \<Rightarrow> audit_call list \<Rightarrow> nat" where
  "audited_hits d rows = sum_list (map row_hits (filter (\<lambda>r. ac_target r = d) rows))"

definition pending_hits :: "string \<Rightarrow> (rateAuditKey, rateAuditEntry) gomap \<Rightarrow> nat" where
  "pending_hits d m = sum_list (map (\<lambda>(k, e). re_suppressed e) (filter (\<lambda>(k, e). fst k = d) m))"

definition starred :: "rateAuditKey \<times> rateAuditEntry \<Rightarrow> bool" where
  "starred ke \<longleftrightarrow> snd (fst ke) = rateAuditOverflow"

definition agg_ok :: "string set \<Rightarrow> rateAuditAgg \<Rightarrow> bool" where
  "agg_ok D a \<longleftrightarrow> gm_wf (ra_entries a) \<and> length (filter (\<lambda>ke. \<not> starred ke) (ra_entries a)) \<le> ra_maxKeys a
     \<and> fst ` fst ` set (ra_entries a) \<subseteq> D"

lemma audited_hits_append [simp]: "audited_hits d (xs @ ys) = audited_hits d xs + audited_hits d ys"
  by (simp add: audited_hits_def)

lemma audited_hits_Nil [simp]: "audited_hits d [] = 0"
  by (simp add: audited_hits_def)

lemma addPeer_suppressed [simp]: "re_suppressed (addPeer n p e) = re_suppressed e"
  by (simp add: addPeer_def)

lemma gm_set_fresh: "k \<notin> fst ` set m \<Longrightarrow> gm_set k e m = m @ [(k, e)]"
  by (induction m) auto

lemma pending_set:
  "gm_wf m \<Longrightarrow> pending_hits d (gm_set k e m) + (if fst k = d then case map_of m k of None \<Rightarrow> 0 | Some e' \<Rightarrow> re_suppressed e' else 0)
     = pending_hits d m + (if fst k = d then re_suppressed e else 0)"
proof (induction m)
  case (Cons ke m)
  obtain k' e' where ke: "ke = (k', e')" by (cases ke)
  show ?case
  proof (cases "k' = k")
    case True
    then show ?thesis using ke by (auto simp: pending_hits_def)
  next
    case False
    then have "map_of (ke # m) k = map_of m k" using ke by simp
    then show ?thesis using Cons ke False by (auto simp: pending_hits_def gm_wf_def)
  qed
qed (simp add: pending_hits_def)

text \<open>The two outcomes of \<open>observe\<close>: a key is opened, or one of its dimension counts the hit.\<close>

lemma observe_cases:
  assumes "observe now h a = (opens, a')"
  obtains (opens) k e where "opens" "fst k = rh_dimension h" "map_of (ra_entries a) k = None" "re_suppressed e = 0"
      "a' = a\<lparr>ra_entries := gm_set k e (ra_entries a)\<rparr>"
      "snd k = rateAuditOverflow \<or> length (ra_entries a) < ra_maxKeys a"
  | (counts) k e e' where "\<not> opens" "fst k = rh_dimension h" "map_of (ra_entries a) k = Some e" "re_suppressed e' = Suc (re_suppressed e)"
      "a' = a\<lparr>ra_entries := gm_set k e' (ra_entries a)\<rparr>"
proof -
  define over where "over = (map_of (ra_entries a) (rh_dimension h, rh_subject h) = None \<and> length (ra_entries a) \<ge> ra_maxKeys a)"
  define k where "k = (if over then (rh_dimension h, rateAuditOverflow) else (rh_dimension h, rh_subject h))"
  have look: "(if over then map_of (ra_entries a) k else map_of (ra_entries a) (rh_dimension h, rh_subject h)) = map_of (ra_entries a) k"
    by (simp add: k_def)
  have room: "map_of (ra_entries a) k = None \<Longrightarrow> snd k = rateAuditOverflow \<or> length (ra_entries a) < ra_maxKeys a"
    by (auto simp: k_def over_def split: if_splits)
  have d: "fst k = rh_dimension h" by (simp add: k_def)
  note o = assms [unfolded observe_def Let_def, folded over_def, folded k_def, unfolded look]
  show thesis
  proof (cases "map_of (ra_entries a) k")
    case None
    show ?thesis
      by (rule opens [of k]) (use o None d room in auto)
  next
    case (Some e)
    show ?thesis
      by (rule counts [of k e]) (use o Some d in auto)
  qed
qed

lemma drain_loop_facts:
  assumes "drain_loop m = (out, m')"
  shows "length out + (length m - length m') = length m" "length m' \<le> length m"
    "pending_hits d m' = 0" "fst ` set m' \<subseteq> fst ` set m" "gm_wf m \<Longrightarrow> gm_wf m'"
    "length (filter (\<lambda>ke. \<not> starred ke) m') \<le> length (filter (\<lambda>ke. \<not> starred ke) m)"
    "audited_hits d (map (summary_row lm) out) = pending_hits d m"
proof -
  have "length out + (length m - length m') = length m \<and> length m' \<le> length m
    \<and> pending_hits d m' = 0 \<and> fst ` set m' \<subseteq> fst ` set m \<and> (gm_wf m \<longrightarrow> gm_wf m')
    \<and> length (filter (\<lambda>ke. \<not> starred ke) m') \<le> length (filter (\<lambda>ke. \<not> starred ke) m)
    \<and> audited_hits d (map (summary_row lm) out) = pending_hits d m"
    using assms
  proof (induction m arbitrary: out m')
    case Nil
    then show ?case by (auto simp: pending_hits_def)
  next
    case (Cons ke m)
    obtain k e where ke: "ke = (k, e)" by (cases ke)
    obtain o1 m1 where r: "drain_loop m = (o1, m1)" by (cases "drain_loop m")
    note IH = Cons.IH [OF r]
    have s: "row_hits (summary_row lm (summary_of (k, e))) = re_suppressed e"
      "ac_target (summary_row lm (summary_of (k, e))) = fst k"
      by (simp_all add: row_hits_def summary_row_def summary_of_def EventRateLimited_def EventRateLimitedSummary_def Let_def)
    show ?case
    proof (cases "re_suppressed e = 0")
      case True
      then have "out = o1" "m' = m1" using Cons.prems ke r by auto
      then show ?thesis using IH ke True by (auto simp: pending_hits_def gm_wf_def)
    next
      case False
      then have "out = summary_of (k, e) # o1" "m' = (k, reset_entry e) # m1" using Cons.prems ke r by auto
      then show ?thesis using IH ke s
        by (auto simp: pending_hits_def gm_wf_def audited_hits_def reset_entry_def starred_def)
    qed
  qed
  then show "length out + (length m - length m') = length m" "length m' \<le> length m"
    "pending_hits d m' = 0" "fst ` set m' \<subseteq> fst ` set m" "gm_wf m \<Longrightarrow> gm_wf m'"
    "length (filter (\<lambda>ke. \<not> starred ke) m') \<le> length (filter (\<lambda>ke. \<not> starred ke) m)"
    "audited_hits d (map (summary_row lm) out) = pending_hits d m"
    by blast+
qed


lemma throttle_dimension [simp]: "rh_dimension (throttle_hit E pr d) = d"
  by (simp add: throttle_hit_def)

lemma auditRateLimited_step:
  assumes "auditRateLimited E lm now pr d a = (rows, a')" "agg_ok D a" "d \<in> D"
  shows "agg_ok D a'" "ra_maxKeys a' = ra_maxKeys a"
    "length rows + length (ra_entries a) = length (ra_entries a')"
    "audited_hits d' rows + pending_hits d' (ra_entries a') = pending_hits d' (ra_entries a) + (if d = d' then 1 else 0)"
proof -
  obtain opens b where o: "observe now (throttle_hit E pr d) a = (opens, b)"
    by (cases "observe now (throttle_hit E pr d) a")
  have r: "a' = b" "length rows = (if opens then 1 else 0)"
    "audited_hits d' rows = (if opens \<and> d = d' then 1 else 0)"
    using assms(1) o by (auto simp: auditRateLimited_def audited_hits_def row_hits_def Let_def)
  have wf: "gm_wf (ra_entries a)" "length (filter (\<lambda>ke. \<not> starred ke) (ra_entries a)) \<le> ra_maxKeys a"
    "fst ` fst ` set (ra_entries a) \<subseteq> D" using assms(2) by (simp_all add: agg_ok_def)
  have "agg_ok D a' \<and> ra_maxKeys a' = ra_maxKeys a \<and> length rows + length (ra_entries a) = length (ra_entries a')
      \<and> audited_hits d' rows + pending_hits d' (ra_entries a') = pending_hits d' (ra_entries a) + (if d = d' then 1 else 0)"
  proof (cases rule: observe_cases [OF o])
    case (1 k e)
    have new: "k \<notin> fst ` set (ra_entries a)" using 1(3) by (simp add: map_of_eq_None_iff)
    have app: "gm_set k e (ra_entries a) = ra_entries a @ [(k, e)]"
      using new by (rule gm_set_fresh)
    have f: "length (filter (\<lambda>ke. \<not> starred ke) (ra_entries a @ [(k, e)])) \<le> ra_maxKeys a"
    proof (cases "starred (k, e)")
      case False
      then have "length (ra_entries a) < ra_maxKeys a" using 1(6) by (simp add: starred_def)
      from le_less_trans [OF length_filter_le this, of "\<lambda>ke. \<not> starred ke"] show ?thesis using False by simp
    qed (use wf(2) in simp)
    have p: "pending_hits d' (ra_entries a') = pending_hits d' (ra_entries a)"
      using pending_set [OF wf(1), of d' k e] 1 r by (auto split: if_splits)
    have m: "ra_entries a' = ra_entries a @ [(k, e)]" using 1(5) r(1) app by simp
    have "gm_wf (ra_entries a')" using gm_wf_set [OF wf(1), of k e] 1(5) r(1) by simp
    then have "agg_ok D a'" unfolding agg_ok_def m using f wf(3) 1(2,5) r(1) assms(3) by simp
    then show ?thesis
      using r 1 app p by auto
  next
    case (2 k e e')
    have old: "k \<in> fst ` set (ra_entries a)" using 2(3) by (metis domI dom_map_of_conv_image_fst)
    have len: "length (ra_entries a') = length (ra_entries a)" using old r 2 by (simp add: length_gm_set)
    have keys: "map fst (ra_entries a') = map fst (ra_entries a)" using old r 2 by (simp add: update_keys)
    have st: "length (filter (\<lambda>ke. \<not> starred ke) m) = length (filter (\<lambda>k. snd k \<noteq> rateAuditOverflow) (map fst m))" for m
      by (simp add: starred_def filter_map comp_def)
    have "fst ` set (ra_entries a') = fst ` set (ra_entries a)" using keys by (metis set_map)
    then have "agg_ok D a'" unfolding agg_ok_def gm_wf_def st keys
      using wf 2 r by (simp add: gm_wf_def st)
    moreover have "pending_hits d' (ra_entries a') = pending_hits d' (ra_entries a) + (if d = d' then 1 else 0)"
      using pending_set [OF wf(1), of d' k e'] 2 r by (auto split: if_splits)
    ultimately show ?thesis
      using r 2 len by auto
  qed
  then show "agg_ok D a'" "ra_maxKeys a' = ra_maxKeys a"
    "length rows + length (ra_entries a) = length (ra_entries a')"
    "audited_hits d' rows + pending_hits d' (ra_entries a') = pending_hits d' (ra_entries a) + (if d = d' then 1 else 0)"
    by blast+
qed

lemma agg_ok_size:
  assumes "agg_ok D a" "finite D"
  shows "length (ra_entries a) \<le> ra_maxKeys a + card D"
proof -
  let ?s = "filter starred (ra_entries a)"
  have "distinct (map fst (ra_entries a))" using assms by (simp add: agg_ok_def gm_wf_def)
  then have d: "distinct (map fst ?s)" by (rule distinct_map_filter)
  have star: "snd k = rateAuditOverflow" if "k \<in> set (map fst ?s)" for k
    using that by (auto simp: starred_def)
  have "inj_on fst (set (map fst ?s))" using star by (intro inj_onI) (metis prod_eqI)
  then have "card (fst ` set (map fst ?s)) = card (set (map fst ?s))" by (rule card_image)
  then have "card (fst ` set (map fst ?s)) = length ?s" using distinct_card [OF d] by simp
  moreover have "fst ` set (map fst ?s) \<subseteq> D" using assms by (auto simp: agg_ok_def)
  ultimately have "length ?s \<le> card D" using assms(2) by (metis card_mono)
  moreover have "length (ra_entries a) = length (filter (\<lambda>ke. \<not> starred ke) (ra_entries a)) + length ?s"
    using sum_length_filter_compl [of starred "ra_entries a"] by simp
  ultimately show ?thesis using assms by (simp add: agg_ok_def)
qed

lemma flush_step:
  assumes "flushRateAudit lm a = (rows, a')" "agg_ok D a"
  shows "agg_ok D a'" "ra_maxKeys a' = ra_maxKeys a"
    "length rows + (length (ra_entries a) - length (ra_entries a')) = length (ra_entries a)"
    "length (ra_entries a') \<le> length (ra_entries a)"
    "audited_hits d rows = pending_hits d (ra_entries a)" "pending_hits d (ra_entries a') = 0"
proof -
  obtain out m where dl: "drain_loop (ra_entries a) = (out, m)" by (cases "drain_loop (ra_entries a)")
  have r: "rows = map (summary_row lm) out" "a' = a\<lparr>ra_entries := m\<rparr>"
    using assms(1) dl by (auto simp: flushRateAudit_def drain_def)
  note f = drain_loop_facts [OF dl]
  show "agg_ok D a'" using assms(2) f(4) f(5) f(6) r by (auto simp: agg_ok_def)
  show "ra_maxKeys a' = ra_maxKeys a" "length rows + (length (ra_entries a) - length (ra_entries a')) = length (ra_entries a)"
    "length (ra_entries a') \<le> length (ra_entries a)" "audited_hits d rows = pending_hits d (ra_entries a)"
    "pending_hits d (ra_entries a') = 0"
    using r f(1-3) f(7) by simp_all
qed

lemma ra_run_facts:
  assumes "ra_run E lm ops a = (rows, a')" "agg_ok D a" "dimensions ops \<subseteq> D" "finite D"
  shows "agg_ok D a'" "ra_maxKeys a' = ra_maxKeys a"
    "length rows + length (ra_entries a) \<le> length (ra_entries a') + flushes ops * (ra_maxKeys a + card D)"
    "audited_hits d rows + pending_hits d (ra_entries a') = pending_hits d (ra_entries a) + hits d ops"
proof -
  have "agg_ok D a' \<and> ra_maxKeys a' = ra_maxKeys a
    \<and> length rows + length (ra_entries a) \<le> length (ra_entries a') + flushes ops * (ra_maxKeys a + card D)
    \<and> audited_hits d rows + pending_hits d (ra_entries a') = pending_hits d (ra_entries a) + hits d ops"
    using assms(1-3)
  proof (induction ops arbitrary: rows a)
    case (Cons x ops)
    show ?case
    proof (cases x)
      case (RHit now pr d')
      obtain r1 b where s: "auditRateLimited E lm now pr d' a = (r1, b)" by (cases "auditRateLimited E lm now pr d' a")
      obtain r2 c where t: "ra_run E lm ops b = (r2, c)" by (cases "ra_run E lm ops b")
      have e: "rows = r1 @ r2" "c = a'" using Cons.prems(1) RHit s t by simp_all
      have "d' \<in> D" using Cons.prems(3) RHit by simp
      note st = auditRateLimited_step [OF s Cons.prems(2) this]
      have "dimensions ops \<subseteq> D" using Cons.prems(3) RHit by simp
      note ih = Cons.IH [OF t [unfolded e(2)] st(1) this]
      show ?thesis using ih st(2,3) st(4) [of d] e(1) RHit by auto
    next
      case RFlush
      obtain r1 b where s: "flushRateAudit lm a = (r1, b)" by (cases "flushRateAudit lm a")
      obtain r2 c where t: "ra_run E lm ops b = (r2, c)" by (cases "ra_run E lm ops b")
      have e: "rows = r1 @ r2" "c = a'" using Cons.prems(1) RFlush s t by simp_all
      note st = flush_step [OF s Cons.prems(2)]
      have "dimensions ops \<subseteq> D" using Cons.prems(3) RFlush by simp
      note ih = Cons.IH [OF t [unfolded e(2)] st(1) this]
      show ?thesis using ih st(2-4) st(5,6) [of d] e(1) RFlush agg_ok_size [OF Cons.prems(2) assms(4)] by auto
    qed
  qed auto
  then show "agg_ok D a'" "ra_maxKeys a' = ra_maxKeys a"
    "length rows + length (ra_entries a) \<le> length (ra_entries a') + flushes ops * (ra_maxKeys a + card D)"
    "audited_hits d rows + pending_hits d (ra_entries a') = pending_hits d (ra_entries a) + hits d ops"
    by blast+
qed

lemma ra_run_append:
  "ra_run E lm (xs @ ys) a = (let (r1, a) = ra_run E lm xs a; (r2, a) = ra_run E lm ys a in (r1 @ r2, a))"
  by (induction E lm xs a rule: ra_run.induct) (auto simp: Let_def split: prod.splits)

lemma dimensions_finite: "finite (dimensions ops)"
  by (induction ops rule: dimensions.induct) auto

lemma agg_ok_new: "agg_ok D (newRateAuditAgg k p)"
  by (simp add: agg_ok_def newRateAuditAgg_def)

section \<open>Properties\<close>

text \<open>
  C23. No throttled hit goes unaccounted and none is counted twice: after any sequence of throttled requests and
  flushes that ends in a flush, as at shutdown, the hits of each dimension are exactly the rows written
  in full plus the counts of the summary rows, whatever the caps on keys and peers.
\<close>

theorem throttled_hits_accounted_for:
  "audited_hits d (fst (ra_run E lm (ops @ [RFlush]) (newRateAuditAgg maxKeys maxPeers))) = hits d ops"
proof -
  let ?a = "newRateAuditAgg maxKeys maxPeers"
  obtain r1 b where s: "ra_run E lm ops ?a = (r1, b)" by (cases "ra_run E lm ops ?a")
  obtain r2 c where t: "flushRateAudit lm b = (r2, c)" by (cases "flushRateAudit lm b")
  note f = ra_run_facts [OF s agg_ok_new subset_refl dimensions_finite]
  have "pending_hits d (ra_entries ?a) = 0" by (simp add: newRateAuditAgg_def pending_hits_def)
  then show ?thesis using f(4) [of d] flush_step(5) [OF t f(1), of d] s t by (simp add: ra_run_append)
qed

text \<open>
  A flood cannot grow the audit log without limit: whatever the number of throttled requests, they cause at
  most one row per tracked key and window, that is \<open>maxKeys\<close> rows plus one overflow row for each of the two
  dimensions, for every flush and for the window that is open; and the table in memory keeps that size.
\<close>

theorem throttled_rows_bounded:
  assumes "ra_run E lm ops (newRateAuditAgg maxKeys maxPeers) = (rows, a)" "dimensions ops \<subseteq> {''ip'', ''email''}"
  shows "length rows \<le> (flushes ops + 1) * (maxKeys + 2) \<and> length (ra_entries a) \<le> maxKeys + 2"
proof (rule conjI)
  have f2: "finite {''ip'', ''email''}" and c2: "card {''ip'', ''email''} = 2" by simp_all
  note f = ra_run_facts [OF assms(1) agg_ok_new assms(2) f2]
  have k: "ra_maxKeys (newRateAuditAgg maxKeys maxPeers) = maxKeys" by (simp add: newRateAuditAgg_def)
  show "length (ra_entries a) \<le> maxKeys + 2" using agg_ok_size [OF f(1) f2] f(2) k c2 by simp
  then show "length rows \<le> (flushes ops + 1) * (maxKeys + 2)" using f(3) k c2 by simp
qed

definition sample_pr :: "string \<Rightarrow> publicRequest" where
  "sample_pr email = \<lparr>pr_email = email, pr_domain = ''x.org'', pr_ip = ''192.0.2.7'', pr_ipHash = ''h'', pr_uaHash = ''u''\<rparr>"

definition sample_flood :: "ra_op list" where
  "sample_flood = [RHit 1 (sample_pr ''a@x.org'') ''email'', RHit 2 (sample_pr ''a+1@x.org'') ''email'', RHit 3 (sample_pr ''b@x.org'') ''email'',
     RHit 4 (sample_pr ''c@x.org'') ''email'', RFlush, RHit 5 (sample_pr ''a@x.org'') ''email'']"

theorem throttled_rows_bounded_witness:
  "length (fst (ra_run toy_keys \<lparr>lm_email = 1, lm_ip = 1\<rparr> sample_flood (newRateAuditAgg 1 4))) \<le> 6"
proof -
  obtain rows a where r: "ra_run toy_keys \<lparr>lm_email = 1, lm_ip = 1\<rparr> sample_flood (newRateAuditAgg 1 4) = (rows, a)"
    by (cases "ra_run toy_keys \<lparr>lm_email = 1, lm_ip = 1\<rparr> sample_flood (newRateAuditAgg 1 4)")
  have "dimensions sample_flood \<subseteq> {''ip'', ''email''}" by (simp add: sample_flood_def)
  from throttled_rows_bounded [OF r this] r show ?thesis by (simp add: sample_flood_def)
qed

end
