(* ===== verification/Mail_Capture.thy ===== *)
theory Mail_Capture
  imports Mail Tokens Client_Keys
begin

text \<open>
  \<open>internal/mailcapture/mailcapture.go\<close>, the in-memory queue of captured mail, and the parts of
  \<open>internal/httpserver/demo.go\<close> that tie a captured mail to the browser that asked for it. Every
  operation of the store runs under its lock; the clock is an argument. \<open>formatID\<close> is on natural
  numbers: its buffer of 16 digits holds every counter of 64 bits.
\<close>

section \<open>The store\<close>

record captured =
  cm_ID :: string
  cm_To :: string
  cm_Subject :: string
  cm_Body :: string
  cm_Timestamp :: time
  cm_Owner :: string

record mail_store =
  ms_items :: "captured list"
  ms_max :: nat
  ms_nextID :: nat

definition NewStore :: "int \<Rightarrow> mail_store" where
  "NewStore mx = \<lparr>ms_items = [], ms_max = (if mx \<le> 0 then 100 else nat mx), ms_nextID = 0\<rparr>"

fun hex_digits :: "nat \<Rightarrow> string" where
  "hex_digits n = (if n = 0 then [] else hex_digits (n div 16) @ [hex_digit (n mod 16)])"

declare hex_digits.simps [simp del]

definition formatID :: "nat \<Rightarrow> string" where
  "formatID n = (if n = 0 then ''0'' else hex_digits n)"

text \<open>\<open>copy(s.items, s.items[1:])\<close> and the overwrite of the last element drop the oldest mail.\<close>

definition CaptureFor :: "time \<Rightarrow> string \<Rightarrow> string \<Rightarrow> string \<Rightarrow> string \<Rightarrow> mail_store \<Rightarrow> string \<times> mail_store" where
  "CaptureFor now owner to subject body s =
     (let n = ms_nextID s + 1;
          m = \<lparr>cm_ID = formatID n, cm_To = to, cm_Subject = subject, cm_Body = body, cm_Timestamp = now, cm_Owner = owner\<rparr>;
          items = (if length (ms_items s) \<ge> ms_max s
                   then (drop 1 (ms_items s) @ [List.last (ms_items s)])[length (ms_items s) - 1 := m]
                   else ms_items s @ [m])
      in (cm_ID m, s\<lparr>ms_items := items, ms_nextID := n\<rparr>))"

definition Capture :: "time \<Rightarrow> string \<Rightarrow> string \<Rightarrow> string \<Rightarrow> mail_store \<Rightarrow> string \<times> mail_store" where
  "Capture now to subject body s = CaptureFor now [] to subject body s"

definition Snapshot :: "mail_store \<Rightarrow> captured list" where
  "Snapshot s = ms_items s"

definition SnapshotFor :: "string \<Rightarrow> mail_store \<Rightarrow> captured list" where
  "SnapshotFor owner s = (if owner = [] then [] else filter (\<lambda>m. cm_Owner m = owner) (ms_items s))"

definition Reset :: "mail_store \<Rightarrow> mail_store" where
  "Reset s = s\<lparr>ms_items := []\<rparr>"

definition PruneBefore :: "time \<Rightarrow> mail_store \<Rightarrow> nat \<times> mail_store" where
  "PruneBefore cutoff s =
     (let kept = filter (\<lambda>m. \<not> cm_Timestamp m < cutoff) (ms_items s)
      in (length (ms_items s) - length kept, s\<lparr>ms_items := kept\<rparr>))"

section \<open>Capture handles of a public demo\<close>

text \<open>\<open>base64.RawURLEncoding.DecodeString\<close> succeeds: line breaks are skipped, the rest is of the alphabet and
  not one digit past a group of four.\<close>

definition b64url_decodes :: "string \<Rightarrow> bool" where
  "b64url_decodes v =
     (let w = filter (\<lambda>c. c \<noteq> CR \<and> c \<noteq> LF) v
      in list_all (\<lambda>c. c \<in> set (map b64url_digit [0..<64])) w \<and> length w mod 4 \<noteq> 1)"

definition validCaptureHandle :: "string \<Rightarrow> bool" where
  "validCaptureHandle v = (if length v \<noteq> 43 then False else b64url_decodes v)"

definition captureOwner :: "'a key_env_scheme \<Rightarrow> string \<Rightarrow> string" where
  "captureOwner E handle = hex (ke_sha E (''sealkeeper-demo-capture:'' @ handle))"

text \<open>\<open>demoCaptureHandle\<close>: the owner and the cookie it sets, from the request's cookie and the random bytes.\<close>

definition demoCaptureHandle ::
  "'a key_env_scheme \<Rightarrow> bool \<Rightarrow> string option \<Rightarrow> string option \<Rightarrow> string \<times> string option" where
  "demoCaptureHandle E isDemo cookie rnd =
     (if \<not> isDemo then ([], None)
      else case cookie of
        Some c \<Rightarrow> if validCaptureHandle c then (captureOwner E c, Some c)
                   else (case rnd of None \<Rightarrow> ([], None) | Some b \<Rightarrow> (captureOwner E (b64url b), Some (b64url b)))
      | None \<Rightarrow> (case rnd of None \<Rightarrow> ([], None) | Some b \<Rightarrow> (captureOwner E (b64url b), Some (b64url b))))"

definition demoCaptureOwner :: "'a key_env_scheme \<Rightarrow> string option \<Rightarrow> string" where
  "demoCaptureOwner E cookie =
     (case cookie of None \<Rightarrow> [] | Some c \<Rightarrow> if \<not> validCaptureHandle c then [] else captureOwner E c)"

definition capturedMailFor :: "'a key_env_scheme \<Rightarrow> bool \<Rightarrow> string option \<Rightarrow> mail_store \<Rightarrow> captured list" where
  "capturedMailFor E isDemo cookie s =
     (if isDemo then SnapshotFor (demoCaptureOwner E cookie) s else Snapshot s)"

definition demoWritable :: "string list" where
  "demoWritable = [''/admin/setup'', ''/admin/domains/'', ''/admin/policies/'', ''/admin/elevations/'', ''/admin/templates/'']"

definition demoWritablePath :: "string \<Rightarrow> bool" where
  "demoWritablePath p = list_ex (\<lambda>allowed. if HasSuffix allowed ''/'' then HasPrefix p allowed else p = allowed) demoWritable"

section \<open>Runs of the store\<close>

datatype cap_cmd = KCapture time string string string string | KReset | KPrune time

fun cap_step :: "cap_cmd \<Rightarrow> mail_store \<Rightarrow> mail_store" where
  "cap_step (KCapture now owner to subject body) s = snd (CaptureFor now owner to subject body s)"
| "cap_step KReset s = Reset s"
| "cap_step (KPrune cutoff) s = snd (PruneBefore cutoff s)"

text \<open>What was asked to be captured, in order: the mail as its request describes it.\<close>

fun asked :: "nat \<Rightarrow> cap_cmd list \<Rightarrow> captured list" where
  "asked n [] = []"
| "asked n (KCapture now owner to subject body # cs) =
     \<lparr>cm_ID = formatID (n + 1), cm_To = to, cm_Subject = subject, cm_Body = body, cm_Timestamp = now, cm_Owner = owner\<rparr> # asked (n + 1) cs"
| "asked n (KReset # cs) = asked n cs"
| "asked n (KPrune cutoff # cs) = asked n cs"

lemma ring_push:
  assumes "xs \<noteq> []"
  shows "(drop 1 xs @ [List.last xs])[length xs - 1 := m] = drop 1 xs @ [m]"
proof -
  have "length xs - 1 = length (drop 1 xs)" by simp
  then show ?thesis by (metis list_update_length)
qed

definition store_ok :: "mail_store \<Rightarrow> bool" where
  "store_ok s \<longleftrightarrow> 0 < ms_max s \<and> length (ms_items s) \<le> ms_max s"

lemma CaptureFor_items:
  assumes "store_ok s"
  shows "ms_items (snd (CaptureFor now owner to subject body s)) =
    (if length (ms_items s) = ms_max s then drop 1 (ms_items s) else ms_items s)
    @ [\<lparr>cm_ID = formatID (ms_nextID s + 1), cm_To = to, cm_Subject = subject, cm_Body = body, cm_Timestamp = now, cm_Owner = owner\<rparr>]"
proof (cases "length (ms_items s) = ms_max s")
  case True
  then have "ms_items s \<noteq> []" using assms by (auto simp: store_ok_def)
  with ring_push [OF this] True show ?thesis by (simp add: CaptureFor_def Let_def)
qed (use assms in \<open>simp add: CaptureFor_def Let_def store_ok_def\<close>)

interpretation cap: machine cap_step store_ok
proof
  fix s c assume ok: "store_ok s"
  show "store_ok (cap_step c s)"
  proof (cases c)
    case (KCapture now owner to subject body)
    have "ms_max (snd (CaptureFor now owner to subject body s)) = ms_max s"
      by (simp add: CaptureFor_def Let_def)
    with KCapture CaptureFor_items [OF ok] ok show ?thesis by (auto simp: store_ok_def)
  next
    case (KPrune cutoff)
    have "length (filter (\<lambda>m. \<not> cm_Timestamp m < cutoff) (ms_items s)) \<le> ms_max s"
      using ok le_trans [OF length_filter_le] unfolding store_ok_def by blast
    with KPrune ok show ?thesis by (simp add: store_ok_def PruneBefore_def Let_def)
  qed (use ok in \<open>simp add: store_ok_def Reset_def\<close>)
qed

lemma NewStore_ok: "store_ok (NewStore mx)"
  by (simp add: store_ok_def NewStore_def)

lemma subseq_asked:
  assumes "store_ok s" "subseq (ms_items s) pre"
  shows "subseq (ms_items (run cap_step cs s)) (pre @ asked (ms_nextID s) cs)"
  using assms
proof (induction cs arbitrary: s pre)
  case (Cons c cs)
  note ok = cap.inv_step [OF Cons.prems(1), of c]
  show ?case
  proof (cases c)
    case (KCapture now owner to subject body)
    let ?m = "\<lparr>cm_ID = formatID (ms_nextID s + 1), cm_To = to, cm_Subject = subject, cm_Body = body, cm_Timestamp = now, cm_Owner = owner\<rparr>"
    have "subseq (drop 1 (ms_items s)) pre"
      using Cons.prems(2) suffix_drop suffix_imp_subseq subseq_order.order_trans by metis
    then have "subseq (ms_items (cap_step c s)) (pre @ [?m])"
      using Cons.prems(2) by (auto simp: KCapture CaptureFor_items [OF Cons.prems(1)] intro: list_emb_append_mono)
    moreover have "ms_nextID (cap_step c s) = ms_nextID s + 1" by (simp add: KCapture CaptureFor_def Let_def)
    ultimately show ?thesis using Cons.IH [OF ok, of "pre @ [?m]"] KCapture by simp
  next
    case KReset
    then show ?thesis using Cons.IH [OF ok, of pre] by (simp add: Reset_def)
  next
    case (KPrune cutoff)
    have "subseq (filter (\<lambda>m. \<not> cm_Timestamp m < cutoff) (ms_items s)) pre"
      by (rule subseq_order.order_trans [OF subseq_filter_left Cons.prems(2)])
    then have "subseq (ms_items (cap_step c s)) pre" by (simp add: KPrune PruneBefore_def Let_def)
    then show ?thesis using Cons.IH [OF ok, of pre] KPrune by (simp add: PruneBefore_def Let_def)
  qed
qed simp

lemma subseq_distinct: "subseq xs ys \<Longrightarrow> distinct ys \<Longrightarrow> distinct xs"
  by (induction rule: list_emb.induct) (auto dest: list_emb_set)

lemma hex_digits_eq:
  "hex_digits n = (if n = 0 then [] else hex_digits (n div 16) @ [hex_digit (n mod 16)])"
  by (rule hex_digits.simps)

lemma hex_digits_inj: "hex_digits n = hex_digits m \<Longrightarrow> n = m"
proof (induction n arbitrary: m rule: less_induct)
  case (less n)
  show ?case
  proof (cases "n = 0 \<or> m = 0")
    case True
    then show ?thesis using less.prems hex_digits_eq [of n] hex_digits_eq [of m] by (auto split: if_splits)
  next
    case False
    then have e: "hex_digits (n div 16) @ [hex_digit (n mod 16)] = hex_digits (m div 16) @ [hex_digit (m mod 16)]"
      using less.prems hex_digits_eq [of n] hex_digits_eq [of m] by simp
    then have "n div 16 = m div 16" using less.IH [of "n div 16" "m div 16"] False by simp
    moreover have "n mod 16 = m mod 16" using e hex_digit_inj [of "n mod 16" "m mod 16"] by simp
    ultimately show ?thesis by (metis div_mult_mod_eq)
  qed
qed

lemma formatID_inj: "formatID n = formatID m \<Longrightarrow> 0 < n \<Longrightarrow> 0 < m \<Longrightarrow> n = m"
  by (simp add: formatID_def hex_digits_inj)

lemma asked_ids: "cm_ID ` set (asked n cs) \<subseteq> formatID ` {n<..}"
  by (induction n cs rule: asked.induct) force+

lemma asked_distinct: "distinct (map cm_ID (asked n cs))"
proof (induction n cs rule: asked.induct)
  case (2 n now owner to subject body cs)
  have "formatID (n + 1) \<notin> cm_ID ` set (asked (n + 1) cs)"
  proof
    assume "formatID (n + 1) \<in> cm_ID ` set (asked (n + 1) cs)"
    then obtain k where "formatID (n + 1) = formatID k" "n + 1 < k" using asked_ids [of "n + 1" cs] by auto
    then show False using formatID_inj [of "n + 1" k] by simp
  qed
  with 2 show ?case by simp
qed auto

section \<open>Properties\<close>

text \<open>
  Captured mail is private and faithful: after any sequence of captures, prunings and resets, what a visitor of a
  public demo is shown is part of what was captured for that visitor's own handle, in the order and with
  the content of the captures and under pairwise distinct ids; a visitor without a valid handle is shown
  nothing; and the queue never exceeds its capacity.
\<close>

theorem captured_mail_is_scoped:
  "subseq (capturedMailFor E True cookie (run cap_step cs (NewStore mx)))
     (filter (\<lambda>m. cm_Owner m = demoCaptureOwner E cookie \<and> cm_Owner m \<noteq> []) (asked 0 cs))
   \<and> distinct (map cm_ID (capturedMailFor E isDemo cookie (run cap_step cs (NewStore mx))))
   \<and> length (Snapshot (run cap_step cs (NewStore mx))) \<le> ms_max (run cap_step cs (NewStore mx))"
proof -
  let ?s = "run cap_step cs (NewStore mx)"
  have sub: "subseq (ms_items ?s) (asked 0 cs)"
    using subseq_asked [OF NewStore_ok, of mx "[]" cs] by (simp add: NewStore_def)
  have d: "distinct (map cm_ID (ms_items ?s))"
    using subseq_map [OF sub] asked_distinct by (rule subseq_distinct)
  have f: "subseq (filter P (ms_items ?s)) (filter P (asked 0 cs))" for P
    using sub by (rule subseq_filter)
  have df: "distinct (map cm_ID (filter P (ms_items ?s)))" for P
    using d by (rule distinct_map_filter)
  have a: "subseq (capturedMailFor E True cookie ?s)
     (filter (\<lambda>m. cm_Owner m = demoCaptureOwner E cookie \<and> cm_Owner m \<noteq> []) (asked 0 cs))"
  proof (cases "demoCaptureOwner E cookie = []")
    case False
    then have e: "(\<lambda>m. cm_Owner m = demoCaptureOwner E cookie \<and> cm_Owner m \<noteq> []) = (\<lambda>m. cm_Owner m = demoCaptureOwner E cookie)"
      by auto
    show ?thesis unfolding e
      using False f [of "\<lambda>m. cm_Owner m = demoCaptureOwner E cookie"] by (simp add: capturedMailFor_def SnapshotFor_def)
  qed (simp add: capturedMailFor_def SnapshotFor_def)
  have b: "distinct (map cm_ID (capturedMailFor E isDemo cookie ?s))"
    using d df by (simp add: capturedMailFor_def SnapshotFor_def Snapshot_def)
  have c: "length (Snapshot ?s) \<le> ms_max ?s"
    using cap.inv_run [OF NewStore_ok] by (simp add: store_ok_def Snapshot_def)
  from a b c show ?thesis by blast
qed

end
