(* ===== verification/Js_Text.thy ===== *)
theory Js_Text
  imports Go_Json
begin

text \<open>
  The JavaScript string semantics reproduced by \<open>internal/policies/entropy.go\<close>: texts are WTF-8 byte
  strings, UTF-8 in which a lone surrogate is written as its three-byte encoding. Case mapping
  (\<open>golang.org/x/text/cases\<close>) and NFD normalisation (\<open>golang.org/x/text/unicode/norm\<close>) are fields of
  \<open>text_env\<close>.
\<close>

section \<open>Code points and code units\<close>

record text_env =
  te_lower :: "string \<Rightarrow> string"
  te_upper :: "string \<Rightarrow> string"
  te_nfd :: "string \<Rightarrow> string"

definition isSurrogate :: "rune \<Rightarrow> bool" where
  "isSurrogate r \<longleftrightarrow> 0xD800 \<le> r \<and> r \<le> 0xDFFF"

definition highSurrogate :: "rune \<Rightarrow> rune" where
  "highSurrogate r = 0xD800 + (r - 0x10000) div 1024"

text \<open>The three bytes of a surrogate at the head of a text.\<close>

fun surrogate_head :: "string \<Rightarrow> bool" where
  "surrogate_head (a # b # c # _) \<longleftrightarrow> byte a = 0xED \<and> byte b div 32 = 5 \<and> byte c div 64 = 2"
| "surrogate_head _ \<longleftrightarrow> False"

function wtf8Runes :: "string \<Rightarrow> rune list" where
  "wtf8Runes s =
     (if s = [] then []
      else if surrogate_head s then
        (0xD000 + byte (s ! 1) mod 64 * 64 + byte (s ! 2) mod 64) # wtf8Runes (drop 3 s)
      else fst (decode_rune s) # wtf8Runes (drop (snd (decode_rune s)) s))"
  by pat_completeness auto
termination
proof (relation "measure length", goal_cases)
  case (3 s)
  then show ?case using decode_width_pos [of s] by (cases s) auto
qed auto

declare wtf8Runes.simps [simp del]

definition wtf8_rune :: "rune \<Rightarrow> string" where
  "wtf8_rune r = (if isSurrogate r then [to_byte 0xED, to_byte (0x80 + r div 64 mod 64), to_byte (0x80 + r mod 64)]
     else encode_rune r)"

definition wtf8String :: "rune list \<Rightarrow> string" where
  "wtf8String rs = concat (map wtf8_rune rs)"

definition utf16Len :: "string \<Rightarrow> nat" where
  "utf16Len s = sum_list (map (\<lambda>r. if r > 0xFFFF then 2 else 1) (wtf8Runes s))"

definition firstUnit :: "string \<Rightarrow> string" where
  "firstUnit s = (case wtf8Runes s of [] \<Rightarrow> []
     | r # _ \<Rightarrow> if r > 0xFFFF then wtf8String [highSurrogate r] else wtf8String [r])"

fun slice_loop :: "nat \<Rightarrow> nat \<Rightarrow> rune list \<Rightarrow> rune list" where
  "slice_loop n units [] = []"
| "slice_loop n units (r # rs) =
     (let w = (if r > 0xFFFF then 2 else 1)
      in if units + w > n then (if units < n then [highSurrogate r] else [])
         else r # slice_loop n (units + w) rs)"

definition sliceUnits :: "string \<Rightarrow> nat \<Rightarrow> string" where
  "sliceUnits s n = wtf8String (slice_loop n 0 (wtf8Runes s))"

section \<open>White space and tokens\<close>

definition isJSSpace :: "rune \<Rightarrow> bool" where
  "isJSSpace r \<longleftrightarrow> r \<in> {9, 10, 11, 12, 13, 32, 0xA0, 0x1680, 0x2028, 0x2029, 0x202F, 0x205F, 0x3000, 0xFEFF}
     \<or> (0x2000 \<le> r \<and> r \<le> 0x200A)"

definition trim_js :: "string \<Rightarrow> string" where
  "trim_js s = (let rs = dropWhile isJSSpace (wtf8Runes s) in wtf8String (rev (dropWhile isJSSpace (rev rs))))"

fun tokens_loop :: "(rune \<Rightarrow> bool) \<Rightarrow> rune list \<Rightarrow> rune list \<Rightarrow> string list" where
  "tokens_loop breaks cur [] = (if cur \<noteq> [] then [wtf8String cur] else [])"
| "tokens_loop breaks cur (r # rs) =
     (if isJSSpace r \<or> breaks r
      then (if cur \<noteq> [] then wtf8String cur # tokens_loop breaks [] rs else tokens_loop breaks [] rs)
      else tokens_loop breaks (cur @ [r]) rs)"

definition tokens :: "(rune \<Rightarrow> bool) \<Rightarrow> string \<Rightarrow> string list" where
  "tokens breaks s = tokens_loop breaks [] (wtf8Runes s)"

definition words :: "string \<Rightarrow> string list" where
  "words s = tokens (\<lambda>_. False) s"

definition reverseWords :: "string \<Rightarrow> string" where
  "reverseWords s = Join (rev (words s)) '' ''"

definition reverseChars :: "string \<Rightarrow> string" where
  "reverseChars s = wtf8String (rev (wtf8Runes s))"

definition joined :: "string \<Rightarrow> string" where
  "joined s = wtf8String (filter (\<lambda>r. \<not> isJSSpace r) (wtf8Runes s))"

definition variantsT05 :: "string \<Rightarrow> nat \<Rightarrow> string list" where
  "variantsT05 s firstN =
     (let ws = words s in [s, concat (map (\<lambda>w. sliceUnits w firstN) ws), concat (map firstUnit ws)])"

section \<open>Case and diacritics\<close>

fun case_loop :: "(string \<Rightarrow> string) \<Rightarrow> rune list \<Rightarrow> rune list \<Rightarrow> string" where
  "case_loop c buf [] = (if buf \<noteq> [] then c (of_runes buf) else [])"
| "case_loop c buf (r # rs) =
     (if isSurrogate r then (if buf \<noteq> [] then c (of_runes buf) else []) @ wtf8String [r] @ case_loop c [] rs
      else case_loop c (buf @ [r]) rs)"

definition mapCase :: "(string \<Rightarrow> string) \<Rightarrow> string \<Rightarrow> string" where
  "mapCase c s = (if ValidString s then c s else case_loop c [] (wtf8Runes s))"

definition lower_js :: "text_env \<Rightarrow> string \<Rightarrow> string" where
  "lower_js T s = mapCase (te_lower T) s"

definition isCased :: "text_env \<Rightarrow> string \<Rightarrow> bool" where
  "isCased T ch =
     (if ch = [] then False
      else if (case wtf8Runes ch of [r] \<Rightarrow> isSurrogate r | _ \<Rightarrow> False) then False
      else mapCase (te_upper T) ch \<noteq> mapCase (te_lower T) ch)"

definition combining :: "rune \<Rightarrow> bool" where
  "combining r \<longleftrightarrow> 0x300 \<le> r \<and> r \<le> 0x36F"

text \<open>\<open>strings.Map\<close> that drops the combining marks; an invalid byte comes out as U+FFFD.\<close>

definition stripDiacritics :: "text_env \<Rightarrow> string \<Rightarrow> string" where
  "stripDiacritics T s = of_runes (filter (\<lambda>r. \<not> combining r) (runes (te_nfd T s)))"

definition hasCombiningMark :: "text_env \<Rightarrow> string \<Rightarrow> bool" where
  "hasCombiningMark T s = list_ex combining (runes (te_nfd T s))"

section \<open>Round trips\<close>

lemma wtf8Runes_Nil [simp]: "wtf8Runes [] = []"
  by (simp add: wtf8Runes.simps)

lemma wtf8Runes_code [code]:
  "wtf8Runes [] = []"
  "wtf8Runes (a # s) = (if surrogate_head (a # s)
     then (0xD000 + byte ((a # s) ! 1) mod 64 * 64 + byte ((a # s) ! 2) mod 64) # wtf8Runes (drop 3 (a # s))
     else fst (decode_rune (a # s)) # wtf8Runes (drop (snd (decode_rune (a # s))) (a # s)))"
  by (simp, subst wtf8Runes.simps, simp)

definition scalar :: "rune \<Rightarrow> bool" where
  "scalar r \<longleftrightarrow> r \<le> 0x10FFFF \<and> \<not> isSurrogate r"

lemma byte_of_byte: "n < 256 \<Longrightarrow> byte (to_byte n) = n"
  by (simp add: of_char_of)

lemma add_lead_mod:
  "q < 32 \<Longrightarrow> (0xC0 + q) mod 32 = (q::nat)" "q < 64 \<Longrightarrow> (0x80 + q) mod 64 = (q::nat)"
  "q < 16 \<Longrightarrow> (0xE0 + q) mod 16 = (q::nat)" "q < 8 \<Longrightarrow> (0xF0 + q) mod 8 = (q::nat)"
  "32 \<le> q \<Longrightarrow> q < 64 \<Longrightarrow> (0x80 + q) div 32 = (5::nat)"
  using mod_mult_self4 [of 32 6 q] mod_mult_self4 [of 64 2 q] mod_mult_self4 [of 16 14 q] mod_mult_self4 [of 8 30 q]
    div_nat_eqI [of 32 5 "0x80 + q"]
  by simp_all

lemma digits64:
  "(r::nat) div 4096 = r div 64 div 64" "r div 262144 = r div 64 div 64 div 64"
  "r = r div 64 div 64 * 4096 + r div 64 mod 64 * 64 + r mod 64"
  "r = r div 64 div 64 div 64 * 262144 + r div 64 div 64 mod 64 * 4096 + r div 64 mod 64 * 64 + r mod 64"
proof -
  show "r div 4096 = r div 64 div 64" "r div 262144 = r div 64 div 64 div 64" by (simp_all add: div_mult2_eq [symmetric])
  have a: "r = r div 64 * 64 + r mod 64" "r div 64 = r div 64 div 64 * 64 + r div 64 mod 64"
    "r div 64 div 64 = r div 64 div 64 div 64 * 64 + r div 64 div 64 mod 64" by simp_all
  then show "r = r div 64 div 64 * 4096 + r div 64 mod 64 * 64 + r mod 64"
    "r = r div 64 div 64 div 64 * 262144 + r div 64 div 64 mod 64 * 4096 + r div 64 mod 64 * 64 + r mod 64"
    by linarith+
qed

lemma surrogate_digits:
  assumes "isSurrogate r"
  shows "32 \<le> r div 64 mod 64" "0xD000 + r div 64 mod 64 * 64 + r mod 64 = r"
proof -
  have b: "0x360 \<le> r div 64" "r div 64 \<le> 0x37F"
    using assms div_le_mono [of "0xD800" r 64] div_le_mono [of r "0xDFFF" 64] by (simp_all add: isSurrogate_def)
  define q where "q = r div 64"
  have q: "0x360 \<le> q" "q \<le> 0x37F" using b by (simp_all add: q_def)
  then have m: "q mod 64 = q - 0x340" using mod_mult_self4 [of 64 13 "q - 0x340"] by simp
  show "32 \<le> r div 64 mod 64" using m q by (simp add: q_def [symmetric])
  have "0xD000 + q mod 64 * 64 = q * 64" using m q by simp
  then show "0xD000 + r div 64 mod 64 * 64 + r mod 64 = r" by (simp add: q_def)
qed

lemma decode3:
  assumes "x < 16" "y < 64" "z < 64" "x = 0 \<Longrightarrow> 32 \<le> y" "x = 13 \<Longrightarrow> y < 32"
  shows "decode_rune (to_byte (0xE0 + x) # to_byte (0x80 + y) # to_byte (0x80 + z) # s) = (x * 4096 + y * 64 + z, 3)"
proof -
  have b: "byte (to_byte (0xE0 + x)) = 0xE0 + x" "byte (to_byte (0x80 + y)) = 0x80 + y" "byte (to_byte (0x80 + z)) = 0x80 + z"
    using assms(1-3) by (simp_all add: byte_of_byte)
  have m: "(0xE0 + x) mod 16 = x" "(0x80 + y) mod 64 = y" "(0x80 + z) mod 64 = z"
    using assms(1-3) by (simp_all add: add_lead_mod)
  have r: "in_range (if 0xE0 + x = 0xE0 then 0xA0 else 0x80) (if 0xE0 + x = 0xED then 0x9F else 0xBF) (to_byte (0x80 + y))"
    using assms by (auto simp: in_range_def b)
  have c: "is_cont (to_byte (0x80 + z))" using assms(3) by (simp add: is_cont_def b)
  show ?thesis unfolding decode_rune.simps Let_def b using assms(1-3) r c by (simp add: m)
qed

lemma decode4:
  assumes "x < 5" "y < 64" "z < 64" "u < 64" "x = 0 \<Longrightarrow> 16 \<le> y" "x = 4 \<Longrightarrow> y < 16"
  shows "decode_rune (to_byte (0xF0 + x) # to_byte (0x80 + y) # to_byte (0x80 + z) # to_byte (0x80 + u) # s)
    = (x * 262144 + y * 4096 + z * 64 + u, 4)"
proof -
  have b: "byte (to_byte (0xF0 + x)) = 0xF0 + x" "byte (to_byte (0x80 + y)) = 0x80 + y" "byte (to_byte (0x80 + z)) = 0x80 + z"
    "byte (to_byte (0x80 + u)) = 0x80 + u"
    using assms(1-4) by (simp_all add: byte_of_byte)
  have m: "(0xF0 + x) mod 8 = x" "(0x80 + y) mod 64 = y" "(0x80 + z) mod 64 = z" "(0x80 + u) mod 64 = u"
    using assms(1-4) by (simp_all add: add_lead_mod)
  have r: "in_range (if 0xF0 + x = 0xF0 then 0x90 else 0x80) (if 0xF0 + x = 0xF4 then 0x8F else 0xBF) (to_byte (0x80 + y))"
    using assms by (auto simp: in_range_def b)
  have c: "is_cont (to_byte (0x80 + z))" "is_cont (to_byte (0x80 + u))" using assms(3,4) by (simp_all add: is_cont_def b)
  show ?thesis unfolding decode_rune.simps Let_def b using assms(1-4) r c by (simp add: m)
qed

lemma decode_encode:
  assumes "scalar r"
  shows "decode_rune (encode_rune r @ s) = (r, length (encode_rune r))"
proof -
  consider (one) "r < 0x80" | (two) "0x80 \<le> r" "r < 0x800" | (three) "0x800 \<le> r" "r < 0x10000" "r < 0xD800 \<or> 0xDFFF < r"
    | (four) "0x10000 \<le> r" "r \<le> 0x10FFFF"
  proof -
    have "r < 0x80 \<or> 0x80 \<le> r \<and> r < 0x800 \<or> 0x800 \<le> r \<and> r < 0x10000 \<and> (r < 0xD800 \<or> 0xDFFF < r)
      \<or> 0x10000 \<le> r \<and> r \<le> 0x10FFFF"
      using assms unfolding scalar_def isSurrogate_def by arith
    then show thesis using one two three four by blast
  qed
  then show ?thesis
  proof cases
    case one
    then show ?thesis by (simp add: encode_rune_def decode_rune.simps byte_of_byte)
  next
    case two
    have d: "r div 64 < 32" "2 \<le> r div 64" using two by (simp_all add: div_less_iff_less_mult)
    have "(0xC0 + r div 64) mod 32 * 64 + (0x80 + r mod 64) mod 64 = r" using d(1) by (simp add: add_lead_mod)
    with two d show ?thesis
      by (simp add: encode_rune_def decode_rune.simps byte_of_byte is_cont_def Let_def)
  next
    case three
    have d: "r div 4096 < 16" using three by (simp add: div_less_iff_less_mult)
    have m: "r div 64 mod 64 < 64" "r mod 64 < 64" by simp_all
    have v: "r = r div 4096 * 4096 + r div 64 mod 64 * 64 + r mod 64" using digits64(1,3) [of r] by simp
    have e0: "r div 4096 = 0 \<Longrightarrow> 32 \<le> r div 64 mod 64" using three(1) v m by linarith
    have ed: "r div 4096 = 13 \<Longrightarrow> r div 64 mod 64 < 32" using three(3) v m by linarith
    have "\<not> (0xD800 \<le> r \<and> r \<le> 0xDFFF)" "\<not> r < 0x80" "\<not> r < 0x800" "\<not> 0x10FFFF < r" using three by linarith+
    then have enc: "encode_rune r = [to_byte (0xE0 + r div 4096), to_byte (0x80 + r div 64 mod 64), to_byte (0x80 + r mod 64)]"
      using three(2) by (simp only: encode_rune_def if_True if_False simp_thms)
    show ?thesis using decode3 [OF d m e0 ed, of s] v by (simp add: enc)
  next
    case four
    have d: "r div 262144 < 5" using four by (simp add: div_less_iff_less_mult)
    have m: "r div 4096 mod 64 < 64" "r div 64 mod 64 < 64" "r mod 64 < 64" by simp_all
    have v: "r = r div 262144 * 262144 + r div 4096 mod 64 * 4096 + r div 64 mod 64 * 64 + r mod 64"
      using digits64(1,2,4) [of r] by simp
    have f0: "r div 262144 = 0 \<Longrightarrow> 16 \<le> r div 4096 mod 64" using four v m by linarith
    have f4: "r div 262144 = 4 \<Longrightarrow> r div 4096 mod 64 < 16" using four v m by linarith
    have "\<not> (0xD800 \<le> r \<and> r \<le> 0xDFFF)" "\<not> r < 0x80" "\<not> r < 0x800" "\<not> 0x10FFFF < r" "\<not> r < 0x10000" using four by linarith+
    then have enc: "encode_rune r = [to_byte (0xF0 + r div 262144), to_byte (0x80 + r div 4096 mod 64),
        to_byte (0x80 + r div 64 mod 64), to_byte (0x80 + r mod 64)]"
      by (simp only: encode_rune_def if_False simp_thms)
    show ?thesis using decode4 [OF d m f0 f4, of s] v by (simp add: enc)
  qed
qed

lemma encode_not_surrogate: "scalar r \<Longrightarrow> \<not> surrogate_head (encode_rune r @ s)"
proof
  assume r: "scalar r" and h: "surrogate_head (encode_rune r @ s)"
  have e: "encode_rune r \<noteq> []" by (simp add: encode_rune_def)
  obtain a t where a: "encode_rune r @ s = a # t" using e by (cases "encode_rune r") auto
  have "byte a = 0xED" "byte (hd t) div 32 = 5" using h a by (cases t; cases "tl t"; simp)+
  then have l: "\<not> r < 0x80" "\<not> r < 0x800" "\<not> 0x10000 \<le> r"
    using a r by (auto simp: encode_rune_def scalar_def isSurrogate_def byte_of_byte div_less_iff_less_mult split: if_splits)
  then have "a = to_byte (0xE0 + r div 4096)" "hd t = to_byte (0x80 + r div 64 mod 64)"
    using a r by (auto simp: encode_rune_def scalar_def isSurrogate_def)
  then have "0xE0 + r div 4096 = 0xED" "(0x80 + r div 64 mod 64) div 32 = 5"
    using \<open>byte a = 0xED\<close> \<open>byte (hd t) div 32 = 5\<close> l by (auto simp: byte_of_byte div_less_iff_less_mult)
  moreover have "q < 32 \<Longrightarrow> (0x80 + q) div 32 = (4::nat)" for q using div_nat_eqI [of 32 4 "0x80 + q"] by simp
  ultimately have d: "r div 4096 = 13" "32 \<le> r div 64 mod 64" by (simp, metis leI numeral_eq_iff semiring_norm(85) semiring_norm(89))
  then have "r = 13 * 4096 + r div 64 mod 64 * 64 + r mod 64" using digits64(1,3) [of r] by simp
  moreover have "r div 64 mod 64 < 64" "r mod 64 < 64" by simp_all
  ultimately have "0xD800 \<le> r" "r < 0xE000" using d(2) by linarith+
  with r show False by (simp add: scalar_def isSurrogate_def)
qed

lemma wtf8Runes_rune:
  assumes "r \<le> 0x10FFFF"
  shows "wtf8Runes (wtf8_rune r @ s) = r # wtf8Runes s"
proof (cases "isSurrogate r")
  case True
  then have w: "wtf8_rune r @ s = to_byte 0xED # to_byte (0x80 + r div 64 mod 64) # to_byte (0x80 + r mod 64) # s"
    by (simp add: wtf8_rune_def)
  note h = surrogate_digits [OF True]
  have "(0x80 + r div 64 mod 64) div 32 = 5" using h(1) by (simp add: add_lead_mod)
  then have "surrogate_head (wtf8_rune r @ s)" unfolding w by (simp add: byte_of_byte)
  then show ?thesis
    using h(2) by (subst wtf8Runes.simps) (simp add: w byte_of_byte add_lead_mod numeral_2_eq_2 numeral_3_eq_3)
next
  case False
  then have r: "scalar r" "wtf8_rune r = encode_rune r" using assms by (simp_all add: scalar_def wtf8_rune_def)
  have e: "encode_rune r \<noteq> []" by (simp add: encode_rune_def)
  show ?thesis
    by (subst wtf8Runes.simps) (simp add: r e encode_not_surrogate decode_encode)
qed

lemma wtf8_roundtrip: "\<forall>r\<in>set rs. r \<le> 0x10FFFF \<Longrightarrow> wtf8Runes (wtf8String rs) = rs"
  by (induction rs) (simp_all add: wtf8String_def wtf8Runes_rune)

text \<open>On valid UTF-8 the WTF-8 reading is Go's, and it loses nothing.\<close>

lemma valid_head:
  assumes "ValidString (a # s)"
  obtains r where "scalar r" "decode_rune (a # s) = (r, length (encode_rune r))"
    "a # s = encode_rune r @ drop (length (encode_rune r)) (a # s)" "ValidString (drop (length (encode_rune r)) (a # s))"
proof -
  obtain r w where d: "decode_rune (a # s) = (r, w)" by (cases "decode_rune (a # s)")
  have v: "(r, w) \<noteq> (RuneError, 1)" "ValidString (drop w (a # s))" using assms d by (simp_all add: ValidString_Cons)
  note b = decode_block [OF d v(1)]
  have w: "w = length (encode_rune r)" using b(1) decode_width_le [of "a # s"] d by (metis length_take min.absorb2 snd_conv)
  have e: "a # s = encode_rune r @ drop w (a # s)" using b(1) by (metis append_take_drop_id)
  have "\<not> isSurrogate r"
  proof
    assume "isSurrogate r"
    then have er: "encode_rune r = encode_rune RuneError" by (auto simp: encode_rune_def isSurrogate_def)
    have "decode_rune (encode_rune RuneError @ drop w (a # s)) = (RuneError, length (encode_rune RuneError))"
      by (rule decode_encode) (simp add: scalar_def isSurrogate_def)
    then have "r = RuneError" using d e er by (metis fst_conv)
    with \<open>isSurrogate r\<close> show False by (simp add: isSurrogate_def)
  qed
  then have "scalar r" using b(3) by (simp add: scalar_def)
  with that d e v(2) w show thesis by blast
qed

lemma valid_wtf8:
  "ValidString s \<Longrightarrow> wtf8Runes s = runes s \<and> of_runes (runes s) = s \<and> (\<forall>r\<in>set (runes s). scalar r)"
proof (induction "length s" arbitrary: s rule: less_induct)
  case less
  show ?case
  proof (cases s)
    case (Cons a t)
    obtain r where r: "scalar r" "decode_rune (a # t) = (r, length (encode_rune r))"
      "a # t = encode_rune r @ drop (length (encode_rune r)) (a # t)" "ValidString (drop (length (encode_rune r)) (a # t))"
      using valid_head less.prems Cons by metis
    let ?t = "drop (length (encode_rune r)) (a # t)"
    have e: "encode_rune r \<noteq> []" by (simp add: encode_rune_def)
    then have "length ?t < length s" using Cons by (cases "encode_rune r") auto
    note ih = less.hyps [OF this r(4)]
    have "wtf8Runes (a # t) = r # wtf8Runes ?t"
      using wtf8Runes_rune [of r ?t] r(1,3) by (simp add: scalar_def wtf8_rune_def)
    moreover have "runes (a # t) = r # runes ?t" using r(2) by (simp add: runes_Cons)
    moreover have "of_runes (r # runes ?t) = a # t" using ih r(3) by (simp add: of_runes_def)
    ultimately show ?thesis using ih r(1) Cons by simp
  qed (simp add: of_runes_def)
qed

lemma valid_wtf8_inj: "ValidString s \<Longrightarrow> ValidString t \<Longrightarrow> wtf8Runes s = wtf8Runes t \<Longrightarrow> s = t"
  using valid_wtf8 by metis

end
