(* ===== verification/Policy_Params.thy ===== *)
theory Policy_Params
  imports Js_Text Policies Complex_Main
begin

text \<open>
  The reading of policy parameters (\<open>internal/policies/entropy.go\<close>, the port of \<open>params.js\<close>): a decoded
  JSON value is checked and normalised into the parameters of one of the three generators. A JSON
  value is what \<open>encoding/json\<close> decodes into \<open>any\<close>; an object is an association list with distinct
  keys; a number (\<open>float64\<close>) is a real. Every refusal is \<open>ErrInvalidShape\<close>; its message is left out.
\<close>

section \<open>JSON values\<close>

datatype jval = JNull | JBool bool | JNum real | JString string | JArr "jval list" | JObj "(string \<times> jval) list"

type_synonym obj = "(string \<times> jval) list"

fun jsGet :: "jval \<Rightarrow> string \<Rightarrow> jval option" where
  "jsGet (JObj x) key = map_of x key"
| "jsGet (JString x) key = (if key = ''length'' then Some (JNum (real (utf16Len x))) else None)"
| "jsGet (JArr x) key = (if key = ''length'' then Some (JNum (real (length x))) else None)"
| "jsGet _ key = None"

fun truthy :: "jval option \<Rightarrow> bool" where
  "truthy None = False"
| "truthy (Some JNull) = False"
| "truthy (Some (JBool b)) = b"
| "truthy (Some (JNum x)) = (x \<noteq> 0)"
| "truthy (Some (JString s)) = (s \<noteq> [])"
| "truthy (Some _) = True"

section \<open>Reading lists and numbers\<close>

fun dedupe_loop :: "string list \<Rightarrow> jval list \<Rightarrow> pol_err + string list" where
  "dedupe_loop out [] = Inr out"
| "dedupe_loop out (v # vs) =
     (case v of
        JString s \<Rightarrow> if s = [] then Inl ErrInvalidShape
                     else dedupe_loop (if s \<in> set out then out else out @ [s]) vs
      | _ \<Rightarrow> Inl ErrInvalidShape)"

definition dedupeStrings :: "jval list \<Rightarrow> pol_err + string list" where
  "dedupeStrings list = dedupe_loop [] list"

definition uniqueLibrary :: "obj \<Rightarrow> pol_err + string list" where
  "uniqueLibrary params =
     (case map_of params ''library'' of
        Some (JArr list) \<Rightarrow> if list = [] then Inl ErrInvalidShape else dedupeStrings list
      | _ \<Rightarrow> Inl ErrInvalidShape)"

definition stringList :: "jval \<Rightarrow> string \<Rightarrow> string list \<Rightarrow> pol_err + string list" where
  "stringList v key fallback =
     (case jsGet v key of
        None \<Rightarrow> Inr fallback
      | Some (JArr list) \<Rightarrow> if list = [] then Inl ErrInvalidShape else dedupeStrings list
      | Some _ \<Rightarrow> Inl ErrInvalidShape)"

text \<open>\<open>math.Trunc\<close>.\<close>

definition Trunc :: "real \<Rightarrow> int" where
  "Trunc f = (if 0 \<le> f then \<lfloor>f\<rfloor> else \<lceil>f\<rceil>)"

definition intIn :: "jval \<Rightarrow> string \<Rightarrow> nat \<Rightarrow> nat \<Rightarrow> nat \<Rightarrow> pol_err + nat" where
  "intIn v key lo hi fallback =
     (case jsGet v key of
        None \<Rightarrow> Inr fallback
      | Some (JNum f) \<Rightarrow>
          if f \<noteq> of_int (Trunc f) \<or> f < real lo \<or> f > real hi then Inl ErrInvalidShape else Inr (nat (Trunc f))
      | Some _ \<Rightarrow> Inl ErrInvalidShape)"

definition sizeClaim :: "obj \<Rightarrow> string \<Rightarrow> nat \<Rightarrow> pol_err option" where
  "sizeClaim params key actual =
     (case map_of params key of
        None \<Rightarrow> None
      | Some (JNum f) \<Rightarrow> if f = real actual then None else Some ErrInvalidShape
      | Some _ \<Rightarrow> Some ErrInvalidShape)"

section \<open>Numeric groups\<close>

record numericGroup =
  ng_digitsCount :: nat
  ng_separator :: "string option"

definition positions :: "string list" where "positions = [''prefix'', ''middle'', ''suffix'']"

definition maxDigits :: nat where "maxDigits = 32"

definition numericGroup_of :: "nat \<Rightarrow> jval \<Rightarrow> pol_err + numericGroup" where
  "numericGroup_of defaultDigits g =
     (if (case g of JObj _ \<Rightarrow> False | JArr _ \<Rightarrow> False | _ \<Rightarrow> True) then Inl ErrInvalidShape
      else if (case jsGet g ''position'' of
                 None \<Rightarrow> False | Some JNull \<Rightarrow> False
               | Some (JString s) \<Rightarrow> s \<notin> set positions | Some _ \<Rightarrow> True) then Inl ErrInvalidShape
      else
        let sep = (case jsGet g ''separator'' of
                     None \<Rightarrow> Inr None | Some (JString s) \<Rightarrow> Inr (Some s) | Some _ \<Rightarrow> Inl ErrInvalidShape)
        in case sep of
          Inl e \<Rightarrow> Inl e
        | Inr sep \<Rightarrow>
            (case intIn g ''digitsCount'' 0 maxDigits defaultDigits of
               Inl e \<Rightarrow> Inl e
             | Inr n \<Rightarrow> Inr \<lparr>ng_digitsCount = n, ng_separator = sep\<rparr>))"

fun groups_loop :: "nat \<Rightarrow> jval list \<Rightarrow> pol_err + numericGroup list" where
  "groups_loop defaultDigits [] = Inr []"
| "groups_loop defaultDigits (g # gs) =
     (case numericGroup_of defaultDigits g of
        Inl e \<Rightarrow> Inl e
      | Inr ng \<Rightarrow> (case groups_loop defaultDigits gs of Inl e \<Rightarrow> Inl e | Inr out \<Rightarrow> Inr (ng # out)))"

definition numericGroups :: "obj \<Rightarrow> numericGroup list \<Rightarrow> nat \<Rightarrow> pol_err + numericGroup list" where
  "numericGroups params fallback defaultDigits =
     (case map_of params ''numericGroups'' of
        None \<Rightarrow> Inr fallback
      | Some (JArr list) \<Rightarrow> groups_loop defaultDigits list
      | Some _ \<Rightarrow> Inl ErrInvalidShape)"

section \<open>Transforms\<close>

record transform =
  tr_code :: string
  tr_mode :: string
  tr_candidates :: "string list"
  tr_probability :: real
  tr_firstN :: nat
  tr_symbols :: "string list"
  tr_length :: nat

definition defaultSeparators :: "string list" where
  "defaultSeparators = [''-'', ''_'', ''.'', ''/'', ''+'', '':'', ''|'', '';'', '','', ''~'']"

definition defaultSymbols :: "string list" where
  "defaultSymbols = [''!'', ''@'', ''#'', ''$'', ''%'', ''&'', ''*'', ''+'', ''='', ''?'']"

definition caseModes :: "string list" where
  "caseModes = [''lowercase'', ''uppercase'', ''camelCase'', ''PascalCase'', ''SCREAMING_SNAKE'']"

definition transformCodes :: "string list" where
  "transformCodes = [''T01'', ''T02'', ''T03'', ''T04'', ''T05'', ''T06'', ''T07'', ''T08'', ''T09'']"

definition maxTransformLength :: nat where "maxTransformLength = 64"

definition new_transform :: "string \<Rightarrow> transform" where
  "new_transform code = \<lparr>tr_code = code, tr_mode = [], tr_candidates = [], tr_probability = 0, tr_firstN = 0,
     tr_symbols = [], tr_length = 0\<rparr>"

definition transformParameters :: "transform \<Rightarrow> jval \<Rightarrow> pol_err + transform" where
  "transformParameters t p =
     (let code = tr_code t
      in if code = ''T01'' then
           (case stringList p ''candidates'' caseModes of
              Inl e \<Rightarrow> Inl e
            | Inr cs \<Rightarrow> if set cs \<subseteq> set caseModes then Inr (t\<lparr>tr_candidates := cs\<rparr>) else Inl ErrInvalidShape)
         else if code = ''T02'' \<or> code = ''T03'' then
           (case jsGet p ''probability'' of
              None \<Rightarrow> Inr (t\<lparr>tr_probability := 1/2\<rparr>)
            | Some JNull \<Rightarrow> Inr (t\<lparr>tr_probability := 1/2\<rparr>)
            | Some (JNum f) \<Rightarrow> if f \<le> 0 \<or> f \<ge> 1 then Inl ErrInvalidShape else Inr (t\<lparr>tr_probability := f\<rparr>)
            | Some _ \<Rightarrow> Inl ErrInvalidShape)
         else if code = ''T05'' then
           map_sum id (\<lambda>n. t\<lparr>tr_firstN := n\<rparr>) (intIn p ''firstN'' 1 maxTransformLength 3)
         else if code = ''T08'' then
           map_sum id (\<lambda>ss. t\<lparr>tr_symbols := ss\<rparr>) (stringList p ''symbols'' defaultSymbols)
         else if code = ''T09'' then
           map_sum id (\<lambda>n. t\<lparr>tr_length := n\<rparr>) (intIn p ''length'' 1 maxTransformLength 4)
         else Inr t)"

text \<open>\<open>Inr None\<close>: the entry is inactive.\<close>

definition parseTransform :: "jval \<Rightarrow> transform list \<Rightarrow> pol_err + transform option" where
  "parseTransform t prev =
     (if (case t of JObj _ \<Rightarrow> False | JArr _ \<Rightarrow> False | _ \<Rightarrow> True) then Inl ErrInvalidShape
      else
        let code = (case jsGet t ''code'' of Some (JString s) \<Rightarrow> s | _ \<Rightarrow> [])
        in if code \<notin> set transformCodes then Inl ErrInvalidShape
        else if \<not> truthy (jsGet t ''active'') then Inr None
        else if code \<in> tr_code ` set prev then Inl ErrInvalidShape
        else
          let mode = (case jsGet t ''mode'' of
                        None \<Rightarrow> Inr []
                      | Some (JString s) \<Rightarrow> if s = ''random'' \<or> s = ''deterministic'' then Inr s else Inl ErrInvalidShape
                      | Some _ \<Rightarrow> Inl ErrInvalidShape)
          in case mode of
            Inl e \<Rightarrow> Inl e
          | Inr m \<Rightarrow>
              let tp = (case jsGet t ''parameters'' of None \<Rightarrow> JObj [] | Some JNull \<Rightarrow> JObj [] | Some v \<Rightarrow> v)
              in map_sum id Some (transformParameters ((new_transform code)\<lparr>tr_mode := m\<rparr>) tp))"

fun transforms_loop :: "transform list \<Rightarrow> jval list \<Rightarrow> pol_err + transform list" where
  "transforms_loop out [] = Inr out"
| "transforms_loop out (t # ts) =
     (case parseTransform t out of
        Inl e \<Rightarrow> Inl e
      | Inr None \<Rightarrow> transforms_loop out ts
      | Inr (Some tr) \<Rightarrow> transforms_loop (out @ [tr]) ts)"

definition transforms :: "obj \<Rightarrow> pol_err + transform list" where
  "transforms params =
     (case map_of params ''transforms'' of
        None \<Rightarrow> Inr []
      | Some (JArr list) \<Rightarrow> transforms_loop [] list
      | Some _ \<Rightarrow> Inl ErrInvalidShape)"

section \<open>The three generators\<close>

record g1Params =
  g1_citations :: "string list"
  g1_separators :: "string list"
  g1_groups :: "numericGroup list"
  g1_transforms :: "transform list"

record g2Params =
  g2_words :: "string list"
  g2_wordCount :: nat
  g2_separators :: "string list"
  g2_digits :: "numericGroup option"
  g2_digitsGlued :: bool

record g3Params =
  g3_length :: nat
  g3_alphabet :: nat

definition alphabetFull :: string where
  "alphabetFull = ''abcdefghijklmnopqrstuvwxyzABCDEFGHIJKLMNOPQRSTUVWXYZ0123456789''"

definition ambiguous :: string where "ambiguous = ''lI10O''"

definition maxWords :: nat where "maxWords = 64"

definition maxLength :: nat where "maxLength = 256"

definition group3 :: numericGroup where "group3 = \<lparr>ng_digitsCount = 3, ng_separator = None\<rparr>"

definition normalizeG1 :: "obj \<Rightarrow> pol_err + g1Params" where
  "normalizeG1 params =
     (case uniqueLibrary params of Inl e \<Rightarrow> Inl e | Inr citations \<Rightarrow>
      case sizeClaim params ''corpusSize'' (length citations) of Some e \<Rightarrow> Inl e | None \<Rightarrow>
      case stringList (JObj params) ''separatorOptions'' defaultSeparators of Inl e \<Rightarrow> Inl e | Inr separators \<Rightarrow>
      case numericGroups params [group3, group3, group3] 3 of Inl e \<Rightarrow> Inl e | Inr groups \<Rightarrow>
      case transforms params of Inl e \<Rightarrow> Inl e | Inr ts \<Rightarrow>
        Inr \<lparr>g1_citations = citations, g1_separators = separators, g1_groups = groups, g1_transforms = ts\<rparr>)"

definition normalizeG2 :: "obj \<Rightarrow> pol_err + g2Params" where
  "normalizeG2 params =
     (case uniqueLibrary params of Inl e \<Rightarrow> Inl e | Inr ws \<Rightarrow>
      case sizeClaim params ''dictionarySize'' (length ws) of Some e \<Rightarrow> Inl e | None \<Rightarrow>
      case numericGroups params [\<lparr>ng_digitsCount = 4, ng_separator = None\<rparr>] 4 of Inl e \<Rightarrow> Inl e | Inr groups \<Rightarrow>
      case transforms params of Inl e \<Rightarrow> Inl e | Inr _ \<Rightarrow>
      case intIn (JObj params) ''numberOfWords'' 1 maxWords 6 of Inl e \<Rightarrow> Inl e | Inr wordCount \<Rightarrow>
      case stringList (JObj params) ''separatorOptions'' defaultSeparators of Inl e \<Rightarrow> Inl e | Inr separators \<Rightarrow>
        Inr (case groups of
               [] \<Rightarrow> \<lparr>g2_words = ws, g2_wordCount = wordCount, g2_separators = separators, g2_digits = None, g2_digitsGlued = False\<rparr>
             | g # _ \<Rightarrow> \<lparr>g2_words = ws, g2_wordCount = wordCount, g2_separators = separators, g2_digits = Some g,
                         g2_digitsGlued = (ng_separator g = Some [])\<rparr>))"

definition normalizeG3 :: "obj \<Rightarrow> pol_err + g3Params" where
  "normalizeG3 params =
     (let exclude = (case map_of params ''excludeAmbiguous'' of
                       None \<Rightarrow> Inr False | Some (JBool b) \<Rightarrow> Inr b | Some _ \<Rightarrow> Inl ErrInvalidShape)
      in case exclude of Inl e \<Rightarrow> Inl e | Inr ex \<Rightarrow>
      let alphabet = (if ex then length alphabetFull - length ambiguous else length alphabetFull)
      in case sizeClaim params ''alphabetSize'' alphabet of Some e \<Rightarrow> Inl e | None \<Rightarrow>
      case intIn (JObj params) ''length'' 1 maxLength 20 of Inl e \<Rightarrow> Inl e | Inr len \<Rightarrow>
      case intIn (JObj params) ''blockSize'' 0 maxLength 5 of Inl e \<Rightarrow> Inl e | Inr _ \<Rightarrow>
      case map_of params ''blockSeparator'' of
        None \<Rightarrow> Inr \<lparr>g3_length = len, g3_alphabet = alphabet\<rparr>
      | Some (JString _) \<Rightarrow> Inr \<lparr>g3_length = len, g3_alphabet = alphabet\<rparr>
      | Some _ \<Rightarrow> Inl ErrInvalidShape)"

section \<open>What normalisation leaves\<close>

text \<open>A reading is \<open>checked\<close> when it either refuses with \<open>ErrInvalidShape\<close> or delivers a value of the type.\<close>

definition checked :: "('a \<Rightarrow> bool) \<Rightarrow> pol_err + 'a \<Rightarrow> bool" where
  "checked P r \<longleftrightarrow> (case r of Inl e \<Rightarrow> e = ErrInvalidShape | Inr x \<Rightarrow> P x)"

definition names_list :: "string list \<Rightarrow> bool" where
  "names_list xs \<longleftrightarrow> xs \<noteq> [] \<and> distinct xs \<and> [] \<notin> set xs"

definition transform_ok :: "transform \<Rightarrow> bool" where
  "transform_ok t \<longleftrightarrow> tr_code t \<in> set transformCodes \<and> tr_mode t \<in> {[], ''random'', ''deterministic''}
     \<and> (tr_code t = ''T01'' \<longrightarrow> names_list (tr_candidates t) \<and> set (tr_candidates t) \<subseteq> set caseModes)
     \<and> (tr_code t \<in> {''T02'', ''T03''} \<longrightarrow> 0 < tr_probability t \<and> tr_probability t < 1)
     \<and> (tr_code t = ''T05'' \<longrightarrow> 1 \<le> tr_firstN t \<and> tr_firstN t \<le> maxTransformLength)
     \<and> (tr_code t = ''T08'' \<longrightarrow> names_list (tr_symbols t))
     \<and> (tr_code t = ''T09'' \<longrightarrow> 1 \<le> tr_length t \<and> tr_length t \<le> maxTransformLength)"

definition chain_ok :: "transform list \<Rightarrow> bool" where
  "chain_ok ts \<longleftrightarrow> distinct (map tr_code ts) \<and> list_all transform_ok ts"

definition group_ok :: "numericGroup \<Rightarrow> bool" where
  "group_ok g \<longleftrightarrow> ng_digitsCount g \<le> maxDigits"

definition g1_ok :: "g1Params \<Rightarrow> bool" where
  "g1_ok p \<longleftrightarrow> names_list (g1_citations p) \<and> names_list (g1_separators p) \<and> list_all group_ok (g1_groups p)
     \<and> chain_ok (g1_transforms p)"

definition g2_ok :: "g2Params \<Rightarrow> bool" where
  "g2_ok p \<longleftrightarrow> names_list (g2_words p) \<and> names_list (g2_separators p) \<and> 1 \<le> g2_wordCount p \<and> g2_wordCount p \<le> maxWords
     \<and> (case g2_digits p of None \<Rightarrow> \<not> g2_digitsGlued p | Some g \<Rightarrow> group_ok g \<and> (g2_digitsGlued p \<longleftrightarrow> ng_separator g = Some []))"

definition g3_ok :: "g3Params \<Rightarrow> bool" where
  "g3_ok p \<longleftrightarrow> 1 \<le> g3_length p \<and> g3_length p \<le> maxLength \<and> g3_alphabet p \<in> {57, 62}"

lemma checkedI: "(\<And>e. r = Inl e \<Longrightarrow> e = ErrInvalidShape) \<Longrightarrow> (\<And>x. r = Inr x \<Longrightarrow> P x) \<Longrightarrow> checked P r"
  by (cases r) (simp_all add: checked_def)

lemma checkedD: "checked P r \<Longrightarrow> r = Inr x \<Longrightarrow> P x" "checked P r \<Longrightarrow> r = Inl e \<Longrightarrow> e = ErrInvalidShape"
  by (simp_all add: checked_def)

lemma checked_simps [simp]: "checked P (Inl e) \<longleftrightarrow> e = ErrInvalidShape" "checked P (Inr x) \<longleftrightarrow> P x"
  by (simp_all add: checked_def)

lemma checked_bind:
  assumes "checked P r" "\<And>x. P x \<Longrightarrow> checked Q (f x)"
  shows "checked Q (case r of Inl e \<Rightarrow> Inl e | Inr x \<Rightarrow> f x)"
  using assms by (cases r) auto

lemma checked_map:
  assumes "checked P r" "\<And>x. P x \<Longrightarrow> Q (f x)"
  shows "checked Q (map_sum id f r)"
  using assms by (cases r) auto

lemma checked_claim:
  assumes "checked Q r"
  shows "checked Q (case sizeClaim params key n of None \<Rightarrow> r | Some e \<Rightarrow> Inl e)"
  using assms by (auto simp: sizeClaim_def split: option.splits jval.splits)

lemma dedupe_loop_checked:
  "distinct out \<Longrightarrow> [] \<notin> set out \<Longrightarrow> out \<noteq> [] \<or> vs \<noteq> [] \<Longrightarrow> checked names_list (dedupe_loop out vs)"
proof (induction out vs rule: dedupe_loop.induct)
  case (1 out)
  then show ?case by (simp add: names_list_def)
next
  case (2 out v vs)
  show ?case
  proof (cases v)
    case (JString s)
    then show ?thesis using 2 by (cases "s \<in> set out"; cases out) auto
  qed simp_all
qed

lemma dedupeStrings_checked: "vs \<noteq> [] \<Longrightarrow> checked names_list (dedupeStrings vs)"
  using dedupe_loop_checked [of "[]" vs] by (simp add: dedupeStrings_def)

lemma uniqueLibrary_checked: "checked names_list (uniqueLibrary params)"
  using dedupeStrings_checked by (simp add: uniqueLibrary_def split: option.split jval.split)

lemma stringList_checked: "names_list fallback \<Longrightarrow> checked names_list (stringList v key fallback)"
  using dedupeStrings_checked by (simp add: stringList_def split: option.split jval.split)

lemma intIn_checked:
  assumes "lo \<le> fallback" "fallback \<le> hi"
  shows "checked (\<lambda>n. lo \<le> n \<and> n \<le> hi) (intIn v key lo hi fallback)"
proof -
  have "lo \<le> nat (Trunc f) \<and> nat (Trunc f) \<le> hi" if f: "f = of_int (Trunc f)" "real lo \<le> f" "f \<le> real hi" for f
  proof -
    have "of_int (int lo) \<le> (of_int (Trunc f) :: real)" "(of_int (Trunc f) :: real) \<le> of_int (int hi)"
      using f by auto
    then have "int lo \<le> Trunc f" "Trunc f \<le> int hi" unfolding of_int_le_iff .
    then show ?thesis by linarith
  qed
  then show ?thesis using assms by (auto simp: intIn_def not_less split: option.split jval.split)
qed

lemma numericGroup_checked: "d \<le> maxDigits \<Longrightarrow> checked group_ok (numericGroup_of d g)"
  using checked_bind [OF intIn_checked [of 0 d maxDigits g "''digitsCount''"], where Q = group_ok]
  by (auto simp: numericGroup_of_def Let_def group_ok_def split: option.split jval.split)

lemma groups_checked: "d \<le> maxDigits \<Longrightarrow> checked (list_all group_ok) (groups_loop d gs)"
proof (induction gs)
  case (Cons g gs)
  show ?case unfolding groups_loop.simps
    by (rule checked_bind [OF numericGroup_checked [OF Cons.prems]], rule checked_bind [OF Cons.IH [OF Cons.prems]]) simp
qed simp

lemma numericGroups_checked:
  "list_all group_ok fallback \<Longrightarrow> d \<le> maxDigits \<Longrightarrow> checked (list_all group_ok) (numericGroups params fallback d)"
  using groups_checked by (simp add: numericGroups_def split: option.split jval.split)

lemma defaults_ok: "names_list defaultSeparators" "names_list defaultSymbols" "names_list caseModes"
  by (simp_all add: names_list_def defaultSeparators_def defaultSymbols_def caseModes_def)

lemma parameters_checked:
  assumes "tr_code t \<in> set transformCodes" "tr_mode t \<in> {[], ''random'', ''deterministic''}"
  shows "checked (\<lambda>u. transform_ok u \<and> tr_code u = tr_code t) (transformParameters t p)"
proof -
  note l = maxTransformLength_def
  have c: "tr_code t = ''T01'' \<or> tr_code t \<in> {''T02'', ''T03''} \<or> tr_code t = ''T05'' \<or> tr_code t = ''T08'' \<or> tr_code t = ''T09''
    \<or> tr_code t \<in> {''T04'', ''T06'', ''T07''}"
    using assms(1) by (auto simp: transformCodes_def)
  have t1: ?thesis if "tr_code t = ''T01''"
  proof -
    have "checked (\<lambda>u. transform_ok u \<and> tr_code u = tr_code t) (case stringList p ''candidates'' caseModes of
        Inl e \<Rightarrow> Inl e
      | Inr cs \<Rightarrow> if set cs \<subseteq> set caseModes then Inr (t\<lparr>tr_candidates := cs\<rparr>) else Inl ErrInvalidShape)"
      by (rule checked_bind [OF stringList_checked [OF defaults_ok(3)]]) (use assms that in \<open>auto simp: transform_ok_def\<close>)
    with that show ?thesis by (simp add: transformParameters_def)
  qed
  have t23: ?thesis if "tr_code t \<in> {''T02'', ''T03''}"
    using that assms by (auto simp: transformParameters_def transform_ok_def split: option.split jval.split)
  have t5: ?thesis if "tr_code t = ''T05''"
    using checked_map [OF intIn_checked [of 1 3 maxTransformLength p "''firstN''"], where f = "\<lambda>n. t\<lparr>tr_firstN := n\<rparr>"
        and Q = "\<lambda>u. transform_ok u \<and> tr_code u = tr_code t"] that assms
    by (simp add: transformParameters_def transform_ok_def l)
  have t8: ?thesis if "tr_code t = ''T08''"
    using checked_map [OF stringList_checked [OF defaults_ok(2), of p "''symbols''"], where f = "\<lambda>n. t\<lparr>tr_symbols := n\<rparr>"
        and Q = "\<lambda>u. transform_ok u \<and> tr_code u = tr_code t"] that assms
    by (simp add: transformParameters_def transform_ok_def)
  have t9: ?thesis if "tr_code t = ''T09''"
    using checked_map [OF intIn_checked [of 1 4 maxTransformLength p "''length''"], where f = "\<lambda>n. t\<lparr>tr_length := n\<rparr>"
        and Q = "\<lambda>u. transform_ok u \<and> tr_code u = tr_code t"] that assms
    by (simp add: transformParameters_def transform_ok_def l)
  have t4: ?thesis if "tr_code t \<in> {''T04'', ''T06'', ''T07''}"
    using that assms by (auto simp: transformParameters_def transform_ok_def)
  show ?thesis using c t1 t23 t5 t8 t9 t4 by blast
qed

lemma parseTransform_checked:
  "checked (\<lambda>o'. case o' of None \<Rightarrow> True | Some u \<Rightarrow> transform_ok u \<and> tr_code u \<notin> tr_code ` set prev) (parseTransform t prev)"
proof -
  let ?Q = "\<lambda>o'. case o' of None \<Rightarrow> True | Some u \<Rightarrow> transform_ok u \<and> tr_code u \<notin> tr_code ` set prev"
  define code where "code = (case jsGet t ''code'' of Some (JString s) \<Rightarrow> s | _ \<Rightarrow> [])"
  have fin: "checked ?Q (map_sum id Some (transformParameters ((new_transform code)\<lparr>tr_mode := m\<rparr>) tp))"
    if "code \<in> set transformCodes" "code \<notin> tr_code ` set prev" "m \<in> {[], ''random'', ''deterministic''}" for m tp
    using checked_map [OF parameters_checked [of "(new_transform code)\<lparr>tr_mode := m\<rparr>" tp], where f = Some and Q = ?Q] that
    by (simp add: new_transform_def)
  show ?thesis
    unfolding parseTransform_def code_def [symmetric] Let_def
    using fin [of "[]"] fin [of "''random''"] fin [of "''deterministic''"] by (auto split: option.split jval.split)
qed

lemma transforms_loop_checked: "chain_ok out \<Longrightarrow> checked chain_ok (transforms_loop out ts)"
proof (induction out ts rule: transforms_loop.induct)
  case (2 out t ts)
  note pc = parseTransform_checked [of out t]
  show ?case
  proof (cases "parseTransform t out")
    case (Inl e)
    then show ?thesis using pc by simp
  next
    case (Inr o')
    then show ?thesis using pc 2 by (cases o') (auto simp: chain_ok_def)
  qed
qed simp

lemma transforms_checked: "checked chain_ok (transforms params)"
  using transforms_loop_checked [of "[]"] by (simp add: transforms_def chain_ok_def split: option.split jval.split)

lemma normalizeG1_checked: "checked g1_ok (normalizeG1 params)"
proof -
  have g: "list_all group_ok [group3, group3, group3]" "3 \<le> maxDigits" by (simp_all add: group_ok_def group3_def maxDigits_def)
  show ?thesis unfolding normalizeG1_def
    by (intro checked_bind [OF uniqueLibrary_checked] checked_claim checked_bind [OF stringList_checked [OF defaults_ok(1)]]
        checked_bind [OF numericGroups_checked [OF g]] checked_bind [OF transforms_checked]) (simp add: g1_ok_def)
qed

lemma normalizeG2_checked: "checked g2_ok (normalizeG2 params)"
proof -
  have g: "list_all group_ok [\<lparr>ng_digitsCount = 4, ng_separator = None\<rparr>]" "4 \<le> maxDigits" by (simp_all add: group_ok_def maxDigits_def)
  have w: "1 \<le> (6::nat)" "6 \<le> maxWords" by (simp_all add: maxWords_def)
  show ?thesis unfolding normalizeG2_def
    by (intro checked_bind [OF uniqueLibrary_checked] checked_claim checked_bind [OF numericGroups_checked [OF g]]
        checked_bind [OF transforms_checked] checked_bind [OF intIn_checked [OF w]]
        checked_bind [OF stringList_checked [OF defaults_ok(1)]]) (auto simp: g2_ok_def split: list.split)
qed

lemma normalizeG3_checked: "checked g3_ok (normalizeG3 params)"
proof -
  have w: "1 \<le> (20::nat)" "20 \<le> maxLength" "0 \<le> (5::nat)" "5 \<le> maxLength" by (simp_all add: maxLength_def)
  have a: "length alphabetFull = 62" "length ambiguous = 5" by (simp_all add: alphabetFull_def ambiguous_def)
  have body: "checked g3_ok (case sizeClaim params ''alphabetSize'' al of Some e \<Rightarrow> Inl e | None \<Rightarrow>
      case intIn (JObj params) ''length'' 1 maxLength 20 of Inl e \<Rightarrow> Inl e | Inr len \<Rightarrow>
      case intIn (JObj params) ''blockSize'' 0 maxLength 5 of Inl e \<Rightarrow> Inl e | Inr _ \<Rightarrow>
      case map_of params ''blockSeparator'' of
        None \<Rightarrow> Inr \<lparr>g3_length = len, g3_alphabet = al\<rparr>
      | Some (JString _) \<Rightarrow> Inr \<lparr>g3_length = len, g3_alphabet = al\<rparr>
      | Some _ \<Rightarrow> Inl ErrInvalidShape)" if "al \<in> {57, 62}" for al
    by (intro checked_claim checked_bind [OF intIn_checked [OF w(1,2)]] checked_bind [OF intIn_checked [OF w(3,4)]])
      (use that in \<open>auto simp: g3_ok_def split: option.split jval.split\<close>)
  show ?thesis
    unfolding normalizeG3_def Let_def
  proof (rule checked_bind [where P = "\<lambda>_. True"], goal_cases)
    case 1
    then show ?case by (simp split: option.split jval.split)
  next
    case (2 ex)
    show ?case by (rule body) (simp add: a)
  qed
qed

section \<open>Properties\<close>

text \<open>
  C24. Whatever JSON an operator or the database holds, reading it as the parameters of a generator either refuses it with
  \<open>ErrInvalidShape\<close> or delivers parameters of the right type: libraries and separators are non-empty lists of
  distinct non-empty strings, counts and lengths are within their bounds, no transform is listed twice and
  each carries the parameters its code needs, and the alphabet of G3 is one of the two real ones.
\<close>

theorem normalized_parameters_are_typed:
  "checked g1_ok (normalizeG1 params) \<and> checked g2_ok (normalizeG2 params) \<and> checked g3_ok (normalizeG3 params)"
  using normalizeG1_checked normalizeG2_checked normalizeG3_checked by blast

end
