(* ===== verification/Policy_Entropy.thy ===== *)
theory Policy_Entropy
  imports Policy_Params
begin

text \<open>
  The entropy calculator of \<open>internal/policies/entropy.go\<close>: the bits credited to the parameters of each generator, and
  the floor a level demands. \<open>float64\<close> values are reals and \<open>math.Log2\<close> is the logarithm to base 2; \<open>+Inf\<close>, where
  the code starts a minimum, is \<open>None\<close>. The memo tables \<open>views\<close> and \<open>folds\<close> of \<open>g1Calc\<close> only cache pure functions and are
  left out. The union-find of \<open>citationBits\<close> is run as written, with path compression.
\<close>

section \<open>Reports\<close>

record entropyComponent =
  ec_component :: string
  ec_bits :: real

record entropyReport =
  er_MinBits :: real
  er_MaxBits :: real
  er_ExpectedBits :: real
  er_Breakdown :: "entropyComponent list"

type_synonym breakdown = "entropyComponent list"

definition roundDown :: "real \<Rightarrow> real" where
  "roundDown n = of_int \<lfloor>n * 10 + 1 / 1000000000\<rfloor> / 10"

definition push_bits :: "string \<Rightarrow> real option \<Rightarrow> breakdown \<Rightarrow> breakdown" where
  "push_bits component bits b =
     (case bits of None \<Rightarrow> b | Some x \<Rightarrow> if x > 0 then b @ [\<lparr>ec_component = component, ec_bits = x\<rparr>] else b)"

definition finalize :: "breakdown \<Rightarrow> entropyReport" where
  "finalize b =
     (let expected = roundDown (sum_list (map ec_bits b))
      in \<lparr>er_MinBits = expected, er_MaxBits = expected, er_ExpectedBits = expected,
          er_Breakdown = map (\<lambda>c. c\<lparr>ec_bits := roundDown (ec_bits c)\<rparr>) b\<rparr>)"

section \<open>G2 and G3\<close>

definition runeSet :: "string list \<Rightarrow> rune set" where
  "runeSet list = set (concat (map wtf8Runes list))"

definition anyHolds :: "string list \<Rightarrow> rune set \<Rightarrow> bool" where
  "anyHolds list s = list_ex (\<lambda>x. list_ex (\<lambda>r. r \<in> s) (wtf8Runes x)) list"

definition g2_joined :: "g2Params \<Rightarrow> bool" where
  "g2_joined p \<longleftrightarrow> g2_wordCount p > 1 \<or> (g2_digits p \<noteq> None \<and> \<not> g2_digitsGlued p)"

definition breakdownG2 :: "g2Params \<Rightarrow> breakdown" where
  "breakdownG2 p =
     (let jn = g2_joined p;
          b = [];
          b = (if \<not> jn \<or> \<not> anyHolds (g2_words p) (runeSet (g2_separators p)) then
                 let b = push_bits ''word-selection'' (Some (real (g2_wordCount p) * log 2 (real (length (g2_words p))))) b
                 in if jn then push_bits ''separator'' (Some (log 2 (real (length (g2_separators p))))) b else b
               else b)
      in case g2_digits p of
           None \<Rightarrow> b
         | Some g \<Rightarrow> push_bits ''digit-suffix'' (Some (real (ng_digitsCount g) * log 2 10)) b)"

definition entropyG2 :: "g2Params \<Rightarrow> entropyReport" where
  "entropyG2 p = finalize (breakdownG2 p)"

definition breakdownG3 :: "g3Params \<Rightarrow> breakdown" where
  "breakdownG3 p = push_bits ''alphabet-draw'' (Some (real (g3_length p) * log 2 (real (g3_alphabet p)))) []"

definition entropyG3 :: "g3Params \<Rightarrow> entropyReport" where
  "entropyG3 p = finalize (breakdownG3 p)"

section \<open>G1: the chain of transforms\<close>

definition leetTable :: "rune \<Rightarrow> rune option" where
  "leetTable = map_of [(97, 64), (101, 51), (105, 33), (111, 48), (115, 36), (116, 43), (108, 49), (103, 57), (98, 56), (122, 50)]"

definition leetKeys :: "string \<Rightarrow> rune list option" where
  "leetKeys code = (if code = ''T02'' then Some [97, 101, 105, 111]
     else if code = ''T03'' then Some [97, 101, 105, 111, 115, 116, 108, 103, 98, 122] else None)"

definition joiningCases :: "string list" where "joiningCases = [''camelCase'', ''PascalCase'', ''SCREAMING_SNAKE'']"

definition t09MaxBits :: real where "t09MaxBits = 32"

definition isCode :: "string \<Rightarrow> transform \<Rightarrow> bool" where
  "isCode code t \<longleftrightarrow> tr_code t = code"

definition isLeet :: "transform \<Rightarrow> bool" where
  "isLeet t \<longleftrightarrow> leetKeys (tr_code t) \<noteq> None"

definition leet_of :: "transform \<Rightarrow> rune list" where
  "leet_of t = (case leetKeys (tr_code t) of None \<Rightarrow> [] | Some ks \<Rightarrow> ks)"

definition joins :: "transform \<Rightarrow> bool" where
  "joins t \<longleftrightarrow> tr_code t = ''T05'' \<or> tr_code t = ''T08''
     \<or> (tr_code t = ''T01'' \<and> list_ex (\<lambda>m. m \<in> set joiningCases) (tr_candidates t))"

definition before_t :: "transform list \<Rightarrow> nat \<Rightarrow> (transform \<Rightarrow> bool) \<Rightarrow> bool" where
  "before_t ts i test = list_ex test (take i ts)"

definition after_t :: "transform list \<Rightarrow> nat \<Rightarrow> (transform \<Rightarrow> bool) \<Rightarrow> bool" where
  "after_t ts i test = list_ex test (drop (i + 1) ts)"

definition t05_of :: "transform list \<Rightarrow> transform option" where
  "t05_of ts = find (isCode ''T05'') ts"

fun uniqueOrdered :: "string list \<Rightarrow> string list" where
  "uniqueOrdered [] = []"
| "uniqueOrdered (s # ss) = s # filter (\<lambda>x. x \<noteq> s) (uniqueOrdered ss)"

definition truncations :: "transform list \<Rightarrow> string \<Rightarrow> string list" where
  "truncations ts s =
     (case t05_of ts of
        None \<Rightarrow> [s]
      | Some t \<Rightarrow> let a = variantsT05 s (tr_firstN t); b = variantsT05 (joined s) (tr_firstN t)
                  in [a ! 0, a ! 1, a ! 2, b ! 1, b ! 2])"

definition inputsAt :: "transform list \<Rightarrow> nat \<Rightarrow> string \<Rightarrow> string list" where
  "inputsAt ts i s =
     (let inputs = [s];
          inputs = (if before_t ts i (isCode ''T04'') then concat (map (\<lambda>x. [x, reverseChars x, reverseWords x]) inputs) else inputs);
          inputs = (if before_t ts i joins then concat (map (\<lambda>x. [x, joined x]) inputs) else inputs);
          inputs = (if before_t ts i (isCode ''T05'') then concat (map (truncations ts) inputs) else inputs)
      in uniqueOrdered inputs)"

definition citationViews :: "transform list \<Rightarrow> string \<Rightarrow> string list" where
  "citationViews ts s = inputsAt ts (length ts) s"

definition leet_fold :: "rune \<Rightarrow> rune" where
  "leet_fold r = (let l = (if 65 \<le> r \<and> r \<le> 90 then r + 32 else r)
     in case leetTable l of Some sub \<Rightarrow> sub | None \<Rightarrow> r)"

definition folded :: "text_env \<Rightarrow> transform list \<Rightarrow> string \<Rightarrow> string" where
  "folded T ts s =
     (let lower = list_ex (\<lambda>t. tr_code t = ''T01'' \<or> tr_code t = ''T07'') ts;
          strip = list_ex (isCode ''T06'') ts;
          leet = list_ex isLeet ts;
          out = (if strip then stripDiacritics T s else s);
          out = (if lower then lower_js T out else out)
      in if leet then of_runes (map leet_fold (runes out)) else out)"

definition leet_all :: "transform list \<Rightarrow> rune list" where
  "leet_all ts = concat (map leet_of ts)"

definition cased :: "text_env \<Rightarrow> transform list \<Rightarrow> string \<Rightarrow> bool" where
  "cased T ts ch =
     (if \<not> isCased T ch then False
      else let l = lower_js T ch in \<not> list_ex (\<lambda>k. l = of_runes [k]) (leet_all ts))"

definition hasCased :: "text_env \<Rightarrow> transform list \<Rightarrow> string \<Rightarrow> bool" where
  "hasCased T ts s = list_ex (\<lambda>r. cased T ts (wtf8String [r])) (wtf8Runes s)"

record libFacts =
  lf_minWords :: "nat option"
  lf_allStartCased :: bool
  lf_allViewsCased :: bool
  lf_allHaveDiacritics :: bool

text \<open>\<open>math.MaxInt\<close>, the start of the minimum, is \<open>None\<close>.\<close>

definition min_opt :: "'a::linorder option \<Rightarrow> 'a \<Rightarrow> 'a option" where
  "min_opt m x = (case m of None \<Rightarrow> Some x | Some y \<Rightarrow> Some (min y x))"

definition libraryFacts :: "text_env \<Rightarrow> transform list \<Rightarrow> string list \<Rightarrow> libFacts" where
  "libraryFacts T ts citations =
     foldl (\<lambda>f s. \<lparr>lf_minWords = min_opt (lf_minWords f) (length (words s)),
         lf_allStartCased = (lf_allStartCased f \<and> cased T ts (firstUnit (trim_js s))),
         lf_allViewsCased = (lf_allViewsCased f \<and> list_all (hasCased T ts) (citationViews ts s)),
         lf_allHaveDiacritics = (lf_allHaveDiacritics f \<and> hasCombiningMark T s)\<rparr>)
       \<lparr>lf_minWords = None, lf_allStartCased = True, lf_allViewsCased = True, lf_allHaveDiacritics = True\<rparr> citations"

definition spacesMayBeGone :: "libFacts \<Rightarrow> transform list \<Rightarrow> nat \<Rightarrow> bool" where
  "spacesMayBeGone lib ts i \<longleftrightarrow> (case lf_minWords lib of None \<Rightarrow> False | Some n \<Rightarrow> n < 2) \<or> before_t ts i joins"

section \<open>G1: minima\<close>

definition count_list_max :: "'a list \<Rightarrow> nat" where
  "count_list_max xs = foldl (\<lambda>m x. max m (count_list xs x)) 0 xs"

definition uniformMinEntropy :: "string list \<Rightarrow> real" where
  "uniformMinEntropy outcomes = log 2 (real (length outcomes) / real (count_list_max outcomes))"

definition min_inf :: "real option \<Rightarrow> real option \<Rightarrow> real option" where
  "min_inf m x = (case x of None \<Rightarrow> m | Some y \<Rightarrow> min_opt m y)"

fun min_loop :: "(string \<Rightarrow> real option) \<Rightarrow> real option \<Rightarrow> string list \<Rightarrow> real option" where
  "min_loop fn m [] = m"
| "min_loop fn m (s # ss) =
     (let m = min_inf m (fn s)
      in if (case m of None \<Rightarrow> False | Some x \<Rightarrow> x \<le> 0) then m else min_loop fn m ss)"

definition minOverCitations :: "string list \<Rightarrow> (string \<Rightarrow> real option) \<Rightarrow> real option" where
  "minOverCitations citations fn = min_loop fn None citations"

definition choiceBits ::
  "text_env \<Rightarrow> transform list \<Rightarrow> string list \<Rightarrow> nat \<Rightarrow> (string \<Rightarrow> string list) \<Rightarrow> real option" where
  "choiceBits T ts citations i outputs =
     (let posts = (if after_t ts i (isCode ''T05'') then truncations ts else (\<lambda>x. [x]))
      in minOverCitations citations (\<lambda>s.
           foldl (\<lambda>bits inp.
             let outs = map posts (outputs inp)
             in foldl (\<lambda>bits k. min_opt bits (uniformMinEntropy (map (\<lambda>col. col ! k) outs))) bits [0..<length (outs ! 0)])
           None (inputsAt ts i (folded T ts s))))"

definition leet_keep :: "transform list \<Rightarrow> rune \<Rightarrow> real" where
  "leet_keep ts k = foldl (\<lambda>keep t. if isLeet t \<and> k \<in> set (leet_of t) then keep * (1 - tr_probability t) else keep) 1 ts"

definition perKey :: "transform list \<Rightarrow> transform \<Rightarrow> nat \<Rightarrow> rune \<Rightarrow> real" where
  "perKey ts t i k =
     (if k \<in> set (leet_of t) \<and> \<not> before_t ts i (\<lambda>t'. isLeet t' \<and> k \<in> set (leet_of t'))
      then - log 2 (max (leet_keep ts k) (1 - leet_keep ts k)) else 0)"

definition leetBits :: "text_env \<Rightarrow> transform list \<Rightarrow> string list \<Rightarrow> transform \<Rightarrow> nat \<Rightarrow> real option" where
  "leetBits T ts citations t i =
     (let bitsOf = (\<lambda>s. sum_list (map (perKey ts t i) (wtf8Runes (lower_js T s))))
      in minOverCitations citations (\<lambda>s. foldl (\<lambda>m v. min_opt m (bitsOf v)) None (citationViews ts s)))"

definition case_base :: "string \<Rightarrow> string" where
  "case_base m = (if m = ''lowercase'' \<or> m = ''camelCase'' then ''lower'' else ''upper'')"

definition caseBits :: "string list \<Rightarrow> bool \<Rightarrow> bool \<Rightarrow> bool \<Rightarrow> real" where
  "caseBits cands multiWord startCased hasCsd =
     (if \<not> hasCsd then 0
      else
        let partitions =
              (if multiWord then [\<lambda>m. if \<not> startCased \<and> m = ''PascalCase'' then ''camelCase'' else m]
               else if \<not> startCased then [case_base, \<lambda>m. if m = ''PascalCase'' then ''lower'' else case_base m]
               else [case_base])
        in the (foldl (\<lambda>bits cls. min_opt bits (uniformMinEntropy (map cls cands))) None partitions))"

section \<open>G1: citations that may come out the same\<close>

text \<open>\<open>find\<close> with path compression on the slice \<open>parent\<close>; the fuel is its length (\<open>Entropy_Sound\<close> shows that it is never used up).\<close>

fun uf_find :: "nat \<Rightarrow> nat \<Rightarrow> nat list \<Rightarrow> nat \<times> nat list" where
  "uf_find 0 i parent = (i, parent)"
| "uf_find (Suc n) i parent =
     (if parent ! i \<noteq> i then
        let (r, parent) = uf_find n (parent ! i) parent; parent = parent[i := r] in (parent ! i, parent)
      else (parent ! i, parent))"

definition uf_union :: "nat \<Rightarrow> nat \<Rightarrow> nat list \<Rightarrow> nat list" where
  "uf_union i k parent =
     (let (ri, parent) = uf_find (length parent) i parent; (ro, parent) = uf_find (length parent) k parent
      in parent[ri := ro])"

fun uf_keys :: "nat \<Rightarrow> string list \<Rightarrow> nat list \<times> (string, nat) gomap \<Rightarrow> nat list \<times> (string, nat) gomap" where
  "uf_keys i [] st = st"
| "uf_keys i (k # ks) (parent, owner) =
     (case map_of owner k of
        Some own \<Rightarrow> uf_keys i ks (uf_union i own parent, owner)
      | None \<Rightarrow> uf_keys i ks (parent, gm_set k i owner))"

fun uf_build :: "nat \<Rightarrow> string list list \<Rightarrow> nat list \<times> (string, nat) gomap \<Rightarrow> nat list \<times> (string, nat) gomap" where
  "uf_build i [] st = st"
| "uf_build i (ks # kss) st = uf_build (i + 1) kss (uf_keys i ks st)"

fun uf_sizes :: "nat list \<Rightarrow> nat list \<Rightarrow> (nat, nat) gomap \<Rightarrow> nat \<Rightarrow> nat" where
  "uf_sizes [] parent sizes largest = largest"
| "uf_sizes (i # is) parent sizes largest =
     (let (r, parent) = uf_find (length parent) i parent;
          n = (case map_of sizes r of None \<Rightarrow> 0 | Some n \<Rightarrow> n) + 1
      in uf_sizes is parent (gm_set r n sizes) (max largest n))"

definition largest_class :: "string list list \<Rightarrow> nat" where
  "largest_class keys =
     (let n = length keys; (parent, owner) = uf_build 0 keys ([0..<n], []) in uf_sizes [0..<n] parent [] 0)"

text \<open>The characters that split a citation into tokens.\<close>

definition break_runes :: "text_env \<Rightarrow> g1Params \<Rightarrow> rune set" where
  "break_runes T p =
     (let ts = g1_transforms p;
          chars = (\<lambda>list. set (concat (map (\<lambda>s. wtf8Runes (folded T ts s)) list)))
      in chars (g1_separators p)
         \<union> (if list_ex joins ts then
               {95} \<union> (case find (isCode ''T08'') ts of None \<Rightarrow> {} | Some t \<Rightarrow> chars (tr_symbols t))
             else {}))"

definition citationKey :: "text_env \<Rightarrow> g1Params \<Rightarrow> string \<Rightarrow> string" where
  "citationKey T p s =
     Join (tokens (\<lambda>r. r \<in> break_runes T p) s) (if list_ex joins (g1_transforms p) then [] else '' '')"

definition citation_keys :: "text_env \<Rightarrow> g1Params \<Rightarrow> string list list" where
  "citation_keys T p =
     (let ts = g1_transforms p
      in map (\<lambda>s. map (citationKey T p) (inputsAt ts (length ts) (folded T ts s))) (g1_citations p))"

definition citationBits :: "text_env \<Rightarrow> g1Params \<Rightarrow> real" where
  "citationBits T p = log 2 (real (length (g1_citations p)) / real (largest_class (citation_keys T p)))"

section \<open>G1: the report\<close>

definition t01Bits :: "libFacts \<Rightarrow> transform list \<Rightarrow> nat \<Rightarrow> transform \<Rightarrow> real" where
  "t01Bits lib ts i t =
     (if after_t ts i (isCode ''T07'') then 0
      else
        let multiWord = (\<not> spacesMayBeGone lib ts i \<and> \<not> after_t ts i (isCode ''T05''));
            startCased = (lf_allStartCased lib \<and> \<not> before_t ts i (isCode ''T04''))
        in if startCased \<or> \<not> after_t ts i (isCode ''T05'')
           then caseBits (tr_candidates t) multiWord startCased (lf_allViewsCased lib) else 0)"

definition t06Bits :: "libFacts \<Rightarrow> transform list \<Rightarrow> real" where
  "t06Bits lib ts = (if lf_allHaveDiacritics lib \<and> t05_of ts = None then 1 else 0)"

definition t07Bits :: "libFacts \<Rightarrow> transform list \<Rightarrow> nat \<Rightarrow> real" where
  "t07Bits lib ts i = (if lf_allViewsCased lib \<and> \<not> after_t ts i (isCode ''T01'') then 1 else 0)"

definition t08Bits :: "libFacts \<Rightarrow> transform list \<Rightarrow> nat \<Rightarrow> transform \<Rightarrow> real" where
  "t08Bits lib ts i t =
     (if \<not> spacesMayBeGone lib ts i \<and> \<not> after_t ts i (isCode ''T05'') then log 2 (real (length (tr_symbols t))) else 0)"

definition t09Bits :: "transform list \<Rightarrow> nat \<Rightarrow> transform \<Rightarrow> real" where
  "t09Bits ts i t =
     (if after_t ts i (isCode ''T05'') then 0
      else let perChar = (if after_t ts i isLeet then 3 else 4) in min (real (perChar * tr_length t)) t09MaxBits)"

definition transformBits :: "text_env \<Rightarrow> libFacts \<Rightarrow> transform list \<Rightarrow> string list \<Rightarrow> nat \<Rightarrow> transform \<Rightarrow> real option" where
  "transformBits T lib ts citations i t =
     (let code = tr_code t
      in if code = ''T01'' then Some (t01Bits lib ts i t)
         else if code = ''T02'' \<or> code = ''T03'' then leetBits T ts citations t i
         else if code = ''T04'' then choiceBits T ts citations i (\<lambda>s. [s, reverseChars s, reverseWords s])
         else if code = ''T05'' then
           choiceBits T ts citations i (\<lambda>s. let v = variantsT05 s (tr_firstN t) in [s, v ! 1, v ! 2])
         else if code = ''T06'' then Some (t06Bits lib ts)
         else if code = ''T07'' then Some (t07Bits lib ts i)
         else if code = ''T08'' then Some (t08Bits lib ts i t)
         else if code = ''T09'' then Some (t09Bits ts i t)
         else Some 0)"

definition totalDigits :: "numericGroup list \<Rightarrow> nat" where
  "totalDigits groups = sum_list (map ng_digitsCount groups)"

definition breakdownG1 :: "text_env \<Rightarrow> g1Params \<Rightarrow> breakdown" where
  "breakdownG1 T p =
     (let ts = g1_transforms p; citations = g1_citations p; lib = libraryFacts T ts citations;
          b = push_bits ''citation-selection'' (Some (citationBits T p)) [];
          b = (if g1_groups p \<noteq> [] \<or> \<not> spacesMayBeGone lib ts (length ts)
               then push_bits ''separator'' (Some (log 2 (real (length (g1_separators p))))) b else b);
          b = push_bits ''digit-groups'' (Some (real (totalDigits (g1_groups p)) * log 2 10)) b
      in foldl (\<lambda>b (i, t). if tr_mode t \<noteq> ''random'' then b
                            else push_bits (''transform-'' @ tr_code t) (transformBits T lib ts citations i t) b)
           b (enumerate 0 ts))"

definition entropyG1 :: "text_env \<Rightarrow> g1Params \<Rightarrow> entropyReport" where
  "entropyG1 T p = finalize (breakdownG1 T p)"

section \<open>Levels\<close>

definition LevelFloor :: "level \<Rightarrow> real option" where
  "LevelFloor lvl = (if lvl = LevelB1 then Some 50 else if lvl = LevelB2 then Some 80 else if lvl = LevelB3 then Some 100 else None)"

definition canonJSON :: "string \<Rightarrow> string" where
  "canonJSON s = (let s = TrimSpace s in if s = [] then ''{}'' else s)"

text \<open>\<open>json.Unmarshal\<close> into \<open>any\<close> is the argument \<open>dec\<close>, \<open>None\<close> for its error. \<open>breakdown_of\<close> is the switch over
  the generators, before the figures are rounded.\<close>

definition breakdown_of :: "(string \<Rightarrow> jval option) \<Rightarrow> text_env \<Rightarrow> string \<Rightarrow> string \<Rightarrow> pol_err + breakdown" where
  "breakdown_of dec T gen paramsJSON =
     (let params = (case dec (canonJSON paramsJSON) of
                      None \<Rightarrow> Inl ErrInvalidShape | Some JNull \<Rightarrow> Inr [] | Some (JObj v) \<Rightarrow> Inr v | Some _ \<Rightarrow> Inl ErrInvalidShape)
      in case params of
        Inl e \<Rightarrow> Inl e
      | Inr params \<Rightarrow>
          if gen = ''G1'' then map_sum id (breakdownG1 T) (normalizeG1 params)
          else if gen = ''G2'' then map_sum id breakdownG2 (normalizeG2 params)
          else if gen = ''G3'' then map_sum id breakdownG3 (normalizeG3 params)
          else Inl ErrInvalidShape)"

definition CalculateEntropy :: "(string \<Rightarrow> jval option) \<Rightarrow> text_env \<Rightarrow> string \<Rightarrow> string \<Rightarrow> pol_err + entropyReport" where
  "CalculateEntropy dec T gen paramsJSON = map_sum id finalize (breakdown_of dec T gen paramsJSON)"

definition checkEntropyFloor :: "(string \<Rightarrow> jval option) \<Rightarrow> text_env \<Rightarrow> level \<Rightarrow> string \<Rightarrow> string \<Rightarrow> pol_err option" where
  "checkEntropyFloor dec T level gen paramsJSON =
     (case CalculateEntropy dec T gen paramsJSON of
        Inl e \<Rightarrow> Some e
      | Inr rep \<Rightarrow>
          (case LevelFloor level of
             None \<Rightarrow> Some ErrInvalidShape
           | Some fl \<Rightarrow> if er_MinBits rep < fl then Some ErrBelowFloor else None))"

end
