(* ===== verification/Entropy_Sound.thy ===== *)
theory Entropy_Sound
  imports Policy_Entropy
begin

text \<open>
  The union-find of \<open>citationBits\<close> (\<open>internal/policies/entropy.go\<close>), path compression included, finds the classes of
  citations linked by texts they may share. \<open>uf_ok\<close> is its invariant (parents climb in rank), \<open>rep\<close> the root of an
  index, and \<open>class_size\<close> the specification over the transitive closure of sharing a text.
\<close>

section \<open>Union-find\<close>

definition uf_ok :: "nat list \<Rightarrow> bool" where
  "uf_ok p \<longleftrightarrow> (\<exists>rk :: nat \<Rightarrow> nat. \<forall>i<length p. p ! i < length p \<and> (p ! i \<noteq> i \<longrightarrow> rk i < rk (p ! i)))"

definition rep :: "nat list \<Rightarrow> nat \<Rightarrow> nat" where
  "rep p i = ((!) p ^^ length p) i"

lemma uf_bound: "uf_ok p \<Longrightarrow> i < length p \<Longrightarrow> p ! i < length p"
  by (auto simp: uf_ok_def)

lemma path_bound: "uf_ok p \<Longrightarrow> i < length p \<Longrightarrow> ((!) p ^^ k) i < length p"
  by (induction k) (auto intro: uf_bound)

text \<open>A path has no repetition before its root, so it reaches the root within \<open>length p\<close> steps.\<close>

lemma path_reaches_root:
  assumes "uf_ok p" "i < length p"
  shows "p ! (((!) p ^^ length p) i) = ((!) p ^^ length p) i"
proof (rule ccontr)
  let ?f = "\<lambda>k. ((!) p ^^ k) i"
  assume nr: "p ! ?f (length p) \<noteq> ?f (length p)"
  obtain rk :: "nat \<Rightarrow> nat" where rk: "\<And>i. i < length p \<Longrightarrow> p ! i \<noteq> i \<Longrightarrow> rk i < rk (p ! i)"
    using assms(1) by (auto simp: uf_ok_def)
  have stay: "p ! ?f k = ?f k \<Longrightarrow> ?f (k + m) = ?f k" for k m
    by (induction m) simp_all
  have live: "p ! ?f k \<noteq> ?f k" if "k \<le> length p" for k
    using stay [of k "length p - k"] that nr by auto
  have up: "rk (?f k) < rk (?f (Suc k))" if "k \<le> length p" for k
    using rk [OF path_bound [OF assms]] live [OF that] by simp
  have mono: "k < m \<Longrightarrow> m \<le> Suc (length p) \<Longrightarrow> rk (?f k) < rk (?f m)" for k m
  proof (induction m)
    case (Suc m)
    then show ?case using up [of m] by (cases "k = m") auto
  qed simp
  have "inj_on ?f {..length p}"
  proof (rule inj_onI)
    fix a b assume "a \<in> {..length p}" "b \<in> {..length p}" "?f a = ?f b"
    then show "a = b" using mono [of a b] mono [of b a] by (cases a b rule: linorder_cases) auto
  qed
  then have "card {..length p} \<le> card {..<length p}"
    using path_bound [OF assms] by (intro card_inj_on_le [of ?f]) auto
  then show False by simp
qed

lemma rep_root: "uf_ok p \<Longrightarrow> i < length p \<Longrightarrow> p ! rep p i = rep p i"
  using path_reaches_root by (simp add: rep_def)

lemma rep_bound: "uf_ok p \<Longrightarrow> i < length p \<Longrightarrow> rep p i < length p"
  using path_bound by (simp add: rep_def)

lemma rep_step: "uf_ok p \<Longrightarrow> i < length p \<Longrightarrow> rep p (p ! i) = rep p i"
  using rep_root [of p i] by (simp add: rep_def funpow_swap1 del: funpow.simps)

lemma rep_self: "p ! i = i \<Longrightarrow> rep p i = i"
proof -
  assume "p ! i = i"
  then have "((!) p ^^ k) i = i" for k by (induction k) simp_all
  then show ?thesis by (simp add: rep_def)
qed

lemma uf_induct:
  assumes "uf_ok p" "i < length p"
    and root: "\<And>i. i < length p \<Longrightarrow> p ! i = i \<Longrightarrow> P i"
    and inner: "\<And>i. i < length p \<Longrightarrow> p ! i \<noteq> i \<Longrightarrow> P (p ! i) \<Longrightarrow> P i"
  shows "P i"
proof -
  have "p ! (((!) p ^^ k) i) = ((!) p ^^ k) i \<Longrightarrow> i < length p \<Longrightarrow> P i" for k i
  proof (induction k arbitrary: i)
    case (Suc k)
    then have "P (p ! i)" using uf_bound [OF assms(1)] by (simp add: funpow_swap1)
    then show ?case using root inner Suc.prems by (cases "p ! i = i") auto
  qed (simp add: root)
  then show ?thesis using path_reaches_root [OF assms(1,2)] assms(2) by blast
qed

text \<open>Both updates of the array: a node that points to its root, and a root that points to another root.\<close>

lemma compress:
  assumes ok: "uf_ok p" and i: "i < length p"
  shows "uf_ok (p[i := rep p i])" "j < length p \<Longrightarrow> rep (p[i := rep p i]) j = rep p j"
proof -
  let ?q = "p[i := rep p i]"
  obtain rk :: "nat \<Rightarrow> nat" where rk: "\<And>i. i < length p \<Longrightarrow> p ! i \<noteq> i \<Longrightarrow> rk i < rk (p ! i)"
    using ok by (auto simp: uf_ok_def)
  have le: "rk k \<le> rk (rep p k)" if "k < length p" for k
    using ok that
  proof (rule uf_induct [where P = "\<lambda>k. rk k \<le> rk (rep p k)"])
    fix k assume "k < length p" "p ! k \<noteq> k" "rk (p ! k) \<le> rk (rep p (p ! k))"
    then show "rk k \<le> rk (rep p k)" using rk [of k] rep_step [OF ok, of k] by simp
  qed (simp add: rep_self)
  have up: "p ! i \<noteq> i \<Longrightarrow> rk i < rk (rep p i)"
    using rk [OF i] le [OF uf_bound [OF ok i]] rep_step [OF ok i] by simp
  show q: "uf_ok ?q"
    unfolding uf_ok_def
    by (rule exI [of _ rk]) (use ok i up rk uf_bound [OF ok] rep_bound [OF ok i] rep_self in \<open>auto simp: nth_list_update\<close>)
  show "rep ?q j = rep p j" if "j < length p"
    using ok that
  proof (rule uf_induct [where P = "\<lambda>j. rep ?q j = rep p j"])
    fix k assume "k < length p" "p ! k = k"
    then show "rep ?q k = rep p k" by (cases "k = i") (simp_all add: rep_self)
  next
    fix k assume k: "k < length p" "p ! k \<noteq> k" "rep ?q (p ! k) = rep p (p ! k)"
    show "rep ?q k = rep p k"
    proof (cases "k = i")
      case True
      have "rep p i \<noteq> i" using up k(2) True by auto
      then have "?q ! rep p i = rep p i" using rep_root [OF ok i] by simp
      then show ?thesis using rep_step [OF q, of i] rep_self i True by simp
    next
      case False
      then show ?thesis using k rep_step [OF q, of k] rep_step [OF ok, of k] by simp
    qed
  qed
qed

lemma link:
  assumes ok: "uf_ok p" and a: "a < length p" "p ! a = a" and b: "b < length p" "p ! b = b"
  shows "uf_ok (p[a := b])" "j < length p \<Longrightarrow> rep (p[a := b]) j = (if rep p j = a then b else rep p j)"
proof -
  let ?q = "p[a := b]"
  obtain rk :: "nat \<Rightarrow> nat" where rk: "\<And>i. i < length p \<Longrightarrow> p ! i \<noteq> i \<Longrightarrow> rk i < rk (p ! i)"
    using ok by (auto simp: uf_ok_def)
  define rk' where "rk' j = (if rep p j = b then rk j + rk a + 1 else rk j)" for j
  have "rk' j < rk' (?q ! j)" if j: "j < length p" "?q ! j \<noteq> j" for j
  proof (cases "j = a")
    case True
    then show ?thesis using j a b rep_self [OF a(2)] rep_self [OF b(2)] by (auto simp: rk'_def)
  next
    case False
    then show ?thesis using j rk [OF j(1)] rep_step [OF ok j(1)] by (auto simp: rk'_def)
  qed
  moreover have "?q ! j < length ?q" if "j < length p" for j
    using that uf_bound [OF ok that] b by (cases "j = a") simp_all
  ultimately show q: "uf_ok ?q" unfolding uf_ok_def by auto
  have bq: "?q ! b = b" using b a by (cases "a = b") simp_all
  show "rep ?q j = (if rep p j = a then b else rep p j)" if "j < length p"
    using ok that
  proof (rule uf_induct [where P = "\<lambda>j. rep ?q j = (if rep p j = a then b else rep p j)"])
    fix k assume k: "k < length p" "p ! k = k"
    show "rep ?q k = (if rep p k = a then b else rep p k)"
    proof (cases "k = a")
      case True
      then have "rep ?q a = rep ?q (?q ! a)" using rep_step [OF q, of a] a by simp
      then show ?thesis using True a rep_self [OF bq] rep_self [OF a(2)] by simp
    qed (use k in \<open>simp add: rep_self\<close>)
  next
    fix k assume k: "k < length p" "p ! k \<noteq> k" "rep ?q (p ! k) = (if rep p (p ! k) = a then b else rep p (p ! k))"
    then have "k \<noteq> a" using a by auto
    then have "rep ?q k = rep ?q (p ! k)" using rep_step [OF q, of k] k(1) by simp
    then show "rep ?q k = (if rep p k = a then b else rep p k)" unfolding k(3) rep_step [OF ok k(1)] .
  qed
qed

lemma uf_find_ok:
  assumes "uf_ok p" "i < length p" "p ! (((!) p ^^ n) i) = ((!) p ^^ n) i"
  shows "fst (uf_find n i p) = rep p i \<and> uf_ok (snd (uf_find n i p)) \<and> length (snd (uf_find n i p)) = length p
    \<and> (\<forall>j<length p. rep (snd (uf_find n i p)) j = rep p j)"
  using assms
proof (induction n arbitrary: i)
  case (Suc n)
  show ?case
  proof (cases "p ! i = i")
    case False
    obtain r q where f: "uf_find n (p ! i) p = (r, q)" by (cases "uf_find n (p ! i) p")
    have "p ! i < length p" "p ! (((!) p ^^ n) (p ! i)) = ((!) p ^^ n) (p ! i)"
      using Suc.prems uf_bound by (simp_all add: funpow_swap1)
    with Suc.IH [of "p ! i"] Suc.prems f have q: "r = rep p i" "uf_ok q" "length q = length p" "\<forall>j<length p. rep q j = rep p j"
      using rep_step [OF Suc.prems(1,2)] by simp_all
    have "r = rep q i" using q Suc.prems(2) by simp
    then show ?thesis using compress [OF q(2), of i] q Suc.prems(2) False f by simp
  qed (use Suc.prems rep_self in simp)
qed (simp add: rep_self)

lemma uf_find_root:
  assumes "uf_ok p" "i < length p" "uf_find (length p) i p = (r, q)"
  shows "r = rep p i" "uf_ok q" "length q = length p" "\<And>j. j < length p \<Longrightarrow> rep q j = rep p j"
  using uf_find_ok [OF assms(1,2) path_reaches_root [OF assms(1,2)]] assms(3) by simp_all

lemma uf_union_ok:
  assumes "uf_ok p" "i < length p" "k < length p"
  shows "uf_ok (uf_union i k p)" "length (uf_union i k p) = length p"
    "j < length p \<Longrightarrow> rep (uf_union i k p) j = (if rep p j = rep p i then rep p k else rep p j)"
proof -
  obtain ri q where f: "uf_find (length p) i p = (ri, q)" by (cases "uf_find (length p) i p")
  note q = uf_find_root [OF assms(1,2) f]
  obtain rk s where g: "uf_find (length q) k q = (rk, s)" by (cases "uf_find (length q) k q")
  have k: "k < length q" using assms(3) q(3) by simp
  note s = uf_find_root [OF q(2) k g]
  have reps: "j < length p \<Longrightarrow> rep s j = rep p j" for j using s(4) q(3,4) by simp
  have u: "uf_union i k p = s[ri := rk]" by (simp add: uf_union_def f g)
  have len: "length s = length p" using s(3) q(3) by simp
  have ri: "ri < length s" "s ! ri = ri" using q(1) reps [OF assms(2)] rep_bound [OF s(2), of i] rep_root [OF s(2), of i] assms(2) len by simp_all
  have rk: "rk < length s" "s ! rk = rk" using s(1) q(4) [OF assms(3)] reps [OF assms(3)] rep_bound [OF s(2), of k] rep_root [OF s(2), of k] assms(3) len by simp_all
  note l = link [OF s(2) ri rk]
  show "uf_ok (uf_union i k p)" "length (uf_union i k p) = length p" using l(1) u len by simp_all
  show "rep (uf_union i k p) j = (if rep p j = rep p i then rep p k else rep p j)" if "j < length p"
    using l(2) [of j] that u len reps [OF that] q(1) s(1) q(4) [OF assms(3)] by simp
qed

subsection \<open>Classes of linked indices\<close>

text \<open>Two indices share a key; \<open>P\<close> is the set of pairs of an index and a key met so far.\<close>

definition share :: "(nat \<times> string) set \<Rightarrow> (nat \<times> nat) set" where
  "share P = {(i, j). \<exists>k. (i, k) \<in> P \<and> (j, k) \<in> P}"

definition uf_inv :: "nat \<Rightarrow> (nat \<times> string) set \<Rightarrow> nat list \<times> (string, nat) gomap \<Rightarrow> bool" where
  "uf_inv n P st \<longleftrightarrow> (case st of (p, owner) \<Rightarrow> uf_ok p \<and> length p = n \<and> fst ` P \<subseteq> {..<n}
     \<and> (\<forall>k w. map_of owner k = Some w \<longrightarrow> (w, k) \<in> P)
     \<and> (\<forall>i k. (i, k) \<in> P \<longrightarrow> (\<exists>w. map_of owner k = Some w \<and> rep p i = rep p w))
     \<and> (\<forall>i<n. \<forall>j<n. rep p i = rep p j \<longrightarrow> (i, j) \<in> (share P)\<^sup>*))"

lemma share_sym: "(i, j) \<in> (share P)\<^sup>* \<Longrightarrow> (j, i) \<in> (share P)\<^sup>*"
proof -
  have "sym (share P)" by (auto simp: sym_def share_def)
  then show "(i, j) \<in> (share P)\<^sup>* \<Longrightarrow> (j, i) \<in> (share P)\<^sup>*" by (meson sym_rtrancl symD)
qed

lemma share_mono: "(i, j) \<in> (share P)\<^sup>* \<Longrightarrow> (i, j) \<in> (share (insert x P))\<^sup>*"
proof -
  have "share P \<subseteq> share (insert x P)" by (auto simp: share_def)
  then show "(i, j) \<in> (share P)\<^sup>* \<Longrightarrow> (i, j) \<in> (share (insert x P))\<^sup>*" using rtrancl_mono by blast
qed

lemma uf_inv_key:
  assumes inv: "uf_inv n P (p, owner)" and i: "i < n"
  shows "uf_inv n (insert (i, k) P)
    (case map_of owner k of Some w \<Rightarrow> (uf_union i w p, owner) | None \<Rightarrow> (p, gm_set k i owner))"
proof -
  have ok: "uf_ok p" "length p = n" "fst ` P \<subseteq> {..<n}"
    and own: "\<And>k w. map_of owner k = Some w \<Longrightarrow> (w, k) \<in> P"
    and cls: "\<And>i k. (i, k) \<in> P \<Longrightarrow> \<exists>w. map_of owner k = Some w \<and> rep p i = rep p w"
    and lnk: "\<And>i j. i < n \<Longrightarrow> j < n \<Longrightarrow> rep p i = rep p j \<Longrightarrow> (i, j) \<in> (share P)\<^sup>*"
    using inv unfolding uf_inv_def by blast+
  show ?thesis
  proof (cases "map_of owner k")
    case None
    have "(j, k) \<notin> P" for j using cls None by fastforce
    with None show ?thesis
      using ok own cls lnk i share_mono unfolding uf_inv_def by auto
  next
    case (Some w)
    have w: "(w, k) \<in> P" "w < n" using own [OF Some] ok(3) by (auto simp: image_subset_iff)
    note u = uf_union_ok [OF ok(1), of i w, unfolded ok(2), OF i w(2)]
    let ?q = "uf_union i w p"
    have iw: "(i, w) \<in> (share (insert (i, k) P))\<^sup>*" using w by (auto simp: share_def)
    have "(a, b) \<in> (share (insert (i, k) P))\<^sup>*" if ab: "a < n" "b < n" "rep ?q a = rep ?q b" for a b
    proof -
      have st: "x < n \<Longrightarrow> y < n \<Longrightarrow> rep p x = rep p y \<Longrightarrow> (x, y) \<in> (share (insert (i, k) P))\<^sup>*" for x y
        using lnk share_mono by blast
      have to_w: "x < n \<Longrightarrow> rep p x = rep p i \<Longrightarrow> (x, w) \<in> (share (insert (i, k) P))\<^sup>*" for x
        using st [of x i] i iw by (meson rtrancl_trans)
      show ?thesis
        using ab u(3) [of a] u(3) [of b] st to_w st [of w] st [of _ w] w(2) share_sym
        by (smt (verit) rtrancl_trans)
    qed
    moreover have "\<exists>v. map_of owner k' = Some v \<and> rep ?q i' = rep ?q v" if "(i', k') \<in> insert (i, k) P" for i' k'
    proof (cases "(i', k') \<in> P")
      case True
      then obtain v where v: "map_of owner k' = Some v" "rep p i' = rep p v" using cls by blast
      have "i' < n" "v < n" using True own [OF v(1)] ok(3) by (auto simp: image_subset_iff)
      then show ?thesis using v u(3) by auto
    next
      case False
      then show ?thesis using that Some u(3) [OF i] u(3) [OF w(2)] by auto
    qed
    moreover have "fst ` insert (i, k) P \<subseteq> {..<n}" using ok(3) i by simp
    moreover have "map_of owner k' = Some v \<Longrightarrow> (v, k') \<in> insert (i, k) P" for k' v using own by blast
    ultimately show ?thesis unfolding uf_inv_def Some option.case prod.case using u(1,2) by (intro conjI) blast+
  qed
qed

fun key_pairs :: "nat \<Rightarrow> string list list \<Rightarrow> (nat \<times> string) set" where
  "key_pairs i [] = {}"
| "key_pairs i (ks # kss) = {i} \<times> set ks \<union> key_pairs (i + 1) kss"

text \<open>Two entries may come out as the same text.\<close>

definition collide :: "string list list \<Rightarrow> (nat \<times> nat) set" where
  "collide keys = {(i, j). i < length keys \<and> j < length keys \<and> set (keys ! i) \<inter> set (keys ! j) \<noteq> {}}"

lemma uf_keys_inv:
  "uf_inv n P (p, owner) \<Longrightarrow> i < n \<Longrightarrow> uf_inv n (P \<union> {i} \<times> set ks) (uf_keys i ks (p, owner))"
proof (induction ks arbitrary: P p owner)
  case (Cons k ks)
  note step = uf_inv_key [OF Cons.prems, of k]
  have e: "insert (i, k) P \<union> {i} \<times> set ks = P \<union> {i} \<times> set (k # ks)" by auto
  show ?case
  proof (cases "map_of owner k")
    case None
    then have "uf_inv n (insert (i, k) P) (p, gm_set k i owner)" using step by simp
    from Cons.IH [OF this Cons.prems(2)] show ?thesis unfolding e using None by simp
  next
    case (Some w)
    then have "uf_inv n (insert (i, k) P) (uf_union i w p, owner)" using step by simp
    from Cons.IH [OF this Cons.prems(2)] show ?thesis unfolding e using Some by simp
  qed
qed simp

lemma uf_build_inv:
  "uf_inv n P st \<Longrightarrow> i + length kss \<le> n \<Longrightarrow> uf_inv n (P \<union> key_pairs i kss) (uf_build i kss st)"
proof (induction kss arbitrary: i P st)
  case (Cons ks kss)
  obtain p owner where st: "st = (p, owner)" by (cases st)
  have "uf_inv n (P \<union> {i} \<times> set ks) (uf_keys i ks st)" using uf_keys_inv Cons.prems st by simp
  from Cons.IH [OF this, of "i + 1"] Cons.prems(2) show ?case by (simp add: Un_assoc)
qed simp

lemma key_pairs_iff: "(j, k) \<in> key_pairs i kss \<longleftrightarrow> i \<le> j \<and> j < i + length kss \<and> k \<in> set (kss ! (j - i))"
proof (induction kss arbitrary: i)
  case (Cons ks kss)
  show ?case using Cons.IH [of "i + 1"] by (cases "j = i") (auto simp: nth_Cons' Suc_le_eq)
qed simp

lemma share_collide: "share (key_pairs 0 keys) = collide keys"
  by (auto simp: share_def collide_def key_pairs_iff)

lemma init_inv: "uf_inv n {} ([0..<n], [])"
proof -
  have "uf_ok [0..<n]" by (simp add: uf_ok_def)
  moreover have "i < n \<Longrightarrow> rep [0..<n] i = i" for i by (rule rep_self) simp
  ultimately show ?thesis by (simp add: uf_inv_def)
qed

lemma build_classes:
  assumes "uf_build 0 keys ([0..<length keys], []) = (p, owner)"
  shows "uf_ok p" "length p = length keys"
    "i < length keys \<Longrightarrow> j < length keys \<Longrightarrow> rep p i = rep p j \<longleftrightarrow> (i, j) \<in> (collide keys)\<^sup>*"
proof -
  let ?n = "length keys"
  have inv: "uf_inv ?n (key_pairs 0 keys) (p, owner)"
    using uf_build_inv [OF init_inv [of ?n], of 0 keys] assms by simp
  then show "uf_ok p" "length p = ?n" by (simp_all add: uf_inv_def)
  have one: "rep p a = rep p b" if ab: "(a, b) \<in> collide keys" for a b
  proof -
    have "(a, b) \<in> share (key_pairs 0 keys)" using ab by (simp add: share_collide)
    then obtain k where k: "(a, k) \<in> key_pairs 0 keys" "(b, k) \<in> key_pairs 0 keys" by (auto simp: share_def)
    obtain w where "map_of owner k = Some w" "rep p a = rep p w" using inv k(1) unfolding uf_inv_def by blast
    moreover obtain v where "map_of owner k = Some v" "rep p b = rep p v" using inv k(2) unfolding uf_inv_def by blast
    ultimately show ?thesis by simp
  qed
  have "rep p a = rep p b" if "(a, b) \<in> (collide keys)\<^sup>*" for a b
    using that by (induction rule: rtrancl_induct) (auto dest: one)
  moreover have "i < ?n \<Longrightarrow> j < ?n \<Longrightarrow> rep p i = rep p j \<Longrightarrow> (i, j) \<in> (collide keys)\<^sup>*"
    using inv unfolding uf_inv_def share_collide by blast
  ultimately show "i < ?n \<Longrightarrow> j < ?n \<Longrightarrow> rep p i = rep p j \<longleftrightarrow> (i, j) \<in> (collide keys)\<^sup>*" by blast
qed

text \<open>The counting loop: with \<open>c\<close> the counts so far and \<open>L\<close> their maximum, it returns the maximum of the final counts.\<close>

lemma sizes_loop:
  assumes "uf_ok p" "\<forall>i\<in>set is. i < length p"
    and "\<And>r. (case map_of sizes r of None \<Rightarrow> 0 | Some n \<Rightarrow> n) = c r" "\<And>r. c r \<le> L" "L = 0 \<or> (\<exists>r. c r = L)"
  shows "(\<forall>r. c r + count_list (map (rep p) is) r \<le> uf_sizes is p sizes L)
    \<and> (uf_sizes is p sizes L = 0 \<or> (\<exists>r. c r + count_list (map (rep p) is) r = uf_sizes is p sizes L))"
  using assms
proof (induction "is" arbitrary: p sizes c L)
  case (Cons i "is")
  obtain r q where f: "uf_find (length p) i p = (r, q)" by (cases "uf_find (length p) i p")
  note q = uf_find_root [OF Cons.prems(1) _ f]
  have i: "i < length p" using Cons.prems(2) by simp
  have reps: "map (rep q) is = map (rep p) is" using q(4) [OF i] Cons.prems(2) by simp
  let ?n = "c r + 1"
  let ?c = "c(r := ?n)"
  have s: "uf_sizes (i # is) p sizes L = uf_sizes is q (gm_set r ?n sizes) (max L ?n)"
    using f Cons.prems(3) [of r] by simp
  have h: "max L ?n = 0 \<or> (\<exists>r. ?c r = max L ?n)"
  proof (cases "L < ?n")
    case True
    then show ?thesis by (intro disjI2 exI [of _ r]) simp
  next
    case False
    then obtain r' where r': "c r' = L" using Cons.prems(5) by auto
    with False have "r' \<noteq> r" by auto
    then show ?thesis using False r' by (intro disjI2 exI [of _ r']) simp
  qed
  have ih: "(\<forall>x. ?c x + count_list (map (rep q) is) x \<le> uf_sizes is q (gm_set r ?n sizes) (max L ?n))
    \<and> (uf_sizes is q (gm_set r ?n sizes) (max L ?n) = 0
       \<or> (\<exists>x. ?c x + count_list (map (rep q) is) x = uf_sizes is q (gm_set r ?n sizes) (max L ?n)))"
    by (rule Cons.IH) (use q(2,3) [OF i] i Cons.prems h in \<open>auto simp: le_max_iff_disj\<close>)
  have "c x + count_list (map (rep p) (i # is)) x = ?c x + count_list (map (rep q) is) x" for x
    unfolding reps using q(1) [OF i] by simp
  then show ?case using ih s by simp
qed simp

definition class_size :: "string list list \<Rightarrow> nat \<Rightarrow> nat" where
  "class_size keys i = card {j. j < length keys \<and> (i, j) \<in> (collide keys)\<^sup>*}"

lemma largest_class_eq: "largest_class keys = Max (insert 0 (class_size keys ` {..<length keys}))"
proof -
  let ?n = "length keys"
  obtain p owner where b: "uf_build 0 keys ([0..<?n], []) = (p, owner)" by (cases "uf_build 0 keys ([0..<?n], [])")
  note c = build_classes [OF b]
  have L: "largest_class keys = uf_sizes [0..<?n] p [] 0" using b by (simp add: largest_class_def)
  have cnt: "count_list (map (rep p) [0..<?n]) r = card {j. j < ?n \<and> rep p j = r}" for r
  proof -
    have "count_list (map (rep p) [0..<?n]) r = length (filter (\<lambda>j. r = rep p j) [0..<?n])"
      by (simp add: count_list_eq_length_filter filter_map comp_def)
    also have "\<dots> = card (set (filter (\<lambda>j. r = rep p j) [0..<?n]))" by (rule distinct_card [symmetric]) simp
    also have "set (filter (\<lambda>j. r = rep p j) [0..<?n]) = {j. j < ?n \<and> rep p j = r}" by auto
    finally show ?thesis .
  qed
  have s: "(\<forall>r. count_list (map (rep p) [0..<?n]) r \<le> largest_class keys)
    \<and> (largest_class keys = 0 \<or> (\<exists>r. count_list (map (rep p) [0..<?n]) r = largest_class keys))"
    using sizes_loop [OF c(1), of "[0..<?n]" "[]" "\<lambda>_. 0" 0] c(2) unfolding L by simp
  have cs: "class_size keys i = card {j. j < ?n \<and> rep p j = rep p i}" if "i < ?n" for i
    unfolding class_size_def using c(3) [OF that] by (metis (mono_tags, lifting))
  have le: "class_size keys i \<le> largest_class keys" if "i < ?n" for i
    using s cs [OF that] unfolding cnt by simp
  have ex: "largest_class keys = 0 \<or> (\<exists>i<?n. class_size keys i = largest_class keys)"
  proof (cases "largest_class keys = 0")
    case False
    then obtain r where r: "card {j. j < ?n \<and> rep p j = r} = largest_class keys" using s unfolding cnt by auto
    with False have "{j. j < ?n \<and> rep p j = r} \<noteq> {}" by (metis card.empty)
    then obtain i where i: "i < ?n" "rep p i = r" by blast
    have "class_size keys i = largest_class keys" using cs [OF i(1)] r i(2) by simp
    with i(1) show ?thesis by blast
  qed simp
  have mem: "largest_class keys \<in> insert 0 (class_size keys ` {..<?n})"
    using ex by (metis image_eqI insertI1 insertI2 lessThan_iff)
  show ?thesis
    by (rule Max_eqI [symmetric]) (use le mem in auto)
qed

section \<open>Properties\<close>

text \<open>
  C27. The bits credited for choosing a citation are those of the worst case: the logarithm of the number of citations
  divided by the size of the largest class of citations that are linked, directly or through others, by a
  text they may both be printed as. The union-find of the code, path compression included, computes
  exactly these classes.
\<close>

theorem citation_bits_by_largest_class:
  "citationBits T p = log 2 (real (length (g1_citations p))
     / real (Max (insert 0 (class_size (citation_keys T p) ` {..<length (citation_keys T p)}))))"
  by (simp add: citationBits_def largest_class_eq)

end
