(* ===== verification/Guessing.thy ===== *)
theory Guessing
  imports Policy_Entropy
begin

text \<open>
  What the floor of a level guarantees for G2 and G3. The generators of the browser bundle
  (\<open>web/src/generators/g2.js\<close>, \<open>g3.js\<close>) are functions of uniform draws; the bits that \<open>entropyG2\<close> and \<open>entropyG3\<close> credit are
  a lower bound of the min-entropy of the printed text, so a policy that passes the floor check has
  at least the bits of its level.
\<close>

section \<open>What the browser prints\<close>

text \<open>
  The generators of the bundle, as functions of their draws; every draw is uniform over its list. A JavaScript text is the
  list of its code points. \<open>draws_g2\<close> and \<open>draws_g3\<close> are the equally likely draws.
\<close>

fun join_text :: "rune list \<Rightarrow> rune list list \<Rightarrow> rune list" where
  "join_text sep [] = []"
| "join_text sep [w] = w"
| "join_text sep (w # v # ws) = w @ sep @ join_text sep (v # ws)"

definition digits_of :: "g2Params \<Rightarrow> nat" where
  "digits_of p = (case g2_digits p of None \<Rightarrow> 0 | Some g \<Rightarrow> ng_digitsCount g)"

definition draws_g2 :: "g2Params \<Rightarrow> (string \<times> string list \<times> nat list) set" where
  "draws_g2 p = set (g2_separators p) \<times> {ws. set ws \<subseteq> set (g2_words p) \<and> length ws = g2_wordCount p}
     \<times> {ds. set ds \<subseteq> {..<10} \<and> length ds = digits_of p}"

definition generateG2 :: "g2Params \<Rightarrow> string \<times> string list \<times> nat list \<Rightarrow> rune list" where
  "generateG2 p draw =
     (case draw of (separator, ws, ds) \<Rightarrow>
        let sep = wtf8Runes separator; rs = map wtf8Runes ws; suffix = map (\<lambda>d. 48 + d) ds
        in case g2_digits p of
             None \<Rightarrow> join_text sep rs
           | Some _ \<Rightarrow>
               if g2_digitsGlued p then join_text sep (rs[length rs - 1 := rs ! (length rs - 1) @ suffix])
               else join_text sep rs @ sep @ suffix)"

fun blocks_of :: "nat \<Rightarrow> 'a list \<Rightarrow> 'a list list" where
  "blocks_of n xs = (if xs = [] \<or> n = 0 then [] else take n xs # blocks_of n (drop n xs))"

declare blocks_of.simps [simp del]

definition alphabet_of :: "g3Params \<Rightarrow> string" where
  "alphabet_of p = (if g3_alphabet p = length alphabetFull then alphabetFull else filter (\<lambda>c. c \<notin> set ambiguous) alphabetFull)"

definition draws_g3 :: "g3Params \<Rightarrow> string set" where
  "draws_g3 p = {cs. set cs \<subseteq> set (alphabet_of p) \<and> length cs = g3_length p}"

definition generateG3 :: "nat \<Rightarrow> rune list \<Rightarrow> g3Params \<Rightarrow> string \<Rightarrow> rune list" where
  "generateG3 blockSize blockSeparator p chars =
     (if blockSize = 0 \<or> blockSize \<ge> g3_length p then map of_char chars
      else join_text blockSeparator (map (map of_char) (blocks_of blockSize chars)))"

section \<open>Texts determine their draws\<close>

lemma join_glue:
  "rs \<noteq> [] \<Longrightarrow> join_text sep (rs[length rs - 1 := rs ! (length rs - 1) @ x]) = join_text sep rs @ x"
proof (induction sep rs rule: join_text.induct)
  case (3 sep w v ws)
  then show ?case by (cases "(v # ws)[length ws := (v # ws) ! length ws @ x]") simp_all
qed simp_all

lemma generateG2_text:
  assumes "ws \<noteq> []"
  shows "generateG2 p (separator, ws, ds) =
    join_text (wtf8Runes separator) (map wtf8Runes ws)
    @ (if g2_digits p \<noteq> None \<and> \<not> g2_digitsGlued p then wtf8Runes separator else [])
    @ (if g2_digits p \<noteq> None then map (\<lambda>d. 48 + d) ds else [])"
  using join_glue [of "map wtf8Runes ws"] assms by (auto simp: generateG2_def Let_def split: option.split)

lemma takeWhile_prefix:
  "\<forall>c\<in>set w. P c \<Longrightarrow> s = [] \<or> \<not> P (hd s) \<Longrightarrow> takeWhile P (w @ s) = w \<and> dropWhile P (w @ s) = s"
  by (induction w) (cases s; auto)+

lemma join_words_inj:
  assumes "join_text sep rs = join_text sep rs'" "length rs = length rs'" "sep \<noteq> []" "set sep \<subseteq> B"
    "\<forall>w\<in>set rs \<union> set rs'. set w \<inter> B = {}"
  shows "rs = rs'"
  using assms
proof (induction sep rs arbitrary: rs' rule: join_text.induct)
  case (1 sep)
  then show ?case by simp
next
  case (2 sep w)
  then obtain w' where "rs' = [w']" by (cases rs') auto
  with 2 show ?case by simp
next
  case (3 sep w v ws)
  then obtain w' v' ws' where r: "rs' = w' # v' # ws'" by (cases rs'; cases "tl rs'") auto
  have hd: "hd sep \<in> B" using 3 by (cases sep) auto
  have tw: "takeWhile (\<lambda>c. c \<notin> B) (u @ sep @ rest) = u" "dropWhile (\<lambda>c. c \<notin> B) (u @ sep @ rest) = sep @ rest"
    if "set u \<inter> B = {}" for u rest
    using takeWhile_prefix [of u "\<lambda>c. c \<notin> B" "sep @ rest"] that hd 3(4) by (auto simp: hd_append disjoint_iff)
  have eq: "w @ sep @ join_text sep (v # ws) = w' @ sep @ join_text sep (v' # ws')" using 3(2) r by simp
  have u: "set w \<inter> B = {}" "set w' \<inter> B = {}" using 3(6) r by simp_all
  have "w = w'" using tw(1) [OF u(1)] tw(1) [OF u(2)] eq by metis
  moreover have "join_text sep (v # ws) = join_text sep (v' # ws')" using tw(2) [OF u(1)] tw(2) [OF u(2)] eq by (metis append_same_eq same_append_eq)
  ultimately show ?case using 3(1) [of "v' # ws'"] 3 r by simp
qed

lemma sep_of_text:
  assumes "set w \<inter> B = {}" "sep \<noteq> []" "set sep \<subseteq> B" "rest = [] \<or> hd rest \<notin> B"
  shows "takeWhile (\<lambda>c. c \<in> B) (dropWhile (\<lambda>c. c \<notin> B) (w @ sep @ rest)) = sep"
proof -
  have "hd sep \<in> B" using assms(2,3) by (cases sep) auto
  then have "dropWhile (\<lambda>c. c \<notin> B) (w @ sep @ rest) = sep @ rest"
    using takeWhile_prefix [of w "\<lambda>c. c \<notin> B" "sep @ rest"] assms(1,2) by (auto simp: hd_append disjoint_iff)
  moreover have "takeWhile (\<lambda>c. c \<in> B) (sep @ rest) = sep"
  proof -
    have "\<forall>c\<in>set sep. c \<in> B" using assms(3) by blast
    from takeWhile_prefix [OF this assms(4)] show ?thesis by (rule conjunct1)
  qed
  ultimately show ?thesis by simp
qed

text \<open>A joined text without separator characters in its words determines the separator and the words.\<close>

lemma join_inj:
  assumes "join_text s rs @ (if tl' then s else []) = join_text s' rs' @ (if tl' then s' else [])"
    "length rs = length rs'" "length rs \<ge> (if tl' then 1 else 2)"
    "s \<noteq> []" "s' \<noteq> []" "set s \<subseteq> B" "set s' \<subseteq> B" "\<forall>w\<in>set rs \<union> set rs'. w \<noteq> [] \<and> set w \<inter> B = {}"
  shows "s = s' \<and> rs = rs'"
proof -
  have shape: "takeWhile (\<lambda>c. c \<in> B) (dropWhile (\<lambda>c. c \<notin> B) (join_text s rs @ (if tl' then s else []))) = s"
    if h: "length rs \<ge> (if tl' then 1 else 2)" "s \<noteq> []" "set s \<subseteq> B" "\<forall>w\<in>set rs. w \<noteq> [] \<and> set w \<inter> B = {}" for s rs
  proof (cases rs)
    case Nil
    then show ?thesis using h(1) by (simp split: if_splits)
  next
    case (Cons w ws)
    show ?thesis
    proof (cases ws)
      case Nil
      then have "tl'" using h(1) Cons by (simp split: if_splits)
      then show ?thesis using sep_of_text [of w B s "[]"] h Cons Nil by simp
    next
      case (Cons v vs)
      have "v \<noteq> []" "set v \<inter> B = {}" using h(4) \<open>rs = w # ws\<close> Cons by simp_all
      then have "hd (join_text s (v # vs) @ x) \<notin> B" "join_text s (v # vs) @ x \<noteq> []" for x
        by (cases vs; cases v; auto)+
      then show ?thesis using sep_of_text [of w B s "join_text s (v # vs) @ (if tl' then s else [])"] h \<open>rs = w # ws\<close> Cons by simp
    qed
  qed
  have "s = s'" using shape [of rs s] shape [of rs' s'] assms by auto
  moreover have "rs = rs'" using join_words_inj [of s rs rs' B] assms calculation by auto
  ultimately show ?thesis by blast
qed

lemma wtf8_nonempty: "w \<noteq> [] \<Longrightarrow> wtf8Runes w \<noteq> []"
  by (subst wtf8Runes.simps) (auto simp: Let_def split: prod.split)

section \<open>Counting draws\<close>

lemma push_bits_sum:
  "0 \<le> x \<Longrightarrow> sum_list (map ec_bits (push_bits c (Some x) b)) = sum_list (map ec_bits b) + x"
  by (simp add: push_bits_def)

lemma powr_bits: "0 < k \<Longrightarrow> 2 powr (real n * log 2 (real k)) = real (k ^ n)"
  using log_nat_power [of "real k" 2 n] powr_log_cancel [of 2 "real k ^ n"] by simp

lemma bits_nonneg: "0 < k \<Longrightarrow> 0 \<le> real n * log 2 (real k)"
  by simp

lemma card_draws_g2:
  assumes "names_list (g2_words p)" "names_list (g2_separators p)"
  shows "card (draws_g2 p) = length (g2_separators p) * (length (g2_words p) ^ g2_wordCount p * 10 ^ digits_of p)"
  using assms by (simp add: draws_g2_def names_list_def card_cartesian_product card_lists_length_eq distinct_card)

definition body_g2 :: "g2Params \<Rightarrow> string \<Rightarrow> string list \<Rightarrow> rune list" where
  "body_g2 p s ws = join_text (wtf8Runes s) (map wtf8Runes ws)
     @ (if g2_digits p \<noteq> None \<and> \<not> g2_digitsGlued p then wtf8Runes s else [])"

text \<open>A text fixes the digits that end it, and what stands before them.\<close>

lemma text_splits:
  assumes "(s, ws, ds) \<in> draws_g2 p" "(s', ws', ds') \<in> draws_g2 p" "0 < g2_wordCount p"
    "generateG2 p (s, ws, ds) = generateG2 p (s', ws', ds')"
  shows "ds = ds' \<and> body_g2 p s ws = body_g2 p s' ws'"
proof -
  have l: "ws \<noteq> []" "ws' \<noteq> []" "length ds = digits_of p" "length ds' = digits_of p"
    using assms(1-3) by (auto simp: draws_g2_def)
  have t: "generateG2 p (s, ws, ds) = body_g2 p s ws @ map (\<lambda>d. 48 + d) ds"
    "generateG2 p (s', ws', ds') = body_g2 p s' ws' @ map (\<lambda>d. 48 + d) ds'"
    using l by (auto simp: generateG2_text body_g2_def digits_of_def)
  have "body_g2 p s ws = body_g2 p s' ws' \<and> map (\<lambda>d. 48 + d) ds = map (\<lambda>d. 48 + d) ds'"
    using assms(4) l t by simp
  moreover have "inj (\<lambda>d :: nat. 48 + d)" by simp
  ultimately show ?thesis using inj_map_eq_map by blast
qed

lemma fiber_card:
  fixes f :: "'a \<Rightarrow> 'b"
  assumes "finite C" "inj_on g {d \<in> D. f d = t}" "g ` {d \<in> D. f d = t} \<subseteq> C"
  shows "card {d \<in> D. f d = t} \<le> card C"
  using card_inj_on_le [OF assms(2,3,1)] .

lemma valid_words_inj:
  assumes "\<forall>w\<in>set ws \<union> set ws'. ValidString w" "map wtf8Runes ws = map wtf8Runes ws'"
  shows "ws = ws'"
  using assms
proof (induction ws arbitrary: ws')
  case (Cons w ws)
  then obtain v vs where "ws' = v # vs" by (cases ws') auto
  then show ?case using Cons.prems Cons.IH [of vs] valid_wtf8_inj [of w v] by simp
qed simp

lemma body_determines:
  assumes "g2_ok p" "g2_joined p" "\<not> anyHolds (g2_words p) (runeSet (g2_separators p))"
    "\<forall>x\<in>set (g2_words p) \<union> set (g2_separators p). ValidString x"
    "(s, ws, ds) \<in> draws_g2 p" "(s', ws', ds') \<in> draws_g2 p" "body_g2 p s ws = body_g2 p s' ws'"
  shows "s = s' \<and> ws = ws'"
proof -
  let ?B = "runeSet (g2_separators p)" and ?tl = "g2_digits p \<noteq> None \<and> \<not> g2_digitsGlued p"
  have mem: "s \<in> set (g2_separators p)" "s' \<in> set (g2_separators p)" "set ws \<subseteq> set (g2_words p)" "set ws' \<subseteq> set (g2_words p)"
    "length ws = g2_wordCount p" "length ws' = g2_wordCount p"
    using assms(5,6) by (auto simp: draws_g2_def)
  have ne: "[] \<notin> set (g2_words p)" "[] \<notin> set (g2_separators p)" using assms(1) by (simp_all add: g2_ok_def names_list_def)
  have "s \<noteq> []" "s' \<noteq> []" using mem(1,2) ne(2) by auto
  then have sep: "wtf8Runes s \<noteq> []" "wtf8Runes s' \<noteq> []" "set (wtf8Runes s) \<subseteq> ?B" "set (wtf8Runes s') \<subseteq> ?B"
    using mem(1,2) wtf8_nonempty by (auto simp: runeSet_def)
  have free: "wtf8Runes w \<noteq> [] \<and> set (wtf8Runes w) \<inter> ?B = {}" if "w \<in> set (g2_words p)" for w
  proof -
    have "w \<noteq> []" using that ne(1) by blast
    moreover have "\<forall>x\<in>set (g2_words p). \<forall>r\<in>set (wtf8Runes x). r \<notin> ?B" using assms(3) by (simp add: anyHolds_def list_ex_iff)
    ultimately show ?thesis using that wtf8_nonempty by blast
  qed
  have len: "length (map wtf8Runes ws) \<ge> (if ?tl then 1 else 2)"
    using assms(1,2) mem by (auto simp: g2_ok_def g2_joined_def)
  have "wtf8Runes s = wtf8Runes s' \<and> map wtf8Runes ws = map wtf8Runes ws'"
  proof (rule join_inj [where tl' = ?tl and B = ?B])
    show "\<forall>w\<in>set (map wtf8Runes ws) \<union> set (map wtf8Runes ws'). w \<noteq> [] \<and> set w \<inter> ?B = {}"
    proof
      fix w
      assume "w \<in> set (map wtf8Runes ws) \<union> set (map wtf8Runes ws')"
      then obtain x where x: "w = wtf8Runes x" "x \<in> set ws \<union> set ws'" by auto
      then have "x \<in> set (g2_words p)" using mem(3,4) by auto
      from free [OF this] show "w \<noteq> [] \<and> set w \<inter> ?B = {}" unfolding x(1) .
    qed
  qed (use assms(7) sep len mem in \<open>simp_all add: body_g2_def\<close>)
  moreover have "ValidString s" "ValidString s'" "\<forall>w\<in>set ws \<union> set ws'. ValidString w" using assms(4) mem(1-4) by blast+
  ultimately show ?thesis using valid_wtf8_inj valid_words_inj by simp
qed

text \<open>The bits credited, as the number of texts they stand for.\<close>

lemma bits_g2:
  assumes "g2_ok p"
  shows "2 powr sum_list (map ec_bits (breakdownG2 p)) =
    real ((if g2_joined p \<and> anyHolds (g2_words p) (runeSet (g2_separators p)) then 1
      else length (g2_words p) ^ g2_wordCount p * (if g2_joined p then length (g2_separators p) else 1)) * 10 ^ digits_of p)"
proof -
  have pos: "0 < length (g2_words p)" "0 < length (g2_separators p)" using assms by (simp_all add: g2_ok_def names_list_def)
  note nn = bits_nonneg [OF pos(1), of "g2_wordCount p"] bits_nonneg [OF pos(2), of 1] bits_nonneg [of 10]
  note pw = powr_bits [OF pos(1), of "g2_wordCount p"] powr_bits [OF pos(2), of 1] powr_bits [of 10]
  show ?thesis
    using nn pw
    by (auto simp: breakdownG2_def Let_def push_bits_sum digits_of_def powr_add split: option.split)
qed

lemma fiber_g2:
  assumes "g2_ok p" "\<forall>x\<in>set (g2_words p) \<union> set (g2_separators p). ValidString x"
  shows "card {d \<in> draws_g2 p. generateG2 p d = out} \<le>
    (if g2_joined p then if anyHolds (g2_words p) (runeSet (g2_separators p)) then length (g2_separators p) * length (g2_words p) ^ g2_wordCount p
       else 1 else length (g2_separators p))"
proof -
  let ?F = "{d \<in> draws_g2 p. generateG2 p d = out}" and ?S = "set (g2_separators p)"
    and ?W = "{ws. set ws \<subseteq> set (g2_words p) \<and> length ws = g2_wordCount p}"
  have ok: "distinct (g2_words p)" "distinct (g2_separators p)" "0 < g2_wordCount p" using assms(1) by (simp_all add: g2_ok_def names_list_def)
  have split: "ds = ds' \<and> body_g2 p s ws = body_g2 p s' ws'" if "(s, ws, ds) \<in> ?F" "(s', ws', ds') \<in> ?F" for s ws ds s' ws' ds'
    using text_splits [of s ws ds p s' ws' ds'] that ok(3) by simp
  have cW: "card ?W = length (g2_words p) ^ g2_wordCount p" "finite ?W"
    using ok by (simp_all add: card_lists_length_eq distinct_card finite_lists_length_eq)
  have cS: "card ?S = length (g2_separators p)" "finite ?S" using ok by (simp_all add: distinct_card)
  have all: "card ?F \<le> card (?S \<times> ?W)"
    by (rule fiber_card [where g = "\<lambda>(s, ws, ds). (s, ws)"]) (use split cW cS in \<open>fastforce simp: inj_on_def draws_g2_def\<close>)+
  have one: "card ?F \<le> 1" if "g2_joined p" "\<not> anyHolds (g2_words p) (runeSet (g2_separators p))"
  proof -
    have "inj_on (\<lambda>_. ()) ?F"
    proof (rule inj_onI)
      fix x y
      assume d: "x \<in> ?F" "y \<in> ?F"
      obtain s ws ds s' ws' ds' where "x = (s, ws, ds)" "y = (s', ws', ds')" by (metis prod.exhaust)
      then show "x = y" using split [of s ws ds s' ws' ds'] body_determines [OF assms(1) that assms(2), of s ws ds s' ws' ds'] d by simp
    qed
    then show ?thesis using fiber_card [where g = "\<lambda>_. ()" and C = "UNIV :: unit set"] by simp
  qed
  have some: "card ?F \<le> card ?S" if "\<not> g2_joined p"
  proof (rule fiber_card [where g = fst])
    have c: "g2_wordCount p = 1" "g2_digits p = None \<or> g2_digitsGlued p" using that ok(3) by (auto simp: g2_joined_def)
    show "inj_on fst ?F"
    proof (rule inj_onI)
      fix x y
      assume xy: "x \<in> ?F" "y \<in> ?F" "fst x = fst y"
      obtain s ws ds s' ws' ds' where e: "x = (s, ws, ds)" "y = (s', ws', ds')" by (metis prod.exhaust)
      have d: "(s, ws, ds) \<in> draws_g2 p" "(s', ws', ds') \<in> draws_g2 p" "s = s'" "(s, ws, ds) \<in> ?F" "(s', ws', ds') \<in> ?F"
        using xy e by simp_all
      obtain w w' where w: "ws = [w]" "ws' = [w']" using d(1,2) c(1) by (auto simp: draws_g2_def length_Suc_conv)
      have v: "ValidString w" "ValidString w'" using d(1,2) w assms(2) by (auto simp: draws_g2_def)
      have "wtf8Runes w = wtf8Runes w'" "ds = ds'" using split [OF d(4,5)] c(2) w by (auto simp: body_g2_def)
      then show "x = y" using valid_wtf8_inj [OF v] w d(3) e by simp
    qed
  qed (use cS in \<open>auto simp: draws_g2_def\<close>)
  show ?thesis using all one some cW cS by (simp add: card_cartesian_product)
qed

lemma guess_g2:
  assumes "g2_ok p" "\<forall>x\<in>set (g2_words p) \<union> set (g2_separators p). ValidString x"
  shows "real (card {d \<in> draws_g2 p. generateG2 p d = out}) * 2 powr sum_list (map ec_bits (breakdownG2 p)) \<le> real (card (draws_g2 p))"
proof -
  have n: "names_list (g2_words p)" "names_list (g2_separators p)" using assms(1) by (simp_all add: g2_ok_def)
  show ?thesis
    unfolding bits_g2 [OF assms(1)] card_draws_g2 [OF n] of_nat_mult [symmetric] of_nat_le_iff
    using fiber_g2 [OF assms, of out] by (auto simp: mult.assoc mult.commute mult.left_commute split: if_splits)
qed

lemma join_blocks_inj:
  "0 < n \<Longrightarrow> length cs = length cs' \<Longrightarrow>
   join_text sep (map (map of_char) (blocks_of n cs)) = join_text sep (map (map (of_char :: char \<Rightarrow> nat)) (blocks_of n cs')) \<Longrightarrow> cs = cs'"
proof (induction n cs arbitrary: cs' rule: blocks_of.induct)
  case (1 n xs)
  have inj: "map (of_char :: char \<Rightarrow> nat) as = map of_char bs \<longleftrightarrow> as = bs" for as bs
    using inj_map_eq_map [OF inj_of_char] by blast
  show ?case
  proof (cases "xs = []")
    case False
    then have ne: "cs' \<noteq> []" using 1(3) by auto
    have un: "blocks_of n xs = take n xs # blocks_of n (drop n xs)" "blocks_of n cs' = take n cs' # blocks_of n (drop n cs')"
      using False ne 1(2) by (simp_all add: blocks_of.simps [of n xs] blocks_of.simps [of n cs'])
    show ?thesis
    proof (cases "drop n xs = []")
      case True
      then have "drop n cs' = []" using 1(3) by simp
      with True show ?thesis using 1(4) un inj by (simp add: blocks_of.simps [of n "[]"])
    next
      case rest: False
      then have rest': "drop n cs' \<noteq> []" using 1(3) by simp
      obtain b bs b' bs' where bl: "blocks_of n (drop n xs) = b # bs" "blocks_of n (drop n cs') = b' # bs'"
        using rest rest' 1(2) by (metis blocks_of.simps less_nat_zero_code)
      have "length (take n xs) = length (take n cs')" using 1(3) by simp
      then have eq: "take n xs = take n cs'"
        "join_text sep (map (map of_char) (blocks_of n (drop n xs))) = join_text sep (map (map (of_char :: char \<Rightarrow> nat)) (blocks_of n (drop n cs')))"
        using 1(4) un bl inj by simp_all
      have "drop n xs = drop n cs'" using 1(1) [of "drop n cs'"] eq(2) 1(2,3) False by simp
      with eq(1) show ?thesis by (metis append_take_drop_id)
    qed
  qed (use 1(3) in simp)
qed

lemma generateG3_inj: "inj_on (generateG3 blockSize blockSeparator p) (draws_g3 p)"
proof (rule inj_onI)
  fix cs cs'
  assume h: "cs \<in> draws_g3 p" "cs' \<in> draws_g3 p" "generateG3 blockSize blockSeparator p cs = generateG3 blockSize blockSeparator p cs'"
  then have l: "length cs = length cs'" by (simp add: draws_g3_def)
  show "cs = cs'"
  proof (cases "blockSize = 0 \<or> blockSize \<ge> g3_length p")
    case True
    then show ?thesis using h(3) inj_map_eq_map [OF inj_of_char [where 'a = nat]] by (simp add: generateG3_def)
  next
    case False
    then show ?thesis using h(3) join_blocks_inj [of blockSize cs cs' blockSeparator] l by (simp add: generateG3_def)
  qed
qed

lemma card_draws_g3:
  assumes "g3_ok p"
  shows "card (draws_g3 p) = g3_alphabet p ^ g3_length p"
proof -
  have "distinct (alphabet_of p) \<and> length (alphabet_of p) = g3_alphabet p"
    using assms by (auto simp: g3_ok_def alphabet_of_def alphabetFull_def ambiguous_def)
  then show ?thesis by (simp add: draws_g3_def card_lists_length_eq distinct_card)
qed

lemma guess_g3:
  assumes "g3_ok p"
  shows "real (card {d \<in> draws_g3 p. generateG3 blockSize blockSeparator p d = out}) * 2 powr sum_list (map ec_bits (breakdownG3 p))
    \<le> real (card (draws_g3 p))"
proof -
  let ?F = "{d \<in> draws_g3 p. generateG3 blockSize blockSeparator p d = out}"
  have pos: "0 < g3_alphabet p" using assms by (auto simp: g3_ok_def)
  have "2 powr sum_list (map ec_bits (breakdownG3 p)) = real (card (draws_g3 p))"
    using bits_nonneg [OF pos, of "g3_length p"] powr_bits [OF pos, of "g3_length p"] card_draws_g3 [OF assms]
    by (simp add: breakdownG3_def push_bits_sum)
  moreover have "card ?F \<le> 1"
  proof -
    have "inj_on (\<lambda>_. ()) ?F" using generateG3_inj by (fastforce simp: inj_on_def)
    then show ?thesis using fiber_card [where g = "\<lambda>_. ()" and C = "UNIV :: unit set"] by simp
  qed
  ultimately show ?thesis using mult_right_mono [of "real (card ?F)" 1 "real (card (draws_g3 p))"] by simp
qed

lemma roundDown_le: "roundDown x \<le> x + 1 / 10000000000"
proof -
  have "of_int \<lfloor>x * 10 + 1 / 1000000000\<rfloor> \<le> x * 10 + 1 / 1000000000" by (rule of_int_floor_le)
  then show ?thesis by (simp add: roundDown_def field_simps)
qed

text \<open>Acceptance by the floor, read on the exact bits.\<close>

lemma accepted_bits:
  assumes "checkEntropyFloor dec T lvl gen js = None" "LevelFloor lvl = Some fl" "breakdown_of dec T gen js = Inr b"
  shows "fl - 1 / 10000000000 \<le> sum_list (map ec_bits b)"
  using assms roundDown_le [of "sum_list (map ec_bits b)"]
  by (simp add: checkEntropyFloor_def CalculateEntropy_def finalize_def Let_def split: if_splits)

lemma fewer_bits:
  assumes "k * 2 powr x \<le> n" "y \<le> x" "0 \<le> k"
  shows "k * 2 powr y \<le> (n :: real)"
proof -
  have "2 powr y \<le> 2 powr x" using assms(2) by (simp add: powr_mono)
  then have "k * 2 powr y \<le> k * 2 powr x" using assms(3) mult_left_mono by blast
  with assms(1) show ?thesis by simp
qed

section \<open>Properties\<close>

text \<open>
  C22. A G2 policy that the entropy check accepts for a level is as hard to guess as the level says. Of all the equally
  likely draws of the browser (separator, words, digits), the share that print any given text
  is at most \<open>2\<close> to the minus the floor of the level (less \<open>10\<close> to the \<open>-10\<close>, the tolerance of \<open>roundDown\<close>),
  even when words hold separator characters or the separator is never printed. The library is valid
  UTF-8.
\<close>

theorem accepted_g2_policy_meets_floor:
  assumes "checkEntropyFloor dec T lvl ''G2'' js = None" "LevelFloor lvl = Some fl"
    "dec (canonJSON js) = Some (JObj params)" "normalizeG2 params = Inr p"
    "\<forall>x\<in>set (g2_words p) \<union> set (g2_separators p). ValidString x"
  shows "real (card {d \<in> draws_g2 p. generateG2 p d = out}) * 2 powr (fl - 1 / 10000000000) \<le> real (card (draws_g2 p))"
proof (rule fewer_bits [OF guess_g2])
  show "g2_ok p" using normalizeG2_checked [of params] assms(4) by simp
  have "breakdown_of dec T ''G2'' js = Inr (breakdownG2 p)" using assms(3,4) by (simp add: breakdown_of_def)
  from accepted_bits [OF assms(1,2) this] show "fl - 1 / 10000000000 \<le> sum_list (map ec_bits (breakdownG2 p))" .
qed (use assms(5) in simp_all)

definition toy_text :: text_env where
  "toy_text = \<lparr>te_lower = (\<lambda>r. r), te_upper = (\<lambda>r. r), te_nfd = (\<lambda>s. s)\<rparr>"

definition toy_params :: obj where
  "toy_params = [(''library'', JArr [JString ''a'', JString ''b'']), (''numberOfWords'', JNum 64),
     (''separatorOptions'', JArr [JString ''-'']), (''numericGroups'', JArr [])]"

definition toy_g2 :: g2Params where
  "toy_g2 = \<lparr>g2_words = [''a'', ''b''], g2_wordCount = 64, g2_separators = [''-''], g2_digits = None, g2_digitsGlued = False\<rparr>"

lemma toy_normalizeG2: "normalizeG2 toy_params = Inr toy_g2"
  by (simp add: normalizeG2_def toy_params_def toy_g2_def uniqueLibrary_def dedupeStrings_def sizeClaim_def numericGroups_def
      transforms_def intIn_def Trunc_def stringList_def maxWords_def)

lemma toy_free: "\<not> anyHolds [''a'', ''b''] (runeSet [''-''])"
  by code_simp

lemma toy_accepted: "checkEntropyFloor (\<lambda>_. Some (JObj toy_params)) toy_text LevelB1 ''G2'' [] = None"
proof -
  have "\<lfloor>640 + 1 / 1000000000 :: real\<rfloor> = 640" by (simp add: floor_eq_iff)
  moreover have "breakdownG2 toy_g2 = [\<lparr>ec_component = ''word-selection'', ec_bits = 64\<rparr>]"
    by (simp add: toy_g2_def breakdownG2_def g2_joined_def toy_free push_bits_def)
  ultimately show ?thesis
    by (simp add: checkEntropyFloor_def CalculateEntropy_def breakdown_of_def toy_normalizeG2 finalize_def roundDown_def LevelFloor_def)
qed

lemma toy_valid: "\<forall>x\<in>set (g2_words toy_g2) \<union> set (g2_separators toy_g2). ValidString x"
proof -
  have "ValidString ''a''" "ValidString ''b''" "ValidString ''-''" by code_simp+
  then show ?thesis by (simp add: toy_g2_def)
qed

theorem accepted_g2_policy_meets_floor_witness:
  "real (card {d \<in> draws_g2 toy_g2. generateG2 toy_g2 d = []}) * 2 powr (50 - 1 / 10000000000) \<le> real (card (draws_g2 toy_g2))"
  by (rule accepted_g2_policy_meets_floor [OF toy_accepted _ _ toy_normalizeG2 toy_valid]) (simp_all add: LevelFloor_def)

text \<open>
  A G3 policy that the entropy check accepts for a level is as hard to guess as the level says, whatever the size of its
  blocks and the text that separates them: at most a share of \<open>2\<close> to the minus the floor
  of the equally likely character strings print a given text.
\<close>

theorem accepted_g3_policy_meets_floor:
  assumes "checkEntropyFloor dec T lvl ''G3'' js = None" "LevelFloor lvl = Some fl"
    "dec (canonJSON js) = Some (JObj params)" "normalizeG3 params = Inr p"
  shows "real (card {d \<in> draws_g3 p. generateG3 blockSize blockSeparator p d = out}) * 2 powr (fl - 1 / 10000000000)
    \<le> real (card (draws_g3 p))"
proof (rule fewer_bits [OF guess_g3])
  show "g3_ok p" using normalizeG3_checked [of params] assms(4) by simp
  have "breakdown_of dec T ''G3'' js = Inr (breakdownG3 p)" using assms(3,4) by (simp add: breakdown_of_def)
  from accepted_bits [OF assms(1,2) this] show "fl - 1 / 10000000000 \<le> sum_list (map ec_bits (breakdownG3 p))" .
qed simp

lemma toy_normalizeG3: "normalizeG3 [(''length'', JNum 64)] = Inr \<lparr>g3_length = 64, g3_alphabet = 62\<rparr>"
  by (simp add: normalizeG3_def sizeClaim_def intIn_def Trunc_def alphabetFull_def maxLength_def)

lemma toy_g3_accepted: "checkEntropyFloor (\<lambda>_. Some (JObj [(''length'', JNum 64)])) toy_text LevelB3 ''G3'' [] = None"
proof -
  have "2 \<le> log 2 (62 :: real)" using log_mono [of 2 4 62] log_pow_cancel [of 2 2] by (simp del: log_le_cancel_iff)
  then have "100 \<le> roundDown (64 * log 2 62)"
    unfolding roundDown_def by (simp add: le_floor_iff)
  then show ?thesis
    using \<open>2 \<le> log 2 62\<close>
    by (simp add: checkEntropyFloor_def CalculateEntropy_def breakdown_of_def toy_normalizeG3 finalize_def LevelFloor_def
        breakdownG3_def push_bits_def Let_def)
qed

theorem accepted_g3_policy_meets_floor_witness:
  "real (card {d \<in> draws_g3 \<lparr>g3_length = 64, g3_alphabet = 62\<rparr>. generateG3 5 [45] \<lparr>g3_length = 64, g3_alphabet = 62\<rparr> d = []})
     * 2 powr (100 - 1 / 10000000000) \<le> real (card (draws_g3 \<lparr>g3_length = 64, g3_alphabet = 62\<rparr>))"
  by (rule accepted_g3_policy_meets_floor [OF toy_g3_accepted _ _ toy_normalizeG3])
    (simp_all add: LevelFloor_def)

end
