(* ===== verification/Policy_Edit.thy ===== *)
theory Policy_Edit
  imports Guessing
begin

text \<open>
  Editing of policies (\<open>internal/policies/policies.go\<close>, \<open>bundle.go\<close>): the checks that a policy passes before it is stored, \<open>Create\<close>
  and \<open>Update\<close>, and the invariant they establish: whatever is stored, and so whatever \<open>Resolve\<close> hands out, is accepted by
  the browser bundle and meets the entropy floor of its level.
\<close>

section \<open>Checks\<close>

text \<open>\<open>json.Unmarshal\<close> into \<open>any\<close> (\<open>pv_dec\<close>, \<open>None\<close> for an error) and into the struct of \<open>libraryEntries\<close> (\<open>pv_lib\<close>), and
  the Unicode tables of the calculator.\<close>

record pol_env =
  pv_dec :: "string \<Rightarrow> jval option"
  pv_lib :: "string \<Rightarrow> jval list"
  pv_text :: text_env

definition maxProposals :: int where "maxProposals = 50"

definition maxRegenerate :: int where "maxRegenerate = 100"

definition bundleRefusal :: "pol_env \<Rightarrow> string \<Rightarrow> string \<Rightarrow> int \<Rightarrow> int \<Rightarrow> pol_err option" where
  "bundleRefusal V gen paramsJSON proposalCount regenerateLimit =
     (if proposalCount < 1 \<or> proposalCount > maxProposals then Some ErrInvalidShape
      else if regenerateLimit < 0 \<or> regenerateLimit > maxRegenerate then Some ErrInvalidShape
      else case CalculateEntropy (pv_dec V) (pv_text V) gen paramsJSON of Inl e \<Rightarrow> Some e | Inr _ \<Rightarrow> None)"

definition ValidateForReveal :: "pol_env \<Rightarrow> policy \<Rightarrow> pol_err option" where
  "ValidateForReveal V p = bundleRefusal V (p_Generator p) (p_Params p) (p_ProposalCount p) (p_RegenerateLimit p)"

definition libraryEntries :: "pol_env \<Rightarrow> string \<Rightarrow> string list" where
  "libraryEntries V paramsJSON = List.map_filter (\<lambda>e. case e of JString s \<Rightarrow> Some s | _ \<Rightarrow> None) (pv_lib V paramsJSON)"

definition validateGeneratorParams :: "pol_env \<Rightarrow> string \<Rightarrow> string \<Rightarrow> int \<Rightarrow> int \<Rightarrow> pol_err option" where
  "validateGeneratorParams V gen paramsJSON proposalCount regenerateLimit =
     (case bundleRefusal V gen paramsJSON proposalCount regenerateLimit of
        Some e \<Rightarrow> Some e
      | None \<Rightarrow>
          if (gen = ''G1'' \<or> gen = ''G2'') \<and> list_ex (\<lambda>e. TrimSpace e = []) (libraryEntries V paramsJSON)
          then Some ErrInvalidShape else None)"

definition defaultInt :: "int \<Rightarrow> int \<Rightarrow> int" where
  "defaultInt v d = (if v \<le> 0 then d else v)"

record createInputs =
  ci_DomainID :: int
  ci_ANSSILevel :: level
  ci_Name :: string
  ci_Generator :: string
  ci_ParamsJSON :: string
  ci_ProposalCount :: int
  ci_RegenerateLimit :: int
  ci_SessionTTLSeconds :: int
  ci_NotifyOnConsult :: bool
  ci_Active :: bool

definition validateInputs :: "pol_env \<Rightarrow> createInputs \<Rightarrow> pol_err option" where
  "validateInputs V inp =
     (if ci_DomainID inp = 0 then Some ErrInvalidShape
      else if ci_ANSSILevel inp \<notin> {LevelB1, LevelB2, LevelB3} then Some ErrInvalidShape
      else if ci_Generator inp \<notin> {''G1'', ''G2'', ''G3''} then Some ErrInvalidShape
      else if TrimSpace (ci_Name inp) = [] then Some ErrInvalidShape
      else if ci_ParamsJSON inp \<noteq> [] \<and> (case pv_dec V (ci_ParamsJSON inp) of Some (JObj _) \<Rightarrow> False | _ \<Rightarrow> True)
        then Some ErrInvalidShape
      else validateGeneratorParams V (ci_Generator inp) (canonJSON (ci_ParamsJSON inp))
             (defaultInt (ci_ProposalCount inp) 5) (defaultInt (ci_RegenerateLimit inp) 3))"

definition floor_check :: "pol_env \<Rightarrow> level \<Rightarrow> createInputs \<Rightarrow> pol_err option" where
  "floor_check V lvl inp = checkEntropyFloor (pv_dec V) (pv_text V) lvl (ci_Generator inp) (ci_ParamsJSON inp)"

section \<open>Create and Update\<close>

definition edit_row :: "time \<Rightarrow> createInputs \<Rightarrow> policy \<Rightarrow> policy" where
  "edit_row now inp p = p\<lparr>p_Name := TrimSpace (ci_Name inp), p_Generator := ci_Generator inp, p_Params := canonJSON (ci_ParamsJSON inp),
     p_ProposalCount := defaultInt (ci_ProposalCount inp) 5, p_RegenerateLimit := defaultInt (ci_RegenerateLimit inp) 3,
     p_SessionTTLSeconds := defaultInt (ci_SessionTTLSeconds inp) 900, p_NotifyOnConsult := ci_NotifyOnConsult inp,
     p_Active := ci_Active inp, p_UpdatedAt := now\<rparr>"

definition new_row :: "time \<Rightarrow> createInputs \<Rightarrow> int option \<Rightarrow> policy" where
  "new_row now inp adminID = edit_row now inp
     \<lparr>p_ID = 0, p_DomainID = ci_DomainID inp, p_DomainName = [], p_ANSSILevel = ci_ANSSILevel inp, p_Name = [], p_Generator = [],
      p_Params = [], p_ProposalCount = 0, p_RegenerateLimit = 0, p_SessionTTLSeconds = 0, p_NotifyOnConsult = False,
      p_Active = False, p_CreatedByAdminID = adminID, p_CreatedAt = now, p_UpdatedAt = now\<rparr>"

text \<open>The statements of \<open>Create\<close> and \<open>Update\<close>. The INSERT also fails on a domain id without a row (the foreign key of the
  schema), which is not a unique violation.\<close>

datatype pol_stmt = InsertPolicy | UpdatePolicy | GetPolicy

definition Create ::
  "pol_env \<Rightarrow> pol_stmt faults \<Rightarrow> time \<Rightarrow> createInputs \<Rightarrow> int option \<Rightarrow> 'a catalog_scheme \<Rightarrow> (pol_err + policy) \<times> 'a catalog_scheme" where
  "Create V fs now inp adminID db =
     (case validateInputs V inp of Some e \<Rightarrow> (Inl e, db) | None \<Rightarrow>
      case floor_check V (ci_ANSSILevel inp) inp of Some e \<Rightarrow> (Inl e, db) | None \<Rightarrow>
      if fs InsertPolicy \<or> ci_DomainID inp \<notin> d_ID ` set (t_rows (db_domains db)) then (Inl ErrDriver, db)
      else if (ci_DomainID inp, ci_ANSSILevel inp) \<in> p_key ` set (t_rows (db_policies db)) then (Inl ErrAlreadyExists, db)
      else let (i, t) = tbl_insert (p_row (new_row now inp adminID)) (db_policies db); db = db\<lparr>db_policies := t\<rparr>
           in (Get (fs GetPolicy) i db, db))"

text \<open>Other requests may run between the read and the UPDATE of \<open>Update\<close>: \<open>others\<close> is what they do to the catalogue.\<close>

definition Update ::
  "pol_env \<Rightarrow> pol_stmt faults \<Rightarrow> ('a catalog_scheme \<Rightarrow> 'a catalog_scheme) \<Rightarrow> time \<Rightarrow> int \<Rightarrow> createInputs \<Rightarrow> 'a catalog_scheme
     \<Rightarrow> pol_err option \<times> 'a catalog_scheme" where
  "Update V fs others now i inp db =
     (case validateInputs V inp of Some e \<Rightarrow> (Some e, db) | None \<Rightarrow>
      case Get (fs GetPolicy) i db of Inl e \<Rightarrow> (Some e, db) | Inr cur \<Rightarrow>
      case floor_check V (p_ANSSILevel cur) inp of Some e \<Rightarrow> (Some e, db) | None \<Rightarrow>
      let db = others db
      in if fs UpdatePolicy then (Some ErrDriver, db)
         else (None, db\<lparr>db_policies := tbl_update (\<lambda>p. p_ID p = i) (edit_row now inp) (db_policies db)\<rparr>))"

section \<open>Trimming twice\<close>

lemma decode_prefix:
  assumes "prefix p s" "p \<noteq> []"
  shows "decode_rune p = decode_rune s \<or> fst (decode_rune p) = RuneError"
proof -
  obtain a p' r where e: "p = a # p'" "s = a # p' @ r" using assms by (cases p) (auto simp: prefix_def)
  show ?thesis unfolding e by (auto simp: Let_def split: list.split)
qed

lemma trim_right_fixed: "trim_right (trim_right s) = trim_right s"
  using trim_right_stops [of s] by (subst (1) trim_right.simps) auto

lemma trim_left_fixed: "s = [] \<or> \<not> IsSpace (fst (decode_rune s)) \<Longrightarrow> trim_left s = s"
  by (subst trim_left.simps) auto

lemma TrimSpace_twice [simp]: "TrimSpace (TrimSpace s) = TrimSpace s"
proof -
  let ?t = "trim_right (trim_left s)"
  have "?t = [] \<or> \<not> IsSpace (fst (decode_rune ?t))"
  proof (cases "?t = []")
    case False
    then have "trim_left s \<noteq> []" using trim_right_prefix [of "trim_left s"] by auto
    then have "\<not> IsSpace (fst (decode_rune (trim_left s)))" using trim_left_stops [of s] by blast
    moreover have "\<not> IsSpace RuneError" by code_simp
    ultimately show ?thesis using decode_prefix [OF trim_right_prefix False] by metis
  qed simp
  then show ?thesis by (simp add: TrimSpace_def trim_left_fixed trim_right_fixed)
qed

lemma canonJSON_twice [simp]: "canonJSON (canonJSON s) = canonJSON s"
proof (cases "TrimSpace s = []")
  case True
  have "TrimSpace ''{}'' = ''{}''" by code_simp
  with True show ?thesis by (simp add: canonJSON_def)
next
  case False
  then show ?thesis by (simp add: canonJSON_def)
qed

lemma entropy_canon: "CalculateEntropy dec T gen (canonJSON s) = CalculateEntropy dec T gen s"
  by (simp add: CalculateEntropy_def breakdown_of_def)

lemma floor_canon: "checkEntropyFloor dec T lvl gen (canonJSON s) = checkEntropyFloor dec T lvl gen s"
  by (simp add: checkEntropyFloor_def entropy_canon)

section \<open>What is stored\<close>

definition policy_ok :: "pol_env \<Rightarrow> policy \<Rightarrow> bool" where
  "policy_ok V p \<longleftrightarrow> checkEntropyFloor (pv_dec V) (pv_text V) (p_ANSSILevel p) (p_Generator p) (p_Params p) = None
     \<and> ValidateForReveal V p = None \<and> 0 < p_SessionTTLSeconds p \<and> 0 < p_RegenerateLimit p \<and> TrimSpace (p_Name p) \<noteq> []"

definition stored_ok :: "pol_env \<Rightarrow> 'a catalog_scheme \<Rightarrow> bool" where
  "stored_ok V db \<longleftrightarrow> catalog_ok db \<and> (\<forall>p\<in>set (t_rows (db_policies db)).
     policy_ok V p \<and> p_DomainID p \<in> d_ID ` set (t_rows (db_domains db)))"

text \<open>Every change of the catalogue, one request at a time; \<open>CList\<close> are the changes of the two lists, where the deletion of
  a domain cascades.\<close>

datatype cat_cmd =
    CList elev_cmd
  | CCreate "pol_stmt faults" time createInputs "int option"
  | CUpdate "pol_stmt faults" time int createInputs
  | CSetActive bool time int bool
  | CDelete bool int

fun cat_step :: "pol_env \<Rightarrow> unicode \<Rightarrow> (string \<Rightarrow> bool) \<Rightarrow> cat_cmd \<Rightarrow> 'a catalog_scheme \<Rightarrow> 'a catalog_scheme" where
  "cat_step V U isIP (CList (EDomain (DDelete f i))) db = (if f then db else delete_domain_cascade i db)"
| "cat_step V U isIP (CList c) db = elev_step U isIP c db"
| "cat_step V U isIP (CCreate fs now inp adm) db = snd (Create V fs now inp adm db)"
| "cat_step V U isIP (CUpdate fs now i inp) db = snd (Update V fs id now i inp db)"
| "cat_step V U isIP (CSetActive f now i a) db = snd (SetActive f now i a db)"
| "cat_step V U isIP (CDelete f i) db = snd (Delete f i db)"

lemma validated:
  assumes "validateInputs V inp = None" "floor_check V lvl inp = None" "p_ANSSILevel p = lvl"
  shows "policy_ok V (edit_row now inp p)"
proof -
  have "bundleRefusal V (ci_Generator inp) (canonJSON (ci_ParamsJSON inp)) (defaultInt (ci_ProposalCount inp) 5)
      (defaultInt (ci_RegenerateLimit inp) 3) = None"
    using assms(1) by (auto simp: validateInputs_def validateGeneratorParams_def split: if_splits option.splits)
  moreover have "TrimSpace (ci_Name inp) \<noteq> []" using assms(1) by (auto simp: validateInputs_def split: if_splits)
  ultimately show ?thesis
    using assms(2,3) by (simp add: policy_ok_def edit_row_def ValidateForReveal_def floor_canon floor_check_def defaultInt_def)
qed

lemma policy_ok_id [simp]: "policy_ok V (p\<lparr>p_ID := i\<rparr>) = policy_ok V p"
  "policy_ok V (p\<lparr>p_Active := a, p_UpdatedAt := now\<rparr>) = policy_ok V p"
  "policy_ok V (joined_row db p) = policy_ok V p"
  by (simp_all add: policy_ok_def ValidateForReveal_def joined_row_def)

lemma edit_row_keeps [simp]:
  "p_ID (edit_row now inp p) = p_ID p" "p_DomainID (edit_row now inp p) = p_DomainID p"
  "p_ANSSILevel (edit_row now inp p) = p_ANSSILevel p"
  by (simp_all add: edit_row_def)

lemma stored_ok_policies:
  assumes "stored_ok V db" "tbl_wf p_ID p_key t"
    "\<And>p. p \<in> set (t_rows t) \<Longrightarrow> policy_ok V p \<and> p_DomainID p \<in> d_ID ` set (t_rows (db_domains db))"
  shows "stored_ok V (db\<lparr>db_policies := t\<rparr>)"
  using assms by (auto simp: stored_ok_def catalog_ok_def elev_ok_def)

lemma Create_effect:
  "snd (Create V fs now inp adm db) = db
   \<or> snd (Create V fs now inp adm db) = db\<lparr>db_policies := snd (tbl_insert (p_row (new_row now inp adm)) (db_policies db))\<rparr>
     \<and> validateInputs V inp = None \<and> floor_check V (ci_ANSSILevel inp) inp = None
     \<and> ci_DomainID inp \<in> d_ID ` set (t_rows (db_domains db))
     \<and> (ci_DomainID inp, ci_ANSSILevel inp) \<notin> p_key ` set (t_rows (db_policies db))"
  by (simp add: Create_def Let_def case_prod_beta split: option.split)

lemma stored_ok_Create: "stored_ok V db \<Longrightarrow> stored_ok V (snd (Create V fs now inp adm db))"
proof -
  assume ok: "stored_ok V db"
  define row where "row = new_row now inp adm"
  consider (same) "snd (Create V fs now inp adm db) = db"
    | (new) t where "snd (Create V fs now inp adm db) = db\<lparr>db_policies := t\<rparr>" "t = snd (tbl_insert (p_row row) (db_policies db))"
        "validateInputs V inp = None" "floor_check V (ci_ANSSILevel inp) inp = None"
        "ci_DomainID inp \<in> d_ID ` set (t_rows (db_domains db))" "(ci_DomainID inp, ci_ANSSILevel inp) \<notin> p_key ` set (t_rows (db_policies db))"
    using Create_effect [of V fs now inp adm db] unfolding row_def by blast
  then show ?thesis
  proof cases
    case same
    with ok show ?thesis by simp
  next
    case new
    have k: "p_key row = (ci_DomainID inp, ci_ANSSILevel inp)" "policy_ok V row"
      using validated [OF new(3,4)] by (simp_all add: row_def new_row_def p_key_def)
    have wf: "tbl_wf p_ID p_key (db_policies db)" using ok by (simp add: stored_ok_def catalog_ok_def)
    show ?thesis unfolding new(1)
    proof (rule stored_ok_policies [OF ok])
      show "tbl_wf p_ID p_key t" using pt.wf_insert [OF wf, of row] new(2,6) k by simp
      show "policy_ok V p \<and> p_DomainID p \<in> d_ID ` set (t_rows (db_domains db))" if "p \<in> set (t_rows t)" for p
        using that ok new(2,5) k by (auto simp: tbl_insert_def p_row_def stored_ok_def p_key_def)
    qed
  qed
qed

text \<open>A row update that keeps ids, keys and \<open>policy_ok\<close>.\<close>

lemma stored_ok_update:
  assumes "stored_ok V db" "\<And>p. p_ID (f p) = p_ID p \<and> p_key (f p) = p_key p"
    "\<And>p. p \<in> set (t_rows (db_policies db)) \<Longrightarrow> P p \<Longrightarrow> policy_ok V (f p)"
  shows "stored_ok V (db\<lparr>db_policies := tbl_update P f (db_policies db)\<rparr>)"
proof (rule stored_ok_policies [OF assms(1)])
  have wf: "tbl_wf p_ID p_key (db_policies db)" using assms(1) by (simp add: stored_ok_def catalog_ok_def)
  show "tbl_wf p_ID p_key (tbl_update P f (db_policies db))" by (rule pt.wf_update [OF wf]) (simp_all add: assms(2))
  show "policy_ok V p \<and> p_DomainID p \<in> d_ID ` set (t_rows (db_domains db))" if p: "p \<in> set (t_rows (tbl_update P f (db_policies db)))" for p
  proof -
    obtain q where q: "q \<in> set (t_rows (db_policies db))" "p = (if P q then f q else q)" using p by (auto simp: tbl_update_def)
    then show ?thesis using assms(1) assms(2) [of q] assms(3) [of q] by (auto simp: stored_ok_def p_key_def)
  qed
qed

lemma stored_ok_Update: "stored_ok V db \<Longrightarrow> stored_ok V (snd (Update V fs id now i inp db))"
proof -
  assume ok: "stored_ok V db"
  have wf: "tbl_wf p_ID p_key (db_policies db)" using ok by (simp add: stored_ok_def catalog_ok_def)
  have upd: "stored_ok V (db\<lparr>db_policies := tbl_update (\<lambda>p. p_ID p = i) (edit_row now inp) (db_policies db)\<rparr>)"
    if h: "validateInputs V inp = None" "Get False i db = Inr cur" "floor_check V (p_ANSSILevel cur) inp = None" for cur
  proof (rule stored_ok_update [OF ok])
    show "policy_ok V (edit_row now inp p)" if p: "p \<in> set (t_rows (db_policies db))" "p_ID p = i" for p
    proof (rule validated [OF h(1,3)])
      have "find (\<lambda>x. p_ID x = i) (t_rows (db_policies db)) = Some p" using pt.find_id_unique [OF wf p(1)] p(2) by simp
      then show "p_ANSSILevel p = p_ANSSILevel cur" using h(2) by (auto simp: Get_def row_result_def joined_row_def)
    qed
  qed (simp add: p_key_def)
  show ?thesis
    using ok upd by (auto simp: Update_def Let_def Get_def split: option.split sum.split if_splits)
qed

lemma stored_ok_SetActive: "stored_ok V db \<Longrightarrow> stored_ok V (snd (SetActive f now i a db))"
  using stored_ok_update [of V db "\<lambda>p. p\<lparr>p_Active := a, p_UpdatedAt := now\<rparr>" "\<lambda>p. p_ID p = i"]
  by (auto simp: SetActive_def stored_ok_def p_key_def)

lemma stored_ok_Delete: "stored_ok V db \<Longrightarrow> stored_ok V (snd (Delete f i db))"
  using stored_ok_policies [of V db "tbl_delete (\<lambda>p. p_ID p = i) (db_policies db)"] pt.wf_delete [of "db_policies db"]
  by (auto simp: Delete_def stored_ok_def catalog_ok_def tbl_delete_def)

section \<open>The two lists leave the policies alone\<close>

lemma elevation_only_Create:
  fixes db :: "'a elev_db_scheme"
  shows "\<exists>t. snd (Elevations.Create U isIP fs id now i m l r adm db) = db\<lparr>db_elevations := t\<rparr>"
proof -
  have k: "\<exists>t. db = db\<lparr>db_elevations := t\<rparr>" by (rule exI [of _ "db_elevations db"]) simp
  have "\<exists>t. snd (insert_elevation f e db) = db\<lparr>db_elevations := t\<rparr>" for f e
    using k by (auto simp: insert_elevation_def case_prod_beta)
  then show ?thesis using k by (auto simp: Elevations.Create_def Let_def case_prod_beta split: sum.split option.split)
qed

lemma elevation_only_loop:
  "\<exists>t. snd (snd (import_loop U isIP res fs now adm line rs (out, db :: 'a elev_db_scheme))) = db\<lparr>db_elevations := t\<rparr>"
proof (induction rs arbitrary: line out db)
  case Nil
  show ?case by (rule exI [of _ "db_elevations db"]) simp
next
  case (Cons r rs)
  have k: "\<exists>t. db = db\<lparr>db_elevations := t\<rparr>" by (rule exI [of _ "db_elevations db"]) simp
  show ?case
  proof (cases r)
    case (Record row)
    obtain out' db' where s: "importRow U isIP res (fs (line + 1)) now adm (line + 1) row (out, db) = (out', db')"
      by (cases "importRow U isIP res (fs (line + 1)) now adm (line + 1) row (out, db)")
    have "\<exists>t. db' = db\<lparr>db_elevations := t\<rparr>"
      using arg_cong [OF s, of snd] k elevation_only_Create [of U isIP _ now _ _ _ _ adm db]
      by (auto simp: importRow_def Let_def case_prod_beta split: option.splits if_splits)
    then obtain t where "db' = db\<lparr>db_elevations := t\<rparr>" ..
    then show ?thesis using Cons.IH [of "line + 1" out' db'] Record s by simp
  qed (use k in simp)
qed

lemma lists_only:
  fixes db :: "'a elev_db_scheme"
  assumes "\<And>d. c \<noteq> EDomain d"
  shows "\<exists>t. elev_step U isIP c db = db\<lparr>db_elevations := t\<rparr>"
proof -
  have k: "\<exists>t. db = db\<lparr>db_elevations := t\<rparr>" by (rule exI [of _ "db_elevations db"]) simp
  show ?thesis
    using assms k elevation_only_Create elevation_only_loop
    by (cases c) (auto simp: Import_def Elevations.Delete_def TouchLastUsed_def)
qed

lemma stored_ok_lists:
  assumes "lower_table_ok U" "stored_ok V db"
  shows "stored_ok V (cat_step V U isIP (CList c) db)"
proof (cases "\<exists>f i. c = EDomain (DDelete f i)")
  case True
  then obtain f i where c: "c = EDomain (DDelete f i)" by blast
  have e: "elev_ok (delete_domain_rows i db)" using assms(2) elev_ok_delete_domain by (auto simp: stored_ok_def catalog_ok_def)
  have "tbl_wf p_ID p_key (tbl_delete (\<lambda>p. p_DomainID p = i) (db_policies db))"
    using assms(2) pt.wf_delete by (simp add: stored_ok_def catalog_ok_def)
  then have "stored_ok V (delete_domain_cascade i db)"
    using assms(2) e by (auto simp: stored_ok_def catalog_ok_def delete_domain_cascade_def delete_domain_rows_def elev_ok_def tbl_delete_def)
  then show ?thesis using c assms(2) by simp
next
  case False
  have st: "cat_step V U isIP (CList c) db = elev_step U isIP c db" using False by (cases c; cases "case c of EDomain d \<Rightarrow> d") auto
  have e: "elev_ok (elev_step U isIP c db)" using elev_ok_step [OF assms(1), of db] assms(2) by (simp add: stored_ok_def catalog_ok_def)
  have "db_policies (elev_step U isIP c db) = db_policies db
    \<and> d_ID ` set (t_rows (db_domains db)) \<subseteq> d_ID ` set (t_rows (db_domains (elev_step U isIP c db)))"
  proof (cases c)
    case (EDomain d)
    then have "elev_step U isIP c db = db\<lparr>db_domains := dom_step U d (db_domains db)\<rparr>" using False by (cases d) auto
    moreover have "d_ID ` set (t_rows (db_domains db)) \<subseteq> d_ID ` set (t_rows (dom_step U d (db_domains db)))"
    proof
      fix i
      assume "i \<in> d_ID ` set (t_rows (db_domains db))"
      then obtain r where r: "i = d_ID r" "r \<in> set (t_rows (db_domains db))" by blast
      have "d \<noteq> DDelete f j" for f j using False EDomain by blast
      from dom_step_keeps [OF this r(2), of U] show "i \<in> d_ID ` set (t_rows (dom_step U d (db_domains db)))" using r(1) by (metis imageI)
    qed
    ultimately show ?thesis by simp
  qed (use lists_only [of c U isIP db] in \<open>auto simp del: elev_step.simps\<close>)
  then show ?thesis unfolding st using assms(2) e by (auto simp: stored_ok_def catalog_ok_def)
qed

lemma stored_ok_step: "lower_table_ok U \<Longrightarrow> stored_ok V db \<Longrightarrow> stored_ok V (cat_step V U isIP c db)"
proof (cases c)
  case (CList e)
  then show "lower_table_ok U \<Longrightarrow> stored_ok V db \<Longrightarrow> stored_ok V (cat_step V U isIP c db)" using stored_ok_lists by blast
qed (simp_all add: stored_ok_Create stored_ok_Update stored_ok_SetActive stored_ok_Delete)

interpretation cat: machine "cat_step V U isIP" "\<lambda>db. lower_table_ok U \<longrightarrow> stored_ok V db" for V U isIP
  by unfold_locales (auto intro: stored_ok_step)

section \<open>Properties\<close>

definition empty_catalog :: catalog where
  "empty_catalog = elev_db.extend empty_elev_db \<lparr>db_policies = empty_table\<rparr>"

lemma empty_catalog_ok: "stored_ok V empty_catalog"
  using elev_ok_empty by (simp add: stored_ok_def catalog_ok_def empty_catalog_def elev_db.defs elev_ok_def empty_elev_db_def empty_table_def tbl_wf_def)

lemma resolved_in_table:
  assumes "ResolveIssued U has_dom has_elev fl email db = Inr p"
  shows "\<exists>q\<in>set (t_rows (db_policies db)). p = joined_row db q"
  using assms find_Some_in
  by (fastforce simp: ResolveIssued_def resolve_spec policy_for_def Let_def split: if_splits sum.splits option.splits)

text \<open>
  C19. No link is ever served a policy that is too weak or that the browser refuses. After any sequence of
  requests that edit domains, elevations and policies, imports and failed statements included, every policy that is
  resolved for an issued link is accepted by the checks of the browser bundle and guarantees the entropy floor of
  its level, and it has a positive session time.
\<close>

theorem resolved_policy_is_usable:
  assumes "lower_table_ok U" "ResolveIssued U has_dom has_elev fl email (run (cat_step V U isIP) cs empty_catalog) = Inr p"
  shows "ValidateForReveal V p = None
    \<and> checkEntropyFloor (pv_dec V) (pv_text V) (p_ANSSILevel p) (p_Generator p) (p_Params p) = None
    \<and> 0 < p_SessionTTLSeconds p"
proof -
  let ?db = "run (cat_step V U isIP) cs empty_catalog"
  have "stored_ok V ?db" using cat.inv_run [of U V empty_catalog isIP cs] assms(1) empty_catalog_ok by blast
  moreover obtain q where "q \<in> set (t_rows (db_policies ?db))" "p = joined_row ?db q" using resolved_in_table [OF assms(2)] by blast
  ultimately have "policy_ok V p" by (simp add: stored_ok_def)
  then show ?thesis by (simp add: policy_ok_def)
qed

definition toy_env :: pol_env where
  "toy_env = \<lparr>pv_dec = (\<lambda>_. Some (JObj [(''length'', JNum 64)])), pv_lib = (\<lambda>_. []), pv_text = toy_text\<rparr>"

definition toy_inputs :: createInputs where
  "toy_inputs = \<lparr>ci_DomainID = 1, ci_ANSSILevel = LevelB1, ci_Name = ''staff'', ci_Generator = ''G3'', ci_ParamsJSON = [],
     ci_ProposalCount = 5, ci_RegenerateLimit = 3, ci_SessionTTLSeconds = 900, ci_NotifyOnConsult = False, ci_Active = True\<rparr>"

definition toy_cmds :: "cat_cmd list" where
  "toy_cmds = [CList (EDomain (DCreate False 1 ''corp.com'' [] True None)), CCreate no_faults 2 toy_inputs None]"

definition toy_domains :: catalog where
  "toy_domains = elev_step ascii_tables (\<lambda>_. False) (EDomain (DCreate False 1 ''corp.com'' [] True None)) empty_catalog"

definition toy_catalog :: catalog where
  "toy_catalog = toy_domains\<lparr>db_policies := snd (tbl_insert (p_row (new_row 2 toy_inputs None)) (db_policies toy_domains))\<rparr>"

lemma toy_floor: "checkEntropyFloor (pv_dec toy_env) (pv_text toy_env) LevelB1 ''G3'' js = None"
  using toy_g3_accepted by (fastforce simp: toy_env_def checkEntropyFloor_def LevelFloor_def CalculateEntropy_def breakdown_of_def
      split: sum.splits if_splits)

lemma toy_run: "run (cat_step toy_env ascii_tables (\<lambda>_. False)) toy_cmds empty_catalog = toy_catalog"
proof -
  have d: "ci_DomainID toy_inputs \<in> d_ID ` set (t_rows (db_domains toy_domains))"
    "(ci_DomainID toy_inputs, ci_ANSSILevel toy_inputs) \<notin> p_key ` set (t_rows (db_policies toy_domains))"
    by code_simp+
  have n: "TrimSpace ''staff'' \<noteq> []" by code_simp
  obtain rep where c: "CalculateEntropy (pv_dec toy_env) (pv_text toy_env) ''G3'' js = Inr rep" for js
    using toy_floor unfolding checkEntropyFloor_def CalculateEntropy_def breakdown_of_def
    by (simp add: toy_env_def split: sum.splits)
  have v: "validateInputs toy_env toy_inputs = None"
    by (simp add: validateInputs_def toy_inputs_def n validateGeneratorParams_def bundleRefusal_def defaultInt_def c maxProposals_def maxRegenerate_def)
  have f: "floor_check toy_env (ci_ANSSILevel toy_inputs) toy_inputs = None"
    using toy_floor by (simp add: floor_check_def toy_inputs_def)
  have "snd (Create toy_env no_faults 2 toy_inputs None toy_domains) = toy_catalog"
    using d v f by (simp add: Create_def Let_def case_prod_beta toy_catalog_def)
  then show ?thesis by (simp add: toy_cmds_def toy_domains_def)
qed

theorem resolved_policy_is_usable_witness:
  "\<exists>p. ResolveIssued ascii_tables True True no_res_faults ''bob@corp.com'' (run (cat_step toy_env ascii_tables (\<lambda>_. False)) toy_cmds empty_catalog) = Inr p
     \<and> ValidateForReveal toy_env p = None"
proof -
  have "case ResolveIssued ascii_tables True True no_res_faults ''bob@corp.com'' toy_catalog of Inl _ \<Rightarrow> False | Inr _ \<Rightarrow> True" by code_simp
  then obtain p where p: "ResolveIssued ascii_tables True True no_res_faults ''bob@corp.com'' toy_catalog = Inr p" by (auto split: sum.splits)
  then show ?thesis using resolved_policy_is_usable [OF ascii_tables_lower p [folded toy_run]] toy_run by auto
qed

text \<open>
  A limit of zero regenerations cannot be stored. The form offers it and the bundle accepts it exactly as it accepts
  three, but \<open>Create\<close> and \<open>Update\<close> treat it as absent: submitting zero has the same effect as submitting three, on every
  catalogue, and whatever was stored is positive.
\<close>

theorem zero_regenerations_become_three:
  "Create V fs now (inp\<lparr>ci_RegenerateLimit := 0\<rparr>) adm db = Create V fs now (inp\<lparr>ci_RegenerateLimit := 3\<rparr>) adm db
   \<and> Update V fs others now i (inp\<lparr>ci_RegenerateLimit := 0\<rparr>) db = Update V fs others now i (inp\<lparr>ci_RegenerateLimit := 3\<rparr>) db
   \<and> bundleRefusal V gen js n 0 = bundleRefusal V gen js n 3"
proof -
  have v: "validateInputs V (inp\<lparr>ci_RegenerateLimit := 0\<rparr>) = validateInputs V (inp\<lparr>ci_RegenerateLimit := 3\<rparr>)"
    by (simp add: validateInputs_def defaultInt_def)
  have f: "floor_check V l (inp\<lparr>ci_RegenerateLimit := 0\<rparr>) = floor_check V l (inp\<lparr>ci_RegenerateLimit := 3\<rparr>)" for l
    by (simp add: floor_check_def)
  have e: "edit_row now (inp\<lparr>ci_RegenerateLimit := 0\<rparr>) = edit_row now (inp\<lparr>ci_RegenerateLimit := 3\<rparr>)"
    by (rule ext) (simp add: edit_row_def defaultInt_def)
  have s: "ci_DomainID (inp\<lparr>ci_RegenerateLimit := x\<rparr>) = ci_DomainID inp"
    "ci_ANSSILevel (inp\<lparr>ci_RegenerateLimit := x\<rparr>) = ci_ANSSILevel inp" for x by simp_all
  show ?thesis
    unfolding Create_def Update_def v f new_row_def s e by (simp add: bundleRefusal_def maxRegenerate_def)
qed

end
