(* ===== verification/Public_Flow.thy ===== *)
theory Public_Flow
  imports Throttle_Audit Mail_Capture Policy_Edit Tokens Rate_Limit Dispatcher
begin

text \<open>
  The public endpoints (\<open>internal/httpserver/server.go\<close>, \<open>publicflow.go\<close>, \<open>requestmail.go\<close>): \<open>POST /api/v1/request\<close>, which asks for a link,
  \<open>POST /api/v1/policy\<close>, which redeems it, and the reveal page. They compose the limiters, the allow-list, the policies, the
  token table, the audit log with its fan-out, the mail queue and the capture queue.

  \<open>server\<close> is the part of \<open>Server\<close> that the handlers read and change; an unwired repository is \<open>None\<close>, or a flag of
  \<open>config\<close>. A handler takes the inputs of one request: \<open>io\<close> holds its clock readings and random bytes by the name of the point
  that reads them, and which statements the driver fails. One request is handled at a time here; what interleaved
  callers can do to a token, a limiter or the log is shown in the theories of these components. JSON decoding, template rendering and
  the content-type parser are parameters. Log lines and metrics are left out.
\<close>

section \<open>State\<close>

datatype sender = NopSender | CaptureSender | SMTPSender

definition Name :: "sender \<Rightarrow> string" where
  "Name sd = (case sd of NopSender \<Rightarrow> ''noop'' | CaptureSender \<Rightarrow> ''capture'' | SMTPSender \<Rightarrow> ''smtp'')"

record config =
  cf_Eval :: bool
  cf_Demo :: bool
  cf_BaseURL :: string
  cf_InstanceDomain :: string
  cf_MailLanguage :: string
  cf_limits :: limits
  cf_domains :: bool
  cf_policies :: bool
  cf_mailTpls :: bool
  cf_requestFloor :: duration

record postConsultMail =
  pc_token :: string
  pc_email :: string
  pc_lang :: string
  pc_consumed :: time
  pc_ip :: string
  pc_ua :: string

text \<open>A background mail: a reveal mail with its sender, waiting for a worker or running, or a post-consultation notice.\<close>

datatype job = JReveal bool sender string string message | JPost postConsultMail

record server =
  sv_catalog :: catalog
  sv_tokens :: "tok_db option"
  sv_audit :: "audit option"
  sv_disp :: "dispatcher option"
  sv_limiter :: "limiter composite"
  sv_tokenLimiter :: limiter
  sv_probeLimiter :: limiter
  sv_rateAudit :: rateAuditAgg
  sv_sender :: sender
  sv_mail :: mail_store
  sv_jobs :: "job list"

text \<open>What the handlers use of code outside: \<open>mime.ParseMediaType\<close>, the JSON decoders on a body capped at a number of bytes, the
  marshalling of audit details, the fingerprint of a served descriptor, template rendering, dates, and the codecs of the components.\<close>

datatype descriptor = DefaultDescriptor | RowDescriptor policy jval

record rendered =
  rd_Subject :: string
  rd_Text :: string
  rd_HTML :: string

record pub_env = key_env +
  pb_U :: unicode
  pb_isIP :: "string \<Rightarrow> bool"
  pb_media :: "string \<Rightarrow> string option"
  pb_decEmail :: "nat \<Rightarrow> string \<Rightarrow> string option"
  pb_decToken :: "nat \<Rightarrow> string \<Rightarrow> string option"
  pb_audit :: audit_env
  pb_details :: "(string \<times> detail) list \<Rightarrow> string option"
  pb_pol :: pol_env
  pb_fingerprint :: "descriptor \<Rightarrow> string"
  pb_text :: "string \<Rightarrow> nat \<Rightarrow> string option"
  pb_html :: "string \<Rightarrow> nat \<Rightarrow> string option"
  pb_reveal :: "string \<Rightarrow> string \<Rightarrow> string \<Rightarrow> time \<Rightarrow> rendered option"
  pb_notice :: "postConsultMail \<Rightarrow> rendered option"
  pb_date :: "time \<Rightarrow> string"
  pb_qenc :: "string \<Rightarrow> string"
  pb_control :: "rune \<Rightarrow> bool"
  pb_errText :: "tok_err \<Rightarrow> string"

record io =
  io_time :: "string \<Rightarrow> time"
  io_rand :: "string \<Rightarrow> string option"
  io_fail :: "string \<Rightarrow> bool"
  io_domain :: "string faults"
  io_resolve :: "string \<Rightarrow> res_faults"
  io_consume :: "tok_stmt faults"
  io_audit :: "string \<Rightarrow> audit_stmt faults \<times> nat"
  io_gone :: "time option"

record request =
  rq_ContentType :: string
  rq_Body :: string
  rq_RemoteAddr :: string
  rq_XFF :: "string list"
  rq_UserAgent :: string
  rq_Cookie :: "string option"

datatype body = BError string | BAccepted "(string \<times> string) list" | BPolicy descriptor time time | BPage string

text \<open>\<open>re_sent\<close> is when an answer that is held back is written; the others leave as soon as they are prepared.\<close>

record response =
  re_status :: nat
  re_cookie :: "string option"
  re_retryAfter :: "int option"
  re_body :: body
  re_sent :: "time option"

section \<open>Audit\<close>

definition auditAppend :: "'a pub_env_scheme \<Rightarrow> config \<Rightarrow> io \<Rightarrow> audit_call \<Rightarrow> server \<Rightarrow> server" where
  "auditAppend E C io c s =
     (case sv_audit s of
        None \<Rightarrow> s
      | Some a \<Rightarrow>
          (case Append (pb_audit E) (fst (io_audit io (ac_event c))) (snd (io_audit io (ac_event c))) (io_time io (ac_event c))
                  (ac_event c) (ac_actor c) (ac_target c) (pb_details E (ac_details c)) a of
             (Inl _, a') \<Rightarrow> s\<lparr>sv_audit := Some a'\<rparr>
           | (Inr entry, a') \<Rightarrow>
               s\<lparr>sv_audit := Some a',
                 sv_disp := map_option (Push (NewEvent (a_seq entry) (a_event entry) (a_actor entry) (a_target entry) (a_details entry)
                   (a_hash entry) (cf_InstanceDomain C) (the (a_occurred entry)))) (sv_disp s)\<rparr>))"

definition audit_row :: "string \<Rightarrow> string \<Rightarrow> string \<Rightarrow> (string \<times> detail) list \<Rightarrow> audit_call" where
  "audit_row event actor target details = \<lparr>ac_event = event, ac_actor = actor, ac_target = target, ac_details = details\<rparr>"

fun append_all :: "'a pub_env_scheme \<Rightarrow> config \<Rightarrow> io \<Rightarrow> audit_call list \<Rightarrow> server \<Rightarrow> server" where
  "append_all E C io [] s = s"
| "append_all E C io (c # cs) s = append_all E C io cs (auditAppend E C io c s)"

section \<open>Asking for a link\<close>

definition isJSONContentType :: "'a pub_env_scheme \<Rightarrow> string \<Rightarrow> bool" where
  "isJSONContentType E v \<longleftrightarrow> pb_media E v = Some ''application/json''"

definition maxRequestBodyBytes :: nat where "maxRequestBodyBytes = 4096"

text \<open>\<open>readRequestEmail\<close>: the normalised address, or the status and slug of the refusal.\<close>

definition readRequestEmail :: "'a pub_env_scheme \<Rightarrow> request \<Rightarrow> server \<Rightarrow> (nat \<times> string) + string" where
  "readRequestEmail E r s =
     (case pb_decEmail E maxRequestBodyBytes (rq_Body r) of
        None \<Rightarrow> Inl (400, ''invalid_payload'')
      | Some p \<Rightarrow>
          if p = [] then Inl (400, ''email_required'')
          else case NormalizeAddress (pb_U E) (pb_isIP E) p of
            Inl _ \<Rightarrow> Inl (400, ''invalid_email'')
          | Inr email \<Rightarrow> if sv_tokens s = None then Inl (503, ''storage_unavailable'') else Inr email)"

definition newPublicRequest :: "'a pub_env_scheme \<Rightarrow> request \<Rightarrow> string \<Rightarrow> publicRequest" where
  "newPublicRequest E r email =
     (let ip = clientIP E (rq_RemoteAddr r) (rq_XFF r); i = LastIndexByte CHR ''@'' email
      in \<lparr>pr_email = email, pr_domain = (if i > 0 \<and> i + 1 < int (length email) then slice_from email (i + 1) else []),
          pr_ip = ip, pr_ipHash = hashShort E ip, pr_uaHash = hashShort E (rq_UserAgent r)\<rparr>)"

definition requestRateGate :: "'a pub_env_scheme \<Rightarrow> config \<Rightarrow> io \<Rightarrow> publicRequest \<Rightarrow> server \<Rightarrow> bool \<times> server" where
  "requestRateGate E C io pr s =
     (let (d, lim) = Check (io_time io ''ip.inspect'') (io_time io ''email.inspect'') (io_time io ''ip.allow'') (io_time io ''email.allow'')
            id id id (rateLimitKey (pr_email pr)) (rateLimitIPKey E (pr_ip pr)) (sv_limiter s);
          s = s\<lparr>sv_limiter := lim\<rparr>
      in if Allowed d then (True, s)
         else let (rows, agg) = auditRateLimited E (cf_limits C) (io_time io ''observe'') pr (Reason d) (sv_rateAudit s)
              in (False, append_all E C io rows (s\<lparr>sv_rateAudit := agg\<rparr>)))"

definition requestDomainGate :: "'a pub_env_scheme \<Rightarrow> config \<Rightarrow> io \<Rightarrow> publicRequest \<Rightarrow> server \<Rightarrow> bool \<times> server" where
  "requestDomainGate E C io pr s =
     (if \<not> cf_domains C then (True, s)
      else
        let blocked = (\<lambda>reason. (False, auditAppend E C io (audit_row ''request.domain_blocked'' (pr_email pr) (pr_domain pr)
               [(''ip_hash'', DStr (pr_ipHash pr)), (''ua_hash'', DStr (pr_uaHash pr)), (''reason'', DStr reason)]) s))
        in case Allows (pb_U E) (cf_Eval C \<or> cf_Demo C) (io_fail io ''domains.count'') (io_domain io) (pr_domain pr)
                  (db_domains (sv_catalog s)) of
             Inl e \<Rightarrow> if e = ErrEmptyAllowlist then blocked ''allowlist_empty'' else (False, s)
           | Inr ok \<Rightarrow> if ok then (True, s) else blocked ''not_listed'')"

definition requestPolicyGate :: "'a pub_env_scheme \<Rightarrow> config \<Rightarrow> io \<Rightarrow> publicRequest \<Rightarrow> server \<Rightarrow> bool \<times> server" where
  "requestPolicyGate E C io pr s =
     (if \<not> cf_policies C then (True, s)
      else case Policies.Count (io_fail io ''policies.count'') (sv_catalog s) of
        Inl _ \<Rightarrow> (False, s)
      | Inr n \<Rightarrow>
          if n = 0 then (True, s)
          else case Resolve (pb_U E) True True (io_resolve io ''request'') (pr_email pr) (sv_catalog s) of
            Inl e \<Rightarrow>
              if e = ErrNoPolicy then
                (False, auditAppend E C io (audit_row ''request.policy_not_found'' (pr_email pr) []
                   [(''ip_hash'', DStr (pr_ipHash pr)), (''ua_hash'', DStr (pr_uaHash pr))]) s)
              else (False, s)
          | Inr _ \<Rightarrow> (True, s))"

definition admitRequest :: "'a pub_env_scheme \<Rightarrow> config \<Rightarrow> io \<Rightarrow> publicRequest \<Rightarrow> server \<Rightarrow> bool \<times> server" where
  "admitRequest E C io pr s =
     (let (ok, s) = requestRateGate E C io pr s
      in if \<not> ok then (False, s)
      else let (ok, s) = requestDomainGate E C io pr s
      in if \<not> ok then (False, s) else requestPolicyGate E C io pr s)"

definition issueRequestToken :: "'a pub_env_scheme \<Rightarrow> config \<Rightarrow> io \<Rightarrow> publicRequest \<Rightarrow> server \<Rightarrow> token option \<times> server" where
  "issueRequestToken E C io pr s =
     (case Issue (pb_U E) (ke_sha E) (io_fail io ''tokens.insert'') (io_rand io ''token'') (io_time io ''issue'')
             \<lparr>io_Email = pr_email pr, io_Domain = pr_domain pr, io_IPHash = pr_ipHash pr, io_UAHash = pr_uaHash pr, io_TTL = DefaultTTL\<rparr>
             (the (sv_tokens s)) of
        (Inl e, db) \<Rightarrow> (None, auditAppend E C io (audit_row ''request.issue_failed'' (pr_email pr) []
            [(''error'', DStr (pb_errText E e))]) (s\<lparr>sv_tokens := Some db\<rparr>))
      | (Inr tok, db) \<Rightarrow> (Some tok, s\<lparr>sv_tokens := Some db\<rparr>))"

text \<open>\<open>mail.BuildReveal\<close>; \<open>renderText\<close> and \<open>renderHTML\<close> fill in the built-in templates.\<close>

definition BuildReveal :: "'a pub_env_scheme \<Rightarrow> io \<Rightarrow> string \<Rightarrow> string \<Rightarrow> string \<Rightarrow> nat \<Rightarrow> message option" where
  "BuildReveal E io to inst url minutes =
     (if validateRecipient (pb_U E) (pb_isIP E) to \<noteq> None \<or> url = [] \<or> inst = [] then None
      else
        let minutes = (if minutes = 0 then 15 else minutes)
        in case (pb_text E url minutes, pb_html E url minutes, newBoundary (io_rand io ''boundary''), newMessageID (io_rand io ''msgid'') inst) of
             (Some txt, Some html, Some boundary, Some msgID) \<Rightarrow>
               let m = \<lparr>m_From = ''SealKeeper <noreply@'' @ inst @ ''>'', m_To = to, m_ReplyTo = [],
                        m_Subject = ''Vos propositions de mot de passe SealKeeper'',
                        m_Headers = [(''Date'', pb_date E (io_time io ''mail'')), (''Message-ID'', msgID), (''MIME-Version'', ''1.0''),
                          (''Content-Type'', ''multipart/alternative; boundary='' @ [CHR 0x22] @ boundary @ [CHR 0x22]),
                          (''X-Mailer'', ''SealKeeper'')],
                        m_Body = assembleMultipart boundary txt html\<rparr>
               in (case checkHeaders m of Some _ \<Rightarrow> None | None \<Rightarrow> Some m)
           | _ \<Rightarrow> None)"

definition assemble_mail :: "'a pub_env_scheme \<Rightarrow> config \<Rightarrow> io \<Rightarrow> string \<Rightarrow> rendered \<Rightarrow> mail_err + message" where
  "assemble_mail E C io to rd =
     Assemble (pb_U E) (pb_isIP E) (pb_date E) (io_time io ''mail'') (io_rand io ''boundary'') (io_rand io ''msgid'')
       \<lparr>ai_To = to, ai_From = [], ai_ReplyTo = [], ai_InstanceDomain = cf_InstanceDomain C, ai_Subject = rd_Subject rd,
        ai_Text = rd_Text rd, ai_HTML = rd_HTML rd, ai_Now = None\<rparr>"

definition mailLanguage :: "config \<Rightarrow> string" where
  "mailLanguage C = (if cf_MailLanguage C = [] then ''en'' else cf_MailLanguage C)"

definition buildRevealMessage :: "'a pub_env_scheme \<Rightarrow> config \<Rightarrow> io \<Rightarrow> token \<Rightarrow> string \<Rightarrow> message option" where
  "buildRevealMessage E C io tok revealURL =
     (if \<not> cf_mailTpls C then BuildReveal E io (tk_Email tok) (cf_InstanceDomain C) revealURL 15
      else case pb_reveal E (mailLanguage C) revealURL (tk_Email tok) (tk_ExpiresAt tok) of
        None \<Rightarrow> None
      | Some rd \<Rightarrow> (case assemble_mail E C io (tk_Email tok) rd of Inl _ \<Rightarrow> None | Inr m \<Rightarrow> Some m))"

section \<open>The mail queue\<close>

definition mailWorkers :: nat where "mailWorkers = 32"

definition mailQueueDepth :: nat where "mailQueueDepth = 1024"

fun queued :: "job \<Rightarrow> bool" where
  "queued (JReveal _ _ _ _ _) = True"
| "queued (JPost _) = False"

text \<open>The jobs that hold a worker slot.\<close>

fun slotted :: "job \<Rightarrow> bool" where
  "slotted (JReveal running _ _ _ _) = running"
| "slotted (JPost _) = True"

definition queue_len :: "server \<Rightarrow> nat" where "queue_len s = length (filter queued (sv_jobs s))"

definition slots_used :: "server \<Rightarrow> nat" where "slots_used s = length (filter slotted (sv_jobs s))"

definition sendRevealMail :: "'a pub_env_scheme \<Rightarrow> config \<Rightarrow> io \<Rightarrow> sender \<Rightarrow> string \<Rightarrow> string \<Rightarrow> message \<Rightarrow> server \<Rightarrow> server" where
  "sendRevealMail E C io sd email ref msg s =
     (if queue_len s \<ge> mailQueueDepth then
        auditAppend E C io (audit_row ''mail.send_failed'' email ref [(''transport'', DStr (Name sd)), (''error'', DStr ''mail queue full'')]) s
      else s\<lparr>sv_jobs := sv_jobs s @ [JReveal False sd email ref msg]\<rparr>)"

definition deliverRevealMail ::
  "'a pub_env_scheme \<Rightarrow> config \<Rightarrow> io \<Rightarrow> string \<Rightarrow> string \<Rightarrow> token \<Rightarrow> message \<Rightarrow> server \<Rightarrow> sender \<times> string \<times> server" where
  "deliverRevealMail E C io owner email tok msg s =
     (let sd = sv_sender s
      in if sd = CaptureSender then
           let (i, st) = CaptureFor (io_time io ''capture'') owner (m_To msg) (m_Subject msg) (String_of (pb_qenc E) msg) (sv_mail s)
           in (sd, i, s\<lparr>sv_mail := st\<rparr>)
         else (sd, [], sendRevealMail E C io sd email (tokenRef E (tk_Token tok)) msg s))"

section \<open>\<open>POST /api/v1/request\<close>\<close>

definition requestLatencyJitter :: duration where "requestLatencyJitter = 50 * millisecond"

text \<open>\<open>binary.LittleEndian.Uint64\<close> of the bytes read, and \<open>randomDuration\<close>; \<open>None\<close> when \<open>rand.Read\<close> fails.\<close>

definition le_uint64 :: "string \<Rightarrow> int" where
  "le_uint64 bs = foldr (\<lambda>c n. int (byte c) + 256 * n) (take 8 bs) 0"

definition randomDuration :: "duration \<Rightarrow> string option \<Rightarrow> duration" where
  "randomDuration limit rnd = (if limit \<le> 0 then 0 else case rnd of None \<Rightarrow> 0 | Some bs \<Rightarrow> le_uint64 bs mod limit)"

text \<open>\<open>padRequestLatency\<close>: when it returns if it is called at \<open>now\<close>. \<open>io_gone\<close> is when the client goes away, if it does.\<close>

definition padRequestLatency :: "config \<Rightarrow> io \<Rightarrow> time \<Rightarrow> time \<Rightarrow> time" where
  "padRequestLatency C io start now =
     (if cf_requestFloor C \<le> 0 then now
      else
        let wait = cf_requestFloor C + randomDuration requestLatencyJitter (io_rand io ''jitter'') - (now - start)
        in if wait \<le> 0 then now
           else case io_gone io of None \<Rightarrow> now + wait | Some t \<Rightarrow> min (now + wait) (max now t))"

fun trim_slashes :: "string \<Rightarrow> string" where
  "trim_slashes s = rev (dropWhile (\<lambda>c. c = CHR ''/'') (rev s))"

definition reveal_url :: "config \<Rightarrow> token \<Rightarrow> string" where
  "reveal_url C tok = trim_slashes (cf_BaseURL C) @ ''/reveal/'' @ tk_Token tok"

definition error_response :: "string option \<Rightarrow> nat \<times> string \<Rightarrow> response" where
  "error_response cookie e = \<lparr>re_status = fst e, re_cookie = cookie, re_retryAfter = None, re_body = BError (snd e), re_sent = None\<rparr>"

definition writeAcceptedResponse :: "config \<Rightarrow> io \<Rightarrow> time \<Rightarrow> string option \<Rightarrow> (string \<times> string) list \<Rightarrow> response" where
  "writeAcceptedResponse C io start cookie extra =
     (let sent = padRequestLatency C io start (io_time io ''pad'')
      in \<lparr>re_status = 202, re_cookie = cookie, re_retryAfter = None, re_body = BAccepted ((''status'', ''accepted'') # extra), re_sent = Some sent\<rparr>)"

text \<open>The part of \<open>handleRequest\<close> after the payload is accepted: the extras of the response, and the new state.\<close>

definition process_request :: "'a pub_env_scheme \<Rightarrow> config \<Rightarrow> io \<Rightarrow> string \<Rightarrow> publicRequest \<Rightarrow> server \<Rightarrow> (string \<times> string) list \<times> server" where
  "process_request E C io owner pr s =
     (let (ok, s) = admitRequest E C io pr s
      in if \<not> ok then ([], s)
      else case issueRequestToken E C io pr s of
        (None, s) \<Rightarrow> ([], s)
      | (Some tok, s) \<Rightarrow>
          (case buildRevealMessage E C io tok (reveal_url C tok) of
             None \<Rightarrow> ([], s)
           | Some msg \<Rightarrow>
               let (sd, captureID, s) = deliverRevealMail E C io owner (pr_email pr) tok msg s;
                   s = auditAppend E C io (audit_row ''token.issued'' (pr_email pr) (tokenRef E (tk_Token tok))
                     [(''ip_hash'', DStr (pr_ipHash pr)), (''ua_hash'', DStr (pr_uaHash pr)), (''domain'', DStr (tk_Domain tok)),
                      (''transport'', DStr (Name sd))]) s
               in (if cf_Eval C \<and> captureID \<noteq> [] then [(''capture'', captureID), (''debug_reveal_url'', reveal_url C tok)] else [], s)))"

definition handleRequest :: "'a pub_env_scheme \<Rightarrow> config \<Rightarrow> io \<Rightarrow> request \<Rightarrow> server \<Rightarrow> response \<times> server" where
  "handleRequest E C io r s =
     (if \<not> isJSONContentType E (rq_ContentType r) then (error_response None (415, ''unsupported_media_type''), s)
      else
        let start = io_time io ''start'';
            (owner, cookie) = demoCaptureHandle E (cf_Demo C) (rq_Cookie r) (io_rand io ''cookie'')
        in case readRequestEmail E r s of
             Inl e \<Rightarrow> (error_response cookie e, s)
           | Inr email \<Rightarrow>
               let (extra, s) = process_request E C io owner (newPublicRequest E r email) s
               in (writeAcceptedResponse C io start cookie extra, s))"

section \<open>Redeeming a link\<close>

definition maxPolicyBodyBytes :: nat where "maxPolicyBodyBytes = 1024"

definition readConsumeToken :: "'a pub_env_scheme \<Rightarrow> request \<Rightarrow> server \<Rightarrow> (nat \<times> string) + string" where
  "readConsumeToken E r s =
     (if pb_media E (rq_ContentType r) \<noteq> Some ''application/json'' then Inl (415, ''unsupported_media_type'')
      else case pb_decToken E maxPolicyBodyBytes (rq_Body r) of
        None \<Rightarrow> Inl (400, ''invalid_payload'')
      | Some p \<Rightarrow>
          let tokenParam = TrimSpace p
          in if tokenParam = [] then Inl (400, ''token_required'')
             else if sv_tokens s = None then Inl (503, ''storage_unavailable'') else Inr tokenParam)"

text \<open>\<open>allowTokenLookup\<close>; a refusal carries the seconds of \<open>Retry-After\<close>. \<open>Inspect\<close> prunes the bucket it reads.\<close>

definition retry_seconds :: "time option \<Rightarrow> time \<Rightarrow> int" where
  "retry_seconds resetAt now = (case resetAt of None \<Rightarrow> 1 | Some t \<Rightarrow> max 1 (- ((now - t) div second)))"

definition allowTokenLookup :: "'a pub_env_scheme \<Rightarrow> io \<Rightarrow> string \<Rightarrow> server \<Rightarrow> int option \<times> server" where
  "allowTokenLookup E io ip s =
     (let key = rateLimitIPKey E ip; (ok, l) = Allow (io_time io ''lookup'') key (sv_tokenLimiter s)
      in if ok then (None, s\<lparr>sv_tokenLimiter := l\<rparr>)
         else let ((_, _, resetAt), l) = Inspect (io_time io ''lookup.inspect'') key l
              in (Some (retry_seconds resetAt (io_time io ''lookup.until'')), s\<lparr>sv_tokenLimiter := l\<rparr>))"

definition policyDescriptor :: "'a pub_env_scheme \<Rightarrow> policy \<Rightarrow> descriptor option" where
  "policyDescriptor E row =
     (if p_Params row = [] then Some (RowDescriptor row (JObj []))
      else case pv_dec (pb_pol E) (p_Params row) of None \<Rightarrow> None | Some params \<Rightarrow> Some (RowDescriptor row params))"

definition resolvedPolicy :: "'a pub_env_scheme \<Rightarrow> config \<Rightarrow> io \<Rightarrow> string \<Rightarrow> string \<Rightarrow> catalog \<Rightarrow> descriptor option" where
  "resolvedPolicy E C io call email db =
     (if \<not> cf_policies C then Some DefaultDescriptor
      else case ResolveIssued (pb_U E) True True (io_resolve io call) email db of
        Inl e \<Rightarrow>
          if e = ErrNoPolicy then
            (case Policies.Count (io_fail io (call @ ''.count'')) db of
               Inl _ \<Rightarrow> None | Inr n \<Rightarrow> if n = 0 then Some DefaultDescriptor else None)
          else None
      | Inr row \<Rightarrow> if ValidateForReveal (pb_pol E) row \<noteq> None then None else policyDescriptor E row)"

text \<open>\<open>resolveBeforeConsume\<close>: \<open>Inl\<close> an error, \<open>Inr None\<close> when the token could not be read.\<close>

definition resolveBeforeConsume :: "'a pub_env_scheme \<Rightarrow> config \<Rightarrow> io \<Rightarrow> string \<Rightarrow> server \<Rightarrow> unit + descriptor option" where
  "resolveBeforeConsume E C io tok s =
     (case Tokens.Get (ke_sha E) (io_fail io ''tokens.get'') tok (the (sv_tokens s)) of
        Inl _ \<Rightarrow> Inr None
      | Inr pending \<Rightarrow>
          (case resolvedPolicy E C io ''before'' (tk_Email pending) (sv_catalog s) of None \<Rightarrow> Inl () | Some d \<Rightarrow> Inr (Some d)))"

definition allowUnknownAttemptAudit :: "'a pub_env_scheme \<Rightarrow> io \<Rightarrow> string \<Rightarrow> server \<Rightarrow> bool \<times> server" where
  "allowUnknownAttemptAudit E io ip s =
     (let (ok, l) = Allow (io_time io ''probe'') (rateLimitIPKey E ip) (sv_probeLimiter s) in (ok, s\<lparr>sv_probeLimiter := l\<rparr>))"

text \<open>\<open>openAttemptEvents\<close>: the event and the page state of a refused opening.\<close>

definition openAttemptEvents :: "tok_err \<Rightarrow> (string \<times> string) option" where
  "openAttemptEvents e = (case e of tok_err.ErrConsumed \<Rightarrow> Some (''token.reuse_attempt'', ''consumed'')
     | tok_err.ErrExpired \<Rightarrow> Some (''token.expired_attempt'', ''expired'')
     | tok_err.ErrNotFound \<Rightarrow> Some (''token.unknown_attempt'', ''unknown'') | _ \<Rightarrow> None)"

definition auditOpenAttempt ::
  "'a pub_env_scheme \<Rightarrow> config \<Rightarrow> io \<Rightarrow> request \<Rightarrow> string \<Rightarrow> string \<Rightarrow> token option \<Rightarrow> tok_err \<Rightarrow> server \<Rightarrow> server" where
  "auditOpenAttempt E C io r surface token tok e s =
     (case openAttemptEvents e of
        None \<Rightarrow> s
      | Some (event, _) \<Rightarrow>
          let ip = clientIP E (rq_RemoteAddr r) (rq_XFF r);
              (ok, s) = (if e = tok_err.ErrNotFound then allowUnknownAttemptAudit E io ip s else (True, s));
              domain = (case tok of None \<Rightarrow> [] | Some t \<Rightarrow> tk_Domain t)
          in if \<not> ok then s
             else auditAppend E C io (audit_row event (case tok of None \<Rightarrow> [] | Some t \<Rightarrow> tk_Email t) (tokenRef E token)
                    ([(''surface'', DStr surface), (''ip_hash'', DStr (hashShort E ip)), (''ua_hash'', DStr (hashShort E (rq_UserAgent r)))]
                     @ (if domain \<noteq> [] then [(''domain'', DStr domain)] else []))) s)"

definition writeConsumeError :: "tok_err \<Rightarrow> nat \<times> string" where
  "writeConsumeError e = (case e of tok_err.ErrNotFound \<Rightarrow> (404, ''token_not_found'') | tok_err.ErrExpired \<Rightarrow> (410, ''token_expired'')
     | tok_err.ErrConsumed \<Rightarrow> (410, ''token_consumed'') | _ \<Rightarrow> (500, ''internal''))"

definition auditTokenConsumed ::
  "'a pub_env_scheme \<Rightarrow> config \<Rightarrow> io \<Rightarrow> token \<Rightarrow> descriptor \<Rightarrow> string \<Rightarrow> string \<Rightarrow> server \<Rightarrow> server" where
  "auditTokenConsumed E C io tok d ipHash uaHash s =
     auditAppend E C io (audit_row ''token.consumed'' (tk_Email tok) (tokenRef E (tk_Token tok))
       [(''ip_hash'', DStr ipHash), (''ua_hash'', DStr uaHash), (''domain'', DStr (tk_Domain tok)),
        (''policy_sha256'', DStr (pb_fingerprint E d)),
        (''policy_id'', case d of DefaultDescriptor \<Rightarrow> DStr ''builtin_default'' | RowDescriptor p _ \<Rightarrow> DInt (p_ID p))]) s"

section \<open>The notice after a consultation\<close>

definition shouldNotifyPostConsult :: "'a pub_env_scheme \<Rightarrow> config \<Rightarrow> io \<Rightarrow> string \<Rightarrow> catalog \<Rightarrow> bool" where
  "shouldNotifyPostConsult E C io email db =
     (if \<not> cf_policies C \<or> \<not> cf_mailTpls C then False
      else case ResolveIssued (pb_U E) True True (io_resolve io ''notify'') email db of
        Inl _ \<Rightarrow> False | Inr pol \<Rightarrow> p_NotifyOnConsult pol)"

definition maxMailUALen :: nat where "maxMailUALen = 200"

fun display_loop :: "(rune \<Rightarrow> bool) \<Rightarrow> nat \<Rightarrow> nat \<Rightarrow> rune list \<Rightarrow> rune list" where
  "display_loop isCtl maxRunes n [] = []"
| "display_loop isCtl maxRunes n (c # cs) =
     (if isCtl c then display_loop isCtl maxRunes n cs
      else if n = maxRunes then [0x2026] else c # display_loop isCtl maxRunes (n + 1) cs)"

definition mailDisplayText :: "(rune \<Rightarrow> bool) \<Rightarrow> string \<Rightarrow> nat \<Rightarrow> string" where
  "mailDisplayText isCtl v maxRunes = of_runes (display_loop isCtl maxRunes 0 (runes v))"

definition queuePostConsult :: "'a pub_env_scheme \<Rightarrow> config \<Rightarrow> io \<Rightarrow> postConsultMail \<Rightarrow> server \<Rightarrow> server" where
  "queuePostConsult E C io m s =
     (if slots_used s \<ge> mailWorkers then
        auditAppend E C io (audit_row ''mail.post_consult_failed'' (pc_email m) (tokenRef E (pc_token m))
          [(''stage'', DStr ''queue''), (''error'', DStr ''mail queue full'')]) s
      else s\<lparr>sv_jobs := sv_jobs s @ [JPost m]\<rparr>)"

definition notifyPostConsult :: "'a pub_env_scheme \<Rightarrow> config \<Rightarrow> io \<Rightarrow> request \<Rightarrow> token \<Rightarrow> server \<Rightarrow> server" where
  "notifyPostConsult E C io r tok s =
     (if \<not> shouldNotifyPostConsult E C io (tk_Email tok) (sv_catalog s) then s
      else queuePostConsult E C io
        \<lparr>pc_token = tk_Token tok, pc_email = tk_Email tok, pc_lang = mailLanguage C, pc_consumed = io_time io ''notify'',
         pc_ip = clientIP E (rq_RemoteAddr r) (rq_XFF r), pc_ua = mailDisplayText (pb_control E) (rq_UserAgent r) maxMailUALen\<rparr> s)"

section \<open>\<open>POST /api/v1/policy\<close> and the reveal page\<close>

definition serve_policy :: "descriptor \<Rightarrow> token \<Rightarrow> response" where
  "serve_policy d tok = \<lparr>re_status = 200, re_cookie = None, re_retryAfter = None, re_body = BPolicy d (tk_ExpiresAt tok) (tk_IssuedAt tok), re_sent = None\<rparr>"

text \<open>The part of \<open>handlePolicyConsume\<close> after the lookup was admitted.\<close>

definition consume_request :: "'a pub_env_scheme \<Rightarrow> config \<Rightarrow> io \<Rightarrow> request \<Rightarrow> string \<Rightarrow> string \<Rightarrow> server \<Rightarrow> response \<times> server" where
  "consume_request E C io r tokenParam ip s =
     (let ipHash = hashShort E ip; uaHash = hashShort E (rq_UserAgent r)
      in case resolveBeforeConsume E C io tokenParam s of
        Inl _ \<Rightarrow> (error_response None (503, ''policy_unavailable''), s)
      | Inr resolved \<Rightarrow>
          (case Tokens.Consume (ke_sha E) (io_consume io) (io_time io ''consume'') tokenParam ipHash uaHash (the (sv_tokens s)) of
             (Inl (row, e), db) \<Rightarrow>
               (error_response None (writeConsumeError e),
                auditOpenAttempt E C io r ''policy_api'' tokenParam row e (s\<lparr>sv_tokens := Some db\<rparr>))
           | (Inr tok, db) \<Rightarrow>
               let s = s\<lparr>sv_tokens := Some db\<rparr>;
                   resolved = (case resolved of None \<Rightarrow> resolvedPolicy E C io ''after'' (tk_Email tok) (sv_catalog s) | Some d \<Rightarrow> Some d)
               in (case resolved of
                     None \<Rightarrow> (error_response None (503, ''policy_unavailable''), s)
                   | Some d \<Rightarrow> (serve_policy d tok,
                        notifyPostConsult E C io r tok (auditTokenConsumed E C io tok d ipHash uaHash s)))))"

definition handlePolicyConsume :: "'a pub_env_scheme \<Rightarrow> config \<Rightarrow> io \<Rightarrow> request \<Rightarrow> server \<Rightarrow> response \<times> server" where
  "handlePolicyConsume E C io r s =
     (case readConsumeToken E r s of
        Inl e \<Rightarrow> (error_response None e, s)
      | Inr tokenParam \<Rightarrow>
          let ip = clientIP E (rq_RemoteAddr r) (rq_XFF r); (refused, s) = allowTokenLookup E io ip s
          in case refused of
               Some retry \<Rightarrow> ((error_response None (429, ''rate_limited''))\<lparr>re_retryAfter := Some retry\<rparr>, s)
             | None \<Rightarrow> consume_request E C io r tokenParam ip s)"

definition previewRevealToken :: "'a pub_env_scheme \<Rightarrow> config \<Rightarrow> io \<Rightarrow> request \<Rightarrow> string \<Rightarrow> server \<Rightarrow> string \<times> server" where
  "previewRevealToken E C io r token s =
     (case sv_tokens s of
        None \<Rightarrow> (''ready'', s)
      | Some db \<Rightarrow>
          let (row, err) = (case Tokens.Get (ke_sha E) (io_fail io ''tokens.get'') token db of
                 Inl e \<Rightarrow> (None, Some e)
               | Inr tok \<Rightarrow> (Some tok, if tk_ConsumedAt tok \<noteq> None then Some tok_err.ErrConsumed
                                        else if \<not> io_time io ''preview'' < tk_ExpiresAt tok then Some tok_err.ErrExpired else None))
          in case err of
               None \<Rightarrow> (''ready'', s)
             | Some e \<Rightarrow>
                 (case openAttemptEvents e of
                    None \<Rightarrow> (''ready'', s)
                  | Some (_, state) \<Rightarrow> (state, auditOpenAttempt E C io r ''reveal_page'' token row e s)))"

definition handleRevealPage :: "'a pub_env_scheme \<Rightarrow> config \<Rightarrow> io \<Rightarrow> request \<Rightarrow> string \<Rightarrow> server \<Rightarrow> response \<times> server" where
  "handleRevealPage E C io r token s =
     (let (refused, s) = allowTokenLookup E io (clientIP E (rq_RemoteAddr r) (rq_XFF r)) s
      in case refused of
           Some retry \<Rightarrow> (\<lparr>re_status = 429, re_cookie = None, re_retryAfter = Some retry, re_body = BPage ''rate_limited'', re_sent = None\<rparr>, s)
         | None \<Rightarrow> (let (state, s) = previewRevealToken E C io r token s
                    in (\<lparr>re_status = 200, re_cookie = None, re_retryAfter = None, re_body = BPage state, re_sent = None\<rparr>, s)))"

section \<open>Background mail\<close>

text \<open>A waiting reveal mail takes a free worker; a running one ends with what the sender returned (\<open>None\<close> for success).\<close>

definition start_mail :: "nat \<Rightarrow> server \<Rightarrow> server" where
  "start_mail i s =
     (if i < length (sv_jobs s) \<and> slots_used s < mailWorkers then
        (case sv_jobs s ! i of JReveal False sd email ref msg \<Rightarrow> s\<lparr>sv_jobs := (sv_jobs s)[i := JReveal True sd email ref msg]\<rparr> | _ \<Rightarrow> s)
      else s)"

definition drop_job :: "nat \<Rightarrow> server \<Rightarrow> server" where
  "drop_job i s = s\<lparr>sv_jobs := take i (sv_jobs s) @ drop (i + 1) (sv_jobs s)\<rparr>"

definition finish_reveal :: "'a pub_env_scheme \<Rightarrow> config \<Rightarrow> io \<Rightarrow> sender \<Rightarrow> string \<Rightarrow> string \<Rightarrow> string option \<Rightarrow> server \<Rightarrow> server" where
  "finish_reveal E C io sd email ref err s =
     (case (if sd = NopSender then None else err) of
        None \<Rightarrow> s
      | Some e \<Rightarrow> auditAppend E C io (audit_row ''mail.send_failed'' email ref [(''transport'', DStr (Name sd)), (''error'', DStr e)]) s)"

definition post_failed :: "'a pub_env_scheme \<Rightarrow> config \<Rightarrow> io \<Rightarrow> postConsultMail \<Rightarrow> (string \<times> detail) list \<Rightarrow> server \<Rightarrow> server" where
  "post_failed E C io m details s =
     auditAppend E C io (audit_row ''mail.post_consult_failed'' (pc_email m) (tokenRef E (pc_token m)) details) s"

text \<open>\<open>dispatchPostConsult\<close>; \<open>errs\<close> are the error texts of rendering and assembling. A capturing sender stores the notice unowned.\<close>

definition dispatchPostConsult ::
  "'a pub_env_scheme \<Rightarrow> config \<Rightarrow> io \<Rightarrow> postConsultMail \<Rightarrow> string \<Rightarrow> string option \<Rightarrow> server \<Rightarrow> server" where
  "dispatchPostConsult E C io m errtext err s =
     (case pb_notice E m of
        None \<Rightarrow> post_failed E C io m [(''stage'', DStr ''render''), (''error'', DStr errtext)] s
      | Some rd \<Rightarrow>
          (case assemble_mail E C io (pc_email m) rd of
             Inl _ \<Rightarrow> post_failed E C io m [(''stage'', DStr ''assemble''), (''error'', DStr errtext)] s
           | Inr msg \<Rightarrow>
               let sd = sv_sender s;
                   s = (if sd = CaptureSender
                        then s\<lparr>sv_mail := snd (Capture (io_time io ''capture'') (m_To msg) (m_Subject msg) (String_of (pb_qenc E) msg) (sv_mail s))\<rparr>
                        else s)
               in (case (if sd = SMTPSender then err else None) of
                     Some e \<Rightarrow> post_failed E C io m [(''stage'', DStr ''send''), (''transport'', DStr (Name sd)), (''error'', DStr e)] s
                   | None \<Rightarrow> auditAppend E C io (audit_row ''mail.post_consult_sent'' (pc_email m) (tokenRef E (pc_token m))
                       [(''transport'', DStr (Name sd))]) s)))"

definition finish_mail :: "'a pub_env_scheme \<Rightarrow> config \<Rightarrow> io \<Rightarrow> nat \<Rightarrow> string \<Rightarrow> string option \<Rightarrow> server \<Rightarrow> server" where
  "finish_mail E C io i errtext err s =
     (if \<not> i < length (sv_jobs s) then s
      else case sv_jobs s ! i of
        JReveal running sd email ref _ \<Rightarrow> if running then drop_job i (finish_reveal E C io sd email ref err s) else s
      | JPost m \<Rightarrow> drop_job i (dispatchPostConsult E C io m errtext err s))"

end
