(* ===== verification/Public_Safety.thy ===== *)
theory Public_Safety
  imports Public_Flow
begin

text \<open>
  What the public handlers guarantee. First what each step leaves alone (frames), then what a request and a redemption can do to
  the token table, then the whole server as a machine over \<open>pub_cmd\<close> (requests, redemptions, previews, background mail,
  sweeps and administrative changes), with the log of issued tokens bounded by the limiter and the mail queue bounded by its depth.
\<close>

section \<open>What the helpers leave alone\<close>

lemma auditAppend_frame [simp]:
  "sv_catalog (auditAppend E C io c s) = sv_catalog s" "sv_tokens (auditAppend E C io c s) = sv_tokens s"
  "sv_limiter (auditAppend E C io c s) = sv_limiter s" "sv_tokenLimiter (auditAppend E C io c s) = sv_tokenLimiter s"
  "sv_probeLimiter (auditAppend E C io c s) = sv_probeLimiter s" "sv_rateAudit (auditAppend E C io c s) = sv_rateAudit s"
  "sv_sender (auditAppend E C io c s) = sv_sender s" "sv_mail (auditAppend E C io c s) = sv_mail s"
  "sv_jobs (auditAppend E C io c s) = sv_jobs s"
  by (auto simp: auditAppend_def split: option.split prod.split sum.split)

lemma append_all_frame [simp]:
  "sv_catalog (append_all E C io cs s) = sv_catalog s \<and> sv_tokens (append_all E C io cs s) = sv_tokens s
   \<and> sv_limiter (append_all E C io cs s) = sv_limiter s \<and> sv_jobs (append_all E C io cs s) = sv_jobs s"
  by (induction cs arbitrary: s) simp_all

definition rate_check :: "'a pub_env_scheme \<Rightarrow> io \<Rightarrow> publicRequest \<Rightarrow> limiter composite \<Rightarrow> decision \<times> limiter composite" where
  "rate_check E io pr c = Check (io_time io ''ip.inspect'') (io_time io ''email.inspect'') (io_time io ''ip.allow'') (io_time io ''email.allow'')
     id id id (rateLimitKey (pr_email pr)) (rateLimitIPKey E (pr_ip pr)) c"

lemma rate_gate_frame:
  assumes "requestRateGate E C io pr s = (ok, s')"
  shows "sv_catalog s' = sv_catalog s \<and> sv_tokens s' = sv_tokens s \<and> sv_jobs s' = sv_jobs s \<and> (ok \<longrightarrow> sv_audit s' = sv_audit s)
    \<and> sv_limiter s' = snd (rate_check E io pr (sv_limiter s))
    \<and> ok = Allowed (fst (rate_check E io pr (sv_limiter s)))"
  using assms by (auto simp: requestRateGate_def rate_check_def [symmetric] Let_def case_prod_beta split: if_splits)

lemma domain_gate_frame:
  assumes "requestDomainGate E C io pr s = (ok, s')"
  shows "sv_catalog s' = sv_catalog s \<and> sv_tokens s' = sv_tokens s \<and> sv_limiter s' = sv_limiter s \<and> sv_jobs s' = sv_jobs s
    \<and> (ok \<longrightarrow> s' = s \<and> (cf_domains C \<longrightarrow> Allows (pb_U E) (cf_Eval C \<or> cf_Demo C) (io_fail io ''domains.count'') (io_domain io) (pr_domain pr)
        (db_domains (sv_catalog s)) = Inr True))"
  using assms by (auto simp: requestDomainGate_def Let_def split: if_splits sum.splits)

lemma policy_gate_frame:
  assumes "requestPolicyGate E C io pr s = (ok, s')"
  shows "sv_catalog s' = sv_catalog s \<and> sv_tokens s' = sv_tokens s \<and> sv_limiter s' = sv_limiter s \<and> sv_jobs s' = sv_jobs s
    \<and> (ok \<longrightarrow> s' = s \<and> (cf_policies C \<and> t_rows (db_policies (sv_catalog s)) \<noteq> [] \<longrightarrow>
        (\<exists>p. Resolve (pb_U E) True True (io_resolve io ''request'') (pr_email pr) (sv_catalog s) = Inr p)))"
  using assms by (auto simp: requestPolicyGate_def Policies.Count_def split: if_splits sum.splits)

text \<open>The three gates together.\<close>

definition gates :: "'a pub_env_scheme \<Rightarrow> config \<Rightarrow> io \<Rightarrow> publicRequest \<Rightarrow> server \<Rightarrow> bool" where
  "gates E C io pr s \<longleftrightarrow>
     Allowed (fst (rate_check E io pr (sv_limiter s)))
     \<and> (cf_domains C \<longrightarrow> Allows (pb_U E) (cf_Eval C \<or> cf_Demo C) (io_fail io ''domains.count'') (io_domain io) (pr_domain pr)
        (db_domains (sv_catalog s)) = Inr True)
     \<and> (cf_policies C \<and> t_rows (db_policies (sv_catalog s)) \<noteq> [] \<longrightarrow>
        (\<exists>p. Resolve (pb_U E) True True (io_resolve io ''request'') (pr_email pr) (sv_catalog s) = Inr p))"

lemma admit_frame:
  assumes "admitRequest E C io pr s = (ok, s')"
  shows "sv_catalog s' = sv_catalog s \<and> sv_tokens s' = sv_tokens s \<and> sv_jobs s' = sv_jobs s
    \<and> sv_limiter s' = snd (rate_check E io pr (sv_limiter s))
    \<and> (ok \<longrightarrow> gates E C io pr s \<and> sv_audit s' = sv_audit s)"
proof -
  obtain ok1 s1 where 1: "requestRateGate E C io pr s = (ok1, s1)" by (cases "requestRateGate E C io pr s")
  obtain ok2 s2 where 2: "requestDomainGate E C io pr s1 = (ok2, s2)" by (cases "requestDomainGate E C io pr s1")
  obtain ok3 s3 where 3: "requestPolicyGate E C io pr s2 = (ok3, s3)" by (cases "requestPolicyGate E C io pr s2")
  note f = rate_gate_frame [OF 1] domain_gate_frame [OF 2] policy_gate_frame [OF 3]
  show ?thesis
  proof (cases "ok1 \<and> ok2")
    case True
    then have "ok3 = ok" "s3 = s'" using assms by (simp_all add: admitRequest_def 1 2 3)
    then show ?thesis using f True unfolding gates_def by simp
  next
    case False
    then have "\<not> ok" "s' = (if ok1 then s2 else s1)" using assms by (auto simp: admitRequest_def 1 2 3 split: if_splits)
    then show ?thesis using f by (simp split: if_splits)
  qed
qed

lemma deliver_frame:
  assumes "deliverRevealMail E C io owner email tok msg s = (sd, i, s')"
  shows "sv_catalog s' = sv_catalog s \<and> sv_tokens s' = sv_tokens s \<and> sv_limiter s' = sv_limiter s \<and> sd = sv_sender s
    \<and> (sv_jobs s' = sv_jobs s \<or> (queue_len s < mailQueueDepth \<and> (\<exists>ref. sv_jobs s' = sv_jobs s @ [JReveal False sd email ref msg])))"
  using assms by (auto simp: deliverRevealMail_def sendRevealMail_def Let_def split: prod.splits if_splits)

definition new_token :: "'a pub_env_scheme \<Rightarrow> io \<Rightarrow> publicRequest \<Rightarrow> tok_db \<Rightarrow> (tok_err + token) \<times> tok_db" where
  "new_token E io pr db = Issue (pb_U E) (ke_sha E) (io_fail io ''tokens.insert'') (io_rand io ''token'') (io_time io ''issue'')
     \<lparr>io_Email = pr_email pr, io_Domain = pr_domain pr, io_IPHash = pr_ipHash pr, io_UAHash = pr_uaHash pr, io_TTL = DefaultTTL\<rparr> db"

lemma Issue_effect:
  assumes "new_token E io pr db = (r, db')"
  shows "(\<exists>e. r = Inl e) \<and> db' = db
    \<or> (\<exists>tok row. r = Inr tok \<and> db' = db @ [row] \<and> r_hash row = hashToken (ke_sha E) (tk_Token tok) \<and> r_email row = ToLower (pb_U E) (pr_email pr)
        \<and> r_issued row = io_time io ''issue'' \<and> r_expires row = io_time io ''issue'' + DefaultTTL \<and> r_consumed row = None)"
  using assms by (auto simp: new_token_def Issue_def Let_def DefaultTTL_def split: if_splits option.splits)

lemma process_effect:
  assumes "process_request E C io owner pr s = (extra, s')" "sv_tokens s = Some db"
  shows "sv_catalog s' = sv_catalog s"
    "sv_limiter s' = snd (rate_check E io pr (sv_limiter s))"
    "sv_tokens s' = Some db \<or> gates E C io pr s \<and> (\<exists>tok. new_token E io pr db = (Inr tok, the (sv_tokens s')) \<and> sv_tokens s' \<noteq> None)"
    "\<not> cf_Eval C \<Longrightarrow> extra = []"
    "sv_jobs s' = sv_jobs s \<or> (queue_len s < mailQueueDepth \<and> (\<exists>sd email ref msg. sv_jobs s' = sv_jobs s @ [JReveal False sd email ref msg]))"
proof -
  obtain ok s1 where 1: "admitRequest E C io pr s = (ok, s1)" by (cases "admitRequest E C io pr s")
  note f1 = admit_frame [OF 1]
  have t1: "sv_tokens s1 = Some db" using f1 assms(2) by simp
  obtain ot s2 where 2: "issueRequestToken E C io pr s1 = (ot, s2)" by (cases "issueRequestToken E C io pr s1")
  obtain res db' where 3: "new_token E io pr db = (res, db')" by (cases "new_token E io pr db")
  have f2: "sv_catalog s2 = sv_catalog s1 \<and> sv_limiter s2 = sv_limiter s1 \<and> sv_jobs s2 = sv_jobs s1 \<and> sv_tokens s2 = Some db'
    \<and> (ot = None \<longrightarrow> db' = db) \<and> (\<forall>tok. ot = Some tok \<longrightarrow> res = Inr tok)"
    using 2 3 Issue_effect [OF 3] by (auto simp: issueRequestToken_def t1 new_token_def split: sum.splits prod.splits)
  have q: "queue_len s2 = queue_len s" using f1 f2 by (simp add: queue_len_def)
  have all: "sv_catalog s' = sv_catalog s \<and> sv_limiter s' = sv_limiter s1
    \<and> (sv_tokens s' = Some db \<or> ok \<and> (\<exists>tok. res = Inr tok) \<and> sv_tokens s' = Some db') \<and> (\<not> cf_Eval C \<longrightarrow> extra = [])
    \<and> (sv_jobs s' = sv_jobs s \<or> (queue_len s < mailQueueDepth \<and> (\<exists>sd email ref msg. sv_jobs s' = sv_jobs s @ [JReveal False sd email ref msg])))"
  proof (cases ot)
    case None
    then show ?thesis using assms(1) f1 f2 t1 1 2 by (auto simp: process_request_def split: if_splits)
  next
    case (Some tok)
    show ?thesis
    proof (cases "buildRevealMessage E C io tok (reveal_url C tok)")
      case None
      then show ?thesis using assms(1) f1 f2 t1 1 2 Some by (auto simp: process_request_def split: if_splits)
    next
      case msg: (Some msg)
      obtain sd i s3 where 4: "deliverRevealMail E C io owner (pr_email pr) tok msg s2 = (sd, i, s3)"
        by (cases "deliverRevealMail E C io owner (pr_email pr) tok msg s2") auto
      show ?thesis using assms(1) f1 f2 t1 1 2 Some msg 4 deliver_frame [OF 4] q by (auto simp: process_request_def split: if_splits)
    qed
  qed
  show "sv_catalog s' = sv_catalog s" "\<not> cf_Eval C \<Longrightarrow> extra = []"
    "sv_jobs s' = sv_jobs s \<or> (queue_len s < mailQueueDepth \<and> (\<exists>sd email ref msg. sv_jobs s' = sv_jobs s @ [JReveal False sd email ref msg]))"
    using all by blast+
  show "sv_limiter s' = snd (rate_check E io pr (sv_limiter s))"
    using all f1 by simp
  show "sv_tokens s' = Some db \<or> gates E C io pr s \<and> (\<exists>tok. new_token E io pr db = (Inr tok, the (sv_tokens s')) \<and> sv_tokens s' \<noteq> None)"
    using all f1 3 by auto
qed

lemma handleRequest_effect:
  assumes "handleRequest E C io r s = (resp, s')"
  shows "s' = s \<or> (\<exists>email owner extra. readRequestEmail E r s = Inr email
    \<and> process_request E C io owner (newPublicRequest E r email) s = (extra, s'))"
  using assms by (auto simp: handleRequest_def Let_def split: if_splits sum.splits prod.splits)

lemma read_email_tokens: "readRequestEmail E r s = Inr email \<Longrightarrow> \<exists>db. sv_tokens s = Some db"
  by (auto simp: readRequestEmail_def split: option.splits if_splits sum.splits)

lemma read_email_status: "readRequestEmail E r s = Inl e \<Longrightarrow> fst e \<noteq> 202"
  by (auto simp: readRequestEmail_def split: option.splits if_splits sum.splits)

section \<open>Redemption\<close>

lemma lookup_frame:
  assumes "allowTokenLookup E io ip s = (x, s')"
  shows "sv_catalog s' = sv_catalog s \<and> sv_tokens s' = sv_tokens s \<and> sv_limiter s' = sv_limiter s \<and> sv_jobs s' = sv_jobs s
    \<and> sv_audit s' = sv_audit s"
  using assms by (auto simp: allowTokenLookup_def Let_def split: prod.splits if_splits)

lemma probe_frame:
  assumes "allowUnknownAttemptAudit E io ip s = (x, s')"
  shows "sv_catalog s' = sv_catalog s \<and> sv_tokens s' = sv_tokens s \<and> sv_limiter s' = sv_limiter s \<and> sv_jobs s' = sv_jobs s"
  using assms by (auto simp: allowUnknownAttemptAudit_def Let_def split: prod.splits)

lemma attempt_frame [simp]:
  "sv_catalog (auditOpenAttempt E C io r sf t row e s) = sv_catalog s" "sv_tokens (auditOpenAttempt E C io r sf t row e s) = sv_tokens s"
  "sv_limiter (auditOpenAttempt E C io r sf t row e s) = sv_limiter s" "sv_jobs (auditOpenAttempt E C io r sf t row e s) = sv_jobs s"
proof -
  obtain ok s1 where 1: "allowUnknownAttemptAudit E io (clientIP E (rq_RemoteAddr r) (rq_XFF r)) s = (ok, s1)"
    by (cases "allowUnknownAttemptAudit E io (clientIP E (rq_RemoteAddr r) (rq_XFF r)) s")
  note f = probe_frame [OF 1]
  show "sv_catalog (auditOpenAttempt E C io r sf t row e s) = sv_catalog s" "sv_tokens (auditOpenAttempt E C io r sf t row e s) = sv_tokens s"
    "sv_limiter (auditOpenAttempt E C io r sf t row e s) = sv_limiter s" "sv_jobs (auditOpenAttempt E C io r sf t row e s) = sv_jobs s"
    using f by (simp_all add: auditOpenAttempt_def Let_def 1 split: option.split)
qed

lemma notify_frame:
  "sv_catalog (notifyPostConsult E C io r tok s) = sv_catalog s \<and> sv_tokens (notifyPostConsult E C io r tok s) = sv_tokens s
   \<and> sv_limiter (notifyPostConsult E C io r tok s) = sv_limiter s
   \<and> (sv_jobs (notifyPostConsult E C io r tok s) = sv_jobs s
      \<or> (slots_used s < mailWorkers \<and> (\<exists>m. sv_jobs (notifyPostConsult E C io r tok s) = sv_jobs s @ [JPost m])))"
  by (auto simp: notifyPostConsult_def queuePostConsult_def)

lemmas notify_tokens [simp] = notify_frame [THEN conjunct2, THEN conjunct1]

text \<open>A token that \<open>Consume\<close> redeems was there to be read.\<close>

lemma Consume_read:
  assumes "Tokens.Consume sha fs now tok ip ua db = (Inr t, db')"
  shows "\<exists>pending. Tokens.Get sha False tok db = Inr pending \<and> tk_Email t = tk_Email pending"
proof -
  obtain row where row: "consume_select sha fs now tok db = Inr row" using assms by (auto simp: Consume_def split: sum.splits)
  have t: "tk_Email t = tk_Email row"
    using assms row by (auto simp: Consume_def consume_update_def Let_def split: if_splits prod.splits)
  obtain r where "row_of db (hashToken sha tok) = Some r" "row = scanRow tok r"
    using row by (auto simp: consume_select_def Let_def split: if_splits option.splits)
  then show ?thesis using t by (simp add: Tokens.Get_def)
qed

lemma Consume_fails_same: "Tokens.Consume sha fs now tok ip ua db = (Inl e, db') \<Longrightarrow> db' = db"
  by (auto simp: Consume_def consume_update_def Let_def split: sum.splits if_splits prod.splits)

lemma resolvedPolicy_cases:
  assumes "resolvedPolicy E C io call email db = Some d"
  shows "case d of DefaultDescriptor \<Rightarrow> \<not> cf_policies C \<or> t_rows (db_policies db) = []
    | RowDescriptor p _ \<Rightarrow> ResolveIssued (pb_U E) True True (io_resolve io call) email db = Inr p \<and> ValidateForReveal (pb_pol E) p = None"
  using assms
  by (auto simp: resolvedPolicy_def policyDescriptor_def Policies.Count_def split: if_splits sum.splits option.splits)

lemma consume_cases:
  assumes "consume_request E C io r tok ip s = (resp, s')" "sv_tokens s = Some db" "\<not> io_fail io ''tokens.get''"
  shows "(re_status resp \<noteq> 200 \<and> sv_tokens s' = Some db)
    \<or> (\<exists>t d db'. Tokens.Consume (ke_sha E) (io_consume io) (io_time io ''consume'') tok (hashShort E ip) (hashShort E (rq_UserAgent r)) db = (Inr t, db')
         \<and> sv_tokens s' = Some db' \<and> resp = serve_policy d t \<and> resolvedPolicy E C io ''before'' (tk_Email t) (sv_catalog s) = Some d)"
proof (cases "resolveBeforeConsume E C io tok s")
  case (Inl u)
  then show ?thesis using assms by (auto simp: consume_request_def error_response_def)
next
  case (Inr resolved)
  obtain res db' where c: "Tokens.Consume (ke_sha E) (io_consume io) (io_time io ''consume'') tok (hashShort E ip) (hashShort E (rq_UserAgent r)) db = (res, db')"
    by (cases "Tokens.Consume (ke_sha E) (io_consume io) (io_time io ''consume'') tok (hashShort E ip) (hashShort E (rq_UserAgent r)) db")
  show ?thesis
  proof (cases res)
    case (Inl x)
    obtain row e where x: "x = (row, e)" by (cases x)
    have "resp = error_response None (writeConsumeError e)" "sv_tokens s' = Some db'"
      using assms c Inl Inr x by (auto simp: consume_request_def Let_def)
    moreover have "re_status (error_response None (writeConsumeError e)) \<noteq> 200"
      by (simp add: error_response_def writeConsumeError_def split: tok_err.split)
    ultimately show ?thesis using Consume_fails_same [of "ke_sha E"] c Inl by blast
  next
    case t: (Inr t)
    obtain pending where g: "Tokens.Get (ke_sha E) False tok db = Inr pending" "tk_Email t = tk_Email pending"
      using Consume_read c t by blast
    then obtain d where d: "resolved = Some d" "resolvedPolicy E C io ''before'' (tk_Email t) (sv_catalog s) = Some d"
      using Inr assms(2,3) by (cases "resolvedPolicy E C io ''before'' (tk_Email t) (sv_catalog s)") (auto simp: resolveBeforeConsume_def)
    have "resp = serve_policy d t \<and> sv_tokens s' = Some db'"
      using assms c t Inr d by (auto simp: consume_request_def Let_def auditTokenConsumed_def)
    then show ?thesis using c t d(2) by blast
  qed
qed

section \<open>Runs\<close>

text \<open>Everything that reaches this state: requests, the background mail, the periodic sweep of the limiters and flush of throttled hits, and
  changes of the catalogue and of the sender by administrators, which are arbitrary here.\<close>

datatype pub_cmd =
    PRequest io request
  | PConsume io request
  | PReveal io request string
  | PStart nat
  | PFinish io nat string "string option"
  | PSweep time
  | PFlush io
  | PAdmin catalog sender

definition sweep_all :: "time \<Rightarrow> limiter composite \<Rightarrow> limiter composite" where
  "sweep_all now c = c\<lparr>c_email := map_option (\<lambda>l. snd (Sweep now l)) (c_email c), c_ip := map_option (\<lambda>l. snd (Sweep now l)) (c_ip c)\<rparr>"

fun pub_step :: "'a pub_env_scheme \<Rightarrow> config \<Rightarrow> pub_cmd \<Rightarrow> server \<Rightarrow> server" where
  "pub_step E C (PRequest io r) s = snd (handleRequest E C io r s)"
| "pub_step E C (PConsume io r) s = snd (handlePolicyConsume E C io r s)"
| "pub_step E C (PReveal io r t) s = snd (handleRevealPage E C io r t s)"
| "pub_step E C (PStart i) s = start_mail i s"
| "pub_step E C (PFinish io i et e) s = finish_mail E C io i et e s"
| "pub_step E C (PSweep now) s = s\<lparr>sv_limiter := sweep_all now (sv_limiter s), sv_tokenLimiter := snd (Sweep now (sv_tokenLimiter s)),
     sv_probeLimiter := snd (Sweep now (sv_probeLimiter s))\<rparr>"
| "pub_step E C (PFlush io) s = (let (rows, agg) = flushRateAudit (cf_limits C) (sv_rateAudit s) in append_all E C io rows (s\<lparr>sv_rateAudit := agg\<rparr>))"
| "pub_step E C (PAdmin cat sd) s = s\<lparr>sv_catalog := cat, sv_sender := sd\<rparr>"

lemma preview_frame:
  assumes "previewRevealToken E C io r t s = (st, s')"
  shows "sv_tokens s' = sv_tokens s \<and> sv_limiter s' = sv_limiter s \<and> sv_jobs s' = sv_jobs s"
  using assms by (auto simp: previewRevealToken_def Let_def split: option.splits prod.splits)

lemma dispatch_frame [simp]:
  "sv_tokens (dispatchPostConsult E C io m et e s) = sv_tokens s \<and> sv_limiter (dispatchPostConsult E C io m et e s) = sv_limiter s
   \<and> sv_jobs (dispatchPostConsult E C io m et e s) = sv_jobs s"
  by (auto simp: dispatchPostConsult_def post_failed_def Let_def split: option.split sum.split)

lemma finish_reveal_frame [simp]:
  "sv_tokens (finish_reveal E C io sd em ref e s) = sv_tokens s \<and> sv_limiter (finish_reveal E C io sd em ref e s) = sv_limiter s
   \<and> sv_jobs (finish_reveal E C io sd em ref e s) = sv_jobs s"
  by (auto simp: finish_reveal_def split: option.split)

lemma reveal_frame:
  "sv_tokens (snd (handleRevealPage E C io r t s)) = sv_tokens s \<and> sv_limiter (snd (handleRevealPage E C io r t s)) = sv_limiter s
   \<and> sv_jobs (snd (handleRevealPage E C io r t s)) = sv_jobs s"
proof -
  obtain x s1 where 1: "allowTokenLookup E io (clientIP E (rq_RemoteAddr r) (rq_XFF r)) s = (x, s1)"
    by (cases "allowTokenLookup E io (clientIP E (rq_RemoteAddr r) (rq_XFF r)) s")
  obtain st s2 where 2: "previewRevealToken E C io r t s1 = (st, s2)" by (cases "previewRevealToken E C io r t s1")
  show ?thesis using lookup_frame [OF 1] preview_frame [OF 2] by (simp add: handleRevealPage_def 1 2 split: option.split)
qed

lemma consume_states:
  assumes "consume_request E C io r tok ip s = (resp, s')"
  shows "s' = s \<or> (\<exists>row e db. s' = auditOpenAttempt E C io r ''policy_api'' tok row e (s\<lparr>sv_tokens := Some db\<rparr>)) \<or> (\<exists>db. s' = s\<lparr>sv_tokens := Some db\<rparr>)
    \<or> (\<exists>t d ih uh db. s' = notifyPostConsult E C io r t (auditTokenConsumed E C io t d ih uh (s\<lparr>sv_tokens := Some db\<rparr>)))"
  using assms by (simp add: consume_request_def Let_def split: sum.splits prod.splits option.splits) blast+

lemma consume_frame:
  assumes "handlePolicyConsume E C io r s = (resp, s')"
  shows "sv_limiter s' = sv_limiter s \<and> (sv_jobs s' = sv_jobs s \<or> (slots_used s < mailWorkers \<and> (\<exists>m. sv_jobs s' = sv_jobs s @ [JPost m])))"
proof (cases "readConsumeToken E r s")
  case (Inl e)
  then show ?thesis using assms by (simp add: handlePolicyConsume_def)
next
  case (Inr tok)
  let ?ip = "clientIP E (rq_RemoteAddr r) (rq_XFF r)"
  obtain x s1 where 1: "allowTokenLookup E io ?ip s = (x, s1)" by (cases "allowTokenLookup E io ?ip s")
  note f = lookup_frame [OF 1]
  show ?thesis
  proof (cases x)
    case (Some retry)
    then show ?thesis using assms f Inr 1 by (auto simp: handlePolicyConsume_def)
  next
    case None
    then have c: "consume_request E C io r tok ?ip s1 = (resp, s')" using assms Inr 1 by (simp add: handlePolicyConsume_def)
    have "sv_limiter s' = sv_limiter s1 \<and> (sv_jobs s' = sv_jobs s1 \<or> (slots_used s1 < mailWorkers \<and> (\<exists>m. sv_jobs s' = sv_jobs s1 @ [JPost m])))"
    proof -
      have n: "sv_limiter (notifyPostConsult E C io r t u) = sv_limiter s1
        \<and> (sv_jobs (notifyPostConsult E C io r t u) = sv_jobs s1
           \<or> (slots_used s1 < mailWorkers \<and> (\<exists>m. sv_jobs (notifyPostConsult E C io r t u) = sv_jobs s1 @ [JPost m])))"
        if "u = auditTokenConsumed E C io t d ih uh (s1\<lparr>sv_tokens := Some db\<rparr>)" for t d ih uh db u
        using notify_frame [of E C io r t u] that by (simp add: slots_used_def auditTokenConsumed_def)
      show ?thesis using consume_states [OF c] by (elim disjE exE) (simp_all add: n)
    qed
    then show ?thesis using f by (simp add: slots_used_def)
  qed
qed

section \<open>The e-mail limiter over a run\<close>

lemma lim_sim_later: "lim_sim T l lg \<Longrightarrow> T \<le> now \<Longrightarrow> lim_sim now l lg"
  by (rule lim_sim_prune) (auto simp: lim_sim_def)

definition mail_ok :: "int \<Rightarrow> time \<Rightarrow> limiter composite \<Rightarrow> event_log \<Rightarrow> bool" where
  "mail_ok cap T c lg \<longleftrightarrow> (\<exists>l. c_email c = Some l \<and> l_limit l = cap \<and> l_window l = hour \<and> lim_sim T l lg \<and> log_bounded cap hour lg)"

lemma Allow_keeps: "l_limit (snd (Allow n k l)) = l_limit l" "l_window (snd (Allow n k l)) = l_window l"
  by (simp_all add: Allow_def Let_def)

lemma mail_ok_allow:
  assumes "mail_ok cap T c lg" "T \<le> n" "0 < cap" "charge Allow n k (c_email c) = (ok, lo)"
  shows "mail_ok cap n (c\<lparr>c_email := lo\<rparr>) (if ok then lg @ [(n, k)] else lg)"
proof -
  obtain l where l: "c_email c = Some l" "l_limit l = cap" "l_window l = hour" "lim_sim T l lg" "log_bounded cap hour lg"
    using assms(1) by (auto simp: mail_ok_def)
  have a: "Allow n k l = (ok, the lo)" "lo = Some (the lo)" using assms(4) l(1) by (auto simp: charge_def split: prod.splits)
  have p: "0 < l_limit l" using l(2) assms(3) by simp
  note sim = Allow_sim [OF l(4) assms(2) p, of k]
  have keep: "l_limit (the lo) = cap" "l_window (the lo) = hour" using arg_cong [OF a(1), of snd] l(2,3) Allow_keeps [of n k l] by simp_all
  have le: "\<forall>e\<in>set lg. fst e \<le> n" using l(4) assms(2) by (force simp: lim_sim_def)
  have "log_bounded cap hour (if ok then lg @ [(n, k)] else lg)"
    using log_bounded_admit [OF l(5) le] sim(1) l a by (simp split: if_splits)
  then show ?thesis using sim(2) a keep unfolding mail_ok_def by (cases lo) auto
qed

lemma mail_ok_peek:
  assumes "mail_ok cap T c lg" "T \<le> n" "peek Inspect n k (c_email c) = (full, lo)"
  shows "mail_ok cap n (c\<lparr>c_email := lo\<rparr>) lg"
proof -
  obtain l where l: "c_email c = Some l" "l_limit l = cap" "l_window l = hour" "lim_sim T l lg" "log_bounded cap hour lg"
    using assms(1) by (auto simp: mail_ok_def)
  have a: "lo = Some (snd (Inspect n k l))" using assms(3) l(1) by (auto simp: peek_def split: prod.splits)
  have "l_limit (snd (Inspect n k l)) = cap" "l_window (snd (Inspect n k l)) = hour" using l by (simp_all add: Inspect_def Let_def)
  then show ?thesis using Inspect_sim [OF l(4) assms(2), of k] a l(5) by (simp add: mail_ok_def)
qed

lemma mail_ok_ip: "mail_ok cap T (c\<lparr>c_ip := x\<rparr>) lg = mail_ok cap T c lg"
  by (simp add: mail_ok_def)

lemma mail_ok_later: "mail_ok cap T c lg \<Longrightarrow> T \<le> n \<Longrightarrow> mail_ok cap n c lg"
  unfolding mail_ok_def using lim_sim_later by blast

text \<open>One check charges the e-mail limiter for the request it admits.\<close>

lemma mail_ok_check:
  assumes "mail_ok cap T c lg" "T \<le> n2" "n2 \<le> n4" "0 < cap" "email \<noteq> []" "Check n1 n2 n3 n4 id id id email ip c = (d, c')"
  shows "\<exists>lg'. mail_ok cap n4 c' lg' \<and> (lg' = lg @ [(n4, email)] \<or> lg' = lg \<and> \<not> Allowed d)"
proof -
  have on: "dim_on l_limit (c_email c) email" using assms(1,4,5) by (auto simp: mail_ok_def dim_on_def)
  define ipOn where "ipOn = dim_on l_limit (c_ip c) ip"
  obtain f1 l1 where p1: "(if ipOn then peek Inspect n1 ip (c_ip c) else (False, c_ip c)) = (f1, l1)" by (cases "if ipOn then peek Inspect n1 ip (c_ip c) else (False, c_ip c)") blast
  define c1 where "c1 = c\<lparr>c_ip := l1\<rparr>"
  have m1: "mail_ok cap T c1 lg" using assms(1) by (simp add: c1_def mail_ok_ip)
  obtain f2 l2 where p2: "peek Inspect n2 email (c_email c1) = (f2, l2)" by (cases "peek Inspect n2 email (c_email c1)")
  define c2 where "c2 = c1\<lparr>c_email := l2\<rparr>"
  have m2: "mail_ok cap n2 c2 lg" using mail_ok_peek [OF m1 assms(2) p2] by (simp add: c2_def)
  obtain f3 l3 where p3: "(if ipOn then charge Allow n3 ip (c_ip c2) else (True, c_ip c2)) = (f3, l3)" by (cases "if ipOn then charge Allow n3 ip (c_ip c2) else (True, c_ip c2)") blast
  define c3 where "c3 = c2\<lparr>c_ip := l3\<rparr>"
  have m3: "mail_ok cap n2 c3 lg" using m2 by (simp add: c3_def mail_ok_ip)
  obtain f4 l4 where p4: "charge Allow n4 email (c_email c3) = (f4, l4)" by (cases "charge Allow n4 email (c_email c3)")
  define c4 where "c4 = c3\<lparr>c_email := l4\<rparr>"
  have m4: "mail_ok cap n4 c4 (if f4 then lg @ [(n4, email)] else lg)"
    using mail_ok_allow [OF m3 assms(3,4) p4] by (simp add: c4_def)
  have "(d, c') = (if f1 then (\<lparr>Allowed = False, Reason = ''ip''\<rparr>, c1) else if f2 then (\<lparr>Allowed = False, Reason = ''email''\<rparr>, c2)
      else if \<not> f3 then (\<lparr>Allowed = False, Reason = ''ip''\<rparr>, c3) else if \<not> f4 then (\<lparr>Allowed = False, Reason = ''email''\<rparr>, c4)
      else (\<lparr>Allowed = True, Reason = []\<rparr>, c4))"
    using assms(6)
    unfolding Check_def Check_with_def Let_def on [THEN eqTrueI] ipOn_def [symmetric] p1 prod.case if_True id_apply c1_def [symmetric] p2
      c2_def [symmetric] p3 c3_def [symmetric] p4 c4_def [symmetric] by simp
  moreover have "mail_ok cap n4 c1 lg" "mail_ok cap n4 c2 lg" "mail_ok cap n4 c3 lg"
    using mail_ok_later [OF m1, of n4] mail_ok_later [OF m2, of n4] mail_ok_later [OF m3, of n4] assms(2,3) by auto
  ultimately show ?thesis using m4 by (auto split: if_splits)
qed


text \<open>The requests of a run that issued a token, with the time at which the e-mail limiter admitted them and the key it charged.\<close>

definition issued :: "server \<Rightarrow> server \<Rightarrow> bool" where
  "issued s s' \<longleftrightarrow> sv_tokens s' \<noteq> sv_tokens s"

fun charged_key :: "'a pub_env_scheme \<Rightarrow> request \<Rightarrow> server \<Rightarrow> string" where
  "charged_key E r s = (case readRequestEmail E r s of Inl _ \<Rightarrow> [] | Inr email \<Rightarrow> rateLimitKey email)"

fun issue_log :: "'a pub_env_scheme \<Rightarrow> config \<Rightarrow> pub_cmd list \<Rightarrow> server \<Rightarrow> event_log" where
  "issue_log E C [] s = []"
| "issue_log E C (PRequest io r # cs) s =
     (let s' = pub_step E C (PRequest io r) s
      in (if issued s s' then [(io_time io ''email.allow'', charged_key E r s)] else []) @ issue_log E C cs s')"
| "issue_log E C (c # cs) s = issue_log E C cs (pub_step E C c s)"

fun limiter_clock :: "pub_cmd \<Rightarrow> time list" where
  "limiter_clock (PRequest io r) = [io_time io ''email.inspect'', io_time io ''email.allow'']"
| "limiter_clock (PSweep now) = [now]"
| "limiter_clock _ = []"

lemma rateLimitKey_nonempty: "email \<noteq> [] \<Longrightarrow> rateLimitKey email \<noteq> []"
proof -
  have "LastIndexByte c s < int (length s)" for c s by (induction s) (auto simp: Let_def)
  from this [of "CHR ''@''" email]
  have "LastIndexByte CHR ''@'' email > 0 \<Longrightarrow> drop (nat (LastIndexByte CHR ''@'' email)) email \<noteq> []" by (simp add: not_le nat_less_iff)
  then show "email \<noteq> [] \<Longrightarrow> rateLimitKey email \<noteq> []" by (auto simp: rateLimitKey_def Let_def)
qed

lemma read_email_nonempty: "readRequestEmail E r s = Inr email \<Longrightarrow> email \<noteq> []"
  by (auto simp: readRequestEmail_def NormalizeAddress_def Let_def split: option.splits if_splits sum.splits)

lemma in_window_append: "in_window k a b (xs @ ys) = in_window k a b xs + in_window k a b ys"
  by (simp add: in_window_def)

text \<open>One command: the log of admitted e-mail checks grows by at least what was issued.\<close>

lemma mail_ok_request:
  assumes "mail_ok cap T (sv_limiter s) lg" "0 < cap" "T \<le> io_time io ''email.inspect''" "io_time io ''email.inspect'' \<le> io_time io ''email.allow''"
    "s' = pub_step E C (PRequest io r) s"
  shows "\<exists>new. mail_ok cap (io_time io ''email.allow'') (sv_limiter s') (lg @ new)
    \<and> (issued s s' \<longrightarrow> new = [(io_time io ''email.allow'', charged_key E r s)])"
proof -
  have T4: "T \<le> io_time io ''email.allow''" using assms(3,4) by simp
  obtain resp where h: "handleRequest E C io r s = (resp, s')" using assms(5) by (cases "handleRequest E C io r s") simp
  consider (same) "s' = s" | (run) email owner extra where "readRequestEmail E r s = Inr email"
      "process_request E C io owner (newPublicRequest E r email) s = (extra, s')"
    using handleRequest_effect [OF h] by blast
  then show ?thesis
  proof cases
    case same
    then show ?thesis using mail_ok_later [OF assms(1) T4] by (intro exI [of _ "[]"]) (simp add: issued_def)
  next
    case run
    let ?pr = "newPublicRequest E r email"
    obtain db where db: "sv_tokens s = Some db" using read_email_tokens [OF run(1)] by blast
    note eff = process_effect [OF run(2) db]
    obtain d c' where c: "rate_check E io ?pr (sv_limiter s) = (d, c')" by (cases "rate_check E io ?pr (sv_limiter s)")
    have k: "pr_email ?pr = email" by (simp add: newPublicRequest_def Let_def)
    obtain lg' where lg': "mail_ok cap (io_time io ''email.allow'') c' lg'"
        "lg' = lg @ [(io_time io ''email.allow'', rateLimitKey email)] \<or> lg' = lg \<and> \<not> Allowed d"
      using mail_ok_check [OF assms(1,3,4,2) rateLimitKey_nonempty [OF read_email_nonempty [OF run(1)]]] c
      unfolding rate_check_def k by blast
    have lim: "sv_limiter s' = c'" using eff(2) c by simp
    have iss: "issued s s' \<Longrightarrow> Allowed d" using eff(3) c db by (auto simp: issued_def gates_def)
    have key: "charged_key E r s = rateLimitKey email" using run(1) by simp
    show ?thesis
    proof (cases "lg' = lg")
      case True
      then show ?thesis using lg' lim iss by (intro exI [of _ "[]"]) auto
    next
      case False
      then show ?thesis using lg' lim key by (intro exI [of _ "[(io_time io ''email.allow'', rateLimitKey email)]"]) auto
    qed
  qed
qed

lemma mail_ok_other:
  assumes "mail_ok cap T (sv_limiter s) lg" "\<And>io r. c \<noteq> PRequest io r" "sorted (T # limiter_clock c)"
  shows "mail_ok cap (last (T # limiter_clock c)) (sv_limiter (pub_step E C c s)) lg"
proof (cases c)
  case (PConsume io r)
  then show ?thesis using assms(1) consume_frame [of E C io r s] by (cases "handlePolicyConsume E C io r s") simp
next
  case (PReveal io r t)
  then show ?thesis using assms(1) reveal_frame [of E C io r t s] by simp
next
  case (PStart i)
  then show ?thesis using assms(1) by (simp add: start_mail_def split: job.split bool.split)
next
  case (PFinish io i et e)
  then show ?thesis using assms(1) by (simp add: finish_mail_def drop_job_def split: job.split)
next
  case (PSweep now)
  obtain l where l: "c_email (sv_limiter s) = Some l" "l_limit l = cap" "l_window l = hour" "lim_sim T l lg" "log_bounded cap hour lg"
    using assms(1) by (auto simp: mail_ok_def)
  have "lim_sim now (snd (Sweep now l)) lg" using Sweep_sim [OF l(4)] assms(3) PSweep by simp
  moreover have "l_limit (snd (Sweep now l)) = cap" "l_window (snd (Sweep now l)) = hour" using l by (simp_all add: Sweep_def case_prod_beta)
  ultimately show ?thesis using l PSweep by (simp add: mail_ok_def sweep_all_def)
qed (use assms in \<open>auto simp: case_prod_beta\<close>)

lemma issue_bound:
  assumes "mail_ok cap T (sv_limiter s) lg" "0 < cap" "sorted (T # concat (map limiter_clock cs))"
    "\<And>k a b. in_window k a b ilog \<le> in_window k a b lg"
  shows "int (in_window k a (a + hour) (ilog @ issue_log E C cs s)) \<le> cap"
  using assms
proof (induction cs arbitrary: T s lg ilog)
  case Nil
  then have "int (in_window k a (a + hour) lg) \<le> cap" by (auto simp: mail_ok_def log_bounded_def)
  then show ?case using Nil.prems(4) [of k a "a + hour"] by simp
next
  case (Cons c cs)
  show ?case
  proof (cases "\<exists>io r. c = PRequest io r")
    case True
    then obtain io r where c: "c = PRequest io r" by blast
    let ?s = "pub_step E C (PRequest io r) s"
    obtain new where n: "mail_ok cap (io_time io ''email.allow'') (sv_limiter ?s) (lg @ new)"
        "issued s ?s \<longrightarrow> new = [(io_time io ''email.allow'', charged_key E r s)]"
      using mail_ok_request [OF Cons.prems(1,2), of io ?s E C r] Cons.prems(3) c by auto
    define add where "add = (if issued s ?s then [(io_time io ''email.allow'', charged_key E r s)] else [])"
    have "in_window k' a' b (ilog @ add) \<le> in_window k' a' b (lg @ new)" for k' a' b
      using Cons.prems(4) [of k' a' b] n(2) by (cases "issued s ?s") (simp_all add: in_window_append add_def in_window_def [of _ _ _ "[]"] del: pub_step.simps)
    then have "int (in_window k a (a + hour) ((ilog @ add) @ issue_log E C cs ?s)) \<le> cap"
      using Cons.IH [OF n(1) Cons.prems(2), of "ilog @ add"] Cons.prems(3) c by auto
    then show ?thesis using c by (simp add: add_def Let_def del: pub_step.simps)
  next
    case False
    then have st: "issue_log E C (c # cs) s = issue_log E C cs (pub_step E C c s)" by (cases c) auto
    have srt: "sorted (T # limiter_clock c)" "sorted (last (T # limiter_clock c) # concat (map limiter_clock cs))"
      using Cons.prems(3) False by (cases c; auto)+
    have "mail_ok cap (last (T # limiter_clock c)) (sv_limiter (pub_step E C c s)) lg"
      using mail_ok_other [OF Cons.prems(1) _ srt(1), of E C] False by blast
    from Cons.IH [OF this Cons.prems(2) srt(2) Cons.prems(4)] show ?thesis unfolding st .
  qed
qed

section \<open>The mail queue stays within its bounds\<close>

definition mail_queue_ok :: "server \<Rightarrow> bool" where
  "mail_queue_ok s \<longleftrightarrow> queue_len s \<le> mailQueueDepth \<and> slots_used s \<le> mailWorkers"

lemma jobs_request:
  "sv_jobs (snd (handleRequest E C io r s)) = sv_jobs s
   \<or> (queue_len s < mailQueueDepth \<and> (\<exists>sd email ref msg. sv_jobs (snd (handleRequest E C io r s)) = sv_jobs s @ [JReveal False sd email ref msg]))"
proof -
  obtain resp s' where h: "handleRequest E C io r s = (resp, s')" by (cases "handleRequest E C io r s")
  show ?thesis
    using handleRequest_effect [OF h] read_email_tokens process_effect(5) h by (metis snd_conv)
qed

lemma filter_remove: "i < length xs \<Longrightarrow> length (filter P (take i xs @ drop (i + 1) xs)) \<le> length (filter P xs)"
  by (subst (3) id_take_nth_drop [of i xs]) simp_all

lemma filter_set_true:
  "i < length xs \<Longrightarrow> length (filter P (xs[i := y])) \<le> length (filter P xs) + (if P y then 1 else 0)"
  unfolding upd_conv_take_nth_drop by (subst (3) id_take_nth_drop [of i xs]) simp_all

lemma drop_job_ok:
  assumes "mail_queue_ok s" "i < length (sv_jobs s)" "sv_jobs s' = sv_jobs s"
  shows "mail_queue_ok (drop_job i s')"
  using assms filter_remove [OF assms(2), of queued] filter_remove [OF assms(2), of slotted]
  by (simp add: mail_queue_ok_def queue_len_def slots_used_def drop_job_def)

lemma start_mail_ok:
  assumes "mail_queue_ok s"
  shows "mail_queue_ok (start_mail i s)"
proof (cases "i < length (sv_jobs s) \<and> slots_used s < mailWorkers")
  case True
  have q: "length (filter queued ((sv_jobs s)[i := JReveal True sd email ref msg])) = length (filter queued (sv_jobs s))"
    if "sv_jobs s ! i = JReveal False sd email ref msg" for sd email ref msg
  proof -
    have "queued ((sv_jobs s)[i := JReveal True sd email ref msg] ! j) = queued (sv_jobs s ! j)" if "j < length (sv_jobs s)" for j
      using \<open>sv_jobs s ! i = JReveal False sd email ref msg\<close> that by (cases "j = i") auto
    then have "map queued ((sv_jobs s)[i := JReveal True sd email ref msg]) = map queued (sv_jobs s)" by (intro nth_equalityI) auto
    then have "length (filter id (map queued ((sv_jobs s)[i := JReveal True sd email ref msg]))) = length (filter id (map queued (sv_jobs s)))"
      by simp
    then show ?thesis by (simp add: filter_map o_def)
  qed
  show ?thesis
  proof (cases "\<exists>sd email ref msg. sv_jobs s ! i = JReveal False sd email ref msg")
    case waiting: True
    then obtain sd email ref msg where j: "sv_jobs s ! i = JReveal False sd email ref msg" by blast
    then have e: "start_mail i s = s\<lparr>sv_jobs := (sv_jobs s)[i := JReveal True sd email ref msg]\<rparr>" using True by (simp add: start_mail_def)
    have "length (filter slotted ((sv_jobs s)[i := JReveal True sd email ref msg])) \<le> length (filter slotted (sv_jobs s)) + 1"
      using filter_set_true [of i "sv_jobs s" slotted "JReveal True sd email ref msg"] True by simp
    then show ?thesis using assms True q [OF j] unfolding e by (simp add: mail_queue_ok_def queue_len_def slots_used_def)
  next
    case False
    then have "start_mail i s = s" by (auto simp: start_mail_def split: job.split bool.split)
    then show ?thesis using assms by simp
  qed
qed (use assms in \<open>auto simp: start_mail_def\<close>)

lemma mail_queue_step: "mail_queue_ok s \<Longrightarrow> mail_queue_ok (pub_step E C c s)"
proof (cases c)
  case (PRequest io r)
  then show "mail_queue_ok s \<Longrightarrow> ?thesis"
    using jobs_request [of E C io r s] by (auto simp: mail_queue_ok_def queue_len_def slots_used_def)
next
  case (PConsume io r)
  then show "mail_queue_ok s \<Longrightarrow> ?thesis"
    using consume_frame [of E C io r s] by (cases "handlePolicyConsume E C io r s") (auto simp: mail_queue_ok_def queue_len_def slots_used_def)
next
  case (PReveal io r t)
  then show "mail_queue_ok s \<Longrightarrow> ?thesis" using reveal_frame [of E C io r t s] by (simp add: mail_queue_ok_def queue_len_def slots_used_def)
next
  case (PStart i)
  then show "mail_queue_ok s \<Longrightarrow> ?thesis" using start_mail_ok by simp
next
  case (PFinish io i et e)
  then show "mail_queue_ok s \<Longrightarrow> ?thesis" using drop_job_ok by (simp add: finish_mail_def split: job.split)
qed (simp_all add: mail_queue_ok_def queue_len_def slots_used_def case_prod_beta)

interpretation pub: machine "pub_step E C" mail_queue_ok for E C
  by unfold_locales (rule mail_queue_step)

lemma readConsume_trimmed: "readConsumeToken E r s = Inr tok \<Longrightarrow> TrimSpace tok \<noteq> []"
  by (auto simp: readConsumeToken_def Let_def split: if_splits option.splits)

lemma link_opens:
  assumes "new_token E io pr db = (Inr tok, db')" "sv_tokens s = Some db'" "readConsumeToken E r s = Inr (tk_Token tok)"
    "fst (allowTokenLookup E io' (clientIP E (rq_RemoteAddr r) (rq_XFF r)) s) = None"
    "\<not> io_fail io' ''tokens.get''" "io_consume io' = no_faults" "io_time io' ''consume'' < tk_ExpiresAt tok"
    "resolvedPolicy E C io' ''before'' (tk_Email tok) (sv_catalog s) = Some d"
  shows "re_status (fst (handlePolicyConsume E C io' r s)) = 200
    \<and> re_body (fst (handlePolicyConsume E C io' r s)) = BPolicy d (tk_ExpiresAt tok) (tk_IssuedAt tok)"
proof -
  let ?ip = "clientIP E (rq_RemoteAddr r) (rq_XFF r)"
  obtain s1 where 1: "allowTokenLookup E io' ?ip s = (None, s1)" using assms(4) by (cases "allowTokenLookup E io' ?ip s") auto
  note f = lookup_frame [OF 1]
  obtain row where row: "row_of db' (hashToken (ke_sha E) (tk_Token tok)) = Some row" "scanRow (tk_Token tok) row = tok"
      "length (filter (\<lambda>x. r_hash x = hashToken (ke_sha E) (tk_Token tok) \<and> r_consumed x = None) db') \<noteq> 0" "tk_ConsumedAt tok = None"
    using assms(1) by (auto simp: new_token_def Issue_def Let_def row_of_def scanRow_def find_append split: if_splits option.splits)
  have blank: "TrimSpace (tk_Token tok) \<noteq> []"
    using assms(3) by (metis readConsume_trimmed)
  have g: "Tokens.Get (ke_sha E) False (tk_Token tok) db' = Inr tok" using row by (simp add: Tokens.Get_def)
  have sel: "consume_select (ke_sha E) no_faults (io_time io' ''consume'') (tk_Token tok) db' = Inr tok"
    using row blank assms(7) by (simp add: consume_select_def)
  let ?t = "tok\<lparr>tk_ConsumedAt := Some (io_time io' ''consume'')\<rparr>"
  have c: "fst (Tokens.Consume (ke_sha E) no_faults (io_time io' ''consume'') (tk_Token tok) ip ua db') = Inr ?t" for ip ua
    using row(3) by (auto simp: Tokens.Consume_def sel consume_update_def update_consumed_def)
  obtain db2 where c2: "Tokens.Consume (ke_sha E) no_faults (io_time io' ''consume'') (tk_Token tok) (hashShort E ?ip) (hashShort E (rq_UserAgent r)) db'
      = (Inr ?t, db2)" using c by (metis prod.collapse)
  have "resolveBeforeConsume E C io' (tk_Token tok) s1 = Inr (Some d)"
    using f assms(2,5,8) g by (simp add: resolveBeforeConsume_def)
  then have "fst (consume_request E C io' r (tk_Token tok) ?ip s1) = serve_policy d (tok\<lparr>tk_ConsumedAt := Some (io_time io' ''consume'')\<rparr>)"
    using f assms(2,6) c2 by (simp add: consume_request_def Let_def)
  then show ?thesis using 1 assms(3) by (simp add: handlePolicyConsume_def serve_policy_def)
qed

section \<open>Properties\<close>

definition toy_pub :: pub_env where
  "toy_pub = key_env.extend toy_keys
     \<lparr>pb_U = ascii_tables, pb_isIP = (\<lambda>_. False), pb_media = Some, pb_decEmail = (\<lambda>_. Some), pb_decToken = (\<lambda>_. Some),
      pb_audit = \<lparr>ae_key = True, ae_hmac = id, ae_sha = id, ae_fmt = (\<lambda>_. [])\<rparr>, pb_details = (\<lambda>_. Some ''{}''), pb_pol = Policy_Edit.toy_env,
      pb_fingerprint = (\<lambda>_. []), pb_text = (\<lambda>u _. Some u), pb_html = (\<lambda>u _. Some u), pb_reveal = (\<lambda>_ _ _ _. None), pb_notice = (\<lambda>_. None),
      pb_date = (\<lambda>_. []), pb_qenc = id, pb_control = (\<lambda>_. False), pb_errText = (\<lambda>_. [])\<rparr>"

definition toy_cfg :: config where
  "toy_cfg = \<lparr>cf_Eval = False, cf_Demo = False, cf_BaseURL = ''https://sk.example/'', cf_InstanceDomain = ''sk.example'', cf_MailLanguage = [],
     cf_limits = \<lparr>lm_email = 3, lm_ip = 10\<rparr>, cf_domains = True, cf_policies = False, cf_mailTpls = False, cf_requestFloor = 250 * millisecond\<rparr>"

definition toy_io :: "time \<Rightarrow> string \<Rightarrow> io" where
  "toy_io now rnd = \<lparr>io_time = (\<lambda>_. now), io_rand = (\<lambda>_. Some rnd), io_fail = (\<lambda>_. False), io_domain = no_faults,
     io_resolve = (\<lambda>_. no_res_faults), io_consume = no_faults, io_audit = (\<lambda>_. (no_faults, 0)), io_gone = None\<rparr>"

definition toy_request :: "string \<Rightarrow> request" where
  "toy_request b = \<lparr>rq_ContentType = ''application/json'', rq_Body = b, rq_RemoteAddr = ''192.0.2.7:9'', rq_XFF = [], rq_UserAgent = ''ua'',
     rq_Cookie = None\<rparr>"

definition toy_server :: "sender \<Rightarrow> server" where
  "toy_server sd = \<lparr>sv_catalog = toy_catalog, sv_tokens = Some [], sv_audit = None, sv_disp = None,
     sv_limiter = \<lparr>c_email = Some (New 3 hour), c_ip = Some (New 10 hour)\<rparr>, sv_tokenLimiter = New 60 (15 * minute),
     sv_probeLimiter = New 5 (15 * minute), sv_rateAudit = newRateAuditAgg 4096 32, sv_sender = sd, sv_mail = NewStore 100, sv_jobs = []\<rparr>"

text \<open>
  C6. A requester learns nothing about the instance. Whatever the allow-list, the policies, the limiters, the tables and the faults, outside
  evaluation mode two servers give the same answer to the same request, cookie included; only a server without token storage
  may answer differently. And every 202 is held back: for a client that waits it leaves no earlier than the floor and the jitter after the request came in,
  and exactly then if it was prepared by then. The jitter is read off random bytes alone and stays below 50 ms.
\<close>

theorem request_answers_are_uniform:
  assumes "\<not> cf_Eval C" "sv_tokens s = None \<longleftrightarrow> sv_tokens s' = None" "io_rand io ''cookie'' = io_rand io' ''cookie''"
    "0 < cf_requestFloor C" "io_gone io = None"
  shows "(fst (handleRequest E C io r s))\<lparr>re_sent := None\<rparr> = (fst (handleRequest E C io' r s'))\<lparr>re_sent := None\<rparr>
    \<and> (re_status (fst (handleRequest E C io r s)) = 202 \<longrightarrow>
        re_sent (fst (handleRequest E C io r s)) = Some (max (io_time io ''pad'') (io_time io ''start'' + cf_requestFloor C + randomDuration requestLatencyJitter (io_rand io ''jitter'')))
        \<and> 0 \<le> randomDuration requestLatencyJitter (io_rand io ''jitter'') \<and> randomDuration requestLatencyJitter (io_rand io ''jitter'') < 50 * millisecond)"
proof
  let ?a = "fst (handleRequest E C io r s)" and ?a' = "fst (handleRequest E C io' r s')"
  have read: "readRequestEmail E r s = readRequestEmail E r s'" using assms(2) by (simp add: readRequestEmail_def split: option.split sum.split)
  have extra: "fst (process_request E C i o' pr u) = []" if "sv_tokens u = Some db" for i o' pr u db
    using process_effect(4) [OF _ that assms(1)] by (cases "process_request E C i o' pr u") auto
  show "?a\<lparr>re_sent := None\<rparr> = ?a'\<lparr>re_sent := None\<rparr>"
  proof (cases "readRequestEmail E r s")
    case (Inl e)
    then show ?thesis using read assms(3) by (simp add: handleRequest_def Let_def case_prod_beta)
  next
    case (Inr email)
    then obtain db db' where "sv_tokens s = Some db" "sv_tokens s' = Some db'" using read_email_tokens read by metis
    then show ?thesis using Inr read assms(3) extra by (simp add: handleRequest_def writeAcceptedResponse_def Let_def case_prod_beta)
  qed
  have "re_status ?a = 202 \<Longrightarrow> re_sent ?a = Some (padRequestLatency C io (io_time io ''start'') (io_time io ''pad''))"
    using read_email_status [of E r s] 
    by (auto simp: handleRequest_def writeAcceptedResponse_def error_response_def Let_def case_prod_beta split: if_splits sum.splits)
  moreover have "0 \<le> randomDuration requestLatencyJitter x \<and> randomDuration requestLatencyJitter x < 50 * millisecond" for x
    by (auto simp: randomDuration_def requestLatencyJitter_def split: option.split)
  ultimately show "re_status ?a = 202 \<longrightarrow>
        re_sent ?a = Some (max (io_time io ''pad'') (io_time io ''start'' + cf_requestFloor C + randomDuration requestLatencyJitter (io_rand io ''jitter'')))
        \<and> 0 \<le> randomDuration requestLatencyJitter (io_rand io ''jitter'') \<and> randomDuration requestLatencyJitter (io_rand io ''jitter'') < 50 * millisecond"
    using assms(4,5) by (auto simp: padRequestLatency_def Let_def)
qed

theorem request_answers_are_uniform_witness:
  "re_sent (fst (handleRequest toy_pub toy_cfg (toy_io 5 ''seed'') (toy_request ''bob@corp.com'') (toy_server SMTPSender)))
   = Some (5 + cf_requestFloor toy_cfg + randomDuration requestLatencyJitter (Some ''seed''))
   \<and> (fst (handleRequest toy_pub toy_cfg (toy_io 5 ''seed'') (toy_request ''bob@corp.com'') (toy_server SMTPSender)))\<lparr>re_sent := None\<rparr>
   = (fst (handleRequest toy_pub toy_cfg (toy_io 6 ''seed'') (toy_request ''bob@corp.com'') ((toy_server SMTPSender)\<lparr>sv_catalog := empty_catalog\<rparr>)))\<lparr>re_sent := None\<rparr>"
proof -
  have "re_status (fst (handleRequest toy_pub toy_cfg (toy_io 5 ''seed'') (toy_request ''bob@corp.com'') (toy_server SMTPSender))) = 202" by code_simp
  then show ?thesis
    using request_answers_are_uniform [of toy_cfg "toy_server SMTPSender" "(toy_server SMTPSender)\<lparr>sv_catalog := empty_catalog\<rparr>"
        "toy_io 5 ''seed''" "toy_io 6 ''seed''" toy_pub "toy_request ''bob@corp.com''"]
    by (simp add: toy_cfg_def toy_server_def toy_io_def)
qed

text \<open>
  C4. No token without all gates. A request changes the token table only by adding one row, and only if the rate limits, then the
  allow-list (when wired), then the policies (when any exist) let it pass; the row is for the address that was submitted, unredeemed, and expires
  after a quarter of an hour.
\<close>

theorem token_issued_only_after_all_gates:
  assumes "handleRequest E C io r s = (resp, s')" "sv_tokens s = Some db" "sv_tokens s' \<noteq> Some db"
  shows "\<exists>email row. readRequestEmail E r s = Inr email \<and> gates E C io (newPublicRequest E r email) s
    \<and> sv_tokens s' = Some (db @ [row]) \<and> r_email row = ToLower (pb_U E) email \<and> r_consumed row = None
    \<and> r_expires row = r_issued row + 15 * minute \<and> re_status resp = 202"
proof -
  have "s' \<noteq> s" using assms(2,3) by auto
  then obtain email owner extra where e: "readRequestEmail E r s = Inr email"
      "process_request E C io owner (newPublicRequest E r email) s = (extra, s')"
    using handleRequest_effect [OF assms(1)] by blast
  obtain tok where t: "gates E C io (newPublicRequest E r email) s" "new_token E io (newPublicRequest E r email) db = (Inr tok, the (sv_tokens s'))"
      "sv_tokens s' \<noteq> None"
    using process_effect(3) [OF e(2) assms(2)] assms(3) by blast
  have "re_status resp = 202"
    using assms(1) e(1) \<open>s' \<noteq> s\<close> by (auto simp: handleRequest_def Let_def writeAcceptedResponse_def split: if_splits prod.splits)
  moreover have "pr_email (newPublicRequest E r email) = email" by (simp add: newPublicRequest_def Let_def)
  ultimately show ?thesis using Issue_effect [OF t(2)] e(1) t(1,3) by (auto simp: DefaultTTL_def)
qed

theorem token_issued_only_after_all_gates_witness:
  "\<exists>row. sv_tokens (snd (handleRequest toy_pub toy_cfg (toy_io 5 ''seed'') (toy_request ''bob@corp.com'') (toy_server SMTPSender))) = Some [row]
     \<and> r_expires row = r_issued row + 15 * minute"
proof -
  let ?h = "handleRequest toy_pub toy_cfg (toy_io 5 ''seed'') (toy_request ''bob@corp.com'') (toy_server SMTPSender)"
  have "sv_tokens (snd ?h) \<noteq> Some []" by code_simp
  moreover have "sv_tokens (toy_server SMTPSender) = Some []" by (simp add: toy_server_def)
  ultimately show ?thesis
    using token_issued_only_after_all_gates [of toy_pub toy_cfg "toy_io 5 ''seed''" "toy_request ''bob@corp.com''" "toy_server SMTPSender"
        "fst ?h" "snd ?h" "[]"] by (metis append_Nil prod.collapse)
qed

text \<open>
  C7. No inbox is flooded. Over any run of requests, redemptions, sweeps and administrative changes, at most \<open>cap\<close> tokens are issued
  to one address and its sub-addresses within any hour, counted by the time the limiter admitted them.
\<close>

theorem issued_tokens_bounded_per_hour:
  assumes "c_email (sv_limiter s) = Some (New cap hour)" "0 < cap" "sorted (concat (map limiter_clock cs))"
  shows "int (in_window k a (a + hour) (issue_log E C cs s)) \<le> cap"
proof -
  define T where "T = (case concat (map limiter_clock cs) of [] \<Rightarrow> 0 | t # _ \<Rightarrow> t)"
  have "sorted xs \<Longrightarrow> sorted ((case xs of [] \<Rightarrow> 0 | t # _ \<Rightarrow> t) # xs)" for xs :: "time list" by (cases xs) auto
  then have "sorted (T # concat (map limiter_clock cs))" using assms(3) unfolding T_def by blast
  moreover have "mail_ok cap T (sv_limiter s) []"
    using assms(1,2) lim_sim_New [of T cap hour] by (auto simp: mail_ok_def New_def log_bounded_def in_window_def)
  ultimately show ?thesis using issue_bound [of cap T s "[]" cs "[]"] assms(2) by simp
qed

theorem issued_tokens_bounded_per_hour_witness:
  "int (in_window ''bob@corp.com'' 0 hour (issue_log toy_pub toy_cfg
     [PRequest (toy_io 5 ''seed'') (toy_request ''bob@corp.com''), PSweep 6, PRequest (toy_io 7 ''feed'') (toy_request ''bob+x@corp.com'')]
     (toy_server SMTPSender))) \<le> 3"
  using issued_tokens_bounded_per_hour [of "toy_server SMTPSender" 3
      "[PRequest (toy_io 5 ''seed'') (toy_request ''bob@corp.com''), PSweep 6, PRequest (toy_io 7 ''feed'') (toy_request ''bob+x@corp.com'')]"
      "''bob@corp.com''" 0 toy_pub toy_cfg]
  by (simp add: toy_server_def toy_io_def)

text \<open>
  C3. A link is spent exactly when its policy is served. If reading the token did not fail, a redemption either leaves the token table
  as it was, or redeems the token and answers with the policy of the address it was issued to: the row that governs the address, accepted by the
  checks of the browser bundle, or the built-in default, which is served only while no policy exists.
\<close>

theorem link_spent_only_when_served:
  assumes "handlePolicyConsume E C io r s = (resp, s')" "\<not> io_fail io ''tokens.get''"
  shows "(re_status resp \<noteq> 200 \<and> sv_tokens s' = sv_tokens s)
    \<or> (\<exists>tok t d db db'. readConsumeToken E r s = Inr tok \<and> sv_tokens s = Some db \<and> sv_tokens s' = Some db' \<and> resp = serve_policy d t
        \<and> fst (Tokens.Consume (ke_sha E) (io_consume io) (io_time io ''consume'') tok (hashShort E (clientIP E (rq_RemoteAddr r) (rq_XFF r)))
            (hashShort E (rq_UserAgent r)) db) = Inr t
        \<and> (case d of DefaultDescriptor \<Rightarrow> \<not> cf_policies C \<or> t_rows (db_policies (sv_catalog s)) = []
           | RowDescriptor p _ \<Rightarrow> ResolveIssued (pb_U E) True True (io_resolve io ''before'') (tk_Email t) (sv_catalog s) = Inr p
               \<and> ValidateForReveal (pb_pol E) p = None))"
proof (cases "readConsumeToken E r s")
  case (Inl e)
  have "re_status resp \<noteq> 200 \<and> sv_tokens s' = sv_tokens s"
    using assms(1) Inl by (auto simp: handlePolicyConsume_def error_response_def readConsumeToken_def Let_def split: if_splits option.splits)
  then show ?thesis ..
next
  case (Inr tok)
  let ?ip = "clientIP E (rq_RemoteAddr r) (rq_XFF r)"
  obtain db where db: "sv_tokens s = Some db" using Inr by (auto simp: readConsumeToken_def Let_def split: if_splits option.splits)
  obtain x s1 where 1: "allowTokenLookup E io ?ip s = (x, s1)" by (cases "allowTokenLookup E io ?ip s")
  note f = lookup_frame [OF 1]
  show ?thesis
  proof (cases x)
    case (Some retry)
    then have "re_status resp \<noteq> 200 \<and> sv_tokens s' = sv_tokens s" using assms(1) f Inr 1 by (auto simp: handlePolicyConsume_def error_response_def)
    then show ?thesis ..
  next
    case None
    then have "consume_request E C io r tok ?ip s1 = (resp, s')" using assms(1) Inr 1 by (simp add: handlePolicyConsume_def)
    from consume_cases [OF this _ assms(2), of db] consider (kept) "re_status resp \<noteq> 200 \<and> sv_tokens s' = Some db"
      | (served) t d db' where "Tokens.Consume (ke_sha E) (io_consume io) (io_time io ''consume'') tok (hashShort E ?ip) (hashShort E (rq_UserAgent r)) db = (Inr t, db')"
          "sv_tokens s' = Some db'" "resp = serve_policy d t" "resolvedPolicy E C io ''before'' (tk_Email t) (sv_catalog s) = Some d"
      using f db by auto
    then show ?thesis
    proof cases
      case kept
      then show ?thesis using db by simp
    next
      case served
      from resolvedPolicy_cases [OF served(4)] show ?thesis using served Inr db by (intro disjI2 exI conjI) auto
    qed
  qed
qed

definition toy_holder :: server where
  "toy_holder = snd (handleRequest toy_pub toy_cfg (toy_io 5 ''seed'') (toy_request ''bob@corp.com'') (toy_server SMTPSender))"

definition toy_token :: token where
  "toy_token = \<lparr>tk_Token = b64url ''seed'', tk_Email = ''bob@corp.com'', tk_Domain = ''corp.com'', tk_IssuedAt = 5, tk_ExpiresAt = 5 + 15 * minute,
     tk_ConsumedAt = None\<rparr>"

lemma toy_issue:
  "new_token toy_pub (toy_io 5 ''seed'') (newPublicRequest toy_pub (toy_request ''bob@corp.com'') ''bob@corp.com'') [] = (Inr toy_token, the (sv_tokens toy_holder))"
  by code_simp

lemma toy_held: "sv_tokens toy_holder = Some (the (sv_tokens toy_holder))"
  by code_simp

lemma toy_read: "readConsumeToken toy_pub (toy_request (b64url ''seed'')) toy_holder = Inr (tk_Token toy_token)"
  by code_simp

lemma toy_lookup: "fst (allowTokenLookup toy_pub (toy_io 6 ''seed'')
    (clientIP toy_pub (rq_RemoteAddr (toy_request (b64url ''seed''))) (rq_XFF (toy_request (b64url ''seed'')))) toy_holder) = None"
  by code_simp

lemma toy_served: "resolvedPolicy toy_pub toy_cfg io call email db = Some DefaultDescriptor"
  by (simp add: resolvedPolicy_def toy_cfg_def)

lemma toy_io_fields: "\<not> io_fail (toy_io now rnd) c" "io_consume (toy_io now rnd) = no_faults" "io_time (toy_io now rnd) c = now"
  by (simp_all add: toy_io_def)

lemma toy_opens:
  "re_status (fst (handlePolicyConsume toy_pub toy_cfg (toy_io 6 ''seed'') (toy_request (b64url ''seed'')) toy_holder)) = 200"
  by (rule conjunct1 [OF link_opens [OF toy_issue toy_held toy_read toy_lookup toy_io_fields(1,2) _ toy_served]])
    (simp add: toy_io_fields toy_token_def)

theorem link_spent_only_when_served_witness:
  "\<exists>d t. fst (handlePolicyConsume toy_pub toy_cfg (toy_io 6 ''seed'') (toy_request (b64url ''seed'')) toy_holder) = serve_policy d t"
  using link_spent_only_when_served [OF surjective_pairing toy_io_fields(1)] toy_opens by blast

text \<open>
  C13. An issued link opens. Until it expires, the holder of a link that was just issued, whose policy can be resolved and whose lookup is
  admitted, is served that policy: no state the other components are in stops the redemption.
\<close>

theorem issued_link_opens:
  assumes "new_token E io pr db = (Inr tok, db')" "sv_tokens s = Some db'" "readConsumeToken E r s = Inr (tk_Token tok)"
    "fst (allowTokenLookup E io' (clientIP E (rq_RemoteAddr r) (rq_XFF r)) s) = None"
    "\<not> io_fail io' ''tokens.get''" "io_consume io' = no_faults" "io_time io' ''consume'' < tk_ExpiresAt tok"
    "resolvedPolicy E C io' ''before'' (tk_Email tok) (sv_catalog s) = Some d"
  shows "re_status (fst (handlePolicyConsume E C io' r s)) = 200
    \<and> re_body (fst (handlePolicyConsume E C io' r s)) = BPolicy d (tk_ExpiresAt tok) (tk_IssuedAt tok)"
  using assms by (rule link_opens)

theorem issued_link_opens_witness:
  "re_body (fst (handlePolicyConsume toy_pub toy_cfg (toy_io 6 ''seed'') (toy_request (b64url ''seed'')) toy_holder))
   = BPolicy DefaultDescriptor (5 + 15 * minute) 5"
  using issued_link_opens [OF toy_issue toy_held toy_read toy_lookup toy_io_fields(1,2) _ toy_served]
  by (simp add: toy_io_fields toy_token_def)

text \<open>
  A link can be spent without being served. If the token could not be read before it is consumed, its policy is resolved only
  afterwards; when that fails the answer is an error although the token is gone.
\<close>

theorem unread_token_can_be_spent_unserved:
  assumes "sv_tokens s = Some db" "readConsumeToken E r s = Inr tok" "io_fail io ''tokens.get''"
    "fst (allowTokenLookup E io (clientIP E (rq_RemoteAddr r) (rq_XFF r)) s) = None"
    "Tokens.Consume (ke_sha E) (io_consume io) (io_time io ''consume'') tok (hashShort E (clientIP E (rq_RemoteAddr r) (rq_XFF r)))
       (hashShort E (rq_UserAgent r)) db = (Inr t, db')"
    "resolvedPolicy E C io ''after'' (tk_Email t) (sv_catalog s) = None"
  shows "re_status (fst (handlePolicyConsume E C io r s)) = 503 \<and> sv_tokens (snd (handlePolicyConsume E C io r s)) = Some db'"
proof -
  let ?ip = "clientIP E (rq_RemoteAddr r) (rq_XFF r)"
  obtain s1 where 1: "allowTokenLookup E io ?ip s = (None, s1)" using assms(4) by (cases "allowTokenLookup E io ?ip s") auto
  note f = lookup_frame [OF 1]
  have "resolveBeforeConsume E C io tok s1 = Inr None" using assms(3) by (simp add: resolveBeforeConsume_def Tokens.Get_def)
  then show ?thesis using 1 assms f by (simp add: handlePolicyConsume_def consume_request_def Let_def error_response_def)
qed

definition toy_unread :: io where
  "toy_unread = (toy_io 6 ''seed'')\<lparr>io_fail := (\<lambda>c. c = ''tokens.get''), io_resolve := (\<lambda>_. no_res_faults\<lparr>rf_level := True\<rparr>)\<rparr>"

lemma toy_unread_lookup: "fst (allowTokenLookup toy_pub toy_unread
    (clientIP toy_pub (rq_RemoteAddr (toy_request (b64url ''seed''))) (rq_XFF (toy_request (b64url ''seed'')))) toy_holder) = None"
  by code_simp

lemma toy_unread_resolve:
  "resolvedPolicy toy_pub (toy_cfg\<lparr>cf_policies := True\<rparr>) toy_unread ''after'' ''bob@corp.com'' (sv_catalog toy_holder) = None"
proof -
  have "ResolveIssued (pb_U toy_pub) True True (io_resolve toy_unread ''after'') ''bob@corp.com'' (sv_catalog toy_holder) = Inl pol_err.ErrDriver" by code_simp
  then show ?thesis by (simp add: resolvedPolicy_def)
qed

theorem unread_token_can_be_spent_unserved_witness:
  "re_status (fst (handlePolicyConsume toy_pub (toy_cfg\<lparr>cf_policies := True\<rparr>) toy_unread (toy_request (b64url ''seed'')) toy_holder)) = 503"
proof -
  let ?r = "toy_request (b64url ''seed'')"
  let ?c = "Tokens.Consume (ke_sha toy_pub) (io_consume toy_unread) (io_time toy_unread ''consume'') (tk_Token toy_token)
     (hashShort toy_pub (clientIP toy_pub (rq_RemoteAddr ?r) (rq_XFF ?r))) (hashShort toy_pub (rq_UserAgent ?r)) (the (sv_tokens toy_holder))"
  have "fst ?c = Inr (toy_token\<lparr>tk_ConsumedAt := Some 6\<rparr>)" by code_simp
  then have c: "?c = (Inr (toy_token\<lparr>tk_ConsumedAt := Some 6\<rparr>), snd ?c)" by (simp add: prod_eq_iff)
  have f: "io_fail toy_unread ''tokens.get''" by (simp add: toy_unread_def)
  have "resolvedPolicy toy_pub (toy_cfg\<lparr>cf_policies := True\<rparr>) toy_unread ''after'' (tk_Email (toy_token\<lparr>tk_ConsumedAt := Some 6\<rparr>)) (sv_catalog toy_holder) = None"
    using toy_unread_resolve by (simp add: toy_token_def)
  from unread_token_can_be_spent_unserved [OF toy_held toy_read f toy_unread_lookup c this] show ?thesis by (rule conjunct1)
qed

text \<open>
  A token whose mail cannot be built leaves no trace in the audit log: the request passed every gate and the token exists, but the log is as it
  was before.
\<close>

theorem unbuilt_mail_is_not_audited:
  assumes "admitRequest E C io pr s = (True, s1)" "sv_tokens s = Some db" "new_token E io pr db = (Inr tok, db')"
    "buildRevealMessage E C io tok (reveal_url C tok) = None" "process_request E C io owner pr s = (extra, s')"
  shows "sv_tokens s' = Some db' \<and> sv_audit s' = sv_audit s \<and> sv_jobs s' = sv_jobs s"
proof -
  note f = admit_frame [OF assms(1)]
  have "issueRequestToken E C io pr s1 = (Some tok, s1\<lparr>sv_tokens := Some db'\<rparr>)"
    using assms(2,3) f by (simp add: issueRequestToken_def new_token_def)
  then show ?thesis using assms(1,4,5) f by (auto simp: process_request_def)
qed

theorem unbuilt_mail_is_not_audited_witness:
  "let E = toy_pub\<lparr>pb_text := (\<lambda>_ _. None)\<rparr>; io = toy_io 5 ''seed''; pr = newPublicRequest E (toy_request ''bob@corp.com'') ''bob@corp.com'';
       A = Some \<lparr>al_rows = [], al_next = 1, al_head = empty_head, al_floor = 0\<rparr>
   in sv_audit (snd (process_request E toy_cfg io ''o'' pr ((toy_server SMTPSender)\<lparr>sv_audit := A\<rparr>))) = A"
proof -
  let ?E = "toy_pub\<lparr>pb_text := (\<lambda>_ _. None)\<rparr>" and ?io = "toy_io 5 ''seed''" and ?A = "Some \<lparr>al_rows = [], al_next = 1, al_head = empty_head, al_floor = 0\<rparr>"
  let ?pr = "newPublicRequest ?E (toy_request ''bob@corp.com'') ''bob@corp.com''" and ?s = "(toy_server SMTPSender)\<lparr>sv_audit := ?A\<rparr>"
  have "fst (admitRequest ?E toy_cfg ?io ?pr ?s)" by code_simp
  then have a: "admitRequest ?E toy_cfg ?io ?pr ?s = (True, snd (admitRequest ?E toy_cfg ?io ?pr ?s))" by (simp add: prod_eq_iff)
  have db: "sv_tokens ?s = Some []" by (simp add: toy_server_def)
  have "fst (new_token ?E ?io ?pr []) = Inr toy_token" by code_simp
  then have t: "new_token ?E ?io ?pr [] = (Inr toy_token, snd (new_token ?E ?io ?pr []))" by (simp add: prod_eq_iff)
  have "buildRevealMessage ?E toy_cfg ?io toy_token (reveal_url toy_cfg toy_token) = None"
    by (simp add: buildRevealMessage_def toy_cfg_def BuildReveal_def)
  from unbuilt_mail_is_not_audited [OF a db t this surjective_pairing, of "''o''"] show ?thesis by (simp add: Let_def)
qed

text \<open>
  Background mail is bounded: after any run, at most 1024 reveal mails are queued and at most 32 mails are being sent.
\<close>

theorem background_mail_bounded:
  assumes "sv_jobs s = []"
  shows "queue_len (run (pub_step E C) cs s) \<le> mailQueueDepth \<and> slots_used (run (pub_step E C) cs s) \<le> mailWorkers"
proof -
  have "mail_queue_ok s" using assms by (simp add: mail_queue_ok_def queue_len_def slots_used_def)
  from pub.inv_run [OF this, of E C cs] show ?thesis by (simp add: mail_queue_ok_def)
qed

theorem background_mail_bounded_witness:
  "queue_len (run (pub_step toy_pub toy_cfg) [PRequest (toy_io 5 ''seed'') (toy_request ''bob@corp.com''), PStart 0] (toy_server SMTPSender)) \<le> 1024"
  using background_mail_bounded [of "toy_server SMTPSender" toy_pub toy_cfg "[PRequest (toy_io 5 ''seed'') (toy_request ''bob@corp.com''), PStart 0]"]
  by (simp add: toy_server_def mailQueueDepth_def)

end
