(* ===== verification/Retention.thy ===== *)
theory Retention
  imports Public_Flow Admin_Accounts
begin

text \<open>
  The scheduled purge (\<open>internal/retention/retention.go\<close>). \<open>purge_db\<close> is what the job works on: the tables it deletes from, the
  in-memory capture queue and the audit log. Deleting a row of \<open>request_tokens\<close> or \<open>admins\<close> cascades to its sessions (the foreign
  keys of the schema). The columns that remember who created a row are set to NULL by the same keys and are not part of
  this state.
\<close>

section \<open>State and policy\<close>

record userSession =
  us_token :: string
  us_request :: string
  us_expires :: time
  us_idle :: time
  us_revoked :: "time option"

record capturedRow =
  cr_to :: string
  cr_captured :: time

record purge_db =
  pg_users :: "userSession list"
  pg_adm :: adm_db
  pg_tokens :: tok_db
  pg_captured :: "capturedRow list"
  pg_mail :: "mail_store option"
  pg_audit :: "audit option"

record retention_policy =
  rp_RequestTokens :: duration
  rp_SessionGrace :: duration
  rp_AuditLog :: duration
  rp_CapturedMail :: duration
  rp_DisabledAdmins :: duration

definition day :: duration where "day = 24 * hour"

definition DefaultPolicy :: retention_policy where
  "DefaultPolicy = \<lparr>rp_RequestTokens = 30 * day, rp_SessionGrace = day, rp_AuditLog = 365 * day, rp_CapturedMail = 7 * day,
     rp_DisabledAdmins = 90 * day\<rparr>"

definition validate_policy :: "retention_policy \<Rightarrow> bool" where
  "validate_policy p \<longleftrightarrow> list_all (\<lambda>d. 0 < d) [rp_RequestTokens p, rp_SessionGrace p, rp_AuditLog p, rp_CapturedMail p, rp_DisabledAdmins p]"

record purge_result =
  pr_RequestTokens :: nat
  pr_UserSessions :: nat
  pr_AdminSessions :: nat
  pr_CapturedMail :: nat
  pr_DisabledAdmins :: nat
  pr_AuditLog :: nat
  pr_AuditSkipped :: bool

definition no_result :: purge_result where
  "no_result = \<lparr>pr_RequestTokens = 0, pr_UserSessions = 0, pr_AdminSessions = 0, pr_CapturedMail = 0, pr_DisabledAdmins = 0,
     pr_AuditLog = 0, pr_AuditSkipped = False\<rparr>"

definition result_details :: "purge_result \<Rightarrow> (string \<times> detail) list" where
  "result_details r = [(''request_tokens'', DInt (int (pr_RequestTokens r))), (''user_sessions'', DInt (int (pr_UserSessions r))),
     (''admin_sessions'', DInt (int (pr_AdminSessions r))), (''captured_mail'', DInt (int (pr_CapturedMail r))),
     (''disabled_admins'', DInt (int (pr_DisabledAdmins r))), (''audit_log'', DInt (int (pr_AuditLog r))),
     (''audit_skipped'', DBool (pr_AuditSkipped r))]"

section \<open>The statements\<close>

text \<open>A comparison with NULL is not true.\<close>

definition before :: "time option \<Rightarrow> time \<Rightarrow> bool" where
  "before t cutoff \<longleftrightarrow> (case t of None \<Rightarrow> False | Some x \<Rightarrow> x < cutoff)"

definition user_session_due :: "time \<Rightarrow> userSession \<Rightarrow> bool" where
  "user_session_due cutoff u \<longleftrightarrow> us_expires u < cutoff \<or> us_idle u < cutoff \<or> before (us_revoked u) cutoff"

definition session_due :: "time \<Rightarrow> sessionRow \<Rightarrow> bool" where
  "session_due cutoff s \<longleftrightarrow> ss_ExpiresAt s < cutoff \<or> ss_IdleExpiresAt s < cutoff \<or> before (ss_RevokedAt s) cutoff"

datatype purge_stmt = DelUserSessions | DelAdminSessions | DelTokens | DelCaptured | DelAdmins

datatype purge_err = ErrPurge purge_stmt | ErrAudit audit_err | ErrPolicy

definition purge_rows :: "('a \<Rightarrow> bool) \<Rightarrow> 'a list \<Rightarrow> nat \<times> 'a list" where
  "purge_rows P rows = (length (filter P rows), filter (\<lambda>x. \<not> P x) rows)"

definition exec_delete :: "time \<Rightarrow> retention_policy \<Rightarrow> purge_stmt \<Rightarrow> purge_db \<Rightarrow> nat \<times> purge_db" where
  "exec_delete now p st s = (case st of
     DelUserSessions \<Rightarrow> (let (n, us) = purge_rows (user_session_due (now - rp_SessionGrace p)) (pg_users s) in (n, s\<lparr>pg_users := us\<rparr>))
   | DelAdminSessions \<Rightarrow> (let (n, ss) = purge_rows (session_due (now - rp_SessionGrace p)) (adb_sessions (pg_adm s))
        in (n, s\<lparr>pg_adm := (pg_adm s)\<lparr>adb_sessions := ss\<rparr>\<rparr>))
   | DelTokens \<Rightarrow> (let (n, ts) = purge_rows (\<lambda>r. r_expires r < now - rp_RequestTokens p) (pg_tokens s)
        in (n, s\<lparr>pg_tokens := ts,
             pg_users := filter (\<lambda>u. \<not> (\<exists>r\<in>set (pg_tokens s). r_expires r < now - rp_RequestTokens p \<and> r_hash r = us_request u)) (pg_users s)\<rparr>))
   | DelCaptured \<Rightarrow> (let (n, cs) = purge_rows (\<lambda>c. cr_captured c < now - rp_CapturedMail p) (pg_captured s) in (n, s\<lparr>pg_captured := cs\<rparr>))
   | DelAdmins \<Rightarrow> (let old = (\<lambda>a. before (ad_DisabledAt a) (now - rp_DisabledAdmins p))
        in (length (filter old (t_rows (adb_admins (pg_adm s)))), s\<lparr>pg_adm := delete_admins old (pg_adm s)\<rparr>)))"

definition purge :: "purge_stmt faults \<Rightarrow> time \<Rightarrow> retention_policy \<Rightarrow> purge_stmt \<Rightarrow> purge_db \<Rightarrow> nat \<times> purge_err list \<times> purge_db" where
  "purge fs now p st s = (if fs st then (0, [ErrPurge st], s) else let (n, s) = exec_delete now p st s in (n, [], s))"

definition add_count :: "purge_stmt \<Rightarrow> nat \<Rightarrow> purge_result \<Rightarrow> purge_result" where
  "add_count st n r = (case st of
     DelUserSessions \<Rightarrow> r\<lparr>pr_UserSessions := pr_UserSessions r + n\<rparr>
   | DelAdminSessions \<Rightarrow> r\<lparr>pr_AdminSessions := pr_AdminSessions r + n\<rparr>
   | DelTokens \<Rightarrow> r\<lparr>pr_RequestTokens := pr_RequestTokens r + n\<rparr>
   | DelCaptured \<Rightarrow> r\<lparr>pr_CapturedMail := pr_CapturedMail r + n\<rparr>
   | DelAdmins \<Rightarrow> r\<lparr>pr_DisabledAdmins := pr_DisabledAdmins r + n\<rparr>)"

fun purge_steps ::
  "purge_stmt faults \<Rightarrow> time \<Rightarrow> retention_policy \<Rightarrow> purge_stmt list \<Rightarrow> purge_result \<Rightarrow> purge_db
     \<Rightarrow> purge_result \<times> purge_err list \<times> purge_db" where
  "purge_steps fs now p [] r s = (r, [], s)"
| "purge_steps fs now p (st # sts) r s =
     (let (n, e, s) = purge fs now p st s; (r, es, s) = purge_steps fs now p sts (add_count st n r) s in (r, e @ es, s))"

definition prune_mail :: "time \<Rightarrow> purge_result \<times> purge_db \<Rightarrow> purge_result \<times> purge_db" where
  "prune_mail cutoff rs = (let (r, s) = rs in case pg_mail s of
     None \<Rightarrow> (r, s)
   | Some m \<Rightarrow> let (n, m) = PruneBefore cutoff m in (r\<lparr>pr_CapturedMail := pr_CapturedMail r + n\<rparr>, s\<lparr>pg_mail := Some m\<rparr>))"

definition pruneAudit ::
  "audit_env \<Rightarrow> audit_stmt faults \<Rightarrow> time \<Rightarrow> purge_result \<Rightarrow> purge_db \<Rightarrow> purge_result \<times> purge_err list \<times> purge_db" where
  "pruneAudit A fs cutoff r s = (case pg_audit s of
     None \<Rightarrow> (r, [], s)
   | Some a \<Rightarrow>
       (case Prune A fs cutoff a of
          (Inl (ErrChainBroken _), a) \<Rightarrow> (r\<lparr>pr_AuditSkipped := True\<rparr>, [], s\<lparr>pg_audit := Some a\<rparr>)
        | (Inl e, a) \<Rightarrow> (r\<lparr>pr_AuditLog := 0\<rparr>, [ErrAudit e], s\<lparr>pg_audit := Some a\<rparr>)
        | (Inr n, a) \<Rightarrow> (r\<lparr>pr_AuditLog := n\<rparr>, [], s\<lparr>pg_audit := Some a\<rparr>)))"

text \<open>\<open>rec\<close> is the recorder of \<open>serve\<close>, as its effect on the log; without one the job appends the row itself.\<close>

definition recordRun ::
  "audit_env \<Rightarrow> audit_stmt faults \<Rightarrow> nat \<Rightarrow> time \<Rightarrow> ((string \<times> detail) list \<Rightarrow> string option)
     \<Rightarrow> (audit_call \<Rightarrow> audit option \<Rightarrow> audit option) option \<Rightarrow> purge_result \<Rightarrow> purge_db \<Rightarrow> purge_db" where
  "recordRun A fs gap now marshal rec r s =
     (case rec of
        Some f \<Rightarrow> s\<lparr>pg_audit := f (audit_row ''retention.purge_run'' ''system'' ''retention'' (result_details r)) (pg_audit s)\<rparr>
      | None \<Rightarrow>
          (case pg_audit s of
             None \<Rightarrow> s
           | Some a \<Rightarrow> s\<lparr>pg_audit := Some (snd (Append A fs gap now ''retention.purge_run'' ''system'' ''retention'' (marshal (result_details r)) a))\<rparr>))"

record job =
  jb_env :: audit_env
  jb_marshal :: "(string \<times> detail) list \<Rightarrow> string option"
  jb_record :: "(audit_call \<Rightarrow> audit option \<Rightarrow> audit option) option"
  jb_policy :: retention_policy

record run_io =
  ri_now :: time
  ri_faults :: "purge_stmt faults"
  ri_prune :: "audit_stmt faults"
  ri_append :: "audit_stmt faults"
  ri_gap :: nat
  ri_clock :: time

definition RunOnce :: "job \<Rightarrow> run_io \<Rightarrow> purge_db \<Rightarrow> purge_result \<times> purge_err list \<times> purge_db" where
  "RunOnce j io s =
     (let now = ri_now io; p = jb_policy j
      in if \<not> validate_policy p then (no_result, [ErrPolicy], s)
      else
        let (r, es, s) = purge_steps (ri_faults io) now p [DelUserSessions, DelAdminSessions, DelTokens, DelCaptured, DelAdmins] no_result s;
            (r, s) = prune_mail (now - rp_CapturedMail p) (r, s);
            (r, es', s) = pruneAudit (jb_env j) (ri_prune io) (now - rp_AuditLog p) r s
        in (r, es @ es', recordRun (jb_env j) (ri_append io) (ri_gap io) (ri_clock io) (jb_marshal j) (jb_record j) r s))"

section \<open>What a run leaves\<close>

lemma purge_steps_frame:
  "pg_mail (snd (snd (purge_steps fs now p sts r s))) = pg_mail s \<and> pg_audit (snd (snd (purge_steps fs now p sts r s))) = pg_audit s"
  by (induction sts arbitrary: r s)
    (auto simp: purge_def exec_delete_def Let_def case_prod_beta split: purge_stmt.split if_split)

lemma prune_mail_frame: "pg_audit (snd (prune_mail c (r, s))) = pg_audit s" "pg_tokens (snd (prune_mail c (r, s))) = pg_tokens s"
  "pg_adm (snd (prune_mail c (r, s))) = pg_adm s" "pg_users (snd (prune_mail c (r, s))) = pg_users s"
  by (simp_all add: prune_mail_def case_prod_beta split: option.split)

lemma pruneAudit_frame: "pg_tokens (snd (snd (pruneAudit A fs c r s))) = pg_tokens s" "pg_adm (snd (snd (pruneAudit A fs c r s))) = pg_adm s"
  "pg_mail (snd (snd (pruneAudit A fs c r s))) = pg_mail s"
  by (auto simp: pruneAudit_def split: option.split prod.split sum.split audit_err.split)

lemma recordRun_frame: "pg_tokens (recordRun A fs g t m rec r s) = pg_tokens s" "pg_adm (recordRun A fs g t m rec r s) = pg_adm s"
  "pg_mail (recordRun A fs g t m rec r s) = pg_mail s"
  by (auto simp: recordRun_def split: option.split)

text \<open>The tables after the DELETE statements, faults included.\<close>

definition swept :: "purge_stmt faults \<Rightarrow> time \<Rightarrow> retention_policy \<Rightarrow> purge_db \<Rightarrow> purge_db" where
  "swept fs now p s = snd (snd (purge_steps fs now p [DelUserSessions, DelAdminSessions, DelTokens, DelCaptured, DelAdmins] no_result s))"

lemma RunOnce_tables:
  assumes "validate_policy (jb_policy j)"
  shows "pg_tokens (snd (snd (RunOnce j io s))) = pg_tokens (swept (ri_faults io) (ri_now io) (jb_policy j) s)"
    "pg_adm (snd (snd (RunOnce j io s))) = pg_adm (swept (ri_faults io) (ri_now io) (jb_policy j) s)"
    "pg_mail (snd (snd (RunOnce j io s))) = map_option (snd \<circ> PruneBefore (ri_now io - rp_CapturedMail (jb_policy j))) (pg_mail s)"
proof -
  let ?p = "jb_policy j"
  let ?x = "purge_steps (ri_faults io) (ri_now io) ?p [DelUserSessions, DelAdminSessions, DelTokens, DelCaptured, DelAdmins] no_result s"
  obtain r es s1 where 1: "?x = (r, es, s1)" by (cases ?x) auto
  obtain r2 s2 where 2: "prune_mail (ri_now io - rp_CapturedMail ?p) (r, s1) = (r2, s2)" by (cases "prune_mail (ri_now io - rp_CapturedMail ?p) (r, s1)")
  have m: "pg_mail s1 = pg_mail s" using purge_steps_frame [of "ri_faults io" "ri_now io" ?p _ no_result s] 1 by (metis snd_conv)
  have m2: "pg_mail s2 = map_option (snd \<circ> PruneBefore (ri_now io - rp_CapturedMail ?p)) (pg_mail s)"
    using 2 m by (auto simp: prune_mail_def case_prod_beta split: option.splits)
  have f: "pg_tokens s2 = pg_tokens s1" "pg_adm s2 = pg_adm s1"
    using prune_mail_frame [of "ri_now io - rp_CapturedMail ?p" r s1] 2 by simp_all
  note * = 1 2 assms f m2
  show "pg_tokens (snd (snd (RunOnce j io s))) = pg_tokens (swept (ri_faults io) (ri_now io) ?p s)"
    "pg_adm (snd (snd (RunOnce j io s))) = pg_adm (swept (ri_faults io) (ri_now io) ?p s)"
    "pg_mail (snd (snd (RunOnce j io s))) = map_option (snd \<circ> PruneBefore (ri_now io - rp_CapturedMail ?p)) (pg_mail s)"
    unfolding RunOnce_def Let_def swept_def using * by (simp_all add: case_prod_beta recordRun_frame pruneAudit_frame del: purge_steps.simps)
qed

definition kept_sessions :: "purge_stmt faults \<Rightarrow> time \<Rightarrow> retention_policy \<Rightarrow> purge_db \<Rightarrow> sessionRow list" where
  "kept_sessions fs now p s = filter (\<lambda>x. fs DelAdminSessions \<or> \<not> session_due (now - rp_SessionGrace p) x) (adb_sessions (pg_adm s))"

lemma purge_tokens:
  "pg_tokens (snd (snd (purge fs now p st s))) =
     (if st = DelTokens then filter (\<lambda>r. fs DelTokens \<or> \<not> r_expires r < now - rp_RequestTokens p) (pg_tokens s) else pg_tokens s)"
  by (cases st; cases "fs st") (simp_all add: purge_def exec_delete_def purge_rows_def Let_def case_prod_beta)

lemma purge_adm:
  "pg_adm (snd (snd (purge fs now p st s))) = (case st of
     DelAdminSessions \<Rightarrow> (pg_adm s)\<lparr>adb_sessions := kept_sessions fs now p s\<rparr>
   | DelAdmins \<Rightarrow> if fs DelAdmins then pg_adm s else delete_admins (\<lambda>a. before (ad_DisabledAt a) (now - rp_DisabledAdmins p)) (pg_adm s)
   | _ \<Rightarrow> pg_adm s)"
  by (cases st; cases "fs st") (simp_all add: kept_sessions_def purge_def exec_delete_def purge_rows_def Let_def case_prod_beta)

lemma swept_eq: "swept fs now p s = fold (\<lambda>st s. snd (snd (purge fs now p st s))) [DelUserSessions, DelAdminSessions, DelTokens, DelCaptured, DelAdmins] s"
proof -
  have "snd (snd (purge_steps fs now p sts r s)) = fold (\<lambda>st s. snd (snd (purge fs now p st s))) sts s" for sts r
    by (induction sts arbitrary: r s) (simp_all add: Let_def case_prod_beta)
  then show ?thesis unfolding swept_def by blast
qed

lemma swept_tokens: "pg_tokens (swept fs now p s) = filter (\<lambda>r. fs DelTokens \<or> \<not> r_expires r < now - rp_RequestTokens p) (pg_tokens s)"
  unfolding swept_eq by (simp add: purge_tokens)

lemma swept_adm:
  "pg_adm (swept fs now p s) = (let db = (pg_adm s)\<lparr>adb_sessions := kept_sessions fs now p s\<rparr>
     in if fs DelAdmins then db else delete_admins (\<lambda>a. before (ad_DisabledAt a) (now - rp_DisabledAdmins p)) db)"
  unfolding swept_eq by (simp add: purge_adm Let_def kept_sessions_def)

lemma find_filter_kept: "find P xs = Some x \<Longrightarrow> Q x \<Longrightarrow> find P (filter Q xs) = Some x"
  by (induction xs) (auto split: if_splits)

lemma swept_token_redeemable:
  assumes "validate_policy p" "now \<le> t" "consume_select sha fs' t tok (pg_tokens s) = Inr row"
  shows "consume_select sha fs' t tok (pg_tokens (swept fs now p s)) = Inr row"
proof -
  obtain r where r: "row_of (pg_tokens s) (Tokens.hashToken sha tok) = Some r" "t < r_expires r"
    using assms(3) by (auto simp: consume_select_def Let_def scanRow_def split: if_splits option.splits)
  have "0 < rp_RequestTokens p" using assms(1) by (simp add: validate_policy_def)
  then have "\<not> r_expires r < now - rp_RequestTokens p" using r(2) assms(2) by linarith
  then have "row_of (pg_tokens (swept fs now p s)) (Tokens.hashToken sha tok) = Some r"
    using r(1) unfolding row_of_def swept_tokens by (auto intro: find_filter_kept)
  then show ?thesis using assms(3) r(1) unfolding consume_select_def by (auto split: if_splits)
qed

lemma swept_session_accepted:
  assumes "validate_policy p" "now \<le> t" "fst (LookupSession E flt tf t token (pg_adm s)) = Inr x" "adm_ok (pg_adm s)"
  shows "fst (LookupSession E flt tf t token (pg_adm (swept fs now p s))) = Inr x"
proof -
  let ?db = "pg_adm s" and ?db' = "pg_adm (swept fs now p s)"
  obtain sr a where f: "find (\<lambda>s. ss_Token s = Admin_Accounts.hashToken E token) (adb_sessions ?db) = Some sr"
      "admin_by_id ?db (ss_AdminID sr) = Some a" "Admin_Accounts.validate t sr a = None" "TrimSpace token \<noteq> []" "\<not> flt"
    using assms(3) by (auto simp: LookupSession_def split: if_splits option.splits)
  have p: "0 < rp_SessionGrace p" using assms(1) by (simp add: validate_policy_def)
  have alive: "ss_RevokedAt sr = None" "t < ss_ExpiresAt sr" "t < ss_IdleExpiresAt sr" "ad_DisabledAt a = None"
    using f(3) by (auto simp: Admin_Accounts.validate_def split: if_splits)
  then have nd: "\<not> session_due (now - rp_SessionGrace p) sr" using p assms(2) by (auto simp: session_due_def before_def)
  have own: "ss_AdminID sr = ad_ID a" "a \<in> set (t_rows (adb_admins ?db))" using f(2) find_Some_in unfolding admin_by_id_def by fastforce+
  have adm: "admin_by_id ?db' (ss_AdminID sr) = Some a"
    using f(2) alive(4) unfolding swept_adm Let_def admin_by_id_def
    by (auto simp: delete_admins_def tbl_delete_def before_def intro: find_filter_kept)
  have "\<not> before (ad_DisabledAt b) c" if "b \<in> set (t_rows (adb_admins ?db))" "ad_ID b = ss_AdminID sr" for b c
    using that own alive(4) assms(4) by (auto simp: adm_ok_def tbl_wf_def before_def dest!: inj_on_eq_iff simp: distinct_map inj_on_def)
  then have "find (\<lambda>s. ss_Token s = Admin_Accounts.hashToken E token) (adb_sessions ?db') = Some sr"
    using f(1) nd unfolding swept_adm Let_def kept_sessions_def by (auto simp: delete_admins_def intro!: find_filter_kept)
  then show ?thesis using assms(3) f adm by (simp add: LookupSession_def Let_def)
qed

lemma swept_active: "has_active (pg_adm s) \<Longrightarrow> has_active (pg_adm (swept fs now p s))"
  unfolding swept_adm Let_def by (auto simp: has_active_def delete_admins_def tbl_delete_def before_def)

section \<open>The audit log over a run\<close>

text \<open>A recorder adds to the log and keeps it honest; the audit writer of the server is one.\<close>

definition appends :: "audit_env \<Rightarrow> (audit_call \<Rightarrow> audit option \<Rightarrow> audit option) \<Rightarrow> bool" where
  "appends A f \<longleftrightarrow> (\<forall>c a. audit_ok A a \<longrightarrow> (\<exists>a'. f c (Some a) = Some a' \<and> audit_ok A a' \<and> set (al_rows a) \<subseteq> set (al_rows a')))"

lemma set_insert_row: "a_seq r \<notin> a_seq ` set rs \<Longrightarrow> set (insert_row r rs) = insert r (set rs)"
  by (auto simp: insert_row_def)

lemma Append_keeps_rows: "set (al_rows a) \<subseteq> set (al_rows (snd (Append A fs g t ev ac tg d a)))"
proof -
  obtain r a' where e: "Append A fs g t ev ac tg d a = (r, a')" by (cases "Append A fs g t ev ac tg d a")
  have "set (al_rows a) \<subseteq> set (al_rows a')" by (rule Append_cases [OF e]) (auto simp: set_insert_row)
  then show ?thesis by (simp add: e)
qed

lemma server_recorder_appends:
  assumes "crypto_ok (pb_audit E)"
  shows "appends (pb_audit E) (\<lambda>c a. sv_audit (auditAppend E C io c (s\<lparr>sv_audit := a\<rparr>)))"
  unfolding appends_def
proof (intro allI impI)
  fix c :: audit_call and a
  assume ok: "audit_ok (pb_audit E) a"
  let ?ap = "Append (pb_audit E) (fst (io_audit io (ac_event c))) (snd (io_audit io (ac_event c))) (io_time io (ac_event c))
                  (ac_event c) (ac_actor c) (ac_target c) (pb_details E (ac_details c)) a"
  have "sv_audit (auditAppend E C io c (s\<lparr>sv_audit := Some a\<rparr>)) = Some (snd ?ap)"
    by (simp add: auditAppend_def case_prod_beta split: sum.split)
  then show "\<exists>a'. sv_audit (auditAppend E C io c (s\<lparr>sv_audit := Some a\<rparr>)) = Some a' \<and> audit_ok (pb_audit E) a' \<and> set (al_rows a) \<subseteq> set (al_rows a')"
    using audit_ok_Append [OF assms ok] Append_keeps_rows by blast
qed

lemma recordRun_audit:
  assumes "crypto_ok A" "\<forall>f. rec = Some f \<longrightarrow> appends A f" "pg_audit s = Some a" "audit_ok A a"
  shows "\<exists>a'. pg_audit (recordRun A fs g t m rec r s) = Some a' \<and> audit_ok A a' \<and> set (al_rows a) \<subseteq> set (al_rows a')"
  using assms audit_ok_Append [OF assms(1,4)] Append_keeps_rows [of a]
  by (auto simp: recordRun_def appends_def split: option.split)

lemma pruneAudit_honest:
  assumes "crypto_ok A" "ae_key A" "audit_ok A a" "pg_audit s = Some a"
  shows "\<exists>a'. pg_audit (snd (snd (pruneAudit A fs cutoff r s))) = Some a' \<and> audit_ok A a'
    \<and> (\<forall>row\<in>set (al_rows a). row \<in> set (al_rows a') \<or> before (a_occurred row) cutoff)
    \<and> pr_AuditSkipped (fst (pruneAudit A fs cutoff r s)) = pr_AuditSkipped r"
proof -
  obtain x a' where e: "Prune A fs cutoff a = (x, a')" by (cases "Prune A fs cutoff a")
  have ok: "audit_ok A a'" using audit_ok_Prune [OF assms(1,3), of fs cutoff] e by simp
  have nb: "x \<noteq> Inl (ErrChainBroken b)" for b
    using e verifyTx_honest [OF assms(3)] assms(2) by (auto simp: Prune_def Let_def case_prod_beta split: if_splits)
  have rows: "row \<in> set (al_rows a') \<or> before (a_occurred row) cutoff" if "row \<in> set (al_rows a)" for row
  proof (cases x)
    case (Inl er)
    have "al_rows a' = al_rows a" using e Inl assms(2) unfolding Prune_def Let_def case_prod_beta verifyTx_snd by (auto split: if_splits)
    then show ?thesis using that by simp
  next
    case (Inr n)
    then obtain old where "al_rows a = old @ al_rows a'" "\<forall>r\<in>set old. \<exists>t. a_occurred r = Some t \<and> t < cutoff"
      using prune_removes_only_old_rows [OF assms(1,2), of a fs cutoff n a' 0] assms(3) e by auto
    then show ?thesis using that by (auto simp: before_def)
  qed
  show ?thesis using assms(4) e ok nb rows by (auto simp: pruneAudit_def split: sum.split audit_err.split)
qed

lemma RunOnce_audit:
  assumes "crypto_ok (jb_env j)" "ae_key (jb_env j)" "audit_ok (jb_env j) a" "pg_audit s = Some a" "validate_policy (jb_policy j)"
    "\<forall>f. jb_record j = Some f \<longrightarrow> appends (jb_env j) f"
  shows "\<exists>a'. pg_audit (snd (snd (RunOnce j io s))) = Some a' \<and> audit_ok (jb_env j) a'
    \<and> (\<forall>row\<in>set (al_rows a). row \<in> set (al_rows a') \<or> before (a_occurred row) (ri_now io - rp_AuditLog (jb_policy j)))"
proof -
  let ?p = "jb_policy j" and ?A = "jb_env j"
  let ?c = "ri_now io - rp_AuditLog ?p"
  obtain r es s1 where 1: "purge_steps (ri_faults io) (ri_now io) ?p [DelUserSessions, DelAdminSessions, DelTokens, DelCaptured, DelAdmins] no_result s = (r, es, s1)"
    by (metis prod.collapse)
  obtain r2 s2 where 2: "prune_mail (ri_now io - rp_CapturedMail ?p) (r, s1) = (r2, s2)" by (metis prod.collapse)
  obtain r3 es3 s3 where 3: "pruneAudit ?A (ri_prune io) ?c r2 s2 = (r3, es3, s3)" by (metis prod.collapse)
  have "pg_audit s1 = Some a" using purge_steps_frame [of "ri_faults io" "ri_now io" ?p _ no_result s] 1 assms(4) by (metis snd_conv)
  then have "pg_audit s2 = Some a" using prune_mail_frame(1) [of "ri_now io - rp_CapturedMail ?p" r s1] 2 by simp
  from pruneAudit_honest [OF assms(1-3) this, of "ri_prune io" ?c r2] obtain a3 where a3: "pg_audit s3 = Some a3" "audit_ok ?A a3"
      "\<forall>row\<in>set (al_rows a). row \<in> set (al_rows a3) \<or> before (a_occurred row) ?c"
    using 3 by auto
  have "snd (snd (RunOnce j io s)) = recordRun ?A (ri_append io) (ri_gap io) (ri_clock io) (jb_marshal j) (jb_record j) r3 s3"
    unfolding RunOnce_def Let_def using 1 2 3 assms(5) by (simp del: purge_steps.simps)
  then show ?thesis using recordRun_audit [OF assms(1,6) a3(1,2)] a3(3) by fastforce
qed

section \<open>Properties\<close>

definition toy_row :: "string \<Rightarrow> time \<Rightarrow> tok_row" where
  "toy_row h e = \<lparr>r_hash = h, r_email = ''bob@corp.com'', r_domain = ''corp.com'', r_req_ip = None, r_req_ua = None, r_issued = e - 900, r_expires = e,
     r_consumed = None, r_cons_ip = None, r_cons_ua = None\<rparr>"

definition toy_purge :: purge_db where
  "toy_purge = \<lparr>pg_users = [], pg_adm = empty_adm_db,
     pg_tokens = [toy_row (Tokens.hashToken id ''old'') 5, toy_row (Tokens.hashToken id ''new'') (50 * day)],
     pg_captured = [], pg_mail = Some (NewStore 3), pg_audit = Some two_rows\<rparr>"

definition toy_job :: job where
  "toy_job = \<lparr>jb_env = flat_env, jb_marshal = (\<lambda>_. Some ''{}''), jb_record = None, jb_policy = DefaultPolicy\<rparr>"

definition toy_run :: run_io where
  "toy_run = \<lparr>ri_now = 40 * day, ri_faults = no_faults, ri_prune = no_faults, ri_append = no_faults, ri_gap = 0, ri_clock = 40 * day\<rparr>"

lemma toy_policy: "validate_policy DefaultPolicy"
  by (simp add: validate_policy_def DefaultPolicy_def day_def)

text \<open>
  C20. A purge never takes live data. Whatever statements fail, a run leaves every link that can still be redeemed redeemable, every
  session that is still accepted accepted, and an active administrator if there was one; a zero or negative period is refused
  and changes nothing.
\<close>

theorem retention_spares_live_data:
  assumes "adm_ok (pg_adm s)" "RunOnce j io s = (r, es, s')" "ri_now io \<le> t"
  shows "(\<not> validate_policy (jb_policy j) \<longrightarrow> s' = s \<and> es = [ErrPolicy])
    \<and> (consume_select sha fs t tok (pg_tokens s) = Inr row \<longrightarrow> consume_select sha fs t tok (pg_tokens s') = Inr row)
    \<and> (fst (LookupSession E flt tf t token (pg_adm s)) = Inr x \<longrightarrow> fst (LookupSession E flt tf t token (pg_adm s')) = Inr x)
    \<and> (has_active (pg_adm s) \<longrightarrow> has_active (pg_adm s'))"
proof (cases "validate_policy (jb_policy j)")
  case True
  have "s' = snd (snd (RunOnce j io s))" using assms(2) by simp
  then have t: "pg_tokens s' = pg_tokens (swept (ri_faults io) (ri_now io) (jb_policy j) s)" "pg_adm s' = pg_adm (swept (ri_faults io) (ri_now io) (jb_policy j) s)"
    using RunOnce_tables [OF True] by metis+
  show ?thesis unfolding t using True swept_token_redeemable [OF True assms(3)] swept_session_accepted [OF True assms(3) _ assms(1)] swept_active by blast
next
  case False
  then show ?thesis using assms(2) by (simp add: RunOnce_def Let_def)
qed

theorem retention_spares_live_data_witness:
  "length (pg_tokens (snd (snd (RunOnce toy_job toy_run toy_purge)))) = 1
   \<and> consume_select id no_faults (45 * day) ''new'' (pg_tokens (snd (snd (RunOnce toy_job toy_run toy_purge))))
     = consume_select id no_faults (45 * day) ''new'' (pg_tokens toy_purge)"
proof
  show "length (pg_tokens (snd (snd (RunOnce toy_job toy_run toy_purge)))) = 1" by code_simp
  have "\<not> isl (consume_select id no_faults (45 * day) ''new'' (pg_tokens toy_purge))" by code_simp
  then obtain row where row: "consume_select id no_faults (45 * day) ''new'' (pg_tokens toy_purge) = Inr row"
    by (cases "consume_select id no_faults (45 * day) ''new'' (pg_tokens toy_purge)") auto
  have "RunOnce toy_job toy_run toy_purge = (fst (RunOnce toy_job toy_run toy_purge), fst (snd (RunOnce toy_job toy_run toy_purge)),
      snd (snd (RunOnce toy_job toy_run toy_purge)))" by simp
  moreover have "adm_ok (pg_adm toy_purge)" "ri_now toy_run \<le> 45 * day" by (simp_all add: toy_purge_def adm_ok_def tbl_wf_def empty_adm_db_def empty_table_def toy_run_def day_def)
  ultimately show "consume_select id no_faults (45 * day) ''new'' (pg_tokens (snd (snd (RunOnce toy_job toy_run toy_purge))))
     = consume_select id no_faults (45 * day) ''new'' (pg_tokens toy_purge)"
    using retention_spares_live_data [of toy_purge toy_job toy_run _ _ _ "45 * day" id no_faults "''new''" row] row by metis
qed

text \<open>
  C21. A purge keeps the log honest: on a log that verifies, a run with any failures removes only rows older than the retention period of the
  log, and the log it leaves, its own summary row included, verifies again.
\<close>

theorem purged_log_still_verifies:
  assumes "crypto_ok (jb_env j)" "ae_key (jb_env j)" "audit_ok (jb_env j) a" "pg_audit s = Some a"
    "\<forall>f. jb_record j = Some f \<longrightarrow> appends (jb_env j) f"
  shows "\<exists>a'. pg_audit (snd (snd (RunOnce j io s))) = Some a' \<and> fst (VerifyChain (jb_env j) no_faults a') = Inr 0
    \<and> (\<forall>row\<in>set (al_rows a). row \<in> set (al_rows a') \<or> before (a_occurred row) (ri_now io - rp_AuditLog (jb_policy j)))"
proof (cases "validate_policy (jb_policy j)")
  case True
  from RunOnce_audit [OF assms(1-4) True assms(5), of io] show ?thesis
    using verifyTx_honest assms(2) by (fastforce simp: VerifyChain_def case_prod_beta)
next
  case False
  then have "snd (snd (RunOnce j io s)) = s" by (simp add: RunOnce_def Let_def)
  then show ?thesis using assms(2,4) verifyTx_honest [OF assms(3)] by (simp add: VerifyChain_def case_prod_beta)
qed

lemma two_rows_ok: "audit_ok flat_env two_rows"
  using aud.inv_run [of flat_env "cut_over flat_env [] 1"] audit_ok_cut_over [OF flat_env_ok legacy_log_empty] flat_env_ok(1)
  unfolding two_rows_def by blast

theorem purged_log_still_verifies_witness:
  "\<exists>a'. pg_audit (snd (snd (RunOnce toy_job (toy_run\<lparr>ri_now := 366 * day\<rparr>) toy_purge))) = Some a'
     \<and> fst (VerifyChain flat_env no_faults a') = Inr 0"
  using purged_log_still_verifies [of toy_job two_rows toy_purge "toy_run\<lparr>ri_now := 366 * day\<rparr>"] flat_env_ok two_rows_ok
  by (auto simp: toy_job_def toy_purge_def)

text \<open>
  Nothing outlives its period: after a run without failures no token, session, captured mail or disabled account is left
  that was overdue when the run began.
\<close>

theorem retention_purges_overdue:
  assumes "RunOnce j io s = (r, es, s')" "validate_policy (jb_policy j)" "ri_faults io = no_faults"
  shows "(\<forall>x\<in>set (pg_tokens s'). ri_now io - rp_RequestTokens (jb_policy j) \<le> r_expires x)
    \<and> (\<forall>x\<in>set (adb_sessions (pg_adm s')). \<not> session_due (ri_now io - rp_SessionGrace (jb_policy j)) x)
    \<and> (\<forall>a\<in>set (t_rows (adb_admins (pg_adm s'))). \<not> before (ad_DisabledAt a) (ri_now io - rp_DisabledAdmins (jb_policy j)))
    \<and> (\<forall>m. pg_mail s' = Some m \<longrightarrow> (\<forall>c\<in>set (ms_items m). ri_now io - rp_CapturedMail (jb_policy j) \<le> cm_Timestamp c))"
proof -
  have "s' = snd (snd (RunOnce j io s))" using assms(1) by simp
  then have t: "pg_tokens s' = pg_tokens (swept no_faults (ri_now io) (jb_policy j) s)" "pg_adm s' = pg_adm (swept no_faults (ri_now io) (jb_policy j) s)"
      "pg_mail s' = map_option (snd \<circ> PruneBefore (ri_now io - rp_CapturedMail (jb_policy j))) (pg_mail s)"
    using RunOnce_tables [OF assms(2), of io s] assms(3) by auto
  show ?thesis unfolding t swept_tokens swept_adm Let_def
    by (auto simp: delete_admins_def tbl_delete_def kept_sessions_def PruneBefore_def Let_def)
qed

theorem retention_purges_overdue_witness:
  "\<forall>x\<in>set (pg_tokens (snd (snd (RunOnce toy_job toy_run toy_purge)))). 10 * day \<le> r_expires x"
proof -
  have "RunOnce toy_job toy_run toy_purge = (fst (RunOnce toy_job toy_run toy_purge), fst (snd (RunOnce toy_job toy_run toy_purge)),
      snd (snd (RunOnce toy_job toy_run toy_purge)))" by simp
  from retention_purges_overdue [OF this] show ?thesis
    using toy_policy by (simp add: toy_job_def toy_run_def DefaultPolicy_def)
qed

end
