(* ===== verification/Smtp.thy ===== *)
theory Smtp
  imports Public_Flow Crypto_Box Totp
begin

text \<open>
  Mail transport: the SMTP sender (\<open>internal/mailer\<close>), the stored relay settings (\<open>internal/smtpconfig\<close>) and how the server picks the
  sender in use (\<open>SetSender\<close>, \<open>RebuildSMTPSender\<close>, \<open>resetSMTPSender\<close>). A connection is a list of what the client writes, each item with
  whether the connection was encrypted then; the relay is a script of replies, so it may answer anything. The client of \<open>net/smtp\<close> is
  modelled as far as the sender uses it.
\<close>

section \<open>The sender\<close>

record smtp_cfg =
  sc_Host :: string
  sc_Port :: int
  sc_Username :: string
  sc_Password :: string
  sc_FromAddress :: string
  sc_TLS :: string
  sc_Timeout :: duration
  sc_InsecureSkipVerify :: bool
  sc_ServerName :: string

text \<open>What is used of other code: whether an address literal is a loopback address (\<open>net.ParseIP\<close>), case folding beyond ASCII, the
  address parser of \<open>net/mail\<close>, the Unicode tables and the encoder of header words.\<close>

record smtp_env =
  sm_loopIP :: "string \<Rightarrow> bool"
  sm_folds :: "rune \<Rightarrow> rune \<Rightarrow> bool"
  sm_parse :: "string \<Rightarrow> string option"
  sm_U :: unicode
  sm_qenc :: "string \<Rightarrow> string"

definition NewSMTPSender :: "smtp_cfg \<Rightarrow> string + smtp_cfg" where
  "NewSMTPSender cfg =
     (if TrimSpace (sc_Host cfg) = [] then Inl ''empty host''
      else
        let cfg = (if sc_Port cfg = 0 then cfg\<lparr>sc_Port := (if sc_TLS cfg = ''implicit'' then 465 else 587)\<rparr> else cfg)
        in if sc_TLS cfg \<notin> {'''', ''auto'', ''starttls'', ''implicit'', ''disable''} then Inl ''unknown TLS mode''
        else
          let cfg = (if sc_TLS cfg = '''' then cfg\<lparr>sc_TLS := ''auto''\<rparr> else cfg);
              cfg = (if sc_Timeout cfg = 0 then cfg\<lparr>sc_Timeout := 30 * second\<rparr> else cfg);
              cfg = (if sc_ServerName cfg = [] then cfg\<lparr>sc_ServerName := sc_Host cfg\<rparr> else cfg)
          in Inr cfg)"

definition isLoopbackHost :: "smtp_env \<Rightarrow> string \<Rightarrow> bool" where
  "isLoopbackHost E host \<longleftrightarrow> EqualFold (sm_folds E) host ''localhost'' \<or> sm_loopIP E host"

section \<open>Connections\<close>

datatype cause = CReply int string | CCert string | CTimeout string | COther string

fun cause_text :: "cause \<Rightarrow> string" where
  "cause_text (CReply _ t) = t"
| "cause_text (CCert t) = t"
| "cause_text (CTimeout t) = t"
| "cause_text (COther t) = t"

datatype wire_cmd = WHello | WStartTLS | WAuthPlain string string | WAuthLogin | WResponse string | WCancel
  | WMail string | WRcpt string | WData string | WQuit

type_synonym wire = "bool \<times> wire_cmd"

record client =
  cl_tls :: bool
  cl_ext :: "(string \<times> string) list"
  cl_server :: string

text \<open>The replies of a relay: the extensions it announces before and after the upgrade, the replies during authentication (code and decoded
  challenge, \<open>None\<close> when it does not decode) and, for each other step, the failure if there is one.\<close>

record relay =
  rl_dial :: "cause option"
  rl_hello :: "cause option"
  rl_ext :: "(string \<times> string) list"
  rl_starttls :: "cause option"
  rl_ext_tls :: "(string \<times> string) list"
  rl_auth :: "(int \<times> string option) list"
  rl_mail :: "cause option"
  rl_rcpt :: "cause option"
  rl_data :: "cause option"
  rl_write :: "cause option"
  rl_close :: "cause option"
  rl_quit :: "cause option"

definition StartTLS :: "relay \<Rightarrow> client \<Rightarrow> cause option \<times> client \<times> wire list" where
  "StartTLS rl c =
     (case rl_starttls rl of
        Some e \<Rightarrow> (Some e, c, [(cl_tls c, WStartTLS)])
      | None \<Rightarrow> (None, c\<lparr>cl_tls := True, cl_ext := rl_ext_tls rl\<rparr>, [(cl_tls c, WStartTLS), (True, WHello)]))"

definition maybeStartTLS :: "smtp_env \<Rightarrow> smtp_cfg \<Rightarrow> relay \<Rightarrow> client \<Rightarrow> cause option \<times> client \<times> wire list" where
  "maybeStartTLS E cfg rl c =
     (if sc_TLS cfg = ''disable'' \<or> sc_TLS cfg = ''implicit'' then (None, c, [])
      else if sc_TLS cfg = ''starttls'' then
        (if map_of (cl_ext c) ''STARTTLS'' = None then (Some (COther ''server does not advertise STARTTLS''), c, []) else StartTLS rl c)
      else if sc_TLS cfg = ''auto'' then
        (if map_of (cl_ext c) ''STARTTLS'' \<noteq> None then StartTLS rl c
         else if isLoopbackHost E (sc_Host cfg) then (None, c, [])
         else (Some (COther ''server does not advertise STARTTLS; refusing plaintext to a non-loopback relay''), c, []))
      else (Some (COther ''unknown TLS mode''), c, []))"

section \<open>Authentication\<close>

text \<open>\<open>smtp.PlainAuth\<close> and \<open>loginAuth\<close>: what \<open>Start\<close> sends, or its refusal, and the answer to a challenge.\<close>

datatype auth = PlainAuth string string string | LoginAuth string string

definition auth_start :: "smtp_env \<Rightarrow> client \<Rightarrow> auth \<Rightarrow> cause + wire_cmd" where
  "auth_start E c a = (case a of
     PlainAuth u p host \<Rightarrow>
       if \<not> cl_tls c \<and> cl_server c \<notin> {''localhost'', ''127.0.0.1'', ''::1''} then Inl (COther ''unencrypted connection'')
       else if cl_server c \<noteq> host then Inl (COther ''wrong host name'')
       else Inr (WAuthPlain u p)
   | LoginAuth u p \<Rightarrow>
       if \<not> cl_tls c \<and> \<not> isLoopbackHost E (cl_server c) then Inl (COther ''unencrypted connection'') else Inr WAuthLogin)"

definition auth_next :: "smtp_env \<Rightarrow> auth \<Rightarrow> string \<Rightarrow> bool \<Rightarrow> cause + string option" where
  "auth_next E a fromServer ongoing = (case a of
     PlainAuth u p host \<Rightarrow> if ongoing then Inl (COther ''unexpected server challenge'') else Inr None
   | LoginAuth u p \<Rightarrow>
       if \<not> ongoing then Inr None
       else let ch = ToLower (sm_U E) (TrimSpace fromServer)
            in if ch = ''username:'' then Inr (Some u) else if ch = ''password:'' then Inr (Some p)
               else Inl (COther ''unexpected LOGIN challenge''))"

text \<open>The loop of \<open>Client.Auth\<close> over the replies of the relay; a challenge that does not decode, any other code and a refusal of the
  mechanism end it. When the script is exhausted the connection is gone.\<close>

fun auth_loop :: "smtp_env \<Rightarrow> bool \<Rightarrow> auth \<Rightarrow> (int \<times> string option) list \<Rightarrow> cause option \<times> wire list" where
  "auth_loop E tls a [] = (Some (COther ''EOF''), [])"
| "auth_loop E tls a ((code, m) # rs) =
     (let cancel = [(tls, WCancel), (tls, WQuit)]
      in if code = 334 \<and> m = None then (Some (COther ''illegal base64 data''), cancel)
      else if code \<noteq> 334 \<and> code \<noteq> 235 then (Some (CReply code (case m of None \<Rightarrow> [] | Some t \<Rightarrow> t)), cancel)
      else case auth_next E a (case m of None \<Rightarrow> [] | Some t \<Rightarrow> t) (code = 334) of
        Inl e \<Rightarrow> (Some e, cancel)
      | Inr None \<Rightarrow> (None, [])
      | Inr (Some resp) \<Rightarrow> let (e, w) = auth_loop E tls a rs in (e, (tls, WResponse resp) # w))"

definition Auth :: "smtp_env \<Rightarrow> relay \<Rightarrow> client \<Rightarrow> auth \<Rightarrow> cause option \<times> wire list" where
  "Auth E rl c a =
     (case auth_start E c a of
        Inl e \<Rightarrow> (Some e, [(cl_tls c, WQuit)])
      | Inr cmd \<Rightarrow> let (e, w) = auth_loop E (cl_tls c) a (rl_auth rl) in (e, (cl_tls c, cmd) # w))"

definition maybeAuth :: "smtp_env \<Rightarrow> smtp_cfg \<Rightarrow> relay \<Rightarrow> client \<Rightarrow> cause option \<times> wire list" where
  "maybeAuth E cfg rl c =
     (if sc_Username cfg = [] then (None, [])
      else if \<not> cl_tls c \<and> \<not> isLoopbackHost E (sc_Host cfg) then (Some (COther ''refusing to send credentials over an unencrypted connection''), [])
      else case map_of (cl_ext c) ''AUTH'' of
        None \<Rightarrow> (Some (COther ''server does not advertise AUTH''), [])
      | Some mechs \<Rightarrow>
          if sublist ''PLAIN'' mechs then Auth E rl c (PlainAuth (sc_Username cfg) (sc_Password cfg) (sc_Host cfg))
          else if sublist ''LOGIN'' mechs then Auth E rl c (LoginAuth (sc_Username cfg) (sc_Password cfg))
          else (Some (COther ''no supported AUTH mechanism''), []))"

section \<open>Sending\<close>

record send_err =
  er_text :: string
  er_cause :: cause

definition fail :: "string \<Rightarrow> cause \<Rightarrow> send_err" where
  "fail label c = \<lparr>er_text = label @ cause_text c, er_cause = c\<rparr>"

text \<open>The dialer: \<open>net.Dial\<close> takes the address apart first; the implicit mode completes the handshake before the greeting.\<close>

definition dial :: "smtp_cfg \<Rightarrow> relay \<Rightarrow> string \<Rightarrow> cause + client" where
  "dial cfg rl addr =
     (case SplitHostPort addr of
        None \<Rightarrow> Inl (COther ''too many colons in address'')
      | Some host \<Rightarrow>
          (case rl_dial rl of
             Some e \<Rightarrow> Inl e
           | None \<Rightarrow> Inr \<lparr>cl_tls = (sc_TLS cfg = ''implicit''), cl_ext = rl_ext rl, cl_server = host\<rparr>))"

text \<open>The part of \<open>Send\<close> from MAIL to QUIT.\<close>

definition transfer :: "smtp_env \<Rightarrow> relay \<Rightarrow> bool \<Rightarrow> string \<Rightarrow> string \<Rightarrow> message \<Rightarrow> send_err option \<times> wire list" where
  "transfer E rl tls envelopeFrom envelopeTo msg =
     (let m = (tls, WMail envelopeFrom); r = (tls, WRcpt envelopeTo); d = (tls, WData (String_of (sm_qenc E) msg))
      in case rl_mail rl of Some e \<Rightarrow> (Some (fail ''mailer: MAIL FROM: '' e), [m]) | None \<Rightarrow>
         case rl_rcpt rl of Some e \<Rightarrow> (Some (fail ''mailer: RCPT TO: '' e), [m, r]) | None \<Rightarrow>
         case rl_data rl of Some e \<Rightarrow> (Some (fail ''mailer: DATA: '' e), [m, r]) | None \<Rightarrow>
         case rl_write rl of Some e \<Rightarrow> (Some (fail ''mailer: write body: '' e), [m, r, d]) | None \<Rightarrow>
         case rl_close rl of Some e \<Rightarrow> (Some (fail ''mailer: close DATA: '' e), [m, r, d]) | None \<Rightarrow>
         (case rl_quit rl of Some e \<Rightarrow> Some (fail [] e) | None \<Rightarrow> None, [m, r, d, (tls, WQuit)]))"

definition Send :: "smtp_env \<Rightarrow> smtp_cfg \<Rightarrow> relay \<Rightarrow> message \<Rightarrow> send_err option \<times> wire list" where
  "Send E cfg rl msg =
     (if m_To msg = [] then (Some (fail ''mailer: empty recipient'' (COther [])), [])
      else case (if sc_FromAddress cfg = [] then sm_parse E (m_From msg) else Some (sc_FromAddress cfg)) of
        None \<Rightarrow> (Some (fail ''mailer: parse From header '' (COther (m_From msg))), [])
      | Some envelopeFrom \<Rightarrow>
          (case sm_parse E (m_To msg) of
             None \<Rightarrow> (Some (fail ''mailer: parse To header '' (COther (m_To msg))), [])
           | Some envelopeTo \<Rightarrow>
               let addr = sc_Host cfg @ '':'' @ json_int (sc_Port cfg)
               in case dial cfg rl addr of
                    Inl e \<Rightarrow> (Some (fail (''mailer: dial '' @ addr @ '': '') e), [])
                  | Inr c \<Rightarrow>
                      let w0 = [(cl_tls c, WHello)]
                      in case rl_hello rl of
                           Some e \<Rightarrow> (Some (fail ''mailer: HELO: '' e), w0)
                         | None \<Rightarrow>
                             (case maybeStartTLS E cfg rl c of
                                (Some e, _, w1) \<Rightarrow> (Some (fail ''mailer: STARTTLS: '' e), w0 @ w1)
                              | (None, c, w1) \<Rightarrow>
                                  (case maybeAuth E cfg rl c of
                                     (Some e, w2) \<Rightarrow> (Some (fail ''mailer: AUTH: '' e), w0 @ w1 @ w2)
                                   | (None, w2) \<Rightarrow>
                                       let (e, w3) = transfer E rl (cl_tls c) envelopeFrom envelopeTo msg in (e, w0 @ w1 @ w2 @ w3)))))"

definition sendStages :: "(string \<times> string) list" where
  "sendStages = [(''mailer: dial '', ''dial''), (''mailer: HELO: '', ''helo''), (''mailer: STARTTLS: '', ''starttls''), (''mailer: AUTH: '', ''auth''),
     (''mailer: MAIL FROM: '', ''mail_from''), (''mailer: RCPT TO: '', ''rcpt_to''), (''mailer: DATA: '', ''data''),
     (''mailer: write body: '', ''data''), (''mailer: close DATA: '', ''data'')]"

definition FailureStatus :: "send_err option \<Rightarrow> string" where
  "FailureStatus err = (case err of
     None \<Rightarrow> []
   | Some e \<Rightarrow>
       let stage = (case find (\<lambda>s. HasPrefix (er_text e) (fst s)) sendStages of None \<Rightarrow> ''failed'' | Some s \<Rightarrow> snd s)
       in case er_cause e of
            CReply code _ \<Rightarrow> stage @ '' (SMTP '' @ json_int code @ '')''
          | CCert _ \<Rightarrow> stage @ '' (certificate rejected)''
          | CTimeout _ \<Rightarrow> stage @ '' (timeout)''
          | COther _ \<Rightarrow> stage)"

section \<open>What goes over the wire\<close>

fun carries_credentials :: "wire_cmd \<Rightarrow> bool" where
  "carries_credentials (WAuthPlain _ _) = True"
| "carries_credentials (WResponse _) = True"
| "carries_credentials _ = False"

fun carries_mail :: "wire_cmd \<Rightarrow> bool" where
  "carries_mail (WData _) = True"
| "carries_mail (WRcpt _) = True"
| "carries_mail _ = False"

lemma maybeStartTLS_wire:
  assumes "maybeStartTLS E cfg rl c = (e, c', w)"
  shows "\<forall>x\<in>set w. \<not> carries_credentials (snd x) \<and> \<not> carries_mail (snd x)"
    "e = None \<Longrightarrow> cl_tls c' \<or> sc_TLS cfg = ''disable'' \<or> (sc_TLS cfg = ''implicit'' \<and> c' = c) \<or> (sc_TLS cfg = ''auto'' \<and> isLoopbackHost E (sc_Host cfg))"
  using assms by (auto simp: maybeStartTLS_def StartTLS_def split: if_splits option.splits)

lemma auth_loop_wire: "auth_loop E tls a rs = (e, w) \<Longrightarrow> \<forall>x\<in>set w. fst x = tls \<and> \<not> carries_mail (snd x)"
proof (induction rs arbitrary: e w)
  case (Cons r rs)
  obtain code m where r: "r = (code, m)" by (cases r)
  obtain e' w' where l: "auth_loop E tls a rs = (e', w')" by (cases "auth_loop E tls a rs")
  show ?case using Cons.prems Cons.IH [OF l] l unfolding r by (auto simp: Let_def split: if_splits sum.splits option.splits)
qed simp

lemma maybeAuth_wire:
  assumes "maybeAuth E cfg rl c = (e, w)"
  shows "\<forall>x\<in>set w. fst x = cl_tls c \<and> \<not> carries_mail (snd x)" "w \<noteq> [] \<Longrightarrow> cl_tls c \<or> isLoopbackHost E (sc_Host cfg)"
proof -
  have "\<forall>x\<in>set w. fst x = cl_tls c \<and> \<not> carries_mail (snd x)" if "Auth E rl c a = (e, w)" for a
    using that auth_loop_wire [of E "cl_tls c" a "rl_auth rl"]
    by (cases "auth_loop E (cl_tls c) a (rl_auth rl)") (auto simp: Auth_def auth_start_def split: sum.splits auth.splits if_splits)
  then show "\<forall>x\<in>set w. fst x = cl_tls c \<and> \<not> carries_mail (snd x)"
    using assms unfolding maybeAuth_def by (auto split: if_splits option.splits)
  show "w \<noteq> [] \<Longrightarrow> cl_tls c \<or> isLoopbackHost E (sc_Host cfg)" using assms by (auto simp: maybeAuth_def split: if_splits)
qed

lemma transfer_wire: "transfer E rl tls f t m = (e, w) \<Longrightarrow> x \<in> set w \<Longrightarrow> fst x = tls \<and> \<not> carries_credentials (snd x)"
  by (auto simp: transfer_def Let_def split: option.splits)

lemma transfer_delivers:
  "transfer E rl tls f t m = (None, w) \<Longrightarrow> w = [(tls, WMail f), (tls, WRcpt t), (tls, WData (String_of (sm_qenc E) m)), (tls, WQuit)]"
  by (auto simp: transfer_def Let_def split: option.splits)

text \<open>The stages of a connection that \<open>Send\<close> opened.\<close>

lemma Send_cases:
  assumes "Send E cfg rl msg = (e, w)"
  obtains (unsent) "w = []" "e \<noteq> None"
  | (greeted) c er where "dial cfg rl (sc_Host cfg @ '':'' @ json_int (sc_Port cfg)) = Inr c" "w = [(cl_tls c, WHello)]" "e = Some er"
  | (upgrade) c c' x w1 er where "dial cfg rl (sc_Host cfg @ '':'' @ json_int (sc_Port cfg)) = Inr c" "maybeStartTLS E cfg rl c = (Some x, c', w1)"
      "w = (cl_tls c, WHello) # w1" "e = Some er"
  | (authn) c c' x w1 w2 er where "dial cfg rl (sc_Host cfg @ '':'' @ json_int (sc_Port cfg)) = Inr c" "maybeStartTLS E cfg rl c = (None, c', w1)"
      "maybeAuth E cfg rl c' = (Some x, w2)" "w = (cl_tls c, WHello) # w1 @ w2" "e = Some er"
  | (shipped) c c' w1 w2 w3 f t where "dial cfg rl (sc_Host cfg @ '':'' @ json_int (sc_Port cfg)) = Inr c" "maybeStartTLS E cfg rl c = (None, c', w1)"
      "maybeAuth E cfg rl c' = (None, w2)" "transfer E rl (cl_tls c') f t msg = (e, w3)" "w = (cl_tls c, WHello) # w1 @ w2 @ w3"
      "sm_parse E (m_To msg) = Some t"
proof (cases "m_To msg = []")
  case True
  then show thesis using assms unsent by (auto simp: Send_def)
next
  case to: False
  define from_addr where "from_addr = (if sc_FromAddress cfg = [] then sm_parse E (m_From msg) else Some (sc_FromAddress cfg))"
  define addr where "addr = sc_Host cfg @ '':'' @ json_int (sc_Port cfg)"
  note send = assms [unfolded Send_def Let_def, folded from_addr_def addr_def]
  show thesis
  proof (cases from_addr)
    case None
    then show thesis using send to unsent by auto
  next
    case f: (Some f)
    show thesis
    proof (cases "sm_parse E (m_To msg)")
      case None
      then show thesis using send to f unsent by auto
    next
      case t: (Some t)
      show thesis
      proof (cases "dial cfg rl addr")
        case (Inl x)
        then show thesis using send to f t unsent by auto
      next
        case c: (Inr c)
        obtain x1 c' w1 where u: "maybeStartTLS E cfg rl c = (x1, c', w1)" by (cases "maybeStartTLS E cfg rl c")
        obtain x2 w2 where a: "maybeAuth E cfg rl c' = (x2, w2)" by (cases "maybeAuth E cfg rl c'")
        obtain x3 w3 where tr: "transfer E rl (cl_tls c') f t msg = (x3, w3)" by (cases "transfer E rl (cl_tls c') f t msg")
        note d = c [unfolded addr_def]
        show thesis
        proof (cases "rl_hello rl")
          case None
          then show thesis
            using send to f t c u a tr greeted [OF d] upgrade [OF d] authn [OF d] shipped [OF d _ _ _ _ t]
            by (cases x1; cases x2) (auto simp: append_eq_Cons_conv)
        qed (use send to f t c greeted [OF d] in auto)
      qed
    qed
  qed
qed

section \<open>Properties of the sender\<close>

text \<open>
  C8. Neither the relay password nor a reveal link leaves in clear by accident. Whatever the relay answers, an unencrypted connection of
  a sender that \<open>NewSMTPSender\<close> accepted carries credentials only to a loopback host, and recipients or mail only if the operator
  disabled TLS or, in automatic mode, to a loopback host; an implicit-TLS connection carries nothing in clear.
\<close>

theorem relay_secrets_never_in_clear:
  assumes "NewSMTPSender raw = Inr cfg" "Send E cfg rl msg = (e, w)" "(False, c) \<in> set w"
  shows "(carries_credentials c \<longrightarrow> isLoopbackHost E (sc_Host cfg))
    \<and> (carries_mail c \<longrightarrow> sc_TLS cfg = ''disable'' \<or> (sc_TLS cfg = ''auto'' \<and> isLoopbackHost E (sc_Host cfg)))
    \<and> sc_TLS cfg \<noteq> ''implicit''"
proof -
  have imp: "cl_tls k" if "dial cfg rl a = Inr k" "sc_TLS cfg = ''implicit''" for a k
    using that by (auto simp: dial_def split: option.splits)
  show ?thesis
    using assms(2)
  proof (cases rule: Send_cases)
    case (upgrade k k' x w1 er)
    then show ?thesis using maybeStartTLS_wire(1) [OF upgrade(2)] assms(3) imp [OF upgrade(1)]
      by (auto simp: maybeStartTLS_def StartTLS_def split: if_splits option.splits)
  next
    case (authn k k' x w1 w2 er)
    note a = maybeAuth_wire [OF authn(3)] and t = maybeStartTLS_wire [OF authn(2)]
    have "sc_TLS cfg = ''implicit'' \<Longrightarrow> w1 = [] \<and> k' = k" using authn(2) by (auto simp: maybeStartTLS_def)
    then show ?thesis using a t authn(4) assms(3) imp [OF authn(1)] by fastforce
  next
    case (shipped k k' w1 w2 w3 f t)
    note a = maybeAuth_wire [OF shipped(3)] and u = maybeStartTLS_wire [OF shipped(2)] and tr = transfer_wire [OF shipped(4)]
    have i: "sc_TLS cfg = ''implicit'' \<Longrightarrow> w1 = [] \<and> k' = k" using shipped(2) by (auto simp: maybeStartTLS_def)
    consider "(False, c) = (cl_tls k, WHello)" | "(False, c) \<in> set w1" | "(False, c) \<in> set w2" | "(False, c) \<in> set w3"
      using shipped(5) assms(3) by auto
    then show ?thesis
    proof cases
      case 4
      then have f: "cl_tls k' = False" "\<not> carries_credentials c" using tr by fastforce+
      then show ?thesis using u(2) i imp [OF shipped(1)] by auto
    qed (use a u i imp [OF shipped(1)] in \<open>fastforce+\<close>)
  qed (use assms(3) imp in \<open>auto\<close>)
qed

definition toy_smtp :: smtp_env where
  "toy_smtp = \<lparr>sm_loopIP = (\<lambda>h. h = ''127.0.0.1''), sm_folds = (\<lambda>_ _. False), sm_parse = Some, sm_U = ascii_tables, sm_qenc = id\<rparr>"

definition toy_relay :: relay where
  "toy_relay = \<lparr>rl_dial = None, rl_hello = None, rl_ext = [(''AUTH'', ''LOGIN'')], rl_starttls = None, rl_ext_tls = [],
     rl_auth = [(334, Some ''Username:''), (334, Some ''Password:''), (235, None)], rl_mail = None, rl_rcpt = None, rl_data = None, rl_write = None,
     rl_close = None, rl_quit = None\<rparr>"

definition toy_smtp_cfg :: smtp_cfg where
  "toy_smtp_cfg = \<lparr>sc_Host = ''LocalHost'', sc_Port = 25, sc_Username = ''u'', sc_Password = ''pw'', sc_FromAddress = ''a@b.c'', sc_TLS = ''auto'',
     sc_Timeout = 30 * second, sc_InsecureSkipVerify = False, sc_ServerName = ''LocalHost''\<rparr>"

definition toy_message :: message where
  "toy_message = \<lparr>m_From = ''a@b.c'', m_To = ''d@e.f'', m_ReplyTo = [], m_Subject = ''s'', m_Headers = [], m_Body = ''b''\<rparr>"

theorem relay_secrets_never_in_clear_witness:
  "(False, WResponse ''pw'') \<in> set (snd (Send toy_smtp toy_smtp_cfg toy_relay toy_message)) \<and> isLoopbackHost toy_smtp ''LocalHost''"
proof
  have n: "NewSMTPSender toy_smtp_cfg = Inr toy_smtp_cfg" by code_simp
  show w: "(False, WResponse ''pw'') \<in> set (snd (Send toy_smtp toy_smtp_cfg toy_relay toy_message))" by code_simp
  show "isLoopbackHost toy_smtp ''LocalHost''"
    using relay_secrets_never_in_clear [OF n surjective_pairing w] by (simp add: toy_smtp_cfg_def)
qed

text \<open>Success means delivery: if \<open>Send\<close> reports no error, the relay took the envelope and the whole message for its recipient.\<close>

lemma send_success_means_delivered:
  assumes "Send E cfg rl msg = (None, w)"
  shows "\<exists>w0 tls f t. sm_parse E (m_To msg) = Some t
    \<and> w = w0 @ [(tls, WMail f), (tls, WRcpt t), (tls, WData (String_of (sm_qenc E) msg)), (tls, WQuit)]
    \<and> rl_mail rl = None \<and> rl_rcpt rl = None \<and> rl_data rl = None \<and> rl_write rl = None \<and> rl_close rl = None"
  using assms
proof (cases rule: Send_cases)
  case (shipped k k' w1 w2 w3 f t)
  have "rl_mail rl = None \<and> rl_rcpt rl = None \<and> rl_data rl = None \<and> rl_write rl = None \<and> rl_close rl = None"
    using shipped(4) by (auto simp: transfer_def Let_def split: option.splits)
  then show ?thesis using transfer_delivers [OF shipped(4)] shipped(5,6)
    by (intro exI [of _ "(cl_tls k, WHello) # w1 @ w2"] exI [of _ "cl_tls k'"] exI [of _ f] exI [of _ t]) simp
qed (use assms in auto)

text \<open>What \<open>FailureStatus\<close> shows of an error does not depend on what the relay wrote.\<close>

lemma failure_status_hides_reply:
  assumes "find (\<lambda>s. HasPrefix (p @ t) (fst s)) sendStages = find (\<lambda>s. HasPrefix (p @ t') (fst s)) sendStages"
  shows "FailureStatus (Some (fail p (CReply n t))) = FailureStatus (Some (fail p (CReply n t')))"
  using assms by (simp add: FailureStatus_def fail_def)

text \<open>An IPv6 literal is accepted as a host but its address is not bracketed, so no such relay is ever reached.\<close>

lemma ipv6_relay_never_dialled:
  assumes "CHR '':'' \<in> set (sc_Host cfg)" "hd (sc_Host cfg) \<noteq> CHR ''[''"
  shows "dial cfg rl (sc_Host cfg @ '':'' @ json_int (sc_Port cfg)) = Inl (COther ''too many colons in address'')"
proof -
  define hp where "hp = sc_Host cfg @ '':'' @ json_int (sc_Port cfg)"
  have l: "LastIndexByte CHR '':'' hp = int (length (sc_Host cfg))"
    using LastIndexByte_split [of "CHR '':''" "json_int (sc_Port cfg)" "sc_Host cfg"] json_int_chars [of "CHR '':''" "sc_Port cfg"]
    by (auto simp: hp_def)
  have "hd hp \<noteq> CHR ''[''" "take (length (sc_Host cfg)) hp = sc_Host cfg" using assms by (cases "sc_Host cfg"; simp add: hp_def)+
  moreover have "IndexByte CHR '':'' (sc_Host cfg) \<ge> 0" using assms(1) IndexByte_neg [of "CHR '':''" "sc_Host cfg"] by force
  ultimately have "SplitHostPort (sc_Host cfg @ '':'' @ json_int (sc_Port cfg)) = None"
    unfolding hp_def [symmetric] SplitHostPort_def Let_def l by simp
  then show ?thesis by (simp add: dial_def)
qed

end
