(* ===== verification/Relay_Config.thy ===== *)
theory Relay_Config
  imports Smtp
begin

text \<open>
  The relay settings of the console (\<open>internal/smtpconfig/smtpconfig.go\<close>) and the sender the server uses (\<open>SetSender\<close>,
  \<open>RebuildSMTPSender\<close>, \<open>resetSMTPSender\<close> in \<open>internal/httpserver/server.go\<close>). The table has one row or none. \<open>Update\<close> reads the stored
  password and writes the row in two statements, between which other saves may run: \<open>rc_step\<close> interleaves them.
\<close>

section \<open>The stored row\<close>

record relay_row =
  rr_Host :: string
  rr_Port :: int
  rr_Username :: string
  rr_PasswordEnc :: "string option"
  rr_FromAddr :: string
  rr_TLSMode :: string
  rr_ServerName :: string
  rr_InsecureTLS :: bool
  rr_TimeoutSeconds :: int
  rr_UpdatedBy :: "int option"
  rr_UpdatedAt :: time

record relay_config =
  rc_Host :: string
  rc_Port :: int
  rc_Username :: string
  rc_Password :: string
  rc_FromAddr :: string
  rc_TLSMode :: string
  rc_ServerName :: string
  rc_InsecureTLS :: bool
  rc_TimeoutSeconds :: int
  rc_UpdatedAt :: time

record updateInputs =
  ui_Host :: string
  ui_Port :: int
  ui_Username :: string
  ui_Password :: string
  ui_KeepPassword :: bool
  ui_FromAddr :: string
  ui_TLSMode :: string
  ui_ServerName :: string
  ui_InsecureTLS :: bool
  ui_TimeoutSeconds :: int

datatype rc_err = ErrNotConfigured | ErrPasswordRequired | ErrDriver | ErrDecrypt | ErrSeal

datatype rc_stmt = RcGet | RcProbe | RcWrite | RcClear | RcCount | RcInsert

record rc_env =
  re_smtp :: smtp_env
  re_box :: "aead option"
  re_sha :: "string \<Rightarrow> string"

definition Configured :: "relay_config \<Rightarrow> bool" where
  "Configured c \<longleftrightarrow> TrimSpace (rc_Host c) \<noteq> []"

definition smtpAAD :: "rc_env \<Rightarrow> string" where
  "smtpAAD V = re_sha V ''sealkeeper-smtp''"

definition row_config :: "relay_row \<Rightarrow> relay_config" where
  "row_config r = \<lparr>rc_Host = rr_Host r, rc_Port = rr_Port r, rc_Username = rr_Username r, rc_Password = [], rc_FromAddr = rr_FromAddr r,
     rc_TLSMode = rr_TLSMode r, rc_ServerName = rr_ServerName r, rc_InsecureTLS = rr_InsecureTLS r, rc_TimeoutSeconds = rr_TimeoutSeconds r,
     rc_UpdatedAt = rr_UpdatedAt r\<rparr>"

definition Get :: "rc_env \<Rightarrow> bool \<Rightarrow> relay_row option \<Rightarrow> rc_err + relay_config" where
  "Get V fault row =
     (if fault then Inl ErrDriver
      else case row of
        None \<Rightarrow> Inl ErrNotConfigured
      | Some r \<Rightarrow>
          if \<not> Configured (row_config r) then Inl ErrNotConfigured
          else case rr_PasswordEnc r of
            None \<Rightarrow> Inr (row_config r)
          | Some enc \<Rightarrow>
              if enc = [] then Inr (row_config r)
              else (case Open (re_box V) enc (smtpAAD V) of
                      None \<Rightarrow> Inl ErrDecrypt | Some pt \<Rightarrow> Inr ((row_config r)\<lparr>rc_Password := pt\<rparr>)))"

section \<open>Saving\<close>

definition normalizeRelay :: "rc_env \<Rightarrow> updateInputs \<Rightarrow> int \<times> int \<times> string" where
  "normalizeRelay V inp =
     (let tlsMode = ToLower (sm_U (re_smtp V)) (TrimSpace (ui_TLSMode inp))
      in (if ui_Port inp \<le> 0 then 587 else ui_Port inp, if ui_TimeoutSeconds inp \<le> 0 then 30 else ui_TimeoutSeconds inp,
          if tlsMode \<in> {''auto'', ''starttls'', ''implicit'', ''disable''} then tlsMode else ''auto''))"

definition retargeted :: "rc_env \<Rightarrow> relay_config \<Rightarrow> string \<Rightarrow> int \<Rightarrow> string \<Rightarrow> string \<Rightarrow> string \<Rightarrow> bool \<Rightarrow> bool" where
  "retargeted V prev host port username tlsMode serverName insecure \<longleftrightarrow>
     (let eq = EqualFold (sm_folds (re_smtp V))
      in \<not> eq (TrimSpace (rc_Host prev)) (TrimSpace host) \<or> rc_Port prev \<noteq> port \<or> rc_Username prev \<noteq> username
         \<or> \<not> eq (rc_TLSMode prev) tlsMode \<or> \<not> eq (TrimSpace (rc_ServerName prev)) (TrimSpace serverName)
         \<or> (insecure \<and> \<not> rc_InsecureTLS prev))"

definition sealPassword :: "rc_env \<Rightarrow> bool \<Rightarrow> string option \<Rightarrow> updateInputs \<Rightarrow> int \<Rightarrow> string \<Rightarrow> relay_row option \<Rightarrow> rc_err + string option" where
  "sealPassword V fault rnd inp port tlsMode row =
     (let seal = (\<lambda>pwd. if pwd = [] then Inr None
            else (case Seal (re_box V) rnd pwd (smtpAAD V) of None \<Rightarrow> Inl ErrSeal | Some enc \<Rightarrow> Inr (Some enc)))
      in if ui_KeepPassword inp \<and> ui_Password inp = [] then
           (case Get V fault row of
              Inl _ \<Rightarrow> seal []
            | Inr prev \<Rightarrow>
                if rc_Password prev = [] then seal []
                else if retargeted V prev (ui_Host inp) port (ui_Username inp) tlsMode (ui_ServerName inp) (ui_InsecureTLS inp)
                then Inl ErrPasswordRequired
                else seal (rc_Password prev))
         else seal (ui_Password inp))"

definition saved_row :: "time \<Rightarrow> updateInputs \<Rightarrow> int \<Rightarrow> int \<Rightarrow> string \<Rightarrow> string option \<Rightarrow> int option \<Rightarrow> relay_row" where
  "saved_row now inp port timeout tlsMode pwdEnc adminID =
     \<lparr>rr_Host = ui_Host inp, rr_Port = port, rr_Username = ui_Username inp, rr_PasswordEnc = pwdEnc, rr_FromAddr = ui_FromAddr inp,
      rr_TLSMode = tlsMode, rr_ServerName = ui_ServerName inp, rr_InsecureTLS = ui_InsecureTLS inp, rr_TimeoutSeconds = timeout,
      rr_UpdatedBy = adminID, rr_UpdatedAt = now\<rparr>"

text \<open>\<open>upsertRow\<close>: INSERT or UPDATE of every column of the single row.\<close>

definition upsertRow :: "rc_stmt faults \<Rightarrow> relay_row \<Rightarrow> relay_row option \<Rightarrow> rc_err option \<times> relay_row option" where
  "upsertRow fs new row = (if fs RcProbe \<or> fs RcWrite then (Some ErrDriver, row) else (None, Some new))"

definition cleared_row :: "int option \<Rightarrow> time \<Rightarrow> relay_row" where
  "cleared_row adminID now = \<lparr>rr_Host = [], rr_Port = 587, rr_Username = [], rr_PasswordEnc = None, rr_FromAddr = [], rr_TLSMode = ''auto'',
     rr_ServerName = [], rr_InsecureTLS = False, rr_TimeoutSeconds = 30, rr_UpdatedBy = adminID, rr_UpdatedAt = now\<rparr>"

definition clearOverride :: "rc_stmt faults \<Rightarrow> time \<Rightarrow> int option \<Rightarrow> relay_row option \<Rightarrow> rc_err option \<times> relay_row option" where
  "clearOverride fs now adminID row =
     (if fs RcClear then (Some ErrDriver, row)
      else let row = map_option (\<lambda>_. cleared_row adminID now) row
           in if fs RcCount then (Some ErrDriver, row)
              else if row = None then (if fs RcInsert then (Some ErrDriver, None) else (None, Some (cleared_row adminID now)))
              else (None, row))"

definition Update ::
  "rc_env \<Rightarrow> rc_stmt faults \<Rightarrow> string option \<Rightarrow> (relay_row option \<Rightarrow> relay_row option) \<Rightarrow> time \<Rightarrow> updateInputs \<Rightarrow> int option
     \<Rightarrow> relay_row option \<Rightarrow> rc_err option \<times> relay_row option" where
  "Update V fs rnd others now inp adminID row =
     (if TrimSpace (ui_Host inp) = [] then clearOverride fs now adminID row
      else
        let (port, timeout, tlsMode) = normalizeRelay V inp
        in case sealPassword V (fs RcGet) rnd inp port tlsMode row of
             Inl e \<Rightarrow> (Some e, row)
           | Inr pwdEnc \<Rightarrow> upsertRow fs (saved_row now inp port timeout tlsMode pwdEnc adminID) (others row))"

section \<open>Concurrent saves\<close>

text \<open>A save in flight has sealed its password and not yet written its row. \<open>SaveBegin\<close> is \<open>Update\<close> up to there, \<open>SaveEnd\<close> the rest.\<close>

record rc_state =
  rs_row :: "relay_row option"
  rs_flight :: "relay_row list"

datatype rc_cmd =
    SaveBegin "rc_stmt faults" "string option" time updateInputs "int option"
  | SaveEnd nat "rc_stmt faults"
  | SaveClear "rc_stmt faults" time "int option"

fun rc_step :: "rc_env \<Rightarrow> rc_cmd \<Rightarrow> rc_state \<Rightarrow> rc_state" where
  "rc_step V (SaveBegin fs rnd now inp adminID) s =
     (if TrimSpace (ui_Host inp) = [] then s
      else
        let (port, timeout, tlsMode) = normalizeRelay V inp
        in case sealPassword V (fs RcGet) rnd inp port tlsMode (rs_row s) of
             Inl _ \<Rightarrow> s
           | Inr pwdEnc \<Rightarrow> s\<lparr>rs_flight := rs_flight s @ [saved_row now inp port timeout tlsMode pwdEnc adminID]\<rparr>)"
| "rc_step V (SaveEnd i fs) s =
     (if i < length (rs_flight s)
      then s\<lparr>rs_row := snd (upsertRow fs (rs_flight s ! i) (rs_row s)), rs_flight := take i (rs_flight s) @ drop (i + 1) (rs_flight s)\<rparr>
      else s)"
| "rc_step V (SaveClear fs now adminID) s = s\<lparr>rs_row := snd (clearOverride fs now adminID (rs_row s))\<rparr>"

text \<open>Where a password goes: host, port, user, TLS mode, server name, and whether the certificate goes unchecked.\<close>

type_synonym dest = "string \<times> int \<times> string \<times> string \<times> string \<times> bool"

definition row_dest :: "relay_row \<Rightarrow> dest" where
  "row_dest r = (rr_Host r, rr_Port r, rr_Username r, rr_TLSMode r, rr_ServerName r, rr_InsecureTLS r)"

definition config_dest :: "relay_config \<Rightarrow> dest" where
  "config_dest c = (rc_Host c, rc_Port c, rc_Username c, rc_TLSMode c, rc_ServerName c, rc_InsecureTLS c)"

definition input_dest :: "rc_env \<Rightarrow> updateInputs \<Rightarrow> dest" where
  "input_dest V inp = (let (port, _, tlsMode) = normalizeRelay V inp
     in (ui_Host inp, port, ui_Username inp, tlsMode, ui_ServerName inp, ui_InsecureTLS inp))"

text \<open>\<open>d'\<close> is the relay \<open>d\<close>, up to case and outer spaces of names, with no weaker certificate check.\<close>

fun same_relay :: "rc_env \<Rightarrow> dest \<Rightarrow> dest \<Rightarrow> bool" where
  "same_relay V (h, p, u, t, n, i) (h', p', u', t', n', i') =
     (let eq = EqualFold (sm_folds (re_smtp V))
      in eq (TrimSpace h) (TrimSpace h') \<and> p = p' \<and> u = u' \<and> eq t t' \<and> eq (TrimSpace n) (TrimSpace n') \<and> (i' \<longrightarrow> i))"

text \<open>The passwords that were typed, each with the relay it was typed for.\<close>

fun typed :: "rc_env \<Rightarrow> rc_cmd list \<Rightarrow> (dest \<times> string) list" where
  "typed V [] = []"
| "typed V (SaveBegin fs rnd now inp adminID # cs) =
     (if ui_Password inp \<noteq> [] then [(input_dest V inp, ui_Password inp)] else []) @ typed V cs"
| "typed V (_ # cs) = typed V cs"

definition sealed_ok :: "rc_env \<Rightarrow> (dest \<times> string) set \<Rightarrow> relay_row \<Rightarrow> bool" where
  "sealed_ok V T r \<longleftrightarrow> (\<forall>enc pw. rr_PasswordEnc r = Some enc \<and> Open (re_box V) enc (smtpAAD V) = Some pw
     \<longrightarrow> (\<exists>d. (d, pw) \<in> T \<and> same_relay V d (row_dest r)))"

definition rc_ok :: "rc_env \<Rightarrow> (dest \<times> string) set \<Rightarrow> rc_state \<Rightarrow> bool" where
  "rc_ok V T s \<longleftrightarrow> (\<forall>r. rs_row s = Some r \<longrightarrow> sealed_ok V T r) \<and> (\<forall>r\<in>set (rs_flight s). sealed_ok V T r)"

lemma EqualFold_refl [simp]: "EqualFold folds s s"
  by (auto simp: EqualFold_def fold_rune_def intro!: list_all2_refl)

lemma EqualFold_trans:
  "transp (fold_rune folds) \<Longrightarrow> EqualFold folds s t \<Longrightarrow> EqualFold folds t u \<Longrightarrow> EqualFold folds s u"
  unfolding EqualFold_def by (erule (1) list_all2_trans [rotated]) (auto dest: transpD)

lemma same_relay_refl: "same_relay V d d"
  by (cases d) (simp add: Let_def)

lemma same_relay_trans:
  assumes "transp (fold_rune (sm_folds (re_smtp V)))" "same_relay V a b" "same_relay V b c"
  shows "same_relay V a c"
  using assms(2,3) EqualFold_trans [OF assms(1)] by (cases a; cases b; cases c) (auto simp: Let_def)

lemma kept_relay:
  "\<not> retargeted V prev h p u t n i \<Longrightarrow> same_relay V (config_dest prev) (h, p, u, t, n, i)"
  by (auto simp: retargeted_def config_dest_def Let_def)

lemma Get_password:
  assumes "Get V fault row = Inr c" "rc_Password c \<noteq> []"
  shows "\<exists>r enc. row = Some r \<and> rr_PasswordEnc r = Some enc \<and> Open (re_box V) enc (smtpAAD V) = Some (rc_Password c) \<and> config_dest c = row_dest r"
  using assms by (auto simp: Get_def row_config_def config_dest_def row_dest_def split: if_splits option.splits)

lemma sealed_ok_mono: "sealed_ok V T r \<Longrightarrow> T \<subseteq> T' \<Longrightarrow> sealed_ok V T' r"
  unfolding sealed_ok_def by blast

text \<open>The nonces of the random source have the length of a nonce.\<close>

fun nonce_ok :: "rc_cmd \<Rightarrow> bool" where
  "nonce_ok (SaveBegin fs rnd now inp adminID) \<longleftrightarrow> (case rnd of None \<Rightarrow> True | Some n \<Rightarrow> length n = nonceLen)"
| "nonce_ok _ \<longleftrightarrow> True"

lemma sealPassword_ok:
  assumes box: "re_box V = Some A" "aead_ok A" and folds: "transp (fold_rune (sm_folds (re_smtp V)))"
    and nonce: "\<forall>n. rnd = Some n \<longrightarrow> length n = nonceLen"
    and ok: "\<forall>r. row = Some r \<longrightarrow> sealed_ok V T r"
    and norm: "normalizeRelay V inp = (port, timeout, tls)"
    and seal: "sealPassword V fault rnd inp port tls row = Inr pwdEnc"
    and T: "ui_Password inp \<noteq> [] \<Longrightarrow> (input_dest V inp, ui_Password inp) \<in> T"
  shows "sealed_ok V T (saved_row now inp port timeout tls pwdEnc adminID)"
proof -
  let ?r = "saved_row now inp port timeout tls pwdEnc adminID"
  have d: "row_dest ?r = input_dest V inp" by (simp add: row_dest_def saved_row_def input_dest_def norm)
  have opens: "pw = p" if sl: "Seal (re_box V) rnd p (smtpAAD V) = Some enc" and op: "Open (re_box V) enc (smtpAAD V) = Some pw" for p enc pw
  proof -
    obtain n where "rnd = Some n" using sl by (cases rnd) (simp_all add: Seal_def split: option.splits)
    then show ?thesis using sl op Open_Seal [OF box(2)] nonce box(1) by (metis option.inject)
  qed
  show ?thesis
    unfolding sealed_ok_def
  proof (intro allI impI, elim conjE)
    fix enc pw
    assume e: "rr_PasswordEnc ?r = Some enc" and o: "Open (re_box V) enc (smtpAAD V) = Some pw"
    then have pe: "pwdEnc = Some enc" by (simp add: saved_row_def)
    show "\<exists>d. (d, pw) \<in> T \<and> same_relay V d (row_dest ?r)"
    proof (cases "ui_KeepPassword inp \<and> ui_Password inp = []")
      case False
      then have "ui_Password inp \<noteq> []" "Seal (re_box V) rnd (ui_Password inp) (smtpAAD V) = Some enc"
        using seal pe by (auto simp: sealPassword_def Let_def split: if_splits option.splits)
      then show ?thesis using opens o T same_relay_refl unfolding d by blast
    next
      case True
      then obtain prev where prev: "Get V fault row = Inr prev" "rc_Password prev \<noteq> []"
          "\<not> retargeted V prev (ui_Host inp) port (ui_Username inp) tls (ui_ServerName inp) (ui_InsecureTLS inp)"
          "Seal (re_box V) rnd (rc_Password prev) (smtpAAD V) = Some enc"
        using seal pe by (auto simp: sealPassword_def Let_def split: if_splits option.splits sum.splits)
      obtain r where r: "row = Some r" "config_dest prev = row_dest r" "\<exists>enc. rr_PasswordEnc r = Some enc \<and> Open (re_box V) enc (smtpAAD V) = Some pw"
        using Get_password [OF prev(1,2)] opens [OF prev(4) o] by auto
      then obtain d0 where d0: "(d0, pw) \<in> T" "same_relay V d0 (row_dest r)" using ok by (auto simp: sealed_ok_def)
      have "same_relay V (row_dest r) (row_dest ?r)" using kept_relay [OF prev(3)] unfolding r(2) d by (simp add: input_dest_def norm)
      then show ?thesis using d0 same_relay_trans [OF folds] by blast
    qed
  qed
qed

lemma cleared_ok: "snd (clearOverride fs now adminID row) = Some r \<Longrightarrow> (\<And>r. row = Some r \<Longrightarrow> sealed_ok V T r) \<Longrightarrow> sealed_ok V T r"
  by (auto simp: clearOverride_def Let_def cleared_row_def sealed_ok_def split: if_splits)

lemma rc_ok_step:
  assumes "re_box V = Some A" "aead_ok A" "transp (fold_rune (sm_folds (re_smtp V)))" "nonce_ok c" "set (typed V [c]) \<subseteq> T" "rc_ok V T s"
  shows "rc_ok V T (rc_step V c s)"
proof (cases c)
  case (SaveBegin fs rnd now inp adminID)
  obtain port timeout tls where n: "normalizeRelay V inp = (port, timeout, tls)" by (metis prod.collapse)
  have T: "ui_Password inp \<noteq> [] \<Longrightarrow> (input_dest V inp, ui_Password inp) \<in> T" using assms(5) SaveBegin by simp
  have "\<forall>n. rnd = Some n \<longrightarrow> length n = nonceLen" using assms(4) SaveBegin by (cases rnd) simp_all
  from sealPassword_ok [OF assms(1-3) this _ n _ T, of "rs_row s"] show ?thesis
    using assms(6) SaveBegin n by (auto simp: rc_ok_def split: sum.split)
next
  case (SaveEnd i fs)
  then show ?thesis using assms(6)
    by (auto simp: rc_ok_def upsertRow_def dest: in_set_takeD in_set_dropD)
next
  case (SaveClear fs now adminID)
  then show ?thesis using assms(6) cleared_ok [of fs now adminID "rs_row s"] by (auto simp: rc_ok_def)
qed

lemma typed_Cons: "set (typed V (c # cs)) = set (typed V [c]) \<union> set (typed V cs)"
  by (cases c) auto

lemma rc_ok_run:
  assumes "re_box V = Some A" "aead_ok A" "transp (fold_rune (sm_folds (re_smtp V)))"
  shows "list_all nonce_ok cs \<Longrightarrow> set (typed V cs) \<subseteq> T \<Longrightarrow> rc_ok V T s \<Longrightarrow> rc_ok V T (run (rc_step V) cs s)"
proof (induction cs arbitrary: s)
  case (Cons c cs)
  have "rc_ok V T (rc_step V c s)" using Cons.prems typed_Cons [of V c cs] by (intro rc_ok_step [OF assms]) simp_all
  then show ?case using Cons typed_Cons [of V c cs] by simp
qed simp

text \<open>
  C9. A relay password never follows a redirect. However saves of the relay settings interleave, and whatever statements fail, the password that
  \<open>Get\<close> hands to the sender was typed for that very relay: the same host, port, user, TLS mode and server name, and a certificate
  check no weaker.
\<close>

theorem relay_password_stays_with_relay:
  assumes "re_box V = Some A" "aead_ok A" "transp (fold_rune (sm_folds (re_smtp V)))" "list_all nonce_ok cs"
    "Get V fault (rs_row (run (rc_step V) cs \<lparr>rs_row = None, rs_flight = []\<rparr>)) = Inr c" "rc_Password c \<noteq> []"
  shows "\<exists>d. (d, rc_Password c) \<in> set (typed V cs) \<and> same_relay V d (config_dest c)"
proof -
  have "rc_ok V (set (typed V cs)) \<lparr>rs_row = None, rs_flight = []\<rparr>" by (simp add: rc_ok_def)
  then have "rc_ok V (set (typed V cs)) (run (rc_step V) cs \<lparr>rs_row = None, rs_flight = []\<rparr>)" using rc_ok_run [OF assms(1-3) assms(4)] by blast
  then show ?thesis using Get_password [OF assms(5,6)] by (auto simp: rc_ok_def sealed_ok_def)
qed

definition toy_rc :: rc_env where
  "toy_rc = \<lparr>re_smtp = toy_smtp, re_box = Some toy_aead, re_sha = id\<rparr>"

definition toy_save :: "string \<Rightarrow> string \<Rightarrow> bool \<Rightarrow> updateInputs" where
  "toy_save host pw keep = \<lparr>ui_Host = host, ui_Port = 0, ui_Username = ''u'', ui_Password = pw, ui_KeepPassword = keep, ui_FromAddr = [],
     ui_TLSMode = ''STARTTLS'', ui_ServerName = [], ui_InsecureTLS = False, ui_TimeoutSeconds = 0\<rparr>"

definition toy_saves :: "rc_cmd list" where
  "toy_saves = [SaveBegin no_faults (Some (replicate 12 CHR ''n'')) 1 (toy_save ''smtp.a.org'' ''pw'' False) None, SaveEnd 0 no_faults,
     SaveBegin no_faults (Some (replicate 12 CHR ''m'')) 2 (toy_save '' SMTP.a.org'' [] True) None, SaveEnd 0 no_faults]"

lemma toy_folds: "transp (fold_rune (sm_folds (re_smtp toy_rc)))"
  by (auto simp: transp_def toy_rc_def toy_smtp_def fold_rune_def Let_def min_def max_def split: if_splits)

theorem relay_password_stays_with_relay_witness:
  "\<exists>c d. Get toy_rc False (rs_row (run (rc_step toy_rc) toy_saves \<lparr>rs_row = None, rs_flight = []\<rparr>)) = Inr c \<and> rc_Host c = '' SMTP.a.org''
     \<and> rc_Password c = ''pw'' \<and> (d, ''pw'') \<in> set (typed toy_rc toy_saves) \<and> same_relay toy_rc d (config_dest c)"
proof -
  let ?g = "Get toy_rc False (rs_row (run (rc_step toy_rc) toy_saves \<lparr>rs_row = None, rs_flight = []\<rparr>))"
  have "case ?g of Inl _ \<Rightarrow> False | Inr c \<Rightarrow> rc_Host c = '' SMTP.a.org'' \<and> rc_Password c = ''pw''" by code_simp
  then obtain c where c: "?g = Inr c" "rc_Host c = '' SMTP.a.org''" "rc_Password c = ''pw''" by (auto split: sum.splits)
  have "list_all nonce_ok toy_saves" by code_simp
  then show ?thesis
    using relay_password_stays_with_relay [OF _ toy_aead_ok toy_folds _ c(1)] c by (auto simp: toy_rc_def)
qed

text \<open>A save is \<open>SaveBegin\<close> followed by \<open>SaveEnd\<close>: the interleaved steps refine \<open>Update\<close>.\<close>

lemma save_refines_update:
  assumes "TrimSpace (ui_Host inp) \<noteq> []" "Update V fs rnd others now inp adminID row = (None, row')" "others row = rs_row s1"
    "rs_flight s1 = [rr] \<and> rs_flight (rc_step V (SaveBegin fs rnd now inp adminID) \<lparr>rs_row = row, rs_flight = []\<rparr>) = [rr]"
  shows "rs_row (rc_step V (SaveEnd 0 fs) s1) = row'"
  using assms by (auto simp: Update_def split: sum.splits prod.splits)

text \<open>Keeping the password loses it when the stored one cannot be read: the save succeeds and stores none.\<close>

lemma unread_password_is_dropped:
  assumes "TrimSpace (ui_Host inp) \<noteq> []" "ui_KeepPassword inp" "ui_Password inp = []" "Get V (fs RcGet) row = Inl e" "\<not> fs RcProbe" "\<not> fs RcWrite"
  shows "\<exists>r. Update V fs rnd others now inp adminID row = (None, Some r) \<and> rr_PasswordEnc r = None"
  using assms by (auto simp: Update_def sealPassword_def upsertRow_def saved_row_def Let_def split: prod.split)

section \<open>The sender in use\<close>

datatype live_sender = LiveNop | LiveCapture | LiveRelay smtp_cfg

record sender_state =
  st_demo :: bool
  st_sender :: live_sender
  st_boot :: live_sender

definition new_senders :: "bool \<Rightarrow> bool \<Rightarrow> sender_state" where
  "new_senders eval demo = (let d = (if eval \<or> demo then LiveCapture else LiveNop) in \<lparr>st_demo = demo, st_sender = d, st_boot = d\<rparr>)"

definition SetSender :: "live_sender option \<Rightarrow> sender_state \<Rightarrow> sender_state" where
  "SetSender new s = (case new of
     None \<Rightarrow> s
   | Some sd \<Rightarrow> if st_demo s \<and> sd \<noteq> LiveCapture then s else s\<lparr>st_boot := sd, st_sender := sd\<rparr>)"

definition relay_sender :: "relay_config \<Rightarrow> smtp_cfg" where
  "relay_sender c = \<lparr>sc_Host = rc_Host c, sc_Port = rc_Port c, sc_Username = rc_Username c, sc_Password = rc_Password c,
     sc_FromAddress = rc_FromAddr c, sc_TLS = rc_TLSMode c, sc_Timeout = rc_TimeoutSeconds c * second, sc_InsecureSkipVerify = rc_InsecureTLS c,
     sc_ServerName = rc_ServerName c\<rparr>"

text \<open>\<open>RebuildSMTPSender\<close>; \<open>wired\<close> says whether the repository is bound. The result is whether it succeeded.\<close>

definition RebuildSMTPSender :: "rc_env \<Rightarrow> bool \<Rightarrow> bool \<Rightarrow> relay_row option \<Rightarrow> sender_state \<Rightarrow> bool \<times> sender_state" where
  "RebuildSMTPSender V wired fault row s =
     (if \<not> wired \<or> st_demo s then (True, s)
      else case Get V fault row of
        Inl e \<Rightarrow> if e = ErrNotConfigured then (True, s\<lparr>st_sender := st_boot s\<rparr>) else (False, s)
      | Inr cfg \<Rightarrow> (case NewSMTPSender (relay_sender cfg) of Inl _ \<Rightarrow> (False, s) | Inr sd \<Rightarrow> (True, s\<lparr>st_sender := LiveRelay sd\<rparr>)))"

definition resetSMTPSender :: "sender_state \<Rightarrow> sender_state" where
  "resetSMTPSender s = s\<lparr>st_sender := st_boot s\<rparr>"

datatype sd_cmd = SdSet "live_sender option" | SdRebuild bool bool "relay_row option" | SdReset

fun sd_step :: "rc_env \<Rightarrow> sd_cmd \<Rightarrow> sender_state \<Rightarrow> sender_state" where
  "sd_step V (SdSet new) s = SetSender new s"
| "sd_step V (SdRebuild wired fault row) s = snd (RebuildSMTPSender V wired fault row s)"
| "sd_step V SdReset s = resetSMTPSender s"

definition demo_captures :: "sender_state \<Rightarrow> bool" where
  "demo_captures s \<longleftrightarrow> (st_demo s \<longrightarrow> st_sender s = LiveCapture \<and> st_boot s = LiveCapture)"

interpretation sd: machine "sd_step V" demo_captures for V
proof
  fix s c
  show "demo_captures s \<Longrightarrow> demo_captures (sd_step V c s)"
    by (cases c) (auto simp: demo_captures_def SetSender_def RebuildSMTPSender_def resetSMTPSender_def split: option.split sum.split)
qed

lemma sd_step_demo: "st_demo (run (sd_step V) cs s) = st_demo s"
proof (induction cs arbitrary: s)
  case (Cons c cs)
  have "st_demo (sd_step V c s) = st_demo s"
    by (cases c) (auto simp: SetSender_def RebuildSMTPSender_def resetSMTPSender_def split: option.split sum.split)
  then show ?case using Cons by simp
qed simp

text \<open>
  The public demo never mails anyone: from the start of a demo server, whatever senders and relay settings it is given afterwards, the sender in
  use is the capture queue. Elsewhere, clearing the settings takes the saved relay out of use at once.
\<close>

theorem demo_never_relays:
  "st_sender (run (sd_step V) cs (new_senders eval True)) = LiveCapture
   \<and> (\<not> st_demo s \<longrightarrow> RebuildSMTPSender V True False (snd (clearOverride no_faults now adminID row)) s = (True, s\<lparr>st_sender := st_boot s\<rparr>))"
proof (intro conjI impI)
  have "demo_captures (new_senders eval True)" by (simp add: demo_captures_def new_senders_def Let_def)
  from sd.inv_run [OF this] have "demo_captures (run (sd_step V) cs (new_senders eval True))" .
  moreover have "st_demo (run (sd_step V) cs (new_senders eval True))" unfolding sd_step_demo by (simp add: new_senders_def Let_def)
  ultimately show "st_sender (run (sd_step V) cs (new_senders eval True)) = LiveCapture" by (simp add: demo_captures_def)
next
  assume "\<not> st_demo s"
  moreover have "Get V False (snd (clearOverride no_faults now adminID row)) = Inl ErrNotConfigured"
    by (cases row) (auto simp: clearOverride_def Get_def Configured_def row_config_def cleared_row_def Let_def)
  ultimately show "RebuildSMTPSender V True False (snd (clearOverride no_faults now adminID row)) s = (True, s\<lparr>st_sender := st_boot s\<rparr>)"
    by (simp add: RebuildSMTPSender_def)
qed

theorem demo_never_relays_witness:
  "st_sender (run (sd_step toy_rc) [SdSet (Some (LiveRelay toy_smtp_cfg)), SdRebuild True False None, SdReset] (new_senders False True)) = LiveCapture
   \<and> RebuildSMTPSender toy_rc True False (snd (clearOverride no_faults 5 None None)) (new_senders False False) = (True, new_senders False False)"
  using demo_never_relays [of toy_rc "[SdSet (Some (LiveRelay toy_smtp_cfg)), SdRebuild True False None, SdReset]" False "new_senders False False" 5 None None]
  by (simp add: new_senders_def Let_def)

end
