(* ===== verification/Libraries.thy ===== *)
theory Libraries
  imports Go_Strings Go_Json Audit_Log Domains
begin

text \<open>
  Uploaded word lists and citation banks (\<open>internal/libraries\<close>): the line validators (\<open>validator.go\<close>) and the repository with its files
  on disk (\<open>libraries.go\<close>). A store is the table and the files by name. \<open>Upload\<close> is
  composed of its check, the write of the file and the INSERT with its clean-up. \<open>lib_step\<close> runs \<open>Upload\<close> and \<open>Delete\<close> one after the other, each as a whole;
  \<open>concurrent_upload_can_lose_file\<close> puts the parts of two uploads in another order.
\<close>

section \<open>Validators\<close>

datatype kind = KindDictionary | KindCorpus | KindOther string

definition dictMinWordLen :: nat where "dictMinWordLen = 4"
definition dictMaxWordLen :: nat where "dictMaxWordLen = 12"
definition corpusMinWords :: nat where "corpusMinWords = 3"
definition corpusMaxWords :: nat where "corpusMaxWords = 25"
definition recommendedMinEntries :: nat where "recommendedMinEntries = 5000"

datatype line_detail = NonLetter string | BadLength string nat | Duplicate string nat | BadWordCount nat | DuplicateCitation nat

type_synonym lineError = "nat \<times> line_detail"

record report =
  rp_Kind :: kind
  rp_Entries :: "string list"
  rp_EntryCount :: nat
  rp_FirstErrors :: "lineError list"
  rp_Warnings :: "nat list"

datatype lib_err = ErrInvalidEncoding | ErrUnknownKind | ErrEmptyFile | ErrTooLong | ErrNotFound | ErrAlreadyExists | ErrSystemReadOnly
  | ErrName | ErrLanguage | ErrRead | ErrLines nat | ErrWrite | ErrDriver

definition new_report :: "kind \<Rightarrow> report" where
  "new_report k = \<lparr>rp_Kind = k, rp_Entries = [], rp_EntryCount = 0, rp_FirstErrors = [], rp_Warnings = []\<rparr>"

definition recordError :: "nat \<Rightarrow> line_detail \<Rightarrow> report \<Rightarrow> report" where
  "recordError line detail r = (if length (rp_FirstErrors r) < 20 then r\<lparr>rp_FirstErrors := rp_FirstErrors r @ [(line, detail)]\<rparr> else r)"

definition HasErrors :: "report \<Rightarrow> bool" where
  "HasErrors r \<longleftrightarrow> rp_FirstErrors r \<noteq> []"

definition finish :: "report \<Rightarrow> lib_err option \<times> report" where
  "finish r =
     (let r = r\<lparr>rp_EntryCount := length (rp_Entries r)\<rparr>
      in if rp_EntryCount r = 0 then (Some ErrEmptyFile, r)
         else (None, if rp_EntryCount r < recommendedMinEntries then r\<lparr>rp_Warnings := rp_Warnings r @ [rp_EntryCount r]\<rparr> else r))"

definition isAllLetters :: "unicode \<Rightarrow> string \<Rightarrow> bool" where
  "isAllLetters U s \<longleftrightarrow> s \<noteq> [] \<and> list_all (\<lambda>r. u_isLetter U r \<or> u_isMn U r) (runes s)"

text \<open>The number of fields of \<open>strings.FieldsFunc(s, unicode.IsSpace)\<close>.\<close>

fun fields_count :: "bool \<Rightarrow> rune list \<Rightarrow> nat" where
  "fields_count inside [] = 0"
| "fields_count inside (r # rs) = (if IsSpace r then fields_count False rs else if inside then fields_count True rs else Suc (fields_count True rs))"

type_synonym seen = "(string \<times> nat) list"

definition skipped :: "string \<Rightarrow> bool" where
  "skipped s \<longleftrightarrow> s = [] \<or> HasPrefix s ''#''"

definition dict_line :: "unicode \<Rightarrow> nat \<Rightarrow> string \<Rightarrow> report \<times> seen \<Rightarrow> report \<times> seen" where
  "dict_line U line raw st =
     (let (rep, seen) = st; word = TrimSpace raw
      in if skipped word then st
      else if \<not> isAllLetters U word then (recordError line (NonLetter word) rep, seen)
      else let n = length (runes word)
      in if n < dictMinWordLen \<or> n > dictMaxWordLen then (recordError line (BadLength word n) rep, seen)
      else let canonical = ToLower U word
      in case map_of seen canonical of
           Some prev \<Rightarrow> (recordError line (Duplicate word prev) rep, seen)
         | None \<Rightarrow> (rep\<lparr>rp_Entries := rp_Entries rep @ [canonical]\<rparr>, (canonical, line) # seen))"

definition corpus_line :: "unicode \<Rightarrow> nat \<Rightarrow> string \<Rightarrow> report \<times> seen \<Rightarrow> report \<times> seen" where
  "corpus_line U line raw st =
     (let (rep, seen) = st; citation = TrimSpace raw
      in if skipped citation then st
      else let n = fields_count False (runes citation)
      in if n < corpusMinWords \<or> n > corpusMaxWords then (recordError line (BadWordCount n) rep, seen)
      else let canonical = ToLower U citation
      in case map_of seen canonical of
           Some prev \<Rightarrow> (recordError line (DuplicateCitation prev) rep, seen)
         | None \<Rightarrow> (rep\<lparr>rp_Entries := rp_Entries rep @ [citation]\<rparr>, (canonical, line) # seen))"

text \<open>The lines of \<open>bufio.Scanner\<close>: split at newlines, without a final empty one and without a trailing carriage return; a line that does not
  fit the buffer of a mebibyte ends the scan with an error.\<close>

definition scan_lines :: "string \<Rightarrow> string list" where
  "scan_lines s = (let ls = split_on (CHR 0x0A) s in if last ls = [] then butlast ls else ls)"

definition maxTokenSize :: nat where "maxTokenSize = 1024 * 1024"

definition drop_cr :: "string \<Rightarrow> string" where
  "drop_cr l = (if l \<noteq> [] \<and> last l = CHR 0x0D then butlast l else l)"

fun line_loop :: "(nat \<Rightarrow> string \<Rightarrow> 's \<Rightarrow> 's) \<Rightarrow> nat \<Rightarrow> string list \<Rightarrow> 's \<Rightarrow> lib_err option \<times> 's" where
  "line_loop fn n [] st = (None, st)"
| "line_loop fn n (l # ls) st =
     (if length l \<ge> maxTokenSize then (Some ErrTooLong, st)
      else if \<not> ValidString (drop_cr l) then (Some ErrInvalidEncoding, st)
      else line_loop fn (n + 1) ls (fn (n + 1) (drop_cr l) st))"

definition BOM :: string where "BOM = [CHR 0xEF, CHR 0xBB, CHR 0xBF]"

definition readLines :: "(nat \<Rightarrow> string \<Rightarrow> 's \<Rightarrow> 's) \<Rightarrow> string \<Rightarrow> 's \<Rightarrow> lib_err option \<times> 's" where
  "readLines fn src st = (if take 3 src = BOM then (Some ErrInvalidEncoding, st) else line_loop fn 0 (scan_lines src) st)"

definition validate_with :: "kind \<Rightarrow> (nat \<Rightarrow> string \<Rightarrow> report \<times> seen \<Rightarrow> report \<times> seen) \<Rightarrow> string \<Rightarrow> lib_err option \<times> report" where
  "validate_with k fn src =
     (case readLines fn src (new_report k, []) of
        (Some e, rep, _) \<Rightarrow> (Some e, rep)
      | (None, rep, _) \<Rightarrow> finish rep)"

definition ValidateDictionary :: "unicode \<Rightarrow> string \<Rightarrow> lib_err option \<times> report" where
  "ValidateDictionary U src = validate_with KindDictionary (dict_line U) src"

definition ValidateCorpus :: "unicode \<Rightarrow> string \<Rightarrow> lib_err option \<times> report" where
  "ValidateCorpus U src = validate_with KindCorpus (corpus_line U) src"

definition Validate :: "unicode \<Rightarrow> kind \<Rightarrow> string \<Rightarrow> lib_err option \<times> report" where
  "Validate U k src = (case k of
     KindDictionary \<Rightarrow> ValidateDictionary U src
   | KindCorpus \<Rightarrow> ValidateCorpus U src
   | KindOther _ \<Rightarrow> (Some ErrUnknownKind, new_report k))"

section \<open>What an accepted file holds\<close>

text \<open>The text of the line, its key, and whether the rules admit it.\<close>

definition line_key :: "unicode \<Rightarrow> string \<Rightarrow> string" where
  "line_key U l = ToLower U (TrimSpace (drop_cr l))"

definition line_ok :: "unicode \<Rightarrow> kind \<Rightarrow> string \<Rightarrow> bool" where
  "line_ok U k l \<longleftrightarrow> (let s = TrimSpace (drop_cr l) in
     (case k of KindDictionary \<Rightarrow> isAllLetters U s \<and> 4 \<le> length (runes s) \<and> length (runes s) \<le> 12
      | _ \<Rightarrow> 3 \<le> fields_count False (runes s) \<and> fields_count False (runes s) \<le> 25))"

definition line_entry :: "unicode \<Rightarrow> kind \<Rightarrow> string \<Rightarrow> string" where
  "line_entry U k l = (if k = KindDictionary then line_key U l else TrimSpace (drop_cr l))"

definition content_lines :: "string \<Rightarrow> string list" where
  "content_lines src = filter (\<lambda>l. \<not> skipped (TrimSpace (drop_cr l))) (scan_lines src)"

text \<open>The state of the loop after the lines \<open>done\<close>.\<close>

definition lines_inv :: "unicode \<Rightarrow> kind \<Rightarrow> string list \<Rightarrow> report \<times> seen \<Rightarrow> bool" where
  "lines_inv U k past st \<longleftrightarrow>
     (let ls = filter (\<lambda>l. \<not> skipped (TrimSpace (drop_cr l))) past
      in (HasErrors (fst st) \<longleftrightarrow> \<not> (list_all (line_ok U k) ls \<and> distinct (map (line_key U) ls)))
         \<and> (\<not> HasErrors (fst st) \<longrightarrow> rp_Entries (fst st) = map (line_entry U k) ls \<and> fst ` set (snd st) = line_key U ` set ls))"

definition line_fn :: "unicode \<Rightarrow> kind \<Rightarrow> nat \<Rightarrow> string \<Rightarrow> report \<times> seen \<Rightarrow> report \<times> seen" where
  "line_fn U k = (if k = KindDictionary then dict_line U else corpus_line U)"

lemma HasErrors_recordError [simp]: "HasErrors (recordError l d r)"
  by (auto simp: HasErrors_def recordError_def)

lemma HasErrors_step: "HasErrors (fst st) \<Longrightarrow> HasErrors (fst (line_fn U k n l st))"
  by (cases st) (auto simp: line_fn_def dict_line_def corpus_line_def Let_def HasErrors_def recordError_def split: option.split)

lemma lines_inv_step:
  assumes "k = KindDictionary \<or> k = KindCorpus" "lines_inv U k past st"
  shows "lines_inv U k (past @ [l]) (line_fn U k n (drop_cr l) st)"
proof (cases "HasErrors (fst st)")
  case True
  then show ?thesis using assms(2) HasErrors_step [OF True, of U k n "drop_cr l"] by (auto simp: lines_inv_def Let_def)
next
  case ne: False
  obtain rep seen where st: "st = (rep, seen)" by (cases st)
  have none: "map_of seen (line_key U l) = None \<longleftrightarrow> line_key U l \<notin> fst ` set seen" by (simp add: map_of_eq_None_iff)
  have e: "rp_FirstErrors rep = []" using ne by (simp add: st HasErrors_def)
  show ?thesis
    using assms ne none e unfolding st
    by (auto simp: lines_inv_def line_fn_def dict_line_def corpus_line_def Let_def line_ok_def line_entry_def line_key_def HasErrors_def
        dictMinWordLen_def dictMaxWordLen_def corpusMinWords_def corpusMaxWords_def recordError_def split: option.splits if_splits)
qed

definition readable :: "string \<Rightarrow> bool" where
  "readable l \<longleftrightarrow> length l < maxTokenSize \<and> ValidString (drop_cr l)"

lemma line_loop_inv:
  assumes "k = KindDictionary \<or> k = KindCorpus"
  shows "lines_inv U k past st \<Longrightarrow> line_loop (line_fn U k) n ls st = (e, st')
    \<Longrightarrow> (e = None \<longleftrightarrow> list_all readable ls) \<and> (e = None \<longrightarrow> lines_inv U k (past @ ls) st')"
proof (induction ls arbitrary: past n st)
  case (Cons l ls)
  note st = lines_inv_step [OF assms Cons.prems(1), of l "n + 1"]
  show ?case
  proof (cases "readable l")
    case True
    then have "line_loop (line_fn U k) (n + 1) ls (line_fn U k (n + 1) (drop_cr l) st) = (e, st')"
      using Cons.prems(2) by (simp add: readable_def not_le)
    then show ?thesis using Cons.IH [OF st] True by simp
  next
    case False
    then show ?thesis using Cons.prems(2) by (auto simp: readable_def not_less split: if_splits)
  qed
qed auto

lemma validate_fn: "k = KindDictionary \<or> k = KindCorpus \<Longrightarrow> Validate U k src = validate_with k (line_fn U k) src"
  by (auto simp: Validate_def ValidateDictionary_def ValidateCorpus_def line_fn_def)

section \<open>Files and rows\<close>

record library =
  lb_ID :: int
  lb_Name :: string
  lb_Kind :: kind
  lb_Language :: string
  lb_Description :: string
  lb_SHA256 :: string
  lb_EntryCount :: nat
  lb_SizeBytes :: nat
  lb_FilePath :: string
  lb_System :: bool
  lb_CreatedBy :: "int option"
  lb_CreatedAt :: time

record store =
  so_rows :: "library table"
  so_files :: "(string \<times> string) list"

record uploadInputs =
  up_Name :: string
  up_Kind :: kind
  up_Language :: string
  up_Description :: string
  up_System :: bool
  up_Content :: "string option"
  up_AdminID :: "int option"

record lib_env =
  le_U :: unicode
  le_sha :: "string \<Rightarrow> string"

text \<open>The steps that can fail: \<open>findBySHA\<close>, writing the file, the INSERT, reading the row, the DELETE, removing the file.\<close>

datatype lib_stmt = LibFind | LibWrite | LibInsert | LibGet | LibDelete | LibRemove

definition Get :: "bool \<Rightarrow> int \<Rightarrow> store \<Rightarrow> lib_err + library" where
  "Get fault i s = (if fault then Inl ErrDriver else case find (\<lambda>l. lb_ID l = i) (t_rows (so_rows s)) of None \<Rightarrow> Inl ErrNotFound | Some l \<Rightarrow> Inr l)"

definition findBySHA :: "bool \<Rightarrow> string \<Rightarrow> store \<Rightarrow> lib_err + library" where
  "findBySHA fault sha s = (if fault then Inl ErrDriver else case find (\<lambda>l. lb_SHA256 l = sha) (t_rows (so_rows s)) of None \<Rightarrow> Inl ErrNotFound | Some l \<Rightarrow> Inr l)"

definition lib_hash :: "lib_env \<Rightarrow> string \<Rightarrow> string" where
  "lib_hash E raw = hex (le_sha E raw)"

definition rel_path :: "string \<Rightarrow> string" where
  "rel_path hashHex = hashHex @ ''.txt''"

definition new_library :: "lib_env \<Rightarrow> time \<Rightarrow> uploadInputs \<Rightarrow> string \<Rightarrow> report \<Rightarrow> int \<Rightarrow> library" where
  "new_library E now inp raw rep i = \<lparr>lb_ID = i, lb_Name = TrimSpace (up_Name inp), lb_Kind = up_Kind inp,
     lb_Language = ToLower (le_U E) (TrimSpace (up_Language inp)), lb_Description = TrimSpace (up_Description inp), lb_SHA256 = lib_hash E raw,
     lb_EntryCount = rp_EntryCount rep, lb_SizeBytes = length raw, lb_FilePath = rel_path (lib_hash E raw), lb_System = up_System inp,
     lb_CreatedBy = up_AdminID inp, lb_CreatedAt = now\<rparr>"

text \<open>The checks of \<open>Upload\<close> before anything is stored: the content and its report, or the error.\<close>

definition upload_check :: "lib_env \<Rightarrow> bool \<Rightarrow> uploadInputs \<Rightarrow> store \<Rightarrow> (lib_err \<times> report option) + (string \<times> report)" where
  "upload_check E fault inp s =
     (if TrimSpace (up_Name inp) = [] then Inl (ErrName, None)
      else if TrimSpace (up_Language inp) = [] then Inl (ErrLanguage, None)
      else case up_Content inp of
        None \<Rightarrow> Inl (ErrRead, None)
      | Some raw \<Rightarrow>
          (case Validate (le_U E) (up_Kind inp) raw of
             (Some e, rep) \<Rightarrow> Inl (e, Some rep)
           | (None, rep) \<Rightarrow>
               if HasErrors rep then Inl (ErrLines (length (rp_FirstErrors rep)), Some rep)
               else (case findBySHA fault (lib_hash E raw) s of
                       Inr _ \<Rightarrow> Inl (ErrAlreadyExists, Some rep)
                     | Inl e \<Rightarrow> if e = ErrNotFound then Inr (raw, rep) else Inl (e, Some rep))))"

definition write_file :: "string \<Rightarrow> string \<Rightarrow> store \<Rightarrow> store" where
  "write_file path raw s = s\<lparr>so_files := gm_set path raw (so_files s)\<rparr>"

definition remove_file :: "bool \<Rightarrow> string \<Rightarrow> store \<Rightarrow> store" where
  "remove_file fault path s = (if fault then s else s\<lparr>so_files := gm_del path (so_files s)\<rparr>)"

text \<open>The INSERT; a failure (the driver's, or a second row with the same hash) removes the file again.\<close>

definition upload_insert :: "lib_env \<Rightarrow> lib_stmt faults \<Rightarrow> time \<Rightarrow> uploadInputs \<Rightarrow> string \<Rightarrow> report \<Rightarrow> store \<Rightarrow> (lib_err + int) \<times> store" where
  "upload_insert E fs now inp raw rep s =
     (if fs LibInsert \<or> lib_hash E raw \<in> lb_SHA256 ` set (t_rows (so_rows s))
      then (Inl ErrDriver, remove_file (fs LibRemove) (rel_path (lib_hash E raw)) s)
      else let (i, t) = tbl_insert (new_library E now inp raw rep) (so_rows s) in (Inr i, s\<lparr>so_rows := t\<rparr>))"

text \<open>\<open>left\<close> is what a failing \<open>os.WriteFile\<close> leaves of the file, if it got as far as creating it.\<close>

definition Upload :: "lib_env \<Rightarrow> lib_stmt faults \<Rightarrow> string option \<Rightarrow> time \<Rightarrow> uploadInputs \<Rightarrow> store \<Rightarrow> (lib_err + library) \<times> store" where
  "Upload E fs left now inp s =
     (case upload_check E (fs LibFind) inp s of
        Inl (e, _) \<Rightarrow> (Inl e, s)
      | Inr (raw, rep) \<Rightarrow>
          if fs LibWrite
          then (Inl ErrWrite, case left of None \<Rightarrow> s | Some part \<Rightarrow> write_file (rel_path (lib_hash E raw)) part s)
          else (case upload_insert E fs now inp raw rep (write_file (rel_path (lib_hash E raw)) raw s) of
                  (Inl e, s) \<Rightarrow> (Inl e, s)
                | (Inr i, s) \<Rightarrow> (Get (fs LibGet) i s, s)))"

definition delete_row :: "int \<Rightarrow> store \<Rightarrow> store" where
  "delete_row i s = s\<lparr>so_rows := tbl_delete (\<lambda>l. lb_ID l = i) (so_rows s)\<rparr>"

definition Delete :: "lib_stmt faults \<Rightarrow> int \<Rightarrow> store \<Rightarrow> lib_err option \<times> store" where
  "Delete fs i s =
     (case Get (fs LibGet) i s of
        Inl e \<Rightarrow> (Some e, s)
      | Inr lib \<Rightarrow>
          if lb_System lib then (Some ErrSystemReadOnly, s)
          else if fs LibDelete then (Some ErrDriver, s)
          else (None, remove_file (fs LibRemove) (lb_FilePath lib) (delete_row i s)))"

definition open_file :: "bool \<Rightarrow> int \<Rightarrow> store \<Rightarrow> lib_err + (library \<times> string)" where
  "open_file fault i s = (case Get fault i s of
     Inl e \<Rightarrow> Inl e
   | Inr lib \<Rightarrow> (case map_of (so_files s) (lb_FilePath lib) of None \<Rightarrow> Inl ErrNotFound | Some raw \<Rightarrow> Inr (lib, raw)))"

text \<open>\<open>Sample\<close>: the first entries of the stored file.\<close>

fun sample_loop :: "nat \<Rightarrow> string list \<Rightarrow> lib_err option \<times> string list" where
  "sample_loop n [] = (None, [])"
| "sample_loop n (l # ls) =
     (if length l \<ge> maxTokenSize then (Some ErrTooLong, [])
      else case n of
        0 \<Rightarrow> (None, [])
      | Suc m \<Rightarrow>
          let line = TrimSpace (drop_cr l)
          in if skipped line then sample_loop n ls else let (e, out) = sample_loop m ls in (e, line # out))"

definition Sample :: "bool \<Rightarrow> int \<Rightarrow> int \<Rightarrow> store \<Rightarrow> lib_err + (library \<times> string list)" where
  "Sample fault i n s = (case open_file fault i s of
     Inl e \<Rightarrow> Inl e
   | Inr (lib, raw) \<Rightarrow> (case sample_loop (nat (if n \<le> 0 then 10 else n)) (scan_lines raw) of (Some e, _) \<Rightarrow> Inl e | (None, out) \<Rightarrow> Inr (lib, out)))"

section \<open>Stored files\<close>

text \<open>Every row has its file, unchanged, under the name of its hash; hashes are unique.\<close>

definition files_ok :: "lib_env \<Rightarrow> store \<Rightarrow> bool" where
  "files_ok E s \<longleftrightarrow> distinct (map lb_SHA256 (t_rows (so_rows s)))
     \<and> (\<forall>l\<in>set (t_rows (so_rows s)). lb_FilePath l = rel_path (lb_SHA256 l)
          \<and> (\<exists>raw. map_of (so_files s) (lb_FilePath l) = Some raw \<and> lib_hash E raw = lb_SHA256 l \<and> length raw = lb_SizeBytes l))"

datatype lib_cmd = LUpload "lib_stmt faults" "string option" time uploadInputs | LDelete "lib_stmt faults" int

fun lib_step :: "lib_env \<Rightarrow> lib_cmd \<Rightarrow> store \<Rightarrow> store" where
  "lib_step E (LUpload fs left now inp) s = snd (Upload E fs left now inp s)"
| "lib_step E (LDelete fs i) s = snd (Delete fs i s)"

lemma rel_path_inj: "rel_path a = rel_path b \<longleftrightarrow> a = b"
  by (simp add: rel_path_def)

lemma upload_check_new: "upload_check E fault inp s = Inr (raw, rep) \<Longrightarrow> lib_hash E raw \<notin> lb_SHA256 ` set (t_rows (so_rows s))"
  by (auto simp: upload_check_def findBySHA_def find_None_iff split: if_splits option.splits prod.splits sum.splits)

lemma files_ok_remove:
  assumes "files_ok E s" "h \<notin> lb_SHA256 ` set (t_rows (so_rows s))"
  shows "files_ok E (remove_file fault (rel_path h) s)" "files_ok E (write_file (rel_path h) raw s)"
  using assms by (auto simp: files_ok_def remove_file_def write_file_def rel_path_inj)

lemma Get_Some: "Get fault i s = Inr l \<Longrightarrow> l \<in> set (t_rows (so_rows s)) \<and> lb_ID l = i"
  using find_Some_in unfolding Get_def by (fastforce split: if_splits option.splits)

lemma files_ok_Upload: "files_ok E s \<Longrightarrow> files_ok E (snd (Upload E fs left now inp s))"
proof (cases "upload_check E (fs LibFind) inp s")
  case (Inr x)
  obtain raw rep where x: "x = (raw, rep)" by (cases x)
  assume ok: "files_ok E s"
  note new = upload_check_new [OF Inr [unfolded x]]
  let ?s = "write_file (rel_path (lib_hash E raw)) raw s"
  have rows: "so_rows ?s = so_rows s" by (simp add: write_file_def)
  have w: "files_ok E ?s" using files_ok_remove(2) [OF ok new] .
  have i: "files_ok E (snd (upload_insert E fs now inp raw rep ?s))"
  proof (cases "fs LibInsert")
    case True
    then show ?thesis using files_ok_remove(1) [OF w] new by (simp add: upload_insert_def rows)
  next
    case False
    then show ?thesis using w new
      by (auto simp: upload_insert_def rows tbl_insert_def files_ok_def new_library_def write_file_def)
  qed
  moreover have "files_ok E (write_file (rel_path (lib_hash E raw)) part s)" for part using files_ok_remove(2) [OF ok new] .
  ultimately show ?thesis using ok Inr x by (auto simp: Upload_def split: prod.split sum.split option.split)
qed (auto simp: Upload_def)

lemma files_ok_Delete:
  assumes "files_ok E s"
  shows "files_ok E (snd (Delete fs i s))"
proof (cases "Get (fs LibGet) i s")
  case (Inr l)
  note l = Get_Some [OF Inr]
  have d: "files_ok E (delete_row i s)"
    using assms by (auto simp: files_ok_def delete_row_def tbl_delete_def intro: distinct_map_filter)
  have "lb_SHA256 l \<notin> lb_SHA256 ` set (t_rows (so_rows (delete_row i s)))"
    using assms l by (auto simp: files_ok_def delete_row_def tbl_delete_def distinct_map dest: inj_onD)
  then have "files_ok E (remove_file (fs LibRemove) (rel_path (lb_SHA256 l)) (delete_row i s))" using files_ok_remove(1) [OF d] by blast
  moreover have "lb_FilePath l = rel_path (lb_SHA256 l)" using assms l by (simp add: files_ok_def)
  ultimately show ?thesis using Inr assms by (simp add: Delete_def)
qed (use assms in \<open>simp add: Delete_def\<close>)

interpretation lib: machine "lib_step E" "files_ok E" for E
proof
  fix s c
  show "files_ok E s \<Longrightarrow> files_ok E (lib_step E c s)" by (cases c) (simp_all add: files_ok_Upload files_ok_Delete)
qed

section \<open>Properties\<close>

text \<open>
  C28. A library is accepted exactly when it is clean. \<open>Validate\<close> returns no error and a report without line errors, which is what \<open>Upload\<close> asks for, if
  the kind is known, there is no byte-order mark, every line is short enough and valid UTF-8, there is an entry, every entry obeys the rules of
  its kind and no two entries agree up to case; the report then lists the entries of the file, in order. In every other case it returns an error or
  reports line errors.
\<close>

theorem accepted_library_is_clean:
  "if (k = KindDictionary \<or> k = KindCorpus) \<and> take 3 src \<noteq> BOM \<and> list_all readable (scan_lines src) \<and> content_lines src \<noteq> []
      \<and> list_all (line_ok U k) (content_lines src) \<and> distinct (map (line_key U) (content_lines src))
   then fst (Validate U k src) = None \<and> \<not> HasErrors (snd (Validate U k src))
      \<and> rp_EntryCount (snd (Validate U k src)) = length (content_lines src)
      \<and> rp_Entries (snd (Validate U k src)) = map (line_entry U k) (content_lines src)
   else \<not> (fst (Validate U k src) = None \<and> \<not> HasErrors (snd (Validate U k src)))"
proof (cases "k = KindDictionary \<or> k = KindCorpus")
  case k: True
  show ?thesis
  proof (cases "take 3 src = BOM")
    case True
    then show ?thesis using validate_fn [OF k] by (simp add: validate_with_def readLines_def)
  next
    case bom: False
    obtain e st where l: "line_loop (line_fn U k) 0 (scan_lines src) (new_report k, []) = (e, st)"
      by (cases "line_loop (line_fn U k) 0 (scan_lines src) (new_report k, [])")
    have "lines_inv U k [] (new_report k, [])" by (simp add: lines_inv_def HasErrors_def new_report_def)
    from line_loop_inv [OF k this l] have i: "e = None \<longleftrightarrow> list_all readable (scan_lines src)" "e = None \<Longrightarrow> lines_inv U k (scan_lines src) st" by auto
    have v: "Validate U k src = (case e of Some x \<Rightarrow> (Some x, fst st) | None \<Rightarrow> finish (fst st))"
      using validate_fn [OF k] bom l by (cases st) (simp add: validate_with_def readLines_def split: option.split)
    have f: "fst (finish (fst st)) = None \<longleftrightarrow> rp_Entries (fst st) \<noteq> []" "HasErrors (snd (finish (fst st))) = HasErrors (fst st)"
        "rp_EntryCount (snd (finish (fst st))) = length (rp_Entries (fst st))" "rp_Entries (snd (finish (fst st))) = rp_Entries (fst st)"
      by (auto simp: finish_def HasErrors_def Let_def)
    show ?thesis
    proof (cases e)
      case None
      then have inv: "HasErrors (fst st) \<longleftrightarrow> \<not> (list_all (line_ok U k) (content_lines src) \<and> distinct (map (line_key U) (content_lines src)))"
          "\<not> HasErrors (fst st) \<Longrightarrow> rp_Entries (fst st) = map (line_entry U k) (content_lines src)"
        using i(2) by (auto simp: lines_inv_def Let_def content_lines_def)
      have "Validate U k src = finish (fst st)" using v None by simp
      then show ?thesis using k bom None i(1) inv f by (cases "finish (fst st)") auto
    next
      case (Some x)
      then show ?thesis using v i(1) by simp
    qed
  qed
next
  case False
  then show ?thesis by (cases k) (auto simp: Validate_def)
qed

text \<open>
  C35. A listed library can be read. After any run of uploads and deletions, one after the other and with any failures, every row has its file on disk, the
  content it was accepted with: the hash and the size of the row are those of the file.
\<close>

theorem library_files_intact:
  assumes "l \<in> set (t_rows (so_rows (run (lib_step E) cs \<lparr>so_rows = empty_table, so_files = []\<rparr>)))"
  shows "\<exists>raw. map_of (so_files (run (lib_step E) cs \<lparr>so_rows = empty_table, so_files = []\<rparr>)) (lb_FilePath l) = Some raw
    \<and> hex (le_sha E raw) = lb_SHA256 l \<and> length raw = lb_SizeBytes l"
proof -
  have "files_ok E \<lparr>so_rows = empty_table, so_files = []\<rparr>" by (simp add: files_ok_def empty_table_def)
  from lib.inv_run [OF this, of cs] show ?thesis using assms by (auto simp: files_ok_def lib_hash_def)
qed

definition toy_lib :: lib_env where
  "toy_lib = \<lparr>le_U = ascii_tables, le_sha = id\<rparr>"

definition toy_upload :: uploadInputs where
  "toy_upload = \<lparr>up_Name = ''quotes'', up_Kind = KindCorpus, up_Language = ''en'', up_Description = [], up_System = False,
     up_Content = Some ''to be or not'', up_AdminID = None\<rparr>"

theorem library_files_intact_witness:
  "let s = run (lib_step toy_lib) [LUpload no_faults None 5 toy_upload, LUpload no_faults None 6 toy_upload] \<lparr>so_rows = empty_table, so_files = []\<rparr>
   in \<exists>l raw. t_rows (so_rows s) = [l] \<and> map_of (so_files s) (lb_FilePath l) = Some raw \<and> hex (le_sha toy_lib raw) = lb_SHA256 l"
proof -
  let ?s = "run (lib_step toy_lib) [LUpload no_faults None 5 toy_upload, LUpload no_faults None 6 toy_upload] \<lparr>so_rows = empty_table, so_files = []\<rparr>"
  have "length (t_rows (so_rows ?s)) = 1" by code_simp
  then obtain l where l: "t_rows (so_rows ?s) = [l]" by (auto simp: length_Suc_conv)
  then have "l \<in> set (t_rows (so_rows ?s))" by (metis list.set_intros(1))
  from library_files_intact [OF this] show ?thesis unfolding Let_def using l by blast
qed

text \<open>
  C39. Two uploads of the same content at the same time lose it. Both find the content new and write the file; the second INSERT violates the unique
  hash, and its clean-up removes the file the first row points to.
\<close>

theorem concurrent_upload_can_lose_file:
  assumes "upload_check E False inp s = Inr (raw, rep)"
    "upload_insert E no_faults now inp raw rep (write_file (rel_path (lib_hash E raw)) raw s) = (r1, s1)"
    "upload_insert E no_faults now' inp raw rep (write_file (rel_path (lib_hash E raw)) raw s1) = (r2, s2)"
    "tbl_wf lb_ID lb_SHA256 (so_rows s)"
  shows "\<exists>i. r1 = Inr i \<and> r2 = Inl ErrDriver \<and> open_file False i s2 = Inl ErrNotFound \<and> (\<exists>l. Get False i s2 = Inr l)"
proof -
  note new = upload_check_new [OF assms(1)]
  let ?p = "rel_path (lib_hash E raw)" and ?l = "new_library E now inp raw rep (t_next (so_rows s))"
  have 1: "r1 = Inr (t_next (so_rows s))" "so_rows s1 = \<lparr>t_rows = t_rows (so_rows s) @ [?l], t_next = t_next (so_rows s) + 1\<rparr>"
    using assms(2) new by (auto simp: upload_insert_def write_file_def tbl_insert_def)
  have "lb_SHA256 ?l = lib_hash E raw" by (simp add: new_library_def)
  then have 2: "r2 = Inl ErrDriver" "so_rows s2 = so_rows s1" "map_of (so_files s2) ?p = None"
    using assms(3) 1 by (auto simp: upload_insert_def write_file_def remove_file_def split: if_splits)
  have "find (\<lambda>l. lb_ID l = t_next (so_rows s)) (t_rows (so_rows s)) = None" using assms(4) by (auto simp: find_None_iff tbl_wf_def)
  then have "Get False (t_next (so_rows s)) s2 = Inr ?l" unfolding Get_def 2 1 by (simp add: find_append new_library_def)
  then show ?thesis using 1 2 by (simp add: open_file_def new_library_def)
qed

theorem concurrent_upload_can_lose_file_witness:
  "\<exists>i rep s1 s2. upload_check toy_lib False toy_upload \<lparr>so_rows = empty_table, so_files = []\<rparr> = Inr (''to be or not'', rep)
     \<and> snd (upload_insert toy_lib no_faults 6 toy_upload ''to be or not'' rep (write_file (rel_path (lib_hash toy_lib ''to be or not'')) ''to be or not'' s1)) = s2
     \<and> open_file False i s2 = Inl ErrNotFound"
proof -
  let ?s = "\<lparr>so_rows = empty_table, so_files = []\<rparr>" and ?raw = "''to be or not''"
  have "case upload_check toy_lib False toy_upload ?s of Inl _ \<Rightarrow> False | Inr x \<Rightarrow> fst x = ?raw" by code_simp
  then obtain rep where c: "upload_check toy_lib False toy_upload ?s = Inr (?raw, rep)" by (auto split: sum.splits)
  obtain r1 s1 where 1: "upload_insert toy_lib no_faults 5 toy_upload ?raw rep (write_file (rel_path (lib_hash toy_lib ?raw)) ?raw ?s) = (r1, s1)"
    by (metis prod.collapse)
  obtain r2 s2 where 2: "upload_insert toy_lib no_faults 6 toy_upload ?raw rep (write_file (rel_path (lib_hash toy_lib ?raw)) ?raw s1) = (r2, s2)"
    by (metis prod.collapse)
  have "tbl_wf lb_ID lb_SHA256 (so_rows ?s)" by (simp add: tbl_wf_def empty_table_def)
  from concurrent_upload_can_lose_file [OF c 1 2 this] show ?thesis using c 2 by (metis snd_conv)
qed

end
