(* ===== verification/Strength.thy ===== *)
theory Strength
  imports Admin_Accounts Policy_Entropy
begin

text \<open>
  The password strength estimate (\<open>internal/strength/strength.go\<close>): the cheapest way to read a secret as brute-forced
  characters and predictable patterns. Strings are lists of runes here; \<open>[]rune(string(w))\<close> gives back runes that came from a string. Bits are
  reals instead of \<open>float64\<close>. The word lists (given in \<open>Strength_Words\<close>) and the Unicode tables are parameters: nothing below depends on what is in them.
\<close>

section \<open>Pattern costs\<close>

record strength_env =
  sn_U :: unicode
  sn_digit :: "rune \<Rightarrow> bool"
  sn_common :: "string \<Rightarrow> bool"
  sn_dict :: "string \<Rightarrow> bool"

type_synonym segment = "real \<times> string"

definition costDictionaryWord :: real where "costDictionaryWord = 12"
definition costCommonPassword :: real where "costCommonPassword = 10"
definition costContextWord :: real where "costContextWord = 2"
definition costYear :: real where "costYear = 7.65"
definition minWordLen :: nat where "minWordLen = 4"
definition minContextLen :: nat where "minContextLen = 3"
definition minPatternLen :: nat where "minPatternLen = 3"

definition foldRune :: "rune \<Rightarrow> rune" where
  "foldRune r =
     (if r \<in> {0xE0, 0xE2, 0xE4, 0xE1, 0xE3} then 97 else if r \<in> {0xE9, 0xE8, 0xEA, 0xEB} then 101
      else if r \<in> {0xEE, 0xEF, 0xED} then 105 else if r \<in> {0xF4, 0xF6, 0xF3} then 111
      else if r \<in> {0xF9, 0xFB, 0xFC, 0xFA} then 117 else if r = 0xE7 then 99 else if r = 0xFF then 121 else r)"

definition foldWord :: "string \<Rightarrow> string" where
  "foldWord s = of_runes (map foldRune (runes s))"

definition IsCommon :: "strength_env \<Rightarrow> string \<Rightarrow> bool" where
  "IsCommon E s = sn_common E (foldWord (ToLower (sn_U E) s))"

definition productWords :: "string list" where
  "productWords = [''sealkeeper'', ''seal'', ''keeper'']"

text \<open>\<open>strings.FieldsFunc\<close> on runes.\<close>

fun fieldsFunc :: "(rune \<Rightarrow> bool) \<Rightarrow> rune list \<Rightarrow> rune list \<Rightarrow> rune list list" where
  "fieldsFunc P cur [] = (if cur = [] then [] else [cur])"
| "fieldsFunc P cur (r # rs) = (if P r then (if cur = [] then [] else [cur]) @ fieldsFunc P [] rs else fieldsFunc P (cur @ [r]) rs)"

definition context_add :: "strength_env \<Rightarrow> string \<Rightarrow> string list" where
  "context_add E t = (let t = foldWord (ToLower (sn_U E) (TrimSpace t)) in if RuneCountInString t \<ge> minContextLen then [t] else [])"

definition contextWords :: "strength_env \<Rightarrow> string list \<Rightarrow> string list" where
  "contextWords E inputs =
     concat (map (context_add E) productWords)
     @ concat (map (\<lambda>inp. context_add E inp
         @ concat (map (\<lambda>part. context_add E (of_runes part)
             @ concat (map (\<lambda>tok. context_add E (of_runes tok)) (fieldsFunc (\<lambda>r. \<not> u_isLetter (sn_U E) r \<and> \<not> sn_digit E r) [] part)))
           (fieldsFunc (\<lambda>r. r = 64 \<or> r = 46) [] (runes inp)))) inputs)"

definition poolSize :: "rune list \<Rightarrow> real" where
  "poolSize w =
     (let has = (\<lambda>P. list_ex P w);
          low = (\<lambda>r. 97 \<le> r \<and> r \<le> 122); up = (\<lambda>r. 65 \<le> r \<and> r \<le> 90); dig = (\<lambda>r. 48 \<le> r \<and> r \<le> 57);
          pool = (if has low then 26 else 0) + (if has up then 26 else 0) + (if has dig then 10 else 0)
            + (if has (\<lambda>r. \<not> low r \<and> \<not> up r \<and> \<not> dig r \<and> r < 128) then 33 else 0)
            + (if has (\<lambda>r. 128 \<le> r) then 100 else (0::real))
      in if pool < 2 then 2 else pool)"

section \<open>Patterns\<close>

text \<open>A loop that keeps the cheapest segment found so far.\<close>

definition take_cheaper :: "segment \<Rightarrow> segment option \<Rightarrow> segment option" where
  "take_cheaper seg out = (case out of None \<Rightarrow> Some seg | Some o' \<Rightarrow> if fst seg < fst o' then Some seg else out)"

definition take_opt :: "segment option \<Rightarrow> segment option \<Rightarrow> segment option" where
  "take_opt seg out = (case seg of None \<Rightarrow> out | Some s \<Rightarrow> take_cheaper s out)"

definition binomial_loop :: "nat \<Rightarrow> nat \<Rightarrow> real" where
  "binomial_loop n k = fold (\<lambda>i r. r * real (n - k + i) / real i) [1..<k + 1] 1"

definition caseBits :: "strength_env \<Rightarrow> rune list \<Rightarrow> real" where
  "caseBits E w =
     (let up = length (filter (u_isUpper (sn_U E)) w); lo = length (filter (\<lambda>r. \<not> u_isUpper (sn_U E) r \<and> u_isLower (sn_U E) r) w)
      in if up = 0 then 0
         else if lo = 0 \<or> (up = 1 \<and> u_isUpper (sn_U E) (w ! 0)) then 1
         else log 2 (\<Sum>i\<leftarrow>[1..<min up lo + 1]. binomial_loop (up + lo) i))"

definition leetMap :: "(rune \<times> rune) list" where
  "leetMap = [(48, 111), (49, 105), (33, 105), (124, 105), (51, 101), (52, 97), (64, 97), (53, 115), (36, 115), (55, 116), (43, 116),
     (56, 98), (57, 103), (0x20AC, 101)]"

definition leet_rune :: "strength_env \<Rightarrow> bool \<Rightarrow> rune \<Rightarrow> rune \<times> nat" where
  "leet_rune E oneAsL r =
     (let lr = lower_rune (sn_U E) r
      in case map_of leetMap lr of
           None \<Rightarrow> (foldRune lr, 0)
         | Some m \<Rightarrow> (foldRune (if oneAsL \<and> (lr = 49 \<or> lr = 124) then 108 else m), 1))"

record variant =
  va_word :: string
  va_subs :: nat
  va_reversed :: bool

definition leetVariants :: "strength_env \<Rightarrow> rune list \<Rightarrow> variant list" where
  "leetVariants E w = concat (map (\<lambda>rv. map (\<lambda>one.
     (let ls = map (leet_rune E one) (if rv then rev w else w)
      in \<lparr>va_word = of_runes (map fst ls), va_subs = sum_list (map snd ls), va_reversed = rv\<rparr>)) [False, True]) [False, True])"

definition variant_segment :: "strength_env \<Rightarrow> string list \<Rightarrow> real \<Rightarrow> variant \<Rightarrow> segment option" where
  "variant_segment E ctx extra v =
     (let bits = extra + real (va_subs v) + (if va_reversed v then 1 else 0); word = va_word v
      in if length word \<ge> minContextLen \<and> word \<in> set ctx then Some (costContextWord + bits, ''context'')
         else if sn_common E word then Some (costCommonPassword + bits, ''common'')
         else if RuneCountInString word \<ge> minWordLen \<and> sn_dict E word then Some (costDictionaryWord + bits, ''dictionary'')
         else None)"

definition matchWord :: "strength_env \<Rightarrow> string list \<Rightarrow> rune list \<Rightarrow> segment option" where
  "matchWord E ctx w = fold (\<lambda>v. take_opt (variant_segment E ctx (caseBits E w) v)) (leetVariants E w) None"

definition isYear :: "rune list \<Rightarrow> bool" where
  "isYear w \<longleftrightarrow> length w = 4 \<and> list_all (\<lambda>r. 48 \<le> r \<and> r \<le> 57) w
     \<and> ((w ! 0 = 49 \<and> w ! 1 = 57) \<or> (w ! 0 = 50 \<and> w ! 1 = 48))"

definition classOf :: "rune \<Rightarrow> char" where
  "classOf r = (if 97 \<le> r \<and> r \<le> 122 then CHR ''l'' else if 65 \<le> r \<and> r \<le> 90 then CHR ''u'' else if 48 \<le> r \<and> r \<le> 57 then CHR ''d'' else CHR ''s'')"

definition sequenceBits :: "rune list \<Rightarrow> real option" where
  "sequenceBits w =
     (let delta = int (w ! 1) - int (w ! 0)
      in if delta \<noteq> 1 \<and> delta \<noteq> -1 then None
      else if list_ex (\<lambda>k. int (w ! k) - int (w ! (k - 1)) \<noteq> delta \<or> classOf (w ! k) \<noteq> classOf (w ! 0)) [1..<length w] then None
      else let base = (if w ! 0 \<in> {97, 65, 122, 90, 48, 49, 57} then Some 4 else if classOf (w ! 0) = CHR ''d'' then Some 10
                       else if classOf (w ! 0) \<in> {CHR ''l'', CHR ''u''} then Some 26 else None)
      in map_option (\<lambda>b. log 2 (b * real (length w)) + (if delta < 0 then 1 else 0)) base)"

text \<open>The rows as runes.\<close>

definition keyboardRows :: "string list" where
  "keyboardRows = [[CHR 0x60] @ ''1234567890-='', ''~!@#$%^&*()_+'', ''qwertyuiop[]'' @ [CHR 0x5C], ''asdfghjkl;'' @ [CHR 0x27], ''zxcvbnm,./'',
     ''azertyuiop^$'', ''qsdfghjklm'' @ [CHR 0xC3, CHR 0xB9] @ ''*'', ''<wxcvbn,;:!'',
     ''&'' @ [CHR 0xC3, CHR 0xA9, CHR 0x22, CHR 0x27] @ ''(-'' @ [CHR 0xC3, CHR 0xA8] @ ''_'' @ [CHR 0xC3, CHR 0xA7, CHR 0xC3, CHR 0xA0] @ '')='',
     ''1qaz2wsx3edc4rfv5tgb6yhn7ujm8ik,9ol.0p;/'', ''1aqw2zsx3edc4rfv5tgb6yhn7ujn8ik,9ol;0pm:'', ''zaq1xsw2cde3vfr4bgt5nhy6mju7'',
     ''qwertzuiop'', ''yxcvbnm'']"

definition keyboardBits :: "strength_env \<Rightarrow> rune list \<Rightarrow> real option" where
  "keyboardBits E w =
     (let lw = ToLower (sn_U E) (of_runes w); rw = of_runes (rev (runes lw))
      in if list_ex (\<lambda>row. sublist lw row \<or> sublist rw row) keyboardRows
         then Some (log 2 (48 * real (length w)) + 1 + caseBits E w) else None)"

text \<open>\<open>repeatBits\<close>; \<open>est\<close> is the estimate of a shorter block.\<close>

definition repeats :: "strength_env \<Rightarrow> rune list \<Rightarrow> nat \<Rightarrow> bool" where
  "repeats E w sz \<longleftrightarrow> length w mod sz = 0
     \<and> list_all (\<lambda>k. lower_rune (sn_U E) (w ! k) = lower_rune (sn_U E) (w ! (k - sz))) [sz..<length w]"

definition repeatBits :: "strength_env \<Rightarrow> (rune list \<Rightarrow> real) \<Rightarrow> rune list \<Rightarrow> real option" where
  "repeatBits E est w = (case find (repeats E w) [1..<length w div 2 + 1] of
     None \<Rightarrow> None
   | Some sz \<Rightarrow> Some (est (take sz w) + log 2 (real (length w div sz)) + caseBits E w / 2))"

definition matchPattern :: "strength_env \<Rightarrow> string list \<Rightarrow> (rune list \<Rightarrow> real) \<Rightarrow> rune list \<Rightarrow> segment option" where
  "matchPattern E ctx est w =
     take_opt (map_option (\<lambda>b. (b, ''repeat'')) (repeatBits E est w))
       (take_opt (map_option (\<lambda>b. (b, ''keyboard'')) (keyboardBits E w))
         (take_opt (map_option (\<lambda>b. (b, ''sequence'')) (sequenceBits w))
           (take_opt (if isYear w then Some (costYear, ''year'') else None) (take_opt (matchWord E ctx w) None))))"

section \<open>The cheapest reading\<close>

text \<open>The arrays \<open>best\<close> (\<open>None\<close> for infinity), \<open>from\<close> and \<open>via\<close>.\<close>

type_synonym table3 = "real option list \<times> nat list \<times> string list"

definition relax :: "nat \<Rightarrow> nat \<times> segment \<Rightarrow> table3 \<Rightarrow> table3" where
  "relax i js t =
     (let (best, from, via) = t; (j, bits, code) = js; c = the (best ! i) + bits
      in if (case best ! j of None \<Rightarrow> True | Some b \<Rightarrow> c < b) then (best[j := Some c], from[j := i], via[j := code]) else t)"

text \<open>The segments that start at \<open>i\<close>, in the order the loop tries them.\<close>

definition edges :: "real \<Rightarrow> (rune list \<Rightarrow> segment option) \<Rightarrow> rune list \<Rightarrow> nat \<Rightarrow> (nat \<times> segment) list" where
  "edges perChar pat w i = (i + 1, perChar, '''')
     # List.map_filter (\<lambda>j. map_option (Pair j) (pat (drop i (take j w)))) [i + minPatternLen..<length w + 1]"

definition relax_from :: "real \<Rightarrow> (rune list \<Rightarrow> segment option) \<Rightarrow> rune list \<Rightarrow> nat \<Rightarrow> table3 \<Rightarrow> table3" where
  "relax_from perChar pat w i t = (if fst t ! i = None then t else fold (relax i) (edges perChar pat w i) t)"

definition cover_table :: "real \<Rightarrow> (rune list \<Rightarrow> segment option) \<Rightarrow> rune list \<Rightarrow> table3" where
  "cover_table perChar pat w = fold (relax_from perChar pat w) [0..<length w]
     (Some 0 # replicate (length w) None, replicate (length w + 1) 0, replicate (length w + 1) '''')"

text \<open>The walk back over \<open>from\<close>; every step moves left, so the length of the secret is fuel enough.\<close>

fun walk_codes :: "nat \<Rightarrow> nat list \<Rightarrow> string list \<Rightarrow> nat \<Rightarrow> string list" where
  "walk_codes 0 from via j = []"
| "walk_codes (Suc n) from via j = (if j = 0 then [] else via ! j # walk_codes n from via (from ! j))"

definition patternCodes :: "string list" where
  "patternCodes = [''common'', ''context'', ''dictionary'', ''keyboard'', ''repeat'', ''sequence'', ''year'']"

function estimate :: "strength_env \<Rightarrow> string list \<Rightarrow> rune list \<Rightarrow> real \<times> string list" where
  "estimate E ctx w =
     (if w = [] then (0, [])
      else
        let t = cover_table (log 2 (poolSize w)) (matchPattern E ctx (\<lambda>b. if length b < length w then fst (estimate E ctx b) else 0)) w;
            seen = walk_codes (length w) (fst (snd t)) (snd (snd t)) (length w)
        in (the (fst t ! length w), filter (\<lambda>c. c \<in> set seen) patternCodes))"
  by pat_completeness auto
termination by (relation "measure (\<lambda>(E, ctx, w). length w)") auto

declare estimate.simps [simp del]

definition Estimate :: "strength_env \<Rightarrow> string \<Rightarrow> string list \<Rightarrow> real \<times> string list" where
  "Estimate E s userInputs = estimate E (contextWords E userInputs) (runes s)"

section \<open>The table holds the cheapest covers\<close>

text \<open>\<open>cover seg m j c\<close>: the first \<open>j\<close> runes can be covered at cost \<open>c\<close> by segments that start before \<open>m\<close>.\<close>

inductive cover :: "(nat \<Rightarrow> nat \<Rightarrow> real option) \<Rightarrow> nat \<Rightarrow> nat \<Rightarrow> real \<Rightarrow> bool" for seg m where
  start: "cover seg m 0 0"
| extend: "cover seg m i c \<Longrightarrow> i < m \<Longrightarrow> seg i j = Some b \<Longrightarrow> cover seg m j (c + b)"

inductive_cases cover_end: "cover seg m j c"

text \<open>The price of the segment from \<open>i\<close> to \<open>j\<close>.\<close>

definition price :: "real \<Rightarrow> (rune list \<Rightarrow> segment option) \<Rightarrow> rune list \<Rightarrow> nat \<Rightarrow> nat \<Rightarrow> real option" where
  "price perChar pat w i j =
     (if j > length w then None
      else if j = i + 1 then Some perChar
      else if i + 3 \<le> j then map_option fst (pat (drop i (take j w))) else None)"

definition cheapest :: "(nat \<Rightarrow> nat \<Rightarrow> real option) \<Rightarrow> nat \<Rightarrow> nat \<Rightarrow> real option \<Rightarrow> bool" where
  "cheapest seg m j v \<longleftrightarrow> (case v of None \<Rightarrow> \<not> (\<exists>c. cover seg m j c) | Some b \<Rightarrow> cover seg m j b \<and> (\<forall>c. cover seg m j c \<longrightarrow> b \<le> c))"

lemma cover_mono: "cover seg m j c \<Longrightarrow> m \<le> m' \<Longrightarrow> cover seg m' j c"
  by (induction rule: cover.induct) (auto intro: cover.intros)

lemma cover_below:
  assumes "cover seg (Suc m) j c" "\<And>i j b. seg i j = Some b \<Longrightarrow> i < j" "j \<le> m"
  shows "cover seg m j c"
  using assms(1,3)
proof (induction rule: cover.induct)
  case (extend i c j b)
  have "i < j" using assms(2) extend.hyps(3) by blast
  then show ?case using extend by (auto intro: cover.extend)
qed (rule cover.start)

lemma cover_Suc:
  assumes "\<And>i j b. seg i j = Some b \<Longrightarrow> i < j"
  shows "cover seg (Suc m) j c \<longleftrightarrow> cover seg m j c \<or> (\<exists>c' b. cover seg m m c' \<and> seg m j = Some b \<and> c = c' + b)"
proof
  assume "cover seg (Suc m) j c"
  then show "cover seg m j c \<or> (\<exists>c' b. cover seg m m c' \<and> seg m j = Some b \<and> c = c' + b)"
  proof (cases rule: cover.cases)
    case (extend i c' b)
    have p: "cover seg m i c'" using cover_below [OF extend(2) assms] extend(3) by simp
    show ?thesis using p extend by (cases "i = m") (auto intro: cover.extend)
  qed (auto intro: cover.start)
next
  assume "cover seg m j c \<or> (\<exists>c' b. cover seg m m c' \<and> seg m j = Some b \<and> c = c' + b)"
  then show "cover seg (Suc m) j c" using cover_mono [of seg m _ _ "Suc m"] by (auto intro: cover.extend)
qed

lemma cheapest_Suc:
  assumes "\<And>i j b. seg i j = Some b \<Longrightarrow> i < j" "cheapest seg m m (Some a)" "cheapest seg m j v"
  shows "cheapest seg (Suc m) j (case seg m j of None \<Rightarrow> v
    | Some b \<Rightarrow> (case v of None \<Rightarrow> Some (a + b) | Some x \<Rightarrow> if a + b < x then Some (a + b) else v))"
proof (cases "seg m j")
  case None
  then show ?thesis using assms(3) cover_Suc [of seg m, OF assms(1)] by (simp add: cheapest_def split: option.splits)
next
  case (Some b)
  have a: "cover seg m m a" "\<And>c. cover seg m m c \<Longrightarrow> a \<le> c" using assms(2) by (auto simp: cheapest_def)
  show ?thesis
  proof (cases v)
    case None
    then show ?thesis using Some a assms(3) cover_Suc [of seg m, OF assms(1)] by (auto simp: cheapest_def)
  next
    case v: (Some x)
    then have x: "cover seg m j x" "\<And>c. cover seg m j c \<Longrightarrow> x \<le> c" using assms(3) by (auto simp: cheapest_def)
    show ?thesis unfolding v Some using a x Some cover_Suc [of seg m, OF assms(1)] by (fastforce simp: cheapest_def)
  qed
qed

definition improved :: "real \<Rightarrow> real option \<Rightarrow> real \<Rightarrow> real option" where
  "improved a v b = (case v of None \<Rightarrow> Some (a + b) | Some x \<Rightarrow> if a + b < x then Some (a + b) else v)"

lemma relax_best: "fst t ! i = Some a \<Longrightarrow> fst (relax i (j, b, code) t) =
    (if improved a (fst t ! j) b = fst t ! j then fst t else (fst t)[j := improved a (fst t ! j) b])"
  by (cases t) (auto simp: relax_def improved_def Let_def split: option.split)

lemma relax_nth:
  assumes "fst t ! i = Some a" "k < length (fst t)"
  shows "fst (relax i (j, b, code) t) ! k = (if k = j then improved a (fst t ! j) b else fst t ! k)" "length (fst (relax i (j, b, code) t)) = length (fst t)"
  using assms by (auto simp: relax_best nth_list_update)

lemma fold_relax:
  assumes "fst t ! i = Some a" "i < length (fst t)" "i \<notin> fst ` set es" "distinct (map fst es)" "k < length (fst t)"
  shows "fst (fold (relax i) es t) ! k = (case map_of es k of None \<Rightarrow> fst t ! k | Some s \<Rightarrow> improved a (fst t ! k) (fst s))
    \<and> length (fst (fold (relax i) es t)) = length (fst t)"
  using assms
proof (induction es arbitrary: t)
  case (Cons e es)
  obtain j b code where e: "e = (j, b, code)" by (cases e)
  let ?t = "relax i (j, b, code) t"
  have l: "length (fst ?t) = length (fst t)" using relax_nth(2) [OF Cons.prems(1,2)] .
  have i: "fst ?t ! i = Some a" using relax_nth(1) [OF Cons.prems(1,2)] Cons.prems(1,3) e by simp
  have k: "fst ?t ! k = (if k = j then improved a (fst t ! j) b else fst t ! k)" using relax_nth(1) [OF Cons.prems(1,5)] .
  have none: "k = j \<Longrightarrow> map_of es k = None" using Cons.prems(4) e by (auto simp: map_of_eq_None_iff)
  show ?case
  proof (cases "k = j")
    case True
    then show ?thesis using Cons.IH [OF i] Cons.prems l k none e by simp
  next
    case False
    then show ?thesis using Cons.IH [OF i] Cons.prems l k e by (cases "map_of es k") simp_all
  qed
qed simp

lemma map_of_map_filter:
  "map_of (List.map_filter (\<lambda>j. map_option (Pair j) (g j)) xs) j = (if j \<in> set xs then g j else None)"
  by (induction xs) (auto simp: List.map_filter_simps split: option.split)

lemma fst_map_filter: "map fst (List.map_filter (\<lambda>j. map_option (Pair j) (g j)) xs) = filter (\<lambda>j. g j \<noteq> None) xs"
  by (induction xs) (auto simp: List.map_filter_simps split: option.split)

lemma edges_props:
  assumes "i < length w"
  shows "distinct (map fst (edges perChar pat w i))" "i \<notin> fst ` set (edges perChar pat w i)"
    "map_option fst (map_of (edges perChar pat w i) j) = price perChar pat w i j"
proof -
  let ?g = "\<lambda>j. pat (drop i (take j w))" and ?xs = "[i + minPatternLen..<length w + 1]"
  have f: "map fst (edges perChar pat w i) = (i + 1) # filter (\<lambda>j. ?g j \<noteq> None) ?xs" unfolding edges_def by (simp add: fst_map_filter)
  show "distinct (map fst (edges perChar pat w i))" unfolding f by (simp add: minPatternLen_def)
  have "fst ` set (edges perChar pat w i) = set ((i + 1) # filter (\<lambda>j. ?g j \<noteq> None) ?xs)" using f by (metis list.set_map)
  then show "i \<notin> fst ` set (edges perChar pat w i)" by (auto simp: minPatternLen_def)
  show "map_option fst (map_of (edges perChar pat w i) j) = price perChar pat w i j"
    unfolding edges_def price_def using assms by (auto simp: map_of_map_filter minPatternLen_def)
qed

lemma price_forward: "price perChar pat w i j = Some b \<Longrightarrow> i < j"
  by (auto simp: price_def split: if_splits)

lemma relax_from_cheapest:
  assumes "m < length w" "length (fst t) = length w + 1" "\<forall>j\<le>length w. cheapest (price perChar pat w) m j (fst t ! j)" "fst t ! m \<noteq> None"
  shows "length (fst (relax_from perChar pat w m t)) = length w + 1
    \<and> (\<forall>j\<le>length w. cheapest (price perChar pat w) (Suc m) j (fst (relax_from perChar pat w m t) ! j)) \<and> fst (relax_from perChar pat w m t) ! Suc m \<noteq> None"
proof -
  obtain a where a: "fst t ! m = Some a" using assms(4) by blast
  let ?seg = "price perChar pat w" and ?es = "edges perChar pat w m"
  note fr = fold_relax [OF a _ edges_props(2,1) [OF assms(1), where perChar = perChar and pat = pat]]
  have t: "relax_from perChar pat w m t = fold (relax m) ?es t" by (simp add: relax_from_def a)
  have len: "length (fst (fold (relax m) ?es t)) = length w + 1" using fr [of 0] assms(1,2) by simp
  have nth: "fst (fold (relax m) ?es t) ! j = (case ?seg m j of None \<Rightarrow> fst t ! j | Some b \<Rightarrow> improved a (fst t ! j) b)" if "j \<le> length w" for j
    using fr [of j] that assms(1,2) unfolding edges_props(3) [OF assms(1), symmetric] by (cases "map_of ?es j") auto
  have mm: "cheapest ?seg m m (Some a)" using assms(1,3) a by (metis less_imp_le)
  have ch: "cheapest ?seg (Suc m) j (fst (fold (relax m) ?es t) ! j)" if "j \<le> length w" for j
    using cheapest_Suc [of ?seg m a j "fst t ! j"] price_forward [of perChar pat w] mm assms(3) nth [OF that] that
    by (cases "?seg m j") (simp_all add: improved_def)
  have "?seg m (Suc m) = Some perChar" using assms(1) by (simp add: price_def)
  then have "fst (fold (relax m) ?es t) ! Suc m \<noteq> None" using nth [of "Suc m"] assms(1) by (auto simp: improved_def split: option.splits)
  then show ?thesis unfolding t using len ch by blast
qed

lemma cover_table_cheapest:
  fixes perChar pat w
  assumes "m \<le> length w"
  defines "t \<equiv> fold (relax_from perChar pat w) [0..<m] (Some 0 # replicate (length w) None, replicate (length w + 1) 0, replicate (length w + 1) '''')"
  shows "length (fst t) = length w + 1 \<and> (\<forall>j\<le>length w. cheapest (price perChar pat w) m j (fst t ! j)) \<and> fst t ! m \<noteq> None"
  using assms(1) unfolding t_def
proof (induction m)
  case 0
  have "cover seg 0 j c \<longleftrightarrow> j = 0 \<and> c = 0" for seg j c
    by (auto elim: cover.cases intro: cover.start)
  then show ?case by (auto simp: cheapest_def nth_Cons split: nat.split)
next
  case (Suc m)
  then show ?case using relax_from_cheapest [of m w] by simp
qed

text \<open>The reading of a secret: the prices of its segments, with the estimate itself for the block of a repetition.\<close>

definition reading :: "strength_env \<Rightarrow> string list \<Rightarrow> rune list \<Rightarrow> real \<Rightarrow> bool" where
  "reading E ctx w c \<longleftrightarrow> cover (price (log 2 (poolSize w)) (matchPattern E ctx (\<lambda>b. fst (estimate E ctx b))) w) (length w) (length w) c"

lemma repeatBits_cong:
  assumes "\<And>b. length b < length v \<Longrightarrow> f b = g b"
  shows "repeatBits E f v = repeatBits E g v"
proof (cases "find (repeats E v) [1..<length v div 2 + 1]")
  case (Some sz)
  then have "1 \<le> sz" "sz < length v div 2 + 1" using find_Some_in by fastforce+
  then have "length (take sz v) < length v" by simp
  then show ?thesis using Some assms by (simp add: repeatBits_def)
qed (simp add: repeatBits_def)

lemma matchPattern_guard:
  assumes "length v \<le> length w"
  shows "matchPattern E ctx (\<lambda>b. if length b < length w then f b else 0) v = matchPattern E ctx f v"
  unfolding matchPattern_def using repeatBits_cong [of v "\<lambda>b. if length b < length w then f b else 0" f] assms by simp

lemma price_cong: "(\<And>i j. pat (drop i (take j w)) = pat' (drop i (take j w))) \<Longrightarrow> price perChar pat w = price perChar pat' w"
  by (auto simp: price_def fun_eq_iff)

text \<open>Only runes of the secret decide which character classes a price is computed for, and a secret of no runes costs nothing.\<close>

lemma estimate_cheapest:
  shows "reading E ctx w (fst (estimate E ctx w)) \<and> (\<forall>c. reading E ctx w c \<longrightarrow> fst (estimate E ctx w) \<le> c)"
proof (cases "w = []")
  case True
  have "cover seg 0 0 c \<longleftrightarrow> c = 0" for seg c by (auto elim: cover.cases intro: cover.start)
  then show ?thesis using True by (simp add: reading_def estimate.simps)
next
  case False
  let ?pc = "log 2 (poolSize w)" and ?pat = "matchPattern E ctx (\<lambda>b. if length b < length w then fst (estimate E ctx b) else 0)"
  let ?seg = "price ?pc ?pat w"
  have seg: "?seg = price ?pc (matchPattern E ctx (\<lambda>b. fst (estimate E ctx b))) w"
    by (rule price_cong, rule matchPattern_guard) simp
  from cover_table_cheapest [of "length w" w ?pc ?pat]
  have "cheapest ?seg (length w) (length w) (fst (cover_table ?pc ?pat w) ! length w)" "fst (cover_table ?pc ?pat w) ! length w \<noteq> None"
    unfolding cover_table_def by auto
  moreover have "fst (estimate E ctx w) = the (fst (cover_table ?pc ?pat w) ! length w)" using False by (subst estimate.simps) (simp add: Let_def)
  ultimately show ?thesis unfolding reading_def seg [symmetric] by (auto simp: cheapest_def)
qed

section \<open>A secret with no pattern\<close>

text \<open>Runes of the Greek block, distinct up to case, match nothing; the whole secret is brute force.\<close>

definition greek :: "rune \<Rightarrow> bool" where
  "greek r \<longleftrightarrow> 0x370 \<le> r \<and> r < 0x400"

lemma runes_of_greek: "list_all greek w \<Longrightarrow> runes (of_runes w) = w"
proof (induction w)
  case (Cons r w)
  have q: "r div 64 = 13 \<or> r div 64 = 14 \<or> r div 64 = 15" and r: "0x80 \<le> r" "r < 0x800" using Cons.prems by (auto simp: greek_def)
  obtain x y where x: "x = 0xC0 + r div 64" and y: "y = 0x80 + r mod 64" by blast
  have "x mod 32 * 64 = r div 64 * 64" using q x by (elim disjE) simp_all
  moreover have m: "r mod 64 < 64" by simp
  then have "y < 256" "0x80 \<le> y" "y \<le> 0xBF" unfolding y by linarith+
  moreover have "y mod 64 = r mod 64" unfolding y using mod_mult_self2 [of "r mod 64" 64 2] by (simp add: add.commute)
  ultimately have d: "x mod 32 * 64 + y mod 64 = r" "y < 256" "0x80 \<le> y" "y \<le> 0xBF" by (simp_all add: div_mult_mod_eq)
  have bx: "0xC2 \<le> x" "x \<le> 0xDF" using q x by auto
  have e: "encode_rune r = [to_byte x, to_byte y]" using r x y by (simp add: encode_rune_def)
  have "byte (to_byte x) = x" "byte (to_byte y) = y" using bx d by simp_all
  then have "decode_rune (encode_rune r @ s) = (r, 2)" for s
    unfolding e using d bx by (simp add: is_cont_def Let_def)
  moreover have "length (encode_rune r) = 2" by (simp add: e)
  ultimately show ?case using Cons by (subst runes.simps) (auto simp: of_runes_def)
qed (simp add: of_runes_def)

lemma greek_head:
  assumes "list_all greek w" "w \<noteq> []"
  shows "\<exists>c\<in>set (of_runes w). 0xCD \<le> byte c"
proof -
  obtain r v where w: "w = r # v" using assms(2) by (cases w) auto
  have "byte (to_byte (0xC0 + r div 64)) = 0xC0 + r div 64" "0xCD \<le> 0xC0 + r div 64" using assms(1) w by (auto simp: greek_def)
  then have "0xCD \<le> byte (to_byte (0xC0 + r div 64))" by linarith
  then show ?thesis using assms(1) w by (auto simp: of_runes_def encode_rune_def greek_def)
qed

lemma keyboardRows_below: "list_all (list_all (\<lambda>c. byte c < 0xCD)) keyboardRows"
  by code_simp

lemma list_all_in: "list_all P xs \<Longrightarrow> x \<in> set xs \<Longrightarrow> P x"
  by (simp add: list_all_iff)

lemma keyboard_greek:
  assumes "list_all greek w" "w \<noteq> []" "list_all greek (map (lower_rune (sn_U E)) w)"
  shows "keyboardBits E w = None"
proof -
  let ?v = "map (lower_rune (sn_U E)) w"
  have lw: "ToLower (sn_U E) (of_runes w) = of_runes ?v" by (simp add: ToLower_def runes_of_greek assms(1))
  have "\<not> sublist (of_runes u) row" if "list_all greek u" "u \<noteq> []" "row \<in> set keyboardRows" for u row
    using greek_head [OF that(1,2)] list_all_in [OF keyboardRows_below that(3)] set_mono_sublist by (fastforce simp: list_all_iff)
  moreover have "list_all greek (rev ?v)" "rev ?v \<noteq> []" "?v \<noteq> []" using assms by (auto simp: list_all_iff)
  ultimately have "\<not> (\<exists>row\<in>set keyboardRows. sublist (of_runes ?v) row \<or> sublist (of_runes (rev ?v)) row)"
    using assms(3) by blast
  then show ?thesis unfolding keyboardBits_def lw runes_of_greek [OF assms(3)] list_ex_iff Let_def by simp
qed

lemma repeats_distinct:
  assumes "distinct (map (lower_rune (sn_U E)) w)" "1 \<le> sz" "sz < length w"
  shows "\<not> repeats E w sz"
proof
  assume "repeats E w sz"
  then have "map (lower_rune (sn_U E)) w ! sz = map (lower_rune (sn_U E)) w ! 0" using assms(3) by (auto simp: repeats_def list_all_iff)
  then show False using assms nth_eq_iff_index_eq [OF assms(1), of sz 0] by (cases "w = []") simp_all
qed

lemma find_None: "(\<And>x. x \<in> set xs \<Longrightarrow> \<not> P x) \<Longrightarrow> find P xs = None"
  by (induction xs) auto

lemma take_opt_None [simp]: "take_opt None out = out"
  by (simp add: take_opt_def)

lemma matchWord_greek:
  assumes "list_all greek w" "w \<noteq> []" "list_all greek (map (lower_rune (sn_U E)) w)" "list_all ascii ctx" "\<And>v. \<not> sn_common E v" "\<And>v. \<not> sn_dict E v"
  shows "matchWord E ctx w = None"
proof -
  have "leet_rune E one r = (lower_rune (sn_U E) r, 0)" if "r \<in> set w" for one r
    using assms(3) that by (auto simp: leet_rune_def leetMap_def foldRune_def greek_def list_all_iff Let_def)
  then have m: "map (\<lambda>x. fst (leet_rune E one x)) v = map (lower_rune (sn_U E)) v" if "set v = set w" for one v using that by simp
  have word: "va_word v \<in> {of_runes (map (lower_rune (sn_U E)) w), of_runes (map (lower_rune (sn_U E)) (rev w))}" if "v \<in> set (leetVariants E w)" for v
    using that m by (auto simp: leetVariants_def Let_def comp_def)
  have "va_word v \<notin> set ctx" if "v \<in> set (leetVariants E w)" for v
  proof -
    have "\<exists>c\<in>set (va_word v). 0xCD \<le> byte c"
      using word [OF that] greek_head [of "map (lower_rune (sn_U E)) w"] greek_head [of "map (lower_rune (sn_U E)) (rev w)"] assms(2,3)
      by (auto simp: list_all_iff)
    then show ?thesis using assms(4) by (fastforce simp: list_all_iff ascii_def)
  qed
  then have "variant_segment E ctx x v = None" if "v \<in> set (leetVariants E w)" for v x
    using that assms(5,6) by (simp add: variant_segment_def Let_def)
  then have "fold (\<lambda>v. take_opt (variant_segment E ctx x v)) vs None = None" if "set vs \<subseteq> set (leetVariants E w)" for vs x
    using that by (induction vs) auto
  then show ?thesis by (simp add: matchWord_def)
qed

lemma matchPattern_greek:
  assumes "list_all greek w" "3 \<le> length w" "list_all greek (map (lower_rune (sn_U E)) w)" "distinct (map (lower_rune (sn_U E)) w)"
    "list_all ascii ctx" "\<And>v. \<not> sn_common E v" "\<And>v. \<not> sn_dict E v"
  shows "matchPattern E ctx est w = None"
proof -
  have ne: "w \<noteq> []" and 0: "greek (w ! 0)" using assms(1,2) by (cases w; simp)+
  have "\<not> isYear w" using 0 ne assms(1) by (auto simp: isYear_def greek_def list_all_length)
  moreover have "sequenceBits w = None" using 0 by (auto simp: sequenceBits_def greek_def classOf_def Let_def)
  moreover have "repeatBits E est w = None" 
    unfolding repeatBits_def by (subst find_None) (use repeats_distinct [OF assms(4)] assms(2) in auto)
  ultimately show ?thesis using keyboard_greek matchWord_greek assms ne by (simp add: matchPattern_def)
qed

lemma cover_plain:
  assumes "cover (price perChar pat w) m j c" "\<And>i j. i + 3 \<le> j \<Longrightarrow> j \<le> length w \<Longrightarrow> pat (drop i (take j w)) = None"
  shows "c = real j * perChar"
  using assms(1) by (induction rule: cover.induct) (auto simp: price_def assms(2) algebra_simps split: if_splits)

lemma estimate_greek:
  assumes "list_all greek w" "list_all greek (map (lower_rune (sn_U E)) w)" "distinct (map (lower_rune (sn_U E)) w)"
    "list_all ascii ctx" "\<And>v. \<not> sn_common E v" "\<And>v. \<not> sn_dict E v"
  shows "fst (estimate E ctx w) = real (length w) * log 2 (poolSize w)"
proof -
  have "matchPattern E ctx est (drop i (take j w)) = None" if "i + 3 \<le> j" "j \<le> length w" for est i j
  proof (rule matchPattern_greek)
    have sub: "set (drop i (take j w)) \<subseteq> set w" by (meson set_drop_subset set_take_subset subset_trans)
    then show "list_all greek (drop i (take j w))" "list_all greek (map (lower_rune (sn_U E)) (drop i (take j w)))"
      using assms(1,2) by (auto simp: list_all_iff)
    show "distinct (map (lower_rune (sn_U E)) (drop i (take j w)))"
      using assms(3) unfolding drop_map [symmetric] take_map [symmetric] by (intro distinct_drop distinct_take)
  qed (use that assms(4-6) in auto)
  then show ?thesis using conjunct1 [OF estimate_cheapest [of E ctx w], unfolded reading_def, THEN cover_plain] by blast
qed

definition greek_strength :: strength_env where
  "greek_strength = \<lparr>sn_U = ascii_tables\<lparr>u_lower := \<lambda>r. if 0x391 \<le> r \<and> r \<le> 0x3A9 then r + 32 else r\<rparr>,
     sn_digit = (\<lambda>r. 48 \<le> r \<and> r \<le> 57), sn_common = (\<lambda>_. False), sn_dict = (\<lambda>_. False)\<rparr>"

definition greek_runes :: "rune list" where
  "greek_runes = [0x391, 0x3B2, 0x393, 0x3B4, 0x395, 0x3B6, 0x397, 0x37E, 0x3B8, 0x399, 0x3BA, 0x39B, 0x3BC, 0x39D, 0x3BE, 0x39F]"

definition greek_adm_env :: adm_env where
  "greek_adm_env = toy_adm_env\<lparr>pw_upper := (\<lambda>r. 0x391 \<le> r \<and> r \<le> 0x3A9), pw_lower := (\<lambda>r. 0x3B1 \<le> r \<and> r \<le> 0x3C9), pw_symbol := (\<lambda>r. r = 0x37E)\<rparr>"

lemma foldWord_ascii: "ascii s \<Longrightarrow> foldWord s = s"
  by (induction s) (simp_all add: foldWord_def of_runes_def runes_ascii_Cons encode_rune_def foldRune_def)

lemma context_add_ascii: "ascii t \<Longrightarrow> list_all ascii (context_add E t)"
proof -
  assume a: "ascii t"
  have "ascii (ToLower U s)" if "ascii s" for U s
    using that by (simp add: ToLower_ascii ascii_map_alower)
  then show ?thesis using ascii_TrimSpace [OF a] by (simp add: context_add_def Let_def foldWord_ascii)
qed


lemma greek_context: "list_all ascii (contextWords E [])"
proof -
  have "list_all ascii productWords" by (simp add: productWords_def)
  then show ?thesis using context_add_ascii [of _ E] by (fastforce simp: contextWords_def list_all_iff)
qed

lemma log_100: "25 / 4 \<le> log 2 (100::real)"
proof -
  have "25 = log 2 (2 ^ 25 :: real)" by (subst log_nat_power) simp_all
  also have "\<dots> \<le> log 2 (100 ^ 4)" by (subst log_le_cancel_iff) simp_all
  also have "\<dots> = 4 * log 2 100" by (subst log_nat_power) simp_all
  finally show ?thesis by simp
qed

lemma greek_estimate: "fst (Estimate greek_strength (of_runes greek_runes) []) = 16 * log 2 100"
proof -
  have g: "list_all greek greek_runes" by (simp add: greek_runes_def greek_def)
  have "poolSize greek_runes = 100" by (simp add: poolSize_def greek_runes_def Let_def)
  moreover have "fst (estimate greek_strength (contextWords greek_strength []) greek_runes) = real (length greek_runes) * log 2 (poolSize greek_runes)"
    by (rule estimate_greek) (simp_all add: g greek_context, simp_all add: greek_strength_def greek_runes_def lower_rune_def greek_def)
  ultimately show ?thesis unfolding Estimate_def runes_of_greek [OF g] by (simp add: greek_runes_def)
qed

lemma greek_accepted:
  "ValidateAdminPassword (greek_adm_env\<lparr>pw_estimate := Estimate greek_strength, pw_common := IsCommon greek_strength\<rparr>) (of_runes greek_runes) [] = None"
proof -
  have g: "runes (of_runes greek_runes) = greek_runes" by (rule runes_of_greek) (simp add: greek_runes_def greek_def)
  have "length (of_runes greek_runes) = 32" by (simp add: greek_runes_def of_runes_def encode_rune_def)
  then have "truncateUTF8 (of_runes greek_runes) bcryptMaxBytes = of_runes greek_runes" by (simp add: truncateUTF8_def bcryptMaxBytes_def)
  moreover have "countClasses (greek_adm_env\<lparr>pw_estimate := Estimate greek_strength, pw_common := IsCommon greek_strength\<rparr>) (of_runes greek_runes) = 3"
    unfolding countClasses_def g by (simp add: greek_runes_def class_of_def greek_adm_env_def toy_adm_env_def Let_def)
  moreover have "\<not> IsCommon greek_strength s" for s by (simp add: IsCommon_def greek_strength_def)
  moreover have "RuneCountInString (of_runes greek_runes) = 16" unfolding RuneCountInString_def g by (simp add: greek_runes_def)
  moreover have "100 \<le> fst (Estimate greek_strength (of_runes greek_runes) [])" using log_100 greek_estimate by simp
  ultimately show ?thesis
    by (simp add: ValidateAdminPassword_def case_prod_beta AdminPasswordMinLength_def AdminPasswordMinClasses_def AdminPasswordMinEntropyBits_def)
qed

lemma context_add_plain:
  assumes "s \<noteq> []" "ascii s" "no_upper s" "plain_char (hd s)" "plain_char (last s)"
  shows "context_add E s = (if 3 \<le> length s then [s] else [])"
  using assms
  by (simp add: context_add_def foldWord_ascii TrimSpace_plain ToLower_ascii map_alower_id RuneCountInString_def runes_ascii minContextLen_def)

text \<open>The local part of an address is split at its dots and is not a context word itself.\<close>

theorem context_words_of_address:
  "contextWords (greek_strength\<lparr>sn_U := ascii_tables\<lparr>u_isLetter := \<lambda>r. 97 \<le> r \<and> r \<le> 122\<rparr>\<rparr>) [''rssi.paris@acme-corp.fr'']
   = [''sealkeeper'', ''seal'', ''keeper'', ''rssi.paris@acme-corp.fr'', ''rssi'', ''rssi'', ''paris'', ''paris'', ''acme-corp'', ''acme'', ''corp'']"
  by (simp add: contextWords_def productWords_def greek_strength_def ascii_tables_def context_add_plain no_upper_def plain_char_def IsSpace_def runes_ascii of_runes_def encode_rune_def) code_simp

section \<open>Properties\<close>

text \<open>
  C26. The estimate is the cheapest reading. Over all ways to cut a secret into single characters, priced by its character pool, and pieces that
  match a pattern, priced as that pattern, the table computes the least total: some reading costs exactly the estimate and none costs less.
\<close>

theorem estimate_is_cheapest_reading:
  "reading E (contextWords E inputs) (runes s) (fst (Estimate E s inputs))
   \<and> (\<forall>c. reading E (contextWords E inputs) (runes s) c \<longrightarrow> fst (Estimate E s inputs) \<le> c)"
  unfolding Estimate_def by (rule estimate_cheapest)

theorem estimate_is_cheapest_reading_witness:
  "reading greek_strength (contextWords greek_strength []) (runes (of_runes greek_runes)) (16 * log 2 100)
   \<and> \<not> reading greek_strength (contextWords greek_strength []) (runes (of_runes greek_runes)) 99"
  using estimate_is_cheapest_reading [of greek_strength "[]" "of_runes greek_runes"] log_100 unfolding greek_estimate by fastforce

text \<open>
  C25. An accepted administrator password resists every known reading: with the estimator of \<open>internal/strength\<close>, whatever way the part of the password
  that bcrypt reads is cut into characters and known patterns, guessing it costs at least 100 bits.
\<close>

theorem accepted_password_resists_patterns:
  assumes "ValidateAdminPassword (P\<lparr>pw_estimate := Estimate E, pw_common := IsCommon E\<rparr>) s inputs = None"
    "reading E (contextWords E inputs) (runes (truncateUTF8 s bcryptMaxBytes)) c"
  shows "100 \<le> c \<and> \<not> IsCommon E s"
proof -
  let ?e = "Estimate E (truncateUTF8 s bcryptMaxBytes) inputs"
  have "100 \<le> fst ?e" "\<not> IsCommon E s"
    using assms(1) by (auto simp: ValidateAdminPassword_def AdminPasswordMinEntropyBits_def case_prod_beta split: if_splits)
  moreover have "fst ?e \<le> c" using estimate_cheapest assms(2) unfolding Estimate_def by blast
  ultimately show ?thesis by simp
qed

theorem accepted_password_resists_patterns_witness:
  "100 \<le> 16 * log 2 (100::real) \<and> \<not> IsCommon greek_strength (of_runes greek_runes)"
proof (rule accepted_password_resists_patterns [OF greek_accepted])
  have "length (of_runes greek_runes) = 32" by (simp add: greek_runes_def of_runes_def encode_rune_def)
  then have "truncateUTF8 (of_runes greek_runes) bcryptMaxBytes = of_runes greek_runes" by (simp add: truncateUTF8_def bcryptMaxBytes_def)
  then show "reading greek_strength (contextWords greek_strength []) (runes (truncateUTF8 (of_runes greek_runes) bcryptMaxBytes)) (16 * log 2 100)"
    using estimate_cheapest [of greek_strength "contextWords greek_strength []"] greek_estimate unfolding Estimate_def by metis
qed

end
