(* ===== verification/Strength_Words.thy ===== *)
theory Strength_Words
  imports Strength
begin

text \<open>
  The word lists of the strength estimate (\<open>internal/strength/words.go\<close>, \<open>language.go\<close>), cut at white space as \<open>wordSet\<close> does, and the
  letter-pair count. \<open>repository_words\<close> is the environment of \<open>Strength\<close> with the lists of the repository.
\<close>

definition commonPasswords :: "string list" where
  "commonPasswords = [
     ''123456'', ''1234567'', ''12345678'', ''123456789'', ''1234567890'', ''12345678910'', ''111111'', ''000000'', ''123123'',
     ''654321'', ''666666'', ''121212'', ''112233'', ''123321'', ''159753'', ''147258'', ''789456'', ''987654321'', ''696969'',
     ''password'', ''passw0rd'', ''password1'', ''password12'', ''password123'', ''motdepasse'', ''mdp'',
     ''qwerty'', ''qwerty123'', ''azerty'', ''azerty123'', ''azertyuiop'', ''qwertyuiop'', ''qwertz'', ''1q2w3e'', ''1q2w3e4r'',
     ''1qaz2wsx'', ''zaq12wsx'', ''1qazxsw2'', ''abc123'', ''abcd1234'', ''aaaaaa'', ''iloveyou'', ''jetaime'',
     ''letmein'', ''welcome'', ''welcome1'', ''bienvenue'', ''changeme'', ''changeit'', ''default'', ''secret'',
     ''admin'', ''admin123'', ''administrator'', ''administrateur'', ''root'', ''toor'', ''master'', ''superuser'',
     ''dragon'', ''monkey'', ''shadow'', ''sunshine'', ''princess'', ''football'', ''baseball'', ''soccer'', ''hockey'',
     ''starwars'', ''pokemon'', ''superman'', ''batman'', ''trustno1'', ''whatever'', ''freedom'', ''killer'',
     ''michael'', ''jordan'', ''jennifer'', ''hunter'', ''ranger'', ''buster'', ''thomas'', ''charlie'', ''andrew'',
     ''soleil'', ''chouchou'', ''doudou'', ''loulou'', ''nicolas'', ''julien'', ''camille'', ''marseille'',
     ''1234qwer'', ''qwer1234'', ''asdf1234'', ''zxcvbnm'', ''asdfghjkl'', ''test'', ''test123'', ''testtest'',
     ''guest'', ''login'', ''access'', ''access14'', ''hello'', ''hello123'', ''love'', ''lovely'', ''flower'']"

definition dictionaryWords :: "string list" where
  "dictionaryWords = [
     ''pass'', ''password'', ''passe'', ''passphrase'', ''motdepasse'', ''mot'', ''word'', ''secret'', ''secrets'', ''secure'',
     ''security'', ''securite'', ''securise'', ''safe'', ''safety'', ''private'', ''prive'', ''key'', ''keys'', ''cle'', ''clef'',
     ''admin'', ''administrator'', ''administrateur'', ''root'', ''user'', ''users'', ''utilisateur'', ''login'', ''logon'',
     ''account'', ''compte'', ''access'', ''acces'', ''welcome'', ''bienvenue'', ''hello'', ''bonjour'', ''salut'', ''coucou'',
     ''master'', ''super'', ''power'', ''strong'', ''robust'', ''robuste'', ''solide'', ''fort'', ''forte'', ''tres'', ''very'',
     ''system'', ''systeme'', ''server'', ''serveur'', ''service'', ''cloud'', ''network'', ''reseau'', ''domain'', ''domaine'',
     ''company'', ''entreprise'', ''societe'', ''office'', ''bureau'', ''team'', ''equipe'', ''project'', ''projet'',
     ''console'', ''portal'', ''portail'', ''manager'', ''gestion'', ''vault'', ''coffre'', ''token'', ''jeton'',
     ''seal'', ''sceau'', ''cachet'', ''keeper'', ''gardien'', ''guard'', ''garde'', ''lock'', ''locked'', ''cadenas'',
     ''change'', ''changeme'', ''update'', ''default'', ''temp'', ''temporary'', ''test'', ''testing'', ''demo'',
     ''spring'', ''summer'', ''autumn'', ''winter'', ''printemps'', ''ete'', ''automne'', ''hiver'',
     ''january'', ''february'', ''march'', ''april'', ''june'', ''july'', ''august'', ''september'', ''october'',
     ''november'', ''december'', ''janvier'', ''fevrier'', ''mars'', ''avril'', ''juin'', ''juillet'', ''aout'',
     ''septembre'', ''octobre'', ''novembre'', ''decembre'', ''monday'', ''tuesday'', ''wednesday'', ''thursday'',
     ''friday'', ''saturday'', ''sunday'', ''lundi'', ''mardi'', ''mercredi'', ''jeudi'', ''vendredi'', ''samedi'',
     ''dimanche'', ''today'', ''tomorrow'', ''yesterday'', ''morning'', ''evening'', ''night'', ''nuit'', ''jour'',
     ''love'', ''amour'', ''heart'', ''coeur'', ''happy'', ''heureux'', ''family'', ''famille'', ''friend'', ''friends'', ''ami'',
     ''amie'', ''amis'', ''maison'', ''house'', ''home'', ''world'', ''monde'', ''life'', ''vie'', ''dream'', ''reve'',
     ''blue'', ''bleu'', ''red'', ''rouge'', ''green'', ''vert'', ''black'', ''noir'', ''white'', ''blanc'', ''yellow'', ''jaune'',
     ''orange'', ''purple'', ''violet'', ''pink'', ''rose'', ''gold'', ''silver'', ''argent'',
     ''dragon'', ''tiger'', ''tigre'', ''lion'', ''eagle'', ''aigle'', ''wolf'', ''loup'', ''bear'', ''ours'', ''horse'', ''cheval'',
     ''cat'', ''chat'', ''dog'', ''chien'', ''chien'', ''monkey'', ''bird'', ''oiseau'', ''fish'', ''poisson'',
     ''football'', ''soccer'', ''tennis'', ''rugby'', ''hockey'', ''basket'', ''baseball'', ''golf'',
     ''paris'', ''france'', ''lyon'', ''marseille'', ''london'', ''londres'', ''europe'', ''america'',
     ''apple'', ''pomme'', ''banana'', ''banane'', ''cherry'', ''cerise'', ''chocolate'', ''chocolat'', ''coffee'', ''cafe'',
     ''music'', ''musique'', ''guitar'', ''guitare'', ''piano'', ''movie'', ''film'',
     ''star'', ''stars'', ''etoile'', ''sun'', ''soleil'', ''moon'', ''lune'', ''sky'', ''ciel'', ''sea'', ''mer'', ''ocean'',
     ''fire'', ''feu'', ''water'', ''eau'', ''earth'', ''terre'', ''wind'', ''vent'', ''ice'', ''glace'', ''snow'', ''neige'', ''storm'',
     ''king'', ''roi'', ''queen'', ''reine'', ''prince'', ''princess'', ''princesse'', ''knight'', ''chevalier'',
     ''magic'', ''magie'', ''angel'', ''ange'', ''devil'', ''diable'', ''ghost'', ''shadow'', ''ombre'',
     ''freedom'', ''liberte'', ''victory'', ''victoire'', ''hunter'', ''killer'', ''ninja'', ''pirate'',
     ''computer'', ''ordinateur'', ''internet'', ''google'', ''microsoft'', ''windows'', ''linux'', ''apple'',
     ''mail'', ''email'', ''courriel'', ''message'', ''letter'', ''lettre'',
     ''alpha'', ''bravo'', ''charlie'', ''delta'', ''echo'', ''foxtrot'', ''golf'', ''hotel'', ''india'', ''juliet'', ''kilo'',
     ''lima'', ''mike'', ''november'', ''oscar'', ''papa'', ''quebec'', ''romeo'', ''sierra'', ''tango'', ''uniform'', ''victor'',
     ''whiskey'', ''xray'', ''yankee'', ''zulu'',
     ''one'', ''two'', ''three'', ''four'', ''five'', ''six'', ''seven'', ''eight'', ''nine'', ''ten'',
     ''un'', ''deux'', ''trois'', ''quatre'', ''cinq'', ''sept'', ''huit'', ''neuf'', ''dix'',
     ''zero'', ''first'', ''premier'', ''last'', ''dernier'', ''new'', ''nouveau'', ''nouvelle'', ''old'', ''vieux'',
     ''big'', ''grand'', ''petit'', ''small'', ''little'']"

definition wordSet :: "string list \<Rightarrow> string \<Rightarrow> bool" where
  "wordSet ws = (\<lambda>w. w \<in> set ws)"

definition repository_words :: "unicode \<Rightarrow> (rune \<Rightarrow> bool) \<Rightarrow> strength_env" where
  "repository_words U digit = \<lparr>sn_U = U, sn_digit = digit, sn_common = wordSet commonPasswords, sn_dict = wordSet dictionaryWords\<rparr>"

definition plausiblePairs :: "string list" where
  "plausiblePairs = [
     ''ab'', ''ac'', ''ad'', ''ag'', ''ai'', ''al'', ''an'', ''ap'', ''ar'', ''as'', ''at'', ''au'', ''av'', ''ba'', ''bi'', ''bl'', ''ca'', ''ce'', ''ch'', ''ci'', ''ck'', ''cl'', ''co'', ''cr'',
     ''ct'', ''cu'', ''da'', ''de'', ''di'', ''dm'', ''do'', ''du'', ''ea'', ''ec'', ''ed'', ''ee'', ''ef'', ''eg'', ''el'', ''em'', ''en'', ''ep'', ''er'', ''es'', ''et'', ''eu'', ''ev'', ''ex'',
     ''fa'', ''ff'', ''fi'', ''fo'', ''ge'', ''gr'', ''gu'', ''ha'', ''he'', ''hi'', ''ia'', ''ib'', ''ic'', ''id'', ''ie'', ''if'', ''ig'', ''il'', ''im'', ''in'', ''io'', ''iq'', ''ir'', ''is'',
     ''it'', ''iv'', ''ke'', ''la'', ''le'', ''li'', ''ll'', ''lo'', ''lu'', ''ma'', ''me'', ''mi'', ''mm'', ''mo'', ''mp'', ''na'', ''nc'', ''nd'', ''ne'', ''nf'', ''ng'', ''ni'', ''nn'', ''no'',
     ''ns'', ''nt'', ''oc'', ''od'', ''og'', ''oi'', ''ol'', ''om'', ''on'', ''op'', ''or'', ''os'', ''ot'', ''ou'', ''pa'', ''pe'', ''pl'', ''po'', ''pp'', ''pr'', ''pt'', ''pu'', ''qu'', ''ra'',
     ''rd'', ''re'', ''ri'', ''rm'', ''rn'', ''ro'', ''rs'', ''rt'', ''sa'', ''se'', ''si'', ''so'', ''sp'', ''ss'', ''st'', ''su'', ''ta'', ''te'', ''th'', ''ti'', ''to'', ''tr'', ''ts'', ''tt'',
     ''tu'', ''ub'', ''uc'', ''ud'', ''ue'', ''ui'', ''ul'', ''um'', ''un'', ''up'', ''ur'', ''us'', ''ut'', ''va'', ''ve'', ''vi'']"

definition PlausiblePairShare :: real where
  "PlausiblePairShare = real (card (set plausiblePairs)) / (26 * 26)"

text \<open>The loop of \<open>LetterPairs\<close>: \<open>prev\<close> is 0 outside a run of letters.\<close>

fun pair_loop :: "unicode \<Rightarrow> rune \<Rightarrow> rune list \<Rightarrow> nat \<times> nat \<Rightarrow> nat \<times> nat" where
  "pair_loop U prev [] acc = acc"
| "pair_loop U prev (r # rs) (pairs, plausible) =
     (let r = foldRune (lower_rune U r)
      in if r < 97 \<or> 122 < r then pair_loop U 0 rs (pairs, plausible)
         else if prev \<noteq> 0
           then pair_loop U r rs (pairs + 1, if wordSet plausiblePairs (of_runes [prev, r]) then plausible + 1 else plausible)
           else pair_loop U r rs (pairs, plausible))"

definition LetterPairs :: "unicode \<Rightarrow> string \<Rightarrow> nat \<times> nat" where
  "LetterPairs U s = pair_loop U 0 (runes s) (0, 0)"

end
