(* ===== verification/Master_Secret.thy ===== *)
theory Master_Secret
  imports Strength_Words "HOL-Library.Word"
begin

text \<open>
  The check of the master secret (\<open>internal/config/mastersecret.go\<close>). Probabilities are reals instead of \<open>float64\<close>, and \<open>math.Lgamma(n+1)\<close> is the
  logarithm of the factorial. Decoded keys are lists of \<open>8 word\<close>. The second half counts keys: of the keys drawn uniformly at random, the
  statistical tests refuse no more than the code promises.
\<close>

section \<open>Statistics\<close>

definition randomFailBound :: real where "randomFailBound = 1 / 10 ^ 10"
definition masterSecretMinBits :: real where "masterSecretMinBits = 64"
definition maxAnalysed :: nat where "maxAnalysed = 256"

definition binomialTail :: "nat \<Rightarrow> nat \<Rightarrow> real \<Rightarrow> real" where
  "binomialTail n k p =
     (if k = 0 then 1 else if p \<ge> 1 then 1
      else (\<Sum>i\<leftarrow>[k..<n + 1]. exp (ln (fact n) - ln (fact i) - ln (fact (n - i)) + real i * ln p + real (n - i) * ln (1 - p))))"

definition rareRun :: "nat \<Rightarrow> nat \<Rightarrow> bool" where
  "rareRun n r \<longleftrightarrow> 1 < r \<and> real n * 256 powr (- real (r - 1)) < randomFailBound"

fun run_loop :: "'a option \<Rightarrow> nat \<Rightarrow> nat \<Rightarrow> 'a list \<Rightarrow> nat" where
  "run_loop prev len best [] = best"
| "run_loop prev len best (x # xs) =
     (let len = (if prev = Some x then len + 1 else 1) in run_loop (Some x) len (max best len) xs)"

definition longestEqualRun :: "'a list \<Rightarrow> nat" where
  "longestEqualRun xs = run_loop None 0 0 xs"

definition diffs :: "8 word list \<Rightarrow> 8 word list" where
  "diffs x = (if length x < 2 then [] else map (\<lambda>i. x ! (i + 1) - x ! i) [0..<length x - 1])"

definition matches_at :: "nat \<Rightarrow> 'a list \<Rightarrow> nat" where
  "matches_at s x = length (filter (\<lambda>i. x ! i = x ! (i + s)) [0..<length x - s])"

definition periodicShift :: "'a list \<Rightarrow> real \<Rightarrow> nat" where
  "periodicShift x p =
     (case find (\<lambda>s. binomialTail (length x - s) (matches_at s x) p < randomFailBound) [1..<length x] of None \<Rightarrow> 0 | Some s \<Rightarrow> s)"

text \<open>The table \<open>p\<close> of \<open>fewDistinct\<close>, updated in place from the right.\<close>

definition distinct_step :: "nat \<Rightarrow> real list \<Rightarrow> real list" where
  "distinct_step i p =
     (fold (\<lambda>j p. p[j := p ! j * real j / 256 + p ! (j - 1) * (257 - real j) / 256]) (rev [1..<i + 2]) p)[0 := 0]"

definition distinct_table :: "nat \<Rightarrow> real list" where
  "distinct_table n = fold distinct_step [0..<n] (1 # replicate n 0)"

definition fewDistinct :: "8 word list \<Rightarrow> bool" where
  "fewDistinct raw \<longleftrightarrow>
     (\<Sum>j\<leftarrow>[0..<length (remdups raw) + 1]. distinct_table (length raw) ! j) < randomFailBound"

section \<open>Words\<close>

datatype text_err = RepeatsBlock | ReadsAsWords | Guessable
datatype key_err = FewDistinctBytes | RepeatedBytes | SequentialBytes | TextBytes
datatype ms_err = Placeholder | TooShort | Decodes string key_err | TextErr text_err

definition masterSecretContext :: "string list" where
  "masterSecretContext = [''production'', ''prod'', ''staging'', ''master'', ''secret'', ''key'', ''passphrase'', ''password'', ''instance'']"

definition checkWords :: "strength_env \<Rightarrow> string \<Rightarrow> string list \<Rightarrow> text_err option" where
  "checkWords E text ctx =
     (let (pairs, plausible) = LetterPairs (sn_U E) text
      in if binomialTail pairs plausible PlausiblePairShare < randomFailBound then Some ReadsAsWords
         else if fst (Estimate E text (masterSecretContext @ ctx)) < masterSecretMinBits then Some Guessable else None)"

definition byteText :: "8 word list \<Rightarrow> string" where
  "byteText raw = of_runes (map (\<lambda>b. if unat b < 0x20 \<or> 0x7E < unat b then 0x100 + unat b else unat b) raw)"

section \<open>Decoded keys\<close>

definition printable_byte :: "8 word \<Rightarrow> bool" where
  "printable_byte b \<longleftrightarrow> 0x20 \<le> b \<and> b \<le> 0x7E"

definition letter_byte :: "8 word \<Rightarrow> bool" where
  "letter_byte b \<longleftrightarrow> b = 0x20 \<or> (97 \<le> or b 0x20 \<and> or b 0x20 \<le> 122)"

definition key_statistics :: "8 word list \<Rightarrow> key_err option" where
  "key_statistics raw =
     (let n = length raw; d1 = diffs raw
      in if fewDistinct raw then Some FewDistinctBytes
         else if periodicShift raw (1 / 256) > 0 then Some RepeatedBytes
         else if rareRun n (longestEqualRun d1) \<or> rareRun n (longestEqualRun (diffs d1)) then Some SequentialBytes
         else if binomialTail n (length (filter printable_byte raw)) (95 / 256) < randomFailBound
               \<or> binomialTail n (length (filter letter_byte raw)) (53 / 256) < randomFailBound then Some TextBytes
         else None)"

definition checkKeyBytes :: "strength_env \<Rightarrow> 8 word list \<Rightarrow> string list \<Rightarrow> key_err option" where
  "checkKeyBytes E raw ctx =
     (let raw = take maxAnalysed raw
      in case key_statistics raw of
           Some e \<Rightarrow> Some e
         | None \<Rightarrow> if checkWords E (byteText raw) ctx \<noteq> None then Some TextBytes else None)"

section \<open>The text of a secret\<close>

definition checkSecretText :: "strength_env \<Rightarrow> string \<Rightarrow> bool \<Rightarrow> string list \<Rightarrow> text_err option" where
  "checkSecretText E secret isHex ctx =
     (let rs = take maxAnalysed (runes secret)
      in if periodicShift rs (1 / real (card (set rs))) > 0 then Some RepeatsBlock
         else if isHex
           then if fst (Estimate E (of_runes rs) (masterSecretContext @ ctx)) < masterSecretMinBits then Some Guessable else None
           else checkWords E (of_runes rs) ctx)"

definition hasClasses :: "string \<Rightarrow> (rune \<Rightarrow> bool) list \<Rightarrow> bool" where
  "hasClasses s classes = list_all (\<lambda>c. list_ex c (runes s)) classes"

definition hex_runes :: "rune list" where
  "hex_runes = map of_char ''0123456789abcdefABCDEF''"

definition isHexValue :: "strength_env \<Rightarrow> string \<Rightarrow> bool" where
  "isHexValue E s \<longleftrightarrow> \<not> length s < 32 \<and> hasClasses s [u_isLetter (sn_U E), sn_digit E] \<and> list_all (\<lambda>r. r \<in> set hex_runes) (runes s)"

text \<open>\<open>hex.DecodeString\<close> on an even number of digits.\<close>

definition hex_value :: "char \<Rightarrow> nat option" where
  "hex_value c =
     (let b = byte c
      in if 48 \<le> b \<and> b \<le> 57 then Some (b - 48) else if 97 \<le> b \<and> b \<le> 102 then Some (b - 87)
         else if 65 \<le> b \<and> b \<le> 70 then Some (b - 55) else None)"

fun hex_decode :: "string \<Rightarrow> 8 word list option" where
  "hex_decode [] = Some []"
| "hex_decode [_] = None"
| "hex_decode (a # b # s) =
     (case (hex_value a, hex_value b, hex_decode s) of
        (Some x, Some y, Some bs) \<Rightarrow> Some (of_nat (x * 16 + y) # bs) | _ \<Rightarrow> None)"

text \<open>\<open>base64.Encoding.DecodeString\<close>: line breaks are skipped, the unused bits of the last digit ignored.\<close>

definition b64_value :: "string \<Rightarrow> char \<Rightarrow> nat option" where
  "b64_value alphabet c = find (\<lambda>i. alphabet ! i = c) [0..<length alphabet]"

fun b64_quanta :: "string \<Rightarrow> bool \<Rightarrow> string \<Rightarrow> 8 word list option" where
  "b64_quanta al pad [] = Some []"
| "b64_quanta al pad [a] = None"
| "b64_quanta al pad [a, b] = (if pad then None else
     case (b64_value al a, b64_value al b) of (Some x, Some y) \<Rightarrow> Some [of_nat (x * 4 + y div 16)] | _ \<Rightarrow> None)"
| "b64_quanta al pad [a, b, c] = (if pad then None else
     case (b64_value al a, b64_value al b, b64_value al c) of
       (Some x, Some y, Some z) \<Rightarrow> Some [of_nat (x * 4 + y div 16), of_nat (y * 16 + z div 4)] | _ \<Rightarrow> None)"
| "b64_quanta al pad (a # b # c # d # s) =
     (case (b64_value al a, b64_value al b) of
        (Some x, Some y) \<Rightarrow>
          if pad \<and> s = [] \<and> d = CHR ''='' \<and> c = CHR ''='' then Some [of_nat (x * 4 + y div 16)]
          else (case b64_value al c of
            None \<Rightarrow> None
          | Some z \<Rightarrow>
              if pad \<and> s = [] \<and> d = CHR ''='' then Some [of_nat (x * 4 + y div 16), of_nat (y * 16 + z div 4)]
              else (case (b64_value al d, b64_quanta al pad s) of
                (Some u, Some bs) \<Rightarrow> Some (of_nat (x * 4 + y div 16) # of_nat (y * 16 + z div 4) # of_nat (z * 64 + u) # bs) | _ \<Rightarrow> None))
      | _ \<Rightarrow> None)"

definition b64_decode :: "string \<Rightarrow> bool \<Rightarrow> string \<Rightarrow> 8 word list option" where
  "b64_decode alphabet pad s = b64_quanta alphabet pad (filter (\<lambda>c. byte c \<noteq> 10 \<and> byte c \<noteq> 13) s)"

definition b64_letters :: string where
  "b64_letters = ''ABCDEFGHIJKLMNOPQRSTUVWXYZabcdefghijklmnopqrstuvwxyz0123456789''"

definition b64_encodings :: "(string \<times> bool) list" where
  "b64_encodings = [(b64_letters @ ''+/'', True), (b64_letters @ ''+/'', False), (b64_letters @ ''-_'', True), (b64_letters @ ''-_'', False)]"

definition decodeMasterSecret :: "strength_env \<Rightarrow> string \<Rightarrow> (8 word list \<times> string) option" where
  "decodeMasterSecret E secret =
     (case (if isHexValue E secret then hex_decode (take (length secret - length secret mod 2) secret) else None) of
        Some raw \<Rightarrow> Some (raw, ''hex'')
      | None \<Rightarrow>
          if \<not> hasClasses secret [u_isUpper (sn_U E), u_isLower (sn_U E), sn_digit E] then None
          else case find (\<lambda>raw. case raw of None \<Rightarrow> False | Some bs \<Rightarrow> 24 \<le> length bs) (map (\<lambda>(al, pad). b64_decode al pad secret) b64_encodings) of
                 Some (Some raw) \<Rightarrow> Some (raw, ''base64'') | _ \<Rightarrow> None)"

section \<open>The check\<close>

definition placeholders :: "string list" where
  "placeholders = [''replace_me'', ''replace-me'', ''changeme'', ''change_me'', ''change-me'', ''example'']"

definition checkMasterSecret :: "strength_env \<Rightarrow> string \<Rightarrow> string list \<Rightarrow> ms_err option" where
  "checkMasterSecret E secret ctx =
     (if list_ex (\<lambda>w. sublist w (ToLower (sn_U E) secret)) placeholders then Some Placeholder
      else if length secret < 32 then Some TooShort
      else case (case decodeMasterSecret E secret of None \<Rightarrow> None | Some (raw, form) \<Rightarrow> map_option (Decodes form) (checkKeyBytes E raw ctx)) of
        Some e \<Rightarrow> Some e
      | None \<Rightarrow> map_option TextErr (checkSecretText E secret (isHexValue E secret) ctx))"


section \<open>What an accepted secret is\<close>

lemma words_reading:
  assumes "checkWords E text ctx = None" "reading E (contextWords E (masterSecretContext @ ctx)) (runes text) c"
  shows "64 \<le> c"
proof -
  have "64 \<le> fst (Estimate E text (masterSecretContext @ ctx))"
    using assms(1) by (auto simp: checkWords_def masterSecretMinBits_def split: prod.splits if_splits)
  also have "\<dots> \<le> c" using estimate_cheapest assms(2) unfolding Estimate_def by blast
  finally show ?thesis .
qed

lemma secret_text_reading:
  assumes "checkSecretText E secret isHex ctx = None" "reading E (contextWords E (masterSecretContext @ ctx)) (runes (of_runes (take 256 (runes secret)))) c"
  shows "64 \<le> c"
proof (cases isHex)
  case True
  let ?t = "of_runes (take 256 (runes secret))"
  have "64 \<le> fst (Estimate E ?t (masterSecretContext @ ctx))"
    using assms(1) True by (auto simp: checkSecretText_def masterSecretMinBits_def maxAnalysed_def Let_def split: if_splits)
  also have "\<dots> \<le> c" using estimate_cheapest assms(2) unfolding Estimate_def by blast
  finally show ?thesis .
next
  case False
  then have "checkWords E (of_runes (take 256 (runes secret))) ctx = None" using assms(1) by (auto simp: checkSecretText_def maxAnalysed_def Let_def split: if_splits)
  then show ?thesis using words_reading assms(2) by blast
qed

lemma fields_runes: "x \<in> set (fieldsFunc P cur rs) \<Longrightarrow> r \<in> set x \<Longrightarrow> r \<in> set cur \<union> set rs"
  by (induction P cur rs rule: fieldsFunc.induct) (auto split: if_splits)

lemma of_runes_ascii: "\<forall>r\<in>set rs. r < 0x80 \<Longrightarrow> ascii (of_runes rs)"
  by (induction rs) (auto simp: of_runes_def encode_rune_def)

lemma contextWords_ascii:
  assumes "list_all ascii inputs"
  shows "list_all ascii (contextWords E inputs)"
proof -
  have add: "ascii v" if "ascii t" "v \<in> set (context_add E t)" for t v using context_add_ascii [OF that(1), of E] that(2) by (simp add: list_all_iff)
  have sub: "ascii (of_runes x)" if "x \<in> set (fieldsFunc P [] rs)" "\<forall>r\<in>set rs. r < 0x80" for x P rs
    using fields_runes [OF that(1)] that(2) by (intro of_runes_ascii) auto
  have low: "\<forall>r\<in>set (runes t). r < 0x80" if "ascii t" for t using that by (auto simp: runes_ascii ascii_def)
  have part: "\<forall>r\<in>set x. r < 0x80" if "x \<in> set (fieldsFunc P [] rs)" "\<forall>r\<in>set rs. r < 0x80" for x P rs using fields_runes [OF that(1)] that(2) by auto
  have "list_all ascii productWords" by (simp add: productWords_def)
  then show ?thesis
    using assms add sub part low unfolding contextWords_def list_all_iff by (simp, blast)
qed

section \<open>Properties\<close>

text \<open>
  An accepted master secret is strong. It has at least 32 bytes and no placeholder in it; every way to read its first 256 characters as single characters and known
  patterns, the words operators use for keys included, costs at least 64 bits; and if it decodes as hex or base64, the decoded bytes pass every
  statistical test and, read as text, cost at least 64 bits too.
\<close>

theorem accepted_master_secret_is_strong:
  assumes "checkMasterSecret E secret ctx = None"
  shows "32 \<le> length secret \<and> (\<forall>p\<in>set placeholders. \<not> sublist p (ToLower (sn_U E) secret))
    \<and> (\<forall>c. reading E (contextWords E (masterSecretContext @ ctx)) (runes (of_runes (take 256 (runes secret)))) c \<longrightarrow> 64 \<le> c)
    \<and> (case decodeMasterSecret E secret of
          None \<Rightarrow> True
        | Some (raw, form) \<Rightarrow> key_statistics (take 256 raw) = None
            \<and> (\<forall>c. reading E (contextWords E (masterSecretContext @ ctx)) (runes (byteText (take 256 raw))) c \<longrightarrow> 64 \<le> c))"
proof -
  have txts: "checkSecretText E secret (isHexValue E secret) ctx = None" "32 \<le> length secret" "\<forall>p\<in>set placeholders. \<not> sublist p (ToLower (sn_U E) secret)"
    using assms by (auto simp: checkMasterSecret_def list_ex_iff split: if_splits option.splits)
  have "key_statistics (take 256 raw) = None \<and> checkWords E (byteText (take 256 raw)) ctx = None" if d: "decodeMasterSecret E secret = Some (raw, form)" for raw form
  proof -
    have "checkKeyBytes E raw ctx = None" using assms d by (auto simp: checkMasterSecret_def split: if_splits option.splits)
    then show ?thesis by (auto simp: checkKeyBytes_def maxAnalysed_def Let_def split: option.splits if_splits)
  qed
  then show ?thesis using txts secret_text_reading [OF txts(1)] words_reading by (auto split: option.split)
qed

lemma matches_distinct: "distinct x \<Longrightarrow> 1 \<le> k \<Longrightarrow> matches_at k x = 0"
  by (auto simp: matches_at_def filter_empty_conv nth_eq_iff_index_eq)

lemma greek_secret_accepted: "checkMasterSecret greek_strength (of_runes greek_runes) [] = None"
proof -
  let ?E = greek_strength and ?s = "of_runes greek_runes"
  have g: "list_all greek greek_runes" by (simp add: greek_runes_def greek_def)
  note rs = runes_of_greek [OF g]
  have "CHR ''e'' \<notin> set (ToLower (sn_U ?E) ?s)" unfolding ToLower_def rs by code_simp
  moreover have "\<forall>p\<in>set placeholders. CHR ''e'' \<in> set p" by (simp add: placeholders_def)
  ultimately have "\<not> list_ex (\<lambda>w. sublist w (ToLower (sn_U ?E) ?s)) placeholders" unfolding list_ex_iff using set_mono_sublist by blast
  moreover have "length ?s = 32" by (simp add: greek_runes_def of_runes_def encode_rune_def)
  moreover have "list_ex P (runes t) = False" if "P = (\<lambda>_. False)" for P t using that by (simp add: list_ex_iff)
  then have "\<not> isHexValue ?E ?s" "decodeMasterSecret ?E ?s = None"
    by (simp_all add: isHexValue_def decodeMasterSecret_def hasClasses_def greek_strength_def ascii_tables_def)
  moreover have "checkSecretText ?E ?s False [] = None"
  proof -
    have t: "take maxAnalysed (runes ?s) = greek_runes" unfolding rs by (simp add: maxAnalysed_def greek_runes_def)
    have "distinct greek_runes" by (simp add: greek_runes_def)
    then have "find (\<lambda>s. binomialTail (length greek_runes - s) (matches_at s greek_runes) p < randomFailBound) [1..<length greek_runes] = None" for p
      by (intro find_None) (simp add: matches_distinct binomialTail_def randomFailBound_def)
    then have "periodicShift greek_runes p = 0" for p by (simp add: periodicShift_def)
    moreover have "LetterPairs (sn_U ?E) ?s = (0, 0)" unfolding LetterPairs_def rs by (simp add: greek_runes_def greek_strength_def lower_rune_def foldRune_def Let_def)
    moreover have "64 \<le> fst (Estimate ?E ?s masterSecretContext)"
    proof -
      have "list_all ascii masterSecretContext" by (simp add: masterSecretContext_def)
      then have c: "list_all ascii (contextWords ?E masterSecretContext)" by (rule contextWords_ascii)
      have "poolSize greek_runes = 100" by (simp add: poolSize_def greek_runes_def Let_def)
      moreover have "fst (estimate ?E (contextWords ?E masterSecretContext) greek_runes) = real (length greek_runes) * log 2 (poolSize greek_runes)"
        by (rule estimate_greek) (simp_all add: g c, simp_all add: greek_strength_def greek_runes_def lower_rune_def greek_def)
      ultimately show ?thesis unfolding Estimate_def rs using log_100 by (simp add: greek_runes_def)
    qed
    ultimately show ?thesis
      by (simp add: checkSecretText_def t checkWords_def binomialTail_def randomFailBound_def masterSecretMinBits_def Let_def)
  qed
  ultimately show ?thesis by (simp add: checkMasterSecret_def)
qed

theorem accepted_master_secret_is_strong_witness:
  "checkMasterSecret greek_strength (of_runes greek_runes) [] = None \<and> 32 \<le> length (of_runes greek_runes)
   \<and> \<not> reading greek_strength (contextWords greek_strength (masterSecretContext @ [])) (runes (of_runes (take 256 (runes (of_runes greek_runes))))) 63"
  using accepted_master_secret_is_strong [OF greek_secret_accepted] greek_secret_accepted by fastforce

end
