(* ===== verification/Key_Counts.thy ===== *)
theory Key_Counts
  imports Master_Secret
begin

text \<open>
  How many keys the tests of \<open>Master_Secret\<close> refuse. Every test compares a statistic with a probability; here the probabilities are shown to be the
  shares of all keys of a length that have the statistic. \<open>growing_count\<close> and \<open>binomial_count\<close> are the interfaces of a statistic that grows
  element by element, interpreted on distinct bytes, repeated offsets, printable bytes and letters; runs are counted by a union bound.
\<close>

section \<open>Counting lists\<close>

text \<open>A statistic that grows by at most one with each element appended: given the list so far, the number of elements that make it grow depends
  on its value only. The numbers of lists by value then follow a recursion.\<close>

locale growing_count =
  fixes cnt :: "'a::finite list \<Rightarrow> nat" and hit :: "'a list \<Rightarrow> 'a set" and g :: "nat \<Rightarrow> nat" and s :: nat
  assumes cnt_start: "length x = s \<Longrightarrow> cnt x = 0"
    and cnt_append: "s \<le> length x \<Longrightarrow> cnt (x @ [b]) = cnt x + (if b \<in> hit x then 1 else 0)"
    and card_hit: "s \<le> length x \<Longrightarrow> card (hit x) = g (cnt x)"
begin

lemma cnt_le: "length x = s + m \<Longrightarrow> cnt x \<le> m"
proof (induction m arbitrary: x)
  case (Suc m)
  then obtain y b where x: "x = y @ [b]" "length y = s + m" by (metis add_Suc_right length_Suc_conv_rev)
  then show ?case using cnt_append [of y b] Suc.IH [of y] by simp
qed (simp add: cnt_start)

lemma card_extensions:
  assumes "s \<le> length x"
  shows "card {b. cnt (x @ [b]) = k} = (if cnt x = k then CARD('a) - g k else 0) + (if k > 0 \<and> cnt x = k - 1 then g (k - 1) else 0)"
proof -
  have "card {b. b \<notin> hit x} = CARD('a) - g (cnt x)"
    using card_hit [OF assms] card_Diff_subset [of "hit x" UNIV] by (simp add: set_diff_eq)
  moreover have "{b. cnt (x @ [b]) = k} = (if cnt x = k then {b. b \<notin> hit x} else if cnt x + 1 = k then hit x else {})"
    using cnt_append [OF assms] by auto
  ultimately show ?thesis using card_hit [OF assms] by auto
qed

lemma count_Suc:
  assumes "s \<le> n"
  shows "card {x. length x = Suc n \<and> cnt x = k} =
    (CARD('a) - g k) * card {x. length x = n \<and> cnt x = k} + (if k > 0 then g (k - 1) * card {x. length x = n \<and> cnt x = k - 1} else 0)"
proof -
  let ?X = "{x :: 'a list. length x = n}"
  have fin: "finite ?X" using finite_lists_length_eq [of "UNIV :: 'a set" n] by simp
  have "{x. length x = Suc n \<and> cnt x = k} = (\<lambda>(x, b). x @ [b]) ` (SIGMA x:?X. {b. cnt (x @ [b]) = k})"
    by (auto simp: length_Suc_conv_rev image_iff)
  moreover have "inj_on (\<lambda>(x, b). x @ [b]) (SIGMA x:?X. {b. cnt (x @ [b]) = k})" by (auto simp: inj_on_def)
  ultimately have "card {x. length x = Suc n \<and> cnt x = k} = (\<Sum>x\<in>?X. card {b. cnt (x @ [b]) = k})"
    using fin by (simp add: card_image)
  also have "\<dots> = (\<Sum>x\<in>?X. (if cnt x = k then CARD('a) - g k else 0) + (if k > 0 \<and> cnt x = k - 1 then g (k - 1) else 0))"
    using assms by (intro sum.cong) (simp_all add: card_extensions)
  also have "\<dots> = (\<Sum>x\<in>{x\<in>?X. cnt x = k}. CARD('a) - g k) + (if k > 0 then \<Sum>x\<in>{x\<in>?X. cnt x = k - 1}. g (k - 1) else 0)"
    using fin by (simp add: sum.distrib sum.If_cases Int_def)
  finally show ?thesis by (auto simp: mult.commute)
qed

lemma count_start: "card {x. length x = s \<and> cnt x = k} = (if k = 0 then CARD('a) ^ s else 0)"
proof -
  have "{x. length x = s \<and> cnt x = k} = (if k = 0 then {x :: 'a list. length x = s} else {})" using cnt_start by auto
  then show ?thesis using card_lists_length_eq [of "UNIV :: 'a set" s] by auto
qed

end

text \<open>When a constant number of elements makes it grow, the statistic is binomial.\<close>

locale binomial_count = growing_count cnt hit "\<lambda>_. a" s
  for cnt :: "'a::finite list \<Rightarrow> nat" and hit a s
begin

lemma count_binomial:
  "card {x. length x = s + m \<and> cnt x = k} = CARD('a) ^ s * ((m choose k) * a ^ k * (CARD('a) - a) ^ (m - k))"
proof (induction m arbitrary: k)
  case 0
  then show ?case using count_start by (cases k) auto
next
  case (Suc m)
  have r: "card {x. length x = s + Suc m \<and> cnt x = k} = (CARD('a) - a) * card {x. length x = s + m \<and> cnt x = k}
    + (if k > 0 then a * card {x. length x = s + m \<and> cnt x = k - 1} else 0)" using count_Suc [of "s + m" k] by simp
  show ?case
  proof (cases k)
    case 0
    then show ?thesis using r Suc.IH [of 0] by simp
  next
    case (Suc j)
    obtain q where q: "CARD('a) - a = q" by blast
    have "(m choose Suc j) * (q * q ^ (m - Suc j)) = (m choose Suc j) * q ^ (m - j)"
      by (cases "Suc j \<le> m") (simp_all add: Suc_diff_le [symmetric] binomial_eq_0 flip: power_Suc)
    then have "m < Suc j \<or> q * q ^ (m - Suc j) = q ^ (m - j)" by auto
    then show ?thesis using r Suc.IH [of k] Suc.IH [of j] Suc unfolding q by (simp add: algebra_simps)
  qed
qed

end


lemma binomialTail_sum:
  assumes "0 < p" "p < 1"
  shows "binomialTail n k p = (\<Sum>i\<in>{k..n}. real (n choose i) * p ^ i * (1 - p) ^ (n - i))"
proof (cases "k = 0")
  case True
  have "(\<Sum>i\<le>n. real (n choose i) * p ^ i * (1 - p) ^ (n - i)) = (p + (1 - p)) ^ n" by (rule binomial_ring [symmetric])
  then show ?thesis using True by (simp add: binomialTail_def atMost_atLeast0)
next
  case False
  have "exp (ln (fact n) - ln (fact i) - ln (fact (n - i)) + real i * ln p + real (n - i) * ln (1 - p)) = real (n choose i) * p ^ i * (1 - p) ^ (n - i)"
    if "i \<le> n" for i
  proof -
    have "exp (real j * ln q) = q ^ j" if "0 < q" for q :: real and j using that by (simp add: exp_of_nat_mult)
    moreover have "real (n choose i) = fact n / fact i / fact (n - i)" using binomial_fact [OF that, where 'a = real] by simp
    ultimately show ?thesis using assms by (simp add: exp_add exp_diff)
  qed
  then show ?thesis using False assms by (simp add: binomialTail_def interv_sum_list_conv_sum_set_nat atLeastLessThanSuc_atLeastAtMost del: upt_Suc)
qed

lemma card_bytes: "card {x :: 'a::finite list. length x = n} = CARD('a) ^ n" "finite {x :: 'a list. length x = n}"
  using card_lists_length_eq [of "UNIV :: 'a set" n] finite_lists_length_eq [of "UNIV :: 'a set" n] by simp_all

context binomial_count
begin

lemma tail_binomial:
  assumes "0 < a" "a < CARD('a)"
  shows "real (card {x. length x = s + m \<and> k \<le> cnt x}) = binomialTail m k (real a / CARD('a)) * CARD('a) ^ (s + m)"
proof -
  let ?N = "real CARD('a)" and ?p = "real a / CARD('a)"
  have N: "0 < ?N" using assms by linarith
  have p: "0 < ?p" "?p < 1" using assms by auto
  have mass: "real (card {x. length x = s + m \<and> cnt x = i}) = ?N ^ (s + m) * (real (m choose i) * ?p ^ i * (1 - ?p) ^ (m - i))" if "i \<le> m" for i
  proof -
    have "1 - ?p = real (CARD('a) - a) / ?N" using assms by (simp add: field_simps)
    then have "?N ^ m * (?p ^ i * (1 - ?p) ^ (m - i)) = real a ^ i * real (CARD('a) - a) ^ (m - i)"
      using N that by (simp add: power_divide flip: power_add)
    then show ?thesis unfolding count_binomial by (simp add: power_add algebra_simps)
  qed
  have "{x. length x = s + m \<and> k \<le> cnt x} = (\<Union>i\<in>{k..m}. {x. length x = s + m \<and> cnt x = i})" using cnt_le by auto
  moreover have "card (\<Union>i\<in>{k..m}. {x. length x = s + m \<and> cnt x = i}) = (\<Sum>i\<in>{k..m}. card {x. length x = s + m \<and> cnt x = i})"
    by (rule card_UN_disjoint) (auto intro: finite_subset [OF _ card_bytes(2) [of "s + m"]])
  ultimately have "real (card {x. length x = s + m \<and> k \<le> cnt x}) = (\<Sum>i\<in>{k..m}. real (card {x. length x = s + m \<and> cnt x = i}))" by simp
  also have "\<dots> = (\<Sum>i\<in>{k..m}. ?N ^ (s + m) * (real (m choose i) * ?p ^ i * (1 - ?p) ^ (m - i)))" by (intro sum.cong refl mass) simp
  finally show ?thesis by (simp add: binomialTail_sum [OF p] sum_distrib_left mult.commute)
qed

end

text \<open>Refusing what is rarer than a bound refuses less than the bound, whatever the statistic.\<close>

lemma rare_refusals:
  fixes f :: "'x \<Rightarrow> int" and T :: "int \<Rightarrow> real"
  assumes "finite X" "X \<noteq> {}" "0 < \<beta>" "\<And>x. x \<in> X \<Longrightarrow> real (card {y \<in> X. f x \<le> f y}) \<le> T (f x) * card X"
  shows "real (card {x \<in> X. T (f x) < \<beta>}) < \<beta> * card X"
proof (cases "{x \<in> X. T (f x) < \<beta>} = {}")
  case False
  let ?S = "{x \<in> X. T (f x) < \<beta>}"
  have fin: "finite ?S" using assms(1) by simp
  obtain x where x: "x \<in> ?S" "\<And>y. y \<in> ?S \<Longrightarrow> f x \<le> f y" using ex_min_if_finite [of "f ` ?S"] fin False
    by (metis (no_types, lifting) arg_min_if_finite(1) arg_min_least)
  have "?S \<subseteq> {y \<in> X. f x \<le> f y}" using x(2) by auto
  then have "card ?S \<le> card {y \<in> X. f x \<le> f y}" using assms(1) by (intro card_mono) auto
  then have "real (card ?S) \<le> T (f x) * card X" using assms(4) [of x] x(1) by fastforce
  also have "\<dots> < \<beta> * card X" using x(1) assms(1,2) by (simp add: card_gt_0_iff)
  finally show ?thesis .
next
  case True
  then show ?thesis unfolding True using assms(1-3) by (simp add: card_gt_0_iff)
qed


context binomial_count
begin

lemma tail_rare:
  assumes "0 < a" "a < CARD('a)" "0 < \<beta>"
  shows "real (card {x. length x = s + m \<and> binomialTail m (cnt x) (real a / CARD('a)) < \<beta>}) < \<beta> * CARD('a) ^ (s + m)"
proof -
  let ?X = "{x :: 'a list. length x = s + m}" and ?T = "\<lambda>k. binomialTail m (nat k) (real a / CARD('a))"
  have "real (card {x \<in> ?X. ?T (int (cnt x)) < \<beta>}) < \<beta> * card ?X"
    by (rule rare_refusals [where f = "\<lambda>x. int (cnt x)" and T = ?T])
      (use tail_binomial [OF assms(1,2), of m] assms(3) card_bytes [where 'a = 'a, of "s + m"] in \<open>auto intro: exI [of _ "replicate (s + m) undefined"]\<close>)
  then show ?thesis by (simp add: card_bytes)
qed

end

section \<open>The statistics of a key\<close>

lemma card_bytes_uint: "card {b :: 8 word. Q (uint b)} = length (filter Q [0..255])"
proof -
  have "uint ` {b :: 8 word. Q (uint b)} = set (filter Q [0..255])"
  proof (intro equalityI subsetI)
    fix n assume "n \<in> set (filter Q [0..255])"
    then show "n \<in> uint ` {b :: 8 word. Q (uint b)}" by (intro image_eqI [where x = "word_of_int n"]) (auto simp: uint_word_of_int)
  qed (use unsigned_less [where 'b = 8 and 'a = int] in \<open>auto simp: zle_diff1_eq [symmetric]\<close>)
  moreover have "inj_on uint {b :: 8 word. Q (uint b)}" by (auto intro: inj_onI simp: word_uint_eq_iff)
  ultimately show ?thesis using card_image distinct_card [of "filter Q [0..255]"] by fastforce
qed

lemma filter_count: "binomial_count (\<lambda>x. length (filter P x)) (\<lambda>_. {b. P b}) (card {b. P b}) 0"
  by unfold_locales auto

lemma printable_codes: "length (filter (\<lambda>n. 32 \<le> n \<and> n \<le> (126 :: int)) [0..255]) = 95" by code_simp

lemma letter_codes: "length (filter (\<lambda>n. n = 32 \<or> (97 \<le> or n 32 \<and> or n 32 \<le> (122 :: int))) [0..255]) = 53" by code_simp

lemma card_printable: "card {b. printable_byte b} = 95"
  using card_bytes_uint [of "\<lambda>n. 32 \<le> n \<and> n \<le> 126"] unfolding printable_codes printable_byte_def word_le_def by simp

lemma card_letter: "card {b. letter_byte b} = 53"
  using card_bytes_uint [of "\<lambda>n. n = 32 \<or> (97 \<le> or n 32 \<and> or n 32 \<le> 122)"]
  unfolding letter_codes letter_byte_def word_le_def word_uint_eq_iff unsigned_or_eq by simp

interpretation printable: binomial_count "\<lambda>x. length (filter printable_byte x)" "\<lambda>_. {b. printable_byte b}" 95 0
  using filter_count [of printable_byte] unfolding card_printable .

interpretation letters: binomial_count "\<lambda>x. length (filter letter_byte x)" "\<lambda>_. {b. letter_byte b}" 53 0
  using filter_count [of letter_byte] unfolding card_letter .

interpretation shifted: binomial_count "matches_at (Suc t)" "\<lambda>x. {x ! (length x - Suc t)}" 1 "Suc t" for t
proof
  fix x :: "'a list" and b
  show "length x = Suc t \<Longrightarrow> matches_at (Suc t) x = 0" by (simp add: matches_at_def)
  assume l: "Suc t \<le> length x"
  have "[0..<length (x @ [b]) - Suc t] = [0..<length x - Suc t] @ [length x - Suc t]" using l upt_Suc_append [of 0 "length x - Suc t"] by (simp add: Suc_diff_Suc Suc_le_eq)
  moreover have "filter (\<lambda>i. (x @ [b]) ! i = (x @ [b]) ! (i + Suc t)) [0..<length x - Suc t] = filter (\<lambda>i. x ! i = x ! (i + Suc t)) [0..<length x - Suc t]"
    by (intro filter_cong) (auto simp: nth_append)
  ultimately show "matches_at (Suc t) (x @ [b]) = matches_at (Suc t) x + (if b \<in> {x ! (length x - Suc t)} then 1 else 0)"
    using l by (auto simp: matches_at_def nth_append)
qed simp

interpretation distincts: growing_count "\<lambda>x :: 8 word list. card (set x)" "\<lambda>x. - set x" "\<lambda>k. 256 - k" 0
proof
  fix x :: "8 word list" and b
  show "card (set (x @ [b])) = card (set x) + (if b \<in> - set x then 1 else 0)" by (simp add: insert_absorb card_insert_if)
  show "card (- set x) = 256 - card (set x)" using card_Diff_subset [of "set x" UNIV] by (simp add: Compl_eq_Diff_UNIV card_word)
qed simp


subsection \<open>Distinct bytes\<close>

lemma fold_update_left:
  fixes u :: "nat \<Rightarrow> 'a \<Rightarrow> 'a \<Rightarrow> 'a"
  assumes "m < length p"
  shows "length (fold (\<lambda>j p. p[j := u j (p ! j) (p ! (j - 1))]) (rev [1..<m + 1]) p) = length p
    \<and> (\<forall>k<length p. fold (\<lambda>j p. p[j := u j (p ! j) (p ! (j - 1))]) (rev [1..<m + 1]) p ! k
        = (if 1 \<le> k \<and> k \<le> m then u k (p ! k) (p ! (k - 1)) else p ! k))"
  using assms
proof (induction m arbitrary: p)
  case (Suc m)
  let ?q = "p[Suc m := u (Suc m) (p ! Suc m) (p ! m)]"
  have r: "rev [1..<Suc m + 1] = Suc m # rev [1..<m + 1]" by simp
  have "m < length ?q" using Suc.prems by simp
  note IH = Suc.IH [OF this]
  let ?F = "fold (\<lambda>j p. p[j := u j (p ! j) (p ! (j - 1))]) (rev [1..<m + 1]) ?q"
  have "?F ! k = (if 1 \<le> k \<and> k \<le> Suc m then u k (p ! k) (p ! (k - 1)) else p ! k)" if "k < length p" for k
  proof -
    have "?F ! k = (if 1 \<le> k \<and> k \<le> m then u k (?q ! k) (?q ! (k - 1)) else ?q ! k)" using IH that by (simp del: upt_Suc)
    moreover have "k \<le> m \<Longrightarrow> ?q ! k = p ! k \<and> ?q ! (k - 1) = p ! (k - 1)" by simp
    moreover have "?q ! k = (if k = Suc m then u k (p ! k) (p ! (k - 1)) else p ! k)" using that by (simp add: nth_list_update)
    ultimately show ?thesis by (auto simp: le_Suc_eq)
  qed
  then show ?case unfolding r fold_simps using IH by (simp del: upt_Suc)
qed simp

lemma distinct_step_nth:
  assumes "i + 1 < length p" "k < length p"
  shows "distinct_step i p ! k = (if k = 0 then 0 else if k \<le> i + 1 then p ! k * real k / 256 + p ! (k - 1) * (257 - real k) / 256 else p ! k)"
    "length (distinct_step i p) = length p"
  using fold_update_left [OF assms(1), of "\<lambda>j x y. x * real j / 256 + y * (257 - real j) / 256"] assms
  by (cases "k = 0"; simp add: distinct_step_def nth_list_update del: upt_Suc)+

lemma distinct_table_counts:
  assumes "i \<le> n"
  defines "t \<equiv> fold distinct_step [0..<i] (1 # replicate n 0)"
  shows "length t = n + 1 \<and> (\<forall>k\<le>n. t ! k = real (card {x :: 8 word list. length x = i \<and> card (set x) = k}) / 256 ^ i)"
  using assms(1) unfolding t_def
proof (induction i)
  case 0
  then show ?case using distincts.count_start by (auto simp: nth_Cons split: nat.split)
next
  case (Suc i)
  let ?c = "\<lambda>i k. real (card {x :: 8 word list. length x = i \<and> card (set x) = k})"
  let ?t = "fold distinct_step [0..<i] (1 # replicate n 0)"
  have IH: "length ?t = n + 1" "\<And>k. k \<le> n \<Longrightarrow> ?t ! k = ?c i k / 256 ^ i" using Suc by auto
  have many: "?c j k = 0" if "256 < k \<or> j < k" for j k
  proof -
    have "card (set x) \<le> 256" "card (set x) \<le> length x" for x :: "8 word list"
      using card_mono [of UNIV "set x"] card_length [of x] by (simp_all add: card_word)
    then have "\<not> (length x = j \<and> card (set x) = k)" for x :: "8 word list" using that by (metis not_le)
    then have e: "{x :: 8 word list. length x = j \<and> card (set x) = k} = {}" by blast
    show ?thesis unfolding e by simp
  qed
  have step: "?c (Suc i) k = (if k = 0 then 0 else ?c i k * real k + ?c i (k - 1) * (257 - real k))" for k
  proof (cases "k \<le> 256")
    case True
    then have "real (256 - (256 - k)) = real k" "k > 0 \<Longrightarrow> real (256 - (k - 1)) = 257 - real k" by auto
    then show ?thesis using arg_cong [where f = real, OF distincts.count_Suc [of i k]] by (auto simp: card_word mult.commute)
  next
    case False
    then have "k = 257 \<or> 256 < k - 1" by linarith
    then show ?thesis using False many [of k] many [of "k - 1" i] by auto
  qed
  have "fold distinct_step [0..<Suc i] (1 # replicate n 0) ! k = ?c (Suc i) k / 256 ^ Suc i" if "k \<le> n" for k
  proof (cases "k \<le> i + 1")
    case True
    then have "fold distinct_step [0..<Suc i] (1 # replicate n 0) ! k
      = (if k = 0 then 0 else ?c i k / 256 ^ i * real k / 256 + ?c i (k - 1) / 256 ^ i * (257 - real k) / 256)"
      using distinct_step_nth(1) [of i ?t k] IH Suc.prems that by simp
    then show ?thesis unfolding step by (simp add: add_divide_distrib)
  next
    case False
    then show ?thesis using distinct_step_nth(1) [of i ?t k] IH Suc.prems that many [of k] by simp
  qed
  then show ?case using distinct_step_nth(2) [of i ?t 0] IH(1) Suc.prems by simp
qed

lemma fewDistinct_rare:
  "real (card {x. length x = n \<and> fewDistinct x}) < randomFailBound * 256 ^ n"
proof -
  let ?X = "{x :: 8 word list. length x = n}"
  let ?T = "\<lambda>k. \<Sum>j\<leftarrow>[0..<nat (- k) + 1]. distinct_table n ! j"
  have "real (card {x \<in> ?X. ?T (- int (card (set x))) < randomFailBound}) < randomFailBound * card ?X"
  proof (rule rare_refusals [where f = "\<lambda>x. - int (card (set x))" and T = ?T])
    fix x :: "8 word list" assume x: "x \<in> ?X"
    have le: "card (set x) \<le> n" using x card_length by fastforce
    have "{y \<in> ?X. - int (card (set x)) \<le> - int (card (set y))} = (\<Union>j\<in>{0..card (set x)}. {y \<in> ?X. card (set y) = j})" by auto
    also have "card \<dots> = (\<Sum>j\<in>{0..card (set x)}. card {y \<in> ?X. card (set y) = j})"
      by (rule card_UN_disjoint) (auto intro: finite_subset [OF _ card_bytes(2) [of n]])
    finally have "real (card {y \<in> ?X. - int (card (set x)) \<le> - int (card (set y))}) = (\<Sum>j\<in>{0..card (set x)}. real (card {y \<in> ?X. card (set y) = j}))" by simp
    also have "\<dots> = (\<Sum>j\<in>{0..card (set x)}. distinct_table n ! j * 256 ^ n)"
      using distinct_table_counts [of n n] le by (intro sum.cong) (auto simp: distinct_table_def)
    finally show "real (card {y \<in> ?X. - int (card (set x)) \<le> - int (card (set y))}) \<le> ?T (- int (card (set x))) * card ?X"
      by (simp add: card_bytes card_word sum_distrib_right interv_sum_list_conv_sum_set_nat atLeastLessThanSuc_atLeastAtMost del: upt_Suc)
  qed (auto simp: card_bytes(2) randomFailBound_def intro: exI [of _ "replicate n 0"])
  then show ?thesis by (simp add: card_bytes card_word fewDistinct_def length_remdups_card_conv conj_commute cong: conj_cong)
qed


subsection \<open>Runs\<close>

text \<open>Lists whose entries from \<open>q\<close> on, \<open>m\<close> of them, are fixed by what stands before them.\<close>

lemma card_determined:
  fixes X :: "'a::finite list set"
  assumes "\<And>x. x \<in> X \<Longrightarrow> length x = n" "q + m \<le> n"
    "\<And>x y k. x \<in> X \<Longrightarrow> y \<in> X \<Longrightarrow> q \<le> k \<Longrightarrow> k < q + m \<Longrightarrow> take k x = take k y \<Longrightarrow> x ! k = y ! k"
  shows "card X \<le> CARD('a) ^ (n - m)"
proof -
  let ?f = "\<lambda>x. take q x @ drop (q + m) x"
  have "inj_on ?f X"
  proof (rule inj_onI)
    fix x y assume x: "x \<in> X" and y: "y \<in> X" and eq: "?f x = ?f y"
    have l: "length x = n" "length y = n" using assms(1) x y by auto
    have tq: "take q x = take q y" and dr: "drop (q + m) x = drop (q + m) y" using eq l assms(2) by auto
    have "take (q + j) x = take (q + j) y" if "j \<le> m" for j
      using that
    proof (induction j)
      case (Suc j)
      then have "x ! (q + j) = y ! (q + j)" using assms(3) [OF x y, of "q + j"] by simp
      then show ?case using Suc l assms(2) take_Suc_conv_app_nth [of "q + j" x] take_Suc_conv_app_nth [of "q + j" y] by simp
    qed (simp add: tq)
    then show "x = y" using dr append_take_drop_id [of "q + m"] by (metis order_refl)
  qed
  moreover have "?f ` X \<subseteq> {x. length x = n - m}" using assms(1,2) by auto
  ultimately have "card X \<le> card {x :: 'a list. length x = n - m}" using card_inj_on_le card_bytes(2) by blast
  then show ?thesis by (simp add: card_bytes)
qed

text \<open>A run of equal values found by the loop.\<close>

definition has_run :: "nat \<Rightarrow> nat \<Rightarrow> 'a list \<Rightarrow> bool" where
  "has_run i r xs \<longleftrightarrow> i + r \<le> length xs \<and> (\<forall>k<r. xs ! (i + k) = xs ! i)"



lemma has_run_append: "has_run i r xs \<Longrightarrow> has_run i r (xs @ ys)"
  unfolding has_run_def
proof (intro conjI allI impI)
  fix k assume r: "i + r \<le> length xs \<and> (\<forall>k<r. xs ! (i + k) = xs ! i)" "k < r"
  then have "i + k < length xs" "i < length xs" by linarith+
  then show "(xs @ ys) ! (i + k) = (xs @ ys) ! i" using r by (simp add: nth_append)
qed simp

lemma run_loop_has_run:
  assumes "len \<le> length ys" "\<forall>k<len. ys ! (length ys - 1 - k) = last ys" "prev = (if ys = [] then None else Some (last ys))" "\<exists>i. has_run i best ys"
  shows "\<exists>i. has_run i (run_loop prev len best xs) (ys @ xs)"
  using assms
proof (induction xs arbitrary: ys len best prev)
  case (Cons x xs)
  let ?ys = "ys @ [x]" and ?len = "if prev = Some x then len + 1 else 1"
  have l: "1 \<le> ?len" "?len \<le> length ?ys" using Cons.prems(1) by auto
  have trailing: "?ys ! (length ?ys - 1 - k) = x" if "k < ?len" for k
  proof (cases k)
    case (Suc j)
    then have "prev = Some x" "j < len" using that by (auto split: if_splits)
    then show ?thesis using Suc Cons.prems(1-3) by (auto simp: nth_append split: if_splits)
  qed simp
  have "has_run (length ?ys - ?len) ?len ?ys"
    unfolding has_run_def
  proof (intro conjI allI impI)
    fix k assume "k < ?len"
    then have "length ?ys - ?len + k = length ?ys - 1 - (?len - 1 - k)" "?len - 1 - k < ?len" "length ?ys - ?len = length ?ys - 1 - (?len - 1)" "?len - 1 < ?len"
      using l by auto
    then show "?ys ! (length ?ys - ?len + k) = ?ys ! (length ?ys - ?len)" using trailing by metis
  qed (use l in simp)
  moreover obtain i where "has_run i best ?ys" using Cons.prems(4) has_run_append by blast
  ultimately have "\<exists>i. has_run i (max best ?len) ?ys" by (cases "best \<le> ?len") (auto simp: max_def)
  then have "\<exists>i. has_run i (run_loop (Some x) ?len (max best ?len) xs) (?ys @ xs)"
    using l trailing by (intro Cons.IH) auto
  then show ?case by (simp add: Let_def)
qed simp

lemma longestEqualRun_has_run: "\<exists>i. has_run i (longestEqualRun xs) xs"
  using run_loop_has_run [of 0 "[]" None 0 xs] by (simp add: longestEqualRun_def has_run_def)

lemma length_diffs: "length (diffs x) = length x - 1"
  by (simp add: diffs_def)

lemma diffs_nth: "i + 1 < length x \<Longrightarrow> diffs x ! i = x ! (i + 1) - x ! i"
  using nth_upt [of 0 i "length x - 1"] by (simp add: diffs_def)

lemma has_run_shorter: "has_run i r xs \<Longrightarrow> r' \<le> r \<Longrightarrow> has_run i r' xs"
  by (auto simp: has_run_def)

lemma card_run_diffs: "1 \<le> r \<Longrightarrow> card {x. length x = n \<and> has_run i r (diffs x)} \<le> 256 ^ (n - (r - 1))"
proof (cases "i + r < n")
  case True
  assume r: "1 \<le> r"
  have "card {x :: 8 word list. length x = n \<and> has_run i r (diffs x)} \<le> CARD(8 word) ^ (n - (r - 1))"
  proof (rule card_determined [where q = "i + 2"])
    fix x y :: "8 word list" and k
    assume x: "x \<in> {x. length x = n \<and> has_run i r (diffs x)}" and y: "y \<in> {x. length x = n \<and> has_run i r (diffs x)}"
      and k: "i + 2 \<le> k" "k < i + 2 + (r - 1)" and t: "take k x = take k y"
    have at: "z ! k = z ! (k - 1) + (z ! (i + 1) - z ! i)" if z: "z \<in> {x. length x = n \<and> has_run i r (diffs x)}" for z :: "8 word list"
    proof -
      have "k - 1 - i < r" using k by linarith
      then have "diffs z ! (i + (k - 1 - i)) = diffs z ! i" using z unfolding has_run_def by blast
      moreover have "i + (k - 1 - i) = k - 1" "k - 1 + 1 = k" "k < length z" using k z True by auto
      ultimately have "z ! k - z ! (k - 1) = z ! (i + 1) - z ! i" using diffs_nth [of "k - 1" z] diffs_nth [of i z] k by simp
      then show ?thesis unfolding diff_eq_eq [of "z ! k"] by (simp only: add_ac)
    qed
    have "x ! j = y ! j" if "j < k" for j using t that by (metis nth_take)
    then show "x ! k = y ! k" using at [OF x] at [OF y] k by simp
  qed (use True r in auto)
  then show ?thesis by (simp add: card_word)
next
  case False
  assume "1 \<le> r"
  then have "{x :: 8 word list. length x = n \<and> has_run i r (diffs x)} = {}" using False by (auto simp: has_run_def length_diffs)
  then show ?thesis by (metis card.empty zero_le)
qed

lemma card_run_diffs2: "1 \<le> r \<Longrightarrow> card {x. length x = n \<and> has_run i r (diffs (diffs x))} \<le> 256 ^ (n - (r - 1))"
proof (cases "i + r + 1 < n")
  case True
  assume r: "1 \<le> r"
  have "card {x :: 8 word list. length x = n \<and> has_run i r (diffs (diffs x))} \<le> CARD(8 word) ^ (n - (r - 1))"
  proof (rule card_determined [where q = "i + 3"])
    fix x y :: "8 word list" and k
    assume x: "x \<in> {x. length x = n \<and> has_run i r (diffs (diffs x))}" and y: "y \<in> {x. length x = n \<and> has_run i r (diffs (diffs x))}"
      and k: "i + 3 \<le> k" "k < i + 3 + (r - 1)" and t: "take k x = take k y"
    have at: "z ! k = z ! (k - 1) + (z ! (k - 1) - z ! (k - 2)) + ((z ! (i + 2) - z ! (i + 1)) - (z ! (i + 1) - z ! i))"
      if z: "z \<in> {x. length x = n \<and> has_run i r (diffs (diffs x))}" for z :: "8 word list"
    proof -
      have dd: "diffs (diffs z) ! j = (z ! (j + 2) - z ! (j + 1)) - (z ! (j + 1) - z ! j)" if "j + 2 < n" for j
        using that z diffs_nth [of j "diffs z"] diffs_nth [of j z] diffs_nth [of "j + 1" z] by (simp add: length_diffs)
      have "k - 2 - i < r" using k by linarith
      then have "diffs (diffs z) ! (i + (k - 2 - i)) = diffs (diffs z) ! i" using z unfolding has_run_def by blast
      moreover have "i + (k - 2 - i) = k - 2" "k - 2 + 1 = k - 1" "k - 2 + 2 = k" "k < n" using k True by auto
      ultimately have "(z ! k - z ! (k - 1)) - (z ! (k - 1) - z ! (k - 2)) = (z ! (i + 2) - z ! (i + 1)) - (z ! (i + 1) - z ! i)"
        using dd [of "k - 2"] dd [of i] k by simp
      then show ?thesis unfolding diff_eq_eq [of "z ! k - z ! (k - 1)"] diff_eq_eq [of "z ! k"] by (simp only: add_ac)
    qed
    have "x ! j = y ! j" if "j < k" for j using t that by (metis nth_take)
    then show "x ! k = y ! k" using at [OF x] at [OF y] k by simp
  qed (use True r in auto)
  then show ?thesis by (simp add: card_word)
next
  case False
  assume "1 \<le> r"
  then have "{x :: 8 word list. length x = n \<and> has_run i r (diffs (diffs x))} = {}" using False by (auto simp: has_run_def length_diffs)
  then show ?thesis by (metis card.empty zero_le)
qed

text \<open>The union over the places where a run can start.\<close>

lemma run_rare:
  fixes D :: "8 word list \<Rightarrow> 8 word list"
  assumes "\<And>i r. 1 \<le> r \<Longrightarrow> card {x. length x = n \<and> has_run i r (D x)} \<le> 256 ^ (n - (r - 1))" "\<And>x. length (D x) \<le> length x"
  shows "real (card {x. length x = n \<and> rareRun n (longestEqualRun (D x))}) < randomFailBound * 256 ^ n"
proof -
  let ?X = "{x :: 8 word list. length x = n}" and ?L = "\<lambda>x. longestEqualRun (D x)"
  let ?T = "\<lambda>k :: int. if 1 < k then real n * 256 powr (- real (nat k - 1)) else 1"
  have fin: "finite ?X" by (rule card_bytes(2))
  have "real (card {x \<in> ?X. ?T (int (?L x)) < randomFailBound}) < randomFailBound * card ?X"
  proof (rule rare_refusals [where f = "\<lambda>x. int (?L x)" and T = ?T])
    fix x :: "8 word list" assume x: "x \<in> ?X"
    show "real (card {y \<in> ?X. int (?L x) \<le> int (?L y)}) \<le> ?T (int (?L x)) * card ?X"
    proof (cases "1 < ?L x")
      case True
      let ?r = "?L x"
      obtain j where "has_run j ?r (D x)" using longestEqualRun_has_run by blast
      then have rn: "?r \<le> n" using assms(2) [of x] x by (auto simp: has_run_def)
      have "{y \<in> ?X. int ?r \<le> int (?L y)} \<subseteq> (\<Union>i<n. {y. length y = n \<and> has_run i ?r (D y)})"
      proof
        fix y assume y: "y \<in> {y \<in> ?X. int ?r \<le> int (?L y)}"
        obtain i where "has_run i (?L y) (D y)" using longestEqualRun_has_run by blast
        then have i: "has_run i ?r (D y)" using y by (auto intro: has_run_shorter)
        then have "i < n" using True assms(2) [of y] y by (auto simp: has_run_def)
        then show "y \<in> (\<Union>i<n. {y. length y = n \<and> has_run i ?r (D y)})" using i y by auto
      qed
      then have "card {y \<in> ?X. int ?r \<le> int (?L y)} \<le> card (\<Union>i<n. {y. length y = n \<and> has_run i ?r (D y)})"
        by (rule card_mono [rotated]) (auto intro: finite_subset [OF _ fin])
      also have "\<dots> \<le> (\<Sum>i<n. card {y. length y = n \<and> has_run i ?r (D y)})" by (rule card_UN_le) simp
      also have "\<dots> \<le> of_nat (card {..<n}) * 256 ^ (n - (?r - 1))" by (rule sum_bounded_above) (use assms(1) True in simp)
      also have "\<dots> = n * 256 ^ (n - (?r - 1))" by simp
      finally have "real (card {y \<in> ?X. int ?r \<le> int (?L y)}) \<le> real (n * 256 ^ (n - (?r - 1)))" by (simp only: of_nat_le_iff)
      also have "\<dots> = real n * 256 ^ (n - (?r - 1))" by simp
      also have "\<dots> = real n * 256 powr (- real (?r - 1)) * 256 ^ n"
        using rn by (simp add: powr_minus powr_realpow power_diff field_simps)
      finally show ?thesis using True by (simp add: card_bytes card_word)
    next
      case False
      then show ?thesis using card_mono [OF fin, of "{y \<in> ?X. int (?L x) \<le> int (?L y)}"] by auto
    qed
  qed (auto simp: fin randomFailBound_def intro: exI [of _ "replicate n 0"])
  moreover have "{x. length x = n \<and> rareRun n (?L x)} = {x \<in> ?X. ?T (int (?L x)) < randomFailBound}"
    by (auto simp: rareRun_def randomFailBound_def)
  ultimately show ?thesis by (simp add: card_bytes card_word)
qed


section \<open>All tests together\<close>

lemma shift_rare:
  assumes "1 \<le> k" "k < n"
  shows "real (card {x :: 8 word list. length x = n \<and> binomialTail (n - k) (matches_at k x) (1 / 256) < randomFailBound}) < randomFailBound * 256 ^ n"
proof -
  obtain t m where k: "k = Suc t" "n = Suc t + m" using assms by (metis One_nat_def Suc_le_D less_imp_add_positive)
  show ?thesis using shifted.tail_rare [where 'a = "8 word", of randomFailBound t m] unfolding k
    by (simp add: card_word randomFailBound_def)
qed

lemma refusal_cases:
  assumes "key_statistics x \<noteq> None"
  shows "fewDistinct x \<or> (\<exists>k\<in>{1..<length x}. binomialTail (length x - k) (matches_at k x) (1 / 256) < randomFailBound)
    \<or> rareRun (length x) (longestEqualRun (diffs x)) \<or> rareRun (length x) (longestEqualRun (diffs (diffs x)))
    \<or> binomialTail (length x) (length (filter printable_byte x)) (95 / 256) < randomFailBound
    \<or> binomialTail (length x) (length (filter letter_byte x)) (53 / 256) < randomFailBound"
proof -
  have "\<exists>k\<in>{1..<length x}. binomialTail (length x - k) (matches_at k x) (1 / 256) < randomFailBound" if "0 < periodicShift x (1 / 256)"
  proof (rule ccontr)
    assume "\<not> ?thesis"
    then have "find (\<lambda>s. binomialTail (length x - s) (matches_at s x) (1 / 256) < randomFailBound) [1..<length x] = None" by (intro find_None) auto
    then show False using that by (simp add: periodicShift_def)
  qed
  then show ?thesis using assms unfolding key_statistics_def Let_def by (metis (no_types, lifting))
qed

lemma card_union_lt:
  assumes "finite I" "I \<noteq> {}" "\<And>i. i \<in> I \<Longrightarrow> real (card (A i)) < c" "\<And>i. i \<in> I \<Longrightarrow> finite (A i)"
  shows "real (card (\<Union>i\<in>I. A i)) < real (card I) * c"
proof -
  have "card (\<Union>i\<in>I. A i) \<le> (\<Sum>i\<in>I. card (A i))" using assms(1) by (rule card_UN_le)
  then have "real (card (\<Union>i\<in>I. A i)) \<le> (\<Sum>i\<in>I. real (card (A i)))" by (metis of_nat_le_iff of_nat_sum)
  also have "\<dots> < (\<Sum>i\<in>I. c)" using assms(1-3) by (rule sum_strict_mono)
  finally show ?thesis by simp
qed

section \<open>Properties\<close>

text \<open>
  C31. Random keys are not refused in practice. Of the keys of \<open>n\<close> bytes the statistical tests of \<open>checkKeyBytes\<close> (too few distinct bytes, a repeated offset, runs of equal
  first or second differences, too many printable bytes or letters) refuse together less than \<open>n + 4\<close> times the bound of one in ten
  billion: every one of the \<open>n + 4\<close> tests keeps the promise of \<open>randomFailBound\<close>. The tests that read the bytes as text are not counted.
\<close>

theorem random_keys_rarely_refused:
  assumes "0 < n"
  shows "real (card {raw. length raw = n \<and> key_statistics raw \<noteq> None}) < (real n + 4) * (1 / 10 ^ 10) * 256 ^ n"
proof -
  let ?c = "randomFailBound * 256 ^ n"
  define A where "A i = {x :: 8 word list. length x = n \<and>
    (if i = 0 then fewDistinct x else if i < n then binomialTail (n - i) (matches_at i x) (1 / 256) < randomFailBound
     else if i = n then rareRun n (longestEqualRun (diffs x)) else if i = n + 1 then rareRun n (longestEqualRun (diffs (diffs x)))
     else if i = n + 2 then binomialTail n (length (filter printable_byte x)) (95 / 256) < randomFailBound
     else binomialTail n (length (filter letter_byte x)) (53 / 256) < randomFailBound)}" for i
  have fin: "finite (A i)" for i unfolding A_def by (rule finite_subset [OF _ card_bytes(2) [of n]]) auto
  have runs: "real (card {x. length x = n \<and> rareRun n (longestEqualRun (diffs x))}) < ?c"
      "real (card {x. length x = n \<and> rareRun n (longestEqualRun (diffs (diffs x)))}) < ?c"
    using run_rare [of n diffs] run_rare [of n "\<lambda>x. diffs (diffs x)"] card_run_diffs card_run_diffs2 by (simp_all add: length_diffs)
  have texts: "real (card {x. length x = n \<and> binomialTail n (length (filter printable_byte x)) (95 / 256) < randomFailBound}) < ?c"
      "real (card {x. length x = n \<and> binomialTail n (length (filter letter_byte x)) (53 / 256) < randomFailBound}) < ?c"
    using printable.tail_rare [of randomFailBound n] letters.tail_rare [of randomFailBound n] by (simp_all add: card_word randomFailBound_def)
  have small: "real (card (A i)) < ?c" for i
  proof -
    consider "i = 0" | "1 \<le> i" "i < n" | "i = n" | "i = n + 1" | "i = n + 2" | "n + 2 < i" by linarith
    then show ?thesis
      by cases (use assms fewDistinct_rare [of n] shift_rare [of i n] runs texts in \<open>simp_all add: A_def\<close>)
  qed
  have "{raw. length raw = n \<and> key_statistics raw \<noteq> None} \<subseteq> (\<Union>i<n + 4. A i)"
  proof
    fix x :: "8 word list" assume "x \<in> {raw. length raw = n \<and> key_statistics raw \<noteq> None}"
    then have l: "length x = n" and "key_statistics x \<noteq> None" by auto
    then have "x \<in> A 0 \<or> (\<exists>k\<in>{1..<n}. x \<in> A k) \<or> x \<in> A n \<or> x \<in> A (n + 1) \<or> x \<in> A (n + 2) \<or> x \<in> A (n + 3)"
      using refusal_cases [of x] assms unfolding A_def by auto
    then show "x \<in> (\<Union>i<n + 4. A i)" by fastforce
  qed
  then have "card {raw. length raw = n \<and> key_statistics raw \<noteq> None} \<le> card (\<Union>i<n + 4. A i)" using fin by (intro card_mono) auto
  moreover have "real (card (\<Union>i<n + 4. A i)) < real (card {..<n + 4}) * ?c" using small fin by (intro card_union_lt) (simp_all add: lessThan_empty_iff)
  ultimately have "real (card {raw. length raw = n \<and> key_statistics raw \<noteq> None}) < real (card {..<n + 4}) * ?c" by linarith
  then show ?thesis by (simp add: randomFailBound_def algebra_simps)
qed

theorem random_keys_rarely_refused_witness:
  "real (card {raw. length raw = 32 \<and> key_statistics raw \<noteq> None}) < 1 / 10 ^ 8 * 256 ^ 32"
  using random_keys_rarely_refused [of 32] by simp

end
