(* ===== verification/Event_History.thy ===== *)
theory Event_History
  imports Dispatcher
begin

text \<open>
  End to end through the dispatcher: what becomes of an audit event from \<open>Push\<close> (\<open>internal/integrations/dispatcher.go\<close>) to the sinks. A history is kept beside
  a run: what each intake lane accepted and refused, what the router took out of it, and where in that sequence each running worker was
  started. The histories of the workers themselves are those of \<open>Dispatcher\<close>.
\<close>

section \<open>Histories\<close>

record history =
  hs_accepted :: queues
  hs_refused :: "lane \<Rightarrow> nat"
  hs_routed :: queues
  hs_base :: "int \<Rightarrow> queues"

text \<open>
  What a step adds. An intake lane that has grown accepted its new end; one that has shrunk had its front taken by the router. A drop counted while
  the router stands still is a refusal at the intake. A worker that a refresh put in place is owed the event in the router's hand and
  what comes after it.
\<close>

definition record_step :: "dispatcher \<Rightarrow> dispatcher \<Rightarrow> history \<Rightarrow> history" where
  "record_step d d' h =
     \<lparr>hs_accepted = (\<lambda>l. hs_accepted h l @ drop (length (dp_intake d l)) (dp_intake d' l)),
      hs_refused = (\<lambda>l. hs_refused h l + (if dp_router d' = dp_router d then dp_drops d' l - dp_drops d l else 0)),
      hs_routed = (\<lambda>l. hs_routed h l @ take (length (dp_intake d l) - length (dp_intake d' l)) (dp_intake d l)),
      hs_base = (case dp_router d of
          RRefresh ev l \<Rightarrow>
            if dp_router d' = dp_router d then hs_base h
            else (\<lambda>i. if map_of (dp_workers d') i = map_of (dp_workers d) i then hs_base h i else (hs_routed h)(l := butlast (hs_routed h l)))
        | _ \<Rightarrow> hs_base h)\<rparr>"

inductive disp_hist :: "int_env \<Rightarrow> int \<Rightarrow> time \<Rightarrow> history \<Rightarrow> dispatcher \<Rightarrow> bool" for E n t where
  start: "disp_hist E n t \<lparr>hs_accepted = (\<lambda>_. []), hs_refused = (\<lambda>_. 0), hs_routed = (\<lambda>_. []), hs_base = (\<lambda>_ _. [])\<rparr> (NewDispatcher n t)"
| step: "disp_hist E n t h d \<Longrightarrow> disp_step E d d' \<Longrightarrow> disp_hist E n t (record_step d d' h) d'"

lemma disp_hist_reachable: "disp_hist E n t h d \<Longrightarrow> (disp_step E)\<^sup>*\<^sup>* (NewDispatcher n t) d"
  by (induction rule: disp_hist.induct) (auto intro: rtranclp.rtrancl_into_rtrancl)

lemma reachable_has_history: "(disp_step E)\<^sup>*\<^sup>* (NewDispatcher n t) d \<Longrightarrow> \<exists>h. disp_hist E n t h d"
  by (induction rule: rtranclp_induct) (blast intro: disp_hist.intros)+

text \<open>The event the router has taken and not yet handed to worker \<open>i\<close>.\<close>

fun in_hand :: "rphase \<Rightarrow> int \<Rightarrow> lane \<Rightarrow> event list" where
  "in_hand (RRefresh ev l0) i l = (if l = l0 then [ev] else [])"
| "in_hand (RRoute ev l0 is) i l = (if l = l0 \<and> i \<in> set is then [ev] else [])"
| "in_hand _ i l = []"

section \<open>The invariant\<close>

definition wanted :: "worker \<Rightarrow> event list \<Rightarrow> event list" where
  "wanted w evs = filter (\<lambda>ev. matches w (ev_EventType ev)) evs"

text \<open>Of the events handed to a worker those that match were accepted, in order, or dropped.\<close>

definition offered :: "worker \<Rightarrow> lane \<Rightarrow> event list \<Rightarrow> bool" where
  "offered w l evs \<longleftrightarrow> subseq (wk_accepted w l) (wanted w evs) \<and> length (wanted w evs) = length (wk_accepted w l) + wk_dropped w l"

definition served :: "history \<Rightarrow> rphase \<Rightarrow> int \<Rightarrow> worker \<Rightarrow> bool" where
  "served h r i w \<longleftrightarrow> (\<forall>l. \<exists>handed. hs_routed h l = hs_base h i l @ handed @ in_hand r i l \<and> offered w l handed)"

fun holds_ok :: "history \<Rightarrow> rphase \<Rightarrow> bool" where
  "holds_ok h (RRefresh ev l) \<longleftrightarrow> (\<exists>evs. hs_routed h l = evs @ [ev])"
| "holds_ok h (RRoute ev l is) \<longleftrightarrow> distinct is"
| "holds_ok h _ \<longleftrightarrow> True"

definition hist_ok :: "history \<Rightarrow> dispatcher \<Rightarrow> bool" where
  "hist_ok h d \<longleftrightarrow> (\<forall>l. hs_accepted h l = hs_routed h l @ dp_intake d l) \<and> (\<forall>l. dp_drops d l = hs_refused h l + drops_of l (all_workers d))
     \<and> (\<forall>i w. map_of (dp_workers d) i = Some w \<longrightarrow> served h (dp_router d) i w) \<and> holds_ok h (dp_router d)"

lemma offered_cong:
  assumes "wk_accepted w' = wk_accepted w" "wk_dropped w' = wk_dropped w" "sw_filters w' = sw_filters w" "sw_filtersOK w' = sw_filtersOK w"
  shows "offered w' l evs = offered w l evs"
  using assms by (simp add: offered_def wanted_def matches_def)

lemma worker_step_offered:
  "worker_step quit w w' dl fl \<Longrightarrow> wk_accepted w' = wk_accepted w \<and> sw_filters w' = sw_filters w \<and> sw_filtersOK w' = sw_filtersOK w"
  by (induction rule: worker_step.induct) (simp_all add: take_event_def)

lemma offered_new: "offered (new_worker fp s f) l []"
  by (simp add: offered_def wanted_def new_worker_def)

lemma offered_skip: "offered w l evs \<Longrightarrow> \<not> matches w (ev_EventType ev) \<Longrightarrow> offered w l (evs @ [ev])"
  by (simp add: offered_def wanted_def)

lemma offered_enqueue:
  assumes "offered w l' evs" "enqueue b ev l w = (dropped, w')" "matches w (ev_EventType ev)"
  shows "offered w' l' (if l' = l then evs @ [ev] else evs)"
proof -
  have f: "wanted w' x = wanted w x" for x using assms(2) by (auto simp: wanted_def matches_def enqueue_def split: if_splits)
  show ?thesis
    using assms unfolding offered_def f by (auto simp: enqueue_def wanted_def list_emb_append_mono intro: list_emb_append2 split: if_splits)
qed


text \<open>Reconciliation keeps a worker as it is, retires it or starts a new one, and no drop is forgotten.\<close>

definition kept_or_new :: "(int \<times> worker) list \<Rightarrow> (int \<times> worker) list \<Rightarrow> bool" where
  "kept_or_new ws ws' \<longleftrightarrow> (\<forall>i w. map_of ws' i = Some w \<longrightarrow> map_of ws i = Some w \<or> (\<exists>fp s f. w = new_worker fp s f))"

lemma map_of_filter_neq: "map_of (filter (\<lambda>x. fst x \<noteq> k) ws) i = (if i = k then None else map_of ws i)"
  by (induction ws) auto

lemma map_of_filter_key: "map_of (filter (\<lambda>x. P (fst x)) ws) i = (if P i then map_of ws i else None)"
  by (induction ws) auto

lemma kept_refl: "kept_or_new ws ws"
  by (simp add: kept_or_new_def)

lemma kept_filter: "kept_or_new ws (filter (\<lambda>x. fst x \<noteq> k) ws)"
  by (simp add: kept_or_new_def map_of_filter_neq)

lemma kept_append_new: "kept_or_new ws ws' \<Longrightarrow> kept_or_new ws (ws' @ [(k, new_worker fp s f)])"
  unfolding kept_or_new_def by (simp add: map_add_Some_iff) blast

lemma reconcile_row_keeps:
  assumes "distinct (map fst ws)" "reconcile_row E row (ws, ret, failed) = (ws', ret', failed')"
  shows "kept_or_new ws ws' \<and> distinct (map fst ws') \<and> drops_of l (map snd ws' @ ret') = drops_of l (map snd ws @ ret)"
proof (cases "map_of ws (ig_ID row)")
  case None
  then have "ig_ID row \<notin> fst ` set ws" by (simp add: map_of_eq_None_iff)
  then show ?thesis using assms None
    by (auto simp: reconcile_row_def Let_def kept_refl kept_append_new split: sum.splits)
next
  case (Some w)
  let ?ws = "filter (\<lambda>x. fst x \<noteq> ig_ID row) ws"
  have k: "distinct (map fst ?ws)" "ig_ID row \<notin> fst ` set ?ws" using assms(1) by (auto intro: distinct_map_filter)
  have d: "drops_of l (map snd ?ws) + wk_dropped w l = drops_of l (map snd ws)" by (rule drops_of_split [OF assms(1) Some])
  show ?thesis
  proof (cases "sw_fp w = fingerprint row")
    case True
    then show ?thesis using assms Some by (simp add: reconcile_row_def Let_def kept_or_new_def)
  next
    case False
    then show ?thesis using assms(2) Some k d
      by (auto simp: reconcile_row_def Let_def kept_filter kept_append_new split: sum.splits)
  qed
qed

lemma kept_or_new_trans: "kept_or_new a b \<Longrightarrow> kept_or_new b c \<Longrightarrow> kept_or_new a c"
  by (fastforce simp: kept_or_new_def)

lemma reconcile_keeps:
  assumes "distinct (map fst ws)" "reconcile E rows (ws, ret, failed) = (ws', ret', failed')"
  shows "kept_or_new ws ws' \<and> distinct (map fst ws') \<and> drops_of l (map snd ws' @ ret') = drops_of l (map snd ws @ ret)"
  using assms
proof (induction rows arbitrary: ws ret failed)
  case (Cons row rows)
  obtain ws1 ret1 failed1 where r: "reconcile_row E row (ws, ret, failed) = (ws1, ret1, failed1)" by (cases "reconcile_row E row (ws, ret, failed)") auto
  note one = reconcile_row_keeps [OF Cons.prems(1) r]
  show ?case using Cons.IH [of ws1 ret1 failed1] Cons.prems(2) r one kept_or_new_trans by auto
qed (simp add: kept_or_new_def)

lemma refresh_keeps:
  assumes "distinct (map fst (dp_workers d))"
  shows "kept_or_new (dp_workers d) (dp_workers (refresh E fault db d))
    \<and> drops_of l (all_workers (refresh E fault db d)) = drops_of l (all_workers d)
    \<and> dp_intake (refresh E fault db d) = dp_intake d \<and> dp_drops (refresh E fault db d) = dp_drops d"
proof (cases "refresh E fault db d = d")
  case False
  then obtain rows ws ret failed where
    r: "reconcile E rows (dp_workers d, dp_retired d, dp_failed d) = (ws, ret, failed)"
    "refresh E fault db d = d\<lparr>dp_lastRefresh := Some (dp_now d), dp_workers := filter (\<lambda>x. fst x \<in> set (map ig_ID rows)) ws,
        dp_retired := ret @ map (\<lambda>x. retire (snd x)) (filter (\<lambda>x. fst x \<notin> set (map ig_ID rows)) ws), dp_failed := failed\<rparr>"
    by (auto simp: refresh_def Let_def split: if_splits sum.splits prod.splits)
  note k = reconcile_keeps [OF assms r(1), of l]
  let ?P = "\<lambda>x. x \<in> set (map ig_ID rows)"
  have "kept_or_new (dp_workers d) (filter (\<lambda>x. ?P (fst x)) ws)"
    using k unfolding kept_or_new_def map_of_filter_key [of ?P] by (auto split: if_splits)
  then show ?thesis
    using k drops_of_partition [of l "\<lambda>x. ?P (fst x)" ws] unfolding r(2) all_workers_def by simp
qed (simp add: kept_or_new_def)

lemma route_to_worker:
  assumes "map_of (dp_workers (route_to ev l i d)) j = Some w'"
  shows "\<exists>w. map_of (dp_workers d) j = Some w \<and>
    (if j = i \<and> matches w (ev_EventType ev) then w' = snd (enqueue (dp_bufSize d) ev l w) else w' = w)"
proof -
  have m: "map_of (map (\<lambda>x. if fst x = i then (i, v) else x) ws) j = (if j = i then map_option (\<lambda>_. v) (map_of ws i) else map_of ws j)" for v and ws :: "(int \<times> worker) list"
    by (induction ws) auto
  show ?thesis using assms
    by (auto simp: route_to_def Let_def case_prod_beta noteDrop_def m split: option.splits if_splits)
qed

lemma route_to_drops:
  assumes "distinct (map fst (dp_workers d))"
  shows "dp_drops (route_to ev l i d) l' + drops_of l' (all_workers d) = dp_drops d l' + drops_of l' (all_workers (route_to ev l i d))
    \<and> dp_intake (route_to ev l i d) = dp_intake d"
proof (cases "\<exists>w. map_of (dp_workers d) i = Some w \<and> matches w (ev_EventType ev)")
  case True
  then obtain w where w: "map_of (dp_workers d) i = Some w" "matches w (ev_EventType ev)" by blast
  obtain dropped w' where e: "enqueue (dp_bufSize d) ev l w = (dropped, w')" by (cases "enqueue (dp_bufSize d) ev l w")
  have grow: "wk_dropped w' l' = wk_dropped w l' + (if dropped \<and> l' = l then 1 else 0)" using e by (auto simp: enqueue_def split: if_splits)
  show ?thesis using w e grow drops_of_replace [OF assms w(1), of l' w'] by (cases dropped) (simp_all add: route_to_def noteDrop_def all_workers_def Let_def del: map_map)
qed (auto simp: route_to_def split: option.split)


section \<open>Steps\<close>

lemma record_quiet:
  assumes "dp_intake d' = dp_intake d" "dp_drops d' = dp_drops d" "dp_router d' = dp_router d \<or> (\<forall>ev l. dp_router d \<noteq> RRefresh ev l)"
  shows "record_step d d' h = h"
  using assms by (cases h) (auto simp: record_step_def split: rphase.split)

lemma served_cong:
  assumes "hs_routed h' = hs_routed h" "hs_base h' i = hs_base h i" "\<And>l. in_hand r' i l = in_hand r i l" "\<And>l evs. offered w' l evs = offered w l evs"
  shows "served h' r' i w' = served h r i w"
  using assms by (simp add: served_def)

text \<open>Steps that touch neither intake nor metric, and no worker's history.\<close>

lemma hist_ok_quiet:
  assumes "hist_ok h d" "dp_intake d' = dp_intake d" "dp_drops d' = dp_drops d" "\<And>l. drops_of l (all_workers d') = drops_of l (all_workers d)"
    "\<And>i w'. map_of (dp_workers d') i = Some w' \<Longrightarrow> \<exists>w. map_of (dp_workers d) i = Some w \<and> (\<forall>l evs. offered w' l evs = offered w l evs)"
    "dp_router d' = dp_router d \<or> ((\<forall>i l. in_hand (dp_router d) i l = [] \<and> in_hand (dp_router d') i l = []) \<and> holds_ok h (dp_router d'))"
  shows "hist_ok (record_step d d' h) d'"
proof -
  have "dp_router d' = dp_router d \<or> (\<forall>ev l. dp_router d \<noteq> RRefresh ev l)" using assms(6) by (metis in_hand.simps(1) list.distinct(1))
  note h = record_quiet [OF assms(2,3) this]
  have "served h (dp_router d') i w'" if m: "map_of (dp_workers d') i = Some w'" for i w'
  proof -
    obtain w where w: "map_of (dp_workers d) i = Some w" "\<And>l evs. offered w' l evs = offered w l evs" using assms(5) [OF m] by blast
    have "in_hand (dp_router d') i l = in_hand (dp_router d) i l" for l using assms(6) by auto
    then show ?thesis using served_cong [of h h i "dp_router d'" "dp_router d" w' w] w assms(1) by (simp add: hist_ok_def)
  qed
  then show ?thesis using assms(1-4,6) unfolding h by (auto simp: hist_ok_def)
qed

lemma hist_ok_push:
  assumes "hist_ok h d"
  shows "hist_ok (record_step d (Push ev d) h) (Push ev d)"
proof -
  let ?d = "Push ev d" and ?h = "record_step d (Push ev d) h"
  have same: "dp_router ?d = dp_router d" "dp_workers ?d = dp_workers d" "all_workers ?d = all_workers d"
    by (simp_all add: Push_def noteDrop_def Let_def all_workers_def)
  have h: "hs_routed ?h = hs_routed h" "hs_base ?h = hs_base h"
    by (auto simp: record_step_def same fun_eq_iff Push_def noteDrop_def Let_def split: rphase.split)
  have "served ?h (dp_router ?d) i w = served h (dp_router d) i w" for i w by (rule served_cong) (simp_all add: h same)
  moreover have "holds_ok ?h (dp_router ?d) = holds_ok h (dp_router d)" unfolding same by (cases "dp_router d") (simp_all add: h)
  moreover have "hs_accepted ?h l = hs_routed ?h l @ dp_intake ?d l" for l
    using assms unfolding h by (auto simp: hist_ok_def record_step_def Push_def noteDrop_def Let_def)
  moreover have "dp_drops ?d l = hs_refused ?h l + drops_of l (all_workers ?d)" for l
  proof -
    have "dp_drops d l \<le> dp_drops ?d l" by (simp add: Push_def noteDrop_def Let_def)
    then show ?thesis using assms unfolding same by (simp add: hist_ok_def record_step_def same)
  qed
  ultimately show ?thesis using assms by (simp add: hist_ok_def same)
qed

lemma hist_ok_receive:
  assumes "hist_ok h d" "dp_router d = RRecv r" "dp_intake d l = ev # rest"
  shows "hist_ok (record_step d (d\<lparr>dp_intake := (dp_intake d)(l := rest), dp_router := RRefresh ev l\<rparr>) h) (d\<lparr>dp_intake := (dp_intake d)(l := rest), dp_router := RRefresh ev l\<rparr>)"
proof -
  let ?d = "d\<lparr>dp_intake := (dp_intake d)(l := rest), dp_router := RRefresh ev l\<rparr>"
  let ?h = "record_step d ?d h"
  have h: "hs_accepted ?h = hs_accepted h" "hs_routed ?h = (hs_routed h)(l := hs_routed h l @ [ev])" "hs_base ?h = hs_base h" "hs_refused ?h = hs_refused h"
    using assms(2,3) by (auto simp: record_step_def fun_eq_iff)
  have "served ?h (RRefresh ev l) i w" if "map_of (dp_workers d) i = Some w" for i w
    unfolding served_def h
  proof
    fix l'
    have "served h (dp_router d) i w" using that assms(1) by (simp add: hist_ok_def)
    then obtain handed where "hs_routed h l' = hs_base h i l' @ handed" "offered w l' handed" using assms(2) by (auto simp: served_def)
    then show "\<exists>handed. ((hs_routed h)(l := hs_routed h l @ [ev])) l' = hs_base h i l' @ handed @ in_hand (RRefresh ev l) i l' \<and> offered w l' handed" by auto
  qed
  moreover have "hs_accepted h l' = ((hs_routed h)(l := hs_routed h l @ [ev])) l' @ ((dp_intake d)(l := rest)) l'" for l'
    using assms(1,3) by (simp add: hist_ok_def)
  ultimately show ?thesis using assms(1) by (simp add: hist_ok_def h all_workers_def)
qed

lemma hist_ok_refresh:
  assumes "hist_ok h d" "disp_ok d" "dp_router d = RRefresh ev l" "mset js = mset (map fst (dp_workers (refresh E fault db d)))"
  shows "hist_ok (record_step d ((refresh E fault db d)\<lparr>dp_router := RRoute ev l js\<rparr>) h) ((refresh E fault db d)\<lparr>dp_router := RRoute ev l js\<rparr>)"
proof -
  let ?r = "refresh E fault db d"
  let ?d = "?r\<lparr>dp_router := RRoute ev l js\<rparr>"
  let ?h = "record_step d ?d h"
  have k: "kept_or_new (dp_workers d) (dp_workers ?r)" "\<And>l. drops_of l (all_workers ?r) = drops_of l (all_workers d)" "dp_intake ?r = dp_intake d" "dp_drops ?r = dp_drops d"
    using refresh_keeps [of d E fault db] assms(2) by (auto simp: disp_ok_iff)
  have h: "hs_accepted ?h = hs_accepted h" "hs_routed ?h = hs_routed h" "hs_refused ?h = hs_refused h"
      "hs_base ?h = (\<lambda>i. if map_of (dp_workers ?r) i = map_of (dp_workers d) i then hs_base h i else (hs_routed h)(l := butlast (hs_routed h l)))"
    using k(3,4) assms(3) by (auto simp: record_step_def)
  obtain evs where evs: "hs_routed h l = evs @ [ev]" using assms(1,3) by (auto simp: hist_ok_def)
  have "set js = fst ` set (dp_workers ?r)" using assms(4) by (metis list.set_map set_mset_mset)
  moreover have dist: "distinct js" using assms(4) disp_ok_refresh [OF assms(2), of E fault db] by (metis disp_ok_iff distinct_count_atmost_1 set_mset_mset)
  ultimately have js: "i \<in> set js" if "map_of (dp_workers ?r) i = Some w" for i w using that by (force dest: map_of_SomeD)
  have "served ?h (RRoute ev l js) i w" if w: "map_of (dp_workers ?r) i = Some w" for i w
  proof (cases "map_of (dp_workers ?r) i = map_of (dp_workers d) i")
    case True
    then have "served h (dp_router d) i w" using assms(1) w by (simp add: hist_ok_def)
    moreover have "served ?h (RRoute ev l js) i w = served h (dp_router d) i w"
      using True js [OF w] by (intro served_cong) (simp_all add: h assms(3))
    ultimately show ?thesis by simp
  next
    case False
    then obtain fp s f where "w = new_worker fp s f" using k(1) w unfolding kept_or_new_def by metis
    then have "offered w l' []" for l' by (simp add: offered_new)
    then show ?thesis using False js [OF w] evs unfolding served_def h by (intro allI exI [of _ "[]"]) auto
  qed
  then show ?thesis using assms(1) k dist by (simp add: hist_ok_def h all_workers_def)
qed


lemma hist_ok_route:
  assumes "hist_ok h d" "disp_ok d" "dp_router d = RRoute ev l (i # js)"
  shows "hist_ok (record_step d ((route_to ev l i d)\<lparr>dp_router := RRoute ev l js\<rparr>) h) ((route_to ev l i d)\<lparr>dp_router := RRoute ev l js\<rparr>)"
proof -
  let ?r = "route_to ev l i d"
  let ?d = "?r\<lparr>dp_router := RRoute ev l js\<rparr>"
  have dist: "distinct (i # js)" using assms(1,3) by (simp add: hist_ok_def)
  have k: "dp_drops ?r l' + drops_of l' (all_workers d) = dp_drops d l' + drops_of l' (all_workers ?r)" "dp_intake ?r = dp_intake d" for l'
    using route_to_drops [of d ev l i l'] assms(2) by (simp_all add: disp_ok_iff)
  have h: "record_step d ?d h = h" using assms(3) k(2) by (cases h) (simp add: record_step_def)
  have "served h (RRoute ev l js) j w'" if m: "map_of (dp_workers ?r) j = Some w'" for j w'
  proof -
    obtain w where w: "map_of (dp_workers d) j = Some w"
        "if j = i \<and> matches w (ev_EventType ev) then w' = snd (enqueue (dp_bufSize d) ev l w) else w' = w"
      using route_to_worker [OF m] by blast
    have old: "served h (RRoute ev l (i # js)) j w" using assms(1,3) w(1) by (simp add: hist_ok_def)
    show ?thesis
    proof (cases "j = i")
      case False
      then show ?thesis using old w(2) by (auto simp: served_def)
    next
      case True
      show ?thesis unfolding served_def
      proof
        fix l'
        obtain handed where x: "hs_routed h l' = hs_base h j l' @ handed @ (if l' = l then [ev] else [])" "offered w l' handed"
          using old True unfolding served_def by (metis in_hand.simps(2) list.set_intros(1))
        let ?x = "if l' = l then handed @ [ev] else handed"
        have "offered w' l' ?x"
        proof (cases "matches w (ev_EventType ev)")
          case True
          then show ?thesis using offered_enqueue [OF x(2) _ True, of "dp_bufSize d" l] w(2) \<open>j = i\<close> by (metis prod.collapse)
        next
          case False
          then show ?thesis using offered_skip [OF x(2) False] x(2) w(2) by auto
        qed
        moreover have "hs_routed h l' = hs_base h j l' @ ?x @ in_hand (RRoute ev l js) j l'" using x(1) dist True by auto
        ultimately show "\<exists>handed. hs_routed h l' = hs_base h j l' @ handed @ in_hand (RRoute ev l js) j l' \<and> offered w' l' handed" by blast
      qed
    qed
  qed
  moreover have "dp_drops ?r l' = hs_refused h l' + drops_of l' (all_workers ?r)" for l'
    using assms(1) k(1) [of l'] unfolding hist_ok_def by (metis add.assoc add.commute add_left_cancel)
  moreover have "all_workers ?d = all_workers ?r" by (simp add: all_workers_def)
  ultimately show ?thesis using assms(1) dist k(2) unfolding h by (simp add: hist_ok_def)
qed

lemma map_of_update_nth:
  assumes "distinct (map fst ws)" "k < length ws" "ws ! k = (i, w)"
  shows "map_of (ws[k := (i, w')]) j = (if j = i then Some w' else map_of ws j)"
proof -
  have "map fst (ws[k := (i, w')]) = map fst ws" using assms by (simp add: map_update) (metis fst_conv list_update_id nth_map)
  then have d: "distinct (map fst (ws[k := (i, w')]))" using assms(1) by metis
  have "(i, w') \<in> set (ws[k := (i, w')])" using assms(2) by (simp add: set_update_memI)
  moreover have "map_of (ws[k := (i, w')]) j = map_of ws j" if "j \<noteq> i"
    using that assms(2,3)
  proof (induction ws arbitrary: k)
    case (Cons x ws)
    then show ?case by (cases k) auto
  qed simp
  ultimately show ?thesis using d by auto
qed

lemma hist_ok_work:
  assumes "hist_ok h d" "disp_ok d" "k < length (dp_workers d)" "dp_workers d ! k = (i, w)" "worker_step (dp_quit d) w w' dl fl"
    "d' = d\<lparr>dp_workers := (dp_workers d)[k := (i, w')], dp_delivered := dp_delivered d + dl, dp_failed := dp_failed d + fl\<rparr>"
  shows "hist_ok (record_step d d' h) d'"
proof (rule hist_ok_quiet [OF assms(1)])
  have dist: "distinct (map fst (dp_workers d))" using assms(2) by (simp add: disp_ok_iff)
  have w: "map_of (dp_workers d) i = Some w" using dist assms(3,4) by (metis map_of_eq_Some_iff nth_mem)
  have same: "offered w' l evs = offered w l evs" for l evs using worker_step_offered [OF assms(5)] worker_step_drops [OF assms(5)] by (intro offered_cong) auto
  show "\<exists>v. map_of (dp_workers d) j = Some v \<and> (\<forall>l evs. offered v' l evs = offered v l evs)" if "map_of (dp_workers d') j = Some v'" for j v'
    using that w same map_of_update_nth [OF dist assms(3,4), of w' j] assms(6) by (auto split: if_splits)
  show "drops_of l (all_workers d') = drops_of l (all_workers d)" for l
    using drops_of_nth_update [of k "map snd (dp_workers d)" w' l] worker_step_drops [OF assms(5)] assms(3,4,6) by (simp add: all_workers_def map_update)
qed (use assms(6) in simp_all)

lemma hist_ok_step:
  assumes "disp_step E d d'" "hist_ok h d" "disp_ok d"
  shows "hist_ok (record_step d d' h) d'"
  using assms(1)
proof (cases rule: disp_step.cases)
  case (push ev)
  then show ?thesis using hist_ok_push [OF assms(2)] by simp
next
  case (router_hit l ev rest)
  then show ?thesis using hist_ok_receive [OF assms(2)] by simp
next
  case (router_select l ev rest)
  then show ?thesis using hist_ok_receive [OF assms(2)] by simp
next
  case (router_refresh ev l d1 fault db js)
  then show ?thesis using hist_ok_refresh [OF assms(2,3)] by simp
next
  case (router_route ev l i js)
  then show ?thesis using hist_ok_route [OF assms(2,3)] by simp
next
  case (work k i w w' dl fl)
  then show ?thesis using hist_ok_work [OF assms(2,3)] by blast
next
  case (work_retired k w' dl fl)
  have "drops_of l ((dp_retired d)[k := w']) = drops_of l (dp_retired d)" for l
    using work_retired(2) worker_step_drops [OF work_retired(3)] by (intro drops_of_nth_update) simp_all
  then show ?thesis using work_retired by (intro hist_ok_quiet [OF assms(2)]) (auto simp: all_workers_def)
qed (use assms(2) in \<open>auto intro!: hist_ok_quiet simp: all_workers_def\<close>)

lemma hist_ok_reachable: "disp_hist E n t h d \<Longrightarrow> hist_ok h d"
proof (induction rule: disp_hist.induct)
  case start
  then show ?case by (simp add: hist_ok_def NewDispatcher_def all_workers_def)
next
  case (step h d d')
  then show ?case using hist_ok_step disp_ok_reachable [OF disp_hist_reachable] by blast
qed


section \<open>Properties\<close>

text \<open>
  C10. No audit event vanishes between the intake and a running sink, in any interleaving of producers, router, workers and row changes. Whatever an intake
  lane accepted was taken by the router or waits there, in order. Whatever the router took since the worker of a row was started has been handed to that
  worker, or is in the router's hand and owed to it. Of the handed events those its filters match were taken by the worker or wait in its queue, in
  order, and all the others are drops: still owed to the sink, on their way in a notice, or in a delivered notice. The drop metric of a lane is exactly what
  the intake refused plus what the workers, retired ones included, dropped; a refusal at the intake is counted there and owed to no sink. An event that waits
  in the queue of a worker that has exited stays there.
\<close>

theorem events_accounted_for:
  assumes "disp_hist E n t h d" "(i, w) \<in> set (dp_workers d)"
  shows "hs_accepted h l = hs_routed h l @ dp_intake d l
    \<and> (\<exists>handed. hs_routed h l = hs_base h i l @ handed @ in_hand (dp_router d) i l
        \<and> subseq (wk_taken w l @ sw_queues w l) (wanted w handed)
        \<and> length (wanted w handed) = length (wk_taken w l @ sw_queues w l) + (sw_pending w l + in_flight (wk_phase w) l + wk_reported w l))
    \<and> dp_drops d l = hs_refused h l + drops_of l (all_workers d)"
proof -
  have ok: "disp_ok d" by (rule disp_ok_reachable [OF disp_hist_reachable [OF assms(1)]])
  then have "worker_ok (dp_bufSize d) w" "map_of (dp_workers d) i = Some w" using assms(2) by (force simp: disp_ok_def all_workers_def)+
  moreover have "hist_ok h d" by (rule hist_ok_reachable [OF assms(1)])
  ultimately obtain handed where "hs_routed h l = hs_base h i l @ handed @ in_hand (dp_router d) i l" "offered w l handed"
      "wk_accepted w l = wk_taken w l @ sw_queues w l" "wk_dropped w l = sw_pending w l + wk_reported w l + in_flight (wk_phase w) l"
    unfolding worker_ok_def lane_ok_def debt_ok_def hist_ok_def served_def by blast
  then show ?thesis using hist_ok_reachable [OF assms(1)] by (auto simp: hist_ok_def offered_def)
qed

theorem events_accounted_for_witness:
  "\<exists>h i w. (i, w) \<in> set (dp_workers after_drop) \<and> disp_hist toy_int_env 1 0 h after_drop
     \<and> hs_accepted h Bulk = hs_routed h Bulk \<and> length (wk_taken w Bulk @ sw_queues w Bulk) = 1
     \<and> sw_pending w Bulk + in_flight (wk_phase w) Bulk + wk_reported w Bulk = 1 \<and> dp_drops after_drop Bulk = hs_refused h Bulk + 1"
proof -
  obtain h where h: "disp_hist toy_int_env 1 0 h after_drop" using reachable_has_history [OF after_drop_reached] by blast
  obtain i w where iw: "hd (dp_workers after_drop) = (i, w)" by (cases "hd (dp_workers after_drop)")
  have "dp_workers after_drop \<noteq> []" by code_simp
  then have m: "(i, w) \<in> set (dp_workers after_drop)" using iw hd_in_set by metis
  have "case hd (dp_workers after_drop) of (i, w) \<Rightarrow> length (wk_taken w Bulk @ sw_queues w Bulk) = 1
      \<and> sw_pending w Bulk + in_flight (wk_phase w) Bulk + wk_reported w Bulk = 1" by code_simp
  moreover have "dp_intake after_drop Bulk = []" by code_simp
  moreover have "drops_of Bulk (all_workers after_drop) = 1" by code_simp
  ultimately show ?thesis using events_accounted_for [OF h m, of Bulk] h m iw by auto
qed

end
