(* ===== verification/Spec2Isabelle.thy ===== *)
theory Spec2Isabelle
  imports Rate_Limit Domains Mail Elevations Policies Tokens Audit_Log Totp Login_Pending Login_Safety Dispatcher
    Throttle_Audit Mail_Capture Entropy_Sound Guessing Public_Safety Retention Relay_Config Libraries Key_Counts Event_History
begin

text \<open>
  SealKeeper, a self-hosted service that mails one-time links behind which a browser generates passwords. An anonymous request names an e-mail
  address; the server limits the rate, checks that the domain is on the allow-list, resolves the password policy of the address, issues a token and
  mails the link. Whoever opens the link before it expires redeems the token and is served the policy. Administrators work in a console behind
  password, TOTP and recovery codes. Everything that happens is appended to a keyed hash chain and fanned out to external sinks; a retention job
  removes what is past its period.

  \<^bold>\<open>Theories, and the code they model\<close>

  \<^item> \<open>SK_Prelude\<close>: time, results, driver faults, SQL tables with ids (interface \<open>sql_table\<close>), machines driven by commands (\<open>machine\<close>), secrets that can be
    redeemed once (\<open>single_use\<close>).
  \<^item> \<open>Go_Strings\<close>, \<open>Go_Json\<close>, \<open>Js_Text\<close>: what the code uses of Go's \<open>strings\<close>, \<open>unicode/utf8\<close> and \<open>encoding/json\<close>, and the JavaScript text functions that
    \<open>policies/entropy.go\<close> reimplements.
  \<^item> \<open>Rate_Limit\<close> (\<open>ratelimit/ratelimit.go\<close>): sliding-window limiter and the two-dimensional check. \<open>Client_Keys\<close> (\<open>httpserver/server.go\<close>): the client address
    behind proxies and the keys a request is charged to. \<open>Throttle_Audit\<close> (\<open>httpserver/ratelimitaudit.go\<close>): folding of throttled hits into summary rows.
  \<^item> \<open>Domains\<close> (\<open>domains/domains.go\<close>), \<open>Elevations\<close> (\<open>elevations/elevations.go\<close>), \<open>Policies\<close> and \<open>Policy_Edit\<close> (\<open>policies/policies.go\<close>): the allow-list
    with wildcards, the level of an address, the policy that governs it, and the editing of policies.
  \<^item> \<open>Policy_Params\<close>, \<open>Policy_Entropy\<close>, \<open>Entropy_Sound\<close>, \<open>Guessing\<close> (\<open>policies/entropy.go\<close>, \<open>policies/bundle.go\<close>, the generators of the browser bundle): reading of policy
    parameters, the entropy calculators, and what a guesser gains against the passwords they admit.
  \<^item> \<open>Mail\<close> (\<open>mail/mail.go\<close>), \<open>Smtp\<close> (\<open>mailer/\<close>), \<open>Relay_Config\<close> (\<open>smtpconfig/smtpconfig.go\<close>), \<open>Mail_Capture\<close> (\<open>mailcapture/\<close>, \<open>httpserver/demo.go\<close>): addresses and messages, the
    SMTP dialogue with an arbitrary relay, the stored relay settings, the capture queue of evaluation and demo mode.
  \<^item> \<open>Tokens\<close> (\<open>tokens/tokens.go\<close>): issue and single redemption of request links.
  \<^item> \<open>Audit_Log\<close> (\<open>audit/audit.go\<close>): the chain, its sealed anchor, verification and pruning. \<open>Retention\<close> (\<open>retention/retention.go\<close>): the purge job.
  \<^item> \<open>Crypto_Box\<close> (\<open>cryptobox/cryptobox.go\<close>), \<open>Totp\<close> (\<open>totp/totp.go\<close>): sealing at rest, one-time and recovery codes.
  \<^item> \<open>Admin_Accounts\<close>, \<open>Admin_Auth\<close>, \<open>Login_Safety\<close> (\<open>admin/admin.go\<close>, \<open>admin/password.go\<close>): accounts and sessions; the authentication calls, and the same calls cut
    at their database statements; what holds of every interleaving of them. \<open>Login_Pending\<close> (\<open>httpserver/loginpending.go\<close>): the store between the two factors.
  \<^item> \<open>Strength\<close>, \<open>Strength_Words\<close> (\<open>strength/\<close>): the password strength estimate. \<open>Master_Secret\<close>, \<open>Key_Counts\<close> (\<open>config/mastersecret.go\<close>): the check of the master secret, and the
    count of the random keys it refuses.
  \<^item> \<open>Net_Guard\<close>, \<open>Integrations\<close>, \<open>Dispatcher\<close>, \<open>Event_History\<close> (\<open>integrations/\<close>): which addresses a sink may dial, the stored sinks, the fan-out of events with its router,
    workers and bounded lanes, and the history of an event through them.
  \<^item> \<open>Public_Flow\<close>, \<open>Public_Safety\<close> (\<open>httpserver/publicflow.go\<close>, \<open>requestmail.go\<close>, \<open>server.go\<close>): the public handlers, composed of the components above, and what they promise.
  \<^item> \<open>Libraries\<close> (\<open>libraries/\<close>): uploaded word lists, their validators and their files.

  \<^bold>\<open>How state and operations correspond\<close>

  A Go struct is a record with a prefix on its fields, a table row is a record with the columns the code reads or writes, a repository operation is a function
  from its arguments and the table to its result and the new table, under the source's name. The clock, random bytes and driver failures are arguments: an operation
  takes the time it reads, the bytes the random source gives (\<open>None\<close> when it fails) and the set of its statements that the driver fails, and every theorem
  quantifies over them. Errors are constructors named as in the source; a Go panic is a result of its own. Where the code is called concurrently, the model has a
  step relation in which each database statement, channel operation or atomic access is one step: \<open>Rate_Limit\<close> for the phases of \<open>Composite.Check\<close>, \<open>Tokens\<close> for the two
  statements of \<open>Consume\<close>, \<open>Login_Safety\<close> for logins and step-ups, \<open>Dispatcher\<close> for producers, router and workers, \<open>Relay_Config\<close> for the two halves of a save. \<open>Public_Flow\<close>,
  \<open>Libraries\<close> and \<open>Retention\<close> run one request, upload or purge at a time.

  \<^bold>\<open>What is shown\<close>

  \<^item> Single use: a request token, a pending login, a TOTP step and a recovery code are each accepted at most once in every interleaving. The first two are
    instances of the interface \<open>single_use\<close>.
  \<^item> Bounds: no window admits more requests than the limit; no address gets more tokens in an hour than the cap; no lockout period sees more password guesses than the
    limit; sessions end at their deadlines; queues stay within their bounds.
  \<^item> The public flow: a token is issued only after all gates, a link is spent only when its policy is served, a fresh link opens, and the answer to a request is the same
    and leaves no earlier than the latency floor whatever the instance knows about the address.
  \<^item> Integrity: keyed rows that verify under one anchor are the same rows; an honest log always verifies, after pruning by retention too; a recorded break is
    permanent; retention spares what is still in use.
  \<^item> Admission: an address is admitted exactly when its most specific row is active, and its policy is that of the governing row and of its level, never a
    weaker one after a failure; a policy that is handed out is one the browser accepts and meets its entropy floor.
  \<^item> Entropy: parameters are typed after reading, the union-find of the citation rule counts the largest class, and a G2 policy that passes the floor is as hard to guess as it
    says. The strength estimate is the cheapest reading of a secret, so an accepted password resists all of them; the statistical tests of a master key refuse random
    keys no more often than promised.
  \<^item> Protection: the last active administrator cannot be removed, revoked sessions stay dead, a login that succeeds had all its factors, relay passwords and links never
    travel in the clear and a stored relay password stays with its relay.
  \<^item> Fan-out: every event accepted at the intake is waiting, in the router's hand, or handed to every running sink that wants it, where it is taken, queued or an accounted drop;
    a flood stays in its lane; a worker finishes in a bounded number of steps; sinks dial exactly the documented addresses.
  \<^item> Refinements and equivalences: the limiter and a log that is never trimmed; requests cut at their statements and the calls of the code; \<open>domainCovers\<close> and the
    matching of the allow-list; the address guard and ranges of numbers; the table of the strength estimate and all covers of a secret.
  \<^item> Deviations found on the way: \<open>Domains.canonicalize_total_except_dot\<close>, \<open>Audit_Log.forged_row_zero_not_reported\<close>, \<open>Rate_Limit.check_race_charges_ip\<close>,
    \<open>Go_Json.json_string_invalid_collides\<close>, \<open>Net_Guard.zoned_addresses_evade_the_guard\<close>, \<open>Dispatcher.replaced_worker_can_lose_events\<close>,
    \<open>Policy_Edit.zero_regenerations_become_three\<close>, \<open>Public_Safety.unread_token_can_be_spent_unserved\<close>, \<open>Public_Safety.unbuilt_mail_is_not_audited\<close>,
    \<open>Libraries.concurrent_upload_can_lose_file\<close>, \<open>Relay_Config.unread_password_is_dropped\<close>, \<open>Smtp.ipv6_relay_never_dialled\<close>, \<open>Strength.context_words_of_address\<close>.

  \<^bold>\<open>Idealisations\<close>

  Times are integers of nanoseconds and are read back from the database as written. A clock reading and the statement that uses it are one step, also where the code
  reads the clock before it takes a lock. A statement or commit that fails leaves the table as it was. Floating-point numbers are reals, in the entropy rules, the strength
  estimate and the tests of the master secret. Hash functions, HMAC, the AEAD, bcrypt, the CSV reader, the mail address parser, JSON decoding, template rendering, media
  types, URL parsing and the Unicode tables are parameters; a theorem that needs more of them than that they are functions says so by a named hypothesis (\<open>aead_ok\<close>, \<open>json_ok\<close>,
  injectivity of the HMAC), each met by a stand-in in the witnesses. The relay of \<open>Smtp\<close> is a script of replies. Counters of the fan-out are natural numbers. Loops are
  structural recursions or have termination proofs; iterations are bounded only by the list of random draws given to \<open>NewRecoveryCodes\<close>, whose exhaustion is
  \<open>None\<close>, and by fuel where \<open>Entropy_Sound\<close> and \<open>Strength\<close> follow parent and back links, for which the number of links is proved or seen to be enough.

  \<^bold>\<open>Not modelled\<close>

  The console's HTTP and HTML handling (\<open>httpserver/admin.go\<close>), which calls the modelled repositories; the WebAuthn ceremonies, which are the go-webauthn library's; the
  syntax check of mail templates, which walks the trees of Go's template parser; branding and the demo reset; reading and validating the
  configuration apart from the master secret; drivers, migrations, sockets and process wiring.
\<close>

end
